(* ===== verification/Prelude.thy ===== *)
theory Prelude
  imports Main "HOL-Library.Word"
begin

text \<open>
  Shared vocabulary of the development: the machine integers of
  \<^verbatim>\<open>include/utils/types.hpp\<close>, the ways in which the C++ code stops (a failed
  \<^verbatim>\<open>assert\<close>, an \<^verbatim>\<open>ASSERT\<close> that exits, an exception leaving a
  \<^verbatim>\<open>noexcept\<close> function, a null or wild dereference, a loop that exhausts its bound),
  the error-propagating sequencing of results, and generic lemmas.
\<close>

section \<open>Machine integers\<close>

type_synonym u8 = "8 word"
type_synonym u32 = "32 word"
type_synonym u64 = "64 word"

section \<open>Results\<close>

text \<open>
  \<open>NullDeref\<close>: a null pointer is dereferenced. \<open>WildAccess\<close>: an unchecked index or
  pointer leaves its array. \<open>OutOfRange\<close>: \<^verbatim>\<open>std::array::at\<close> throws (and the
  \<^verbatim>\<open>noexcept\<close> caller terminates). \<open>AssertFailed\<close>: \<^verbatim>\<open>assert\<close> aborts.
  \<open>FatalExit\<close>: \<^verbatim>\<open>ASSERT\<close> or \<^verbatim>\<open>FATAL\<close> of
  \<^verbatim>\<open>include/utils/macros.hpp\<close> exits. \<open>Diverged\<close>: a loop of the model used up
  its bound; the theorems show that this value is never produced.
\<close>

datatype fault = NullDeref | WildAccess | OutOfRange | AssertFailed | FatalExit | Diverged

type_synonym 'a res = "fault + 'a"

definition res_bind :: "'a res \<Rightarrow> ('a \<Rightarrow> 'b res) \<Rightarrow> 'b res" where
  "res_bind m k = (case m of Inl e \<Rightarrow> Inl e | Inr x \<Rightarrow> k x)"

lemma res_bind_simps [simp]:
  "res_bind (Inl e) k = Inl e"
  "res_bind (Inr x) k = k x"
  by (simp_all add: res_bind_def)

lemma res_bind_cong [fundef_cong, cong]: "m = m' \<Longrightarrow> res_bind m k = res_bind m' k"
  by simp

lemma res_bind_eq_Inr: "res_bind m k = Inr y \<longleftrightarrow> (\<exists>x. m = Inr x \<and> k x = Inr y)"
  by (cases m) auto

lemma res_bind_eq_Inl:
  "res_bind m k = Inl e \<longleftrightarrow> m = Inl e \<or> (\<exists>x. m = Inr x \<and> k x = Inl e)"
  by (cases m) auto

lemma res_bind_assoc: "res_bind (res_bind m f) g = res_bind m (\<lambda>x. res_bind (f x) g)"
  by (cases m) auto

definition ensure :: "bool \<Rightarrow> fault \<Rightarrow> unit res" where
  "ensure c e = (if c then Inr () else Inl e)"

lemma ensure_simps [simp]:
  "ensure True e = Inr ()"
  "ensure False e = Inl e"
  by (simp_all add: ensure_def)

lemma ensure_eq_Inr [simp]: "ensure c e = Inr u \<longleftrightarrow> c"
  by (simp add: ensure_def)

definition is_ok :: "'a res \<Rightarrow> bool" where
  "is_ok m = (case m of Inl e \<Rightarrow> False | Inr x \<Rightarrow> True)"

lemma is_ok_simps [simp]: "is_ok (Inr x)" "\<not> is_ok (Inl e)"
  by (simp_all add: is_ok_def)

lemma is_ok_iff: "is_ok m \<longleftrightarrow> (\<exists>x. m = Inr x)"
  by (cases m) auto

text \<open>A step for each element of a list, in order, until one fails.\<close>

primrec res_fold :: "('b \<Rightarrow> 'a \<Rightarrow> 'a res) \<Rightarrow> 'b list \<Rightarrow> 'a \<Rightarrow> 'a res" where
  "res_fold f [] s = Inr s"
| "res_fold f (x # xs) s = res_bind (f x s) (res_fold f xs)"

lemma res_fold_append: "res_fold f (xs @ ys) s = res_bind (res_fold f xs s) (res_fold f ys)"
proof (induction xs arbitrary: s)
  case (Cons x xs)
  then show ?case by (cases "f x s") simp_all
qed simp

section \<open>Lists\<close>

lemma hd_conv_head: "xs \<noteq> [] \<Longrightarrow> xs = x # ys \<longleftrightarrow> x = hd xs \<and> ys = tl xs"
  by (cases xs) auto

lemma last_in_butlast_False: "distinct xs \<Longrightarrow> x \<in> set (butlast xs) \<Longrightarrow> x \<noteq> last xs"
  by (induction xs) (auto split: if_splits)

lemma distinct_length_le_bound:
  assumes "distinct xs" and "\<And>x. x \<in> set xs \<Longrightarrow> x < (n::nat)"
  shows "length xs \<le> n"
proof -
  have "set xs \<subseteq> {..<n}" using assms(2) by auto
  then have "card (set xs) \<le> n" by (metis card_lessThan card_mono finite_lessThan)
  then show ?thesis using assms(1) by (simp add: distinct_card)
qed

section \<open>Words\<close>

lemma unat_bound: "unat (w :: 'a::len word) < 2 ^ LENGTH('a)"
  by (rule unsigned_less)

lemma unat_minus_min: "unat (a - min a b) = unat a - unat (min a (b :: 'a::len word))"
  by (intro unat_sub) simp

end
