(* ===== verification/MemPool.thy ===== *)
theory MemPool
  imports Prelude
begin

text \<open>
  \<^verbatim>\<open>include/utils/mem_pool.hpp\<close>: a fixed number of cells, each an object and a free
  flag, with the index of the cell the next allocation will use. A pointer into the pool is
  the index of its cell. A deallocated cell keeps its object: reading through a stale pointer
  returns what was there. The interface the order books rely on is the locale \<open>cell_pool\<close>.
\<close>

section \<open>The pool\<close>

record 'a MemPool =
  object :: "nat \<Rightarrow> 'a"
  is_free :: "nat \<Rightarrow> bool"
  num_cells :: nat
  next_free_index :: nat

definition newMemPool :: "'a \<Rightarrow> nat \<Rightarrow> 'a MemPool" where
  "newMemPool v numCells =
    \<lparr>object = (\<lambda>_. v), is_free = (\<lambda>_. True), num_cells = numCells, next_free_index = 0\<rparr>"

text \<open>The scan of \<^verbatim>\<open>updateNextFree\<close> from cell \<open>i\<close> on.\<close>

function first_free :: "(nat \<Rightarrow> bool) \<Rightarrow> nat \<Rightarrow> nat \<Rightarrow> nat option" where
  "first_free f n i = (if i < n then if f i then Some i else first_free f n (Suc i) else None)"
  by pat_completeness auto
termination
  by (relation "measure (\<lambda>(f, n, i). n - i)") auto

declare first_free.simps [simp del]

definition updateNextFree :: "'a MemPool \<Rightarrow> 'a MemPool res" where
  "updateNextFree p =
    (case first_free (is_free p) (num_cells p) 0 of
       Some i \<Rightarrow> Inr (p\<lparr>next_free_index := i\<rparr>)
     | None \<Rightarrow> Inl AssertFailed)"

definition allocate :: "'a \<Rightarrow> 'a MemPool \<Rightarrow> (nat \<times> 'a MemPool) res" where
  "allocate v p =
    (let i = next_free_index p in
     res_bind (ensure (i < num_cells p) WildAccess) (\<lambda>_.
     res_bind (updateNextFree (p\<lparr>object := (object p)(i := v), is_free := (is_free p)(i := False)\<rparr>)) (\<lambda>p'.
     Inr (i, p'))))"

definition deallocate :: "nat \<Rightarrow> 'a MemPool \<Rightarrow> 'a MemPool res" where
  "deallocate i p =
    res_bind (ensure (i < num_cells p) AssertFailed) (\<lambda>_.
    res_bind (ensure (\<not> is_free p i) AssertFailed) (\<lambda>_.
    Inr (p\<lparr>is_free := (is_free p)(i := True)\<rparr>)))"

section \<open>Access through pointers\<close>

type_synonym ptr = "nat option"

definition load :: "'a MemPool \<Rightarrow> ptr \<Rightarrow> 'a res" where
  "load p x = (case x of None \<Rightarrow> Inl NullDeref
     | Some i \<Rightarrow> if i < num_cells p then Inr (object p i) else Inl WildAccess)"

definition update_at :: "ptr \<Rightarrow> ('a \<Rightarrow> 'a) \<Rightarrow> 'a MemPool \<Rightarrow> 'a MemPool res" where
  "update_at x f p = (case x of None \<Rightarrow> Inl NullDeref
     | Some i \<Rightarrow> if i < num_cells p then Inr (p\<lparr>object := (object p)(i := f (object p i))\<rparr>)
               else Inl WildAccess)"

lemma load_None [simp]: "load p None = Inl NullDeref"
  by (simp add: load_def)

lemma load_Some [simp]: "i < num_cells p \<Longrightarrow> load p (Some i) = Inr (object p i)"
  by (simp add: load_def)

lemma update_at_Some [simp]:
  "i < num_cells p \<Longrightarrow> update_at (Some i) f p = Inr (p\<lparr>object := (object p)(i := f (object p i))\<rparr>)"
  by (simp add: update_at_def)

section \<open>Invariant\<close>

definition live :: "'a MemPool \<Rightarrow> nat set" where
  "live p = {i. i < num_cells p \<and> \<not> is_free p i}"

definition spare :: "'a MemPool \<Rightarrow> nat" where
  "spare p = card {i. i < num_cells p \<and> is_free p i}"

text \<open>The cell the next allocation takes is a free cell of the pool.\<close>

definition pool_ok :: "'a MemPool \<Rightarrow> bool" where
  "pool_ok p \<longleftrightarrow> next_free_index p < num_cells p \<and> is_free p (next_free_index p)"

lemma first_free_Some:
  "first_free f n i = Some j \<Longrightarrow> i \<le> j \<and> j < n \<and> f j \<and> (\<forall>k. i \<le> k \<and> k < j \<longrightarrow> \<not> f k)"
proof (induction f n i rule: first_free.induct)
  case (1 f n i)
  show ?case
  proof (cases "i < n \<and> \<not> f i")
    case True
    then have "first_free f n (Suc i) = Some j"
      using "1.prems" by (simp add: first_free.simps[of f n i])
    then have "Suc i \<le> j \<and> j < n \<and> f j \<and> (\<forall>k. Suc i \<le> k \<and> k < j \<longrightarrow> \<not> f k)"
      using "1.IH" True by blast
    then show ?thesis using True by (metis Suc_leD le_antisym not_less_eq_eq)
  next
    case False
    then show ?thesis
      using "1.prems" by (auto simp: first_free.simps[of f n i] split: if_splits)
  qed
qed

lemma first_free_None: "first_free f n i = None \<longleftrightarrow> (\<forall>k. i \<le> k \<and> k < n \<longrightarrow> \<not> f k)"
proof (induction f n i rule: first_free.induct)
  case (1 f n i)
  show ?case
  proof (cases "i < n \<and> \<not> f i")
    case True
    then have "first_free f n i = None \<longleftrightarrow> (\<forall>k. Suc i \<le> k \<and> k < n \<longrightarrow> \<not> f k)"
      using 1 by (simp add: first_free.simps[of f n i])
    also have "\<dots> \<longleftrightarrow> (\<forall>k. i \<le> k \<and> k < n \<longrightarrow> \<not> f k)"
      using True by (metis Suc_leD le_antisym not_less_eq_eq)
    finally show ?thesis .
  next
    case False
    then show ?thesis by (auto simp: first_free.simps[of f n i])
  qed
qed

lemma finite_live [simp]: "finite (live p)"
  by (simp add: live_def)

lemma live_bound: "i \<in> live p \<Longrightarrow> i < num_cells p"
  by (simp add: live_def)

lemma spare_live: "spare p = num_cells p - card (live p)"
proof -
  have "{i. i < num_cells p \<and> is_free p i} = {..<num_cells p} - live p"
    by (auto simp: live_def)
  moreover have "card ({..<num_cells p} - live p) = num_cells p - card (live p)"
    by (subst card_Diff_subset) (auto simp: live_def)
  ultimately show ?thesis by (simp add: spare_def)
qed

lemma allocate_ok:
  assumes ok: "pool_ok p" and room: "2 \<le> spare p"
  shows "\<exists>i p'. allocate v p = Inr (i, p') \<and> i \<notin> live p \<and> i < num_cells p \<and>
    live p' = insert i (live p) \<and> object p' = (object p)(i := v) \<and>
    num_cells p' = num_cells p \<and> pool_ok p'"
proof -
  let ?i = "next_free_index p"
  let ?q = "p\<lparr>object := (object p)(?i := v), is_free := (is_free p)(?i := False)\<rparr>"
  have i: "?i < num_cells p" "is_free p ?i" using ok by (auto simp: pool_ok_def)
  let ?F = "{i. i < num_cells p \<and> is_free p i}"
  have "finite ?F" by simp
  then have "card (?F - {?i}) = card ?F - 1" using i by (subst card_Diff_singleton) auto
  then have "card (?F - {?i}) \<noteq> 0" using room by (simp add: spare_def)
  then have "?F - {?i} \<noteq> {}" by (metis card.empty)
  then obtain k where "k < num_cells p" "is_free p k" "k \<noteq> ?i" by blast
  then have "first_free (is_free ?q) (num_cells ?q) 0 \<noteq> None"
    by (auto simp: first_free_None)
  then obtain j where j: "first_free (is_free ?q) (num_cells ?q) 0 = Some j" by blast
  from first_free_Some[OF this] have "j < num_cells p" "is_free ?q j" by auto
  then have "allocate v p = Inr (?i, ?q\<lparr>next_free_index := j\<rparr>)"
    and "pool_ok (?q\<lparr>next_free_index := j\<rparr>)"
    using i j by (simp_all add: allocate_def updateNextFree_def pool_ok_def Let_def)
  moreover have "live (?q\<lparr>next_free_index := j\<rparr>) = insert ?i (live p)" "?i \<notin> live p"
    using i by (auto simp: live_def)
  ultimately show ?thesis using i by auto
qed

lemma deallocate_ok:
  assumes ok: "pool_ok p" and i: "i \<in> live p"
  shows "\<exists>p'. deallocate i p = Inr p' \<and> live p' = live p - {i} \<and> object p' = object p \<and>
    num_cells p' = num_cells p \<and> pool_ok p'"
  using assms by (auto simp: deallocate_def live_def pool_ok_def)

lemma newMemPool_ok:
  "0 < n \<Longrightarrow> pool_ok (newMemPool v n)" "live (newMemPool v n) = {}" "spare (newMemPool v n) = n"
  by (simp_all add: newMemPool_def pool_ok_def live_def spare_def)

section \<open>The interface of the pool\<close>

locale cell_pool =
  fixes alloc :: "'a \<Rightarrow> 'p \<Rightarrow> (nat \<times> 'p) res"
    and free :: "nat \<Rightarrow> 'p \<Rightarrow> 'p res"
    and used :: "'p \<Rightarrow> nat set"
    and contents :: "'p \<Rightarrow> nat \<Rightarrow> 'a"
    and cap :: "'p \<Rightarrow> nat"
    and ok :: "'p \<Rightarrow> bool"
  assumes used_bound: "used p \<subseteq> {..<cap p}"
    and alloc_succeeds: "ok p \<Longrightarrow> card (used p) + 2 \<le> cap p \<Longrightarrow>
      \<exists>i p'. alloc v p = Inr (i, p') \<and> i \<notin> used p \<and> i < cap p \<and> used p' = insert i (used p) \<and>
        contents p' = (contents p)(i := v) \<and> cap p' = cap p \<and> ok p'"
    and free_succeeds: "ok p \<Longrightarrow> i \<in> used p \<Longrightarrow>
      \<exists>p'. free i p = Inr p' \<and> used p' = used p - {i} \<and> contents p' = contents p \<and>
        cap p' = cap p \<and> ok p'"
    and free_rejects: "i \<notin> used p \<Longrightarrow> free i p = Inl AssertFailed"
begin

lemma finite_used [simp]: "finite (used p)"
  using used_bound finite_subset by blast

lemma alloc_elim:
  assumes "ok p" and "card (used p) + 2 \<le> cap p"
  obtains i p' where "alloc v p = Inr (i, p')" "i \<notin> used p" "i < cap p"
    "used p' = insert i (used p)" "contents p' = (contents p)(i := v)" "cap p' = cap p" "ok p'"
  using alloc_succeeds[OF assms] by blast

lemma free_elim:
  assumes "ok p" and "i \<in> used p"
  obtains p' where "free i p = Inr p'" "used p' = used p - {i}" "contents p' = contents p"
    "cap p' = cap p" "ok p'"
  using free_succeeds[OF assms] by blast

text \<open>A cell handed out and given back leaves the pool with the cells it had, and cannot be
  given back a second time.\<close>

lemma alloc_free_restores:
  assumes "ok p" and "card (used p) + 2 \<le> cap p"
  shows "\<exists>i p1 p2. alloc v p = Inr (i, p1) \<and> free i p1 = Inr p2 \<and> used p2 = used p \<and> ok p2 \<and>
    free i p2 = Inl AssertFailed"
proof -
  from assms obtain i p1 where a: "alloc v p = Inr (i, p1)" "i \<notin> used p"
    "used p1 = insert i (used p)" "ok p1" by (rule alloc_elim)
  then have "i \<in> used p1" by simp
  with \<open>ok p1\<close> obtain p2 where f: "free i p1 = Inr p2" "used p2 = used p1 - {i}" "ok p2"
    by (rule free_elim)
  then have "used p2 = used p" using a by auto
  then show ?thesis using a f free_rejects[of i p2] by blast
qed

text \<open>Two allocations in a row never hand out the same cell.\<close>

lemma alloc_fresh:
  assumes "ok p" and "card (used p) + 3 \<le> cap p"
  shows "\<exists>i j p1 p2. alloc v p = Inr (i, p1) \<and> alloc w p1 = Inr (j, p2) \<and> i \<noteq> j \<and>
    contents p2 i = v \<and> contents p2 j = w"
proof -
  have "card (used p) + 2 \<le> cap p" using assms(2) by simp
  with assms(1) obtain i p1 where a: "alloc v p = Inr (i, p1)" "i \<notin> used p"
    "used p1 = insert i (used p)" "contents p1 = (contents p)(i := v)" "cap p1 = cap p" "ok p1"
    by (rule alloc_elim)
  have "card (used p1) + 2 \<le> cap p1" using a assms(2) by simp
  with \<open>ok p1\<close> obtain j p2 where "alloc w p1 = Inr (j, p2)" "j \<notin> used p1"
    "contents p2 = (contents p1)(j := w)" by (rule alloc_elim)
  then show ?thesis using a by auto
qed

end

interpretation mp: cell_pool allocate deallocate live object num_cells pool_ok
proof unfold_locales
  show "live p \<subseteq> {..<num_cells p}" for p :: "'a MemPool"
    by (auto simp: live_def)
next
  fix p :: "'a MemPool" and v :: 'a
  assume "pool_ok p" and "card (live p) + 2 \<le> num_cells p"
  then show "\<exists>i p'. allocate v p = Inr (i, p') \<and> i \<notin> live p \<and> i < num_cells p \<and>
      live p' = insert i (live p) \<and> object p' = (object p)(i := v) \<and>
      num_cells p' = num_cells p \<and> pool_ok p'"
    by (intro allocate_ok) (simp_all add: spare_live)
next
  fix p :: "'a MemPool" and i :: nat
  assume "pool_ok p" and "i \<in> live p"
  then show "\<exists>p'. deallocate i p = Inr p' \<and> live p' = live p - {i} \<and> object p' = object p \<and>
      num_cells p' = num_cells p \<and> pool_ok p'"
    by (rule deallocate_ok)
next
  fix p :: "'a MemPool" and i :: nat
  assume "i \<notin> live p"
  then show "deallocate i p = Inl AssertFailed"
    by (cases "i < num_cells p") (auto simp: deallocate_def live_def)
qed

text \<open>The last free cell cannot be handed out: \<^verbatim>\<open>updateNextFree\<close> aborts after the
  allocation that fills the pool, so a pool of \<open>n\<close> cells serves \<open>n - 1\<close> objects.\<close>

lemma allocate_last_cell_aborts:
  assumes "pool_ok p" and "spare p = 1"
  shows "allocate v p = Inl AssertFailed"
proof -
  let ?i = "next_free_index p"
  have i: "?i < num_cells p" "is_free p ?i" using assms by (auto simp: pool_ok_def)
  from assms(2) obtain k where "{i. i < num_cells p \<and> is_free p i} = {k}"
    by (auto simp: spare_def card_1_singleton_iff)
  then have only: "j = k" if "j < num_cells p" "is_free p j" for j using that by blast
  have "\<not> ((is_free p)(?i := False)) j" if "j < num_cells p" for j
    using only[of j] only[of ?i] i that by auto
  then have "first_free ((is_free p)(?i := False)) (num_cells p) 0 = None"
    by (simp add: first_free_None)
  then show ?thesis using i by (simp add: allocate_def updateNextFree_def)
qed

end
