(* ===== verification/TradingTypes.thy ===== *)
theory TradingTypes
  imports Prelude
begin

text \<open>
  \<^verbatim>\<open>include/utils/types.hpp\<close>: identifiers with their reserved invalid values, sides
  and algorithm kinds, and the conversions the rest of the program uses. The identifiers keep
  their widths; \<^verbatim>\<open>std::to_string\<close> of an unsigned value is decimal printing.
\<close>

section \<open>Sizes\<close>

definition ME_MAX_TICKERS :: nat where "ME_MAX_TICKERS = 8"
definition ME_MAX_CLIENTS_UPDATES :: nat where "ME_MAX_CLIENTS_UPDATES = 256 * 1024"
definition ME_MAX_MARKET_UPDATES :: nat where "ME_MAX_MARKET_UPDATES = 256 * 1024"
definition ME_MAX_NUM_CLIENTS :: nat where "ME_MAX_NUM_CLIENTS = 256"
definition ME_MAX_ORDER_IDS :: nat where "ME_MAX_ORDER_IDS = 1024 * 1024"
definition ME_MAX_PRICE_LEVELS :: nat where "ME_MAX_PRICE_LEVELS = 256"

lemmas size_defs = ME_MAX_TICKERS_def ME_MAX_CLIENTS_UPDATES_def ME_MAX_MARKET_UPDATES_def
  ME_MAX_NUM_CLIENTS_def ME_MAX_ORDER_IDS_def ME_MAX_PRICE_LEVELS_def

section \<open>Identifiers\<close>

type_synonym OrderId = u64
type_synonym TickerId = u32
type_synonym ClientId = u32
type_synonym Price = u64
type_synonym Qty = u32
type_synonym Priority = u64

definition OrderId_INVALID :: OrderId where "OrderId_INVALID = - 1"
definition TickerId_INVALID :: TickerId where "TickerId_INVALID = - 1"
definition ClientId_INVALID :: ClientId where "ClientId_INVALID = - 1"
definition Price_INVALID :: Price where "Price_INVALID = - 1"
definition Qty_INVALID :: Qty where "Qty_INVALID = - 1"
definition Priority_INVALID :: Priority where "Priority_INVALID = - 1"

lemmas invalid_defs = OrderId_INVALID_def TickerId_INVALID_def ClientId_INVALID_def
  Price_INVALID_def Qty_INVALID_def Priority_INVALID_def

fun to_string :: "nat \<Rightarrow> string" where
  "to_string n = (if n < 10 then [char_of (48 + n)]
                  else to_string (n div 10) @ [char_of (48 + n mod 10)])"

declare to_string.simps [simp del]

definition orderIdToString :: "OrderId \<Rightarrow> string" where
  "orderIdToString i = (if i = OrderId_INVALID then ''INVALID'' else to_string (unat i))"

definition tickerIdToString :: "TickerId \<Rightarrow> string" where
  "tickerIdToString i = (if i = TickerId_INVALID then ''INVALID'' else to_string (unat i))"

definition clientIdToString :: "ClientId \<Rightarrow> string" where
  "clientIdToString i = (if i = ClientId_INVALID then ''INVALID'' else to_string (unat i))"

definition priceToString :: "Price \<Rightarrow> string" where
  "priceToString p = (if p = Price_INVALID then ''INVALID'' else to_string (unat p))"

definition qtyToString :: "Qty \<Rightarrow> string" where
  "qtyToString q = (if q = Qty_INVALID then ''INVALID'' else to_string (unat q))"

definition priorityToString :: "Priority \<Rightarrow> string" where
  "priorityToString p = (if p = Priority_INVALID then ''INVALID'' else to_string (unat p))"

text \<open>Reading a decimal string back, the inverse the printing lemmas are stated with.\<close>

definition of_digits :: "string \<Rightarrow> nat" where
  "of_digits s = foldl (\<lambda>a c. 10 * a + (of_char c - 48)) 0 s"

lemma of_digits_snoc [simp]: "of_digits (s @ [c]) = 10 * of_digits s + (of_char c - 48)"
  by (simp add: of_digits_def)

lemma of_digits_single [simp]: "of_digits [c] = of_char c - 48"
  by (simp add: of_digits_def)

lemma of_char_digit [simp]: "d < 10 \<Longrightarrow> (of_char (char_of (48 + d :: nat) :: char) :: nat) = 48 + d"
  by (simp add: of_char_of)

lemma of_digits_to_string [simp]: "of_digits (to_string n) = n"
proof (induction n rule: to_string.induct)
  case (1 n)
  then show ?case
    by (cases "n < 10") (simp_all add: to_string.simps[of n])
qed

lemma to_string_digits: "c \<in> set (to_string n) \<Longrightarrow> 48 \<le> (of_char c :: nat) \<and> (of_char c :: nat) \<le> 57"
proof (induction n rule: to_string.induct)
  case (1 n)
  then show ?case
    by (cases "n < 10") (auto simp: to_string.simps[of n])
qed

lemma to_string_not_INVALID: "to_string n \<noteq> ''INVALID''"
proof
  assume "to_string n = ''INVALID''"
  then have "CHR ''I'' \<in> set (to_string n)" by simp
  from to_string_digits[OF this] show False by simp
qed

lemma to_string_inject: "to_string m = to_string n \<longleftrightarrow> m = n"
  by (metis of_digits_to_string)

text \<open>A printed order identifier determines the identifier; the reserved invalid identifier
  prints as a word no number prints as.\<close>

theorem orderIdToString_inject: "orderIdToString i = orderIdToString j \<longleftrightarrow> i = j"
  using to_string_not_INVALID[of "unat i"] to_string_not_INVALID[of "unat j"]
  by (auto simp: orderIdToString_def to_string_inject word_unat_eq_iff)

section \<open>Sides\<close>

text \<open>An enumeration with a fixed underlying type holds any value of that type; \<open>SIDE_OTHER\<close>
  stands for the bytes that are no enumerator, which a received message may carry.\<close>

datatype Side = SIDE_INVALID | BUY | SELL | SIDE_MAX | SIDE_OTHER u8

fun sideToString :: "Side \<Rightarrow> string" where
  "sideToString BUY = ''BUY''"
| "sideToString SELL = ''SELL''"
| "sideToString SIDE_MAX = ''MAX''"
| "sideToString SIDE_INVALID = ''INVALID''"
| "sideToString (SIDE_OTHER _) = ''UNKNOWN''"

text \<open>\<^verbatim>\<open>static_cast<int>(side)\<close>, and the conversion to
  \<^verbatim>\<open>size_t\<close> whose increment wraps for \<open>SELL\<close>.\<close>

fun sideToValue :: "Side \<Rightarrow> int" where
  "sideToValue SIDE_INVALID = 0"
| "sideToValue BUY = 1"
| "sideToValue SELL = - 1"
| "sideToValue SIDE_MAX = 2"
| "sideToValue (SIDE_OTHER b) = sint b"

definition sideToIndex :: "Side \<Rightarrow> u64" where
  "sideToIndex s = word_of_int (sideToValue s) + 1"

lemma sideToIndex_simps [simp]:
  "sideToIndex SELL = 0" "sideToIndex SIDE_INVALID = 1"
  "sideToIndex BUY = 2" "sideToIndex SIDE_MAX = 3"
  by (simp_all add: sideToIndex_def)

text \<open>The slot of a side in the arrays of size \<^verbatim>\<open>sideToIndex(Side::MAX) + 1\<close>: in range
  for every enumerator and different for different ones, the wrap-around at \<open>SELL\<close> included.\<close>

definition enumerators :: "Side list" where
  "enumerators = [SIDE_INVALID, BUY, SELL, SIDE_MAX]"

lemma sideToIndex_slots:
  "s \<in> set enumerators \<Longrightarrow> t \<in> set enumerators \<Longrightarrow>
   unat (sideToIndex s) < unat (sideToIndex SIDE_MAX + 1) \<and> (sideToIndex s = sideToIndex t \<longleftrightarrow> s = t)"
  by (cases s; cases t) (simp_all add: enumerators_def)

text \<open>The byte of a side, and the side of a byte.\<close>

fun side_byte :: "Side \<Rightarrow> u8" where
  "side_byte SIDE_INVALID = 0"
| "side_byte BUY = 1"
| "side_byte SELL = 255"
| "side_byte SIDE_MAX = 2"
| "side_byte (SIDE_OTHER b) = b"

definition byte_side :: "u8 \<Rightarrow> Side" where
  "byte_side b = (if b = 0 then SIDE_INVALID else if b = 1 then BUY else if b = 255 then SELL
     else if b = 2 then SIDE_MAX else SIDE_OTHER b)"

lemma side_byte_side [simp]: "side_byte (byte_side b) = b"
  by (simp add: byte_side_def)

lemma byte_side_enumerators [simp]: "s \<in> set enumerators \<Longrightarrow> byte_side (side_byte s) = s"
  by (auto simp: enumerators_def byte_side_def)

section \<open>Algorithms\<close>

datatype AlgoType = ALGO_INVALID | RANDOM | MAKER | TAKER | ALGO_MAX

fun algoTypeToString :: "AlgoType \<Rightarrow> string" where
  "algoTypeToString RANDOM = ''RANDOM''"
| "algoTypeToString MAKER = ''MAKER''"
| "algoTypeToString TAKER = ''TAKER''"
| "algoTypeToString ALGO_MAX = ''MAX''"
| "algoTypeToString ALGO_INVALID = ''INVALID''"

text \<open>\<^verbatim>\<open>static_cast<AlgoType>(i)\<close> on the enumerators' values, in the order the loop of
  \<^verbatim>\<open>stringToAlgoType\<close> visits them.\<close>

definition algo_values :: "AlgoType list" where
  "algo_values = [ALGO_INVALID, RANDOM, MAKER, TAKER, ALGO_MAX]"

definition stringToAlgoType :: "string \<Rightarrow> AlgoType" where
  "stringToAlgoType str =
    (case find (\<lambda>a. algoTypeToString a = str) algo_values of
       Some a \<Rightarrow> a | None \<Rightarrow> ALGO_INVALID)"

lemma stringToAlgoType_roundtrip: "stringToAlgoType (algoTypeToString a) = a"
  by (cases a) (simp_all add: stringToAlgoType_def algo_values_def)

lemma stringToAlgoType_unknown:
  "str \<notin> range algoTypeToString \<Longrightarrow> stringToAlgoType str = ALGO_INVALID"
  by (auto simp: stringToAlgoType_def split: option.splits dest!: find_Some_iff[THEN iffD1])

end
