(* ===== verification/BookCore.thy ===== *)
theory BookCore
  imports MemPool TradingTypes
begin

text \<open>
  The pointer structure that the exchange's \<^verbatim>\<open>MEOrderBook\<close>
  (\<^verbatim>\<open>src/exchange/order_book.cpp\<close>) and the client's \<^verbatim>\<open>MarketOrderBook\<close>
  (\<^verbatim>\<open>src/client/market_order_book.cpp\<close>) share line by line: orders in pool cells,
  linked into one ring per price level; price levels in pool cells, linked into one ring per
  side with the best price at the head; an array that finds the level of a price by the
  price's remainder. The functions here are the parts the two classes have in common; the
  fields and statements that differ are in the theories of the two classes.
\<close>

section \<open>Orders, levels, books\<close>

text \<open>The fields common to \<^verbatim>\<open>MEOrder\<close> and \<^verbatim>\<open>MarketOrder\<close>; \<open>ord_id\<close> is
  \<^verbatim>\<open>market_order_id_\<close> of the former and \<^verbatim>\<open>order_id_\<close> of the latter.\<close>

record order =
  ord_id :: OrderId
  ord_side :: Side
  ord_price :: Price
  ord_qty :: Qty
  ord_priority :: Priority
  ord_next :: ptr
  ord_prev :: ptr

text \<open>\<^verbatim>\<open>MEOrdersAtPrice\<close> and \<^verbatim>\<open>MarketOrdersAtPrice\<close>; \<open>lvl_head\<close> is
  \<^verbatim>\<open>orders_head_\<close> of the former and \<^verbatim>\<open>first_order_\<close> of the latter.\<close>

record OrdersAtPrice =
  lvl_side :: Side
  lvl_price :: Price
  lvl_head :: ptr
  lvl_next :: ptr
  lvl_prev :: ptr

record 'x book =
  orders_pool :: "'x order_scheme MemPool"
  levels_pool :: "OrdersAtPrice MemPool"
  bids_by_price :: ptr
  asks_by_price :: ptr
  price_to_level :: "nat \<Rightarrow> ptr"

definition priceToIndex :: "Price \<Rightarrow> nat" where
  "priceToIndex p = unat p mod ME_MAX_PRICE_LEVELS"

definition getOrderAtPrice :: "'x book \<Rightarrow> Price \<Rightarrow> ptr" where
  "getOrderAtPrice b p = price_to_level b (priceToIndex p)"

text \<open>\<^verbatim>\<open>(side == Side::BUY) ? bids_by_price_ : asks_by_price_\<close>, as a value and as the
  target of an assignment.\<close>

definition head_of :: "Side \<Rightarrow> 'x book \<Rightarrow> ptr" where
  "head_of s b = (if s = BUY then bids_by_price b else asks_by_price b)"

definition set_head :: "Side \<Rightarrow> ptr \<Rightarrow> 'x book \<Rightarrow> 'x book" where
  "set_head s x b = (if s = BUY then b\<lparr>bids_by_price := x\<rparr> else b\<lparr>asks_by_price := x\<rparr>)"

lemma head_of_simps [simp]:
  "head_of s (b\<lparr>orders_pool := Q\<rparr>) = head_of s b"
  "head_of s (b\<lparr>levels_pool := P\<rparr>) = head_of s b"
  "head_of s (b\<lparr>price_to_level := m\<rparr>) = head_of s b"
  by (simp_all add: head_of_def)

lemma set_head_simps [simp]:
  "orders_pool (set_head s x b) = orders_pool b"
  "levels_pool (set_head s x b) = levels_pool b"
  "price_to_level (set_head s x b) = price_to_level b"
  "head_of s (set_head s x b) = x"
  by (simp_all add: set_head_def head_of_def)

section \<open>Adding\<close>

definition move_cond :: "OrdersAtPrice \<Rightarrow> OrdersAtPrice \<Rightarrow> bool" where
  "move_cond new cur \<longleftrightarrow>
     lvl_side new = BUY \<and> lvl_price new < lvl_price cur \<or>
     lvl_side new = SELL \<and> lvl_price new > lvl_price cur"

text \<open>The move past the head before the loop of \<^verbatim>\<open>AddOrderAtPrice\<close>: the node to look at
  next and whether the new level goes behind it.\<close>

definition skip_head ::
  "OrdersAtPrice MemPool \<Rightarrow> OrdersAtPrice \<Rightarrow> ptr \<Rightarrow> OrdersAtPrice \<Rightarrow> (ptr \<times> bool) res" where
  "skip_head P new head H =
    (if move_cond new H
     then res_bind (load P (lvl_next H)) (\<lambda>C. Inr (lvl_next H, move_cond new C))
     else Inr (head, False))"

text \<open>The \<^verbatim>\<open>while\<close> loop of \<^verbatim>\<open>AddOrderAtPrice\<close>, bounded by a number of
  iterations that the callers set beyond the number of cells of the pool.\<close>

primrec find_spot ::
  "nat \<Rightarrow> OrdersAtPrice MemPool \<Rightarrow> OrdersAtPrice \<Rightarrow> ptr \<Rightarrow> bool \<Rightarrow> ptr \<Rightarrow> ptr res" where
  "find_spot 0 P new head move cur = Inl Diverged"
| "find_spot (Suc n) P new head move cur =
    (if move \<and> cur \<noteq> head then
       res_bind (load P cur) (\<lambda>C.
       if move_cond new C then find_spot n P new head True (lvl_next C)
       else find_spot n P new head False cur)
     else Inr cur)"

lemma find_spot_numeral [simp]:
  "find_spot (numeral k) P new head move cur =
    (if move \<and> cur \<noteq> head then
       res_bind (load P cur) (\<lambda>C.
       if move_cond new C then find_spot (pred_numeral k) P new head True (lvl_next C)
       else find_spot (pred_numeral k) P new head False cur)
     else Inr cur)"
  by (simp add: numeral_eq_Suc)

definition AddOrderAtPrice :: "nat \<Rightarrow> 'x book \<Rightarrow> 'x book res" where
  "AddOrderAtPrice new b =
    res_bind (load (levels_pool b) (Some new)) (\<lambda>N.
    let b = b\<lparr>price_to_level := (price_to_level b)(priceToIndex (lvl_price N) := Some new)\<rparr>;
        P = levels_pool b;
        head = head_of (lvl_side N) b in
    if head = None then
      res_bind (update_at (Some new) (\<lambda>x. x\<lparr>lvl_next := Some new, lvl_prev := Some new\<rparr>) P) (\<lambda>P.
      Inr (set_head (lvl_side N) (Some new) (b\<lparr>levels_pool := P\<rparr>)))
    else
      res_bind (load P head) (\<lambda>H.
      res_bind (skip_head P N head H) (\<lambda>(cur, move).
      res_bind (find_spot (num_cells P + 2) P N head move cur) (\<lambda>cur.
      res_bind (load P cur) (\<lambda>C. let cur = lvl_prev C in
      res_bind (load P cur) (\<lambda>C.
      res_bind (update_at (Some new) (\<lambda>x. x\<lparr>lvl_next := lvl_next C, lvl_prev := cur\<rparr>) P) (\<lambda>P.
      res_bind (load P cur) (\<lambda>C.
      res_bind (update_at (lvl_next C) (\<lambda>x. x\<lparr>lvl_prev := Some new\<rparr>) P) (\<lambda>P.
      res_bind (update_at cur (\<lambda>x. x\<lparr>lvl_next := Some new\<rparr>) P) (\<lambda>P.
      let b = b\<lparr>levels_pool := P\<rparr> in
      if lvl_side N = BUY \<and> lvl_price N > lvl_price H \<or>
         lvl_side N = SELL \<and> lvl_price N < lvl_price H
      then Inr (set_head (lvl_side N) (Some new) b)
      else Inr b))))))))))"

text \<open>\<^verbatim>\<open>AddOrderToPriceLevel\<close> and \<^verbatim>\<open>AddOrder\<close> up to their last statement.\<close>

definition link_order :: "nat \<Rightarrow> 'x book \<Rightarrow> 'x book res" where
  "link_order ord b =
    res_bind (load (orders_pool b) (Some ord)) (\<lambda>Od.
    case getOrderAtPrice b (ord_price Od) of
      None \<Rightarrow>
        res_bind (update_at (Some ord) (\<lambda>x. x\<lparr>ord_next := Some ord, ord_prev := Some ord\<rparr>) (orders_pool b)) (\<lambda>Q.
        res_bind (allocate \<lparr>lvl_side = ord_side Od, lvl_price = ord_price Od, lvl_head = Some ord,
                    lvl_next = None, lvl_prev = None\<rparr> (levels_pool b)) (\<lambda>(l, P).
        AddOrderAtPrice l (b\<lparr>orders_pool := Q, levels_pool := P\<rparr>)))
    | Some l \<Rightarrow>
        res_bind (load (levels_pool b) (Some l)) (\<lambda>L. let levelHead = lvl_head L; Q = orders_pool b in
        res_bind (load Q levelHead) (\<lambda>H.
        res_bind (update_at (ord_prev H) (\<lambda>x. x\<lparr>ord_next := Some ord\<rparr>) Q) (\<lambda>Q.
        res_bind (update_at (Some ord) (\<lambda>x. x\<lparr>ord_next := levelHead\<rparr>) Q) (\<lambda>Q.
        res_bind (load Q levelHead) (\<lambda>H.
        res_bind (update_at (Some ord) (\<lambda>x. x\<lparr>ord_prev := ord_prev H\<rparr>) Q) (\<lambda>Q.
        res_bind (update_at levelHead (\<lambda>x. x\<lparr>ord_prev := Some ord\<rparr>) Q) (\<lambda>Q.
        Inr (b\<lparr>orders_pool := Q\<rparr>)))))))))"

section \<open>Removing\<close>

definition removeOrderAtPrice :: "ptr \<Rightarrow> 'x book \<Rightarrow> 'x book res" where
  "removeOrderAtPrice lvl b =
    res_bind (load (levels_pool b) lvl) (\<lambda>L.
    res_bind
      (if lvl_next L = lvl then Inr (set_head (lvl_side L) None b)
       else
         res_bind (update_at (lvl_prev L) (\<lambda>x. x\<lparr>lvl_next := lvl_next L\<rparr>) (levels_pool b)) (\<lambda>P.
         res_bind (load P lvl) (\<lambda>L'.
         res_bind (update_at (lvl_next L') (\<lambda>x. x\<lparr>lvl_prev := lvl_prev L'\<rparr>) P) (\<lambda>P.
         res_bind (load P lvl) (\<lambda>L'.
         let b = (if head_of (lvl_side L) b = lvl then set_head (lvl_side L) (lvl_next L') b else b) in
         res_bind (update_at lvl (\<lambda>x. x\<lparr>lvl_prev := None, lvl_next := None\<rparr>) P) (\<lambda>P.
         Inr (b\<lparr>levels_pool := P\<rparr>))))))) (\<lambda>b.
    let b = b\<lparr>price_to_level := (price_to_level b)(priceToIndex (lvl_price L) := None)\<rparr> in
    res_bind (deallocate (the lvl) (levels_pool b)) (\<lambda>P.
    Inr (b\<lparr>levels_pool := P\<rparr>))))"

text \<open>\<^verbatim>\<open>removeOrder\<close> of both classes up to the statement that clears the entry of the
  order's identifier.\<close>

definition unlink_order :: "nat \<Rightarrow> 'x book \<Rightarrow> 'x book res" where
  "unlink_order ord b =
    res_bind (load (orders_pool b) (Some ord)) (\<lambda>Od.
    let orderLevel = getOrderAtPrice b (ord_price Od) in
    if ord_next Od = Some ord \<and> ord_prev Od = Some ord then removeOrderAtPrice orderLevel b
    else
      res_bind (update_at (ord_prev Od) (\<lambda>x. x\<lparr>ord_next := ord_next Od\<rparr>) (orders_pool b)) (\<lambda>Q.
      res_bind (load Q (Some ord)) (\<lambda>Od'.
      res_bind (update_at (ord_next Od') (\<lambda>x. x\<lparr>ord_prev := ord_prev Od'\<rparr>) Q) (\<lambda>Q.
      res_bind (load Q (Some ord)) (\<lambda>Od'.
      res_bind (load (levels_pool b) orderLevel) (\<lambda>L.
      res_bind (if Some ord = lvl_head L
                then update_at orderLevel (\<lambda>x. x\<lparr>lvl_head := ord_next Od'\<rparr>) (levels_pool b)
                else Inr (levels_pool b)) (\<lambda>P.
      res_bind (update_at (Some ord) (\<lambda>x. x\<lparr>ord_next := None, ord_prev := None\<rparr>) Q) (\<lambda>Q.
      Inr (b\<lparr>orders_pool := Q, levels_pool := P\<rparr>)))))))))"

end
