(* ===== verification/CellRing.thy ===== *)
theory CellRing
  imports Prelude
begin

text \<open>
  Circular doubly linked lists over a heap of cells. The order books link their orders and
  their price levels in such rings: \<^verbatim>\<open>next_\<close> and \<^verbatim>\<open>prev_\<close> pointers are
  two functions from cell indices to optional cell indices, and \<open>ring nx pv xs\<close> says that
  the cells \<open>xs\<close>, in this order, form one ring. Rings are invariant under rotation, so one
  insertion lemma and one removal lemma, both at the front, cover every position.
\<close>

section \<open>Neighbouring pairs\<close>

fun pairs :: "'a list \<Rightarrow> ('a \<times> 'a) list" where
  "pairs (x # y # zs) = (x, y) # pairs (y # zs)"
| "pairs _ = []"

definition cyc :: "'a list \<Rightarrow> ('a \<times> 'a) set" where
  "cyc xs = insert (last xs, hd xs) (set (pairs xs))"

lemma pairs_Cons: "ys \<noteq> [] \<Longrightarrow> pairs (x # ys) = (x, hd ys) # pairs ys"
  by (cases ys) auto

lemma pairs_append:
  "as \<noteq> [] \<Longrightarrow> bs \<noteq> [] \<Longrightarrow>
    set (pairs (as @ bs)) = set (pairs as) \<union> set (pairs bs) \<union> {(last as, hd bs)}"
  by (induction as) (auto simp: pairs_Cons)

lemma cyc_append:
  "as \<noteq> [] \<Longrightarrow> bs \<noteq> [] \<Longrightarrow>
    cyc (as @ bs) = set (pairs as) \<union> set (pairs bs) \<union> {(last as, hd bs), (last bs, hd as)}"
  by (auto simp: cyc_def pairs_append)

lemma pairs_fst_butlast: "(x, y) \<in> set (pairs xs) \<Longrightarrow> x \<in> set (butlast xs)"
  by (induction xs rule: pairs.induct) auto

lemma pairs_snd_tl: "(x, y) \<in> set (pairs xs) \<Longrightarrow> y \<in> set (tl xs)"
  by (induction xs rule: pairs.induct) auto

lemma pairs_subset: "(x, y) \<in> set (pairs xs) \<Longrightarrow> x \<in> set xs \<and> y \<in> set xs"
  by (induction xs rule: pairs.induct) auto

lemma cyc_subset: "xs \<noteq> [] \<Longrightarrow> (x, y) \<in> cyc xs \<Longrightarrow> x \<in> set xs \<and> y \<in> set xs"
  by (auto simp: cyc_def dest: pairs_subset)

section \<open>Rings\<close>

definition linked :: "('a \<Rightarrow> 'a option) \<Rightarrow> ('a \<Rightarrow> 'a option) \<Rightarrow> ('a \<times> 'a) set \<Rightarrow> bool" where
  "linked nx pv E = (\<forall>(x, y) \<in> E. nx x = Some y \<and> pv y = Some x)"

definition ring :: "('a \<Rightarrow> 'a option) \<Rightarrow> ('a \<Rightarrow> 'a option) \<Rightarrow> 'a list \<Rightarrow> bool" where
  "ring nx pv xs \<longleftrightarrow> xs \<noteq> [] \<and> distinct xs \<and> linked nx pv (cyc xs)"

lemma ring_nonempty: "ring nx pv xs \<Longrightarrow> xs \<noteq> []"
  by (simp add: ring_def)

lemma ring_distinct: "ring nx pv xs \<Longrightarrow> distinct xs"
  by (simp add: ring_def)

lemma ring_single [simp]: "ring nx pv [x] \<longleftrightarrow> nx x = Some x \<and> pv x = Some x"
  by (auto simp: ring_def linked_def cyc_def)

lemma ring_rotate: "ring nx pv (as @ bs) \<longleftrightarrow> ring nx pv (bs @ as)"
proof (cases "as = [] \<or> bs = []")
  case True
  then show ?thesis by auto
next
  case False
  then have "cyc (as @ bs) = cyc (bs @ as)" by (auto simp: cyc_append)
  with False show ?thesis by (auto simp: ring_def)
qed

lemma ring_cong:
  assumes "\<And>x. x \<in> set xs \<Longrightarrow> nx x = nx' x" and "\<And>x. x \<in> set xs \<Longrightarrow> pv x = pv' x"
  shows "ring nx pv xs \<longleftrightarrow> ring nx' pv' xs"
proof (cases "xs = []")
  case False
  then have "linked nx pv (cyc xs) \<longleftrightarrow> linked nx' pv' (cyc xs)"
    using cyc_subset[OF False] assms by (fastforce simp: linked_def)
  then show ?thesis by (simp add: ring_def)
qed (simp add: ring_def)

text \<open>Neighbours: the head's, and (by rotation) everybody's.\<close>

lemma ring_head_links:
  assumes "ring nx pv (x # ys)"
  shows "nx x = Some (hd (ys @ [x]))" and "pv x = Some (last (x # ys))"
proof -
  have "(last (x # ys), x) \<in> cyc (x # ys)" by (simp add: cyc_def)
  with assms show "pv x = Some (last (x # ys))" by (force simp: ring_def linked_def)
  have "(x, hd (ys @ [x])) \<in> cyc (x # ys)"
    by (cases ys) (auto simp: cyc_def)
  with assms show "nx x = Some (hd (ys @ [x]))" by (force simp: ring_def linked_def)
qed

lemma ring_links:
  assumes "ring nx pv (as @ x # bs)"
  shows "nx x = Some (hd (bs @ as @ [x]))" and "pv x = Some (last (x # bs @ as))"
  using assms ring_head_links[of nx pv x "bs @ as"] ring_rotate[of nx pv as "x # bs"] by simp_all

lemma ring_links_other:
  assumes r: "ring nx pv (as @ x # bs)" and ne: "as @ bs \<noteq> []"
  shows "nx x = Some (hd (bs @ as))" and "pv x = Some (last (bs @ as))"
proof -
  have "hd (bs @ as @ [x]) = hd (bs @ as)" using ne by (cases bs; cases as) auto
  then show "nx x = Some (hd (bs @ as))" using ring_links(1)[OF r] by simp
  have "last (x # bs @ as) = last (bs @ as)" using ne by auto
  then show "pv x = Some (last (bs @ as))" using ring_links(2)[OF r] by simp
qed

lemma ring_next_self:
  assumes "ring nx pv (as @ x # bs)"
  shows "nx x = Some x \<longleftrightarrow> as = [] \<and> bs = []"
proof -
  have "distinct (bs @ as @ [x])" using assms by (auto simp: ring_def)
  then have "hd (bs @ as @ [x]) = x \<longleftrightarrow> as = [] \<and> bs = []"
    by (cases bs; cases as) auto
  then show ?thesis using ring_links(1)[OF assms] by simp
qed

lemma ring_prev_self:
  assumes "ring nx pv (as @ x # bs)"
  shows "pv x = Some x \<longleftrightarrow> as = [] \<and> bs = []"
proof -
  have "distinct (x # bs @ as)" using assms by (auto simp: ring_def)
  then show ?thesis
    using ring_links(2)[OF assms] last_in_set[of "bs @ as"] by (auto split: if_splits)
qed

section \<open>Insertion and removal\<close>

lemma ring_insert_front:
  assumes r: "ring nx pv bs" and n: "n \<notin> set bs"
  shows "ring (nx(last bs := Some n, n := Some (hd bs))) (pv(n := Some (last bs), hd bs := Some n)) (n # bs)"
proof -
  have ne: "bs \<noteq> []" and d: "distinct bs" using r by (auto simp: ring_def)
  have c: "cyc (n # bs) = set (pairs bs) \<union> {(n, hd bs), (last bs, n)}"
    using ne cyc_append[of "[n]" bs] by auto
  have old: "nx x = Some y \<and> pv y = Some x" if "(x, y) \<in> set (pairs bs)" for x y
    using r that by (auto simp: ring_def linked_def cyc_def)
  have "x \<noteq> last bs \<and> y \<noteq> hd bs \<and> x \<noteq> n \<and> y \<noteq> n" if "(x, y) \<in> set (pairs bs)" for x y
    using pairs_fst_butlast[OF that] pairs_snd_tl[OF that] pairs_subset[OF that] d n ne
      last_in_butlast_False by (metis distinct.simps(2) list.collapse)
  moreover have "hd bs \<noteq> n" "last bs \<noteq> n" using n ne by auto
  ultimately have "linked (nx(last bs := Some n, n := Some (hd bs)))
      (pv(n := Some (last bs), hd bs := Some n)) (cyc (n # bs))"
    unfolding c using old by (auto simp: linked_def)
  then show ?thesis using d n by (simp add: ring_def)
qed

lemma ring_insert:
  assumes r: "ring nx pv (as @ bs)" and n: "n \<notin> set (as @ bs)"
    and p: "p = last (bs @ as)" and c: "c = hd (bs @ as)"
  shows "ring (nx(p := Some n, n := Some c)) (pv(n := Some p, c := Some n)) (as @ n # bs)"
proof -
  have "ring nx pv (bs @ as)" using r ring_rotate by blast
  from ring_insert_front[OF this] n
  have "ring (nx(p := Some n, n := Some c)) (pv(n := Some p, c := Some n)) (n # bs @ as)"
    by (simp add: p c)
  then show ?thesis
    using ring_rotate[of _ _ as "n # bs"] by simp
qed

lemma ring_remove_front:
  assumes r: "ring nx pv (n # bs)" and ne: "bs \<noteq> []"
  shows "ring (nx(last bs := Some (hd bs))) (pv(hd bs := Some (last bs))) bs"
proof -
  have d: "distinct bs" and n: "n \<notin> set bs" using r by (auto simp: ring_def)
  have old: "nx x = Some y \<and> pv y = Some x" if "(x, y) \<in> set (pairs bs)" for x y
    using r that ne by (auto simp: ring_def linked_def cyc_def pairs_Cons)
  have "x \<noteq> last bs \<and> y \<noteq> hd bs" if "(x, y) \<in> set (pairs bs)" for x y
    using pairs_fst_butlast[OF that] pairs_snd_tl[OF that] d ne last_in_butlast_False
    by (metis distinct.simps(2) list.collapse)
  then have "linked (nx(last bs := Some (hd bs))) (pv(hd bs := Some (last bs))) (cyc bs)"
    using old by (auto simp: linked_def cyc_def)
  then show ?thesis using d ne by (simp add: ring_def)
qed

lemma ring_remove:
  assumes r: "ring nx pv (as @ n # bs)" and ne: "as @ bs \<noteq> []"
    and p: "p = last (bs @ as)" and c: "c = hd (bs @ as)"
  shows "ring (nx(p := Some c)) (pv(c := Some p)) (as @ bs)"
proof -
  have "ring nx pv (n # bs @ as)" using r ring_rotate[of nx pv as "n # bs"] by simp
  moreover have "bs @ as \<noteq> []" using ne by auto
  ultimately have "ring (nx(p := Some c)) (pv(c := Some p)) (bs @ as)"
    unfolding p c by (rule ring_remove_front)
  then show ?thesis using ring_rotate by blast
qed

section \<open>Walking a ring\<close>

text \<open>The cells from \<open>x\<close> on, following \<open>nx\<close> until it returns to \<open>h\<close>; at most \<open>n\<close> of them.\<close>

primrec walk :: "('a \<Rightarrow> 'a option) \<Rightarrow> 'a \<Rightarrow> nat \<Rightarrow> 'a \<Rightarrow> 'a list" where
  "walk nx h 0 x = []"
| "walk nx h (Suc n) x =
    x # (case nx x of None \<Rightarrow> [] | Some y \<Rightarrow> if y = h then [] else walk nx h n y)"

lemma walk_numeral:
  "walk nx h (numeral k) x =
    x # (case nx x of None \<Rightarrow> [] | Some y \<Rightarrow> if y = h then [] else walk nx h (pred_numeral k) y)"
  by (simp add: numeral_eq_Suc)

lemma walk_suffix:
  assumes "ring nx pv (h # xs)" and "h # xs = as @ x # bs" and "length (x # bs) \<le> n"
  shows "walk nx h n x = x # bs"
  using assms(2,3)
proof (induction bs arbitrary: as x n)
  case Nil
  then obtain m where "n = Suc m" by (cases n) auto
  moreover have "nx x = Some h"
    using ring_links(1)[of nx pv as x "[]"] assms(1) Nil.prems(1) by (cases as) auto
  ultimately show ?case by simp
next
  case (Cons y bs)
  then obtain m where m: "n = Suc m" by (cases n) auto
  have nx: "nx x = Some y"
    using ring_links(1)[of nx pv as x "y # bs"] assms(1) Cons.prems(1) by auto
  have "distinct (as @ x # y # bs)"
    using assms(1) Cons.prems(1) by (auto simp: ring_def)
  then have "y \<noteq> h" using Cons.prems(1) by (cases as) auto
  moreover have "walk nx h m y = y # bs"
    using Cons.IH[of "as @ [x]" y m] Cons.prems m by simp
  ultimately show ?case using m nx by simp
qed

lemma walk_ring: "ring nx pv (h # xs) \<Longrightarrow> length (h # xs) \<le> n \<Longrightarrow> walk nx h n h = h # xs"
  by (rule walk_suffix[where as = "[]"]) auto

end
