(* ===== verification/BookRep.thy ===== *)
theory BookRep
  imports BookCore CellRing
begin

text \<open>
  What the pointers of a book represent. A \<open>shape\<close> lists, for each side, the level cells
  from the head of the side on, each with its order cells from the head of the level on;
  \<open>links_rep b sh\<close> says that the pointers of \<open>b\<close> form exactly these rings, with the prices
  of each side strictly ordered best first and the price array pointing to the levels, and
  \<open>book_rep b sh\<close> adds that the pools hold exactly the cells of the shape. Each pointer
  operation of \<open>BookCore\<close> is shown to succeed on a represented book and to change the shape
  as an insertion into, or a removal from, these lists.
\<close>

section \<open>The heap as functions\<close>

abbreviation ob :: "'x book \<Rightarrow> nat \<Rightarrow> 'x order_scheme" where "ob b i \<equiv> object (orders_pool b) i"
abbreviation lv :: "'x book \<Rightarrow> nat \<Rightarrow> OrdersAtPrice" where "lv b l \<equiv> object (levels_pool b) l"
abbreviation nxO :: "'x book \<Rightarrow> nat \<Rightarrow> ptr" where "nxO b \<equiv> (\<lambda>i. ord_next (ob b i))"
abbreviation pvO :: "'x book \<Rightarrow> nat \<Rightarrow> ptr" where "pvO b \<equiv> (\<lambda>i. ord_prev (ob b i))"
abbreviation nxL :: "'x book \<Rightarrow> nat \<Rightarrow> ptr" where "nxL b \<equiv> (\<lambda>l. lvl_next (lv b l))"
abbreviation pvL :: "'x book \<Rightarrow> nat \<Rightarrow> ptr" where "pvL b \<equiv> (\<lambda>l. lvl_prev (lv b l))"

type_synonym levels = "(nat \<times> nat list) list"
type_synonym shape = "Side \<Rightarrow> levels"

definition sides :: "Side set" where "sides = {BUY, SELL}"

lemma sides_simps [simp]: "BUY \<in> sides" "SELL \<in> sides"
  by (simp_all add: sides_def)

lemma sidesE: "s \<in> sides \<Longrightarrow> (s = BUY \<Longrightarrow> P) \<Longrightarrow> (s = SELL \<Longrightarrow> P) \<Longrightarrow> P"
  by (auto simp: sides_def)

definition cells_of :: "levels \<Rightarrow> nat list" where
  "cells_of ls = concat (map snd ls)"

lemma cells_of_simps [simp]:
  "cells_of [] = []" "cells_of (x # ls) = snd x @ cells_of ls"
  "cells_of (ls @ ls') = cells_of ls @ cells_of ls'"
  by (simp_all add: cells_of_def)

definition all_orders :: "shape \<Rightarrow> nat list" where
  "all_orders sh = cells_of (sh BUY) @ cells_of (sh SELL)"

definition all_levels :: "shape \<Rightarrow> nat list" where
  "all_levels sh = map fst (sh BUY) @ map fst (sh SELL)"

definition better :: "Side \<Rightarrow> Price \<Rightarrow> Price \<Rightarrow> bool" where
  "better s p q \<longleftrightarrow> s = BUY \<and> p > q \<or> s = SELL \<and> p < q"

lemma better_trans: "better s p q \<Longrightarrow> better s q r \<Longrightarrow> better s p r"
  by (auto simp: better_def)

lemma better_irrefl [simp]: "\<not> better s p p"
  by (simp add: better_def)

lemma better_total: "s \<in> sides \<Longrightarrow> better s p q \<or> p = q \<or> better s q p"
  by (auto simp: better_def sides_def)

section \<open>Representation\<close>

definition level_rep :: "'x book \<Rightarrow> Side \<Rightarrow> nat \<times> nat list \<Rightarrow> bool" where
  "level_rep b s x \<longleftrightarrow> lvl_side (lv b (fst x)) = s \<and> lvl_head (lv b (fst x)) = Some (hd (snd x)) \<and>
     ring (nxO b) (pvO b) (snd x) \<and>
     (\<forall>i \<in> set (snd x). ord_price (ob b i) = lvl_price (lv b (fst x)) \<and> ord_side (ob b i) = s)"

definition side_rep :: "'x book \<Rightarrow> Side \<Rightarrow> levels \<Rightarrow> bool" where
  "side_rep b s ls \<longleftrightarrow>
     head_of s b = (if ls = [] then None else Some (fst (hd ls))) \<and>
     (ls \<noteq> [] \<longrightarrow> ring (nxL b) (pvL b) (map fst ls)) \<and>
     (\<forall>x \<in> set ls. level_rep b s x) \<and>
     sorted_wrt (better s) (map (\<lambda>x. lvl_price (lv b (fst x))) ls)"

definition links_rep :: "'x book \<Rightarrow> shape \<Rightarrow> bool" where
  "links_rep b sh \<longleftrightarrow> (\<forall>s \<in> sides. side_rep b s (sh s)) \<and>
     distinct (all_orders sh) \<and> distinct (all_levels sh) \<and>
     set (all_orders sh) \<subseteq> {..<num_cells (orders_pool b)} \<and>
     set (all_levels sh) \<subseteq> {..<num_cells (levels_pool b)} \<and>
     (\<forall>k l. price_to_level b k = Some l \<longleftrightarrow>
        l \<in> set (all_levels sh) \<and> priceToIndex (lvl_price (lv b l)) = k)"

definition pools_rep :: "'x book \<Rightarrow> nat set \<Rightarrow> nat set \<Rightarrow> bool" where
  "pools_rep b A B \<longleftrightarrow> pool_ok (orders_pool b) \<and> live (orders_pool b) = A \<and>
     pool_ok (levels_pool b) \<and> live (levels_pool b) = B"

definition book_rep :: "'x book \<Rightarrow> shape \<Rightarrow> bool" where
  "book_rep b sh \<longleftrightarrow> links_rep b sh \<and> pools_rep b (set (all_orders sh)) (set (all_levels sh))"

text \<open>Two books that agree on the links, prices and sides of the cells of a side represent the
  same side.\<close>

definition same_links :: "'x order_scheme \<Rightarrow> 'x order_scheme \<Rightarrow> bool" where
  "same_links r r' \<longleftrightarrow> ord_next r = ord_next r' \<and> ord_prev r = ord_prev r' \<and>
     ord_price r = ord_price r' \<and> ord_side r = ord_side r'"

lemma same_links_refl [simp]: "same_links r r"
  by (simp add: same_links_def)

lemma level_rep_cong:
  assumes "lvl_side (lv b (fst x)) = lvl_side (lv b' (fst x))"
    and "lvl_head (lv b (fst x)) = lvl_head (lv b' (fst x))"
    and "lvl_price (lv b (fst x)) = lvl_price (lv b' (fst x))"
    and "\<And>i. i \<in> set (snd x) \<Longrightarrow> same_links (ob b i) (ob b' i)"
  shows "level_rep b s x \<longleftrightarrow> level_rep b' s x"
proof -
  have "ring (nxO b) (pvO b) (snd x) \<longleftrightarrow> ring (nxO b') (pvO b') (snd x)"
    using assms(4) by (intro ring_cong) (simp_all add: same_links_def)
  then show ?thesis using assms by (simp add: level_rep_def same_links_def)
qed

lemma cells_of_mem: "x \<in> set ls \<Longrightarrow> i \<in> set (snd x) \<Longrightarrow> i \<in> set (cells_of ls)"
  by (auto simp: cells_of_def)

lemma side_rep_cong:
  assumes "head_of s b = head_of s b'"
    and "\<And>l. l \<in> fst ` set ls \<Longrightarrow> lv b l = lv b' l"
    and "\<And>i. i \<in> set (cells_of ls) \<Longrightarrow> same_links (ob b i) (ob b' i)"
  shows "side_rep b s ls \<longleftrightarrow> side_rep b' s ls"
proof -
  have "ring (nxL b) (pvL b) (map fst ls) \<longleftrightarrow> ring (nxL b') (pvL b') (map fst ls)"
    by (rule ring_cong) (simp_all add: assms(2))
  moreover have "level_rep b s x \<longleftrightarrow> level_rep b' s x" if "x \<in> set ls" for x
    using that by (intro level_rep_cong) (simp_all add: assms(2,3) cells_of_mem)
  moreover have "map (\<lambda>x. lvl_price (lv b (fst x))) ls = map (\<lambda>x. lvl_price (lv b' (fst x))) ls"
    by (simp add: assms(2))
  ultimately show ?thesis by (simp add: side_rep_def assms(1) del: map_eq_conv)
qed

section \<open>Disjointness\<close>

definition opp :: "Side \<Rightarrow> Side" where
  "opp s = (if s = BUY then SELL else BUY)"

lemma opp_simps [simp]: "opp BUY = SELL" "opp SELL = BUY"
  by (simp_all add: opp_def)

lemma opp_sides [simp]: "opp s \<in> sides"
  by (simp add: opp_def sides_def)

lemma opp_neq: "s \<in> sides \<Longrightarrow> opp s \<noteq> s"
  by (auto simp: sides_def)

lemma ball_sides: "s \<in> sides \<Longrightarrow> (\<forall>t \<in> sides. P t) \<longleftrightarrow> P s \<and> P (opp s)"
  by (auto simp: sides_def)

lemma set_all_orders: "s \<in> sides \<Longrightarrow> set (all_orders sh) = set (cells_of (sh s)) \<union> set (cells_of (sh (opp s)))"
  by (auto simp: sides_def all_orders_def)

lemma set_all_levels: "s \<in> sides \<Longrightarrow> set (all_levels sh) = fst ` set (sh s) \<union> fst ` set (sh (opp s))"
  by (auto simp: sides_def all_levels_def)

lemma distinct_all_orders: "s \<in> sides \<Longrightarrow> distinct (all_orders sh) \<longleftrightarrow>
   distinct (cells_of (sh s)) \<and> distinct (cells_of (sh (opp s))) \<and>
   set (cells_of (sh s)) \<inter> set (cells_of (sh (opp s))) = {}"
  by (auto simp: sides_def all_orders_def)

lemma distinct_all_levels: "s \<in> sides \<Longrightarrow> distinct (all_levels sh) \<longleftrightarrow>
   distinct (map fst (sh s)) \<and> distinct (map fst (sh (opp s))) \<and>
   fst ` set (sh s) \<inter> fst ` set (sh (opp s)) = {}"
  by (erule sidesE) (simp_all add: all_levels_def Int_commute conj_ac)

lemma links_side: "links_rep b sh \<Longrightarrow> s \<in> sides \<Longrightarrow> side_rep b s (sh s)"
  by (simp add: links_rep_def)

lemma links_level: "links_rep b sh \<Longrightarrow> s \<in> sides \<Longrightarrow> x \<in> set (sh s) \<Longrightarrow> level_rep b s x"
  by (simp add: links_rep_def side_rep_def)

lemma links_order_bound: "links_rep b sh \<Longrightarrow> i \<in> set (all_orders sh) \<Longrightarrow> i < num_cells (orders_pool b)"
  by (auto simp: links_rep_def)

lemma links_level_bound: "links_rep b sh \<Longrightarrow> l \<in> set (all_levels sh) \<Longrightarrow> l < num_cells (levels_pool b)"
  by (auto simp: links_rep_def)

lemma links_index: "links_rep b sh \<Longrightarrow>
   price_to_level b k = Some l \<longleftrightarrow> l \<in> set (all_levels sh) \<and> priceToIndex (lvl_price (lv b l)) = k"
  by (simp add: links_rep_def)

lemma links_find:
  assumes "links_rep b sh" and "s \<in> sides" and "x \<in> set (sh s)" and "i \<in> set (snd x)"
  shows "getOrderAtPrice b (ord_price (ob b i)) = Some (fst x)"
proof -
  have "ord_price (ob b i) = lvl_price (lv b (fst x))"
    using links_level[OF assms(1-3)] assms(4) by (simp add: level_rep_def)
  then show ?thesis
    using links_index[OF assms(1)] assms(2,3) by (auto simp: getOrderAtPrice_def set_all_levels)
qed

end
