(* ===== verification/BookAdd.thy ===== *)
theory BookAdd
  imports BookRep
begin

text \<open>
  Adding to a represented book: an order joins the end of its price level, or opens a new
  level that is inserted where its price belongs.
\<close>

section \<open>What relinking keeps\<close>

definition strip :: "'x order_scheme \<Rightarrow> 'x order_scheme" where
  "strip r = r\<lparr>ord_next := None, ord_prev := None\<rparr>"

lemma strip_links [simp]:
  "strip (r\<lparr>ord_next := x\<rparr>) = strip r" "strip (r\<lparr>ord_prev := x\<rparr>) = strip r"
  by (simp_all add: strip_def)

lemma strip_fields [simp]:
  "ord_id (strip r) = ord_id r" "ord_side (strip r) = ord_side r" "ord_price (strip r) = ord_price r"
  "ord_qty (strip r) = ord_qty r" "ord_priority (strip r) = ord_priority r"
  by (simp_all add: strip_def)

lemma strip_eq_fields:
  "strip r = strip r' \<Longrightarrow> ord_id r = ord_id r' \<and> ord_side r = ord_side r' \<and> ord_price r = ord_price r' \<and>
     ord_qty r = ord_qty r' \<and> ord_priority r = ord_priority r' \<and> order.more r = order.more r'"
  by (cases r; cases r') (simp add: strip_def)

definition relinked :: "'x order_scheme MemPool \<Rightarrow> 'x order_scheme MemPool \<Rightarrow> bool" where
  "relinked Q P \<longleftrightarrow> num_cells Q = num_cells P \<and> live Q = live P \<and> pool_ok Q = pool_ok P \<and>
     spare Q = spare P \<and> (\<forall>i. strip (object Q i) = strip (object P i))"

lemma relinked_object:
  "(\<And>i. strip (f i) = strip (object P i)) \<Longrightarrow> relinked (P\<lparr>object := f\<rparr>) P"
  by (simp add: relinked_def live_def pool_ok_def spare_def)

section \<open>Joining a level\<close>

lemma append_order_ring:
  assumes r: "ring (\<lambda>i. ord_next (u i)) (\<lambda>i. ord_prev (u i)) os" and n: "n \<notin> set os"
    and f: "f = u(last os := (u (last os))\<lparr>ord_next := Some n\<rparr>)"
    and g: "g = f(n := (f n)\<lparr>ord_next := Some (hd os), ord_prev := Some (last os)\<rparr>)"
    and h: "h = g(hd os := (g (hd os))\<lparr>ord_prev := Some n\<rparr>)"
  shows "ring (\<lambda>i. ord_next (h i)) (\<lambda>i. ord_prev (h i)) (os @ [n])"
    and "strip (h i) = strip (u i)" and "i \<notin> set os \<Longrightarrow> i \<noteq> n \<Longrightarrow> h i = u i"
proof -
  have ne: "os \<noteq> []" using r by (simp add: ring_def)
  have mem: "hd os \<in> set os" "last os \<in> set os" using ne by auto
  have nx: "(\<lambda>i. ord_next (h i)) = (\<lambda>i. ord_next (u i))(last os := Some n, n := Some (hd os))"
    using mem n by (auto simp: f g h fun_eq_iff)
  have pv: "(\<lambda>i. ord_prev (h i)) = (\<lambda>i. ord_prev (u i))(n := Some (last os), hd os := Some n)"
    using mem n by (auto simp: f g h fun_eq_iff)
  show "ring (\<lambda>i. ord_next (h i)) (\<lambda>i. ord_prev (h i)) (os @ [n])"
    unfolding nx pv
    using ring_insert[of "\<lambda>i. ord_next (u i)" "\<lambda>i. ord_prev (u i)" os "[]" n "last os" "hd os"] r n
    by simp
  show "strip (h i) = strip (u i)" by (simp add: f g h)
  show "i \<notin> set os \<Longrightarrow> i \<noteq> n \<Longrightarrow> h i = u i" using mem by (auto simp: f g h)
qed

text \<open>A side keeps its representation when one level's ring is replaced and the rest is untouched.\<close>

lemma side_rep_replace_level:
  assumes rep: "side_rep b s (A @ (l, os) # B)"
    and lv: "\<And>k. k \<noteq> l \<Longrightarrow> lv b' k = lv b k"
    and ll: "lvl_next (lv b' l) = lvl_next (lv b l)" "lvl_prev (lv b' l) = lvl_prev (lv b l)"
      "lvl_price (lv b' l) = lvl_price (lv b l)"
    and hd: "head_of s b' = head_of s b"
    and rest: "\<And>i. i \<in> set (cells_of (A @ B)) \<Longrightarrow> ob b' i = ob b i"
    and new: "level_rep b' s (l, os')"
  shows "side_rep b' s (A @ (l, os') # B)"
proof -
  have r: "ring (nxL b) (pvL b) (map fst (A @ (l, os) # B))" using rep by (simp add: side_rep_def)
  have nl: "l \<notin> fst ` set (A @ B)" using ring_distinct[OF r] by auto
  have nx: "nxL b' = nxL b" "pvL b' = pvL b"
    using lv ll by (auto simp: fun_eq_iff, (metis lv ll)+)
  have pr: "lvl_price (lv b' k) = lvl_price (lv b k)" for k
    using lv ll by (cases "k = l") auto
  have "level_rep b' s x" if "x \<in> set (A @ B)" for x
  proof -
    have "ob b' i = ob b i" if "i \<in> set (snd x)" for i
      using that \<open>x \<in> set (A @ B)\<close> by (intro rest) (rule cells_of_mem)
    moreover have "fst x \<noteq> l" using nl that by auto
    ultimately have "level_rep b' s x \<longleftrightarrow> level_rep b s x"
      by (intro level_rep_cong) (simp_all add: lv)
    moreover have "level_rep b s x" using rep that by (auto simp: side_rep_def)
    ultimately show ?thesis by simp
  qed
  then show ?thesis
    using rep new nx pr hd by (auto simp: side_rep_def hd_append)
qed

text \<open>The new order joins the level that the price array names for it, whatever that level's price.\<close>

lemma link_order_at:
  fixes b :: "'x book"
  assumes rep: "links_rep b sh" and s: "s \<in> sides" and shs: "sh s = A @ (l, os) # B"
    and new: "n \<notin> set (all_orders sh)" and nb: "n < num_cells (orders_pool b)"
    and at: "getOrderAtPrice b (ord_price (ob b n)) = Some l"
  shows "\<exists>Q. link_order n b = Inr (b\<lparr>orders_pool := Q\<rparr>) \<and> relinked Q (orders_pool b) \<and>
     ring (\<lambda>i. ord_next (object Q i)) (\<lambda>i. ord_prev (object Q i)) (os @ [n]) \<and>
     (\<forall>i. i \<notin> set os \<longrightarrow> i \<noteq> n \<longrightarrow> object Q i = ob b i)"
proof -
  have lvl: "level_rep b s (l, os)" using links_level[OF rep s, of "(l, os)"] shs by simp
  then have r: "ring (nxO b) (pvO b) os" by (simp add: level_rep_def)
  have ne: "os \<noteq> []" using r by (rule ring_nonempty)
  then obtain x xs where os: "os = x # xs" by (cases os) auto
  have sub: "set os \<subseteq> set (all_orders sh)" using shs by (auto simp: set_all_orders[OF s])
  have no: "n \<notin> set os" using new sub by auto
  have bd: "i < num_cells (orders_pool b)" if "i \<in> set os" for i
    using links_order_bound[OF rep] sub that by auto
  have lb: "l < num_cells (levels_pool b)"
    using links_level_bound[OF rep] shs by (simp add: set_all_levels[OF s])
  have prev: "ord_prev (ob b (hd os)) = Some (last os)" using ring_head_links(2)[of "nxO b" "pvO b" x xs] r os by simp
  define f where "f = (ob b)(last os := (ob b (last os))\<lparr>ord_next := Some n\<rparr>)"
  define g where "g = f(n := (f n)\<lparr>ord_next := Some (hd os), ord_prev := Some (last os)\<rparr>)"
  define h where "h = g(hd os := (g (hd os))\<lparr>ord_prev := Some n\<rparr>)"
  note ar = append_order_ring[OF r no f_def g_def h_def]
  let ?Q = "(orders_pool b)\<lparr>object := h\<rparr>"
  have hl: "hd os \<noteq> n" "last os \<noteq> n" "hd os < num_cells (orders_pool b)" "last os < num_cells (orders_pool b)"
    using no ne bd by auto
  have "link_order n b = Inr (b\<lparr>orders_pool := ?Q\<rparr>)"
    using hl nb lb at prev lvl
    by (cases "hd os = last os")
      (simp_all add: link_order_def level_rep_def Let_def f_def g_def h_def fun_upd_twist)
  moreover have "relinked ?Q (orders_pool b)"
    using ar(2) by (rule relinked_object)
  ultimately show ?thesis using ar(1,3) by (intro exI[of _ ?Q]) simp
qed

lemma link_order_append:
  fixes b :: "'x book"
  assumes rep: "links_rep b sh" and s: "s \<in> sides" and shs: "sh s = A @ (l, os) # B"
    and new: "n \<notin> set (all_orders sh)" and nb: "n < num_cells (orders_pool b)"
    and pr: "ord_price (ob b n) = lvl_price (lv b l)" and sd: "ord_side (ob b n) = s"
  shows "\<exists>Q. link_order n b = Inr (b\<lparr>orders_pool := Q\<rparr>) \<and> relinked Q (orders_pool b) \<and>
     links_rep (b\<lparr>orders_pool := Q\<rparr>) (sh(s := A @ (l, os @ [n]) # B))"
proof -
  have lvl: "level_rep b s (l, os)" using links_level[OF rep s, of "(l, os)"] shs by simp
  then have ne: "os \<noteq> []" using ring_nonempty by (auto simp: level_rep_def)
  have at: "getOrderAtPrice b (ord_price (ob b n)) = Some l"
    using links_index[OF rep] shs pr by (simp add: getOrderAtPrice_def set_all_levels[OF s])
  obtain Q where Q: "link_order n b = Inr (b\<lparr>orders_pool := Q\<rparr>)" "relinked Q (orders_pool b)"
    "ring (\<lambda>i. ord_next (object Q i)) (\<lambda>i. ord_prev (object Q i)) (os @ [n])"
    and keepQ: "\<And>i. i \<notin> set os \<Longrightarrow> i \<noteq> n \<Longrightarrow> object Q i = ob b i"
    using link_order_at[OF rep s shs new nb at] by blast
  let ?b = "b\<lparr>orders_pool := Q\<rparr>"
  have "links_rep ?b (sh(s := A @ (l, os @ [n]) # B))"
  proof -
    have dis: "distinct (cells_of (A @ (l, os) # B))"
      "set (cells_of (A @ (l, os) # B)) \<inter> set (cells_of (sh (opp s))) = {}"
      using rep shs by (auto simp: links_rep_def distinct_all_orders[OF s])
    have new': "n \<notin> set (cells_of (A @ (l, os) # B))" "n \<notin> set (cells_of (sh (opp s)))"
      using new shs by (auto simp: set_all_orders[OF s])
    have keep: "ob ?b i = ob b i" if "i \<notin> set os" "i \<noteq> n" for i
      using keepQ that by simp
    have strip': "strip (object Q i) = strip (ob b i)" for i using Q(2) by (simp add: relinked_def)
    have "level_rep ?b s (l, os @ [n])"
      using lvl Q(3) strip_eq_fields[OF strip'] pr sd ne by (simp add: level_rep_def)
    then have "side_rep ?b s (A @ (l, os @ [n]) # B)"
    proof (rule side_rep_replace_level[rotated -1])
      show "side_rep b s (A @ (l, os) # B)" using links_side[OF rep s] shs by simp
    qed (use keep dis new' in \<open>auto simp: head_of_def\<close>)
    moreover have "side_rep ?b (opp s) (sh (opp s))"
    proof -
      have "i \<notin> set os \<and> i \<noteq> n" if "i \<in> set (cells_of (sh (opp s)))" for i
        using that dis new' by auto
      then have "side_rep ?b (opp s) (sh (opp s)) \<longleftrightarrow> side_rep b (opp s) (sh (opp s))"
        by (intro side_rep_cong) (simp_all add: head_of_def keepQ)
      then show ?thesis using links_side[OF rep] by simp
    qed
    moreover have "distinct (all_orders (sh(s := A @ (l, os @ [n]) # B)))"
      using dis new' rep opp_neq[OF s] by (auto simp: distinct_all_orders[OF s] links_rep_def)
    moreover have "set (all_levels (sh(s := A @ (l, os @ [n]) # B))) = set (all_levels sh)"
      "distinct (all_levels (sh(s := A @ (l, os @ [n]) # B)))"
      using rep shs opp_neq[OF s] by (auto simp: set_all_levels[OF s] distinct_all_levels[OF s] links_rep_def)
    moreover have "set (all_orders (sh(s := A @ (l, os @ [n]) # B))) = insert n (set (all_orders sh))"
      using shs opp_neq[OF s] by (auto simp: set_all_orders[OF s])
    ultimately show ?thesis
      using rep nb opp_neq[OF s] Q(2) by (simp add: links_rep_def ball_sides[OF s] relinked_def)
  qed
  then show ?thesis using Q(1,2) by blast
qed

section \<open>Opening a level\<close>

lemma find_spot_spec:
  assumes "ring (\<lambda>l. lvl_next (object P l)) (\<lambda>l. lvl_prev (object P l)) (A1 @ A2 @ B)"
    and "A1 \<noteq> []" and "\<And>l. l \<in> set A2 \<Longrightarrow> move_cond N (object P l)"
    and "B \<noteq> [] \<Longrightarrow> \<not> move_cond N (object P (hd B))"
    and "\<And>l. l \<in> set (A1 @ A2 @ B) \<Longrightarrow> l < num_cells P"
    and "length A2 + 2 \<le> fuel"
  shows "find_spot fuel P N (Some (hd A1)) True (Some (hd (A2 @ B @ A1))) = Inr (Some (hd (B @ A1)))"
  using assms
proof (induction A2 arbitrary: A1 fuel)
  case Nil
  obtain m where m: "fuel = Suc (Suc m)" using Nil.prems(6) by (cases fuel; cases "fuel - 1") auto
  show ?case
  proof (cases B)
    case Nil
    then show ?thesis using m by simp
  next
    case (Cons c cs)
    then have "c \<noteq> hd A1" using Nil.prems(1,2) by (cases A1) (auto simp: ring_def)
    then show ?thesis using Cons m Nil.prems(4,5) by simp
  qed
next
  case (Cons a A2)
  obtain m where m: "fuel = Suc m" "length A2 + 2 \<le> m" using Cons.prems(6) by (cases fuel) auto
  have "a \<noteq> hd A1" using Cons.prems(1,2) by (cases A1) (auto simp: ring_def)
  moreover have "lvl_next (object P a) = Some (hd (A2 @ B @ A1))"
    using ring_links(1)[of _ _ A1 a "A2 @ B"] Cons.prems(1,2) by (auto simp: hd_append)
  moreover have "hd (A1 @ [a]) = hd A1" "hd (A2 @ B @ A1 @ [a]) = hd (A2 @ B @ A1)"
    "hd (B @ A1 @ [a]) = hd (B @ A1)" using Cons.prems(2) by (auto simp: hd_append)
  moreover have "find_spot m P N (Some (hd (A1 @ [a]))) True (Some (hd (A2 @ B @ A1 @ [a]))) =
      Inr (Some (hd (B @ A1 @ [a])))"
    using Cons.prems m by (intro Cons.IH) auto
  ultimately show ?case using Cons.prems(3,5) m by simp
qed

definition relevelled :: "OrdersAtPrice MemPool \<Rightarrow> OrdersAtPrice MemPool \<Rightarrow> bool" where
  "relevelled Q P \<longleftrightarrow> num_cells Q = num_cells P \<and> live Q = live P \<and> pool_ok Q = pool_ok P \<and>
     spare Q = spare P"

lemma relevelled_object: "relevelled (P\<lparr>object := f\<rparr>) P"
  by (simp add: relevelled_def live_def pool_ok_def spare_def)

lemma insert_level_ring:
  assumes r: "A @ B \<noteq> [] \<Longrightarrow> ring (\<lambda>l. lvl_next (u l)) (\<lambda>l. lvl_prev (u l)) (A @ B)"
    and ne: "A @ B \<noteq> []" and n: "n \<notin> set (A @ B)"
    and p: "p = last (B @ A)" and c: "c = hd (B @ A)"
    and f: "f = u(n := (u n)\<lparr>lvl_next := Some c, lvl_prev := Some p\<rparr>)"
    and g: "g = f(c := (f c)\<lparr>lvl_prev := Some n\<rparr>)"
    and h: "h = g(p := (g p)\<lparr>lvl_next := Some n\<rparr>)"
  shows "ring (\<lambda>l. lvl_next (h l)) (\<lambda>l. lvl_prev (h l)) (A @ n # B)"
    and "lvl_side (h l) = lvl_side (u l) \<and> lvl_price (h l) = lvl_price (u l) \<and> lvl_head (h l) = lvl_head (u l)"
proof -
  have mem: "p \<in> set (A @ B)" "c \<in> set (A @ B)"
    using ne last_in_set[of "B @ A"] hd_in_set[of "B @ A"] by (auto simp: p c)
  have nx: "(\<lambda>l. lvl_next (h l)) = (\<lambda>l. lvl_next (u l))(p := Some n, n := Some c)"
    using mem n by (auto simp: f g h fun_eq_iff)
  have pv: "(\<lambda>l. lvl_prev (h l)) = (\<lambda>l. lvl_prev (u l))(n := Some p, c := Some n)"
    using mem n by (auto simp: f g h fun_eq_iff)
  show "ring (\<lambda>l. lvl_next (h l)) (\<lambda>l. lvl_prev (h l)) (A @ n # B)"
    unfolding nx pv using r[OF ne] n p c by (rule ring_insert)
  show "lvl_side (h l) = lvl_side (u l) \<and> lvl_price (h l) = lvl_price (u l) \<and> lvl_head (h l) = lvl_head (u l)"
    by (simp add: f g h)
qed

lemma spot_found:
  assumes r: "ring (\<lambda>l. lvl_next (object P l)) (\<lambda>l. lvl_prev (object P l)) (A @ B)"
    and A: "\<And>l. l \<in> set A \<Longrightarrow> move_cond N (object P l)"
    and B: "\<And>l. l \<in> set B \<Longrightarrow> \<not> move_cond N (object P l)"
    and bd: "\<And>l. l \<in> set (A @ B) \<Longrightarrow> l < num_cells P"
  shows "\<exists>cur move.
    skip_head P N (Some (hd (A @ B))) (object P (hd (A @ B))) = Inr (cur, move) \<and>
    find_spot (num_cells P + 2) P N (Some (hd (A @ B))) move cur = Inr (Some (hd (B @ A)))"
proof (cases A)
  case Nil
  then have "hd B \<in> set B" using ring_nonempty[OF r] by simp
  then show ?thesis using Nil B by (intro exI[of _ "Some (hd B)"] exI[of _ False]) (simp add: skip_head_def)
next
  case (Cons h A2)
  have nx: "lvl_next (object P h) = Some (hd (A2 @ B @ [h]))"
    using ring_head_links(1)[of _ _ h "A2 @ B"] r Cons by simp
  have len: "length A2 \<le> num_cells P"
    using distinct_length_le_bound[of "A @ B" "num_cells P"] ring_distinct[OF r] bd Cons by simp
  show ?thesis
  proof (cases A2)
    case Nil
    have "hd (B @ [h]) < num_cells P" using bd Cons by (cases B) auto
    then show ?thesis using nx A B Cons Nil by (cases B) (auto simp: skip_head_def)
  next
    case (Cons a A3)
    have "find_spot (num_cells P + 2) P N (Some (hd [h])) True (Some (hd (A2 @ B @ [h]))) =
        Inr (Some (hd (B @ [h])))"
      using r A B bd len \<open>A = h # A2\<close> by (intro find_spot_spec) auto
    moreover have "hd (B @ [h]) = hd (B @ A)" using \<open>A = h # A2\<close> by (cases B) auto
    moreover have "a \<in> set A" "h \<in> set A" using Cons \<open>A = h # A2\<close> by auto
    moreover have "a < num_cells P" using bd \<open>a \<in> set A\<close> by simp
    ultimately show ?thesis using nx A Cons \<open>A = h # A2\<close>
      by (intro exI[of _ "Some a"] exI[of _ True]) (simp add: skip_head_def del: find_spot.simps add_2_eq_Suc')
  qed
qed

text \<open>\<^verbatim>\<open>AddOrderAtPrice\<close> on a side that already has levels, computed.\<close>

lemma AddOrderAtPrice_run:
  fixes b :: "'x book"
  assumes r: "ring (nxL b) (pvL b) (A @ B)" and n: "n \<notin> set (A @ B)" "n < num_cells (levels_pool b)"
    and bd: "\<And>l. l \<in> set (A @ B) \<Longrightarrow> l < num_cells (levels_pool b)"
    and h0: "h0 = hd (A @ B)" and hd: "head_of s b = Some h0" and s: "s \<in> sides"
    and N: "lvl_side (lv b n) = s"
    and A: "\<And>l. l \<in> set A \<Longrightarrow> better s (lvl_price (lv b l)) (lvl_price (lv b n))"
    and B: "\<And>l. l \<in> set B \<Longrightarrow> better s (lvl_price (lv b n)) (lvl_price (lv b l))"
    and p: "p = last (B @ A)" and c: "c = hd (B @ A)"
    and f: "f = (lv b)(n := (lv b n)\<lparr>lvl_next := Some c, lvl_prev := Some p\<rparr>)"
    and g: "g = f(c := (f c)\<lparr>lvl_prev := Some n\<rparr>)"
    and h: "h = g(p := (g p)\<lparr>lvl_next := Some n\<rparr>)"
  shows "AddOrderAtPrice n b = Inr (let b' = b\<lparr>price_to_level := (price_to_level b)(priceToIndex (lvl_price (lv b n)) := Some n),
      levels_pool := (levels_pool b)\<lparr>object := h\<rparr>\<rparr> in
      if A = [] then set_head s (Some n) b' else b')"
proof -
  let ?P = "levels_pool b" and ?N = "lv b n" and ?H = "lv b h0"
  have ne: "A @ B \<noteq> []" using r by (rule ring_nonempty)
  have mv: "move_cond ?N (lv b l) \<longleftrightarrow> better s (lvl_price (lv b l)) (lvl_price ?N)" for l
    using s N by (auto simp: move_cond_def better_def sides_def)
  have notboth: "\<not> (better s x y \<and> better s y x)" for x y
    using better_trans better_irrefl by blast
  obtain cur move where spot: "skip_head ?P ?N (Some h0) ?H = Inr (cur, move)"
    "find_spot (num_cells ?P + 2) ?P ?N (Some h0) move cur = Inr (Some c)"
    using spot_found[OF r, of ?N] A B bd mv notboth c unfolding h0 by metis
  have mem: "p \<in> set (A @ B)" "c \<in> set (A @ B)"
    using ne last_in_set[of "B @ A"] hd_in_set[of "B @ A"] by (auto simp: p c)
  have links: "pvL b c = Some p" "nxL b p = Some c"
  proof -
    have r': "ring (nxL b) (pvL b) (B @ A)" using r ring_rotate by blast
    then obtain xs where xs: "B @ A = c # xs" using ne c by (cases "B @ A") auto
    then show "pvL b c = Some p" using ring_head_links(2)[of _ _ c xs] r' p by simp
    obtain ys where ys: "B @ A = ys @ [p]" using ne p by (metis append_butlast_last_id append_is_Nil_conv)
    then show "nxL b p = Some c" using ring_links(1)[of _ _ ys p "[]"] r' c
      by (cases ys) auto
  qed
  have b1: "p < num_cells ?P" "c < num_cells ?P" "h0 < num_cells ?P"
    using mem bd ne hd_in_set[OF ne] h0 by auto
  have np: "n \<noteq> p" "n \<noteq> c" using mem n by auto
  have cond: "lvl_side ?N = BUY \<and> lvl_price ?N > lvl_price ?H \<or> lvl_side ?N = SELL \<and> lvl_price ?N < lvl_price ?H
     \<longleftrightarrow> A = []"
    using A[of "hd A"] B[of "hd B"] ne N s notboth h0 by (cases A) (auto simp: better_def sides_def)
  show ?thesis
    using spot links b1 np n hd N cond
    by (cases "p = c")
      (simp_all add: AddOrderAtPrice_def Let_def f g h fun_upd_twist del: find_spot.simps add_2_eq_Suc')
qed

text \<open>A side with a new level in its place, whatever operation put it there.\<close>

lemma links_rep_new_level:
  fixes b :: "'x book"
  assumes rep: "links_rep b sh" and s: "s \<in> sides" and shs: "sh s = A @ B"
    and l: "l \<notin> set (all_levels sh)" "l < num_cells (levels_pool b)"
    and n: "n \<notin> set (all_orders sh)" "n < num_cells (orders_pool b)"
    and lvl: "level_rep b s (l, [n])"
    and A: "\<And>x. x \<in> set A \<Longrightarrow> better s (lvl_price (lv b (fst x))) (lvl_price (lv b l))"
    and B: "\<And>x. x \<in> set B \<Longrightarrow> better s (lvl_price (lv b l)) (lvl_price (lv b (fst x)))"
    and free: "price_to_level b (priceToIndex (lvl_price (lv b l))) = None"
    and b': "orders_pool b' = orders_pool b" "num_cells (levels_pool b') = num_cells (levels_pool b)"
      "\<And>k. lvl_side (lv b' k) = lvl_side (lv b k) \<and> lvl_price (lv b' k) = lvl_price (lv b k) \<and>
           lvl_head (lv b' k) = lvl_head (lv b k)"
      "ring (nxL b') (pvL b') (map fst (A @ (l, [n]) # B))"
      "head_of s b' = Some (fst (hd (A @ (l, [n]) # B)))" "head_of (opp s) b' = head_of (opp s) b"
      "price_to_level b' = (price_to_level b)(priceToIndex (lvl_price (lv b l)) := Some l)"
      "\<And>k. k \<in> fst ` set (sh (opp s)) \<Longrightarrow> lv b' k = lv b k"
  shows "links_rep b' (sh(s := A @ (l, [n]) # B))"
proof -
  let ?sh = "sh(s := A @ (l, [n]) # B)"
  have lr: "level_rep b' s x \<longleftrightarrow> level_rep b s x" for x
    by (rule level_rep_cong) (simp_all add: b')
  have old: "side_rep b s (A @ B)" using links_side[OF rep s] shs by simp
  have "side_rep b' s (A @ (l, [n]) # B)"
    using old lvl A B b' lr by (auto simp: side_rep_def sorted_wrt_append)
  moreover have "side_rep b' (opp s) (sh (opp s)) \<longleftrightarrow> side_rep b (opp s) (sh (opp s))"
    by (rule side_rep_cong) (simp_all add: b')
  then have "side_rep b' (opp s) (sh (opp s))" using links_side[OF rep] by simp
  moreover have "set (all_levels ?sh) = insert l (set (all_levels sh))"
    using shs opp_neq[OF s] by (auto simp: set_all_levels[OF s])
  moreover have "set (all_orders ?sh) = insert n (set (all_orders sh))"
    using shs opp_neq[OF s] by (auto simp: set_all_orders[OF s])
  moreover have "distinct (all_orders ?sh)"
    using rep shs n opp_neq[OF s] by (auto simp: links_rep_def distinct_all_orders[OF s] set_all_orders[OF s])
  moreover have "distinct (all_levels ?sh)"
    using rep shs l(1) opp_neq[OF s]
    by (simp add: links_rep_def distinct_all_levels[OF s] set_all_levels[OF s]) (auto simp: rev_image_eqI)
  moreover have "price_to_level b' k = Some m \<longleftrightarrow>
      m \<in> insert l (set (all_levels sh)) \<and> priceToIndex (lvl_price (lv b' m)) = k" for k m
    using links_index[OF rep, of k m] links_index[OF rep, of "priceToIndex (lvl_price (lv b l))" m] free l(1) b'
    by auto
  ultimately show ?thesis
    using rep l n b' opp_neq[OF s] by (simp add: links_rep_def ball_sides[OF s])
qed

lemma AddOrderAtPrice_links:
  fixes b :: "'x book"
  assumes rep: "links_rep b sh" and s: "s \<in> sides" and shs: "sh s = A @ B"
    and l: "l \<notin> set (all_levels sh)" "l < num_cells (levels_pool b)"
    and n: "n \<notin> set (all_orders sh)" "n < num_cells (orders_pool b)"
    and lvl: "level_rep b s (l, [n])"
    and A: "\<And>x. x \<in> set A \<Longrightarrow> better s (lvl_price (lv b (fst x))) (lvl_price (lv b l))"
    and B: "\<And>x. x \<in> set B \<Longrightarrow> better s (lvl_price (lv b l)) (lvl_price (lv b (fst x)))"
    and free: "price_to_level b (priceToIndex (lvl_price (lv b l))) = None"
  shows "\<exists>b'. AddOrderAtPrice l b = Inr b' \<and> links_rep b' (sh(s := A @ (l, [n]) # B)) \<and>
     orders_pool b' = orders_pool b \<and> relevelled (levels_pool b') (levels_pool b)"
proof (cases "A @ B = []")
  case True
  let ?P = "(levels_pool b)\<lparr>object := (lv b)(l := (lv b l)\<lparr>lvl_next := Some l, lvl_prev := Some l\<rparr>)\<rparr>"
  let ?b = "set_head s (Some l) (b\<lparr>price_to_level :=
     (price_to_level b)(priceToIndex (lvl_price (lv b l)) := Some l), levels_pool := ?P\<rparr>)"
  have side: "lvl_side (lv b l) = s" using lvl by (simp add: level_rep_def)
  have "head_of s b = None" using links_side[OF rep s] shs True by (auto simp: side_rep_def)
  then have "AddOrderAtPrice l b = Inr ?b"
    using l side by (simp add: AddOrderAtPrice_def Let_def)
  moreover have "l \<notin> fst ` set (sh (opp s))" using l by (auto simp: set_all_levels[OF s])
  then have "links_rep ?b (sh(s := A @ (l, [n]) # B))"
    using True s by (intro links_rep_new_level[OF rep s shs l n lvl A B free])
      (auto simp: set_head_def head_of_def opp_def sides_def)
  ultimately show ?thesis using relevelled_object by fastforce
next
  case False
  let ?A = "map fst A" and ?B = "map fst B"
  have sr: "side_rep b s (A @ B)" using links_side[OF rep s] shs by simp
  have r: "ring (nxL b) (pvL b) (?A @ ?B)" using sr False by (auto simp: side_rep_def)
  have hd: "head_of s b = Some (hd (?A @ ?B))"
    using sr False by (auto simp: side_rep_def hd_append hd_map)
  have ln: "l \<notin> set (?A @ ?B)" using l shs by (auto simp: set_all_levels[OF s])
  have bd: "k < num_cells (levels_pool b)" if "k \<in> set (?A @ ?B)" for k
    using links_level_bound[OF rep] that shs by (auto simp: set_all_levels[OF s])
  have side: "lvl_side (lv b l) = s" using lvl by (simp add: level_rep_def)
  define p where "p = last (?B @ ?A)"
  define c where "c = hd (?B @ ?A)"
  define f where "f = (lv b)(l := (lv b l)\<lparr>lvl_next := Some c, lvl_prev := Some p\<rparr>)"
  define g where "g = f(c := (f c)\<lparr>lvl_prev := Some l\<rparr>)"
  define h where "h = g(p := (g p)\<lparr>lvl_next := Some l\<rparr>)"
  let ?b = "b\<lparr>price_to_level := (price_to_level b)(priceToIndex (lvl_price (lv b l)) := Some l),
     levels_pool := (levels_pool b)\<lparr>object := h\<rparr>\<rparr>"
  let ?b' = "if ?A = [] then set_head s (Some l) ?b else ?b"
  have "better s (lvl_price (lv b k)) (lvl_price (lv b l))" if "k \<in> set ?A" for k
    using A that by auto
  moreover have "better s (lvl_price (lv b l)) (lvl_price (lv b k))" if "k \<in> set ?B" for k
    using B that by auto
  ultimately have run: "AddOrderAtPrice l b = Inr ?b'"
    using AddOrderAtPrice_run[OF r ln l(2) bd refl hd s side _ _ p_def c_def f_def g_def h_def]
    by (simp add: Let_def)
  have ne: "?A @ ?B \<noteq> []" using False by simp
  note ir = insert_level_ring[OF r ne ln p_def c_def f_def g_def h_def]
  have pc: "p \<in> set (?A @ ?B)" "c \<in> set (?A @ ?B)"
    using ne last_in_set[of "?B @ ?A"] hd_in_set[of "?B @ ?A"] by (auto simp: p_def c_def simp del: map_append)
  have dis: "distinct (all_levels sh)" using rep by (simp add: links_rep_def)
  have opp: "h k = lv b k" if "k \<in> fst ` set (sh (opp s))" for k
  proof -
    have "k \<notin> set (?A @ ?B)" using that dis shs by (auto simp: distinct_all_levels[OF s])
    moreover have "k \<noteq> l" using that l by (auto simp: set_all_levels[OF s])
    ultimately show ?thesis using pc by (auto simp: f_def g_def h_def)
  qed
  have "links_rep ?b' (sh(s := A @ (l, [n]) # B))"
  proof (rule links_rep_new_level[OF rep s shs l n lvl A B free])
    show "head_of s ?b' = Some (fst (hd (A @ (l, [n]) # B)))"
      using hd by (cases A) auto
    show "head_of (opp s) ?b' = head_of (opp s) b"
      using s by (auto simp: head_of_def set_head_def opp_def sides_def)
  qed (use ir opp in auto)
  then show ?thesis using run relevelled_object by fastforce
qed

lemma links_rep_cong:
  assumes "links_rep b sh" and "bids_by_price b' = bids_by_price b" and "asks_by_price b' = asks_by_price b"
    and "price_to_level b' = price_to_level b"
    and "num_cells (orders_pool b') = num_cells (orders_pool b)"
    and "num_cells (levels_pool b') = num_cells (levels_pool b)"
    and ob: "\<And>i. i \<in> set (all_orders sh) \<Longrightarrow> same_links (ob b' i) (ob b i)"
    and lv: "\<And>l. l \<in> set (all_levels sh) \<Longrightarrow> lv b' l = lv b l"
  shows "links_rep b' sh"
proof -
  have "side_rep b' s (sh s) \<longleftrightarrow> side_rep b s (sh s)" if "s \<in> sides" for s
    using assms(2,3) by (intro side_rep_cong ob lv)
      (auto simp: head_of_def set_all_orders[OF that] set_all_levels[OF that])
  moreover have "price_to_level b' k = Some l \<longleftrightarrow>
      l \<in> set (all_levels sh) \<and> priceToIndex (lvl_price (lv b' l)) = k" for k l
    using links_index[OF assms(1)] assms(4) lv by metis
  ultimately show ?thesis using assms(1,5,6) by (simp add: links_rep_def)
qed

lemma link_order_open:
  fixes b :: "'x book"
  assumes rep: "links_rep b sh" and s: "s \<in> sides"
    and n: "n \<notin> set (all_orders sh)" "n < num_cells (orders_pool b)" and sd: "ord_side (ob b n) = s"
    and free: "getOrderAtPrice b (ord_price (ob b n)) = None"
    and lp: "pool_ok (levels_pool b)" "live (levels_pool b) = set (all_levels sh)" "2 \<le> spare (levels_pool b)"
  defines "A \<equiv> takeWhile (\<lambda>x. better s (lvl_price (lv b (fst x))) (ord_price (ob b n))) (sh s)"
    and "B \<equiv> dropWhile (\<lambda>x. better s (lvl_price (lv b (fst x))) (ord_price (ob b n))) (sh s)"
  shows "\<exists>b' l. link_order n b = Inr b' \<and> l \<notin> set (all_levels sh) \<and>
     links_rep b' (sh(s := A @ (l, [n]) # B)) \<and> relinked (orders_pool b') (orders_pool b) \<and>
     pool_ok (levels_pool b') \<and> live (levels_pool b') = insert l (set (all_levels sh)) \<and>
     num_cells (levels_pool b') = num_cells (levels_pool b)"
proof -
  let ?p = "ord_price (ob b n)"
  have shs: "sh s = A @ B" by (simp add: A_def B_def)
  have A: "better s (lvl_price (lv b (fst x))) ?p" if "x \<in> set A" for x
    using that by (auto simp: A_def dest: set_takeWhileD)
  have ne: "lvl_price (lv b (fst x)) \<noteq> ?p" if "x \<in> set (sh s)" for x
    using free links_index[OF rep, of "priceToIndex ?p" "fst x"] that
    by (auto simp: getOrderAtPrice_def set_all_levels[OF s])
  have B: "better s ?p (lvl_price (lv b (fst x)))" if x: "x \<in> set B" for x
  proof -
    obtain y ys where B': "B = y # ys" using x by (cases B) auto
    then have "\<not> better s (lvl_price (lv b (fst y))) ?p" unfolding B_def by (metis hd_dropWhile list.distinct(1) list.sel(1))
    moreover have "y \<in> set (sh s)" using shs B' by simp
    ultimately have y: "better s ?p (lvl_price (lv b (fst y)))" using ne better_total[OF s] by blast
    have "sorted_wrt (better s) (map (\<lambda>x. lvl_price (lv b (fst x))) (A @ y # ys))"
      using links_side[OF rep s] shs B' by (simp add: side_rep_def)
    then show ?thesis using x B' y better_trans by (fastforce simp: sorted_wrt_append)
  qed
  let ?Q = "(orders_pool b)\<lparr>object := (ob b)(n := (ob b n)\<lparr>ord_next := Some n, ord_prev := Some n\<rparr>)\<rparr>"
  let ?L = "\<lparr>lvl_side = s, lvl_price = ?p, lvl_head = Some n, lvl_next = None, lvl_prev = None\<rparr>"
  have "card (live (levels_pool b)) + 2 \<le> num_cells (levels_pool b)" using lp(3) by (simp add: spare_live)
  with lp(1) obtain l P where al: "allocate ?L (levels_pool b) = Inr (l, P)" "l \<notin> live (levels_pool b)"
    "l < num_cells (levels_pool b)" "live P = insert l (live (levels_pool b))"
    "object P = (lv b)(l := ?L)" "num_cells P = num_cells (levels_pool b)" "pool_ok P"
    by (rule mp.alloc_elim)
  let ?b = "b\<lparr>orders_pool := ?Q, levels_pool := P\<rparr>"
  have l: "l \<notin> set (all_levels sh)" using al lp by simp
  have run: "link_order n b = AddOrderAtPrice l ?b"
    using n sd free al(1) by (simp add: link_order_def)
  have rep': "links_rep ?b sh"
    using n l al by (intro links_rep_cong[OF rep]) auto
  have "\<exists>b'. AddOrderAtPrice l ?b = Inr b' \<and> links_rep b' (sh(s := A @ (l, [n]) # B)) \<and>
     orders_pool b' = orders_pool ?b \<and> relevelled (levels_pool b') (levels_pool ?b)"
  proof (rule AddOrderAtPrice_links[OF rep' s shs l])
    show "level_rep ?b s (l, [n])" using sd al by (simp add: level_rep_def)
    show "price_to_level ?b (priceToIndex (lvl_price (lv ?b l))) = None"
      using free al by (simp add: getOrderAtPrice_def)
    have old: "lv ?b (fst x) = lv b (fst x)" if "x \<in> set (A @ B)" for x
      using that l shs al by (auto simp: set_all_levels[OF s])
    show "better s (lvl_price (lv ?b (fst x))) (lvl_price (lv ?b l))" if "x \<in> set A" for x
      using A that old al by simp
    show "better s (lvl_price (lv ?b l)) (lvl_price (lv ?b (fst x)))" if "x \<in> set B" for x
      using B that old al by simp
  qed (use n al in auto)
  moreover have "relinked ?Q (orders_pool b)" by (rule relinked_object) simp
  ultimately show ?thesis
    using run l al lp by (auto simp: relevelled_def)
qed

end
