(* ===== verification/BookRemove.thy ===== *)
theory BookRemove
  imports BookAdd
begin

text \<open>
  Removing from a represented book: an order leaves its level's ring; the last order of a
  level takes the level with it.
\<close>

section \<open>Closing a level\<close>

lemma remove_level_ring:
  assumes r: "ring (\<lambda>l. lvl_next (u l)) (\<lambda>l. lvl_prev (u l)) (A @ n # B)" and ne: "A @ B \<noteq> []"
    and p: "p = last (B @ A)" and c: "c = hd (B @ A)"
    and f: "f = u(p := (u p)\<lparr>lvl_next := Some c\<rparr>)"
    and g: "g = f(c := (f c)\<lparr>lvl_prev := Some p\<rparr>)"
    and h: "h = g(n := (g n)\<lparr>lvl_prev := None, lvl_next := None\<rparr>)"
  shows "ring (\<lambda>l. lvl_next (h l)) (\<lambda>l. lvl_prev (h l)) (A @ B)"
    and "lvl_side (h l) = lvl_side (u l) \<and> lvl_price (h l) = lvl_price (u l) \<and> lvl_head (h l) = lvl_head (u l)"
    and "l \<notin> set (A @ n # B) \<Longrightarrow> h l = u l"
proof -
  have mem: "p \<in> set (A @ B)" "c \<in> set (A @ B)"
    using ne last_in_set[of "B @ A"] hd_in_set[of "B @ A"] by (auto simp: p c)
  have n: "n \<notin> set (A @ B)" using ring_distinct[OF r] by auto
  let ?nx = "(\<lambda>l. lvl_next (u l))(p := Some c)" and ?pv = "(\<lambda>l. lvl_prev (u l))(c := Some p)"
  have "ring ?nx ?pv (A @ B)" using r ne p c by (rule ring_remove)
  moreover have "ring ?nx ?pv (A @ B) \<longleftrightarrow> ring (\<lambda>l. lvl_next (h l)) (\<lambda>l. lvl_prev (h l)) (A @ B)"
    using n mem by (intro ring_cong) (auto simp: f g h)
  ultimately show "ring (\<lambda>l. lvl_next (h l)) (\<lambda>l. lvl_prev (h l)) (A @ B)" by simp
  show "lvl_side (h l) = lvl_side (u l) \<and> lvl_price (h l) = lvl_price (u l) \<and> lvl_head (h l) = lvl_head (u l)"
    by (simp add: f g h)
  show "l \<notin> set (A @ n # B) \<Longrightarrow> h l = u l" using mem by (auto simp: f g h)
qed

lemma links_rep_close_level:
  fixes b :: "'x book"
  assumes rep: "links_rep b sh" and s: "s \<in> sides" and shs: "sh s = A @ (l, os) # B"
    and b': "orders_pool b' = orders_pool b" "num_cells (levels_pool b') = num_cells (levels_pool b)"
      "\<And>k. lvl_side (lv b' k) = lvl_side (lv b k) \<and> lvl_price (lv b' k) = lvl_price (lv b k) \<and>
           lvl_head (lv b' k) = lvl_head (lv b k)"
      "A @ B \<noteq> [] \<Longrightarrow> ring (nxL b') (pvL b') (map fst (A @ B))"
      "head_of s b' = (if A @ B = [] then None else Some (fst (hd (A @ B))))"
      "head_of (opp s) b' = head_of (opp s) b"
      "price_to_level b' = (price_to_level b)(priceToIndex (lvl_price (lv b l)) := None)"
      "\<And>k. k \<in> fst ` set (sh (opp s)) \<Longrightarrow> lv b' k = lv b k"
  shows "links_rep b' (sh(s := A @ B))"
proof -
  let ?sh = "sh(s := A @ B)"
  have lr: "level_rep b' s x \<longleftrightarrow> level_rep b s x" for x
    by (rule level_rep_cong) (simp_all add: b')
  have old: "side_rep b s (A @ (l, os) # B)" using links_side[OF rep s] shs by simp
  have "side_rep b' s (A @ B)"
    using old b' lr by (auto simp: side_rep_def sorted_wrt_append)
  moreover have "side_rep b' (opp s) (sh (opp s)) \<longleftrightarrow> side_rep b (opp s) (sh (opp s))"
    by (rule side_rep_cong) (simp_all add: b')
  then have "side_rep b' (opp s) (sh (opp s))" using links_side[OF rep] by simp
  moreover have dl: "distinct (all_levels ?sh)" "set (all_levels ?sh) = set (all_levels sh) - {l}"
    using rep shs opp_neq[OF s]
    by (auto simp: links_rep_def distinct_all_levels[OF s] set_all_levels[OF s])
  moreover have "set (all_orders ?sh) \<subseteq> set (all_orders sh)" "distinct (all_orders ?sh)"
    using rep shs opp_neq[OF s]
    by (auto simp: links_rep_def distinct_all_orders[OF s] set_all_orders[OF s])
  moreover have "price_to_level b' k = Some m \<longleftrightarrow>
      m \<in> set (all_levels sh) - {l} \<and> priceToIndex (lvl_price (lv b' m)) = k" for k m
  proof -
    have "price_to_level b (priceToIndex (lvl_price (lv b l))) = Some l"
      using links_index[OF rep] shs by (simp add: set_all_levels[OF s])
    then show ?thesis using links_index[OF rep, of k m] b' by auto
  qed
  ultimately show ?thesis
    using rep b' opp_neq[OF s] by (auto simp: links_rep_def ball_sides[OF s])
qed

lemma removeOrderAtPrice_links:
  fixes b :: "'x book"
  assumes rep: "links_rep b sh" and s: "s \<in> sides" and shs: "sh s = A @ (l, os) # B"
    and lp: "pool_ok (levels_pool b)" "live (levels_pool b) = set (all_levels sh)"
  shows "\<exists>b'. removeOrderAtPrice (Some l) b = Inr b' \<and> links_rep b' (sh(s := A @ B)) \<and>
     orders_pool b' = orders_pool b \<and> pool_ok (levels_pool b') \<and>
     live (levels_pool b') = set (all_levels sh) - {l} \<and>
     num_cells (levels_pool b') = num_cells (levels_pool b)"
proof -
  let ?A = "map fst A" and ?B = "map fst B"
  have sr: "side_rep b s (A @ (l, os) # B)" using links_side[OF rep s] shs by simp
  have r: "ring (nxL b) (pvL b) (?A @ l # ?B)" using sr by (auto simp: side_rep_def)
  have dl: "distinct (?A @ l # ?B)" using ring_distinct[OF r] .
  have head: "head_of s b = Some (fst (hd (A @ (l, os) # B)))" using sr by (auto simp: side_rep_def)
  have side: "lvl_side (lv b l) = s" using sr by (auto simp: side_rep_def level_rep_def)
  have lin: "l \<in> set (all_levels sh)" using shs by (simp add: set_all_levels[OF s])
  have lb: "l < num_cells (levels_pool b)" using links_level_bound[OF rep lin] .
  have opp: "k \<notin> set (?A @ l # ?B)" if "k \<in> fst ` set (sh (opp s))" for k
    using that rep shs by (auto simp: links_rep_def distinct_all_levels[OF s])
  let ?m = "(price_to_level b)(priceToIndex (lvl_price (lv b l)) := None)"
  show ?thesis
  proof (cases "A @ B = []")
    case True
    have "l \<in> live (levels_pool b)" using lin lp by simp
    with lp(1) obtain P where P: "deallocate l (levels_pool b) = Inr P"
      "live P = live (levels_pool b) - {l}" "object P = lv b" "num_cells P = num_cells (levels_pool b)"
      "pool_ok P"
      by (rule mp.free_elim)
    let ?b = "(set_head s None b)\<lparr>price_to_level := ?m, levels_pool := P\<rparr>"
    have "nxL b l = Some l" using r True by simp
    then have "removeOrderAtPrice (Some l) b = Inr ?b"
      using lb side P(1) by (simp add: removeOrderAtPrice_def Let_def)
    moreover have "links_rep ?b (sh(s := A @ B))"
      using True s P by (intro links_rep_close_level[OF rep s shs])
        (auto simp: set_head_def head_of_def opp_def sides_def)
    ultimately show ?thesis using P lp by auto
  next
    case False
    then have ne: "?A @ ?B \<noteq> []" by simp
    define p where "p = last (?B @ ?A)"
    define c where "c = hd (?B @ ?A)"
    define f where "f = (lv b)(p := (lv b p)\<lparr>lvl_next := Some c\<rparr>)"
    define g where "g = f(c := (f c)\<lparr>lvl_prev := Some p\<rparr>)"
    define h where "h = g(l := (g l)\<lparr>lvl_prev := None, lvl_next := None\<rparr>)"
    note rr = remove_level_ring[OF r ne p_def c_def f_def g_def h_def]
    have mem: "p \<in> set (?A @ ?B)" "c \<in> set (?A @ ?B)"
      using ne last_in_set[of "?B @ ?A"] hd_in_set[of "?B @ ?A"]
      by (auto simp: p_def c_def simp del: map_append)
    have nl: "p \<noteq> l" "c \<noteq> l" using mem dl by auto
    have bd: "p < num_cells (levels_pool b)" "c < num_cells (levels_pool b)"
      using mem links_level_bound[OF rep] shs by (auto simp: set_all_levels[OF s])
    have links: "nxL b l = Some c" "pvL b l = Some p"
    using ring_links_other[OF r ne] by (simp_all add: c_def p_def)
    let ?P = "(levels_pool b)\<lparr>object := h\<rparr>"
    have P0: "live ?P = live (levels_pool b)" "pool_ok ?P" "l \<in> live ?P"
      using lp lin by (auto simp: live_def pool_ok_def)
    from P0(2,3) obtain P where P: "deallocate l ?P = Inr P" "live P = live ?P - {l}"
      "object P = object ?P" "num_cells P = num_cells ?P" "pool_ok P"
      by (rule mp.free_elim)
    let ?b0 = "if A = [] then set_head s (Some c) b else b"
    let ?b = "?b0\<lparr>price_to_level := ?m, levels_pool := P\<rparr>"
    have isl: "head_of s b = Some l \<longleftrightarrow> A = []"
      using head dl by (cases A) auto
    have "removeOrderAtPrice (Some l) b = Inr ?b"
      using lb side nl bd links isl P(1)
      by (cases "p = c") (simp_all add: removeOrderAtPrice_def Let_def f_def g_def h_def fun_upd_twist)
    moreover have "links_rep ?b (sh(s := A @ B))"
    proof (rule links_rep_close_level[OF rep s shs])
      show "head_of s ?b = (if A @ B = [] then None else Some (fst (hd (A @ B))))"
        using head False by (cases A) (auto simp: c_def hd_map)
      show "head_of (opp s) ?b = head_of (opp s) b"
        using s by (auto simp: head_of_def set_head_def opp_def sides_def)
      show "lv ?b k = lv b k" if "k \<in> fst ` set (sh (opp s))" for k
        using rr(3)[OF opp[OF that]] P by simp
    qed (use rr P in auto)
    moreover have "live P = set (all_levels sh) - {l}" using P(2) P0(1) lp by simp
    ultimately show ?thesis using P(4,5) by auto
  qed
qed

section \<open>Leaving a level\<close>

lemma remove_order_ring:
  assumes r: "ring (\<lambda>i. ord_next (u i)) (\<lambda>i. ord_prev (u i)) (A @ n # B)" and ne: "A @ B \<noteq> []"
    and p: "p = last (B @ A)" and c: "c = hd (B @ A)"
    and f: "f = u(p := (u p)\<lparr>ord_next := Some c\<rparr>)"
    and g: "g = f(c := (f c)\<lparr>ord_prev := Some p\<rparr>)"
    and h: "h = g(n := (g n)\<lparr>ord_next := None, ord_prev := None\<rparr>)"
  shows "ring (\<lambda>i. ord_next (h i)) (\<lambda>i. ord_prev (h i)) (A @ B)"
    and "strip (h i) = strip (u i)" and "i \<notin> set (A @ n # B) \<Longrightarrow> h i = u i"
proof -
  have mem: "p \<in> set (A @ B)" "c \<in> set (A @ B)"
    using ne last_in_set[of "B @ A"] hd_in_set[of "B @ A"] by (auto simp: p c)
  have n: "n \<notin> set (A @ B)" using ring_distinct[OF r] by auto
  let ?nx = "(\<lambda>i. ord_next (u i))(p := Some c)" and ?pv = "(\<lambda>i. ord_prev (u i))(c := Some p)"
  have "ring ?nx ?pv (A @ B)" using r ne p c by (rule ring_remove)
  moreover have "ring ?nx ?pv (A @ B) \<longleftrightarrow> ring (\<lambda>i. ord_next (h i)) (\<lambda>i. ord_prev (h i)) (A @ B)"
    using n mem by (intro ring_cong) (auto simp: f g h)
  ultimately show "ring (\<lambda>i. ord_next (h i)) (\<lambda>i. ord_prev (h i)) (A @ B)" by simp
  show "strip (h i) = strip (u i)" by (simp add: f g h)
  show "i \<notin> set (A @ n # B) \<Longrightarrow> h i = u i" using mem by (auto simp: f g h)
qed

lemma relinked_refl [simp]: "relinked P P"
  by (simp add: relinked_def)

definition without :: "nat \<Rightarrow> nat list \<Rightarrow> levels \<Rightarrow> levels \<Rightarrow> levels" where
  "without l os A B = (if os = [] then A @ B else A @ (l, os) # B)"

lemma unlink_order_links:
  fixes b :: "'x book"
  assumes rep: "links_rep b sh" and s: "s \<in> sides" and shs: "sh s = A @ (l, os1 @ n # os2) # B"
    and lp: "pool_ok (levels_pool b)" "live (levels_pool b) = set (all_levels sh)"
  shows "\<exists>b'. unlink_order n b = Inr b' \<and> links_rep b' (sh(s := without l (os1 @ os2) A B)) \<and>
     relinked (orders_pool b') (orders_pool b) \<and> pool_ok (levels_pool b') \<and>
     live (levels_pool b') = set (all_levels (sh(s := without l (os1 @ os2) A B))) \<and>
     num_cells (levels_pool b') = num_cells (levels_pool b)"
proof -
  let ?os = "os1 @ n # os2"
  have lvl: "level_rep b s (l, ?os)" using links_level[OF rep s, of "(l, ?os)"] shs by simp
  then have r: "ring (nxO b) (pvO b) ?os" by (simp add: level_rep_def)
  have nin: "n \<in> set (all_orders sh)" using shs by (simp add: set_all_orders[OF s])
  have nb: "n < num_cells (orders_pool b)" using links_order_bound[OF rep nin] .
  have lin: "l \<in> set (all_levels sh)" using shs by (simp add: set_all_levels[OF s])
  have lb: "l < num_cells (levels_pool b)" using links_level_bound[OF rep lin] .
  have find: "getOrderAtPrice b (ord_price (ob b n)) = Some l"
    using links_find[OF rep s, of "(l, ?os)" n] shs by simp
  show ?thesis
  proof (cases "os1 @ os2 = []")
    case True
    then have "unlink_order n b = removeOrderAtPrice (Some l) b"
      using r nb find by (simp add: unlink_order_def Let_def)
    moreover have "set (all_levels (sh(s := A @ B))) = set (all_levels sh) - {l}"
      using rep shs opp_neq[OF s]
      by (auto simp: links_rep_def distinct_all_levels[OF s] set_all_levels[OF s])
    ultimately show ?thesis
      using removeOrderAtPrice_links[OF rep s shs lp] True by (auto simp: without_def)
  next
    case False
    define p where "p = last (os2 @ os1)"
    define c where "c = hd (os2 @ os1)"
    define f where "f = (ob b)(p := (ob b p)\<lparr>ord_next := Some c\<rparr>)"
    define g where "g = f(c := (f c)\<lparr>ord_prev := Some p\<rparr>)"
    define h where "h = g(n := (g n)\<lparr>ord_next := None, ord_prev := None\<rparr>)"
    define v where "v = (if os1 = [] then (lv b)(l := (lv b l)\<lparr>lvl_head := Some c\<rparr>) else lv b)"
    note rr = remove_order_ring[OF r False p_def c_def f_def g_def h_def]
    have mem: "p \<in> set (os1 @ os2)" "c \<in> set (os1 @ os2)"
      using False last_in_set[of "os2 @ os1"] hd_in_set[of "os2 @ os1"] by (auto simp: p_def c_def)
    have nn: "p \<noteq> n" "c \<noteq> n" using mem ring_distinct[OF r] by auto
    have bd: "p < num_cells (orders_pool b)" "c < num_cells (orders_pool b)"
      using mem links_order_bound[OF rep] shs by (auto simp: set_all_orders[OF s])
    have links: "ord_next (ob b n) = Some c" "ord_prev (ob b n) = Some p"
      using ring_links_other[OF r False] by (simp_all add: c_def p_def)
    have headn: "lvl_head (lv b l) = Some n \<longleftrightarrow> os1 = []"
      using lvl ring_distinct[OF r] by (cases os1) (auto simp: level_rep_def)
    let ?b = "b\<lparr>orders_pool := (orders_pool b)\<lparr>object := h\<rparr>, levels_pool := (levels_pool b)\<lparr>object := v\<rparr>\<rparr>"
    have "unlink_order n b = Inr ?b"
      using nb lb nn bd links find headn
      by (cases "p = c"; cases "os1 = []")
        (simp_all add: unlink_order_def Let_def f_def g_def h_def v_def fun_upd_twist)
    moreover have "links_rep ?b (sh(s := A @ (l, os1 @ os2) # B))"
    proof -
      let ?sh = "sh(s := A @ (l, os1 @ os2) # B)"
      have dis: "distinct (cells_of (A @ (l, ?os) # B))"
        "set (cells_of (A @ (l, ?os) # B)) \<inter> set (cells_of (sh (opp s))) = {}"
        using rep shs by (auto simp: links_rep_def distinct_all_orders[OF s])
      have lopp: "l \<notin> fst ` set (sh (opp s))"
        using rep shs by (auto simp: links_rep_def distinct_all_levels[OF s])
      have vfields: "lvl_side (v k) = lvl_side (lv b k)" "lvl_price (v k) = lvl_price (lv b k)"
        "lvl_next (v k) = lvl_next (lv b k)" "lvl_prev (v k) = lvl_prev (lv b k)" "k \<noteq> l \<Longrightarrow> v k = lv b k" for k
        by (simp_all add: v_def)
      have vhead: "lvl_head (v l) = Some (hd (os1 @ os2))"
        using lvl False by (cases os1) (auto simp: v_def c_def level_rep_def)
      have "level_rep ?b s (l, os1 @ os2)"
        using lvl rr(1) strip_eq_fields[OF rr(2)] vfields vhead by (simp add: level_rep_def)
      then have "side_rep ?b s (A @ (l, os1 @ os2) # B)"
      proof (rule side_rep_replace_level[rotated -1])
        show "side_rep b s (A @ (l, ?os) # B)" using links_side[OF rep s] shs by simp
        show "ob ?b i = ob b i" if "i \<in> set (cells_of (A @ B))" for i
          using rr(3)[of i] that dis by auto
      qed (simp_all add: vfields)
      moreover have "side_rep ?b (opp s) (sh (opp s)) \<longleftrightarrow> side_rep b (opp s) (sh (opp s))"
      proof (rule side_rep_cong)
        show "lv ?b k = lv b k" if "k \<in> fst ` set (sh (opp s))" for k
          using vfields(5)[of k] lopp that by (cases "k = l") auto
        show "same_links (ob ?b i) (ob b i)" if "i \<in> set (cells_of (sh (opp s)))" for i
        proof -
          have "i \<notin> set ?os" using that dis(2) by auto
          then show ?thesis using rr(3) by simp
        qed
      qed simp
      then have "side_rep ?b (opp s) (sh (opp s))" using links_side[OF rep] by simp
      moreover have "distinct (all_orders ?sh)" "set (all_orders ?sh) \<subseteq> set (all_orders sh)"
        using dis rep shs opp_neq[OF s]
        by (auto simp: distinct_all_orders[OF s] set_all_orders[OF s] links_rep_def)
      moreover have "set (all_levels ?sh) = set (all_levels sh)" "distinct (all_levels ?sh)"
        using rep shs opp_neq[OF s] by (auto simp: set_all_levels[OF s] distinct_all_levels[OF s] links_rep_def)
      ultimately show ?thesis
        using rep vfields opp_neq[OF s] by (auto simp: links_rep_def ball_sides[OF s])
    qed
    moreover have "relinked ((orders_pool b)\<lparr>object := h\<rparr>) (orders_pool b)"
      using rr(2) by (rule relinked_object)
    moreover have "relevelled ((levels_pool b)\<lparr>object := v\<rparr>) (levels_pool b)" by (rule relevelled_object)
    moreover have "set (all_levels (sh(s := A @ (l, os1 @ os2) # B))) = set (all_levels sh)"
      using shs opp_neq[OF s] by (auto simp: set_all_levels[OF s])
    moreover have "without l (os1 @ os2) A B = A @ (l, os1 @ os2) # B" using False by (auto simp: without_def)
    ultimately show ?thesis using lp by (auto simp: relevelled_def)
  qed
qed

end
