(* ===== verification/BookView.thy ===== *)
theory BookView
  imports BookRemove
begin

text \<open>
  Reading a book: \<open>resting s c\<close> lists the orders of a side of a book by following the
  pointers, best level first and each level from its head on. On a represented book it is what
  the shape says, and the pointer operations act on it as list operations: a new order goes
  behind the orders it does not beat (\<open>insert_order\<close>), a removed order is dropped.
\<close>

section \<open>Walking the book\<close>

definition level_cells :: "'x book \<Rightarrow> nat \<Rightarrow> nat list" where
  "level_cells c l = (case lvl_head (lv c l) of None \<Rightarrow> []
     | Some i \<Rightarrow> walk (nxO c) i (num_cells (orders_pool c)) i)"

definition side_cells :: "Side \<Rightarrow> 'x book \<Rightarrow> nat list" where
  "side_cells s c = (case head_of s c of None \<Rightarrow> []
     | Some h \<Rightarrow> concat (map (level_cells c) (walk (nxL c) h (num_cells (levels_pool c)) h)))"

definition resting :: "Side \<Rightarrow> 'x book \<Rightarrow> 'x order_scheme list" where
  "resting s c = (if s = BUY \<or> s = SELL then map (\<lambda>i. strip (ob c i)) (side_cells s c) else [])"

lemma level_cells_ring:
  assumes "lvl_head (lv c l) = Some (hd os)" and r: "ring (nxO c) (pvO c) os"
    and "set os \<subseteq> {..<num_cells (orders_pool c)}"
  shows "level_cells c l = os"
proof -
  obtain h xs where h: "os = h # xs" using r ring_nonempty by (cases os) auto
  have "length os \<le> num_cells (orders_pool c)"
    using ring_distinct[OF r] assms(3) by (intro distinct_length_le_bound) auto
  then have "walk (nxO c) h (num_cells (orders_pool c)) h = os"
    using walk_ring r h by fastforce
  then show ?thesis using assms(1) h by (simp add: level_cells_def)
qed

lemma level_cells_rep:
  assumes "level_rep c s x" and "set (snd x) \<subseteq> {..<num_cells (orders_pool c)}"
  shows "level_cells c (fst x) = snd x"
  using assms by (intro level_cells_ring) (simp_all add: level_rep_def)

lemma side_cells_rings:
  assumes head: "head_of s c = (if ls = [] then None else Some (fst (hd ls)))"
    and r: "ls \<noteq> [] \<Longrightarrow> ring (nxL c) (pvL c) (map fst ls)"
    and bd: "fst ` set ls \<subseteq> {..<num_cells (levels_pool c)}"
    and lev: "\<And>y. y \<in> set ls \<Longrightarrow> level_cells c (fst y) = snd y"
  shows "side_cells s c = cells_of ls"
proof (cases ls)
  case Nil
  then show ?thesis using head by (simp add: side_cells_def)
next
  case (Cons x xs)
  have r: "ring (nxL c) (pvL c) (fst x # map fst xs)" using r Cons by simp
  have "length (fst x # map fst xs) \<le> num_cells (levels_pool c)"
    using ring_distinct[OF r] bd Cons by (intro distinct_length_le_bound) auto
  with r have w: "walk (nxL c) (fst x) (num_cells (levels_pool c)) (fst x) = map fst (x # xs)"
    using walk_ring by fastforce
  have "map (level_cells c) (map fst (x # xs)) = map snd (x # xs)" using lev Cons by simp
  then have "concat (map (level_cells c) (walk (nxL c) (fst x) (num_cells (levels_pool c)) (fst x))) = cells_of (x # xs)"
    unfolding w cells_of_def by (rule arg_cong)
  then show ?thesis using head Cons by (simp add: side_cells_def)
qed

lemma side_cells_rep:
  assumes rep: "links_rep c sh" and s: "s \<in> sides"
  shows "side_cells s c = cells_of (sh s)"
proof (rule side_cells_rings)
  have sr: "side_rep c s (sh s)" using links_side[OF rep s] .
  then show "head_of s c = (if sh s = [] then None else Some (fst (hd (sh s))))"
    and "sh s \<noteq> [] \<Longrightarrow> ring (nxL c) (pvL c) (map fst (sh s))" by (simp_all add: side_rep_def)
  show "fst ` set (sh s) \<subseteq> {..<num_cells (levels_pool c)}"
    using links_level_bound[OF rep] by (auto simp: set_all_levels[OF s])
  fix y
  assume y: "y \<in> set (sh s)"
  then have "set (snd y) \<subseteq> set (all_orders sh)" using cells_of_mem[OF y] by (auto simp: set_all_orders[OF s])
  then show "level_cells c (fst y) = snd y"
    using links_level[OF rep s y] links_order_bound[OF rep] by (intro level_cells_rep) auto
qed

lemma resting_rep:
  "links_rep c sh \<Longrightarrow> s \<in> sides \<Longrightarrow> resting s c = map (\<lambda>i. strip (ob c i)) (cells_of (sh s))"
  using side_cells_rep by (fastforce simp: resting_def sides_def)

lemma resting_no_side [simp]: "s \<notin> sides \<Longrightarrow> resting s c = []"
  by (auto simp: resting_def sides_def)

lemma links_sides_price:
  assumes "links_rep c sh" and "s \<in> sides" and "x \<in> set (sh s)" and "i \<in> set (snd x)"
  shows "ord_price (ob c i) = lvl_price (lv c (fst x))" and "ord_side (ob c i) = s"
  using links_level[OF assms(1-3)] assms(4) by (simp_all add: level_rep_def)

lemma cells_ofE:
  assumes "i \<in> set (cells_of ls)"
  obtains x where "x \<in> set ls" and "i \<in> set (snd x)"
  using assms by (fastforce simp: cells_of_def)

lemma all_levelsE:
  assumes "l \<in> set (all_levels sh)"
  obtains t os where "t \<in> sides" and "(l, os) \<in> set (sh t)"
proof -
  have "\<exists>t \<in> sides. \<exists>os. (l, os) \<in> set (sh t)"
    using assms by (fastforce simp: all_levels_def sides_def)
  then show thesis using that by blast
qed

lemma sorted_wrt_all: "(\<And>x y. x \<in> set xs \<Longrightarrow> y \<in> set xs \<Longrightarrow> R x y) \<Longrightarrow> sorted_wrt R xs"
  by (induction xs) simp_all

lemma level_prices:
  "level_rep c s x \<Longrightarrow> i \<in> set (snd x) \<Longrightarrow> ord_price (ob c i) = lvl_price (lv c (fst x))"
  by (simp add: level_rep_def)

lemma resting_sorted:
  assumes rep: "links_rep c sh" and s: "s \<in> sides"
  shows "sorted_wrt (\<lambda>x y. better s (ord_price x) (ord_price y) \<or> ord_price x = ord_price y) (resting s c)"
proof -
  have "sorted_wrt (\<lambda>i j. better s (ord_price (ob c i)) (ord_price (ob c j)) \<or> ord_price (ob c i) = ord_price (ob c j))
      (cells_of ls)"
    if "\<forall>x \<in> set ls. level_rep c s x" and "sorted_wrt (better s) (map (\<lambda>x. lvl_price (lv c (fst x))) ls)" for ls
    using that
  proof (induction ls)
    case (Cons x ls)
    have "sorted_wrt (\<lambda>i j. better s (ord_price (ob c i)) (ord_price (ob c j)) \<or> ord_price (ob c i) = ord_price (ob c j))
        (snd x)"
      using Cons.prems(1) level_prices[of c s x] by (intro sorted_wrt_all) simp
    moreover have "better s (ord_price (ob c i)) (ord_price (ob c j))"
      if ij: "i \<in> set (snd x)" "j \<in> set (cells_of ls)" for i j
    proof -
      obtain y where y: "y \<in> set ls" "j \<in> set (snd y)" using ij(2) by (rule cells_ofE)
      then have "better s (lvl_price (lv c (fst x))) (lvl_price (lv c (fst y)))" using Cons.prems(2) by simp
      then show ?thesis using Cons.prems(1) ij(1) y level_prices[of c s x] level_prices[of c s y] by simp
    qed
    moreover have "sorted_wrt (\<lambda>i j. better s (ord_price (ob c i)) (ord_price (ob c j)) \<or> ord_price (ob c i) = ord_price (ob c j))
        (cells_of ls)"
      using Cons.prems by (intro Cons.IH) simp_all
    ultimately show ?case by (simp add: sorted_wrt_append)
  qed simp
  then show ?thesis
    using links_side[OF rep s] by (simp add: resting_rep[OF rep s] side_rep_def sorted_wrt_map)
qed

section \<open>Adding, seen from outside\<close>

definition goes_before :: "Side \<Rightarrow> 'x order_scheme \<Rightarrow> 'x order_scheme \<Rightarrow> bool" where
  "goes_before s x r \<longleftrightarrow> better s (ord_price x) (ord_price r) \<or> ord_price x = ord_price r"

definition insert_order :: "Side \<Rightarrow> 'x order_scheme \<Rightarrow> 'x order_scheme list \<Rightarrow> 'x order_scheme list" where
  "insert_order s r rs =
     takeWhile (\<lambda>x. goes_before s x r) rs @ r # dropWhile (\<lambda>x. goes_before s x r) rs"

lemma insert_order_split:
  assumes "\<And>x. x \<in> set xs \<Longrightarrow> goes_before s x r" and "\<And>x. x \<in> set ys \<Longrightarrow> \<not> goes_before s x r"
  shows "insert_order s r (xs @ ys) = xs @ r # ys"
proof -
  have "takeWhile (\<lambda>x. goes_before s x r) ys = []" "dropWhile (\<lambda>x. goes_before s x r) ys = ys"
    using assms(2) by (cases ys; simp)+
  then show ?thesis using assms(1) by (simp add: insert_order_def)
qed

text \<open>The price array cannot confuse a new order's price with another: every resting order
  whose price has the same index has the same price, and rests on the same side.\<close>

definition price_clear :: "'x book \<Rightarrow> Side \<Rightarrow> Price \<Rightarrow> bool" where
  "price_clear c s p \<longleftrightarrow> (\<forall>t \<in> sides. \<forall>x \<in> set (resting t c).
     priceToIndex (ord_price x) = priceToIndex p \<longrightarrow> ord_price x = p \<and> t = s)"

lemma level_found:
  assumes rep: "links_rep c sh" and s: "s \<in> sides" and clear: "price_clear c s p"
    and found: "getOrderAtPrice c p = Some l"
  obtains A os B where "sh s = A @ (l, os) # B" and "lvl_price (lv c l) = p"
proof -
  have l: "l \<in> set (all_levels sh)" "priceToIndex (lvl_price (lv c l)) = priceToIndex p"
    using found links_index[OF rep] by (auto simp: getOrderAtPrice_def)
  obtain t os where t: "t \<in> sides" "(l, os) \<in> set (sh t)" using l(1) by (rule all_levelsE)
  have lvl: "level_rep c t (l, os)" using links_level[OF rep t] .
  then obtain i os' where i: "os = i # os'" using ring_nonempty by (cases os) (auto simp: level_rep_def)
  have "i \<in> set (cells_of (sh t))" using cells_of_mem[OF t(2)] i by simp
  then have "strip (ob c i) \<in> set (resting t c)" using resting_rep[OF rep t(1)] by simp
  moreover have pr: "ord_price (strip (ob c i)) = lvl_price (lv c l)" using lvl i by (simp add: level_rep_def)
  ultimately have "lvl_price (lv c l) = p \<and> t = s" 
    using clear t(1) l(2) unfolding price_clear_def by metis
  then show thesis using that t(2) by (metis in_set_conv_decomp)
qed

lemma level_not_found:
  assumes rep: "links_rep c sh" and s: "s \<in> sides" and none: "getOrderAtPrice c p = None"
    and x: "x \<in> set (resting s c)"
  shows "ord_price x \<noteq> p"
proof -
  obtain i where i: "x = strip (ob c i)" "i \<in> set (cells_of (sh s))" using x resting_rep[OF rep s] by auto
  from i(2) obtain y where y: "y \<in> set (sh s)" "i \<in> set (snd y)" by (rule cells_ofE)
  show ?thesis using links_find[OF rep s y] none i(1) by auto
qed

lemma other_level_price:
  assumes rep: "links_rep c sh" and s: "s \<in> sides" and shs: "sh s = A @ (l, os) # B"
  shows "\<And>i. i \<in> set (cells_of A) \<Longrightarrow> better s (ord_price (ob c i)) (lvl_price (lv c l))"
    and "\<And>i. i \<in> set (cells_of B) \<Longrightarrow> better s (lvl_price (lv c l)) (ord_price (ob c i))"
    and "\<And>i. i \<in> set os \<Longrightarrow> ord_price (ob c i) = lvl_price (lv c l)"
proof -
  have sr: "side_rep c s (A @ (l, os) # B)" using links_side[OF rep s] shs by simp
  show "better s (ord_price (ob c i)) (lvl_price (lv c l))" if "i \<in> set (cells_of A)" for i
  proof -
    from that obtain y where y: "y \<in> set A" "i \<in> set (snd y)" by (rule cells_ofE)
    then have "better s (lvl_price (lv c (fst y))) (lvl_price (lv c l))" "level_rep c s y"
      using sr by (simp_all add: side_rep_def sorted_wrt_append)
    then show ?thesis using level_prices y(2) by metis
  qed
  show "better s (lvl_price (lv c l)) (ord_price (ob c i))" if "i \<in> set (cells_of B)" for i
  proof -
    from that obtain y where y: "y \<in> set B" "i \<in> set (snd y)" by (rule cells_ofE)
    then have "better s (lvl_price (lv c l)) (lvl_price (lv c (fst y)))" "level_rep c s y"
      using sr by (simp_all add: side_rep_def sorted_wrt_append)
    then show ?thesis using level_prices y(2) by metis
  qed
  show "ord_price (ob c i) = lvl_price (lv c l)" if "i \<in> set os" for i
    using sr that by (auto simp: side_rep_def level_rep_def)
qed

lemma better_asym: "better s p q \<Longrightarrow> \<not> better s q p"
  by (auto simp: better_def)

lemma resting_level:
  assumes rep: "links_rep c sh" and s: "s \<in> sides" and shs: "sh s = A @ (l, os) # B"
  shows "filter (\<lambda>x. ord_price x = lvl_price (lv c l)) (resting s c) = map (\<lambda>i. strip (ob c i)) os"
proof -
  let ?P = "\<lambda>i. ord_price (ob c i) = lvl_price (lv c l)"
  note op = other_level_price[OF rep s shs]
  have "\<not> ?P i" if "i \<in> set (cells_of A) \<union> set (cells_of B)" for i
    using that op(1,2)[of i] by auto
  then have "filter ?P (cells_of A) = []" "filter ?P (cells_of B) = []" by (simp_all add: filter_empty_conv)
  moreover have "filter ?P os = os" using op(3) by simp
  ultimately have "filter ?P (cells_of (sh s)) = os" using shs by simp
  then show ?thesis by (simp add: resting_rep[OF rep s] filter_map comp_def)
qed

lemma link_order_joins:
  fixes c :: "'x book"
  assumes rep: "links_rep c sh" and s: "s \<in> sides"
    and n: "n \<notin> set (all_orders sh)" "n < num_cells (orders_pool c)" and sd: "ord_side (ob c n) = s"
    and clear: "price_clear c s (ord_price (ob c n))"
    and lp: "pool_ok (levels_pool c)" "live (levels_pool c) = set (all_levels sh)" "2 \<le> spare (levels_pool c)"
  shows "\<exists>c' sh'. link_order n c = Inr c' \<and> links_rep c' sh' \<and> relinked (orders_pool c') (orders_pool c) \<and>
     pool_ok (levels_pool c') \<and> live (levels_pool c') = set (all_levels sh') \<and>
     num_cells (levels_pool c') = num_cells (levels_pool c) \<and>
     set (all_orders sh') = insert n (set (all_orders sh)) \<and> sh' (opp s) = sh (opp s) \<and>
     map (\<lambda>i. strip (ob c i)) (cells_of (sh' s)) = insert_order s (strip (ob c n)) (resting s c)"
proof (cases "getOrderAtPrice c (ord_price (ob c n))")
  case (Some l)
  then obtain A os B where sp: "sh s = A @ (l, os) # B" "lvl_price (lv c l) = ord_price (ob c n)"
    using level_found[OF rep s clear] by metis
  let ?sh = "sh(s := A @ (l, os @ [n]) # B)"
  obtain Q where Q: "link_order n c = Inr (c\<lparr>orders_pool := Q\<rparr>)" "relinked Q (orders_pool c)"
    "links_rep (c\<lparr>orders_pool := Q\<rparr>) ?sh"
    using link_order_append[OF rep s sp(1) n sp(2)[symmetric] sd] by blast
  note op = other_level_price[OF rep s sp(1)]
  have "insert_order s (strip (ob c n)) (map (\<lambda>i. strip (ob c i)) (cells_of A @ os) @ map (\<lambda>i. strip (ob c i)) (cells_of B)) =
      map (\<lambda>i. strip (ob c i)) (cells_of A @ os) @ strip (ob c n) # map (\<lambda>i. strip (ob c i)) (cells_of B)"
  proof (rule insert_order_split)
    show "goes_before s x (strip (ob c n))" if "x \<in> set (map (\<lambda>i. strip (ob c i)) (cells_of A @ os))" for x
      using that op(1,3) sp(2) by (auto simp: goes_before_def)
    show "\<not> goes_before s x (strip (ob c n))" if "x \<in> set (map (\<lambda>i. strip (ob c i)) (cells_of B))" for x
      using that op(2) sp(2) better_asym by (fastforce simp: goes_before_def)
  qed
  then have "map (\<lambda>i. strip (ob c i)) (cells_of (?sh s)) = insert_order s (strip (ob c n)) (resting s c)"
    using sp(1) by (simp add: resting_rep[OF rep s])
  moreover have "set (all_orders ?sh) = insert n (set (all_orders sh))" "set (all_levels ?sh) = set (all_levels sh)"
    "?sh (opp s) = sh (opp s)"
    using sp(1) opp_neq[OF s] by (auto simp: set_all_orders[OF s] set_all_levels[OF s])
  ultimately show ?thesis using Q lp by (intro exI[of _ "c\<lparr>orders_pool := Q\<rparr>"] exI[of _ ?sh]) simp
next
  case None
  let ?p = "ord_price (ob c n)" and ?f = "\<lambda>i. strip (ob c i)"
  let ?better = "\<lambda>x. better s (lvl_price (lv c (fst x))) ?p"
  define A where "A = takeWhile ?better (sh s)"
  define B where "B = dropWhile ?better (sh s)"
  have shs: "sh s = A @ B" by (simp add: A_def B_def)
  obtain c' l where c': "link_order n c = Inr c'" "l \<notin> set (all_levels sh)"
    "links_rep c' (sh(s := A @ (l, [n]) # B))" "relinked (orders_pool c') (orders_pool c)"
    "pool_ok (levels_pool c')" "live (levels_pool c') = insert l (set (all_levels sh))"
    "num_cells (levels_pool c') = num_cells (levels_pool c)"
    using link_order_open[OF rep s n sd None lp] unfolding A_def[symmetric] B_def[symmetric] by blast
  let ?sh = "sh(s := A @ (l, [n]) # B)"
  have "goes_before s (?f i) (?f n)" if "i \<in> set (cells_of A)" for i
  proof -
    from that obtain y where y: "y \<in> set A" "i \<in> set (snd y)" by (rule cells_ofE)
    then have "?better y" unfolding A_def by (metis set_takeWhileD)
    moreover have "level_rep c s y" using links_level[OF rep s, of y] y shs by simp
    ultimately show ?thesis using level_prices[of c s y i] y(2) by (simp add: goes_before_def)
  qed
  moreover have "\<not> goes_before s (?f i) (?f n)" if "i \<in> set (cells_of B)" for i
  proof -
    from that obtain y where y: "y \<in> set B" "i \<in> set (snd y)" by (rule cells_ofE)
    have ly: "level_rep c s x" if "x \<in> set B" for x using links_level[OF rep s, of x] that shs by simp
    obtain b bs where b: "B = b # bs" using y by (cases B) auto
    then have nb: "\<not> ?better b" unfolding B_def by (metis hd_dropWhile list.distinct(1) list.sel(1))
    have "sorted_wrt (better s) (map (\<lambda>x. lvl_price (lv c (fst x))) B)"
      using links_side[OF rep s] shs by (simp add: side_rep_def sorted_wrt_append)
    then have "y = b \<or> better s (lvl_price (lv c (fst b))) (lvl_price (lv c (fst y)))" using y b by auto
    then have "\<not> ?better y" using nb better_trans by metis
    moreover have "ord_price (?f i) \<noteq> ?p"
      using that shs by (intro level_not_found[OF rep s None]) (auto simp: resting_rep[OF rep s])
    ultimately show ?thesis using level_prices[OF ly[OF y(1)] y(2)] by (simp add: goes_before_def)
  qed
  ultimately have "insert_order s (?f n) (map ?f (cells_of A) @ map ?f (cells_of B)) =
      map ?f (cells_of A) @ ?f n # map ?f (cells_of B)"
    by (intro insert_order_split) auto
  then have "map ?f (cells_of (?sh s)) = insert_order s (?f n) (resting s c)"
    using shs by (simp add: resting_rep[OF rep s])
  moreover have "set (all_orders ?sh) = insert n (set (all_orders sh))"
    "set (all_levels ?sh) = insert l (set (all_levels sh))" "?sh (opp s) = sh (opp s)"
    using shs opp_neq[OF s] by (auto simp: set_all_orders[OF s] set_all_levels[OF s])
  ultimately show ?thesis using c' by (intro exI[of _ c'] exI[of _ ?sh]) simp
qed

end
