(* ===== verification/BookOps.thy ===== *)
theory BookOps
  imports BookView
begin

text \<open>
  The operations of the two order books on the shared structure: a fresh order is allocated and
  linked, a resting order is unlinked and given back. Both keep the representation, and on the
  lists of resting orders they insert and drop that order and nothing else.
\<close>

section \<open>Sizes\<close>

definition level_count :: "'x order_scheme list \<Rightarrow> nat" where
  "level_count rs = length (remdups (map ord_price rs))"

lemma level_count_card: "level_count rs = card (ord_price ` set rs)"
  by (simp add: level_count_def length_remdups_card_conv)

lemma resting_level_count:
  assumes rep: "links_rep c sh" and s: "s \<in> sides"
  shows "level_count (resting s c) = length (sh s)"
proof -
  let ?pr = "\<lambda>x. lvl_price (lv c (fst x))"
  have srt: "sorted_wrt (better s) (map ?pr (sh s))" using links_side[OF rep s] by (simp add: side_rep_def)
  have "distinct ps" if "sorted_wrt (better s) ps" for ps
    using that by (induction ps) auto
  note d = this[OF srt]
  have "ord_price ` set (resting s c) = ?pr ` set (sh s)"
  proof (intro subset_antisym subsetI)
    fix p
    assume "p \<in> ord_price ` set (resting s c)"
    then obtain i where i: "i \<in> set (cells_of (sh s))" "p = ord_price (ob c i)"
      by (auto simp: resting_rep[OF rep s])
    from i(1) obtain x where x: "x \<in> set (sh s)" "i \<in> set (snd x)" by (rule cells_ofE)
    then show "p \<in> ?pr ` set (sh s)" using level_prices[OF links_level[OF rep s x(1)] x(2)] i(2) by auto
  next
    fix p
    assume "p \<in> ?pr ` set (sh s)"
    then obtain x where x: "x \<in> set (sh s)" "p = ?pr x" by auto
    have lvl: "level_rep c s x" using links_level[OF rep s x(1)] .
    then obtain i where i: "i \<in> set (snd x)"
      using ring_nonempty by (metis level_rep_def last_in_set)
    then have "i \<in> set (cells_of (sh s))" using cells_of_mem x(1) by blast
    then show "p \<in> ord_price ` set (resting s c)"
      using level_prices[OF lvl i] x(2) by (force simp: resting_rep[OF rep s])
  qed
  then have "level_count (resting s c) = card (set (map ?pr (sh s)))" by (simp add: level_count_card)
  also have "\<dots> = length (sh s)" using distinct_card[OF d] by simp
  finally show ?thesis .
qed

lemma book_repD:
  assumes "book_rep c sh"
  shows "links_rep c sh" and "pool_ok (orders_pool c)" and "live (orders_pool c) = set (all_orders sh)"
    and "pool_ok (levels_pool c)" and "live (levels_pool c) = set (all_levels sh)"
  using assms by (simp_all add: book_rep_def pools_rep_def)

lemma book_spare:
  assumes rep: "book_rep c sh"
  shows "spare (orders_pool c) = num_cells (orders_pool c) - (length (resting BUY c) + length (resting SELL c))"
    and "spare (levels_pool c) = num_cells (levels_pool c) - (level_count (resting BUY c) + level_count (resting SELL c))"
proof -
  note b = book_repD[OF rep]
  have d: "distinct (all_orders sh)" "distinct (all_levels sh)" using b(1) by (simp_all add: links_rep_def)
  have "card (set (all_orders sh)) = length (resting BUY c) + length (resting SELL c)"
    using distinct_card[OF d(1)] by (simp add: all_orders_def resting_rep[OF b(1)])
  then show "spare (orders_pool c) = num_cells (orders_pool c) - (length (resting BUY c) + length (resting SELL c))"
    by (simp add: spare_live b(3))
  have "card (set (all_levels sh)) = level_count (resting BUY c) + level_count (resting SELL c)"
    using distinct_card[OF d(2)] by (simp add: all_levels_def resting_level_count[OF b(1)])
  then show "spare (levels_pool c) = num_cells (levels_pool c) - (level_count (resting BUY c) + level_count (resting SELL c))"
    by (simp add: spare_live b(5))
qed

section \<open>Removing an order\<close>

lemma order_split:
  assumes "i \<in> set (all_orders sh)"
  obtains s A l os1 os2 B where "s \<in> sides" and "sh s = A @ (l, os1 @ i # os2) # B"
proof -
  obtain s where s: "s \<in> sides" "i \<in> set (cells_of (sh s))"
    using assms by (auto simp: all_orders_def sides_def)
  from s(2) obtain x where x: "x \<in> set (sh s)" "i \<in> set (snd x)" by (rule cells_ofE)
  obtain A B where AB: "sh s = A @ x # B" using x(1) by (meson in_set_conv_decomp)
  obtain os1 os2 where os: "snd x = os1 @ i # os2" using x(2) by (meson in_set_conv_decomp)
  show thesis using that[OF s(1), of A "fst x" os1 os2 B] AB os by (metis prod.collapse)
qed

lemma all_orders_without:
  assumes "distinct (all_orders sh)" and "s \<in> sides" and "sh s = A @ (l, os1 @ n # os2) # B"
  shows "set (all_orders (sh(s := without l (os1 @ os2) A B))) = set (all_orders sh) - {n}"
    and "cells_of (without l (os1 @ os2) A B) = filter (\<lambda>i. i \<noteq> n) (cells_of (sh s))"
proof -
  have d: "distinct (cells_of A @ (os1 @ n # os2) @ cells_of B)"
    "n \<notin> set (cells_of (sh (opp s)))"
    using assms by (auto simp: distinct_all_orders[OF assms(2)])
  have *: "filter (\<lambda>i. i \<noteq> n) xs = xs" if "n \<notin> set xs" for xs
    using that by (auto intro: filter_True)
  show c: "cells_of (without l (os1 @ os2) A B) = filter (\<lambda>i. i \<noteq> n) (cells_of (sh s))"
    using d assms(3) by (auto simp: without_def *)
  show "set (all_orders (sh(s := without l (os1 @ os2) A B))) = set (all_orders sh) - {n}"
    using c d opp_neq[OF assms(2)] by (auto simp: set_all_orders[OF assms(2)])
qed

lemma unlink_free:
  fixes c :: "'x book"
  assumes rep: "book_rep c sh" and s: "s \<in> sides" and shs: "sh s = A @ (l, os1 @ n # os2) # B"
  defines "sh' \<equiv> sh(s := without l (os1 @ os2) A B)"
  shows "\<exists>c' Q. unlink_order n c = Inr c' \<and> deallocate n (orders_pool c') = Inr Q \<and>
     book_rep (c'\<lparr>orders_pool := Q\<rparr>) sh' \<and> n < num_cells (orders_pool c') \<and>
     object Q = ob c' \<and> (\<forall>i. strip (ob c' i) = strip (ob c i)) \<and> set (all_orders sh') = set (all_orders sh) - {n} \<and>
     num_cells Q = num_cells (orders_pool c) \<and> num_cells (levels_pool c') = num_cells (levels_pool c) \<and>
     (\<forall>t \<in> sides. resting t (c'\<lparr>orders_pool := Q\<rparr>) =
        map (\<lambda>i. strip (ob c i)) (filter (\<lambda>i. i \<noteq> n) (cells_of (sh t))))"
proof -
  note b = book_repD[OF rep]
  obtain c' where c: "unlink_order n c = Inr c'" "links_rep c' sh'" "relinked (orders_pool c') (orders_pool c)"
    "pool_ok (levels_pool c')" "live (levels_pool c') = set (all_levels sh')"
    "num_cells (levels_pool c') = num_cells (levels_pool c)"
    using unlink_order_links[OF b(1) s shs b(4,5)] unfolding sh'_def by blast
  have d: "distinct (all_orders sh)" using b(1) by (simp add: links_rep_def)
  note ao = all_orders_without[OF d s shs, folded sh'_def]
  have nin: "n \<in> set (all_orders sh)" using shs by (simp add: set_all_orders[OF s])
  have p0: "pool_ok (orders_pool c')" "n \<in> live (orders_pool c')"
    using c(3) b nin by (simp_all add: relinked_def)
  then obtain Q where Q: "deallocate n (orders_pool c') = Inr Q" "live Q = live (orders_pool c') - {n}"
    "object Q = ob c'" "num_cells Q = num_cells (orders_pool c')" "pool_ok Q" by (rule mp.free_elim)
  let ?c = "c'\<lparr>orders_pool := Q\<rparr>"
  have lr: "links_rep ?c sh'" using Q by (intro links_rep_cong[OF c(2)]) auto
  have st: "(\<lambda>i. strip (ob ?c i)) = (\<lambda>i. strip (ob c i))" using c(3) Q(3) by (simp add: relinked_def)
  have "cells_of (sh' t) = filter (\<lambda>i. i \<noteq> n) (cells_of (sh t))" if "t \<in> sides" for t
  proof (cases "t = s")
    case False
    then have "t = opp s" using s that by (auto simp: sides_def)
    then have "n \<notin> set (cells_of (sh t))"
      using d shs by (auto simp: distinct_all_orders[OF s])
    then have "filter (\<lambda>i. i \<noteq> n) (cells_of (sh t)) = cells_of (sh t)"
      by (intro filter_True) auto
    then show ?thesis using False by (simp add: sh'_def)
  qed (use ao(2) in \<open>simp add: sh'_def\<close>)
  then have view: "resting t ?c = map (\<lambda>i. strip (ob c i)) (filter (\<lambda>i. i \<noteq> n) (cells_of (sh t)))"
    if "t \<in> sides" for t
    using resting_rep[OF lr that] that by (simp only: st)
  have "live Q = set (all_orders sh')" using Q(2) c(3) b(3) ao(1) by (simp add: relinked_def)
  then have "book_rep ?c sh'" using Q c lr by (simp add: book_rep_def pools_rep_def)
  moreover have "n < num_cells (orders_pool c')" using p0(2) by (rule live_bound)
  ultimately show ?thesis using c Q view ao(1) by (intro exI[of _ c'] exI[of _ Q]) (simp add: relinked_def)
qed

section \<open>Adding an order\<close>

lemma alloc_link:
  fixes c :: "'x book"
  assumes rep: "book_rep c sh" and s: "s \<in> sides" and clear: "price_clear c s (ord_price r)"
    and side: "ord_side r = s"
    and room: "2 \<le> spare (orders_pool c)" "2 \<le> spare (levels_pool c)"
  shows "\<exists>i Q c' sh'. allocate r (orders_pool c) = Inr (i, Q) \<and> link_order i (c\<lparr>orders_pool := Q\<rparr>) = Inr c' \<and>
     book_rep c' sh' \<and> i \<notin> set (all_orders sh) \<and> set (all_orders sh') = insert i (set (all_orders sh)) \<and>
     i < num_cells (orders_pool c') \<and> num_cells (orders_pool c') = num_cells (orders_pool c) \<and>
     num_cells (levels_pool c') = num_cells (levels_pool c) \<and>
     (\<forall>j. strip (ob c' j) = strip (if j = i then r else ob c j)) \<and>
     (\<lambda>t. resting t c') = (\<lambda>t. resting t c)(s := insert_order s (strip r) (resting s c))"
proof -
  note b = book_repD[OF rep]
  have "card (live (orders_pool c)) + 2 \<le> num_cells (orders_pool c)"
    using room(1) by (simp add: spare_live)
  with b(2) obtain i Q where al: "allocate r (orders_pool c) = Inr (i, Q)"
    "i \<notin> live (orders_pool c)" "i < num_cells (orders_pool c)"
    "live Q = insert i (live (orders_pool c))" "object Q = (ob c)(i := r)"
    "num_cells Q = num_cells (orders_pool c)" "pool_ok Q"
    by (rule mp.alloc_elim)
  have i: "i \<notin> set (all_orders sh)" using al(2) b(3) by simp
  let ?c = "c\<lparr>orders_pool := Q\<rparr>"
  have same: "ob ?c j = ob c j" if "j \<in> set (all_orders sh)" for j
    using al(5) i that by auto
  have lr': "links_rep ?c sh"
    using same al by (intro links_rep_cong[OF b(1)]) auto
  have view: "resting t ?c = resting t c" for t
  proof (cases "t \<in> sides")
    case True
    then have "set (cells_of (sh t)) \<subseteq> set (all_orders sh)" by (auto simp: all_orders_def sides_def)
    then show ?thesis using same by (auto simp: resting_rep[OF lr' True] resting_rep[OF b(1) True])
  qed simp
  have "price_clear ?c s (ord_price (ob ?c i))"
    using clear al(5) by (simp add: price_clear_def view)
  moreover have "i < num_cells (orders_pool ?c)" "ord_side (ob ?c i) = s" "ob ?c i = r"
    using al side by simp_all
  ultimately obtain c' sh' where c: "link_order i ?c = Inr c'" "links_rep c' sh'" "relinked (orders_pool c') Q"
    "pool_ok (levels_pool c')" "live (levels_pool c') = set (all_levels sh')"
    "num_cells (levels_pool c') = num_cells (levels_pool c)"
    "set (all_orders sh') = insert i (set (all_orders sh))" "sh' (opp s) = sh (opp s)"
    "map (\<lambda>j. strip (ob ?c j)) (cells_of (sh' s)) = insert_order s (strip r) (resting s c)"
    using link_order_joins[OF lr' s i _ _ _, unfolded view] b room(2) by auto
  have st': "(\<lambda>j. strip (ob c' j)) = (\<lambda>j. strip (ob ?c j))" using c(3) by (simp add: relinked_def)
  have "(\<lambda>t. resting t c') = (\<lambda>t. resting t c)(s := insert_order s (strip r) (resting s c))"
  proof
    fix t
    consider "t = s" | "t = opp s" "t \<noteq> s" | "t \<notin> sides" "t \<noteq> s"
      using s opp_neq[OF s] unfolding sides_def by force
    then show "resting t c' = ((\<lambda>t. resting t c)(s := insert_order s (strip r) (resting s c))) t"
    proof cases
      case 1
      then show ?thesis using resting_rep[OF c(2) s] st' c(9) by simp
    next
      case 2
      have "resting t c' = map (\<lambda>j. strip (ob ?c j)) (cells_of (sh t))"
        using resting_rep[OF c(2), of t] 2 c(8) st' by simp
      also have "\<dots> = resting t ?c" using resting_rep[OF lr', of t] 2 by simp
      finally show ?thesis using 2 view by simp
    qed simp
  qed
  moreover have "strip (ob c' j) = strip (if j = i then r else ob c j)" for j
    using fun_cong[OF st', of j] al(5) by simp
  moreover have "book_rep c' sh'" using c al b by (simp add: book_rep_def pools_rep_def relinked_def)
  ultimately show ?thesis using c al i by (intro exI[of _ i] exI[of _ Q] exI[of _ c'] exI[of _ sh']) (simp add: relinked_def)
qed

end
