(* ===== verification/Messages.thy ===== *)
theory Messages
  imports TradingTypes
begin

text \<open>
  The messages exchanged by the components: \<^verbatim>\<open>include/exchange/client_request.hpp\<close>,
  \<^verbatim>\<open>client_response.hpp\<close> and \<^verbatim>\<open>market_data.hpp\<close>, with their printed
  forms (the \<^verbatim>\<open>operator<<\<close> of the enumerations and the \<^verbatim>\<open>toString\<close> of
  the structures). A type byte that is no enumerator is kept as such (\<open>CRQ_OTHER\<close>,
  \<open>CRS_OTHER\<close>, \<open>MU_OTHER\<close>).
\<close>

section \<open>Client requests\<close>

datatype ClientRequestType = CRQ_INVALID | CRQ_NEW | CRQ_CANCEL | CRQ_OTHER u8

fun show_ClientRequestType :: "ClientRequestType \<Rightarrow> string" where
  "show_ClientRequestType CRQ_INVALID = ''INVALID''"
| "show_ClientRequestType CRQ_NEW = ''NEW''"
| "show_ClientRequestType CRQ_CANCEL = ''CANCEL''"
| "show_ClientRequestType (CRQ_OTHER _) = ''UNKNOWN''"

record MEClientRequest =
  rq_type :: ClientRequestType
  rq_client_id :: ClientId
  rq_ticker_id :: TickerId
  rq_order_id :: OrderId
  rq_side :: Side
  rq_price :: Price
  rq_qty :: Qty

definition MEClientRequest_toString :: "MEClientRequest \<Rightarrow> string" where
  "MEClientRequest_toString r =
     ''MEClientRequest'' @ '' ['' @ ''type:'' @ show_ClientRequestType (rq_type r) @
     '' client:'' @ clientIdToString (rq_client_id r) @ '' ticker:'' @ tickerIdToString (rq_ticker_id r) @
     '' oid:'' @ orderIdToString (rq_order_id r) @ '' side:'' @ sideToString (rq_side r) @
     '' qty:'' @ qtyToString (rq_qty r) @ '' price:'' @ priceToString (rq_price r) @ '']''"

record OGClientRequest =
  ogrq_seq_num :: u64
  ogrq_request :: MEClientRequest

definition OGClientRequest_toString :: "OGClientRequest \<Rightarrow> string" where
  "OGClientRequest_toString r =
     ''OGClientRequests'' @ '' ['' @ '' seq num: '' @ to_string (unat (ogrq_seq_num r)) @
     '' :'' @ MEClientRequest_toString (ogrq_request r) @ '']''"

section \<open>Client responses\<close>

datatype ClientResponseType = CRS_INVALID | ACCEPTED | CANCELLED | FILLED | CANCEL_REJECTED
  | CRS_OTHER u8

fun show_ClientResponseType :: "ClientResponseType \<Rightarrow> string" where
  "show_ClientResponseType CRS_INVALID = ''INVALID''"
| "show_ClientResponseType ACCEPTED = ''ACCEPTED''"
| "show_ClientResponseType CANCELLED = ''CANCELLED''"
| "show_ClientResponseType FILLED = ''FILLED''"
| "show_ClientResponseType CANCEL_REJECTED = ''CANCEL_REJECTED''"
| "show_ClientResponseType (CRS_OTHER _) = ''UNKNOWN''"

record MEClientResponse =
  rs_type :: ClientResponseType
  rs_client_id :: ClientId
  rs_ticker_id :: TickerId
  rs_client_order_id :: OrderId
  rs_market_order_id :: OrderId
  rs_side :: Side
  rs_price :: Price
  rs_exec_qty :: Qty
  rs_left_qty :: Qty

definition MEClientResponse_toString :: "MEClientResponse \<Rightarrow> string" where
  "MEClientResponse_toString r =
     ''MEClientResponse'' @ '' ['' @ ''type:'' @ show_ClientResponseType (rs_type r) @
     '' client:'' @ clientIdToString (rs_client_id r) @ '' ticker:'' @ tickerIdToString (rs_ticker_id r) @
     '' client oid:'' @ orderIdToString (rs_client_order_id r) @
     '' market oid:'' @ orderIdToString (rs_market_order_id r) @
     '' side:'' @ sideToString (rs_side r) @ '' executed qty:'' @ qtyToString (rs_exec_qty r) @
     '' left qty:'' @ qtyToString (rs_left_qty r) @ '' price:'' @ priceToString (rs_price r) @ '']''"

record OGClientResponse =
  ogrs_seq_num :: u64
  ogrs_response :: MEClientResponse

definition OGClientResponse_toString :: "OGClientResponse \<Rightarrow> string" where
  "OGClientResponse_toString r =
     ''OGClientResponse'' @ '' ['' @ '' seq num: '' @ to_string (unat (ogrs_seq_num r)) @
     '' :'' @ MEClientResponse_toString (ogrs_response r) @ '']''"

section \<open>Market updates\<close>

datatype MarketUpdateType = MU_INVALID | MU_ADD | MU_MODIFY | MU_CANCEL | MU_TRADE | MU_CLEAR
  | SNAPSHOT_START | SNAPSHOT_END | MU_OTHER u8

fun show_MarketUpdateType :: "MarketUpdateType \<Rightarrow> string" where
  "show_MarketUpdateType MU_INVALID = ''INVALID''"
| "show_MarketUpdateType MU_ADD = ''ADD''"
| "show_MarketUpdateType MU_MODIFY = ''MODIFY''"
| "show_MarketUpdateType MU_CANCEL = ''CANCEL''"
| "show_MarketUpdateType MU_TRADE = ''TRADE''"
| "show_MarketUpdateType MU_CLEAR = ''CLEAR''"
| "show_MarketUpdateType SNAPSHOT_START = ''SNAPSHOT_START''"
| "show_MarketUpdateType SNAPSHOT_END = ''SNAPSHOT_END''"
| "show_MarketUpdateType (MU_OTHER _) = ''UNKNOWN''"

record MEMarketUpdate =
  mu_type :: MarketUpdateType
  mu_order_id :: OrderId
  mu_ticker_id :: TickerId
  mu_side :: Side
  mu_price :: Price
  mu_qty :: Qty
  mu_priority :: Priority

text \<open>The default member values, for aggregates that name only the first members.\<close>

definition default_update :: MEMarketUpdate where
  "default_update = \<lparr>mu_type = MU_INVALID, mu_order_id = OrderId_INVALID,
     mu_ticker_id = TickerId_INVALID, mu_side = SIDE_INVALID, mu_price = Price_INVALID,
     mu_qty = Qty_INVALID, mu_priority = Priority_INVALID\<rparr>"

definition default_request :: MEClientRequest where
  "default_request = \<lparr>rq_type = CRQ_INVALID, rq_client_id = ClientId_INVALID, rq_ticker_id = TickerId_INVALID,
     rq_order_id = OrderId_INVALID, rq_side = SIDE_INVALID, rq_price = Price_INVALID, rq_qty = Qty_INVALID\<rparr>"

definition default_response :: MEClientResponse where
  "default_response = \<lparr>rs_type = CRS_INVALID, rs_client_id = ClientId_INVALID, rs_ticker_id = TickerId_INVALID,
     rs_client_order_id = OrderId_INVALID, rs_market_order_id = OrderId_INVALID, rs_side = SIDE_INVALID,
     rs_price = Price_INVALID, rs_exec_qty = Qty_INVALID, rs_left_qty = Qty_INVALID\<rparr>"

text \<open>The order identifier is printed by \<^verbatim>\<open>clientIdToString\<close>, which takes 32 bits.\<close>

definition MEMarketUpdate_toString :: "MEMarketUpdate \<Rightarrow> string" where
  "MEMarketUpdate_toString u =
     ''MEMarketUpdate'' @ '' ['' @ ''type:'' @ show_MarketUpdateType (mu_type u) @
     '' orderID:'' @ clientIdToString (ucast (mu_order_id u)) @
     '' ticker:'' @ tickerIdToString (mu_ticker_id u) @ '' side:'' @ sideToString (mu_side u) @
     '' price:'' @ priceToString (mu_price u) @ '' priority:'' @ priceToString (mu_priority u) @ '']''"

record MDPMarketUpdate =
  mdp_seq_num :: u64
  mdp_update :: MEMarketUpdate

definition MDPMarketUpdate_toString :: "MDPMarketUpdate \<Rightarrow> string" where
  "MDPMarketUpdate_toString u =
     ''MDParketUpdate'' @ '' ['' @ '' seq num: '' @ to_string (unat (mdp_seq_num u)) @
     '' message: '' @ MEMarketUpdate_toString (mdp_update u) @ '']''"

text \<open>Orders whose identifiers differ by a multiple of \<open>2 ^ 32\<close> print the same.\<close>

lemma MEMarketUpdate_toString_truncates:
  "MEMarketUpdate_toString (u\<lparr>mu_order_id := i + 2 ^ 32\<rparr>) = MEMarketUpdate_toString (u\<lparr>mu_order_id := i\<rparr>)"
proof -
  have "(ucast (i + 2 ^ 32) :: u32) = ucast i"
    by (transfer, simp add: take_bit_eq_mod mod_mod_cancel)
  then show ?thesis by (simp add: MEMarketUpdate_toString_def)
qed

end
