(* ===== verification/MEOrderBook.thy ===== *)
theory MEOrderBook
  imports BookOps Messages
begin

text \<open>
  The exchange's order book of one ticker, \<^verbatim>\<open>include/exchange/order_book.hpp\<close> and
  \<^verbatim>\<open>src/exchange/order_book.cpp\<close>: the pointer structure of \<open>BookCore\<close> with the index
  from client and client order identifiers to orders, the market order identifiers, and the
  messages handed to the matching engine (\<open>sent_responses\<close> and \<open>sent_updates\<close>, in the order
  of the calls). \<^verbatim>\<open>add\<close> and \<^verbatim>\<open>cancel\<close> are the two public operations.
\<close>

section \<open>State\<close>

record MEOrder = order +
  ord_ticker :: TickerId
  ord_client :: ClientId
  ord_client_oid :: OrderId

type_synonym me_core = "unit MEOrder_ext book"

record MEOrderBook =
  ticker :: TickerId
  cid_oid_to_order :: "ClientId \<Rightarrow> OrderId \<Rightarrow> ptr"
  core :: me_core
  next_order_id :: OrderId
  sent_responses :: "MEClientResponse list"
  sent_updates :: "MEMarketUpdate list"

definition default_MEOrder :: MEOrder where
  "default_MEOrder = \<lparr>ord_id = OrderId_INVALID, ord_side = SIDE_INVALID, ord_price = Price_INVALID,
     ord_qty = Qty_INVALID, ord_priority = Priority_INVALID, ord_next = None, ord_prev = None,
     ord_ticker = TickerId_INVALID, ord_client = ClientId_INVALID, ord_client_oid = OrderId_INVALID\<rparr>"

definition default_level :: OrdersAtPrice where
  "default_level = \<lparr>lvl_side = SIDE_INVALID, lvl_price = Price_INVALID, lvl_head = None,
     lvl_next = None, lvl_prev = None\<rparr>"

definition new_MEOrderBook :: "TickerId \<Rightarrow> MEOrderBook" where
  "new_MEOrderBook t =
    \<lparr>ticker = t, cid_oid_to_order = (\<lambda>_ _. None),
     core = \<lparr>orders_pool = newMemPool default_MEOrder ME_MAX_ORDER_IDS,
             levels_pool = newMemPool default_level ME_MAX_PRICE_LEVELS,
             bids_by_price = None, asks_by_price = None, price_to_level = (\<lambda>_. None)\<rparr>,
     next_order_id = 1, sent_responses = [], sent_updates = []\<rparr>"

definition sendClientResponse :: "MEClientResponse \<Rightarrow> MEOrderBook \<Rightarrow> MEOrderBook" where
  "sendClientResponse r b = b\<lparr>sent_responses := sent_responses b @ [r]\<rparr>"

definition sendMarketUpdate :: "MEMarketUpdate \<Rightarrow> MEOrderBook \<Rightarrow> MEOrderBook" where
  "sendMarketUpdate u b = b\<lparr>sent_updates := sent_updates b @ [u]\<rparr>"

text \<open>The bounds of \<^verbatim>\<open>cid_oid_to_order_\<close>, an array of arrays.\<close>

definition in_index :: "ClientId \<Rightarrow> OrderId \<Rightarrow> bool" where
  "in_index c oid \<longleftrightarrow> unat c < ME_MAX_NUM_CLIENTS \<and> unat oid < ME_MAX_ORDER_IDS"

section \<open>Operations\<close>

definition generateNextOrderId :: "MEOrderBook \<Rightarrow> OrderId \<times> MEOrderBook" where
  "generateNextOrderId b = (next_order_id b, b\<lparr>next_order_id := next_order_id b + 1\<rparr>)"

definition getPriority :: "Price \<Rightarrow> MEOrderBook \<Rightarrow> Priority res" where
  "getPriority p b =
    (case getOrderAtPrice (core b) p of
       None \<Rightarrow> Inr 1
     | Some l \<Rightarrow>
         res_bind (load (levels_pool (core b)) (Some l)) (\<lambda>L.
         res_bind (load (orders_pool (core b)) (lvl_head L)) (\<lambda>H.
         res_bind (load (orders_pool (core b)) (ord_prev H)) (\<lambda>T.
         Inr (ord_priority T + 1)))))"

definition AddOrderToPriceLevel :: "nat \<Rightarrow> MEOrderBook \<Rightarrow> MEOrderBook res" where
  "AddOrderToPriceLevel ord b =
    res_bind (link_order ord (core b)) (\<lambda>c.
    res_bind (load (orders_pool c) (Some ord)) (\<lambda>Od.
    res_bind (ensure (in_index (ord_client Od) (ord_client_oid Od)) OutOfRange) (\<lambda>_.
    Inr (b\<lparr>core := c, cid_oid_to_order := (cid_oid_to_order b)(ord_client Od :=
           (cid_oid_to_order b (ord_client Od))(ord_client_oid Od := Some ord))\<rparr>))))"

definition removeOrder :: "nat \<Rightarrow> MEOrderBook \<Rightarrow> MEOrderBook res" where
  "removeOrder ord b =
    res_bind (unlink_order ord (core b)) (\<lambda>c.
    res_bind (load (orders_pool c) (Some ord)) (\<lambda>Od.
    res_bind (ensure (in_index (ord_client Od) (ord_client_oid Od)) WildAccess) (\<lambda>_.
    res_bind (deallocate ord (orders_pool c)) (\<lambda>Q.
    Inr (b\<lparr>core := c\<lparr>orders_pool := Q\<rparr>, cid_oid_to_order := (cid_oid_to_order b)(ord_client Od :=
           (cid_oid_to_order b (ord_client Od))(ord_client_oid Od := None))\<rparr>)))))"

definition match ::
  "ClientId \<Rightarrow> OrderId \<Rightarrow> OrderId \<Rightarrow> Side \<Rightarrow> ptr \<Rightarrow> Qty \<Rightarrow> MEOrderBook \<Rightarrow> (Qty \<times> MEOrderBook) res" where
  "match clientId client_orderId market_orderId side ord left b =
    res_bind (load (orders_pool (core b)) ord) (\<lambda>Od.
    let filled_qty = min (ord_qty Od) left; left = left - filled_qty in
    res_bind (update_at ord (\<lambda>x. x\<lparr>ord_qty := ord_qty x - filled_qty\<rparr>) (orders_pool (core b))) (\<lambda>Q.
    res_bind (load Q ord) (\<lambda>Od.
    let b = b\<lparr>core := (core b)\<lparr>orders_pool := Q\<rparr>\<rparr>;
        b = sendClientResponse \<lparr>rs_type = FILLED, rs_client_id = clientId, rs_ticker_id = ticker b,
              rs_client_order_id = client_orderId, rs_market_order_id = market_orderId, rs_side = side,
              rs_price = ord_price Od, rs_exec_qty = filled_qty, rs_left_qty = left\<rparr> b;
        b = sendClientResponse \<lparr>rs_type = FILLED, rs_client_id = ord_client Od, rs_ticker_id = ticker b,
              rs_client_order_id = ord_client_oid Od, rs_market_order_id = ord_id Od, rs_side = ord_side Od,
              rs_price = ord_price Od, rs_exec_qty = filled_qty, rs_left_qty = ord_qty Od\<rparr> b;
        b = sendMarketUpdate \<lparr>mu_type = MU_TRADE, mu_order_id = OrderId_INVALID, mu_ticker_id = ticker b,
              mu_side = side, mu_price = ord_price Od, mu_qty = filled_qty,
              mu_priority = Priority_INVALID\<rparr> b;
        upd = (\<lambda>ty. \<lparr>mu_type = ty, mu_order_id = ord_id Od, mu_ticker_id = ticker b,
              mu_side = ord_side Od, mu_price = ord_price Od, mu_qty = ord_qty Od,
              mu_priority = ord_priority Od\<rparr>) in
    if ord_qty Od = 0 then
      res_bind (removeOrder (the ord) (sendMarketUpdate (upd MU_CANCEL) b)) (\<lambda>b. Inr (left, b))
    else Inr (left, sendMarketUpdate (upd MU_MODIFY) b))))"

text \<open>The two loops of \<^verbatim>\<open>checkForMatch\<close>, for a buying order over the asks and for a
  selling order over the bids; \<open>limit_excludes\<close> is their \<^verbatim>\<open>break\<close> condition.\<close>

definition limit_excludes :: "Side \<Rightarrow> Price \<Rightarrow> Price \<Rightarrow> bool" where
  "limit_excludes side price passive = (if side = BUY then price < passive else price > passive)"

definition passive_head :: "Side \<Rightarrow> MEOrderBook \<Rightarrow> ptr" where
  "passive_head side b = (if side = BUY then asks_by_price (core b) else bids_by_price (core b))"

primrec match_loop ::
  "nat \<Rightarrow> ClientId \<Rightarrow> OrderId \<Rightarrow> Side \<Rightarrow> Price \<Rightarrow> Qty \<Rightarrow> OrderId \<Rightarrow> MEOrderBook \<Rightarrow>
     (Qty \<times> MEOrderBook) res" where
  "match_loop 0 cid coid side price left moid b = Inl Diverged"
| "match_loop (Suc n) cid coid side price left moid b =
    (if left > 0 \<and> passive_head side b \<noteq> None then
       res_bind (load (levels_pool (core b)) (passive_head side b)) (\<lambda>L.
       res_bind (load (orders_pool (core b)) (lvl_head L)) (\<lambda>H.
       if limit_excludes side price (ord_price H) then Inr (left, b)
       else
         res_bind (match cid coid moid side (lvl_head L) left b) (\<lambda>(left, b).
         match_loop n cid coid side price left moid b)))
     else Inr (left, b))"

lemma match_loop_numeral [simp]:
  "match_loop (numeral k) cid coid side price left moid b =
    (if left > 0 \<and> passive_head side b \<noteq> None then
       res_bind (load (levels_pool (core b)) (passive_head side b)) (\<lambda>L.
       res_bind (load (orders_pool (core b)) (lvl_head L)) (\<lambda>H.
       if limit_excludes side price (ord_price H) then Inr (left, b)
       else
         res_bind (match cid coid moid side (lvl_head L) left b) (\<lambda>(left, b).
         match_loop (pred_numeral k) cid coid side price left moid b)))
     else Inr (left, b))"
  by (simp add: numeral_eq_Suc)

definition checkForMatch ::
  "ClientId \<Rightarrow> OrderId \<Rightarrow> Side \<Rightarrow> Price \<Rightarrow> Qty \<Rightarrow> OrderId \<Rightarrow> MEOrderBook \<Rightarrow> (Qty \<times> MEOrderBook) res" where
  "checkForMatch cid coid side price qty moid b =
    (if side = BUY \<or> side = SELL
     then match_loop (num_cells (orders_pool (core b)) + 1) cid coid side price qty moid b
     else Inr (qty, b))"

definition add :: "ClientId \<Rightarrow> OrderId \<Rightarrow> Side \<Rightarrow> Price \<Rightarrow> Qty \<Rightarrow> MEOrderBook \<Rightarrow> MEOrderBook res" where
  "add clientId client_orderId side price qty b =
    (let (new_market_order_id, b) = generateNextOrderId b;
         b = sendClientResponse \<lparr>rs_type = ACCEPTED, rs_client_id = clientId, rs_ticker_id = ticker b,
               rs_client_order_id = client_orderId, rs_market_order_id = new_market_order_id,
               rs_side = side, rs_price = price, rs_exec_qty = 0, rs_left_qty = qty\<rparr> b in
     res_bind (checkForMatch clientId client_orderId side price qty new_market_order_id b) (\<lambda>(qty_left, b).
     if qty_left > 0 then
       res_bind (getPriority price b) (\<lambda>priority.
       res_bind (allocate \<lparr>ord_id = new_market_order_id, ord_side = side, ord_price = price,
                   ord_qty = qty_left, ord_priority = priority, ord_next = None, ord_prev = None,
                   ord_ticker = ticker b, ord_client = clientId, ord_client_oid = client_orderId\<rparr>
                  (orders_pool (core b))) (\<lambda>(ord, Q).
       res_bind (AddOrderToPriceLevel ord (b\<lparr>core := (core b)\<lparr>orders_pool := Q\<rparr>\<rparr>)) (\<lambda>b.
       Inr (sendMarketUpdate \<lparr>mu_type = MU_ADD, mu_order_id = new_market_order_id,
              mu_ticker_id = ticker b, mu_side = side, mu_price = price, mu_qty = qty,
              mu_priority = priority\<rparr> b))))
     else Inr b))"

definition cancel :: "ClientId \<Rightarrow> OrderId \<Rightarrow> MEOrderBook \<Rightarrow> MEOrderBook res" where
  "cancel clientid orderId b =
    (if \<not> in_index clientid orderId \<or> cid_oid_to_order b clientid orderId = None then
       Inr (sendClientResponse \<lparr>rs_type = CANCEL_REJECTED, rs_client_id = clientid, rs_ticker_id = ticker b,
              rs_client_order_id = orderId, rs_market_order_id = OrderId_INVALID, rs_side = SIDE_INVALID,
              rs_price = Price_INVALID, rs_exec_qty = Qty_INVALID, rs_left_qty = Qty_INVALID\<rparr> b)
     else
       (let ord = cid_oid_to_order b clientid orderId in
        res_bind (load (orders_pool (core b)) ord) (\<lambda>Od.
        res_bind (removeOrder (the ord) b) (\<lambda>b.
        let b = sendClientResponse \<lparr>rs_type = CANCELLED, rs_client_id = clientid, rs_ticker_id = ticker b,
              rs_client_order_id = orderId, rs_market_order_id = ord_id Od, rs_side = ord_side Od,
              rs_price = ord_price Od, rs_exec_qty = Qty_INVALID, rs_left_qty = ord_qty Od\<rparr> b in
        Inr (sendMarketUpdate \<lparr>mu_type = MU_CANCEL, mu_order_id = ord_id Od, mu_ticker_id = ticker b,
              mu_side = ord_side Od, mu_price = ord_price Od, mu_qty = ord_qty Od,
              mu_priority = ord_priority Od\<rparr> b)))))"

end
