(* ===== verification/MatchSpec.thy ===== *)
theory MatchSpec
  imports MEOrderBook
begin

text \<open>
  What the exchange's order book promises, on plain lists: each side of the book is the list of
  its resting orders, best price first and, at one price, oldest first; matching sweeps the
  head of the opposite side; a remainder rests behind the orders it does not beat. No pools,
  pointers, levels or indices occur here. \<open>MEOrderBookRep\<close> shows that \<open>add\<close> and
  \<open>cancel\<close> implement these functions, messages included, and the theorems about price-time
  priority and conservation are proved here, on the lists, once.
\<close>

section \<open>Abstract books\<close>

record abook =
  ab_ticker :: TickerId
  ab_orders :: "Side \<Rightarrow> MEOrder list"
  ab_next_id :: OrderId
  ab_responses :: "MEClientResponse list"
  ab_updates :: "MEMarketUpdate list"

section \<open>Matching\<close>

text \<open>The fills of an incoming order: the resting order as it was before the fill, and the
  filled quantity; then the quantity left and the side that remains.\<close>

fun sweep :: "Side \<Rightarrow> Price \<Rightarrow> Qty \<Rightarrow> MEOrder list \<Rightarrow> (MEOrder \<times> Qty) list \<times> Qty \<times> MEOrder list" where
  "sweep s p q [] = ([], q, [])"
| "sweep s p q (r # rs) =
    (if q = 0 \<or> limit_excludes s p (ord_price r) then ([], q, r # rs)
     else if ord_qty r \<le> q
       then (let (fs, left, rest) = sweep s p (q - ord_qty r) rs in ((r, ord_qty r) # fs, left, rest))
       else ([(r, q)], 0, r\<lparr>ord_qty := ord_qty r - q\<rparr> # rs))"

fun fill_responses ::
  "TickerId \<Rightarrow> ClientId \<Rightarrow> OrderId \<Rightarrow> OrderId \<Rightarrow> Side \<Rightarrow> Qty \<Rightarrow> (MEOrder \<times> Qty) list \<Rightarrow> MEClientResponse list" where
  "fill_responses t c oid moid s q [] = []"
| "fill_responses t c oid moid s q ((r, f) # fs) =
    \<lparr>rs_type = FILLED, rs_client_id = c, rs_ticker_id = t, rs_client_order_id = oid,
      rs_market_order_id = moid, rs_side = s, rs_price = ord_price r, rs_exec_qty = f, rs_left_qty = q - f\<rparr> #
    \<lparr>rs_type = FILLED, rs_client_id = ord_client r, rs_ticker_id = t, rs_client_order_id = ord_client_oid r,
      rs_market_order_id = ord_id r, rs_side = ord_side r, rs_price = ord_price r, rs_exec_qty = f,
      rs_left_qty = ord_qty r - f\<rparr> #
    fill_responses t c oid moid s (q - f) fs"

fun fill_updates :: "TickerId \<Rightarrow> Side \<Rightarrow> (MEOrder \<times> Qty) list \<Rightarrow> MEMarketUpdate list" where
  "fill_updates t s [] = []"
| "fill_updates t s ((r, f) # fs) =
    \<lparr>mu_type = MU_TRADE, mu_order_id = OrderId_INVALID, mu_ticker_id = t, mu_side = s,
      mu_price = ord_price r, mu_qty = f, mu_priority = Priority_INVALID\<rparr> #
    \<lparr>mu_type = (if ord_qty r - f = 0 then MU_CANCEL else MU_MODIFY), mu_order_id = ord_id r,
      mu_ticker_id = t, mu_side = ord_side r, mu_price = ord_price r, mu_qty = ord_qty r - f,
      mu_priority = ord_priority r\<rparr> #
    fill_updates t s fs"

section \<open>Resting\<close>

definition next_priority :: "Price \<Rightarrow> MEOrder list \<Rightarrow> Priority" where
  "next_priority p rs =
     (case filter (\<lambda>x. ord_price x = p) rs of [] \<Rightarrow> 1 | x # xs \<Rightarrow> ord_priority (last (x # xs)) + 1)"

section \<open>The two operations\<close>

definition spec_order ::
  "abook \<Rightarrow> ClientId \<Rightarrow> OrderId \<Rightarrow> Side \<Rightarrow> Price \<Rightarrow> Qty \<Rightarrow> MEOrder" where
  "spec_order a c oid s p left =
     \<lparr>ord_id = ab_next_id a, ord_side = s, ord_price = p, ord_qty = left,
      ord_priority = next_priority p (ab_orders a s), ord_next = None, ord_prev = None,
      ord_ticker = ab_ticker a, ord_client = c, ord_client_oid = oid\<rparr>"

definition spec_add :: "ClientId \<Rightarrow> OrderId \<Rightarrow> Side \<Rightarrow> Price \<Rightarrow> Qty \<Rightarrow> abook \<Rightarrow> abook" where
  "spec_add c oid s p q a =
    (let (fs, left, rest) = sweep s p q (ab_orders a (opp s));
         r = spec_order a c oid s p left;
         accepted = \<lparr>rs_type = ACCEPTED, rs_client_id = c, rs_ticker_id = ab_ticker a,
           rs_client_order_id = oid, rs_market_order_id = ab_next_id a, rs_side = s, rs_price = p,
           rs_exec_qty = 0, rs_left_qty = q\<rparr>;
         added = \<lparr>mu_type = MU_ADD, mu_order_id = ab_next_id a, mu_ticker_id = ab_ticker a, mu_side = s,
           mu_price = p, mu_qty = q, mu_priority = ord_priority r\<rparr> in
     a\<lparr>ab_orders := (ab_orders a)(opp s := rest,
           s := if left > 0 then insert_order s r (ab_orders a s) else ab_orders a s),
       ab_next_id := ab_next_id a + 1,
       ab_responses := ab_responses a @ accepted # fill_responses (ab_ticker a) c oid (ab_next_id a) s q fs,
       ab_updates := ab_updates a @ fill_updates (ab_ticker a) s fs @ (if left > 0 then [added] else [])\<rparr>)"

definition owned_by :: "ClientId \<Rightarrow> OrderId \<Rightarrow> MEOrder \<Rightarrow> bool" where
  "owned_by c oid r \<longleftrightarrow> ord_client r = c \<and> ord_client_oid r = oid"

definition find_owned :: "ClientId \<Rightarrow> OrderId \<Rightarrow> abook \<Rightarrow> MEOrder option" where
  "find_owned c oid a = find (owned_by c oid) (ab_orders a BUY @ ab_orders a SELL)"

definition spec_cancel :: "ClientId \<Rightarrow> OrderId \<Rightarrow> abook \<Rightarrow> abook" where
  "spec_cancel c oid a =
    (case find_owned c oid a of
       None \<Rightarrow> a\<lparr>ab_responses := ab_responses a @
         [\<lparr>rs_type = CANCEL_REJECTED, rs_client_id = c, rs_ticker_id = ab_ticker a, rs_client_order_id = oid,
           rs_market_order_id = OrderId_INVALID, rs_side = SIDE_INVALID, rs_price = Price_INVALID,
           rs_exec_qty = Qty_INVALID, rs_left_qty = Qty_INVALID\<rparr>]\<rparr>
     | Some r \<Rightarrow> a\<lparr>ab_orders := (\<lambda>s. filter (\<lambda>x. \<not> owned_by c oid x) (ab_orders a s)),
         ab_responses := ab_responses a @
         [\<lparr>rs_type = CANCELLED, rs_client_id = c, rs_ticker_id = ab_ticker a, rs_client_order_id = oid,
           rs_market_order_id = ord_id r, rs_side = ord_side r, rs_price = ord_price r,
           rs_exec_qty = Qty_INVALID, rs_left_qty = ord_qty r\<rparr>],
         ab_updates := ab_updates a @
         [\<lparr>mu_type = MU_CANCEL, mu_order_id = ord_id r, mu_ticker_id = ab_ticker a, mu_side = ord_side r,
           mu_price = ord_price r, mu_qty = ord_qty r, mu_priority = ord_priority r\<rparr>]\<rparr>)"

text \<open>The fields of the result, given the sweep.\<close>

lemma spec_add_fields:
  assumes "sweep s p q (ab_orders a (opp s)) = (fs, left, rest)"
  shows "ab_ticker (spec_add c oid s p q a) = ab_ticker a"
    and "ab_next_id (spec_add c oid s p q a) = ab_next_id a + 1"
    and "ab_orders (spec_add c oid s p q a) = (ab_orders a)(opp s := rest,
           s := if left > 0 then insert_order s (spec_order a c oid s p left) (ab_orders a s) else ab_orders a s)"
    and "ab_updates (spec_add c oid s p q a) = ab_updates a @ fill_updates (ab_ticker a) s fs @
           (if left > 0 then [\<lparr>mu_type = MU_ADD, mu_order_id = ab_next_id a, mu_ticker_id = ab_ticker a,
              mu_side = s, mu_price = p, mu_qty = q, mu_priority = next_priority p (ab_orders a s)\<rparr>] else [])"
  using assms by (simp_all add: spec_add_def spec_order_def Let_def)

section \<open>Sweeping\<close>

lemma sweep_zero [simp]: "sweep s p 0 rs = ([], 0, rs)"
  by (cases rs) simp_all

text \<open>The two ways a sweep ends: with whole orders filled, or with the last one reduced.\<close>

lemma sweep_cases:
  assumes "sweep s p q rs = (fs, left, rest)"
  obtains (whole) front where "rs = front @ rest" "fs = map (\<lambda>r. (r, ord_qty r)) front"
      "left = 0 \<or> rest = [] \<or> limit_excludes s p (ord_price (hd rest))"
      "\<forall>r \<in> set front. \<not> limit_excludes s p (ord_price r)"
  | (partial) front r rs' f where "rs = front @ r # rs'" "rest = r\<lparr>ord_qty := ord_qty r - f\<rparr> # rs'"
      "fs = map (\<lambda>r. (r, ord_qty r)) front @ [(r, f)]" "0 < f" "f < ord_qty r" "left = 0"
      "\<forall>r \<in> set (front @ [r]). \<not> limit_excludes s p (ord_price r)"
  using assms
proof (induction rs arbitrary: q fs left rest thesis)
  case Nil
  then show ?case by simp
next
  case (Cons r rs)
  consider (stop) "q = 0 \<or> limit_excludes s p (ord_price r)"
    | (take) "q \<noteq> 0" "\<not> limit_excludes s p (ord_price r)" "ord_qty r \<le> q"
    | (part) "q \<noteq> 0" "\<not> limit_excludes s p (ord_price r)" "q < ord_qty r"
    by fastforce
  then show ?case
  proof cases
    case stop
    then show ?thesis using Cons.prems(1)[of "[]"] Cons.prems(3) by auto
  next
    case take
    then obtain fs' where fs': "sweep s p (q - ord_qty r) rs = (fs', left, rest)" "fs = (r, ord_qty r) # fs'"
      using Cons.prems(3) by (auto simp: Let_def split: prod.splits)
    show ?thesis
    proof (rule Cons.IH[OF _ _ fs'(1)])
      fix front
      assume "rs = front @ rest" "fs' = map (\<lambda>r. (r, ord_qty r)) front"
        "left = 0 \<or> rest = [] \<or> limit_excludes s p (ord_price (hd rest))"
        "\<forall>r\<in>set front. \<not> limit_excludes s p (ord_price r)"
      then show ?thesis using take fs'(2) by (intro Cons.prems(1)[of "r # front"]) auto
    next
      fix front x rs' f
      assume "rs = front @ x # rs'" "rest = x\<lparr>ord_qty := ord_qty x - f\<rparr> # rs'"
        "fs' = map (\<lambda>r. (r, ord_qty r)) front @ [(x, f)]" "0 < f" "f < ord_qty x" "left = 0"
        "\<forall>r\<in>set (front @ [x]). \<not> limit_excludes s p (ord_price r)"
      then show ?thesis using take fs'(2) by (intro Cons.prems(2)[of "r # front" x rs' f]) auto
    qed
  next
    case part
    then show ?thesis
      using Cons.prems(3) by (intro Cons.prems(2)[of "[]" r rs q]) (auto simp: word_gt_0 not_le[symmetric])
  qed
qed

text \<open>Quantities as naturals: nothing is created or lost.\<close>

definition total_qty :: "MEOrder list \<Rightarrow> nat" where
  "total_qty rs = (\<Sum>r\<leftarrow>rs. unat (ord_qty r))"

definition total_filled :: "(MEOrder \<times> Qty) list \<Rightarrow> nat" where
  "total_filled fs = (\<Sum>x\<leftarrow>fs. unat (snd x))"

lemma total_simps [simp]:
  "total_qty [] = 0" "total_qty (r # rs) = unat (ord_qty r) + total_qty rs"
  "total_qty (rs @ rs') = total_qty rs + total_qty rs'"
  "total_filled [] = 0" "total_filled (x # fs) = unat (snd x) + total_filled fs"
  by (simp_all add: total_qty_def total_filled_def)

lemma sweep_conserves:
  "sweep s p q rs = (fs, left, rest) \<Longrightarrow>
     unat q = total_filled fs + unat left \<and> total_qty rs = total_filled fs + total_qty rest"
proof (induction rs arbitrary: q fs left rest)
  case (Cons r rs)
  show ?case
  proof (cases "q = 0 \<or> limit_excludes s p (ord_price r)")
    case False
    show ?thesis
    proof (cases "ord_qty r \<le> q")
      case True
      then show ?thesis
        using False Cons.IH[of "q - ord_qty r"] Cons.prems
        by (fastforce simp: Let_def unat_sub word_le_nat_alt split: prod.splits)
    next
      case part: False
      then have "q \<le> ord_qty r" by simp
      then have "unat (ord_qty r - q) = unat (ord_qty r) - unat q" "unat q \<le> unat (ord_qty r)"
        by (simp_all add: unat_sub word_le_nat_alt)
      then show ?thesis using False part Cons.prems by auto
    qed
  qed (use Cons.prems in auto)
qed simp

text \<open>Whatever holds of each resting order and does not depend on its quantity is kept.\<close>

lemma sweep_rest_member:
  assumes "sweep s p q rs = (fs, left, rest)" and "x \<in> set rest"
  obtains r k where "r \<in> set rs" "x = r\<lparr>ord_qty := k\<rparr>" "ord_qty r \<noteq> 0 \<longrightarrow> k \<noteq> 0"
  using assms(1)
proof (cases rule: sweep_cases)
  case (whole front)
  then have "x \<in> set rs" using assms(2) by simp
  then show ?thesis using that[of x "ord_qty x"] by simp
next
  case (partial front r rs' f)
  then have k: "ord_qty r - f \<noteq> 0" by auto
  from assms(2) partial(2) consider "x = r\<lparr>ord_qty := ord_qty r - f\<rparr>" | "x \<in> set rs'" by auto
  then show ?thesis
  proof cases
    case 1
    then show ?thesis using that[of r "ord_qty r - f"] partial(1) k by simp
  next
    case 2
    then show ?thesis using that[of x "ord_qty x"] partial(1) by simp
  qed
qed

lemma sweep_sorted:
  assumes "sweep s p q rs = (fs, left, rest)" and "sorted_wrt R rs"
    and "\<And>x y k. R x y \<Longrightarrow> R (x\<lparr>ord_qty := k\<rparr>) y"
  shows "sorted_wrt R rest"
  using assms(1) by (cases rule: sweep_cases) (use assms(2,3) in \<open>auto simp: sorted_wrt_append\<close>)

text \<open>What is left after a sweep does not cross: a quantity is left only when the other side is
  used up or its best price is beyond the limit.\<close>

lemma limit_excludes_mono:
  "s \<in> sides \<Longrightarrow> limit_excludes s p x \<Longrightarrow> better (opp s) x y \<or> x = y \<Longrightarrow> limit_excludes s p y"
  by (auto simp: limit_excludes_def better_def sides_def)

lemma sweep_uncrossed:
  assumes sw: "sweep s p q rs = (fs, left, rest)" and s: "s \<in> sides"
    and srt: "sorted_wrt (\<lambda>x y. better (opp s) (ord_price x) (ord_price y) \<or> ord_price x = ord_price y) rs"
    and left: "left \<noteq> 0" and x: "x \<in> set rest"
  shows "limit_excludes s p (ord_price x)"
  using sw
proof (cases rule: sweep_cases)
  case (whole front)
  then obtain y ys where y: "rest = y # ys" "limit_excludes s p (ord_price y)"
    using left x by (cases rest) auto
  have "sorted_wrt (\<lambda>x y. better (opp s) (ord_price x) (ord_price y) \<or> ord_price x = ord_price y) (y # ys)"
    using srt whole(1) y by (simp add: sorted_wrt_append)
  then show ?thesis using x y limit_excludes_mono[OF s y(2)] by auto
qed (use left in simp)

end
