(* ===== verification/MEMatch.thy ===== *)
theory MEMatch
  imports MEOrderBookRep
begin

text \<open>
  Matching: one call of \<open>match\<close> fills the head of the opposite side as one step of
  \<open>sweep\<close> does, and the loop of \<open>checkForMatch\<close> is the whole sweep. The loop's bound is
  never reached, since every call removes the order it fills or leaves nothing to fill.
\<close>

section \<open>Frames\<close>

lemma pre_rep_frame:
  "core b' = core b \<Longrightarrow> cid_oid_to_order b' = cid_oid_to_order b \<Longrightarrow> pre_rep b' sh = pre_rep b sh"
  by (simp add: pre_rep_def)

lemma abs_orders_upd:
  assumes "links_rep c sh" and "links_rep c' sh'" and s: "s \<in> sides" and "sh' s = sh s"
    and "\<And>i. i \<in> set (cells_of (sh s)) \<Longrightarrow> strip (ob c' i) = strip (ob c i)"
    and "X = map (\<lambda>i. strip (ob c' i)) (cells_of (sh' (opp s)))"
  shows "(\<lambda>t. resting t c') = (\<lambda>t. resting t c)(opp s := X)"
proof
  fix t
  consider "t = opp s" | "t = s" | "t \<notin> sides" using s unfolding sides_def by force
  then show "resting t c' = ((\<lambda>t. resting t c)(opp s := X)) t"
    using assms opp_neq[OF s] by cases (auto simp: resting_rep)
qed

lemma book_rep_object:
  assumes "book_rep c sh" and "\<And>i. same_links (f i) (ob c i)"
  shows "book_rep (c\<lparr>orders_pool := (orders_pool c)\<lparr>object := f\<rparr>\<rparr>) sh"
proof -
  have "links_rep (c\<lparr>orders_pool := (orders_pool c)\<lparr>object := f\<rparr>\<rparr>) sh"
  proof (rule links_rep_cong)
    show "links_rep c sh" using assms(1) by (simp add: book_rep_def)
    show "same_links (ob (c\<lparr>orders_pool := (orders_pool c)\<lparr>object := f\<rparr>\<rparr>) i) (ob c i)" for i
      using assms(2) by simp
  qed simp_all
  then show ?thesis
    using assms(1) by (simp add: book_rep_def pools_rep_def live_def pool_ok_def)
qed

text \<open>The book with the quantity of one cell changed.\<close>

definition with_qty :: "nat \<Rightarrow> Qty \<Rightarrow> me_core \<Rightarrow> me_core" where
  "with_qty i k c = c\<lparr>orders_pool := (orders_pool c)\<lparr>object := (ob c)(i := (ob c i)\<lparr>ord_qty := k\<rparr>)\<rparr>\<rparr>"

lemma with_qty_simps [simp]:
  "object (orders_pool (with_qty i k c)) = (object (orders_pool c))(i := (ob c i)\<lparr>ord_qty := k\<rparr>)"
  "num_cells (orders_pool (with_qty i k c)) = num_cells (orders_pool c)"
  "levels_pool (with_qty i k c) = levels_pool c"
  by (simp_all add: with_qty_def)

lemma strip_qty [simp]: "strip (r\<lparr>ord_qty := k\<rparr>) = (strip r)\<lparr>ord_qty := k\<rparr>"
  by (simp add: strip_def)

lemma pre_rep_with_qty:
  assumes "pre_rep b sh"
  shows "pre_rep (b\<lparr>core := with_qty i k (core b)\<rparr>) sh"
proof -
  have "book_rep (with_qty i k (core b)) sh"
    using assms unfolding with_qty_def by (intro book_rep_object) (auto simp: pre_rep_def same_links_def)
  moreover have "index_rep (cid_oid_to_order b) (ob (with_qty i k (core b))) (set (all_orders sh))"
    using assms index_rep_cong[of "set (all_orders sh)" "ob (with_qty i k (core b))" "ob (core b)"]
    by (simp add: pre_rep_def)
  ultimately show ?thesis using assms by (simp add: pre_rep_def)
qed

section \<open>One fill\<close>

definition fill_msgs ::
  "ClientId \<Rightarrow> OrderId \<Rightarrow> OrderId \<Rightarrow> Side \<Rightarrow> MEOrder \<Rightarrow> Qty \<Rightarrow> Qty \<Rightarrow> abook \<Rightarrow> abook" where
  "fill_msgs cid oid moid s r f left a =
     a\<lparr>ab_responses := ab_responses a @ fill_responses (ab_ticker a) cid oid moid s left [(r, f)],
       ab_updates := ab_updates a @ fill_updates (ab_ticker a) s [(r, f)]\<rparr>"

lemma match_removes:
  assumes rep: "me_rep b sh" and s: "s \<in> sides" and sho: "sh (opp s) = (l, i # os) # B"
    and r: "r = strip (ob (core b) i)" and le: "ord_qty r \<le> left"
  shows "\<exists>b'. match cid oid moid s (Some i) left b = Inr (left - ord_qty r, b') \<and>
     me_rep b' (sh(opp s := without l os [] B)) \<and>
     abs_book b' = fill_msgs cid oid moid s r (ord_qty r) left
       ((abs_book b)\<lparr>ab_orders := (ab_orders (abs_book b))(opp s := tl (ab_orders (abs_book b) (opp s)))\<rparr>)"
proof -
  let ?t = "opp s" and ?c1 = "with_qty i 0 (core b)" and ?sh = "sh(opp s := without l os [] B)"
  have pre: "pre_rep b sh" and q: "\<And>j. j \<in> set (all_orders sh) \<Longrightarrow> ord_qty (ob (core b) j) \<noteq> 0"
    using rep by (auto simp: me_rep_def)
  note lr = pre_rep_links[OF pre]
  have iin: "i \<in> set (all_orders sh)" using sho by (simp add: set_all_orders[OF s])
  then have ib: "i < num_cells (orders_pool (core b))" using links_order_bound[OF lr] by simp
  have d: "distinct (all_orders sh)" using lr by (simp add: links_rep_def)
  have mn: "min (ord_qty (ob (core b) i)) left = ord_qty (ob (core b) i)" using le r by (simp add: min_def)
  define b0 where "b0 = b\<lparr>core := ?c1,
     sent_responses := sent_responses b @ fill_responses (ticker b) cid oid moid s left [(r, ord_qty r)],
     sent_updates := sent_updates b @ fill_updates (ticker b) s [(r, ord_qty r)]\<rparr>"
  have "pre_rep b0 sh"
    using pre_rep_with_qty[OF pre, of i 0] by (subst pre_rep_frame[of _ "b\<lparr>core := ?c1\<rparr>"]) (simp_all add: b0_def)
  with removeOrder_rep[of b0 sh ?t "[]" l "[]" i os B] sho obtain c m where c: "removeOrder i b0 = Inr (b0\<lparr>core := c, cid_oid_to_order := m\<rparr>)"
    "pre_rep (b0\<lparr>core := c, cid_oid_to_order := m\<rparr>) ?sh"
    "\<And>j. strip (ob c j) = strip (ob (core b0) j)"
    by (simp only: append_Nil opp_sides simp_thms) blast
  let ?b' = "b0\<lparr>core := c, cid_oid_to_order := m\<rparr>"
  have "set (all_orders ?sh) = set (all_orders sh) - {i}"
    using all_orders_without(1)[OF d, of ?t "[]" l "[]" i os B] sho by (simp only: append_Nil opp_sides simp_thms)
  moreover have "cells_of (without l os [] B) = os @ cells_of B" by (simp add: without_def)
  ultimately have ao: "set (all_orders ?sh) = set (all_orders sh) - {i}"
    "cells_of (without l os [] B) = os @ cells_of B" by blast+
  have st: "strip (ob c j) = strip (ob (core b) j)" if "j \<noteq> i" for j
    using c(3)[of j] that by (simp add: b0_def)
  have ni: "i \<notin> set (os @ cells_of B)" "i \<notin> set (cells_of (sh s))"
    using d sho by (auto simp: distinct_all_orders[OF s])
  have "match cid oid moid s (Some i) left b = Inr (left - ord_qty r, ?b')"
    using ib c(1) mn r
    by (simp add: match_def sendClientResponse_def sendMarketUpdate_def b0_def with_qty_def Let_def)
  moreover have "me_rep ?b' ?sh"
  proof -
    have "ord_qty (ob c j) = ord_qty (ob (core b) j)" if "j \<noteq> i" for j
      using strip_eq_fields[OF st[OF that]] by simp
    then show ?thesis using c(2) q ao by (simp add: me_rep_def)
  qed
  moreover have "(\<lambda>u. resting u c) = (\<lambda>u. resting u (core b))(?t := tl (resting ?t (core b)))"
  proof (rule abs_orders_upd[OF lr _ s])
    show "links_rep c ?sh" using pre_rep_links[OF c(2)] by simp
    show "?sh s = sh s" using opp_neq[OF s] by auto
    show "strip (ob c j) = strip (ob (core b) j)" if "j \<in> set (cells_of (sh s))" for j
      using that ni st by metis
    have "map (\<lambda>j. strip (ob c j)) (os @ cells_of B) = map (\<lambda>j. strip (ob (core b) j)) (os @ cells_of B)"
    proof (rule map_cong)
      fix j
      assume "j \<in> set (os @ cells_of B)"
      then have "j \<noteq> i" using ni(1) by blast
      then show "strip (ob c j) = strip (ob (core b) j)" by (rule st)
    qed simp
    then show "tl (resting ?t (core b)) = map (\<lambda>j. strip (ob c j)) (cells_of (?sh ?t))"
      using ao sho by (simp add: resting_rep[OF lr])
  qed
  then have "abs_book ?b' = fill_msgs cid oid moid s r (ord_qty r) left
       ((abs_book b)\<lparr>ab_orders := (ab_orders (abs_book b))(?t := tl (ab_orders (abs_book b) ?t))\<rparr>)"
    by (simp add: abs_book_def fill_msgs_def b0_def)
  ultimately show ?thesis by blast
qed

lemma match_reduces:
  assumes rep: "me_rep b sh" and s: "s \<in> sides" and sho: "sh (opp s) = (l, i # os) # B"
    and r: "r = strip (ob (core b) i)" and less: "left < ord_qty r"
  shows "\<exists>b'. match cid oid moid s (Some i) left b = Inr (0, b') \<and> me_rep b' sh \<and>
     abs_book b' = fill_msgs cid oid moid s r left left
       ((abs_book b)\<lparr>ab_orders := (ab_orders (abs_book b))(opp s :=
          r\<lparr>ord_qty := ord_qty r - left\<rparr> # tl (ab_orders (abs_book b) (opp s)))\<rparr>)"
proof -
  let ?t = "opp s" and ?c = "with_qty i (ord_qty r - left) (core b)"
  have pre: "pre_rep b sh" and q: "\<And>j. j \<in> set (all_orders sh) \<Longrightarrow> ord_qty (ob (core b) j) \<noteq> 0"
    using rep by (auto simp: me_rep_def)
  note lr = pre_rep_links[OF pre]
  have iin: "i \<in> set (all_orders sh)" using sho by (simp add: set_all_orders[OF s])
  then have ib: "i < num_cells (orders_pool (core b))" using links_order_bound[OF lr] by simp
  have d: "distinct (all_orders sh)" using lr by (simp add: links_rep_def)
  have mn: "min (ord_qty (ob (core b) i)) left = left" using less r by simp
  have ne: "ord_qty r \<noteq> left" "ord_qty (ob (core b) i) \<noteq> left" using less r by auto
  define b' where "b' = b\<lparr>core := ?c,
     sent_responses := sent_responses b @ fill_responses (ticker b) cid oid moid s left [(r, left)],
     sent_updates := sent_updates b @ fill_updates (ticker b) s [(r, left)]\<rparr>"
  have pre': "pre_rep b' sh"
    using pre_rep_with_qty[OF pre, of i "ord_qty r - left"]
    by (subst pre_rep_frame[of _ "b\<lparr>core := ?c\<rparr>"]) (simp_all add: b'_def)
  have ni: "i \<notin> set (os @ cells_of B)" "i \<notin> set (cells_of (sh s))"
    using d sho by (auto simp: distinct_all_orders[OF s])
  have "match cid oid moid s (Some i) left b = Inr (0, b')"
    using ib mn r ne
    by (simp add: match_def sendClientResponse_def sendMarketUpdate_def b'_def with_qty_def Let_def)
  moreover have "me_rep b' sh" using pre' q ne by (simp add: me_rep_def b'_def)
  moreover have "(\<lambda>u. resting u ?c) =
      (\<lambda>u. resting u (core b))(?t := r\<lparr>ord_qty := ord_qty r - left\<rparr> # tl (resting ?t (core b)))"
  proof (rule abs_orders_upd[OF lr _ s])
    show "links_rep ?c sh" using pre_rep_links[OF pre'] by (simp add: b'_def)
    show "strip (ob ?c j) = strip (ob (core b) j)" if "j \<in> set (cells_of (sh s))" for j
      using that ni by auto
    have "map (\<lambda>j. strip (ob ?c j)) (os @ cells_of B) = map (\<lambda>j. strip (ob (core b) j)) (os @ cells_of B)"
      using ni by (intro map_cong) auto
    then show "r\<lparr>ord_qty := ord_qty r - left\<rparr> # tl (resting ?t (core b)) =
        map (\<lambda>j. strip (ob ?c j)) (cells_of (sh ?t))"
      using sho r by (simp add: resting_rep[OF lr])
  qed simp
  then have "abs_book b' = fill_msgs cid oid moid s r left left
       ((abs_book b)\<lparr>ab_orders := (ab_orders (abs_book b))(?t :=
          r\<lparr>ord_qty := ord_qty r - left\<rparr> # tl (ab_orders (abs_book b) ?t))\<rparr>)"
    by (simp add: abs_book_def fill_msgs_def b'_def)
  ultimately show ?thesis by blast
qed

section \<open>The whole sweep\<close>

definition swept ::
  "ClientId \<Rightarrow> OrderId \<Rightarrow> OrderId \<Rightarrow> Side \<Rightarrow> Price \<Rightarrow> Qty \<Rightarrow> abook \<Rightarrow> Qty \<times> abook" where
  "swept cid oid moid s p q a =
    (let (fs, left, rest) = sweep s p q (ab_orders a (opp s)) in
     (left, a\<lparr>ab_orders := (ab_orders a)(opp s := rest),
        ab_responses := ab_responses a @ fill_responses (ab_ticker a) cid oid moid s q fs,
        ab_updates := ab_updates a @ fill_updates (ab_ticker a) s fs\<rparr>))"

lemma swept_stop:
  "ab_orders a (opp s) = [] \<or> q = 0 \<or> limit_excludes s p (ord_price (hd (ab_orders a (opp s)))) \<Longrightarrow>
     swept cid oid moid s p q a = (q, a)"
  by (cases "ab_orders a (opp s)") (auto simp: swept_def fun_upd_idem)

lemma swept_removes:
  assumes "ab_orders a (opp s) = r # rs" and "q \<noteq> 0" and "\<not> limit_excludes s p (ord_price r)"
    and "ord_qty r \<le> q"
  shows "swept cid oid moid s p q a = swept cid oid moid s p (q - ord_qty r)
    (fill_msgs cid oid moid s r (ord_qty r) q (a\<lparr>ab_orders := (ab_orders a)(opp s := rs)\<rparr>))"
  using assms by (simp add: swept_def fill_msgs_def Let_def split: prod.split)

lemma swept_reduces:
  assumes "ab_orders a (opp s) = r # rs" and "q \<noteq> 0" and "\<not> limit_excludes s p (ord_price r)"
    and "q < ord_qty r"
  shows "swept cid oid moid s p q a =
    (0, fill_msgs cid oid moid s r q q (a\<lparr>ab_orders := (ab_orders a)(opp s := r\<lparr>ord_qty := ord_qty r - q\<rparr> # rs)\<rparr>))"
  using assms by (simp add: swept_def fill_msgs_def not_le[symmetric])

lemma passive_head_opp: "s \<in> sides \<Longrightarrow> passive_head s b = head_of (opp s) (core b)"
  by (auto simp: passive_head_def head_of_def sides_def)

lemma match_loop_sweeps:
  assumes "me_rep b sh" and "s \<in> sides" and "length (cells_of (sh (opp s))) < fuel"
  shows "\<exists>b' sh'. match_loop fuel cid oid s p q moid b = Inr (fst (swept cid oid moid s p q (abs_book b)), b') \<and>
     me_rep b' sh' \<and> abs_book b' = snd (swept cid oid moid s p q (abs_book b))"
  using assms
proof (induction fuel arbitrary: b sh q)
  case (Suc n)
  note s = \<open>s \<in> sides\<close>
  have lr: "links_rep (core b) sh" using Suc.prems(1) by (simp add: me_rep_def pre_rep_links)
  have sr: "side_rep (core b) (opp s) (sh (opp s))" using links_side[OF lr] by simp
  have ph: "passive_head s b = head_of (opp s) (core b)" using s by (rule passive_head_opp)
  have rs: "ab_orders (abs_book b) (opp s) = map (\<lambda>i. strip (ob (core b) i)) (cells_of (sh (opp s)))"
    by (simp add: abs_book_def resting_rep[OF lr])
  show ?case
  proof (cases "sh (opp s)")
    case Nil
    then have "passive_head s b = None" using sr ph by (simp add: side_rep_def)
    moreover have "swept cid oid moid s p q (abs_book b) = (q, abs_book b)"
      using rs Nil by (intro swept_stop) simp
    ultimately show ?thesis using Suc.prems(1) by auto
  next
    case (Cons x B)
    obtain l os' where x: "x = (l, os')" by (cases x)
    have lvl: "level_rep (core b) (opp s) (l, os')" using sr Cons x by (simp add: side_rep_def)
    then have "os' \<noteq> []" using ring_nonempty by (fastforce simp: level_rep_def)
    then obtain i os where os: "os' = i # os" by (cases os') auto
    have sho: "sh (opp s) = (l, i # os) # B" using Cons x os by simp
    have hd: "passive_head s b = Some l" "lvl_head (lv (core b) l) = Some i"
      using sr ph sho lvl os by (simp_all add: side_rep_def level_rep_def)
    have bd: "l < num_cells (levels_pool (core b))" "i < num_cells (orders_pool (core b))"
      using links_level_bound[OF lr, of l] links_order_bound[OF lr, of i] sho
      by (simp_all add: set_all_levels[OF s] set_all_orders[OF s])
    define r where "r = strip (ob (core b) i)"
    have rs': "ab_orders (abs_book b) (opp s) = r # map (\<lambda>i. strip (ob (core b) i)) (os @ cells_of B)"
      using rs sho by (simp add: r_def)
    have price: "ord_price (ob (core b) i) = ord_price r" by (simp add: r_def)
    consider (stop) "q = 0 \<or> limit_excludes s p (ord_price r)"
      | (take) "q \<noteq> 0" "\<not> limit_excludes s p (ord_price r)" "ord_qty r \<le> q"
      | (part) "q \<noteq> 0" "\<not> limit_excludes s p (ord_price r)" "q < ord_qty r"
      by fastforce
    then show ?thesis
    proof cases
      case stop
      then have "match_loop (Suc n) cid oid s p q moid b = Inr (q, b)"
        using hd bd price by auto
      moreover have "swept cid oid moid s p q (abs_book b) = (q, abs_book b)"
        using rs' stop by (intro swept_stop) auto
      ultimately show ?thesis using Suc.prems(1) by auto
    next
      case take
      obtain b' where b': "match cid oid moid s (Some i) q b = Inr (q - ord_qty r, b')"
        "me_rep b' (sh(opp s := without l os [] B))"
        "abs_book b' = fill_msgs cid oid moid s r (ord_qty r) q
           ((abs_book b)\<lparr>ab_orders := (ab_orders (abs_book b))(opp s := tl (ab_orders (abs_book b) (opp s)))\<rparr>)"
        using match_removes[OF Suc.prems(1) s sho r_def take(3)] by blast
      have "swept cid oid moid s p q (abs_book b) = swept cid oid moid s p (q - ord_qty r) (abs_book b')"
        using swept_removes[OF rs' take] b'(3) rs' by simp
      moreover have "length (cells_of ((sh(opp s := without l os [] B)) (opp s))) < n"
        using Suc.prems(3) sho by (simp add: without_def)
      note Suc.IH[OF b'(2) s this, of "q - ord_qty r"]
      moreover have "match_loop (Suc n) cid oid s p q moid b =
          match_loop n cid oid s p (q - ord_qty r) moid b'"
        using take hd bd price b'(1) by (simp add: word_gt_0)
      ultimately show ?thesis by simp
    next
      case part
      obtain b' where b': "match cid oid moid s (Some i) q b = Inr (0, b')" "me_rep b' sh"
        "abs_book b' = fill_msgs cid oid moid s r q q
           ((abs_book b)\<lparr>ab_orders := (ab_orders (abs_book b))(opp s :=
              r\<lparr>ord_qty := ord_qty r - q\<rparr> # tl (ab_orders (abs_book b) (opp s)))\<rparr>)"
        using match_reduces[OF Suc.prems(1) s sho r_def part(3)] by blast
      have "0 < n" using Suc.prems(3) sho by simp
      then have "match_loop n cid oid s p 0 moid b' = Inr (0, b')" by (cases n) simp_all
      then have "match_loop (Suc n) cid oid s p q moid b = Inr (0, b')"
        using part hd bd price b'(1) by (simp add: word_gt_0)
      then show ?thesis using swept_reduces[OF rs' part] b' rs' by auto
    qed
  qed
qed simp

lemma checkForMatch_sweeps:
  assumes rep: "me_rep b sh" and s: "s \<in> sides"
  shows "\<exists>b' sh'. checkForMatch cid oid s p q moid b = Inr (fst (swept cid oid moid s p q (abs_book b)), b') \<and>
     me_rep b' sh' \<and> abs_book b' = snd (swept cid oid moid s p q (abs_book b))"
proof -
  have lr: "links_rep (core b) sh" using rep by (simp add: me_rep_def pre_rep_links)
  have "length (cells_of (sh (opp s))) \<le> num_cells (orders_pool (core b))"
    using lr links_order_bound[OF lr]
    by (intro distinct_length_le_bound) (auto simp: links_rep_def distinct_all_orders[OF s] set_all_orders[OF s])
  then show ?thesis
    using match_loop_sweeps[OF rep s] s by (auto simp: checkForMatch_def sides_def simp del: match_loop.simps)
qed

end
