(* ===== verification/MEBookProps.thy ===== *)
theory MEBookProps
  imports MEMatch
begin

text \<open>
  The two operations of the exchange's order book, \<open>add\<close> and \<open>cancel\<close>, implement
  \<open>spec_add\<close> and \<open>spec_cancel\<close> on every represented book.
\<close>

section \<open>Sizes\<close>

text \<open>Room for one more order and one more level: a pool hands out all but its last cell.\<close>

definition room :: "abook \<Rightarrow> bool" where
  "room a \<longleftrightarrow> length (ab_orders a BUY) + length (ab_orders a SELL) + 2 \<le> ME_MAX_ORDER_IDS \<and>
     level_count (ab_orders a BUY) + level_count (ab_orders a SELL) + 2 \<le> ME_MAX_PRICE_LEVELS"

text \<open>What the order book needs of a new order: a side, client identifiers within the index and
  not in use, a price whose index no other price uses, and room.\<close>

definition admissible :: "ClientId \<Rightarrow> OrderId \<Rightarrow> Side \<Rightarrow> Price \<Rightarrow> abook \<Rightarrow> bool" where
  "admissible c oid s p a \<longleftrightarrow> (s = BUY \<or> s = SELL) \<and> in_index c oid \<and> find_owned c oid a = None \<and>
     list_all (\<lambda>x. priceToIndex (ord_price x) = priceToIndex p \<longrightarrow> ord_price x = p)
       (ab_orders a BUY @ ab_orders a SELL) \<and> room a"

lemma room_spare:
  assumes rep: "pre_rep b sh" and room: "room (abs_book b)"
  shows "2 \<le> spare (orders_pool (core b))" and "2 \<le> spare (levels_pool (core b))"
  using rep room book_spare[of "core b" sh] by (auto simp: room_def abs_book_def pre_rep_def)

section \<open>Looking up an order\<close>

lemma find_map: "find P (map f xs) = map_option f (find (P \<circ> f) xs)"
  by (induction xs) auto

lemma find_unique:
  assumes "\<And>j. j \<in> set xs \<Longrightarrow> P j \<Longrightarrow> j = i" and "i \<in> set xs" and "P i"
  shows "find P xs = Some i"
proof (cases "find P xs")
  case None
  then show ?thesis using assms(2,3) by (auto simp: find_None_iff)
next
  case (Some j)
  then have "j \<in> set xs" "P j" by (auto simp: find_Some_iff)
  then show ?thesis using Some assms(1) by blast
qed

lemma abs_orders_all:
  "pre_rep b sh \<Longrightarrow> ab_orders (abs_book b) BUY @ ab_orders (abs_book b) SELL =
     map (\<lambda>i. strip (ob (core b) i)) (all_orders sh)"
  by (simp add: abs_book_def all_orders_def resting_rep[OF pre_rep_links])

lemma lookup_rep:
  assumes rep: "pre_rep b sh"
  shows "find_owned c oid (abs_book b) = map_option (\<lambda>i. strip (ob (core b) i)) (cid_oid_to_order b c oid)"
proof -
  let ?P = "owned_by c oid \<circ> (\<lambda>i. strip (ob (core b) i))"
  have P: "?P i \<longleftrightarrow> ord_client (ob (core b) i) = c \<and> ord_client_oid (ob (core b) i) = oid" for i
    by (simp add: owned_by_def)
  have ix: "index_rep (cid_oid_to_order b) (ob (core b)) (set (all_orders sh))"
    using rep by (simp add: pre_rep_def)
  have "find ?P (all_orders sh) = cid_oid_to_order b c oid"
  proof (cases "cid_oid_to_order b c oid")
    case None
    then have "\<not> ?P i" if "i \<in> set (all_orders sh)" for i
      using index_repD[OF ix, of c oid i] that unfolding P by auto
    then show ?thesis using None by (simp add: find_None_iff)
  next
    case (Some i)
    then have i: "i \<in> set (all_orders sh)" "?P i" using index_repD[OF ix, of c oid i] unfolding P by auto
    moreover have "j = i" if "j \<in> set (all_orders sh)" "?P j" for j
      using index_rep_unique[OF ix i(1) that(1)] that(2) i(2) unfolding P by auto
    ultimately have "find ?P (all_orders sh) = Some i" by (intro find_unique) blast+
    then show ?thesis using Some by simp
  qed
  then show ?thesis by (simp add: find_owned_def abs_orders_all[OF rep] find_map)
qed

section \<open>Cancelling\<close>

lemma me_rep_removed:
  assumes rep: "me_rep b sh" and s: "s \<in> sides" and shs: "sh s = A @ (l, os1 @ n # os2) # B"
  shows "\<exists>c m. removeOrder n b = Inr (b\<lparr>core := c, cid_oid_to_order := m\<rparr>) \<and>
     me_rep (b\<lparr>core := c, cid_oid_to_order := m\<rparr>) (sh(s := without l (os1 @ os2) A B)) \<and>
     (\<forall>t \<in> sides. resting t c = map (\<lambda>i. strip (ob (core b) i)) (filter (\<lambda>i. i \<noteq> n) (cells_of (sh t))))"
proof -
  let ?sh = "sh(s := without l (os1 @ os2) A B)"
  have pre: "pre_rep b sh" using rep by (simp add: me_rep_def)
  have d: "distinct (all_orders sh)" using pre_rep_links[OF pre] by (simp add: links_rep_def)
  obtain c m where c: "removeOrder n b = Inr (b\<lparr>core := c, cid_oid_to_order := m\<rparr>)"
    "pre_rep (b\<lparr>core := c, cid_oid_to_order := m\<rparr>) ?sh"
    "\<And>i. strip (ob c i) = strip (ob (core b) i)"
    "\<forall>t \<in> sides. resting t c = map (\<lambda>i. strip (ob (core b) i)) (filter (\<lambda>i. i \<noteq> n) (cells_of (sh t)))"
    using removeOrder_rep[OF pre s shs] by blast
  have "me_rep (b\<lparr>core := c, cid_oid_to_order := m\<rparr>) ?sh"
    using rep c(2) all_orders_without(1)[OF d s shs] strip_eq_fields[OF c(3)] by (simp add: me_rep_def)
  then show ?thesis using c(1,4) by blast
qed

lemma cancel_refines:
  assumes rep: "me_rep b sh"
  shows "\<exists>b' sh'. cancel c oid b = Inr b' \<and> me_rep b' sh' \<and> abs_book b' = spec_cancel c oid (abs_book b)"
proof -
  have pre: "pre_rep b sh" using rep by (simp add: me_rep_def)
  have ix: "index_rep (cid_oid_to_order b) (ob (core b)) (set (all_orders sh))"
    using pre by (simp add: pre_rep_def)
  note look = lookup_rep[OF pre, of c oid]
  show ?thesis
  proof (cases "cid_oid_to_order b c oid")
    case None
    let ?b = "sendClientResponse \<lparr>rs_type = CANCEL_REJECTED, rs_client_id = c, rs_ticker_id = ticker b,
              rs_client_order_id = oid, rs_market_order_id = OrderId_INVALID, rs_side = SIDE_INVALID,
              rs_price = Price_INVALID, rs_exec_qty = Qty_INVALID, rs_left_qty = Qty_INVALID\<rparr> b"
    have "cancel c oid b = Inr ?b" using None by (simp add: cancel_def)
    moreover have "me_rep ?b sh" using rep by (simp add: me_rep_def pre_rep_def sendClientResponse_def)
    moreover have "abs_book ?b = spec_cancel c oid (abs_book b)"
      using look None by (simp add: spec_cancel_def) (simp add: abs_book_def sendClientResponse_def)
    ultimately show ?thesis by blast
  next
    case (Some i)
    then have i: "i \<in> set (all_orders sh)" "ord_client (ob (core b) i) = c" "ord_client_oid (ob (core b) i) = oid"
      using index_repD[OF ix, of c oid i] by auto
    have bd: "in_index c oid" using index_rep_bound[OF ix i(1)] i by simp
    have ib: "i < num_cells (orders_pool (core b))" using links_order_bound[OF pre_rep_links[OF pre] i(1)] .
    from i(1) obtain s A l os1 os2 B where sp: "s \<in> sides" "sh s = A @ (l, os1 @ i # os2) # B"
      by (rule order_split)
    let ?r = "ob (core b) i"
    obtain k m where k: "removeOrder i b = Inr (b\<lparr>core := k, cid_oid_to_order := m\<rparr>)"
      "me_rep (b\<lparr>core := k, cid_oid_to_order := m\<rparr>) (sh(s := without l (os1 @ os2) A B))"
      "\<And>t. t \<in> sides \<Longrightarrow> resting t k = map (\<lambda>i. strip (ob (core b) i)) (filter (\<lambda>j. j \<noteq> i) (cells_of (sh t)))"
      using me_rep_removed[OF rep sp] by blast
    define b' where "b' = b\<lparr>core := k, cid_oid_to_order := m,
       sent_responses := sent_responses b @ [\<lparr>rs_type = CANCELLED, rs_client_id = c, rs_ticker_id = ticker b,
         rs_client_order_id = oid, rs_market_order_id = ord_id ?r, rs_side = ord_side ?r,
         rs_price = ord_price ?r, rs_exec_qty = Qty_INVALID, rs_left_qty = ord_qty ?r\<rparr>],
       sent_updates := sent_updates b @ [\<lparr>mu_type = MU_CANCEL, mu_order_id = ord_id ?r, mu_ticker_id = ticker b,
         mu_side = ord_side ?r, mu_price = ord_price ?r, mu_qty = ord_qty ?r, mu_priority = ord_priority ?r\<rparr>]\<rparr>"
    have "cancel c oid b = Inr b'"
      using Some bd ib k(1)
      by (simp add: cancel_def b'_def sendClientResponse_def sendMarketUpdate_def Let_def)
    moreover have "me_rep b' (sh(s := without l (os1 @ os2) A B))"
      using k(2) by (simp add: me_rep_def pre_rep_def b'_def)
    moreover have "resting t k = filter (\<lambda>x. \<not> owned_by c oid x) (resting t (core b))" for t
    proof (cases "t \<in> sides")
      case True
      have "owned_by c oid (strip (ob (core b) j)) \<longleftrightarrow> j = i" if "j \<in> set (cells_of (sh t))" for j
      proof -
        have "j \<in> set (all_orders sh)" using that True by (auto simp: all_orders_def sides_def)
        from index_rep_unique[OF ix i(1) this] show ?thesis
          unfolding owned_by_def strip_client_simps i(2,3) using i(2,3) by blast
      qed
      then have "filter (\<lambda>j. j \<noteq> i) (cells_of (sh t)) =
          filter (\<lambda>j. \<not> owned_by c oid (strip (ob (core b) j))) (cells_of (sh t))"
        by (intro filter_cong) auto
      then show ?thesis
        using k(3)[OF True] resting_rep[OF pre_rep_links[OF pre] True] by (simp add: filter_map comp_def)
    qed simp
    then have "abs_book b' = spec_cancel c oid (abs_book b)"
      using look Some by (simp add: spec_cancel_def) (simp add: abs_book_def b'_def)
    ultimately show ?thesis by blast
  qed
qed

section \<open>Adding\<close>

lemma getPriority_level:
  assumes rep: "links_rep (core b) sh" and t: "t \<in> sides" and shs: "sh t = A @ (l, os) # B"
    and at: "getOrderAtPrice (core b) p = Some l"
  shows "getPriority p b = Inr (ord_priority (ob (core b) (last os)) + 1)"
proof -
  have lvl: "level_rep (core b) t (l, os)" using links_level[OF rep t, of "(l, os)"] shs by simp
  then have r: "ring (nxO (core b)) (pvO (core b)) os" by (simp add: level_rep_def)
  then obtain i os' where os: "os = i # os'" using ring_nonempty by (cases os) auto
  have prev: "ord_prev (ob (core b) i) = Some (last os)" using ring_head_links(2) r os by metis
  have bd: "j < num_cells (orders_pool (core b))" if "j \<in> set os" for j
    using links_order_bound[OF rep, of j] that shs by (simp add: set_all_orders[OF t])
  have "l < num_cells (levels_pool (core b))"
    using links_level_bound[OF rep, of l] shs by (simp add: set_all_levels[OF t])
  then show ?thesis
    using at bd[of i] bd[of "last os"] lvl os prev by (simp add: getPriority_def level_rep_def)
qed

lemma getPriority_rep:
  assumes rep: "pre_rep b sh" and s: "s \<in> sides" and clear: "price_clear (core b) s p"
  shows "getPriority p b = Inr (next_priority p (resting s (core b)))"
proof (cases "getOrderAtPrice (core b) p")
  case None
  have "filter (\<lambda>x. ord_price x = p) (resting s (core b)) = []"
    using level_not_found[OF pre_rep_links[OF rep] s None] by (simp add: filter_empty_conv)
  then show ?thesis using None by (simp add: getPriority_def next_priority_def)
next
  case (Some l)
  note lr = pre_rep_links[OF rep]
  obtain A os B where sp: "sh s = A @ (l, os) # B" "lvl_price (lv (core b) l) = p"
    using level_found[OF lr s clear Some] by metis
  have "level_rep (core b) s (l, os)" using links_level[OF lr s, of "(l, os)"] sp(1) by simp
  then have os: "os \<noteq> []" using ring_nonempty by (auto simp: level_rep_def)
  have "getPriority p b = Inr (ord_priority (ob (core b) (last os)) + 1)"
    by (rule getPriority_level[OF lr s sp(1) Some])
  moreover have "filter (\<lambda>x. ord_price x = p) (resting s (core b)) = map (\<lambda>i. strip (ob (core b) i)) os"
    using resting_level[OF lr s sp(1)] sp(2) by simp
  then have "next_priority p (resting s (core b)) = ord_priority (ob (core b) (last os)) + 1"
    using os by (cases os) (simp_all add: next_priority_def last_map)
  ultimately show ?thesis by simp
qed

lemma AddOrderToPriceLevel_rep:
  assumes rep: "me_rep b sh" and s: "s \<in> sides" and clear: "price_clear (core b) s (ord_price r)"
    and side: "ord_side r = s" and fresh: "cid_oid_to_order b (ord_client r) (ord_client_oid r) = None"
    and bd: "in_index (ord_client r) (ord_client_oid r)" and q: "ord_qty r \<noteq> 0" and r0: "strip r = r"
    and room: "2 \<le> spare (orders_pool (core b))" "2 \<le> spare (levels_pool (core b))"
  shows "\<exists>i Q c m sh'. allocate r (orders_pool (core b)) = Inr (i, Q) \<and>
     AddOrderToPriceLevel i (b\<lparr>core := (core b)\<lparr>orders_pool := Q\<rparr>\<rparr>) = Inr (b\<lparr>core := c, cid_oid_to_order := m\<rparr>) \<and>
     me_rep (b\<lparr>core := c, cid_oid_to_order := m\<rparr>) sh' \<and>
     (\<lambda>t. resting t c) = (\<lambda>t. resting t (core b))(s := insert_order s r (resting s (core b)))"
proof -
  have pre: "pre_rep b sh" using rep by (simp add: me_rep_def)
  have br: "book_rep (core b) sh" using pre by (simp add: pre_rep_def)
  obtain i Q c sh' where c: "allocate r (orders_pool (core b)) = Inr (i, Q)"
    "link_order i ((core b)\<lparr>orders_pool := Q\<rparr>) = Inr c" "book_rep c sh'" "i \<notin> set (all_orders sh)"
    "set (all_orders sh') = insert i (set (all_orders sh))" "i < num_cells (orders_pool c)"
    "num_cells (orders_pool c) = num_cells (orders_pool (core b))"
    "num_cells (levels_pool c) = num_cells (levels_pool (core b))"
    "\<And>j. strip (ob c j) = strip (if j = i then r else ob (core b) j)"
    "(\<lambda>t. resting t c) = (\<lambda>t. resting t (core b))(s := insert_order s r (resting s (core b)))"
    using alloc_link[OF br s clear side room] unfolding r0 by blast
  have ri: "ord_client (ob c i) = ord_client r" "ord_client_oid (ob c i) = ord_client_oid r"
    "ord_qty (ob c i) = ord_qty r"
    using strip_client[OF c(9)[of i]] strip_eq_fields[OF c(9)[of i]] by simp_all
  have old: "ord_client (ob c j) = ord_client (ob (core b) j)" "ord_client_oid (ob c j) = ord_client_oid (ob (core b) j)"
    "ord_qty (ob c j) = ord_qty (ob (core b) j)" if "j \<in> set (all_orders sh)" for j
    using strip_client[OF c(9)[of j]] strip_eq_fields[OF c(9)[of j]] that c(4) by auto
  let ?m = "(cid_oid_to_order b)(ord_client (ob c i) :=
     (cid_oid_to_order b (ord_client (ob c i)))(ord_client_oid (ob c i) := Some i))"
  let ?b = "b\<lparr>core := c, cid_oid_to_order := ?m\<rparr>"
  have "AddOrderToPriceLevel i (b\<lparr>core := (core b)\<lparr>orders_pool := Q\<rparr>\<rparr>) = Inr ?b"
    using c(2,6) bd ri by (simp add: AddOrderToPriceLevel_def)
  moreover have "index_rep (cid_oid_to_order b) (ob c) (set (all_orders sh))"
    using pre index_rep_cong[of "set (all_orders sh)" "ob c" "ob (core b)"] old by (simp add: pre_rep_def)
  then have "index_rep ?m (ob c) (set (all_orders sh'))"
    unfolding c(5) using c(4) bd fresh ri by (intro index_rep_add) simp_all
  moreover have "ord_qty (ob c j) \<noteq> 0" if "j \<in> set (all_orders sh')" for j
    using that c(5) ri(3) q old(3)[of j] rep by (cases "j = i") (simp_all add: me_rep_def)
  ultimately show ?thesis
    using c pre by (intro exI[of _ i] exI[of _ Q] exI[of _ c] exI[of _ ?m] exI[of _ sh'])
      (simp add: me_rep_def pre_rep_def)
qed

lemma price_clear_swept:
  assumes rep: "me_rep b sh" and s: "s \<in> sides" and adm: "admissible cid oid s p (abs_book b)"
    and b1: "abs_book b1 = snd (swept cid oid moid s p q a)" and a: "ab_orders a = ab_orders (abs_book b)"
    and left: "fst (swept cid oid moid s p q a) \<noteq> 0"
  shows "price_clear (core b1) s p"
proof -
  obtain fs l rest where sw: "sweep s p q (resting (opp s) (core b)) = (fs, l, rest)"
    by (metis prod_cases3)
  have ab: "ab_orders (abs_book b) = (\<lambda>t. resting t (core b))" by (simp add: abs_book_def)
  have l: "l \<noteq> 0" and "ab_orders (abs_book b1) = (ab_orders a)(opp s := rest)"
    using b1 left sw by (simp_all add: swept_def a ab)
  then have o1: "(\<lambda>t. resting t (core b1)) = (\<lambda>t. resting t (core b))(opp s := rest)"
    by (simp add: abs_book_def a)
  have lr: "links_rep (core b) sh" using rep by (simp add: me_rep_def pre_rep_links)
  have al: "ord_price x = p" if "x \<in> set (resting t (core b))" "t \<in> sides" "priceToIndex (ord_price x) = priceToIndex p" for t x
    using adm that by (auto simp: admissible_def abs_book_def list_all_iff sides_def)
  have "ord_price x = p \<and> t = s"
    if t: "t \<in> sides" and x: "x \<in> set (resting t (core b1))" and px: "priceToIndex (ord_price x) = priceToIndex p" for t x
  proof (cases "t = s")
    case True
    then have "x \<in> set (resting s (core b))" using x fun_cong[OF o1, of s] opp_neq[OF s] by simp
    then show ?thesis using al[of x s] s px True by simp
  next
    case False
    then have "t = opp s" using t s by (auto simp: sides_def)
    then have xr: "x \<in> set rest" using x fun_cong[OF o1, of t] by simp
    obtain y k where y: "y \<in> set (resting (opp s) (core b))" "x = y\<lparr>ord_qty := k\<rparr>"
      using sweep_rest_member[OF sw xr] by metis
    have "ord_price x = p" using al[OF y(1)] px y(2) by simp
    moreover have "limit_excludes s p (ord_price x)"
      using sweep_uncrossed[OF sw s resting_sorted[OF lr opp_sides] l xr] .
    ultimately show ?thesis by (auto simp: limit_excludes_def split: if_splits)
  qed
  then show ?thesis by (simp add: price_clear_def)
qed

lemma sweep_level_count:
  assumes "sweep s p q rs = (fs, left, rest)"
  shows "level_count rest \<le> level_count rs" and "length rest \<le> length rs"
proof -
  have "ord_price ` set rest \<subseteq> ord_price ` set rs"
  proof
    fix x
    assume "x \<in> ord_price ` set rest"
    then obtain y where "y \<in> set rest" "x = ord_price y" by auto
    moreover from assms \<open>y \<in> set rest\<close> obtain r k where "r \<in> set rs" "y = r\<lparr>ord_qty := k\<rparr>"
      by (rule sweep_rest_member)
    ultimately show "x \<in> ord_price ` set rs" by simp
  qed
  then show "level_count rest \<le> level_count rs" by (simp add: level_count_card card_mono)
  show "length rest \<le> length rs"
    using assms by (cases rule: sweep_cases) simp_all
qed

lemma swept_orders:
  obtains fs left rest where "sweep s p q (ab_orders a (opp s)) = (fs, left, rest)"
    and "fst (swept cid oid moid s p q a) = left"
    and "ab_orders (snd (swept cid oid moid s p q a)) = (ab_orders a)(opp s := rest)"
  by (cases "sweep s p q (ab_orders a (opp s))") (simp add: swept_def)

lemma swept_admissible:
  assumes "admissible cid oid s p a"
  shows "find_owned cid oid (snd (swept cid oid moid s p q a)) = None \<and> room (snd (swept cid oid moid s p q a))"
proof -
  have s: "s \<in> sides" using assms by (auto simp: admissible_def sides_def)
  obtain fs left rest where sw: "sweep s p q (ab_orders a (opp s)) = (fs, left, rest)"
    and ao: "ab_orders (snd (swept cid oid moid s p q a)) = (ab_orders a)(opp s := rest)"
    by (rule swept_orders)
  have old: "\<not> owned_by cid oid x" if "x \<in> set (ab_orders a t)" "t \<in> sides" for x t
    using assms that by (auto simp: admissible_def find_owned_def find_None_iff sides_def)
  have new: "\<not> owned_by cid oid x" if "x \<in> set rest" for x
  proof -
    from sw that obtain r k where "r \<in> set (ab_orders a (opp s))" "x = r\<lparr>ord_qty := k\<rparr>"
      by (rule sweep_rest_member)
    then show ?thesis using old[of r "opp s"] by (simp add: owned_by_def)
  qed
  have "find_owned cid oid (snd (swept cid oid moid s p q a)) = None"
    using s old new by (auto simp: find_owned_def ao find_None_iff sides_def)
  moreover have "room (snd (swept cid oid moid s p q a))"
    using assms s sweep_level_count[OF sw] by (auto simp: room_def admissible_def ao sides_def)
  ultimately show ?thesis ..
qed

lemma add_refines:
  assumes rep: "me_rep b sh" and adm: "admissible c oid s p (abs_book b)"
  shows "\<exists>b' sh'. add c oid s p q b = Inr b' \<and> me_rep b' sh' \<and> abs_book b' = spec_add c oid s p q (abs_book b)"
proof -
  have s: "s \<in> sides" and ci: "in_index c oid" using adm by (auto simp: admissible_def sides_def)
  let ?id = "next_order_id b"
  define b0 where "b0 = sendClientResponse \<lparr>rs_type = ACCEPTED, rs_client_id = c, rs_ticker_id = ticker b,
     rs_client_order_id = oid, rs_market_order_id = ?id, rs_side = s, rs_price = p, rs_exec_qty = 0,
     rs_left_qty = q\<rparr> (b\<lparr>next_order_id := ?id + 1\<rparr>)"
  have o0: "ab_orders (abs_book b0) = ab_orders (abs_book b)"
    by (simp add: abs_book_def b0_def sendClientResponse_def)
  have rep0: "me_rep b0 sh" using rep by (simp add: me_rep_def pre_rep_def b0_def sendClientResponse_def)
  let ?sw = "swept c oid ?id s p q (abs_book b0)"
  obtain b1 sh1 where b1: "checkForMatch c oid s p q ?id b0 = Inr (fst ?sw, b1)" "me_rep b1 sh1"
    "abs_book b1 = snd ?sw"
    using checkForMatch_sweeps[OF rep0 s] by blast
  obtain fs left rest where sw: "sweep s p q (ab_orders (abs_book b0) (opp s)) = (fs, left, rest)"
    "fst ?sw = left" "ab_orders (snd ?sw) = (ab_orders (abs_book b0))(opp s := rest)"
    by (rule swept_orders)
  have spec: "spec_add c oid s p q (abs_book b) = (if left > 0 then
      (snd ?sw)\<lparr>ab_orders := (ab_orders (snd ?sw))(s := insert_order s (spec_order (abs_book b) c oid s p left) (ab_orders (snd ?sw) s)),
        ab_updates := ab_updates (snd ?sw) @ [\<lparr>mu_type = MU_ADD, mu_order_id = ?id, mu_ticker_id = ticker b,
          mu_side = s, mu_price = p, mu_qty = q, mu_priority = ord_priority (spec_order (abs_book b) c oid s p left)\<rparr>]\<rparr>
      else snd ?sw)"
    using sw(1) opp_neq[OF s] not_sym[OF opp_neq[OF s]] unfolding o0
    by (simp add: spec_add_def swept_def o0 Let_def fun_upd_twist)
      (auto simp: abs_book_def b0_def sendClientResponse_def fun_eq_iff)
  have add: "add c oid s p q b = (if left > 0 then
      res_bind (getPriority p b1) (\<lambda>priority.
      res_bind (allocate \<lparr>ord_id = ?id, ord_side = s, ord_price = p, ord_qty = left, ord_priority = priority,
          ord_next = None, ord_prev = None, ord_ticker = ticker b1, ord_client = c, ord_client_oid = oid\<rparr>
         (orders_pool (core b1))) (\<lambda>(ord, Q).
      res_bind (AddOrderToPriceLevel ord (b1\<lparr>core := (core b1)\<lparr>orders_pool := Q\<rparr>\<rparr>)) (\<lambda>b.
      Inr (sendMarketUpdate \<lparr>mu_type = MU_ADD, mu_order_id = ?id, mu_ticker_id = ticker b, mu_side = s,
         mu_price = p, mu_qty = q, mu_priority = priority\<rparr> b))))
      else Inr b1)"
    using b1(1) sw(2) by (simp add: add_def generateNextOrderId_def Let_def b0_def sendClientResponse_def)
  show ?thesis
  proof (cases "left > 0")
    case False
    then show ?thesis using add spec b1 by auto
  next
    case True
    have pre1: "pre_rep b1 sh1" using b1(2) by (simp add: me_rep_def)
    have adm0: "admissible c oid s p (abs_book b0)"
      using adm by (simp add: admissible_def find_owned_def room_def o0)
    have clear: "price_clear (core b1) s p"
      using price_clear_swept[OF rep s adm b1(3) o0] True sw(2) by simp
    have "find_owned c oid (abs_book b1) = None" "room (abs_book b1)"
      using swept_admissible[OF adm0] b1(3) by auto
    then have fresh: "cid_oid_to_order b1 c oid = None"
      and room: "2 \<le> spare (orders_pool (core b1))" "2 \<le> spare (levels_pool (core b1))"
      using lookup_rep[OF pre1, of c oid] room_spare[OF pre1] by auto
    have keep: "resting s (core b1) = ab_orders (abs_book b) s" "ticker b1 = ticker b"
    proof -
      have "ab_orders (abs_book b1) s = ab_orders (abs_book b) s"
        using sw(3) o0 opp_neq[OF s] by (simp add: b1(3))
      then show "resting s (core b1) = ab_orders (abs_book b) s" by (simp add: abs_book_def)
      have "ab_ticker (abs_book b1) = ab_ticker (abs_book b0)" by (simp add: b1(3) swept_def split: prod.split)
      then show "ticker b1 = ticker b" by (simp add: abs_book_def b0_def sendClientResponse_def)
    qed
    define r where "r = spec_order (abs_book b) c oid s p left"
    have rf: "r = \<lparr>ord_id = ?id, ord_side = s, ord_price = p, ord_qty = left,
        ord_priority = next_priority p (resting s (core b1)), ord_next = None, ord_prev = None,
        ord_ticker = ticker b1, ord_client = c, ord_client_oid = oid\<rparr>"
      by (simp add: r_def spec_order_def keep) (simp add: abs_book_def)
    have "price_clear (core b1) s (ord_price r)" "ord_side r = s" "in_index (ord_client r) (ord_client_oid r)"
      "cid_oid_to_order b1 (ord_client r) (ord_client_oid r) = None" "ord_qty r \<noteq> 0" "strip r = r"
      using clear fresh ci True by (simp_all add: rf strip_def)
    then obtain i Q k m sh' where al: "allocate r (orders_pool (core b1)) = Inr (i, Q)"
      "AddOrderToPriceLevel i (b1\<lparr>core := (core b1)\<lparr>orders_pool := Q\<rparr>\<rparr>) = Inr (b1\<lparr>core := k, cid_oid_to_order := m\<rparr>)"
      "me_rep (b1\<lparr>core := k, cid_oid_to_order := m\<rparr>) sh'"
      "(\<lambda>t. resting t k) = (\<lambda>t. resting t (core b1))(s := insert_order s r (resting s (core b1)))"
      using AddOrderToPriceLevel_rep[OF b1(2) s, of r] room by blast
    define b' where "b' = sendMarketUpdate \<lparr>mu_type = MU_ADD, mu_order_id = ?id, mu_ticker_id = ticker b, mu_side = s,
       mu_price = p, mu_qty = q, mu_priority = ord_priority r\<rparr> (b1\<lparr>core := k, cid_oid_to_order := m\<rparr>)"
    have "add c oid s p q b = Inr b'"
      using add True getPriority_rep[OF pre1 s clear] al(1,2) keep(2) by (simp add: rf b'_def)
    moreover have "me_rep b' sh'"
      using al(3) by (simp add: me_rep_def pre_rep_def b'_def sendMarketUpdate_def)
    moreover have "abs_book b' = spec_add c oid s p q (abs_book b)"
      unfolding spec using True al(4) b1(3)[symmetric]
      by (simp add: r_def[symmetric]) (simp add: abs_book_def b'_def sendMarketUpdate_def)
    ultimately show ?thesis by blast
  qed
qed

end
