(* ===== verification/MatchSafety.thy ===== *)
theory MatchSafety
  imports MatchSpec
begin

text \<open>
  What the abstract operations keep: each side in price-time priority, identifiers and priorities
  that grow with arrival, no empty order, and no bid at or above an ask. Proved on lists; the
  exchange's order book inherits it through \<open>abs_book\<close>.
\<close>

section \<open>The invariant\<close>

definition ahead :: "Side \<Rightarrow> MEOrder \<Rightarrow> MEOrder \<Rightarrow> bool" where
  "ahead s x y \<longleftrightarrow> better s (ord_price x) (ord_price y) \<or>
     ord_price x = ord_price y \<and> ord_id x < ord_id y \<and> ord_priority x < ord_priority y"

definition order_wf :: "Side \<Rightarrow> OrderId \<Rightarrow> MEOrder \<Rightarrow> bool" where
  "order_wf s nid x \<longleftrightarrow> ord_side x = s \<and> ord_qty x \<noteq> 0 \<and> ord_priority x \<le> ord_id x \<and> ord_id x < nid"

definition side_wf :: "Side \<Rightarrow> OrderId \<Rightarrow> MEOrder list \<Rightarrow> bool" where
  "side_wf s nid rs \<longleftrightarrow> sorted_wrt (ahead s) rs \<and> list_all (order_wf s nid) rs"

definition uncrossed :: "MEOrder list \<Rightarrow> MEOrder list \<Rightarrow> bool" where
  "uncrossed bids asks \<longleftrightarrow> list_all (\<lambda>x. list_all (\<lambda>y. ord_price x < ord_price y) asks) bids"

definition book_wf :: "abook \<Rightarrow> bool" where
  "book_wf a \<longleftrightarrow> ab_next_id a \<noteq> 0 \<and> side_wf BUY (ab_next_id a) (ab_orders a BUY) \<and>
     side_wf SELL (ab_next_id a) (ab_orders a SELL) \<and> uncrossed (ab_orders a BUY) (ab_orders a SELL)"

lemma uncrossed_iff:
  "uncrossed bids asks \<longleftrightarrow> (\<forall>x \<in> set bids. \<forall>y \<in> set asks. ord_price x < ord_price y)"
  by (auto simp: uncrossed_def list_all_iff)

lemma side_wf_iff:
  "side_wf s nid rs \<longleftrightarrow> sorted_wrt (ahead s) rs \<and> (\<forall>x \<in> set rs. order_wf s nid x)"
  by (simp add: side_wf_def list_all_iff)

lemma book_wf_side: "book_wf a \<Longrightarrow> s \<in> sides \<Longrightarrow> side_wf s (ab_next_id a) (ab_orders a s)"
  by (auto simp: book_wf_def sides_def)

text \<open>In terms of a side and its opposite.\<close>

definition apart :: "Side \<Rightarrow> MEOrder list \<Rightarrow> MEOrder list \<Rightarrow> bool" where
  "apart s rs os \<longleftrightarrow> (\<forall>x \<in> set rs. \<forall>y \<in> set os. limit_excludes s (ord_price x) (ord_price y))"

lemma book_wf_iff:
  "s \<in> sides \<Longrightarrow> book_wf a \<longleftrightarrow> ab_next_id a \<noteq> 0 \<and> side_wf s (ab_next_id a) (ab_orders a s) \<and>
     side_wf (opp s) (ab_next_id a) (ab_orders a (opp s)) \<and> apart s (ab_orders a s) (ab_orders a (opp s))"
  by (auto simp: book_wf_def sides_def uncrossed_iff apart_def limit_excludes_def)

section \<open>Sweeping\<close>

lemma ahead_sorted:
  "sorted_wrt (ahead s) rs \<Longrightarrow>
   sorted_wrt (\<lambda>x y. better s (ord_price x) (ord_price y) \<or> ord_price x = ord_price y) rs"
  by (erule sorted_wrt_mono_rel[rotated]) (auto simp: ahead_def)

lemma ahead_qty: "ahead s x y \<Longrightarrow> ahead s (x\<lparr>ord_qty := k\<rparr>) y"
  by (simp add: ahead_def)

lemma sweep_side_wf:
  assumes sw: "sweep s p q rs = (fs, left, rest)" and wf: "side_wf t nid rs"
  shows "side_wf t nid rest"
proof -
  have "order_wf t nid x" if "x \<in> set rest" for x
  proof -
    from sw that obtain r k where rk: "r \<in> set rs" "x = r\<lparr>ord_qty := k\<rparr>" "ord_qty r \<noteq> 0 \<longrightarrow> k \<noteq> 0"
      by (rule sweep_rest_member)
    have "order_wf t nid r" using wf rk(1) by (simp add: side_wf_iff)
    then show ?thesis using rk(2,3) by (auto simp: order_wf_def)
  qed
  moreover have "sorted_wrt (ahead t) rest"
    using sweep_sorted[OF sw, of "ahead t"] wf ahead_qty by (simp add: side_wf_iff)
  ultimately show ?thesis by (simp add: side_wf_iff)
qed

lemma side_wf_mono: "side_wf s nid rs \<Longrightarrow> nid \<le> nid' \<Longrightarrow> side_wf s nid' rs"
  by (auto simp: side_wf_iff order_wf_def)

section \<open>Resting\<close>

lemma set_insert_order [simp]: "set (insert_order s r rs) = insert r (set rs)"
proof -
  have "set rs = set (takeWhile (\<lambda>x. goes_before s x r) rs @ dropWhile (\<lambda>x. goes_before s x r) rs)" by simp
  then show ?thesis by (simp add: insert_order_def del: takeWhile_dropWhile_id)
qed

lemma insert_order_sorted:
  assumes s: "s \<in> sides" and srt: "sorted_wrt (ahead s) rs"
    and eq: "\<And>x. x \<in> set rs \<Longrightarrow> ord_price x = ord_price r \<Longrightarrow> ahead s x r"
  shows "sorted_wrt (ahead s) (insert_order s r rs)"
proof -
  let ?T = "takeWhile (\<lambda>x. goes_before s x r) rs" and ?D = "dropWhile (\<lambda>x. goes_before s x r) rs"
  have srt': "sorted_wrt (ahead s) (?T @ ?D)" using srt by simp
  have T: "ahead s x r" if "x \<in> set ?T" for x
  proof -
    have "x \<in> set rs" "goes_before s x r" using that by (auto dest: set_takeWhileD)
    then show ?thesis using eq by (auto simp: goes_before_def ahead_def)
  qed
  have D: "ahead s r y" if y: "y \<in> set ?D" for y
  proof -
    obtain d ds where d: "?D = d # ds" using y by (cases ?D) auto
    then have "\<not> goes_before s d r" by (metis hd_dropWhile list.distinct(1) list.sel(1))
    then have rd: "better s (ord_price r) (ord_price d)"
      using better_total[OF s] by (auto simp: goes_before_def)
    have "y = d \<or> ahead s d y" using srt' y d by (auto simp: sorted_wrt_append)
    then show ?thesis using rd better_trans by (auto simp: ahead_def)
  qed
  show ?thesis unfolding insert_order_def
    using srt' T D unfolding sorted_wrt_append by simp
qed

lemma word_Suc_le: "(x :: 'a::len word) < y \<Longrightarrow> x < x + 1 \<and> x + 1 \<le> y"
  by unat_arith

text \<open>A new order's priority is beyond every priority at its price, and not beyond its
  identifier, so that priorities wrap only after identifiers do.\<close>

lemma next_priority_bounds:
  assumes wf: "side_wf s nid rs" and nid: "nid \<noteq> 0"
  shows "next_priority p rs \<le> nid"
    and "x \<in> set rs \<Longrightarrow> ord_price x = p \<Longrightarrow> ord_priority x < next_priority p rs"
proof -
  let ?F = "filter (\<lambda>x. ord_price x = p) rs"
  have last: "ord_priority (last ?F) < ord_priority (last ?F) + 1 \<and> ord_priority (last ?F) + 1 \<le> nid"
    if "?F \<noteq> []"
  proof -
    have "last ?F \<in> set rs" using last_in_set[OF that] by simp
    then have "ord_priority (last ?F) < nid" using wf by (auto simp: side_wf_iff order_wf_def)
    then show ?thesis by (rule word_Suc_le)
  qed
  have np: "next_priority p rs = (if ?F = [] then 1 else ord_priority (last ?F) + 1)"
    by (simp add: next_priority_def split: list.split)
  show "next_priority p rs \<le> nid"
    using last nid unfolding np by (auto simp: word_le_nat_alt unat_eq_0[symmetric] Suc_le_eq)
  assume x: "x \<in> set rs" "ord_price x = p"
  then have xF: "x \<in> set ?F" by simp
  then have ne: "?F \<noteq> []" by (metis empty_iff list.set(1))
  have "sorted_wrt (ahead s) ?F" using wf by (simp add: side_wf_iff sorted_wrt_filter)
  then have "sorted_wrt (ahead s) (butlast ?F @ [last ?F])" using ne by simp
  moreover have "x = last ?F \<or> x \<in> set (butlast ?F)"
    using xF ne by (metis append_butlast_last_id in_set_conv_decomp_last rotate1.simps(2) set_ConsD set_rotate1)
  ultimately have "x = last ?F \<or> ahead s x (last ?F)" by (auto simp: sorted_wrt_append)
  moreover have "ord_price (last ?F) = p" using last_in_set[OF ne] by simp
  ultimately have "ord_priority x \<le> ord_priority (last ?F)" using x(2) by (auto simp: ahead_def)
  then show "ord_priority x < next_priority p rs" using last[OF ne] ne unfolding np by auto
qed

section \<open>Preservation\<close>

theorem spec_add_wf:
  assumes wf: "book_wf a" and s: "s \<in> sides" and fresh: "ab_next_id a + 1 \<noteq> 0"
  shows "book_wf (spec_add c oid s p q a)"
proof -
  let ?id = "ab_next_id a" and ?rs = "ab_orders a s"
  obtain fs left rest where sw: "sweep s p q (ab_orders a (opp s)) = (fs, left, rest)"
    by (metis prod_cases3)
  have old: "?id \<noteq> 0" "side_wf s ?id ?rs" "side_wf (opp s) ?id (ab_orders a (opp s))"
    "apart s ?rs (ab_orders a (opp s))" using wf book_wf_iff[OF s] by auto
  have lt: "?id < ?id + 1" "?id \<le> ?id + 1" using fresh by (unat_arith, unat_arith)
  have "side_wf (opp s) ?id rest" using sweep_side_wf[OF sw old(3)] .
  then have rest: "side_wf (opp s) (?id + 1) rest" using lt side_wf_mono by blast
  have sub: "\<exists>y' \<in> set (ab_orders a (opp s)). ord_price y = ord_price y'" if "y \<in> set rest" for y
    using sw that by (rule sweep_rest_member) auto
  have apart: "apart s ?rs rest" using old(4) sub unfolding apart_def by metis
  show ?thesis
  proof (cases "left > 0")
    case False
    then show ?thesis
      using rest side_wf_mono[OF old(2) lt(2)] apart fresh sw opp_neq[OF s]
      by (simp add: book_wf_iff[OF s] spec_add_def)
  next
    case True
    define r where "r = spec_order a c oid s p left"
    have r: "ord_price r = p" "ord_side r = s" "ord_qty r = left" "ord_id r = ?id"
      "ord_priority r = next_priority p ?rs" by (simp_all add: r_def spec_order_def)
    have "order_wf s (?id + 1) r"
      using True lt r next_priority_bounds(1)[OF old(2,1)] by (simp add: order_wf_def)
    moreover have "sorted_wrt (ahead s) (insert_order s r ?rs)"
    proof (rule insert_order_sorted[OF s])
      show "sorted_wrt (ahead s) ?rs" using old(2) by (simp add: side_wf_iff)
      show "ahead s x r" if "x \<in> set ?rs" "ord_price x = ord_price r" for x
        using that old(2) r next_priority_bounds(2)[OF old(2,1), of x p]
        by (auto simp: ahead_def side_wf_iff order_wf_def)
    qed
    ultimately have new: "side_wf s (?id + 1) (insert_order s r ?rs)"
      using side_wf_mono[OF old(2) lt(2)] by (simp add: side_wf_iff)
    have srt: "sorted_wrt (\<lambda>x y. better (opp s) (ord_price x) (ord_price y) \<or> ord_price x = ord_price y)
        (ab_orders a (opp s))" using old(3) by (intro ahead_sorted) (simp add: side_wf_iff)
    have "limit_excludes s p (ord_price y)" if "y \<in> set rest" for y
      using sweep_uncrossed[OF sw s srt _ that] True by simp
    then have "apart s (insert_order s r ?rs) rest" using apart r by (auto simp: apart_def)
    then show ?thesis
      using rest new fresh sw True opp_neq[OF s]
      by (simp add: book_wf_iff[OF s] spec_add_def Let_def r_def)
  qed
qed

theorem spec_cancel_wf:
  assumes wf: "book_wf a"
  shows "book_wf (spec_cancel c oid a)"
proof -
  have "side_wf s n (filter P rs)" if "side_wf s n rs" for s n P rs
    using that by (auto simp: side_wf_iff sorted_wrt_filter)
  moreover have "uncrossed (filter P bs) (filter Q as)" if "uncrossed bs as" for P Q bs as
    using that by (auto simp: uncrossed_iff)
  ultimately show ?thesis
    using wf by (auto simp: book_wf_def spec_cancel_def split: option.split)
qed

end
