(* ===== verification/ExchangeBook.thy ===== *)
theory ExchangeBook
  imports MEBookProps MatchSafety
begin

text \<open>
  The correctness of the exchange's order book, \<^verbatim>\<open>src/exchange/order_book.cpp\<close>: the
  invariant of a good book, that every admissible \<open>add\<close> and every \<open>cancel\<close> keeps it, and what each
  operation does to the orders, the responses and the updates. The last section shows, by running
  the model, where the code's bounds on prices and its published quantity give way. Which sequences
  of requests stay admissible throughout is the subject of theory Discipline.
\<close>

section \<open>Good books\<close>

definition me_ok :: "MEOrderBook \<Rightarrow> bool" where
  "me_ok b \<longleftrightarrow> (\<exists>sh. me_rep b sh) \<and> book_wf (abs_book b)"

lemma new_me_rep: "me_rep (new_MEOrderBook t) (\<lambda>_. [])"
proof -
  have "0 < ME_MAX_ORDER_IDS" "0 < ME_MAX_PRICE_LEVELS" by (simp_all add: size_defs)
  then show ?thesis
    by (simp add: me_rep_def pre_rep_def book_rep_def links_rep_def side_rep_def pools_rep_def
        new_MEOrderBook_def newMemPool_ok all_orders_def all_levels_def index_rep_def head_of_def)
      (simp add: newMemPool_def)
qed

lemma abs_new: "abs_book (new_MEOrderBook t) =
    \<lparr>ab_ticker = t, ab_orders = (\<lambda>_. []), ab_next_id = 1, ab_responses = [], ab_updates = []\<rparr>"
  by (simp add: abs_book_def new_MEOrderBook_def resting_def side_cells_def head_of_def fun_eq_iff)

lemma new_ok: "me_ok (new_MEOrderBook t)"
  using new_me_rep by (auto simp: me_ok_def abs_new book_wf_def side_wf_def uncrossed_def)

lemma add_ok:
  assumes "me_ok b" and "admissible c oid s p (abs_book b)" and "next_order_id b + 1 \<noteq> 0"
  obtains b' where "add c oid s p q b = Inr b'" and "me_ok b'"
    and "abs_book b' = spec_add c oid s p q (abs_book b)"
proof -
  obtain sh where rep: "me_rep b sh" and wf: "book_wf (abs_book b)" using assms(1) by (auto simp: me_ok_def)
  obtain b' sh' where b': "add c oid s p q b = Inr b'" "me_rep b' sh'"
    "abs_book b' = spec_add c oid s p q (abs_book b)"
    using add_refines[OF rep assms(2)] by blast
  have "s \<in> sides" using assms(2) by (auto simp: admissible_def sides_def)
  moreover have "ab_next_id (abs_book b) + 1 \<noteq> 0" using assms(3) by (simp add: abs_book_def)
  ultimately have "me_ok b'" using b' spec_add_wf[OF wf] by (auto simp: me_ok_def)
  then show thesis using that b' by blast
qed

lemma cancel_ok:
  assumes "me_ok b"
  obtains b' where "cancel c oid b = Inr b'" and "me_ok b'"
    and "abs_book b' = spec_cancel c oid (abs_book b)"
proof -
  obtain sh where rep: "me_rep b sh" and wf: "book_wf (abs_book b)" using assms by (auto simp: me_ok_def)
  obtain b' sh' where b': "cancel c oid b = Inr b'" "me_rep b' sh'"
    "abs_book b' = spec_cancel c oid (abs_book b)"
    using cancel_refines[OF rep] by blast
  then show thesis using that spec_cancel_wf[OF wf] by (auto simp: me_ok_def)
qed

lemma resting_abs: "ab_orders (abs_book b) s = resting s (core b)"
  by (simp add: abs_book_def)

lemma abs_book_fields [simp]:
  "ab_ticker (abs_book b) = ticker b" "ab_next_id (abs_book b) = next_order_id b"
  "ab_responses (abs_book b) = sent_responses b" "ab_updates (abs_book b) = sent_updates b"
  by (simp_all add: abs_book_def)

section \<open>The two operations\<close>

text \<open>C1: an admissible new order is always taken: the pointer-level \<open>add\<close> returns, its
  result again satisfies the representation invariant, and it is what sweeping the opposite side
  and resting the remainder behind the orders it does not beat gives on the two lists of orders,
  with exactly the responses and market updates of that matching.\<close>

theorem add_implements_matching:
  assumes "me_ok b" and "admissible c oid s p (abs_book b)" and "next_order_id b + 1 \<noteq> 0"
  shows "\<exists>b'. add c oid s p q b = Inr b' \<and> me_ok b' \<and> abs_book b' = spec_add c oid s p q (abs_book b)"
  using add_ok[OF assms] by metis

lemma admissible_new:
  "in_index c oid \<Longrightarrow> s = BUY \<or> s = SELL \<Longrightarrow> admissible c oid s p (abs_book (new_MEOrderBook t))"
  by (auto simp: admissible_def abs_new find_owned_def room_def level_count_def size_defs)

theorem add_implements_matching_witness:
  "\<exists>b'. add 1 5 BUY 100 10 (new_MEOrderBook 3) = Inr b' \<and> me_ok b' \<and>
     abs_book b' = spec_add 1 5 BUY 100 10 (abs_book (new_MEOrderBook 3))"
  by (rule add_implements_matching[OF new_ok admissible_new])
    (simp_all add: in_index_def size_defs new_MEOrderBook_def)

text \<open>C10: a cancel never fails: it removes the order of that client and identifier and reports it,
  or, when there is none or the identifiers are out of range, reports a rejection and leaves the
  book alone; the invariant is kept.\<close>

theorem cancel_implements_removal:
  assumes "me_ok b"
  shows "\<exists>b'. cancel c oid b = Inr b' \<and> me_ok b' \<and> abs_book b' = spec_cancel c oid (abs_book b)"
  using cancel_ok[OF assms] by metis

theorem cancel_implements_removal_witness:
  "\<exists>b'. cancel 1 5 (new_MEOrderBook 3) = Inr b' \<and> me_ok b' \<and>
     abs_book b' = spec_cancel 1 5 (abs_book (new_MEOrderBook 3))"
  by (rule cancel_implements_removal[OF new_ok])

section \<open>Quantities\<close>

definition traded :: "MEMarketUpdate list \<Rightarrow> nat" where
  "traded us = (\<Sum>u\<leftarrow>filter (\<lambda>u. mu_type u = MU_TRADE) us. unat (mu_qty u))"

definition book_qty :: "MEOrderBook \<Rightarrow> nat" where
  "book_qty b = total_qty (resting BUY (core b)) + total_qty (resting SELL (core b))"

lemma traded_simps [simp]:
  "traded [] = 0" "traded (us @ vs) = traded us + traded vs"
  "traded (u # us) = (if mu_type u = MU_TRADE then unat (mu_qty u) else 0) + traded us"
  by (simp_all add: traded_def)

lemma traded_fills [simp]: "traded (fill_updates t s fs) = total_filled fs"
  by (induction t s fs rule: fill_updates.induct) simp_all

lemma total_insert [simp]: "total_qty (insert_order s r rs) = unat (ord_qty r) + total_qty rs"
proof -
  have "total_qty rs = total_qty (takeWhile (\<lambda>x. goes_before s x r) rs @ dropWhile (\<lambda>x. goes_before s x r) rs)" by simp
  then show ?thesis unfolding insert_order_def by (simp del: takeWhile_dropWhile_id)
qed

text \<open>C15: no quantity is created or lost by matching: what rested before plus the new order's
  quantity is what rests afterwards plus twice what the published trades report, once for each
  of the two parties.\<close>

theorem add_conserves_quantity:
  assumes "me_ok b" and "admissible c oid s p (abs_book b)" and "next_order_id b + 1 \<noteq> 0"
  shows "\<exists>b' us. add c oid s p q b = Inr b' \<and> sent_updates b' = sent_updates b @ us \<and>
     book_qty b + unat q = book_qty b' + 2 * traded us"
proof -
  obtain b' where b': "add c oid s p q b = Inr b'" "abs_book b' = spec_add c oid s p q (abs_book b)"
    using add_ok[OF assms] by metis
  obtain fs left rest where sw: "sweep s p q (resting (opp s) (core b)) = (fs, left, rest)"
    by (metis prod_cases3)
  note cons = sweep_conserves[OF sw]
  have sw': "sweep s p q (ab_orders (abs_book b) (opp s)) = (fs, left, rest)" using sw by (simp add: resting_abs)
  have upd: "sent_updates b' = sent_updates b @ drop (length (sent_updates b)) (sent_updates b') \<and>
      traded (drop (length (sent_updates b)) (sent_updates b')) = total_filled fs"
    using arg_cong[OF b'(2), of ab_updates] spec_add_fields(4)[OF sw'] by (simp add: abs_book_def)
  have ab: "(\<lambda>s. resting s (core b')) = (\<lambda>s. resting s (core b))(opp s := rest,
      s := if left > 0 then insert_order s (spec_order (abs_book b) c oid s p left) (resting s (core b))
           else resting s (core b))"
    using arg_cong[OF b'(2), of ab_orders] spec_add_fields(3)[OF sw'] by (simp add: abs_book_def)
  have "s = BUY \<or> s = SELL" using assms(2) by (simp add: admissible_def)
  then have "book_qty b' + 2 * total_filled fs = book_qty b + unat q"
    using fun_cong[OF ab, of BUY] fun_cong[OF ab, of SELL] cons
    by (auto simp: book_qty_def spec_order_def word_gt_0)
  then show ?thesis using b'(1) upd by metis
qed

theorem add_conserves_quantity_witness:
  "\<exists>b' us. add 1 5 BUY 100 10 (new_MEOrderBook 3) = Inr b' \<and>
     sent_updates b' = sent_updates (new_MEOrderBook 3) @ us \<and>
     book_qty (new_MEOrderBook 3) + unat (10 :: Qty) = book_qty b' + 2 * traded us"
  by (rule add_conserves_quantity[OF new_ok admissible_new])
    (simp_all add: in_index_def size_defs new_MEOrderBook_def)

section \<open>Limits\<close>

lemma sweep_fill_prices:
  assumes "sweep s p q rs = (fs, left, rest)" and "x \<in> set fs"
  shows "\<not> limit_excludes s p (ord_price (fst x))"
  using assms(1) by (cases rule: sweep_cases) (use assms(2) in auto)

lemma fill_update_prices:
  "u \<in> set (fill_updates t s fs) \<Longrightarrow> \<exists>x \<in> set fs. mu_price u = ord_price (fst x)"
  by (induction t s fs rule: fill_updates.induct) auto

text \<open>C20: an incoming order never trades beyond its limit, and when a part of it rests, the best
  price of the opposite side is beyond its limit.\<close>

theorem add_respects_limit:
  assumes "me_ok b" and "admissible c oid s p (abs_book b)" and "next_order_id b + 1 \<noteq> 0"
  shows "\<exists>b' us. add c oid s p q b = Inr b' \<and> sent_updates b' = sent_updates b @ us \<and>
     list_all (\<lambda>u. mu_type u = MU_TRADE \<longrightarrow> \<not> limit_excludes s p (mu_price u)) us \<and>
     (list_ex (\<lambda>u. mu_type u = MU_ADD) us \<longrightarrow>
        list_all (\<lambda>x. limit_excludes s p (ord_price x)) (resting (opp s) (core b')))"
proof -
  obtain b' where b': "add c oid s p q b = Inr b'" "me_ok b'" "abs_book b' = spec_add c oid s p q (abs_book b)"
    using add_ok[OF assms] by metis
  have s: "s \<in> sides" using assms(2) by (auto simp: admissible_def sides_def)
  obtain fs left rest where sw: "sweep s p q (ab_orders (abs_book b) (opp s)) = (fs, left, rest)"
    by (metis prod_cases3)
  let ?us = "fill_updates (ticker b) s fs @ (if left > 0 then [\<lparr>mu_type = MU_ADD, mu_order_id = next_order_id b,
     mu_ticker_id = ticker b, mu_side = s, mu_price = p, mu_qty = q,
     mu_priority = next_priority p (resting s (core b))\<rparr>] else [])"
  have upd: "sent_updates b' = sent_updates b @ ?us"
    using arg_cong[OF b'(3), of ab_updates] spec_add_fields(4)[OF sw] by (simp add: abs_book_def)
  have "\<not> limit_excludes s p (mu_price u)" if "u \<in> set (fill_updates (ticker b) s fs)" for u
    using fill_update_prices[OF that] sweep_fill_prices[OF sw] by auto
  then have "list_all (\<lambda>u. mu_type u = MU_TRADE \<longrightarrow> \<not> limit_excludes s p (mu_price u)) ?us"
    by (auto simp: list_all_iff)
  moreover have "resting (opp s) (core b') = rest"
    using arg_cong[OF b'(3), of ab_orders] spec_add_fields(3)[OF sw] opp_neq[OF s]
    by (metis fun_upd_apply resting_abs)
  moreover have "mu_type u \<noteq> MU_ADD" if "u \<in> set (fill_updates t s fs)" for u t
    using that by (induction t s fs rule: fill_updates.induct) (auto split: if_splits)
  then have "list_ex (\<lambda>u. mu_type u = MU_ADD) ?us \<longleftrightarrow> left > 0" by (auto simp: list_ex_iff)
  moreover have "limit_excludes s p (ord_price x)" if "left > 0" "x \<in> set rest" for x
  proof (rule sweep_uncrossed[OF sw s _ _ that(2)])
    show "sorted_wrt (\<lambda>x y. better (opp s) (ord_price x) (ord_price y) \<or> ord_price x = ord_price y)
        (ab_orders (abs_book b) (opp s))"
      using assms(1) book_wf_side[of "abs_book b" "opp s"]
      by (intro ahead_sorted) (simp add: me_ok_def side_wf_iff)
  qed (use that(1) in auto)
  ultimately show ?thesis using b'(1) upd by (auto simp: list_all_iff)
qed

theorem add_respects_limit_witness:
  "\<exists>b' us. add 1 5 BUY 100 10 (new_MEOrderBook 3) = Inr b' \<and>
     sent_updates b' = sent_updates (new_MEOrderBook 3) @ us \<and>
     list_all (\<lambda>u. mu_type u = MU_TRADE \<longrightarrow> \<not> limit_excludes BUY 100 (mu_price u)) us \<and>
     (list_ex (\<lambda>u. mu_type u = MU_ADD) us \<longrightarrow>
        list_all (\<lambda>x. limit_excludes BUY 100 (ord_price x)) (resting (opp BUY) (core b')))"
  by (rule add_respects_limit[OF new_ok admissible_new])
    (simp_all add: in_index_def size_defs new_MEOrderBook_def)

section \<open>Cancelling\<close>

text \<open>A cancel of an order that is not in the book, or whose identifiers are outside the
  index, is answered with a rejection and changes nothing else, in any state of the book.\<close>

theorem cancel_unknown_rejected:
  assumes "\<not> in_index c oid \<or> cid_oid_to_order b c oid = None"
  shows "cancel c oid b = Inr (b\<lparr>sent_responses := sent_responses b @
    [\<lparr>rs_type = CANCEL_REJECTED, rs_client_id = c, rs_ticker_id = ticker b, rs_client_order_id = oid,
      rs_market_order_id = OrderId_INVALID, rs_side = SIDE_INVALID, rs_price = Price_INVALID,
      rs_exec_qty = Qty_INVALID, rs_left_qty = Qty_INVALID\<rparr>]\<rparr>)"
  using assms by (auto simp: cancel_def sendClientResponse_def)

theorem cancel_unknown_rejected_witness:
  "cancel 300 5 (new_MEOrderBook 3) = Inr ((new_MEOrderBook 3)\<lparr>sent_responses := sent_responses (new_MEOrderBook 3) @
    [\<lparr>rs_type = CANCEL_REJECTED, rs_client_id = 300, rs_ticker_id = ticker (new_MEOrderBook 3), rs_client_order_id = 5,
      rs_market_order_id = OrderId_INVALID, rs_side = SIDE_INVALID, rs_price = Price_INVALID,
      rs_exec_qty = Qty_INVALID, rs_left_qty = Qty_INVALID\<rparr>]\<rparr>)"
  by (rule cancel_unknown_rejected) (simp add: in_index_def size_defs)

lemma filter_insert_order:
  "\<not> P r \<Longrightarrow> (\<And>x. x \<in> set rs \<Longrightarrow> P x) \<Longrightarrow> filter P (insert_order s r rs) = rs"
proof -
  assume P: "\<not> P r" "\<And>x. x \<in> set rs \<Longrightarrow> P x"
  then have "filter P (insert_order s r rs) =
      filter P (takeWhile (\<lambda>x. goes_before s x r) rs @ dropWhile (\<lambda>x. goes_before s x r) rs)"
    by (simp add: insert_order_def del: takeWhile_dropWhile_id)
  also have "\<dots> = rs" unfolding takeWhile_dropWhile_id using P(2) by (intro filter_True) auto
  finally show ?thesis .
qed

text \<open>C32: an order that rests untouched can be cancelled, and the cancel restores both sides of
  the book exactly.\<close>

theorem cancel_undoes_add:
  assumes "me_ok b" and "admissible c oid s p (abs_book b)" and "next_order_id b + 1 \<noteq> 0" and "q \<noteq> 0"
    and "list_all (\<lambda>x. limit_excludes s p (ord_price x)) (resting (opp s) (core b))"
  shows "\<exists>b1 b2. add c oid s p q b = Inr b1 \<and> cancel c oid b1 = Inr b2 \<and>
     resting BUY (core b2) = resting BUY (core b) \<and> resting SELL (core b2) = resting SELL (core b)"
proof -
  obtain b1 where b1: "add c oid s p q b = Inr b1" "me_ok b1" "abs_book b1 = spec_add c oid s p q (abs_book b)"
    using add_ok[OF assms(1-3)] by metis
  obtain b2 where b2: "cancel c oid b1 = Inr b2" "abs_book b2 = spec_cancel c oid (abs_book b1)"
    using cancel_ok[OF b1(2)] by metis
  have s: "s = BUY \<or> s = SELL" using assms(2) by (simp add: admissible_def)
  have sw: "sweep s p q (ab_orders (abs_book b) (opp s)) = ([], q, resting (opp s) (core b))"
    using assms(5) by (cases "resting (opp s) (core b)") (simp_all add: resting_abs)
  define r where "r = spec_order (abs_book b) c oid s p q"
  have r: "owned_by c oid r" by (simp add: r_def spec_order_def owned_by_def)
  have none: "\<not> owned_by c oid x" if "x \<in> set (resting t (core b))" "t = BUY \<or> t = SELL" for t x
    using assms(2) that by (auto simp: admissible_def find_owned_def find_None_iff resting_abs)
  have o1: "ab_orders (abs_book b1) = (\<lambda>t. resting t (core b))(s := insert_order s r (resting s (core b)))"
    using spec_add_fields(3)[OF sw] assms(4) by (simp add: b1(3) r_def resting_abs fun_eq_iff word_gt_0)
  then have "r \<in> set (ab_orders (abs_book b1) s)" by simp
  then have "find_owned c oid (abs_book b1) \<noteq> None"
    using s r by (auto simp: find_owned_def find_None_iff)
  then have "ab_orders (abs_book b2) t = filter (\<lambda>x. \<not> owned_by c oid x) (ab_orders (abs_book b1) t)" for t
    by (auto simp: b2(2) spec_cancel_def)
  moreover have "filter (\<lambda>x. \<not> owned_by c oid x) (resting t (core b)) = resting t (core b)"
    if "t = BUY \<or> t = SELL" for t
    using none that by (intro filter_True) auto
  moreover have "filter (\<lambda>x. \<not> owned_by c oid x) (insert_order s r (resting s (core b))) = resting s (core b)"
    using r none s by (intro filter_insert_order) auto
  ultimately have "resting t (core b2) = resting t (core b)" if "t = BUY \<or> t = SELL" for t
    using o1 that by (auto simp: resting_abs[symmetric])
  then show ?thesis using b1(1) b2(1) by blast
qed

theorem cancel_undoes_add_witness:
  "\<exists>b1 b2. add 1 5 BUY 100 10 (new_MEOrderBook 3) = Inr b1 \<and> cancel 1 5 b1 = Inr b2 \<and>
     resting BUY (core b2) = resting BUY (core (new_MEOrderBook 3)) \<and>
     resting SELL (core b2) = resting SELL (core (new_MEOrderBook 3))"
proof (rule cancel_undoes_add[OF new_ok admissible_new])
  show "list_all (\<lambda>x. limit_excludes BUY 100 (ord_price x)) (resting (opp BUY) (core (new_MEOrderBook 3)))"
    by (simp add: resting_abs[symmetric] abs_new)
qed (simp_all add: in_index_def size_defs new_MEOrderBook_def)

section \<open>Where the code gives way\<close>

text \<open>When a part of a new order trades at once, the market update announces the order with
  the quantity it arrived with, not the quantity that rests.\<close>

theorem add_announces_original_quantity:
  assumes "me_ok b" and "admissible c oid s p (abs_book b)" and "next_order_id b + 1 \<noteq> 0"
    and "sweep s p q (resting (opp s) (core b)) = (fs, left, rest)" and "0 < left"
  shows "\<exists>b' r. add c oid s p q b = Inr b' \<and> r \<in> set (resting s (core b')) \<and>
     ord_id r = next_order_id b \<and> ord_qty r = left \<and>
     mu_type (last (sent_updates b')) = MU_ADD \<and> mu_order_id (last (sent_updates b')) = ord_id r \<and>
     mu_qty (last (sent_updates b')) = q"
proof -
  obtain b' where b': "add c oid s p q b = Inr b'" "abs_book b' = spec_add c oid s p q (abs_book b)"
    using add_ok[OF assms(1-3)] by metis
  have sw: "sweep s p q (ab_orders (abs_book b) (opp s)) = (fs, left, rest)"
    using assms(4) by (simp add: resting_abs)
  let ?r = "spec_order (abs_book b) c oid s p left"
  have "sent_updates b' = ab_updates (spec_add c oid s p q (abs_book b))"
    unfolding b'(2)[symmetric] by simp
  then have "mu_type (last (sent_updates b')) = MU_ADD" "mu_order_id (last (sent_updates b')) = next_order_id b"
    "mu_qty (last (sent_updates b')) = q"
    using assms(5) by (simp_all add: spec_add_fields(4)[OF sw])
  moreover have "resting s (core b') = insert_order s ?r (resting s (core b))"
    using spec_add_fields(3)[OF sw] assms(5) by (simp add: resting_abs[symmetric] b'(2))
  then have "?r \<in> set (resting s (core b'))" by simp
  moreover have "ord_id ?r = next_order_id b" "ord_qty ?r = left" by (simp_all add: spec_order_def abs_book_def)
  ultimately show ?thesis using b'(1) by metis
qed

text \<open>The operations computed on concrete books.\<close>

lemmas me_exec = new_MEOrderBook_def newMemPool_def default_MEOrder_def default_level_def add_def cancel_def
  generateNextOrderId_def sendClientResponse_def sendMarketUpdate_def checkForMatch_def passive_head_def
  limit_excludes_def getPriority_def getOrderAtPrice_def priceToIndex_def allocate_def updateNextFree_def
  first_free.simps AddOrderToPriceLevel_def link_order_def AddOrderAtPrice_def skip_head_def move_cond_def
  load_def update_at_def head_of_def set_head_def in_index_def removeOrder_def unlink_order_def
  removeOrderAtPrice_def deallocate_def match_def size_defs

theorem add_announces_original_quantity_witness:
  "\<exists>b. me_ok b \<and> (\<exists>b' r. add 2 6 SELL 100 15 b = Inr b' \<and> r \<in> set (resting SELL (core b')) \<and>
     ord_id r = next_order_id b \<and> ord_qty r = 5 \<and>
     mu_type (last (sent_updates b')) = MU_ADD \<and> mu_order_id (last (sent_updates b')) = ord_id r \<and>
     mu_qty (last (sent_updates b')) = 15)"
proof -
  have "in_index 1 5" "next_order_id (new_MEOrderBook 3) + 1 \<noteq> 0"
    by (simp_all add: in_index_def size_defs new_MEOrderBook_def)
  with add_ok[OF new_ok admissible_new, of 1 5 BUY 3 100 10]
  obtain b where b: "add 1 5 BUY 100 10 (new_MEOrderBook 3) = Inr b" "me_ok b"
    "abs_book b = spec_add 1 5 BUY 100 10 (abs_book (new_MEOrderBook 3))" by auto
  have ord: "resting t (core b) = ab_orders (spec_add 1 5 BUY 100 10 (abs_book (new_MEOrderBook 3))) t" for t
    by (simp only: b(3)[symmetric] resting_abs)
  have bids: "resting BUY (core b) = [spec_order (abs_book (new_MEOrderBook 3)) 1 5 BUY 100 10]"
    unfolding ord by (simp add: spec_add_def abs_new insert_order_def Let_def)
  have asks: "resting SELL (core b) = []"
    unfolding ord by (simp add: spec_add_def abs_new Let_def)
  have "next_order_id b = ab_next_id (spec_add 1 5 BUY 100 10 (abs_book (new_MEOrderBook 3)))"
    by (simp only: b(3)[symmetric] abs_book_fields)
  then have id: "next_order_id b = 2" by (simp add: spec_add_def abs_new Let_def)
  have adm: "admissible 2 6 SELL 100 (abs_book b)"
    using bids asks by (simp add: admissible_def find_owned_def resting_abs owned_by_def spec_order_def
        room_def level_count_def in_index_def size_defs)
  have "\<exists>fs rest. sweep SELL 100 15 (resting (opp SELL) (core b)) = (fs, 5, rest)"
    by (simp add: bids spec_order_def limit_excludes_def)
  then obtain fs rest where sw: "sweep SELL 100 15 (resting (opp SELL) (core b)) = (fs, 5, rest)" by blast
  have "next_order_id b + 1 \<noteq> 0" by (simp add: id)
  from add_announces_original_quantity[OF b(2) adm this sw] b(2) show ?thesis by auto
qed

text \<open>A client that reuses an order identifier loses its earlier order: one cancel removes the
  later one, the next cancel is rejected, and the earlier order still rests.\<close>

theorem reused_identifier_orphans_order:
  "\<exists>b1 b2 b3 b4. add 1 5 BUY 100 10 (new_MEOrderBook 3) = Inr b1 \<and> add 1 5 BUY 101 20 b1 = Inr b2 \<and>
     cancel 1 5 b2 = Inr b3 \<and> cancel 1 5 b3 = Inr b4 \<and>
     map rs_type (sent_responses b4) = [ACCEPTED, ACCEPTED, CANCELLED, CANCEL_REJECTED] \<and>
     map ord_qty (resting BUY (core b4)) = [10]"
  by (simp add: me_exec Let_def resting_def side_cells_def level_cells_def walk_numeral)

end
