(* ===== verification/SpscQueue.thy ===== *)
theory SpscQueue
  imports Prelude
begin

text \<open>
  \<^verbatim>\<open>include/utils/spsc_queue.hpp\<close>: the single-producer single-consumer queue every
  pair of threads communicates through: the operations as sequential state changes and the
  interface \<open>bounded_fifo\<close> they satisfy while the queue is not filled to the brim. The
  interleavings of two threads are in \<open>QueueThreads\<close>.
\<close>

section \<open>The queue\<close>

record 'a spscQueue =
  store :: "nat \<Rightarrow> 'a"
  store_size :: nat
  next_read_idx :: nat
  next_write_idx :: nat
  num_elements :: nat

definition newQueue :: "'a \<Rightarrow> nat \<Rightarrow> 'a spscQueue" where
  "newQueue v numEl = \<lparr>store = (\<lambda>_. v), store_size = numEl,
     next_read_idx = 0, next_write_idx = 0, num_elements = 0\<rparr>"

text \<open>\<^verbatim>\<open>getNextWrite() = v\<close>: the caller assigns to the reference of the next slot.\<close>

definition setNextWrite :: "'a \<Rightarrow> 'a spscQueue \<Rightarrow> 'a spscQueue" where
  "setNextWrite v q = q\<lparr>store := (store q)(next_write_idx q := v)\<rparr>"

definition updateNextWrite :: "'a spscQueue \<Rightarrow> 'a spscQueue" where
  "updateNextWrite q = q\<lparr>next_write_idx := (next_write_idx q + 1) mod store_size q,
     num_elements := num_elements q + 1\<rparr>"

definition getNextRead :: "'a spscQueue \<Rightarrow> 'a option" where
  "getNextRead q = (if num_elements q = 0 \<or> next_read_idx q = next_write_idx q then None
     else Some (store q (next_read_idx q)))"

definition updateNextRead :: "'a spscQueue \<Rightarrow> 'a spscQueue res" where
  "updateNextRead q =
    (let q' = q\<lparr>next_read_idx := (next_read_idx q + 1) mod store_size q\<rparr> in
     res_bind (ensure (num_elements q \<noteq> 0) AssertFailed) (\<lambda>_.
     Inr (q'\<lparr>num_elements := num_elements q - 1\<rparr>)))"

definition queue_size :: "'a spscQueue \<Rightarrow> nat" where
  "queue_size q = num_elements q"

text \<open>The idiom of every producer of the program.\<close>

definition push :: "'a \<Rightarrow> 'a spscQueue \<Rightarrow> 'a spscQueue" where
  "push v q = updateNextWrite (setNextWrite v q)"

section \<open>Contents and invariant\<close>

definition contents :: "'a spscQueue \<Rightarrow> 'a list" where
  "contents q = map (\<lambda>k. store q ((next_read_idx q + k) mod store_size q)) [0..<num_elements q]"

definition queue_ok :: "'a spscQueue \<Rightarrow> bool" where
  "queue_ok q \<longleftrightarrow> 0 < store_size q \<and> next_read_idx q < store_size q \<and>
     num_elements q \<le> store_size q \<and>
     next_write_idx q = (next_read_idx q + num_elements q) mod store_size q"

lemma length_contents [simp]: "length (contents q) = num_elements q"
  by (simp add: contents_def)

lemma mod_add_inject:
  fixes n :: nat
  assumes "j < n" and "k < n" and "(r + j) mod n = (r + k) mod n"
  shows "j = k"
proof -
  have "int j mod int n = int k mod int n"
    using assms(3) by (metis add_diff_cancel_left' mod_diff_left_eq of_nat_add of_nat_mod)
  then show ?thesis using assms(1,2) by simp
qed

lemma read_eq_write:
  assumes "queue_ok q"
  shows "next_read_idx q = next_write_idx q \<longleftrightarrow> num_elements q = 0 \<or> num_elements q = store_size q"
proof -
  have r: "next_read_idx q < store_size q" and n: "num_elements q \<le> store_size q"
    and w: "next_write_idx q = (next_read_idx q + num_elements q) mod store_size q"
    using assms by (auto simp: queue_ok_def)
  show ?thesis
  proof (cases "num_elements q < store_size q")
    case True
    then have "(next_read_idx q + num_elements q) mod store_size q = (next_read_idx q + 0) mod store_size q
       \<longleftrightarrow> num_elements q = 0"
      using mod_add_inject[OF True, of 0 "next_read_idx q"] by fastforce
    then show ?thesis using True r w by auto
  next
    case False
    then show ?thesis using r w n by auto
  qed
qed

lemma queue_ok_push:
  assumes "queue_ok q" and "num_elements q < store_size q"
  shows "queue_ok (push v q)" and "contents (push v q) = contents q @ [v]"
    and "store_size (push v q) = store_size q" and "num_elements (push v q) = Suc (num_elements q)"
proof -
  have w: "next_write_idx q = (next_read_idx q + num_elements q) mod store_size q"
    using assms by (simp add: queue_ok_def)
  show "queue_ok (push v q)"
    using assms by (auto simp: queue_ok_def push_def updateNextWrite_def setNextWrite_def mod_Suc_eq)
  have "(next_read_idx q + k) mod store_size q \<noteq> next_write_idx q" if "k < num_elements q" for k
    using mod_add_inject[of k "store_size q" "num_elements q" "next_read_idx q"] that assms w by auto
  then show "contents (push v q) = contents q @ [v]"
    by (auto simp: contents_def push_def updateNextWrite_def setNextWrite_def w)
qed (simp_all add: push_def updateNextWrite_def setNextWrite_def)

lemma contents_Cons:
  assumes "queue_ok q" and "num_elements q \<noteq> 0"
  shows "contents q = store q (next_read_idx q) #
     map (\<lambda>k. store q ((next_read_idx q + Suc k) mod store_size q)) [0..<num_elements q - 1]"
proof -
  obtain n where n: "num_elements q = Suc n" using assms(2) by (cases "num_elements q") auto
  have "[0..<Suc n] = 0 # map Suc [0..<n]" by (simp add: map_Suc_upt upt_conv_Cons)
  then show ?thesis using assms(1) n by (simp add: contents_def queue_ok_def comp_def del: upt_Suc)
qed

lemma getNextRead_contents:
  assumes "queue_ok q" and "num_elements q < store_size q"
  shows "getNextRead q = (case contents q of [] \<Rightarrow> None | x # xs \<Rightarrow> Some x)"
proof (cases "num_elements q = 0")
  case True
  then show ?thesis by (simp add: getNextRead_def contents_def)
next
  case False
  then have "next_read_idx q \<noteq> next_write_idx q"
    using read_eq_write[OF assms(1)] assms(2) by auto
  then show ?thesis using contents_Cons[OF assms(1) False] False by (simp add: getNextRead_def)
qed

lemma updateNextRead_contents:
  assumes "queue_ok q" and "contents q \<noteq> []"
  shows "\<exists>q'. updateNextRead q = Inr q' \<and> queue_ok q' \<and> contents q' = tl (contents q) \<and>
    store_size q' = store_size q \<and> num_elements q' = num_elements q - 1"
proof -
  have n: "num_elements q \<noteq> 0" using assms(2) by (auto simp: contents_def)
  let ?q = "q\<lparr>next_read_idx := (next_read_idx q + 1) mod store_size q, num_elements := num_elements q - 1\<rparr>"
  have "updateNextRead q = Inr ?q" using n by (simp add: updateNextRead_def Let_def)
  moreover obtain m where "num_elements q = Suc m" using n by (cases "num_elements q") auto
  then have "queue_ok ?q"
    using assms(1) by (auto simp: queue_ok_def mod_add_left_eq)
  moreover have "contents ?q = tl (contents q)"
    unfolding contents_Cons[OF assms(1) n]
    by (simp add: contents_def mod_add_left_eq flip: add_Suc)
  ultimately show ?thesis by auto
qed

section \<open>The interface\<close>

locale bounded_fifo =
  fixes put :: "'a \<Rightarrow> 'q \<Rightarrow> 'q"
    and front :: "'q \<Rightarrow> 'a option"
    and drop_front :: "'q \<Rightarrow> 'q res"
    and items :: "'q \<Rightarrow> 'a list"
    and cap :: "'q \<Rightarrow> nat"
    and ok :: "'q \<Rightarrow> bool"
  assumes put_items: "ok q \<Longrightarrow> length (items q) + 1 < cap q \<Longrightarrow>
      ok (put v q) \<and> items (put v q) = items q @ [v] \<and> cap (put v q) = cap q"
    and front_items: "ok q \<Longrightarrow> length (items q) < cap q \<Longrightarrow>
      front q = (case items q of [] \<Rightarrow> None | x # xs \<Rightarrow> Some x)"
    and drop_items: "ok q \<Longrightarrow> items q \<noteq> [] \<Longrightarrow>
      \<exists>q'. drop_front q = Inr q' \<and> ok q' \<and> items q' = tl (items q) \<and> cap q' = cap q"
begin

text \<open>A burst of writes is appended in order while it fits.\<close>

lemma put_all:
  "ok q \<Longrightarrow> length (items q) + length vs < cap q \<Longrightarrow>
    ok (fold put vs q) \<and> items (fold put vs q) = items q @ vs \<and> cap (fold put vs q) = cap q"
proof (induction vs arbitrary: q)
  case (Cons v vs)
  then have "ok (put v q) \<and> items (put v q) = items q @ [v] \<and> cap (put v q) = cap q"
    by (intro put_items) auto
  then show ?case using Cons.IH[of "put v q"] Cons.prems by simp
qed simp

text \<open>The read loop of every consumer: look at the front, use it, release it.\<close>

primrec drain :: "nat \<Rightarrow> 'q \<Rightarrow> ('a list \<times> 'q) res" where
  "drain 0 q = Inl Diverged"
| "drain (Suc n) q = (case front q of None \<Rightarrow> Inr ([], q)
     | Some x \<Rightarrow> res_bind (drop_front q) (\<lambda>q'.
                res_bind (drain n q') (\<lambda>(xs, q''). Inr (x # xs, q''))))"

lemma drain_items:
  "ok q \<Longrightarrow> length (items q) < cap q \<Longrightarrow> length (items q) < n \<Longrightarrow>
    \<exists>q'. drain n q = Inr (items q, q') \<and> ok q' \<and> items q' = [] \<and> cap q' = cap q"
proof (induction n arbitrary: q)
  case (Suc n)
  show ?case
  proof (cases "items q")
    case Nil
    then show ?thesis using Suc.prems by (simp add: front_items)
  next
    case (Cons x xs)
    then obtain q' where q': "drop_front q = Inr q'" "ok q'" "items q' = xs" "cap q' = cap q"
      using drop_items[of q] Suc.prems by auto
    then obtain q'' where "drain n q' = Inr (xs, q'')" "ok q''" "items q'' = []" "cap q'' = cap q"
      using Suc.IH[of q'] Suc.prems Cons by auto
    then show ?thesis using Cons q' Suc.prems by (simp add: front_items)
  qed
qed simp

end

interpretation lfq: bounded_fifo push getNextRead updateNextRead contents store_size queue_ok
proof unfold_locales
  fix q :: "'a spscQueue" and v
  assume "queue_ok q" and "length (contents q) + 1 < store_size q"
  then show "queue_ok (push v q) \<and> contents (push v q) = contents q @ [v] \<and>
      store_size (push v q) = store_size q"
    using queue_ok_push[of q v] by simp
next
  fix q :: "'a spscQueue"
  assume "queue_ok q" and "length (contents q) < store_size q"
  then show "getNextRead q = (case contents q of [] \<Rightarrow> None | x # xs \<Rightarrow> Some x)"
    by (simp add: getNextRead_contents)
next
  fix q :: "'a spscQueue"
  assume "queue_ok q" and "contents q \<noteq> []"
  from updateNextRead_contents[OF this]
  show "\<exists>q'. updateNextRead q = Inr q' \<and> queue_ok q' \<and> contents q' = tl (contents q) \<and>
      store_size q' = store_size q"
    by blast
qed

text \<open>Filled to its last slot, the queue hides everything it holds from the reader.\<close>

lemma full_queue_reads_empty:
  assumes "queue_ok q" and "num_elements q = store_size q"
  shows "getNextRead q = None"
  using read_eq_write[OF assms(1)] assms(2) by (simp add: getNextRead_def)

lemma newQueue_ok: "0 < n \<Longrightarrow> queue_ok (newQueue v n)" "contents (newQueue v n) = []"
    "store_size (newQueue v n) = n"
  by (simp_all add: newQueue_def queue_ok_def contents_def)

end
