(* ===== verification/MatchingEngine.thy ===== *)
theory MatchingEngine
  imports ExchangeBook SpscQueue
begin

text \<open>
  \<^verbatim>\<open>src/exchange/matching_engine.cpp\<close>: the thread that takes client requests from
  its queue, hands each to the order book of its ticker and puts the book's responses and market
  updates into two further queues. A book calls \<^verbatim>\<open>sendClientResponse\<close> and
  \<^verbatim>\<open>sendMarketUpdate\<close> while it works; since neither call reads a book, the model
  lets the book collect its messages and moves them into the queues, in the order of the calls,
  when the operation returns.
\<close>

section \<open>The engine\<close>

record engine =
  ticker_order_book :: "nat \<Rightarrow> MEOrderBook"
  incoming_request_queue :: "MEClientRequest spscQueue"
  outcoming_response_queue :: "MEClientResponse spscQueue"
  market_updates_queue :: "MEMarketUpdate spscQueue"

definition new_engine ::
  "MEClientRequest spscQueue \<Rightarrow> MEClientResponse spscQueue \<Rightarrow> MEMarketUpdate spscQueue \<Rightarrow> engine" where
  "new_engine rq rs mu = \<lparr>ticker_order_book = (\<lambda>i. new_MEOrderBook (word_of_nat i)),
     incoming_request_queue = rq, outcoming_response_queue = rs, market_updates_queue = mu\<rparr>"

definition engine_sendClientResponse :: "MEClientResponse \<Rightarrow> engine \<Rightarrow> engine" where
  "engine_sendClientResponse r e = e\<lparr>outcoming_response_queue := push r (outcoming_response_queue e)\<rparr>"

definition engine_sendMarketUpdate :: "MEMarketUpdate \<Rightarrow> engine \<Rightarrow> engine" where
  "engine_sendMarketUpdate u e = e\<lparr>market_updates_queue := push u (market_updates_queue e)\<rparr>"

definition forget_messages :: "MEOrderBook \<Rightarrow> MEOrderBook" where
  "forget_messages b = b\<lparr>sent_responses := [], sent_updates := []\<rparr>"

definition deliver :: "nat \<Rightarrow> MEOrderBook \<Rightarrow> engine \<Rightarrow> engine" where
  "deliver t b e = fold engine_sendMarketUpdate (sent_updates b) (fold engine_sendClientResponse (sent_responses b)
     (e\<lparr>ticker_order_book := (ticker_order_book e)(t := forget_messages b)\<rparr>))"

text \<open>The switch over the request's type. A type byte that is no enumerator matches no case.\<close>

definition dispatch :: "MEClientRequest \<Rightarrow> MEOrderBook \<Rightarrow> MEOrderBook res" where
  "dispatch q b =
    (case rq_type q of
       CRQ_NEW \<Rightarrow> add (rq_client_id q) (rq_order_id q) (rq_side q) (rq_price q) (rq_qty q) b
     | CRQ_CANCEL \<Rightarrow> cancel (rq_client_id q) (rq_order_id q) b
     | CRQ_INVALID \<Rightarrow> Inl FatalExit
     | CRQ_OTHER _ \<Rightarrow> Inr b)"

definition processClientRequest :: "MEClientRequest \<Rightarrow> engine \<Rightarrow> engine res" where
  "processClientRequest q e =
    res_bind (ensure (unat (rq_ticker_id q) < ME_MAX_TICKERS) WildAccess) (\<lambda>_.
    res_bind (dispatch q (ticker_order_book e (unat (rq_ticker_id q)))) (\<lambda>b.
    Inr (deliver (unat (rq_ticker_id q)) b e)))"

text \<open>One iteration of the loop of \<^verbatim>\<open>run\<close>, and a number of them.\<close>

definition engine_poll :: "engine \<Rightarrow> engine res" where
  "engine_poll e =
    (case getNextRead (incoming_request_queue e) of
       None \<Rightarrow> Inr e
     | Some q \<Rightarrow>
         res_bind (processClientRequest q e) (\<lambda>e.
         res_bind (updateNextRead (incoming_request_queue e)) (\<lambda>rq.
         Inr (e\<lparr>incoming_request_queue := rq\<rparr>))))"

primrec engine_run :: "nat \<Rightarrow> engine \<Rightarrow> engine res" where
  "engine_run 0 e = Inr e"
| "engine_run (Suc n) e = res_bind (engine_poll e) (engine_run n)"

section \<open>Delivery\<close>

lemma fold_responses: "fold engine_sendClientResponse rs e =
    e\<lparr>outcoming_response_queue := fold push rs (outcoming_response_queue e)\<rparr>"
  by (induction rs arbitrary: e) (simp_all add: engine_sendClientResponse_def)

lemma fold_updates: "fold engine_sendMarketUpdate us e =
    e\<lparr>market_updates_queue := fold push us (market_updates_queue e)\<rparr>"
  by (induction us arbitrary: e) (simp_all add: engine_sendMarketUpdate_def)

lemma deliver_fields [simp]:
  "ticker_order_book (deliver t b e) = (ticker_order_book e)(t := forget_messages b)"
  "incoming_request_queue (deliver t b e) = incoming_request_queue e"
  "outcoming_response_queue (deliver t b e) = fold push (sent_responses b) (outcoming_response_queue e)"
  "market_updates_queue (deliver t b e) = fold push (sent_updates b) (market_updates_queue e)"
  by (simp_all add: deliver_def fold_responses fold_updates)

lemma processed:
  assumes "processClientRequest q e = Inr e'"
  obtains b where "unat (rq_ticker_id q) < ME_MAX_TICKERS"
    and "dispatch q (ticker_order_book e (unat (rq_ticker_id q))) = Inr b"
    and "e' = deliver (unat (rq_ticker_id q)) b e"
  using assms by (auto simp: processClientRequest_def res_bind_eq_Inr)

section \<open>Good engines\<close>

text \<open>Between requests every book is good, knows its ticker and holds no message back.\<close>

definition slot_ok :: "engine \<Rightarrow> nat \<Rightarrow> bool" where
  "slot_ok e t \<longleftrightarrow> me_ok (ticker_order_book e t) \<and> ticker (ticker_order_book e t) = word_of_nat t \<and>
     sent_responses (ticker_order_book e t) = [] \<and> sent_updates (ticker_order_book e t) = []"

definition engine_ok :: "engine \<Rightarrow> bool" where
  "engine_ok e \<longleftrightarrow> (\<forall>t < ME_MAX_TICKERS. slot_ok e t)"

text \<open>The requests the engine can serve: a ticker it has, a type it knows, and for a new order
  what the book requires.\<close>

definition servable :: "MEClientRequest \<Rightarrow> engine \<Rightarrow> bool" where
  "servable q e \<longleftrightarrow> unat (rq_ticker_id q) < ME_MAX_TICKERS \<and> rq_type q \<noteq> CRQ_INVALID \<and>
     (let b = ticker_order_book e (unat (rq_ticker_id q)) in
      rq_type q = CRQ_NEW \<longrightarrow> next_order_id b + 1 \<noteq> 0 \<and>
        admissible (rq_client_id q) (rq_order_id q) (rq_side q) (rq_price q) (abs_book b))"

lemma me_ok_forget: "me_ok b \<Longrightarrow> me_ok (forget_messages b)"
  by (auto simp: me_ok_def me_rep_def pre_rep_def forget_messages_def book_wf_def abs_book_def)

lemma add_ticker:
  assumes "abs_book b' = spec_add c oid s p q (abs_book b)"
  shows "ticker b' = ticker b"
proof -
  have "ab_ticker (abs_book b') = ab_ticker (abs_book b)"
    unfolding assms by (cases "sweep s p q (ab_orders (abs_book b) (opp s))") (simp add: spec_add_fields(1))
  then show ?thesis by simp
qed

lemma cancel_ticker:
  assumes "abs_book b' = spec_cancel c oid (abs_book b)"
  shows "ticker b' = ticker b"
proof -
  have "ab_ticker (abs_book b') = ab_ticker (abs_book b)"
    unfolding assms by (simp add: spec_cancel_def split: option.split)
  then show ?thesis by simp
qed

lemma dispatch_ok:
  assumes ok: "me_ok b" and ty: "rq_type q \<noteq> CRQ_INVALID"
    and new: "rq_type q = CRQ_NEW \<longrightarrow> next_order_id b + 1 \<noteq> 0 \<and>
        admissible (rq_client_id q) (rq_order_id q) (rq_side q) (rq_price q) (abs_book b)"
  obtains b' where "dispatch q b = Inr b'" and "me_ok b'" and "ticker b' = ticker b"
proof (cases "rq_type q")
  case CRQ_NEW
  then obtain b' where "add (rq_client_id q) (rq_order_id q) (rq_side q) (rq_price q) (rq_qty q) b = Inr b'"
    "me_ok b'" "abs_book b' = spec_add (rq_client_id q) (rq_order_id q) (rq_side q) (rq_price q) (rq_qty q) (abs_book b)"
    using add_ok[OF ok] new by metis
  then show ?thesis using that CRQ_NEW add_ticker by (simp add: dispatch_def)
next
  case CRQ_CANCEL
  obtain b' where "cancel (rq_client_id q) (rq_order_id q) b = Inr b'" "me_ok b'"
    "abs_book b' = spec_cancel (rq_client_id q) (rq_order_id q) (abs_book b)"
    using cancel_ok[OF ok] by metis
  then show ?thesis using that CRQ_CANCEL cancel_ticker by (simp add: dispatch_def)
qed (use that ok ty in \<open>simp_all add: dispatch_def\<close>)

text \<open>A servable request never stops the engine, leaves every book good, and touches the book
  of its ticker only.\<close>

theorem engine_serves_request:
  assumes "engine_ok e" and "servable q e"
  shows "\<exists>e'. processClientRequest q e = Inr e' \<and> engine_ok e' \<and>
     (\<forall>t. t \<noteq> unat (rq_ticker_id q) \<longrightarrow> ticker_order_book e' t = ticker_order_book e t)"
proof -
  let ?t = "unat (rq_ticker_id q)" and ?b = "ticker_order_book e (unat (rq_ticker_id q))"
  have t: "?t < ME_MAX_TICKERS" and ty: "rq_type q \<noteq> CRQ_INVALID"
    and new: "rq_type q = CRQ_NEW \<longrightarrow> next_order_id ?b + 1 \<noteq> 0 \<and>
        admissible (rq_client_id q) (rq_order_id q) (rq_side q) (rq_price q) (abs_book ?b)"
    using assms(2) by (auto simp: servable_def Let_def)
  have slot: "slot_ok e ?t" using assms(1) t by (simp add: engine_ok_def)
  then obtain b' where b': "dispatch q ?b = Inr b'" "me_ok b'" "ticker b' = ticker ?b"
    using dispatch_ok[OF _ ty new] by (auto simp: slot_ok_def)
  have "processClientRequest q e = Inr (deliver ?t b' e)"
    using t b'(1) by (simp add: processClientRequest_def)
  moreover have "engine_ok (deliver ?t b' e)"
    using assms(1) slot b' me_ok_forget[OF b'(2)] by (auto simp: engine_ok_def slot_ok_def forget_messages_def)
  ultimately show ?thesis by auto
qed

lemma new_engine_ok: "engine_ok (new_engine rq rs mu)"
  by (auto simp: engine_ok_def slot_ok_def new_engine_def new_ok) (simp_all add: new_MEOrderBook_def)

text \<open>The queues of \<^verbatim>\<open>exchange_main.cpp\<close>.\<close>

definition exchange_engine :: engine where
  "exchange_engine = new_engine (newQueue default_request ME_MAX_CLIENTS_UPDATES)
     (newQueue default_response ME_MAX_CLIENTS_UPDATES) (newQueue default_update ME_MAX_MARKET_UPDATES)"

lemma exchange_engine_ok: "engine_ok exchange_engine"
  by (simp add: exchange_engine_def new_engine_ok)

lemma exchange_engine_queues:
  "outcoming_response_queue exchange_engine = newQueue default_response ME_MAX_CLIENTS_UPDATES"
  by (simp add: exchange_engine_def new_engine_def)

definition sample_request :: MEClientRequest where
  "sample_request = \<lparr>rq_type = CRQ_NEW, rq_client_id = 1, rq_ticker_id = 3, rq_order_id = 5, rq_side = BUY,
     rq_price = 100, rq_qty = 10\<rparr>"

lemma sample_servable: "servable sample_request exchange_engine"
  by (simp add: servable_def sample_request_def exchange_engine_def new_engine_def admissible_new in_index_def
      size_defs Let_def) (simp add: new_MEOrderBook_def)

theorem engine_serves_request_witness:
  "\<exists>e'. processClientRequest sample_request exchange_engine = Inr e' \<and> engine_ok e' \<and>
     (\<forall>t. t \<noteq> unat (rq_ticker_id sample_request) \<longrightarrow> ticker_order_book e' t = ticker_order_book exchange_engine t)"
  by (rule engine_serves_request[OF exchange_engine_ok sample_servable])

section \<open>Order of service\<close>

abbreviation process_all :: "MEClientRequest list \<Rightarrow> engine \<Rightarrow> engine res" where
  "process_all \<equiv> res_fold processClientRequest"

lemma process_keeps_queue:
  "processClientRequest q e = Inr e' \<Longrightarrow> incoming_request_queue e' = incoming_request_queue e"
  by (erule processed) simp

lemma process_ignores_queue:
  assumes "processClientRequest q e = Inr e'"
  shows "processClientRequest q (e\<lparr>incoming_request_queue := rq\<rparr>) = Inr (e'\<lparr>incoming_request_queue := rq\<rparr>)"
proof -
  have d: "deliver t b (e\<lparr>incoming_request_queue := rq\<rparr>) = (deliver t b e)\<lparr>incoming_request_queue := rq\<rparr>" for t b
    by (rule engine.equality) simp_all
  from assms show ?thesis by (rule processed) (simp add: processClientRequest_def d)
qed

lemma process_all_ignores_queue:
  "process_all qs e = Inr e' \<Longrightarrow>
   process_all qs (e\<lparr>incoming_request_queue := rq\<rparr>) = Inr (e'\<lparr>incoming_request_queue := rq\<rparr>)"
proof (induction qs arbitrary: e)
  case (Cons q qs)
  then obtain e1 where "processClientRequest q e = Inr e1" "process_all qs e1 = Inr e'"
    by (auto simp: res_bind_eq_Inr)
  then show ?case using Cons.IH process_ignores_queue by simp
qed simp

text \<open>C11: the engine serves the queued requests first in, first out: polling once per queued
  request does what processing them in that order does, and leaves the queue empty.\<close>

theorem engine_serves_in_order:
  assumes "queue_ok (incoming_request_queue e)"
    and "length (contents (incoming_request_queue e)) < store_size (incoming_request_queue e)"
    and "process_all (contents (incoming_request_queue e)) e = Inr e'"
  shows "\<exists>rq. engine_run (length (contents (incoming_request_queue e))) e = Inr (e'\<lparr>incoming_request_queue := rq\<rparr>) \<and>
     queue_ok rq \<and> contents rq = []"
  using assms
proof (induction "contents (incoming_request_queue e)" arbitrary: e e')
  case Nil
  then have "e' = e" by simp
  then have "e = e'\<lparr>incoming_request_queue := incoming_request_queue e\<rparr>" by simp
  then show ?case using Nil by (metis engine_run.simps(1) list.size(3))
next
  case (Cons q qs)
  let ?rq = "incoming_request_queue e"
  have read: "getNextRead ?rq = Some q"
    using lfq.front_items[OF Cons.prems(1,2)] Cons.hyps(2) by (simp split: list.splits)
  obtain e1 where e1: "processClientRequest q e = Inr e1" "process_all qs e1 = Inr e'"
    using Cons.prems(3) by (auto simp: Cons.hyps(2)[symmetric] res_bind_eq_Inr)
  have "contents ?rq \<noteq> []" using Cons.hyps(2) by auto
  from lfq.drop_items[OF Cons.prems(1) this] obtain rq where rq: "updateNextRead ?rq = Inr rq" "queue_ok rq"
    "contents rq = qs" "store_size rq = store_size ?rq" using Cons.hyps(2) by (metis list.sel(3))
  let ?e = "e1\<lparr>incoming_request_queue := rq\<rparr>"
  have poll: "engine_poll e = Inr ?e"
    using read e1(1) rq(1) process_keeps_queue[OF e1(1)] by (simp add: engine_poll_def)
  have "\<exists>rq'. engine_run (length (contents (incoming_request_queue ?e))) ?e =
      Inr ((e'\<lparr>incoming_request_queue := rq\<rparr>)\<lparr>incoming_request_queue := rq'\<rparr>) \<and> queue_ok rq' \<and> contents rq' = []"
  proof (rule Cons.hyps(1))
    show "process_all (contents (incoming_request_queue ?e)) ?e = Inr (e'\<lparr>incoming_request_queue := rq\<rparr>)"
      using process_all_ignores_queue[OF e1(2)] rq(3) by simp
  qed (use rq Cons.prems(2) Cons.hyps(2)[symmetric] in simp_all)
  then show ?case using poll rq(3) by (simp add: Cons.hyps(2)[symmetric])
qed

lemma newQueue_push:
  assumes "1 < n"
  shows "queue_ok (push v (newQueue d n))" and "contents (push v (newQueue d n)) = [v]"
    and "store_size (push v (newQueue d n)) = n"
  using lfq.put_items[of "newQueue d n" v] assms by (simp_all add: newQueue_ok)

theorem engine_serves_in_order_witness:
  "\<exists>e e' rq. contents (incoming_request_queue e) = [sample_request] \<and>
     engine_run (length (contents (incoming_request_queue e))) e = Inr (e'\<lparr>incoming_request_queue := rq\<rparr>) \<and>
     queue_ok rq \<and> contents rq = []"
proof -
  let ?rq = "push sample_request (newQueue default_request ME_MAX_CLIENTS_UPDATES)"
  let ?e = "exchange_engine\<lparr>incoming_request_queue := ?rq\<rparr>"
  have n: "1 < ME_MAX_CLIENTS_UPDATES" by (simp add: size_defs)
  obtain e' where "processClientRequest sample_request exchange_engine = Inr e'"
    using engine_serves_request_witness by blast
  then have p: "process_all (contents (incoming_request_queue ?e)) ?e = Inr (e'\<lparr>incoming_request_queue := ?rq\<rparr>)"
    using process_ignores_queue by (simp add: newQueue_push[OF n])
  have "queue_ok (incoming_request_queue ?e)"
    "length (contents (incoming_request_queue ?e)) < store_size (incoming_request_queue ?e)"
    using n newQueue_push(1)[OF n] by (simp_all add: newQueue_push(2,3)[OF n] del: length_contents)
  from engine_serves_in_order[OF this p] show ?thesis
    using newQueue_push(2)[OF n, of sample_request default_request]
    by (intro exI[of _ ?e] exI[of _ "e'\<lparr>incoming_request_queue := ?rq\<rparr>"]) simp
qed

section \<open>Independence of tickers\<close>

text \<open>The requests of one ticker applied to one book.\<close>

definition book_serve :: "MEClientRequest \<Rightarrow> MEOrderBook \<Rightarrow> MEOrderBook res" where
  "book_serve q b = res_bind (dispatch q b) (\<lambda>b. Inr (forget_messages b))"

abbreviation book_all :: "MEClientRequest list \<Rightarrow> MEOrderBook \<Rightarrow> MEOrderBook res" where
  "book_all \<equiv> res_fold book_serve"

text \<open>C31: interleaving does not matter: after any sequence of requests each book is what its own
  ticker's requests alone, in their order, make of it.\<close>

theorem tickers_independent:
  assumes "process_all qs e = Inr e'"
  shows "book_all (filter (\<lambda>q. unat (rq_ticker_id q) = t) qs) (ticker_order_book e t) =
    Inr (ticker_order_book e' t)"
  using assms
proof (induction qs arbitrary: e)
  case (Cons q qs)
  then obtain e1 where e1: "processClientRequest q e = Inr e1" "process_all qs e1 = Inr e'"
    by (auto simp: res_bind_eq_Inr)
  from e1(1) obtain b where "dispatch q (ticker_order_book e (unat (rq_ticker_id q))) = Inr b"
    "e1 = deliver (unat (rq_ticker_id q)) b e" by (rule processed)
  then show ?case using Cons.IH[OF e1(2)] by (auto simp: book_serve_def)
qed simp

theorem tickers_independent_witness:
  "\<exists>e' :: engine. book_all (filter (\<lambda>q. unat (rq_ticker_id q) = 3) [sample_request]) (ticker_order_book exchange_engine 3) =
     Inr (ticker_order_book e' 3)"
proof -
  obtain e' where "process_all [sample_request] exchange_engine = Inr e'"
    using engine_serves_request_witness by auto
  then show ?thesis by (intro exI) (rule tickers_independent)
qed

section \<open>Answers\<close>

text \<open>A cancel request is answered by exactly one response, to the requesting client and about
  the order it named, appended to what the response queue holds.\<close>

theorem cancel_answered_once:
  assumes "engine_ok e" and "unat (rq_ticker_id q) < ME_MAX_TICKERS" and "rq_type q = CRQ_CANCEL"
    and "queue_ok (outcoming_response_queue e)"
    and "length (contents (outcoming_response_queue e)) + 1 < store_size (outcoming_response_queue e)"
  shows "\<exists>e' r. processClientRequest q e = Inr e' \<and>
     contents (outcoming_response_queue e') = contents (outcoming_response_queue e) @ [r] \<and>
     rs_client_id r = rq_client_id q \<and> rs_client_order_id r = rq_order_id q \<and>
     (rs_type r = CANCELLED \<or> rs_type r = CANCEL_REJECTED)"
proof -
  let ?b = "ticker_order_book e (unat (rq_ticker_id q))"
  have slot: "me_ok ?b" "sent_responses ?b = []" using assms(1,2) by (simp_all add: engine_ok_def slot_ok_def)
  obtain b' where b': "cancel (rq_client_id q) (rq_order_id q) ?b = Inr b'"
    "abs_book b' = spec_cancel (rq_client_id q) (rq_order_id q) (abs_book ?b)"
    using cancel_ok[OF slot(1)] by metis
  have "sent_responses b' = ab_responses (spec_cancel (rq_client_id q) (rq_order_id q) (abs_book ?b))"
    unfolding b'(2)[symmetric] by simp
  then obtain r where r: "sent_responses b' = [r]" "rs_client_id r = rq_client_id q"
    "rs_client_order_id r = rq_order_id q" "rs_type r = CANCELLED \<or> rs_type r = CANCEL_REJECTED"
    using slot(2) by (auto simp: spec_cancel_def split: option.splits)
  have "processClientRequest q e = Inr (deliver (unat (rq_ticker_id q)) b' e)"
    using assms(2,3) b'(1) by (simp add: processClientRequest_def dispatch_def)
  then show ?thesis using r lfq.put_items[OF assms(4,5)] by auto
qed

theorem cancel_answered_once_witness:
  "\<exists>e' r. processClientRequest (sample_request\<lparr>rq_type := CRQ_CANCEL\<rparr>) exchange_engine = Inr e' \<and>
     contents (outcoming_response_queue e') = contents (outcoming_response_queue exchange_engine) @ [r] \<and>
     rs_client_id r = rq_client_id (sample_request\<lparr>rq_type := CRQ_CANCEL\<rparr>) \<and>
     rs_client_order_id r = rq_order_id (sample_request\<lparr>rq_type := CRQ_CANCEL\<rparr>) \<and>
     (rs_type r = CANCELLED \<or> rs_type r = CANCEL_REJECTED)"
  by (rule cancel_answered_once[OF exchange_engine_ok])
    (simp_all add: exchange_engine_queues newQueue_ok size_defs sample_request_def del: length_contents)

text \<open>A request for a ticker the engine does not have leaves the array of books.\<close>

lemma unknown_ticker_wild:
  "ME_MAX_TICKERS \<le> unat (rq_ticker_id q) \<Longrightarrow> processClientRequest q e = Inl WildAccess"
  by (simp add: processClientRequest_def)

end
