(* ===== verification/Wire.thy ===== *)
theory Wire
  imports Messages
begin

text \<open>
  The packed structures on the wire. The components send a structure by copying its bytes and
  receive it by a \<^verbatim>\<open>reinterpret_cast\<close> of the receive buffer; with
  \<^verbatim>\<open>__attribute__((packed))\<close> the bytes are the members in order, without padding, and
  on the little-endian hosts the program is built for an integer is its bytes from the lowest
  on. \<open>decode\<close> after \<open>encode\<close> is the identity, and every buffer of the structure's size
  decodes.
\<close>

section \<open>Integers as bytes\<close>

primrec put_le :: "nat \<Rightarrow> nat \<Rightarrow> u8 list" where
  "put_le 0 n = []"
| "put_le (Suc k) n = word_of_nat n # put_le k (n div 256)"

primrec get_le :: "u8 list \<Rightarrow> nat" where
  "get_le [] = 0"
| "get_le (b # bs) = unat b + 256 * get_le bs"

lemma length_put_le [simp]: "length (put_le k n) = k"
  by (induction k arbitrary: n) simp_all

lemma get_put_le: "get_le (put_le k n) = n mod 256 ^ k"
proof (induction k arbitrary: n)
  case (Suc k)
  have "get_le (put_le (Suc k) n) = n mod 256 + 256 * (n div 256 mod 256 ^ k)"
    using Suc.IH by (simp add: unat_of_nat)
  also have "\<dots> = n mod (256 * 256 ^ k)"
    using mod_mult2_eq[of n 256 "256 ^ k"] by simp
  finally show ?case by simp
qed simp

lemma put_get_le: "put_le (length bs) (get_le bs) = bs"
proof (induction bs)
  case (Cons b bs)
  have "unat b < 256" using unat_bound[of b] by simp
  then have "(unat b + 256 * get_le bs) div 256 = get_le bs" by simp
  moreover have "(word_of_nat (unat b + 256 * get_le bs) :: u8) = b"
  proof -
    have m: "unat (word_of_nat n :: u8) = n mod 256" for n by (simp add: unat_of_nat)
    show ?thesis unfolding word_unat_eq_iff m using unat_bound[of b] by simp
  qed
  ultimately show ?case using Cons.IH by simp
qed simp

lemma get_le_bound: "get_le bs < 256 ^ length bs"
proof (induction bs)
  case (Cons b bs)
  have "unat b < 256" using unat_bound[of b] by simp
  moreover have "get_le bs + 1 \<le> 256 ^ length bs" using Cons.IH by simp
  then have "256 * (get_le bs + 1) \<le> 256 * 256 ^ length bs" by simp
  ultimately show ?case by simp
qed simp

definition put32 :: "u32 \<Rightarrow> u8 list" where "put32 w = put_le 4 (unat w)"
definition put64 :: "u64 \<Rightarrow> u8 list" where "put64 w = put_le 8 (unat w)"

definition get32 :: "nat \<Rightarrow> u8 list \<Rightarrow> u32" where
  "get32 off bs = word_of_nat (get_le (take 4 (drop off bs)))"

definition get64 :: "nat \<Rightarrow> u8 list \<Rightarrow> u64" where
  "get64 off bs = word_of_nat (get_le (take 8 (drop off bs)))"

lemma length_put [simp]: "length (put32 a) = 4" "length (put64 b) = 8"
  by (simp_all add: put32_def put64_def)

lemma get_put32: "(word_of_nat (get_le (put32 w)) :: u32) = w"
proof -
  have "unat w < 256 ^ 4" using unat_bound[of w] by simp
  then show ?thesis by (simp add: put32_def get_put_le)
qed

lemma get_put64: "(word_of_nat (get_le (put64 w)) :: u64) = w"
proof -
  have "unat w < 256 ^ 8" using unat_bound[of w] by simp
  then show ?thesis by (simp add: put64_def get_put_le)
qed

lemma get32_at: "length xs = off \<Longrightarrow> get32 off (xs @ put32 w @ ys) = w"
  by (simp add: get32_def get_put32)

lemma get64_at: "length xs = off \<Longrightarrow> get64 off (xs @ put64 w @ ys) = w"
  by (simp add: get64_def get_put64)

section \<open>Enumerations as bytes\<close>

fun rq_byte :: "ClientRequestType \<Rightarrow> u8" where
  "rq_byte CRQ_INVALID = 0" | "rq_byte CRQ_NEW = 1" | "rq_byte CRQ_CANCEL = 2" | "rq_byte (CRQ_OTHER b) = b"

definition byte_rq :: "u8 \<Rightarrow> ClientRequestType" where
  "byte_rq b = (if b = 0 then CRQ_INVALID else if b = 1 then CRQ_NEW else if b = 2 then CRQ_CANCEL
     else CRQ_OTHER b)"

fun rs_byte :: "ClientResponseType \<Rightarrow> u8" where
  "rs_byte CRS_INVALID = 0" | "rs_byte ACCEPTED = 1" | "rs_byte CANCELLED = 2" | "rs_byte FILLED = 3"
| "rs_byte CANCEL_REJECTED = 5" | "rs_byte (CRS_OTHER b) = b"

definition byte_rs :: "u8 \<Rightarrow> ClientResponseType" where
  "byte_rs b = (if b = 0 then CRS_INVALID else if b = 1 then ACCEPTED else if b = 2 then CANCELLED
     else if b = 3 then FILLED else if b = 5 then CANCEL_REJECTED else CRS_OTHER b)"

fun mu_byte :: "MarketUpdateType \<Rightarrow> u8" where
  "mu_byte MU_INVALID = 0" | "mu_byte MU_ADD = 1" | "mu_byte MU_MODIFY = 2" | "mu_byte MU_CANCEL = 3"
| "mu_byte MU_TRADE = 4" | "mu_byte MU_CLEAR = 5" | "mu_byte SNAPSHOT_START = 6" | "mu_byte SNAPSHOT_END = 7"
| "mu_byte (MU_OTHER b) = b"

definition byte_mu :: "u8 \<Rightarrow> MarketUpdateType" where
  "byte_mu b = (if b = 0 then MU_INVALID else if b = 1 then MU_ADD else if b = 2 then MU_MODIFY
     else if b = 3 then MU_CANCEL else if b = 4 then MU_TRADE else if b = 5 then MU_CLEAR
     else if b = 6 then SNAPSHOT_START else if b = 7 then SNAPSHOT_END else MU_OTHER b)"

lemma byte_types [simp]: "rq_byte (byte_rq b) = b" "rs_byte (byte_rs b) = b" "mu_byte (byte_mu b) = b"
  by (simp_all add: byte_rq_def byte_rs_def byte_mu_def)

section \<open>Client requests\<close>

definition encode_me_request :: "MEClientRequest \<Rightarrow> u8 list" where
  "encode_me_request q = [rq_byte (rq_type q)] @ put32 (rq_client_id q) @ put32 (rq_ticker_id q) @
     put64 (rq_order_id q) @ [side_byte (rq_side q)] @ put64 (rq_price q) @ put32 (rq_qty q)"

definition encode_request :: "OGClientRequest \<Rightarrow> u8 list" where
  "encode_request r = put64 (ogrq_seq_num r) @ encode_me_request (ogrq_request r)"

definition decode_request :: "u8 list \<Rightarrow> OGClientRequest" where
  "decode_request bs = \<lparr>ogrq_seq_num = get64 0 bs, ogrq_request =
     \<lparr>rq_type = byte_rq (bs ! 8), rq_client_id = get32 9 bs, rq_ticker_id = get32 13 bs,
      rq_order_id = get64 17 bs, rq_side = byte_side (bs ! 25), rq_price = get64 26 bs, rq_qty = get32 34 bs\<rparr>\<rparr>"

definition request_size :: nat where "request_size = 38"

text \<open>Requests whose enumerations hold enumerators, or bytes that are none.\<close>

definition request_wf :: "MEClientRequest \<Rightarrow> bool" where
  "request_wf q \<longleftrightarrow> byte_rq (rq_byte (rq_type q)) = rq_type q \<and> byte_side (side_byte (rq_side q)) = rq_side q"

lemma length_encode_request [simp]: "length (encode_request r) = request_size"
  by (simp add: encode_request_def encode_me_request_def request_size_def)

lemmas field_simps_at = get32_def get64_def get_put32 get_put64 nth_append

lemma decode_encode_request:
  "request_wf (ogrq_request r) \<Longrightarrow> decode_request (encode_request r @ ys) = r"
  by (simp add: decode_request_def encode_request_def encode_me_request_def request_wf_def field_simps_at)

section \<open>Client responses\<close>

definition encode_me_response :: "MEClientResponse \<Rightarrow> u8 list" where
  "encode_me_response q = [rs_byte (rs_type q)] @ put32 (rs_client_id q) @ put32 (rs_ticker_id q) @
     put64 (rs_client_order_id q) @ put64 (rs_market_order_id q) @ [side_byte (rs_side q)] @
     put64 (rs_price q) @ put32 (rs_exec_qty q) @ put32 (rs_left_qty q)"

definition encode_response :: "OGClientResponse \<Rightarrow> u8 list" where
  "encode_response r = put64 (ogrs_seq_num r) @ encode_me_response (ogrs_response r)"

definition decode_response :: "u8 list \<Rightarrow> OGClientResponse" where
  "decode_response bs = \<lparr>ogrs_seq_num = get64 0 bs, ogrs_response =
     \<lparr>rs_type = byte_rs (bs ! 8), rs_client_id = get32 9 bs, rs_ticker_id = get32 13 bs,
      rs_client_order_id = get64 17 bs, rs_market_order_id = get64 25 bs, rs_side = byte_side (bs ! 33),
      rs_price = get64 34 bs, rs_exec_qty = get32 42 bs, rs_left_qty = get32 46 bs\<rparr>\<rparr>"

definition response_size :: nat where "response_size = 50"

definition response_wf :: "MEClientResponse \<Rightarrow> bool" where
  "response_wf q \<longleftrightarrow> byte_rs (rs_byte (rs_type q)) = rs_type q \<and> byte_side (side_byte (rs_side q)) = rs_side q"

lemma length_encode_response [simp]: "length (encode_response r) = response_size"
  by (simp add: encode_response_def encode_me_response_def response_size_def)

lemma decode_encode_response:
  "response_wf (ogrs_response r) \<Longrightarrow> decode_response (encode_response r @ ys) = r"
  by (simp add: decode_response_def encode_response_def encode_me_response_def response_wf_def field_simps_at)

section \<open>Market updates\<close>

definition encode_me_update :: "MEMarketUpdate \<Rightarrow> u8 list" where
  "encode_me_update q = [mu_byte (mu_type q)] @ put64 (mu_order_id q) @ put32 (mu_ticker_id q) @
     [side_byte (mu_side q)] @ put64 (mu_price q) @ put32 (mu_qty q) @ put64 (mu_priority q)"

definition encode_update :: "MDPMarketUpdate \<Rightarrow> u8 list" where
  "encode_update u = put64 (mdp_seq_num u) @ encode_me_update (mdp_update u)"

definition decode_update :: "u8 list \<Rightarrow> MDPMarketUpdate" where
  "decode_update bs = \<lparr>mdp_seq_num = get64 0 bs, mdp_update =
     \<lparr>mu_type = byte_mu (bs ! 8), mu_order_id = get64 9 bs, mu_ticker_id = get32 17 bs,
      mu_side = byte_side (bs ! 21), mu_price = get64 22 bs, mu_qty = get32 30 bs, mu_priority = get64 34 bs\<rparr>\<rparr>"

definition update_size :: nat where "update_size = 42"

definition update_wf :: "MEMarketUpdate \<Rightarrow> bool" where
  "update_wf q \<longleftrightarrow> byte_mu (mu_byte (mu_type q)) = mu_type q \<and> byte_side (side_byte (mu_side q)) = mu_side q"

lemma length_encode_update [simp]: "length (encode_update r) = update_size"
  by (simp add: encode_update_def encode_me_update_def update_size_def)

lemma decode_encode_update:
  "update_wf (mdp_update u) \<Longrightarrow> decode_update (encode_update u @ ys) = u"
  by (simp add: decode_update_def encode_update_def encode_me_update_def update_wf_def field_simps_at)

end
