(* ===== verification/Framing.thy ===== *)
theory Framing
  imports Wire
begin

text \<open>
  Reading fixed-size structures out of a byte stream: the loop that the order server, the order
  gateway and the market data consumer share, which consumes whole structures from the front of
  the receive buffer and keeps the rest for the next read. The locale \<open>framed\<close> states what a
  packed structure promises and proves once that a stream is read back as it was written,
  however the network cuts it.
\<close>

section \<open>The loop\<close>

text \<open>\<open>step\<close> is what the caller does with one structure; the result is the unread rest of the
  buffer with the caller's state.\<close>

function read_frames ::
  "nat \<Rightarrow> (u8 list \<Rightarrow> 's \<Rightarrow> 's res) \<Rightarrow> u8 list \<Rightarrow> 's \<Rightarrow> (u8 list \<times> 's) res" where
  "read_frames n step buf s =
    (if length buf < n \<or> n = 0 then Inr (buf, s)
     else res_bind (step (take n buf) s) (read_frames n step (drop n buf)))"
  by pat_completeness auto
termination by (relation "measure (\<lambda>(n, step, buf, s). length buf)") auto

declare read_frames.simps [simp del]

lemma read_frames_short [simp]: "length buf < n \<Longrightarrow> read_frames n step buf s = Inr (buf, s)"
  by (simp add: read_frames.simps)

lemma read_frames_step:
  "length f = n \<Longrightarrow> 0 < n \<Longrightarrow>
     read_frames n step (f @ buf) s = res_bind (step f s) (read_frames n step buf)"
  by (subst read_frames.simps) (cases "step f s"; simp)

text \<open>Where the network cuts the stream does not matter: reading what has arrived and then the
  rest is reading everything at once.\<close>

lemma read_frames_split:
  "read_frames n step (a @ b) s = res_bind (read_frames n step a s) (\<lambda>(rest, s). read_frames n step (rest @ b) s)"
proof (induction n step a s rule: read_frames.induct)
  case (1 n step a s)
  show ?case
  proof (cases "length a < n \<or> n = 0")
    case True
    then have "read_frames n step a s = Inr (a, s)" by (simp add: read_frames.simps)
    then show ?thesis by simp
  next
    case False
    then have n: "length (take n a) = n" "0 < n" by auto
    have "read_frames n step (take n a @ (drop n a @ b)) s =
        res_bind (step (take n a) s) (read_frames n step (drop n a @ b))"
      using n by (rule read_frames_step)
    also have "\<dots> = res_bind (step (take n a) s) (\<lambda>s. res_bind (read_frames n step (drop n a) s)
        (\<lambda>(rest, s). read_frames n step (rest @ b) s))"
      using "1.IH"[OF False] by (cases "step (take n a) s") simp_all
    also have "\<dots> = res_bind (read_frames n step (take n a @ drop n a) s) (\<lambda>(rest, s). read_frames n step (rest @ b) s)"
      unfolding read_frames_step[OF n] by (simp add: res_bind_assoc)
    finally show ?thesis by (metis append_assoc append_take_drop_id)
  qed
qed

section \<open>Packed structures\<close>

locale framed =
  fixes enc :: "'m \<Rightarrow> u8 list" and dec :: "u8 list \<Rightarrow> 'm" and size :: nat and wf :: "'m \<Rightarrow> bool"
  assumes size_pos: "0 < size"
    and enc_length: "length (enc m) = size"
    and dec_enc: "wf m \<Longrightarrow> dec (enc m) = m"
begin

definition stream :: "'m list \<Rightarrow> u8 list" where
  "stream ms = concat (map enc ms)"

lemma stream_simps [simp]: "stream [] = []" "stream (m # ms) = enc m @ stream ms"
  by (simp_all add: stream_def)

lemma stream_append: "stream (ms @ ns) = stream ms @ stream ns"
  by (simp add: stream_def)

lemma stream_length: "length (stream ms) = length ms * size"
  by (induction ms) (simp_all add: enc_length)

lemma stream_take: "take (n * size) (stream ms) = stream (take n ms)"
proof (induction ms arbitrary: n)
  case (Cons m ms)
  then show ?case by (cases n) (simp_all add: enc_length)
qed simp

lemma stream_drop: "drop (n * size) (stream ms) = stream (drop n ms)"
proof (induction ms arbitrary: n)
  case (Cons m ms)
  then show ?case by (cases n) (simp_all add: enc_length)
qed simp

text \<open>A beginning of a written sequence, cut anywhere, is a number of structures and less than one more.\<close>

lemma stream_cut:
  assumes "bs @ rest = stream ms" and "n = length bs div size"
  shows "n \<le> length ms" and "bs = stream (take n ms) @ drop (n * size) bs" and "length (drop (n * size) bs) < size"
proof -
  have le: "n * size \<le> length bs" using assms(2) by (simp add: div_times_less_eq_dividend)
  have "length bs \<le> length ms * size" using arg_cong[OF assms(1), of length] by (simp add: stream_length)
  then show "n \<le> length ms" using le size_pos by (meson le_trans mult_le_cancel2 less_or_eq_imp_le)
  have "take (n * size) bs = stream (take n ms)" using arg_cong[OF assms(1), of "take (n * size)"] le by (simp add: stream_take)
  then show "bs = stream (take n ms) @ drop (n * size) bs" by (metis append_take_drop_id)
  show "length (drop (n * size) bs) < size" using assms(2) size_pos by (simp add: minus_div_mult_eq_mod)
qed

text \<open>What a further piece adds: with the bytes left over from \<open>bs\<close> it makes the structures it completes, and
  what is left over now.\<close>

lemma stream_next:
  assumes "(bs @ new) @ rest = stream ms"
  shows "drop (length bs div size * size) bs @ new = stream (drop (length bs div size) (take (length (bs @ new) div size) ms)) @
      drop (length (bs @ new) div size * size) (bs @ new)"
proof -
  let ?n = "length bs div size" and ?m = "length (bs @ new) div size"
  note cut = stream_cut[OF assms refl]
  have n: "?n * size \<le> length bs" by (simp add: div_times_less_eq_dividend)
  have "?n \<le> ?m" by (simp add: div_le_mono)
  then have len: "?n * size \<le> length (stream (take ?m ms))" using cut(1) by (simp add: stream_length)
  have skip: "drop (?n * size) (stream (take ?m ms) @ tail) = stream (drop ?n (take ?m ms)) @ tail" for tail
    using len by (simp add: stream_drop)
  have "drop (?n * size) bs @ new = drop (?n * size) (bs @ new)" using n by simp
  also have "\<dots> = drop (?n * size) (stream (take ?m ms) @ drop (?m * size) (bs @ new))" by (rule arg_cong[OF cut(2)])
  also have "\<dots> = stream (drop ?n (take ?m ms)) @ drop (?m * size) (bs @ new)" by (rule skip)
  finally show ?thesis .
qed

text \<open>A written sequence, with the beginning of a further structure, is read as the sequence.\<close>

lemma read_stream:
  assumes "list_all wf ms" and "length tail < size"
  shows "read_frames size (\<lambda>f. step (dec f)) (stream ms @ tail) s =
    res_bind (res_fold step ms s) (\<lambda>s. Inr (tail, s))"
  using assms
proof (induction ms arbitrary: s)
  case (Cons m ms)
  then show ?case
    using read_frames_step[of "enc m" size "\<lambda>f. step (dec f)" "stream ms @ tail" s]
    by (cases "step m s") (simp_all add: enc_length size_pos dec_enc)
qed simp

text \<open>So is one that arrives in two pieces, cut anywhere.\<close>

lemma read_stream_cut:
  assumes "list_all wf ms" and "length tail < size" and "a @ b = stream ms @ tail"
  shows "res_bind (read_frames size (\<lambda>f. step (dec f)) a s)
      (\<lambda>(rest, s). read_frames size (\<lambda>f. step (dec f)) (rest @ b) s) =
    res_bind (res_fold step ms s) (\<lambda>s. Inr (tail, s))"
  using read_stream[OF assms(1,2), of step s] assms(3) read_frames_split[of size "\<lambda>f. step (dec f)" a b s]
  by simp

end

section \<open>Numbered sequences\<close>

text \<open>Messages that are given consecutive numbers on their way.\<close>

locale numbering =
  fixes num :: "u64 \<Rightarrow> 'a list \<Rightarrow> 'm list" and mark :: "u64 \<Rightarrow> 'a \<Rightarrow> 'm"
  assumes num_Nil: "num n [] = []"
    and num_Cons: "num n (x # xs) = mark n x # num (n + 1) xs"
begin

lemma num_length [simp]: "length (num n xs) = length xs"
  by (induction xs arbitrary: n) (simp_all add: num_Nil num_Cons)

lemma num_append: "num n (xs @ ys) = num n xs @ num (n + of_nat (length xs)) ys"
  by (induction xs arbitrary: n) (simp_all add: num_Nil num_Cons algebra_simps)

lemma num_take: "take m (num n xs) = num n (take m xs)"
proof (induction xs arbitrary: m n)
  case (Cons x xs)
  then show ?case by (cases m) (simp_all add: num_Nil num_Cons)
qed (simp add: num_Nil)

lemma num_drop: "drop m (num n xs) = num (n + of_nat m) (drop m xs)"
proof (induction xs arbitrary: m n)
  case (Cons x xs)
  then show ?case by (cases m) (simp_all add: num_Cons algebra_simps)
qed (simp add: num_Nil)

end

section \<open>The messages of the program\<close>

interpretation requests: framed encode_request decode_request request_size "\<lambda>r. request_wf (ogrq_request r)"
proof unfold_locales
  show "decode_request (encode_request m) = m" if "request_wf (ogrq_request m)" for m
    using decode_encode_request[OF that, of "[]"] by simp
qed (simp_all add: request_size_def[symmetric], simp add: request_size_def)

interpretation responses: framed encode_response decode_response response_size "\<lambda>r. response_wf (ogrs_response r)"
proof unfold_locales
  show "decode_response (encode_response m) = m" if "response_wf (ogrs_response m)" for m
    using decode_encode_response[OF that, of "[]"] by simp
qed (simp_all add: response_size_def[symmetric], simp add: response_size_def)

interpretation updates: framed encode_update decode_update update_size "\<lambda>u. update_wf (mdp_update u)"
proof unfold_locales
  show "decode_update (encode_update m) = m" if "update_wf (mdp_update m)" for m
    using decode_encode_update[OF that, of "[]"] by simp
qed (simp_all add: update_size_def[symmetric], simp add: update_size_def)

end
