(* ===== verification/Sockets.thy ===== *)
theory Sockets
  imports Framing
begin

text \<open>
  \<^verbatim>\<open>src/network\<close>: the buffered TCP and multicast sockets and the TCP server.
  The kernel is a parameter: what \<^verbatim>\<open>recvmsg\<close> or \<^verbatim>\<open>recv\<close> delivers,
  which events \<^verbatim>\<open>epoll_wait\<close> reports and which descriptors
  \<^verbatim>\<open>accept\<close> returns are arguments, and the bytes handed to
  \<^verbatim>\<open>::send\<close> are results (the code ignores how many of them the kernel takes). Of a
  buffer and the index of its first unused byte the model keeps the used bytes.
\<close>

section \<open>TCP sockets\<close>

definition TCPBufferSize :: nat where "TCPBufferSize = 8 * 1024 * 1024"
definition McastBufferSize :: nat where "McastBufferSize = 8 * 1024 * 1024"

type_synonym Nanos = int

record TCPSocket =
  fd :: int
  send_buffer :: "u8 list"
  recv_buffer :: "u8 list"

definition new_TCPSocket :: "int \<Rightarrow> TCPSocket" where
  "new_TCPSocket d = \<lparr>fd = d, send_buffer = [], recv_buffer = []\<rparr>"

text \<open>\<^verbatim>\<open>memcpy\<close> into the send buffer, unchecked.\<close>

definition tcp_send :: "u8 list \<Rightarrow> TCPSocket \<Rightarrow> TCPSocket res" where
  "tcp_send data s =
    res_bind (ensure (length (send_buffer s) + length data \<le> TCPBufferSize) WildAccess) (\<lambda>_.
    Inr (s\<lparr>send_buffer := send_buffer s @ data\<rparr>))"

text \<open>\<^verbatim>\<open>sendAndRecv\<close>: the callback runs when something was read; then the send buffer
  is handed over and emptied. The results are whether something was read, the bytes handed to
  the kernel, the socket and the state of the callback's owner.\<close>

definition tcp_sendAndRecv ::
  "(Nanos \<Rightarrow> TCPSocket \<Rightarrow> 'c \<Rightarrow> (TCPSocket \<times> 'c) res) \<Rightarrow> u8 list \<times> Nanos \<Rightarrow> TCPSocket \<Rightarrow> 'c \<Rightarrow>
     (bool \<times> u8 list \<times> TCPSocket \<times> 'c) res" where
  "tcp_sendAndRecv cb rx s c =
    (let bs = take (TCPBufferSize - length (recv_buffer s)) (fst rx) in
     res_bind (if bs \<noteq> [] then cb (snd rx) (s\<lparr>recv_buffer := recv_buffer s @ bs\<rparr>) c else Inr (s, c)) (\<lambda>(s, c).
     Inr (bs \<noteq> [], send_buffer s, s\<lparr>send_buffer := []\<rparr>, c)))"

section \<open>Multicast sockets\<close>

record McastSocket =
  socket_fd :: int
  outbound :: "u8 list"
  inbound :: "u8 list"

definition new_McastSocket :: "int \<Rightarrow> McastSocket" where
  "new_McastSocket d = \<lparr>socket_fd = d, outbound = [], inbound = []\<rparr>"

text \<open>Opening the descriptor and joining are in \<open>SocketSetup\<close>; leaving closes it.\<close>

definition mcast_init :: "int \<Rightarrow> McastSocket \<Rightarrow> McastSocket" where
  "mcast_init d s = s\<lparr>socket_fd := d\<rparr>"

definition mcast_leave :: "McastSocket \<Rightarrow> McastSocket" where
  "mcast_leave s = s\<lparr>socket_fd := - 1\<rparr>"

definition mcast_send :: "u8 list \<Rightarrow> McastSocket \<Rightarrow> McastSocket res" where
  "mcast_send data s =
    res_bind (ensure (length (outbound s) + length data \<le> McastBufferSize) FatalExit) (\<lambda>_.
    Inr (s\<lparr>outbound := outbound s @ data\<rparr>))"

definition mcast_sendAndRecv ::
  "(McastSocket \<Rightarrow> 'c \<Rightarrow> (McastSocket \<times> 'c) res) \<Rightarrow> u8 list \<Rightarrow> McastSocket \<Rightarrow> 'c \<Rightarrow>
     (bool \<times> u8 list \<times> McastSocket \<times> 'c) res" where
  "mcast_sendAndRecv cb rx s c =
    (let bs = take (McastBufferSize - length (inbound s)) rx in
     res_bind (if bs \<noteq> [] then cb (s\<lparr>inbound := inbound s @ bs\<rparr>) c else Inr (s, c)) (\<lambda>(s, c).
     Inr (bs \<noteq> [], outbound s, s\<lparr>outbound := []\<rparr>, c)))"

section \<open>The TCP server\<close>

text \<open>The two sets of descriptors are kept as lists without repetition, in the order the
  iteration over the \<^verbatim>\<open>unordered_set\<close> takes.\<close>

record TCPServer =
  listener_fd :: int
  all_sockets :: "int \<Rightarrow> TCPSocket option"
  recv_sockets :: "int list"
  send_sockets :: "int list"

record epoll_event =
  ev_fd :: int
  ev_in :: bool
  ev_out :: bool
  ev_err :: bool

definition set_insert :: "'a \<Rightarrow> 'a list \<Rightarrow> 'a list" where
  "set_insert x xs = (if x \<in> set xs then xs else xs @ [x])"

text \<open>One event: whether the listener has a connection waiting, and the two sets.\<close>

definition poll_event :: "epoll_event \<Rightarrow> bool \<times> TCPServer \<Rightarrow> bool \<times> TCPServer" where
  "poll_event ev st =
    (case st of (new_conn, s) \<Rightarrow>
     if ev_in ev \<and> ev_fd ev = listener_fd s then (True, s)
     else
       (let s = (if ev_in ev then s\<lparr>recv_sockets := set_insert (ev_fd ev) (recv_sockets s)\<rparr> else s);
            s = (if ev_out ev then s\<lparr>send_sockets := set_insert (ev_fd ev) (send_sockets s)\<rparr> else s);
            s = (if ev_err ev then s\<lparr>recv_sockets := set_insert (ev_fd ev) (recv_sockets s)\<rparr> else s) in
        (new_conn, s)))"

definition accept_conn :: "int \<Rightarrow> TCPServer \<Rightarrow> TCPServer" where
  "accept_conn d s = s\<lparr>all_sockets := (all_sockets s)(d := Some (case all_sockets s d of
       None \<Rightarrow> new_TCPSocket d | Some k \<Rightarrow> k)),
     recv_sockets := set_insert d (recv_sockets s)\<rparr>"

text \<open>\<open>events\<close> is what \<^verbatim>\<open>epoll_wait\<close> reports, or \<open>None\<close> when it fails: the
  result \<open>-1\<close> becomes the largest \<^verbatim>\<open>size_t\<close> and the loop runs off the array of
  events. \<open>fds\<close> are the descriptors \<^verbatim>\<open>accept\<close> returns before it fails. For each of them
  the code makes the socket non-blocking, switches off Nagle's algorithm and adds it to epoll, and an
  \<^verbatim>\<open>ASSERT\<close> ends the program when one of these calls fails; the model is of the runs in
  which the kernel grants them. The calls themselves are in theory SocketSetup.\<close>

definition poll :: "epoll_event list option \<Rightarrow> int list \<Rightarrow> TCPServer \<Rightarrow> TCPServer res" where
  "poll events fds s =
    (case events of
       None \<Rightarrow> Inl WildAccess
     | Some evs \<Rightarrow>
         (let n = min 1024 (length (send_sockets s) + length (recv_sockets s) + 1);
              (new_conn, s) = fold poll_event (take n evs) (False, s) in
          Inr (if new_conn then fold accept_conn fds s else s)))"

text \<open>\<^verbatim>\<open>sendAndRecv\<close> over one list of descriptors: whether anything was read, what
  was handed to the kernel for each descriptor.\<close>

definition serve_socket ::
  "(Nanos \<Rightarrow> TCPSocket \<Rightarrow> 'c \<Rightarrow> (TCPSocket \<times> 'c) res) \<Rightarrow> (int \<Rightarrow> u8 list \<times> Nanos) \<Rightarrow> int \<Rightarrow>
     bool \<times> (int \<times> u8 list) list \<times> TCPServer \<times> 'c \<Rightarrow> (bool \<times> (int \<times> u8 list) list \<times> TCPServer \<times> 'c) res" where
  "serve_socket cb rx d st =
    (case st of (got, out, s, c) \<Rightarrow>
     case all_sockets s d of
       None \<Rightarrow> Inr (got, out, s, c)
     | Some k \<Rightarrow>
         res_bind (tcp_sendAndRecv cb (rx d) k c) (\<lambda>(r, bs, k, c).
         Inr (got \<or> r, out @ [(d, bs)], s\<lparr>all_sockets := (all_sockets s)(d := Some k)\<rparr>, c)))"

definition server_sendAndRecv ::
  "(Nanos \<Rightarrow> TCPSocket \<Rightarrow> 'c \<Rightarrow> (TCPSocket \<times> 'c) res) \<Rightarrow> ('c \<Rightarrow> 'c res) \<Rightarrow> (int \<Rightarrow> u8 list \<times> Nanos) \<Rightarrow>
     (int \<Rightarrow> u8 list \<times> Nanos) \<Rightarrow> TCPServer \<Rightarrow> 'c \<Rightarrow> ((int \<times> u8 list) list \<times> TCPServer \<times> 'c) res" where
  "server_sendAndRecv cb fin rx rx' s c =
    res_bind (res_fold (serve_socket cb rx) (recv_sockets s) (False, [], s, c)) (\<lambda>(got, out, s, c).
    res_bind (if got then fin c else Inr c) (\<lambda>c.
    res_bind (res_fold (serve_socket cb rx') (send_sockets s) (False, out, s, c)) (\<lambda>(_, out, s, c).
    Inr (out, s, c))))"

section \<open>Properties\<close>

text \<open>What is queued for sending leaves in one piece and in order.\<close>

lemma tcp_send_all:
  assumes "length (send_buffer s) + length (concat ds) \<le> TCPBufferSize"
  shows "res_fold tcp_send ds s = Inr (s\<lparr>send_buffer := send_buffer s @ concat ds\<rparr>)"
  using assms
proof (induction ds arbitrary: s)
  case (Cons d ds)
  then show ?case by (simp add: tcp_send_def)
qed simp

lemma mcast_send_all:
  assumes "length (outbound s) + length (concat ds) \<le> McastBufferSize"
  shows "res_fold mcast_send ds s = Inr (s\<lparr>outbound := outbound s @ concat ds\<rparr>)"
  using assms
proof (induction ds arbitrary: s)
  case (Cons d ds)
  then show ?case by (simp add: mcast_send_def)
qed simp

lemma tcp_idle: "tcp_sendAndRecv cb ([], t) s c = Inr (False, send_buffer s, s\<lparr>send_buffer := []\<rparr>, c)"
  by (simp add: tcp_sendAndRecv_def)

lemma tcp_received:
  "bs \<noteq> [] \<Longrightarrow> length (recv_buffer s) + length bs \<le> TCPBufferSize \<Longrightarrow>
     tcp_sendAndRecv cb (bs, t) s c = res_bind (cb t (s\<lparr>recv_buffer := recv_buffer s @ bs\<rparr>) c)
       (\<lambda>(s, c). Inr (True, send_buffer s, s\<lparr>send_buffer := []\<rparr>, c))"
  by (cases "cb t (s\<lparr>recv_buffer := recv_buffer s @ bs\<rparr>) c") (simp_all add: tcp_sendAndRecv_def Let_def split_def)

text \<open>A TCP socket never checks the room in its send buffer: the write that overflows it goes
  past the buffer's end, where the multicast socket stops the program instead.\<close>

lemma tcp_send_overflows:
  assumes "TCPBufferSize < length (send_buffer s) + length data"
    and "McastBufferSize < length (outbound m) + length data"
  shows "tcp_send data s = Inl WildAccess \<and> mcast_send data m = Inl FatalExit"
  using assms by (simp add: tcp_send_def mcast_send_def ensure_def)

lemma serve_socket_unknown: "all_sockets s d = None \<Longrightarrow> serve_socket cb rx d (got, out, s, c) = Inr (got, out, s, c)"
  by (simp add: serve_socket_def)

text \<open>A reported event registers its descriptor for reading before the sockets are served.\<close>

lemma set_insert_set [simp]: "set (set_insert x xs) = insert x (set xs)"
  by (auto simp: set_insert_def)

lemma set_insert_distinct [simp]: "distinct (set_insert x xs) = distinct xs"
  by (auto simp: set_insert_def)

definition server_ok :: "TCPServer \<Rightarrow> bool" where
  "server_ok s \<longleftrightarrow> distinct (recv_sockets s) \<and> distinct (send_sockets s) \<and>
     (\<forall>d k. all_sockets s d = Some k \<longrightarrow> fd k = d \<and> d \<in> set (recv_sockets s))"

lemma poll_event_ok: "server_ok s \<Longrightarrow> server_ok (snd (poll_event ev (b, s)))"
  by (auto simp: poll_event_def server_ok_def Let_def)

lemma accept_conn_ok: "server_ok s \<Longrightarrow> server_ok (accept_conn d s)"
  by (auto simp: accept_conn_def server_ok_def new_TCPSocket_def split: option.splits)

text \<open>Polling keeps the server's books: every socket is stored under its own descriptor and is
  registered for reading, and no descriptor is registered twice.\<close>

theorem poll_keeps_sockets:
  assumes "server_ok s" and "poll events fds s = Inr s'"
  shows "server_ok s'"
proof -
  have ev: "server_ok (snd (fold poll_event evs st))" if "server_ok (snd st)" for evs st
    using that
  proof (induction evs arbitrary: st)
    case (Cons e evs)
    then show ?case using poll_event_ok[of "snd st" e "fst st"] by simp
  qed simp
  have acc: "server_ok (fold accept_conn ds u)" if "server_ok u" for ds u
    using that by (induction ds arbitrary: u) (simp_all add: accept_conn_ok)
  obtain evs where evs: "events = Some evs" using assms(2) by (cases events) (auto simp: poll_def)
  let ?n = "min 1024 (length (send_sockets s) + length (recv_sockets s) + 1)"
  obtain nc u where u: "fold poll_event (take ?n evs) (False, s) = (nc, u)" by (cases "fold poll_event (take ?n evs) (False, s)")
  then have "server_ok u" using ev[of "(False, s)" "take ?n evs"] assms(1) by simp
  then show ?thesis using assms(2) acc u by (auto simp: poll_def evs Let_def split: if_splits)
qed

definition sample_server :: TCPServer where
  "sample_server = \<lparr>listener_fd = 3, all_sockets = (\<lambda>_. None), recv_sockets = [], send_sockets = []\<rparr>"

theorem poll_keeps_sockets_witness:
  "server_ok sample_server \<and>
   (\<exists>s'. poll (Some [\<lparr>ev_fd = 3, ev_in = True, ev_out = False, ev_err = False\<rparr>]) [7] sample_server = Inr s' \<and>
      server_ok s' \<and> recv_sockets s' = [7])"
proof -
  have ok: "server_ok sample_server" by (simp add: server_ok_def sample_server_def)
  obtain s' where s': "poll (Some [\<lparr>ev_fd = 3, ev_in = True, ev_out = False, ev_err = False\<rparr>]) [7] sample_server = Inr s'"
    "recv_sockets s' = [7]"
    by (simp add: poll_def poll_event_def sample_server_def accept_conn_def set_insert_def)
  then show ?thesis using poll_keeps_sockets[OF ok s'(1)] ok by blast
qed

end
