(* ===== verification/OrderServer.thy ===== *)
theory OrderServer
  imports Sockets SpscQueue "HOL-Library.Multiset"
begin

text \<open>
  \<^verbatim>\<open>order_server.hpp\<close>, \<^verbatim>\<open>order_server.cpp\<close> and
  \<^verbatim>\<open>fifo_sequencer.hpp\<close> of the exchange: client requests arrive on TCP sockets, are
  checked for their client's socket and sequence number, collected for one round of reading,
  sorted by the time they were received and put into the matching engine's queue; client
  responses go out with their client's next sequence number. \<^verbatim>\<open>std::sort\<close> is a
  parameter that returns its input in some order sorted by time, which is all the standard
  promises; the locale \<open>time_sort\<close> states it.
\<close>

section \<open>The sequencer\<close>

definition MAX_PENDING_REQUESTS :: nat where "MAX_PENDING_REQUESTS = 1024"

type_synonym timed_request = "Nanos \<times> MEClientRequest"

record FifoSequencer =
  pending_client_requests :: "timed_request list"
  incoming_request :: "MEClientRequest spscQueue"

definition addClientRequest :: "Nanos \<Rightarrow> MEClientRequest \<Rightarrow> FifoSequencer \<Rightarrow> FifoSequencer res" where
  "addClientRequest rx_time q f =
    res_bind (ensure (length (pending_client_requests f) < MAX_PENDING_REQUESTS) FatalExit) (\<lambda>_.
    Inr (f\<lparr>pending_client_requests := pending_client_requests f @ [(rx_time, q)]\<rparr>))"

definition sequenceAndPublish :: "(timed_request list \<Rightarrow> timed_request list) \<Rightarrow> FifoSequencer \<Rightarrow> FifoSequencer" where
  "sequenceAndPublish srt f =
    (if pending_client_requests f = [] then f
     else f\<lparr>incoming_request := fold (\<lambda>x. push (snd x)) (srt (pending_client_requests f)) (incoming_request f),
            pending_client_requests := []\<rparr>)"

locale time_sort =
  fixes srt :: "timed_request list \<Rightarrow> timed_request list"
  assumes sort_perm: "mset (srt xs) = mset xs"
    and sort_sorted: "sorted (map fst (srt xs))"
begin

lemma sort_members [simp]: "set (srt xs) = set xs"
  using sort_perm by (metis set_mset_mset)

lemma sort_length [simp]: "length (srt xs) = length xs"
  using sort_perm by (metis size_mset)

text \<open>Requests received at different times are published in the order of their times, whatever
  the algorithm does with equal ones.\<close>

lemma sort_unique:
  assumes "distinct (map fst xs)"
  shows "srt xs = sort_key fst xs"
proof (rule properties_for_sort_key[symmetric])
  show "mset (srt xs) = mset xs" by (rule sort_perm)
  show "sorted (map fst (srt xs))" by (rule sort_sorted)
  fix k
  assume "k \<in> set (srt xs)"
  have len: "length (filter (\<lambda>x. fst x = fst k) ys) \<le> 1" if "distinct (map fst ys)" for ys :: "timed_request list"
    using that by (induction ys) (auto simp: filter_empty_conv image_iff)
  have single: "L = R" if "mset L = mset R" and "length R \<le> 1" for L R :: "timed_request list"
    using that by (cases R) auto
  have same: "mset (filter (\<lambda>x. fst k = fst x) (srt xs)) = mset (filter (\<lambda>x. fst k = fst x) xs)"
    unfolding mset_filter sort_perm ..
  have "length (filter (\<lambda>x. fst k = fst x) xs) \<le> 1"
    using len[OF assms] by (simp add: eq_commute[of "fst k"])
  then show "filter (\<lambda>x. fst k = fst x) (srt xs) = filter (\<lambda>x. fst k = fst x) xs"
    using single[OF same] by blast
qed

end

interpretation stable: time_sort "sort_key fst"
  by unfold_locales simp_all

section \<open>The server\<close>

text \<open>A \<^verbatim>\<open>TCPSocket*\<close> is the descriptor its socket is stored under.\<close>

record OrderServer =
  cid_to_socket :: "nat \<Rightarrow> int option"
  cid_next_outgoing_seq_num :: "nat \<Rightarrow> u64"
  cid_next_exp_seq_num :: "nat \<Rightarrow> u64"
  outgoing_messages :: "MEClientResponse spscQueue"
  fifo_sequencer :: FifoSequencer

definition new_OrderServer :: "MEClientRequest spscQueue \<Rightarrow> MEClientResponse spscQueue \<Rightarrow> OrderServer" where
  "new_OrderServer rq rs = \<lparr>cid_to_socket = (\<lambda>_. None), cid_next_outgoing_seq_num = (\<lambda>_. 1),
     cid_next_exp_seq_num = (\<lambda>_. 1), outgoing_messages = rs,
     fifo_sequencer = \<lparr>pending_client_requests = [], incoming_request = rq\<rparr>\<rparr>"

text \<open>The body of the loop of \<^verbatim>\<open>recvCallbacks\<close>, for one request.\<close>

definition accept_request :: "int \<Rightarrow> Nanos \<Rightarrow> OGClientRequest \<Rightarrow> OrderServer \<Rightarrow> OrderServer res" where
  "accept_request k rx_time r s =
    (let c = unat (rq_client_id (ogrq_request r)) in
     res_bind (ensure (c < ME_MAX_NUM_CLIENTS) WildAccess) (\<lambda>_.
     if cid_to_socket s c \<noteq> None \<and> cid_to_socket s c \<noteq> Some k then Inr s
     else
       (let s = s\<lparr>cid_to_socket := (cid_to_socket s)(c := Some k)\<rparr> in
        if cid_next_exp_seq_num s c \<noteq> ogrq_seq_num r then Inr s
        else
          (let s = s\<lparr>cid_next_exp_seq_num := (cid_next_exp_seq_num s)(c := cid_next_exp_seq_num s c + 1)\<rparr> in
           res_bind (addClientRequest rx_time (ogrq_request r) (fifo_sequencer s)) (\<lambda>f.
           Inr (s\<lparr>fifo_sequencer := f\<rparr>))))))"

definition recvCallbacks :: "Nanos \<Rightarrow> TCPSocket \<Rightarrow> OrderServer \<Rightarrow> (TCPSocket \<times> OrderServer) res" where
  "recvCallbacks rx_time k s =
    (if length (recv_buffer k) < request_size then Inr (k, s)
     else
       res_bind (read_frames request_size (\<lambda>f. accept_request (fd k) rx_time (decode_request f)) (recv_buffer k) s)
         (\<lambda>(rest, s). Inr (k\<lparr>recv_buffer := rest\<rparr>, s)))"

definition recvFinishedCallbacks :: "(timed_request list \<Rightarrow> timed_request list) \<Rightarrow> OrderServer \<Rightarrow> OrderServer res" where
  "recvFinishedCallbacks srt s = Inr (s\<lparr>fifo_sequencer := sequenceAndPublish srt (fifo_sequencer s)\<rparr>)"

text \<open>The body of the loop of \<^verbatim>\<open>run\<close> over the outgoing responses, and the loop.\<close>

definition send_response :: "MEClientResponse \<Rightarrow> OrderServer \<times> TCPServer \<Rightarrow> (OrderServer \<times> TCPServer) res" where
  "send_response r st =
    (case st of (s, srv) \<Rightarrow>
     let c = unat (rs_client_id r); seq = cid_next_outgoing_seq_num s c in
     res_bind (ensure (c < ME_MAX_NUM_CLIENTS) WildAccess) (\<lambda>_.
     case cid_to_socket s c of
       None \<Rightarrow> Inl FatalExit
     | Some d \<Rightarrow>
         (case all_sockets srv d of
            None \<Rightarrow> Inl WildAccess
          | Some k \<Rightarrow>
              res_bind (tcp_send (put64 seq) k) (\<lambda>k.
              res_bind (tcp_send (encode_me_response r) k) (\<lambda>k.
              Inr (s\<lparr>cid_next_outgoing_seq_num := (cid_next_outgoing_seq_num s)(c := seq + 1)\<rparr>,
                   srv\<lparr>all_sockets := (all_sockets srv)(d := Some k)\<rparr>))))))"

primrec send_responses :: "nat \<Rightarrow> OrderServer \<times> TCPServer \<Rightarrow> (OrderServer \<times> TCPServer) res" where
  "send_responses 0 st = Inl Diverged"
| "send_responses (Suc n) st =
    (case getNextRead (outgoing_messages (fst st)) of
       None \<Rightarrow> Inr st
     | Some r \<Rightarrow>
         if queue_size (outgoing_messages (fst st)) = 0 then Inr st
         else
           res_bind (send_response r st) (\<lambda>(s, srv).
           res_bind (updateNextRead (outgoing_messages s)) (\<lambda>q.
           send_responses n (s\<lparr>outgoing_messages := q\<rparr>, srv))))"

text \<open>One iteration of the server's thread.\<close>

definition server_round ::
  "(timed_request list \<Rightarrow> timed_request list) \<Rightarrow> epoll_event list option \<Rightarrow> int list \<Rightarrow> (int \<Rightarrow> u8 list \<times> Nanos) \<Rightarrow>
     (int \<Rightarrow> u8 list \<times> Nanos) \<Rightarrow> OrderServer \<times> TCPServer \<Rightarrow> ((int \<times> u8 list) list \<times> OrderServer \<times> TCPServer) res" where
  "server_round srt events fds rx rx' st =
    (case st of (s, srv) \<Rightarrow>
     res_bind (poll events fds srv) (\<lambda>srv.
     res_bind (server_sendAndRecv recvCallbacks (recvFinishedCallbacks srt) rx rx' srv s) (\<lambda>(out, srv, s).
     res_bind (send_responses (queue_size (outgoing_messages s) + 1) (s, srv)) (\<lambda>st.
     Inr (out, st)))))"

section \<open>Accepting\<close>

text \<open>The requests of one client with consecutive sequence numbers.\<close>

primrec numbered_requests :: "u64 \<Rightarrow> MEClientRequest list \<Rightarrow> OGClientRequest list" where
  "numbered_requests n [] = []"
| "numbered_requests n (q # qs) = \<lparr>ogrq_seq_num = n, ogrq_request = q\<rparr> # numbered_requests (n + 1) qs"

interpretation nrq: numbering numbered_requests "\<lambda>n q. \<lparr>ogrq_seq_num = n, ogrq_request = q\<rparr>"
  by unfold_locales simp_all

definition bound_to :: "int \<Rightarrow> nat \<Rightarrow> OrderServer \<Rightarrow> bool" where
  "bound_to k c s \<longleftrightarrow> cid_to_socket s c = None \<or> cid_to_socket s c = Some k"

lemma accept_all:
  assumes "list_all (\<lambda>q. unat (rq_client_id q) = c) qs" and "c < ME_MAX_NUM_CLIENTS" and "bound_to k c s"
    and "length (pending_client_requests (fifo_sequencer s)) + length qs \<le> MAX_PENDING_REQUESTS"
  shows "\<exists>s'. res_fold (accept_request k rx) (numbered_requests (cid_next_exp_seq_num s c) qs) s = Inr s' \<and>
     pending_client_requests (fifo_sequencer s') = pending_client_requests (fifo_sequencer s) @ map (Pair rx) qs \<and>
     cid_next_exp_seq_num s' c = cid_next_exp_seq_num s c + of_nat (length qs) \<and>
     (qs \<noteq> [] \<longrightarrow> cid_to_socket s' c = Some k)"
  using assms
proof (induction qs arbitrary: s)
  case (Cons q qs)
  define s1 where "s1 = s\<lparr>cid_to_socket := (cid_to_socket s)(c := Some k),
     cid_next_exp_seq_num := (cid_next_exp_seq_num s)(c := cid_next_exp_seq_num s c + 1),
     fifo_sequencer := (fifo_sequencer s)\<lparr>pending_client_requests := pending_client_requests (fifo_sequencer s) @ [(rx, q)]\<rparr>\<rparr>"
  have "accept_request k rx \<lparr>ogrq_seq_num = cid_next_exp_seq_num s c, ogrq_request = q\<rparr> s = Inr s1"
    using Cons.prems by (auto simp: accept_request_def addClientRequest_def bound_to_def s1_def Let_def)
  moreover have "cid_next_exp_seq_num s1 c = cid_next_exp_seq_num s c + 1" by (simp add: s1_def)
  moreover have "\<exists>s'. res_fold (accept_request k rx) (numbered_requests (cid_next_exp_seq_num s1 c) qs) s1 = Inr s' \<and>
     pending_client_requests (fifo_sequencer s') = pending_client_requests (fifo_sequencer s1) @ map (Pair rx) qs \<and>
     cid_next_exp_seq_num s' c = cid_next_exp_seq_num s1 c + of_nat (length qs) \<and>
     (qs \<noteq> [] \<longrightarrow> cid_to_socket s' c = Some k)"
    using Cons.prems by (intro Cons.IH) (simp_all add: s1_def bound_to_def)
  ultimately show ?case by (cases qs) (auto simp: s1_def algebra_simps)
qed simp


text \<open>Requests that do not carry the expected number change nothing.\<close>

lemma accept_stalled:
  assumes "list_all (\<lambda>q. unat (rq_client_id q) = c) qs" and "c < ME_MAX_NUM_CLIENTS"
    and "cid_to_socket s c = Some k"
    and "\<forall>i < length qs. n + of_nat i \<noteq> cid_next_exp_seq_num s c"
  shows "res_fold (accept_request k rx) (numbered_requests n qs) s = Inr s"
  using assms
proof (induction qs arbitrary: n)
  case (Cons q qs)
  have "n \<noteq> cid_next_exp_seq_num s c" using Cons.prems(4) by force
  then have "accept_request k rx \<lparr>ogrq_seq_num = n, ogrq_request = q\<rparr> s = Inr s"
    using Cons.prems by (auto simp: accept_request_def Let_def fun_upd_idem)
  moreover have "n + 1 + of_nat i \<noteq> cid_next_exp_seq_num s c" if "i < length qs" for i
    using Cons.prems(4)[rule_format, of "Suc i"] that by (simp add: add.assoc)
  then have "res_fold (accept_request k rx) (numbered_requests (n + 1) qs) s = Inr s"
    using Cons.prems by (intro Cons.IH) simp_all
  ultimately show ?case by simp
qed simp

lemma numbered_requests_wf:
  "list_all request_wf qs \<Longrightarrow> list_all (\<lambda>r. request_wf (ogrq_request r)) (numbered_requests n qs)"
  by (induction qs arbitrary: n) simp_all

lemma recv_numbered:
  assumes "list_all request_wf qs" and "length tail < request_size"
    and "recv_buffer k = requests.stream (numbered_requests n qs) @ tail"
  shows "recvCallbacks rx k s = res_bind (res_fold (accept_request (fd k) rx) (numbered_requests n qs) s)
     (\<lambda>s. Inr (k\<lparr>recv_buffer := tail\<rparr>, s))"
proof (cases qs)
  case Nil
  then have "k\<lparr>recv_buffer := tail\<rparr> = k" using assms(3) by simp
  then show ?thesis using assms Nil by (simp add: recvCallbacks_def)
next
  case (Cons q rest)
  then have "\<not> length (recv_buffer k) < request_size"
    using assms(3) by (simp add: requests.stream_length)
  then show ?thesis
    using requests.read_stream[OF numbered_requests_wf[OF assms(1), of n] assms(2),
        of "accept_request (fd k) rx" s] assms(3)
    by (cases "res_fold (accept_request (fd k) rx) (numbered_requests n qs) s") (simp_all add: recvCallbacks_def)
qed

lemma server_accepts:
  assumes "list_all request_wf qs" and "list_all (\<lambda>q. unat (rq_client_id q) = c) qs"
    and "c < ME_MAX_NUM_CLIENTS" and "bound_to (fd k) c s" and "length tail < request_size"
    and "length (pending_client_requests (fifo_sequencer s)) + length qs \<le> MAX_PENDING_REQUESTS"
    and "recv_buffer k = requests.stream (numbered_requests (cid_next_exp_seq_num s c) qs) @ tail"
  shows "\<exists>s'. recvCallbacks rx k s = Inr (k\<lparr>recv_buffer := tail\<rparr>, s') \<and>
     pending_client_requests (fifo_sequencer s') = pending_client_requests (fifo_sequencer s) @ map (Pair rx) qs \<and>
     cid_next_exp_seq_num s' c = cid_next_exp_seq_num s c + of_nat (length qs)"
  using accept_all[OF assms(2-4,6), of rx] recv_numbered[OF assms(1,5,7), of rx s] by auto

text \<open>A client whose stream of requests carries the expected consecutive sequence numbers has
  every request recorded in order, with the time it was read, however much of a further request
  already lies behind in the buffer; the beginning of that request stays there.\<close>

theorem server_accepts_stream:
  assumes "list_all request_wf qs" and "list_all (\<lambda>q. unat (rq_client_id q) = c) qs"
    and "c < ME_MAX_NUM_CLIENTS" and "bound_to (fd k) c s" and "length tail < request_size"
    and "length (pending_client_requests (fifo_sequencer s)) + length qs \<le> MAX_PENDING_REQUESTS"
    and "recv_buffer k = requests.stream (numbered_requests (cid_next_exp_seq_num s c) qs) @ tail"
  shows "\<exists>s'. recvCallbacks rx k s = Inr (k\<lparr>recv_buffer := tail\<rparr>, s') \<and>
     pending_client_requests (fifo_sequencer s') = pending_client_requests (fifo_sequencer s) @ map (Pair rx) qs \<and>
     cid_next_exp_seq_num s' c = cid_next_exp_seq_num s c + of_nat (length qs)"
  using assms by (rule server_accepts)

text \<open>After one lost request the server accepts nothing further from that client: the requests
  that follow the gap carry other numbers than the one it waits for, and it answers none of them.\<close>

theorem gap_stalls_client:
  assumes "list_all request_wf qs" and "list_all (\<lambda>q. unat (rq_client_id q) = c) qs"
    and "c < ME_MAX_NUM_CLIENTS" and "cid_to_socket s c = Some (fd k)" and "length tail < request_size"
    and "length qs < 2 ^ 64" and "recv_buffer k = requests.stream (numbered_requests (cid_next_exp_seq_num s c + 1) qs) @ tail"
  shows "recvCallbacks rx k s = Inr (k\<lparr>recv_buffer := tail\<rparr>, s)"
proof -
  have "cid_next_exp_seq_num s c + 1 + of_nat i \<noteq> cid_next_exp_seq_num s c" if "i < length qs" for i
  proof
    assume "cid_next_exp_seq_num s c + 1 + of_nat i = cid_next_exp_seq_num s c"
    then have "(of_nat (Suc i) :: u64) = 0" by (simp add: add.assoc)
    then have "unat (of_nat (Suc i) :: u64) = 0" by (simp only: unat_0)
    then show False using that assms(6) by (simp add: unat_of_nat del: of_nat_Suc)
  qed
  then show ?thesis
    using accept_stalled[OF assms(2-4), of "cid_next_exp_seq_num s c + 1" rx]
      recv_numbered[OF assms(1,5,7), of rx s] by simp
qed

text \<open>A request for a client that is bound to another socket is dropped.\<close>

theorem wrong_socket_rejected:
  assumes "unat (rq_client_id (ogrq_request r)) < ME_MAX_NUM_CLIENTS"
    and "cid_to_socket s (unat (rq_client_id (ogrq_request r))) = Some d" and "d \<noteq> k"
  shows "accept_request k rx r s = Inr s"
  using assms by (simp add: accept_request_def Let_def)

section \<open>Publishing\<close>

lemma fold_push_snd: "fold (\<lambda>x. push (snd x)) xs q = fold push (map snd xs) q"
  by (simp add: fold_map comp_def)

context time_sort
begin

lemma publish:
  assumes "queue_ok (incoming_request f)"
    and "length (contents (incoming_request f)) + length (pending_client_requests f) < store_size (incoming_request f)"
  shows "pending_client_requests (sequenceAndPublish srt f) = [] \<and> queue_ok (incoming_request (sequenceAndPublish srt f)) \<and>
     contents (incoming_request (sequenceAndPublish srt f)) =
       contents (incoming_request f) @ map snd (srt (pending_client_requests f))"
proof (cases "pending_client_requests f = []")
  case True
  then have "srt [] = []" using sort_perm[of "[]"] by simp
  then show ?thesis using True assms(1) by (simp add: sequenceAndPublish_def)
next
  case False
  then show ?thesis
    using lfq.put_all[OF assms(1), of "map snd (srt (pending_client_requests f))"] assms(2)
    by (simp add: sequenceAndPublish_def fold_push_snd)
qed

end

text \<open>C22: at the end of a round of reading everything recorded in it goes to the matching engine,
  each request once, in the order of the times of receipt; requests recorded with different
  times keep the order those times give.\<close>

theorem publishes_by_time:
  assumes "time_sort srt" and "queue_ok (incoming_request f)"
    and "length (contents (incoming_request f)) + length (pending_client_requests f) < store_size (incoming_request f)"
  shows "\<exists>xs. contents (incoming_request (sequenceAndPublish srt f)) = contents (incoming_request f) @ map snd xs \<and>
     mset xs = mset (pending_client_requests f) \<and> sorted (map fst xs) \<and>
     pending_client_requests (sequenceAndPublish srt f) = [] \<and>
     (distinct (map fst (pending_client_requests f)) \<longrightarrow> xs = sort_key fst (pending_client_requests f))"
  using time_sort.publish[OF assms] time_sort.sort_perm[OF assms(1)] time_sort.sort_sorted[OF assms(1)]
    time_sort.sort_unique[OF assms(1)]
  by (intro exI[of _ "srt (pending_client_requests f)"]) simp

text \<open>All requests that one read delivers carry the same time, and the order in which
  \<^verbatim>\<open>std::sort\<close> leaves elements with equal keys is unspecified: an implementation may
  publish two of them in the reverse of the order in which their client sent them.\<close>

definition reversing_sort :: "timed_request list \<Rightarrow> timed_request list" where
  "reversing_sort xs = sort_key fst (rev xs)"

interpretation reversing: time_sort reversing_sort
  by unfold_locales (simp_all add: reversing_sort_def)

text \<open>Two requests read together may reach the matching engine in the reverse of the order their
  client sent them in, under a sorting routine that keeps everything the standard promises.\<close>

theorem same_read_may_swap:
  "time_sort reversing_sort \<and>
   contents (incoming_request (sequenceAndPublish reversing_sort
      \<lparr>pending_client_requests = [(5, q1), (5, q2)], incoming_request = newQueue q1 8\<rparr>)) = [q2, q1]"
proof -
  have "reversing_sort [(5, q1), (5, q2)] = [(5, q2), (5, q1)]"
    by (simp add: reversing_sort_def)
  then show ?thesis
    using reversing.time_sort_axioms
      reversing.publish[of "\<lparr>pending_client_requests = [(5, q1), (5, q2)], incoming_request = newQueue q1 8\<rparr>"]
    by (simp add: newQueue_ok)
qed

section \<open>Responding\<close>

primrec numbered_responses :: "u64 \<Rightarrow> MEClientResponse list \<Rightarrow> OGClientResponse list" where
  "numbered_responses n [] = []"
| "numbered_responses n (r # rs) = \<lparr>ogrs_seq_num = n, ogrs_response = r\<rparr> # numbered_responses (n + 1) rs"

interpretation nrs: numbering numbered_responses "\<lambda>n r. \<lparr>ogrs_seq_num = n, ogrs_response = r\<rparr>"
  by unfold_locales simp_all

text \<open>The numbering of a mixed sequence of responses, each client with its own counter.\<close>

abbreviation owner :: "MEClientResponse \<Rightarrow> nat" where
  "owner r \<equiv> unat (rs_client_id r)"

primrec label :: "(nat \<Rightarrow> u64) \<Rightarrow> MEClientResponse list \<Rightarrow> OGClientResponse list" where
  "label n [] = []"
| "label n (r # rs) = \<lparr>ogrs_seq_num = n (owner r), ogrs_response = r\<rparr> # label (n(owner r := n (owner r) + 1)) rs"

lemma label_client:
  "filter (\<lambda>w. owner (ogrs_response w) = c) (label n rs) = numbered_responses (n c) (filter (\<lambda>r. owner r = c) rs)"
  by (induction rs arbitrary: n) simp_all

definition sends_to :: "OrderServer \<Rightarrow> int \<Rightarrow> OGClientResponse \<Rightarrow> bool" where
  "sends_to s d w \<longleftrightarrow> cid_to_socket s (owner (ogrs_response w)) = Some d"

definition connected :: "OrderServer \<times> TCPServer \<Rightarrow> MEClientResponse list \<Rightarrow> bool" where
  "connected st rs \<longleftrightarrow> list_all (\<lambda>r. owner r < ME_MAX_NUM_CLIENTS \<and>
      (\<exists>d. cid_to_socket (fst st) (owner r) = Some d \<and> all_sockets (snd st) d \<noteq> None)) rs \<and>
    (\<forall>d k. all_sockets (snd st) d = Some k \<longrightarrow> length (send_buffer k) + length rs * response_size \<le> TCPBufferSize)"

text \<open>One response leaves for its client's socket, and the counters follow.\<close>

lemma send_response_step:
  assumes "connected (s, srv) (r # rs)"
  obtains srv' where
    "send_response r (s, srv) = Inr (s\<lparr>cid_next_outgoing_seq_num := (cid_next_outgoing_seq_num s)
        (owner r := cid_next_outgoing_seq_num s (owner r) + 1)\<rparr>, srv')"
    and "\<And>d k. all_sockets srv d = Some k \<Longrightarrow> \<exists>k'. all_sockets srv' d = Some k' \<and>
        send_buffer k' = send_buffer k @ (if cid_to_socket s (owner r) = Some d
          then encode_response \<lparr>ogrs_seq_num = cid_next_outgoing_seq_num s (owner r), ogrs_response = r\<rparr> else [])"
    and "\<And>d. all_sockets srv' d = None \<longleftrightarrow> all_sockets srv d = None"
proof -
  obtain d k where d: "owner r < ME_MAX_NUM_CLIENTS" "cid_to_socket s (owner r) = Some d" "all_sockets srv d = Some k"
    using assms by (auto simp: connected_def)
  define bs where "bs = encode_response \<lparr>ogrs_seq_num = cid_next_outgoing_seq_num s (owner r), ogrs_response = r\<rparr>"
  have bs: "bs = put64 (cid_next_outgoing_seq_num s (owner r)) @ encode_me_response r"
    by (simp add: bs_def encode_response_def)
  have len: "length bs = response_size" by (simp add: bs_def)
  have room: "length (send_buffer k) + length bs \<le> TCPBufferSize"
    using assms d(3) by (fastforce simp: connected_def len)
  define srv' where "srv' = srv\<lparr>all_sockets := (all_sockets srv)(d := Some (k\<lparr>send_buffer := send_buffer k @ bs\<rparr>))\<rparr>"
  show thesis
  proof
    show "send_response r (s, srv) = Inr (s\<lparr>cid_next_outgoing_seq_num := (cid_next_outgoing_seq_num s)
        (owner r := cid_next_outgoing_seq_num s (owner r) + 1)\<rparr>, srv')"
      using d room by (simp add: send_response_def Let_def tcp_send_def bs srv'_def)
    show "\<exists>k'. all_sockets srv' e = Some k' \<and> send_buffer k' = send_buffer j @ (if cid_to_socket s (owner r) = Some e
          then encode_response \<lparr>ogrs_seq_num = cid_next_outgoing_seq_num s (owner r), ogrs_response = r\<rparr> else [])"
      if "all_sockets srv e = Some j" for e j
      using that d by (auto simp: srv'_def bs_def)
    show "all_sockets srv' e = None \<longleftrightarrow> all_sockets srv e = None" for e
      using d by (simp add: srv'_def)
  qed
qed

lemma connected_step:
  assumes "connected (s, srv) (r # rs)" and "cid_to_socket s' = cid_to_socket s"
    and "\<And>d k. all_sockets srv d = Some k \<Longrightarrow> \<exists>k'. all_sockets srv' d = Some k' \<and>
        length (send_buffer k') \<le> length (send_buffer k) + response_size"
    and "\<And>d. all_sockets srv' d = None \<longleftrightarrow> all_sockets srv d = None"
  shows "connected (s', srv') rs"
proof -
  have "length (send_buffer k') + length rs * response_size \<le> TCPBufferSize" if "all_sockets srv' d = Some k'" for d k'
  proof -
    have "all_sockets srv d \<noteq> None" using that assms(4)[of d] by simp
    then obtain k where k: "all_sockets srv d = Some k" by blast
    then have "length (send_buffer k) + length (r # rs) * response_size \<le> TCPBufferSize"
      using assms(1) by (fastforce simp: connected_def)
    then show ?thesis using assms(3)[OF k] that by auto
  qed
  then show ?thesis using assms(1,2,4) by (auto simp: connected_def list_all_iff)
qed

lemma send_all_responses:
  assumes "queue_ok (outgoing_messages s)" and "length (contents (outgoing_messages s)) < store_size (outgoing_messages s)"
    and "connected (s, srv) (contents (outgoing_messages s))" and "length (contents (outgoing_messages s)) < n"
  shows "\<exists>s' srv'. send_responses n (s, srv) = Inr (s', srv') \<and> contents (outgoing_messages s') = [] \<and>
     (\<forall>d k. all_sockets srv d = Some k \<longrightarrow> (\<exists>k'. all_sockets srv' d = Some k' \<and>
        send_buffer k' = send_buffer k @ responses.stream (filter (sends_to s d)
          (label (cid_next_outgoing_seq_num s) (contents (outgoing_messages s))))))"
  using assms
proof (induction n arbitrary: s srv)
  case (Suc n)
  note front = lfq.front_items[OF Suc.prems(1,2)]
  show ?case
  proof (cases "contents (outgoing_messages s)")
    case Nil
    then show ?thesis using front by simp
  next
    case (Cons r rs)
    obtain srv1 where step: "send_response r (s, srv) = Inr (s\<lparr>cid_next_outgoing_seq_num := (cid_next_outgoing_seq_num s)
        (owner r := cid_next_outgoing_seq_num s (owner r) + 1)\<rparr>, srv1)"
      and sent: "\<And>d k. all_sockets srv d = Some k \<Longrightarrow> \<exists>k'. all_sockets srv1 d = Some k' \<and>
        send_buffer k' = send_buffer k @ (if cid_to_socket s (owner r) = Some d
          then encode_response \<lparr>ogrs_seq_num = cid_next_outgoing_seq_num s (owner r), ogrs_response = r\<rparr> else [])"
      and none: "\<And>d. all_sockets srv1 d = None \<longleftrightarrow> all_sockets srv d = None"
      using send_response_step Suc.prems(3) Cons by metis
    obtain q where q: "updateNextRead (outgoing_messages s) = Inr q" "queue_ok q" "contents q = rs"
        "store_size q = store_size (outgoing_messages s)"
      using lfq.drop_items[OF Suc.prems(1)] Cons by auto
    define s1 where "s1 = s\<lparr>cid_next_outgoing_seq_num := (cid_next_outgoing_seq_num s)
        (owner r := cid_next_outgoing_seq_num s (owner r) + 1), outgoing_messages := q\<rparr>"
    have s1: "cid_to_socket s1 = cid_to_socket s" "outgoing_messages s1 = q" "cid_next_outgoing_seq_num s1 =
        (cid_next_outgoing_seq_num s)(owner r := cid_next_outgoing_seq_num s (owner r) + 1)"
      by (simp_all add: s1_def)
    have conn: "connected (s1, srv1) rs"
    proof (rule connected_step)
      show "connected (s, srv) (r # rs)" using Suc.prems(3) Cons by simp
    qed (use sent none in \<open>force simp: s1_def\<close>)+
    have "\<exists>s' srv'. send_responses n (s1, srv1) = Inr (s', srv') \<and> contents (outgoing_messages s') = [] \<and>
     (\<forall>d k. all_sockets srv1 d = Some k \<longrightarrow> (\<exists>k'. all_sockets srv' d = Some k' \<and>
        send_buffer k' = send_buffer k @ responses.stream (filter (sends_to s1 d) (label (cid_next_outgoing_seq_num s1) rs))))"
      using Suc.IH[of s1 srv1] Suc.prems(2,4) q conn Cons unfolding s1(2) by (simp del: length_contents)
    then obtain s2 srv2 where IH: "send_responses n (s1, srv1) = Inr (s2, srv2)" "contents (outgoing_messages s2) = []"
      "\<And>d k. all_sockets srv1 d = Some k \<Longrightarrow> \<exists>k'. all_sockets srv2 d = Some k' \<and>
        send_buffer k' = send_buffer k @ responses.stream (filter (sends_to s1 d) (label (cid_next_outgoing_seq_num s1) rs))"
      by blast
    have "num_elements (outgoing_messages s) \<noteq> 0" using Cons length_contents[of "outgoing_messages s"] by auto
    then have run: "send_responses (Suc n) (s, srv) = Inr (s2, srv2)"
      using front Cons step q IH(1) by (simp add: queue_size_def s1_def)
    have "sends_to s1 = sends_to s" by (simp add: s1_def sends_to_def fun_eq_iff)
    then have "\<exists>k'. all_sockets srv2 d = Some k' \<and> send_buffer k' = send_buffer k @ responses.stream (filter (sends_to s d)
          (label (cid_next_outgoing_seq_num s) (r # rs)))" if k: "all_sockets srv d = Some k" for d k
    proof -
      obtain k1 where k1: "all_sockets srv1 d = Some k1" "send_buffer k1 = send_buffer k @ (if cid_to_socket s (owner r) = Some d
          then encode_response \<lparr>ogrs_seq_num = cid_next_outgoing_seq_num s (owner r), ogrs_response = r\<rparr> else [])"
        using sent[OF k] by blast
      obtain k2 where "all_sockets srv2 d = Some k2" "send_buffer k2 = send_buffer k1 @ responses.stream (filter (sends_to s d)
          (label (cid_next_outgoing_seq_num s1) rs))"
        using IH(3)[OF k1(1)] \<open>sends_to s1 = sends_to s\<close> by auto
      then show ?thesis using k1(2) by (simp add: s1(3) sends_to_def)
    qed
    then show ?thesis using run IH(2) unfolding Cons by blast
  qed
qed simp

text \<open>One pass of the server's loop over its outgoing queue sends every response to the socket
  of its client, numbered consecutively per client and in the order of the queue, and leaves
  the queue empty.\<close>

theorem responses_numbered:
  assumes "queue_ok (outgoing_messages s)" and "length (contents (outgoing_messages s)) < store_size (outgoing_messages s)"
    and "connected (s, srv) (contents (outgoing_messages s))"
    and "all_sockets srv d = Some k" and "cid_to_socket s c = Some d"
    and "\<forall>c'. cid_to_socket s c' = Some d \<longrightarrow> c' = c"
  shows "\<exists>s' srv' k'. send_responses (queue_size (outgoing_messages s) + 1) (s, srv) = Inr (s', srv') \<and>
     contents (outgoing_messages s') = [] \<and> all_sockets srv' d = Some k' \<and>
     send_buffer k' = send_buffer k @ responses.stream (numbered_responses (cid_next_outgoing_seq_num s c)
       (filter (\<lambda>r. owner r = c) (contents (outgoing_messages s))))"
proof -
  have "sends_to s d w \<longleftrightarrow> owner (ogrs_response w) = c" for w
    unfolding sends_to_def using assms(5,6) by blast
  then have "sends_to s d = (\<lambda>w. owner (ogrs_response w) = c)" by (rule ext)
  moreover have "length (contents (outgoing_messages s)) < queue_size (outgoing_messages s) + 1"
    by (simp add: queue_size_def)
  from send_all_responses[OF assms(1-3) this]
  obtain s' srv' where run: "send_responses (queue_size (outgoing_messages s) + 1) (s, srv) = Inr (s', srv')"
      "contents (outgoing_messages s') = []" and sent: "\<And>d k. all_sockets srv d = Some k \<Longrightarrow> \<exists>k'. all_sockets srv' d = Some k' \<and>
        send_buffer k' = send_buffer k @ responses.stream (filter (sends_to s d)
          (label (cid_next_outgoing_seq_num s) (contents (outgoing_messages s))))"
    by blast
  ultimately show ?thesis using sent[OF assms(4)] run by (simp only: label_client) blast
qed

section \<open>Examples\<close>

text \<open>A server with client 1 on the socket 7 and two responses waiting, one of them for client 1.\<close>

definition sample_response :: "u32 \<Rightarrow> MEClientResponse" where
  "sample_response c = \<lparr>rs_type = ACCEPTED, rs_client_id = c, rs_ticker_id = 3, rs_client_order_id = 5,
     rs_market_order_id = 1, rs_side = BUY, rs_price = 100, rs_exec_qty = 0, rs_left_qty = 10\<rparr>"

definition sample_order :: "u64 \<Rightarrow> MEClientRequest" where
  "sample_order n = \<lparr>rq_type = CRQ_NEW, rq_client_id = 1, rq_ticker_id = 3, rq_order_id = n, rq_side = BUY,
     rq_price = 100, rq_qty = 10\<rparr>"

definition sample_order_server :: OrderServer where
  "sample_order_server = (new_OrderServer (newQueue (sample_order 0) 8)
     (push (sample_response 2) (push (sample_response 1) (newQueue (sample_response 0) 8))))
     \<lparr>cid_to_socket := [1 \<mapsto> 7, 2 \<mapsto> 8]\<rparr>"

definition sample_connections :: TCPServer where
  "sample_connections = \<lparr>listener_fd = 3, all_sockets = [7 \<mapsto> new_TCPSocket 7, 8 \<mapsto> new_TCPSocket 8],
     recv_sockets = [7, 8], send_sockets = []\<rparr>"

lemma sample_order_wf [simp]: "request_wf (sample_order n)"
  by (simp add: request_wf_def sample_order_def byte_rq_def byte_side_def)

lemma sample_order_client [simp]: "unat (rq_client_id (sample_order n)) = 1"
  by (simp add: sample_order_def)

lemma sample_server_fields [simp]:
  "cid_to_socket sample_order_server = [1 \<mapsto> 7, 2 \<mapsto> 8]" "cid_next_exp_seq_num sample_order_server = (\<lambda>_. 1)"
  "cid_next_outgoing_seq_num sample_order_server = (\<lambda>_. 1)"
  "pending_client_requests (fifo_sequencer sample_order_server) = []"
  by (simp_all add: sample_order_server_def new_OrderServer_def)

lemma sample_outgoing:
  "queue_ok (outgoing_messages sample_order_server)" "store_size (outgoing_messages sample_order_server) = 8"
  "contents (outgoing_messages sample_order_server) = [sample_response 1, sample_response 2]"
proof -
  let ?q = "newQueue (sample_response 0) 8"
  have q: "queue_ok ?q" "contents ?q = []" "store_size ?q = 8" "num_elements ?q = 0"
    by (simp_all add: newQueue_ok) (simp add: newQueue_def)
  note q1 = queue_ok_push[OF q(1), of "sample_response 1"]
  note q2 = queue_ok_push[OF q1(1), of "sample_response 2"]
  show "queue_ok (outgoing_messages sample_order_server)" "store_size (outgoing_messages sample_order_server) = 8"
    "contents (outgoing_messages sample_order_server) = [sample_response 1, sample_response 2]"
    using q q1 q2 by (simp_all add: sample_order_server_def new_OrderServer_def)
qed

theorem server_accepts_stream_witness:
  "\<exists>s'. recvCallbacks 9 \<lparr>fd = 7, send_buffer = [],
       recv_buffer = requests.stream (numbered_requests 1 [sample_order 5, sample_order 6]) @ [0, 1]\<rparr> sample_order_server =
       Inr (\<lparr>fd = 7, send_buffer = [], recv_buffer = [0, 1]\<rparr>, s') \<and>
     pending_client_requests (fifo_sequencer s') = [(9, sample_order 5), (9, sample_order 6)] \<and>
     cid_next_exp_seq_num s' 1 = 3"
  using server_accepts_stream[of "[sample_order 5, sample_order 6]" 1 "\<lparr>fd = 7, send_buffer = [],
       recv_buffer = requests.stream (numbered_requests 1 [sample_order 5, sample_order 6]) @ [0, 1]\<rparr>"
       sample_order_server "[0, 1]" 9]
  by (simp add: bound_to_def size_defs request_size_def MAX_PENDING_REQUESTS_def)

theorem gap_stalls_client_witness:
  "recvCallbacks 9 \<lparr>fd = 7, send_buffer = [], recv_buffer = requests.stream (numbered_requests 2 [sample_order 6]) @ []\<rparr>
     sample_order_server = Inr (\<lparr>fd = 7, send_buffer = [], recv_buffer = []\<rparr>, sample_order_server)"
  using gap_stalls_client[of "[sample_order 6]" 1 sample_order_server "\<lparr>fd = 7, send_buffer = [],
       recv_buffer = requests.stream (numbered_requests 2 [sample_order 6]) @ []\<rparr>" "[]" 9]
  by (simp add: size_defs request_size_def)

theorem wrong_socket_rejected_witness:
  "accept_request 8 9 \<lparr>ogrq_seq_num = 1, ogrq_request = sample_order 5\<rparr> sample_order_server = Inr sample_order_server"
  by (rule wrong_socket_rejected[of _ _ 7]) (simp_all add: size_defs)

theorem publishes_by_time_witness:
  "\<exists>xs. contents (incoming_request (sequenceAndPublish (sort_key fst)
       \<lparr>pending_client_requests = [(5, sample_order 1), (3, sample_order 2)], incoming_request = newQueue (sample_order 0) 8\<rparr>)) =
     map snd xs \<and> xs = [(3, sample_order 2), (5, sample_order 1)]"
  using publishes_by_time[OF stable.time_sort_axioms, of "\<lparr>pending_client_requests = [(5, sample_order 1), (3, sample_order 2)],
      incoming_request = newQueue (sample_order 0) 8\<rparr>"]
  by (auto simp: newQueue_ok)

theorem responses_numbered_witness:
  "\<exists>s' srv' k'. send_responses 3 (sample_order_server, sample_connections) = Inr (s', srv') \<and>
     contents (outgoing_messages s') = [] \<and> all_sockets srv' 7 = Some k' \<and>
     send_buffer k' = encode_response \<lparr>ogrs_seq_num = 1, ogrs_response = sample_response 1\<rparr>"
proof -
  have conn: "connected (sample_order_server, sample_connections) (contents (outgoing_messages sample_order_server))"
    unfolding sample_outgoing
    by (auto simp: connected_def sample_response_def size_defs sample_connections_def new_TCPSocket_def
        response_size_def TCPBufferSize_def)
  have fuel: "queue_size (outgoing_messages sample_order_server) + 1 = 3"
    using length_contents[of "outgoing_messages sample_order_server"] unfolding sample_outgoing queue_size_def by simp
  have sock: "all_sockets sample_connections 7 = Some (new_TCPSocket 7)" "cid_to_socket sample_order_server 1 = Some 7"
    "\<forall>c'. cid_to_socket sample_order_server c' = Some 7 \<longrightarrow> c' = 1"
    by (simp_all add: sample_connections_def)
  have mine: "filter (\<lambda>r. owner r = 1) [sample_response 1, sample_response 2] = [sample_response 1]"
    by (simp add: sample_response_def)
  have room: "length (contents (outgoing_messages sample_order_server)) < store_size (outgoing_messages sample_order_server)"
    unfolding sample_outgoing by simp
  show ?thesis
    using responses_numbered[OF sample_outgoing(1) room conn sock]
    unfolding fuel sample_outgoing mine by (simp add: new_TCPSocket_def)
qed

end
