(* ===== verification/OrderGateway.thy ===== *)
theory OrderGateway
  imports OrderServer
begin

text \<open>
  \<^verbatim>\<open>order_gateway.hpp\<close> and \<^verbatim>\<open>order_gateway.cpp\<close> of the client: the
  thread that numbers the trade engine's requests and sends them to the exchange, and hands the
  responses that carry its client identifier and the expected number to the trade engine. Its
  socket is kept beside its own state, as in the socket's interface. At the end the gateway and
  the order server are put together.
\<close>

section \<open>The gateway\<close>

record OrderGateway =
  gw_client_id :: ClientId
  outgoing_requests :: "MEClientRequest spscQueue"
  incoming_responses :: "MEClientResponse spscQueue"
  next_outgoing_seq_num :: u64
  next_incoming_seq_num :: u64

definition new_OrderGateway ::
  "ClientId \<Rightarrow> MEClientRequest spscQueue \<Rightarrow> MEClientResponse spscQueue \<Rightarrow> OrderGateway" where
  "new_OrderGateway c rq rs = \<lparr>gw_client_id = c, outgoing_requests = rq, incoming_responses = rs,
     next_outgoing_seq_num = 1, next_incoming_seq_num = 1\<rparr>"

text \<open>The body of the loop of \<^verbatim>\<open>recvCallback\<close>, for one response.\<close>

definition gateway_accept :: "OGClientResponse \<Rightarrow> OrderGateway \<Rightarrow> OrderGateway res" where
  "gateway_accept r g =
    (if rs_client_id (ogrs_response r) \<noteq> gw_client_id g then Inr g
     else if ogrs_seq_num r \<noteq> next_incoming_seq_num g then Inr g
     else Inr (g\<lparr>next_incoming_seq_num := next_incoming_seq_num g + 1,
                 incoming_responses := push (ogrs_response r) (incoming_responses g)\<rparr>))"

text \<open>What is left of the buffer is moved to its front from the second byte of the buffer on, not
  from the first unread byte.\<close>

definition gateway_recvCallback :: "Nanos \<Rightarrow> TCPSocket \<Rightarrow> OrderGateway \<Rightarrow> (TCPSocket \<times> OrderGateway) res" where
  "gateway_recvCallback rx_time k g =
    (if length (recv_buffer k) < response_size then Inr (k, g)
     else
       res_bind (read_frames response_size (\<lambda>f. gateway_accept (decode_response f)) (recv_buffer k) g)
         (\<lambda>(rest, g). Inr (k\<lparr>recv_buffer := take (length rest) (drop 1 (recv_buffer k))\<rparr>, g)))"

text \<open>The loop of \<^verbatim>\<open>run\<close> over the outgoing requests.\<close>

primrec send_requests :: "nat \<Rightarrow> TCPSocket \<times> OrderGateway \<Rightarrow> (TCPSocket \<times> OrderGateway) res" where
  "send_requests 0 st = Inl Diverged"
| "send_requests (Suc n) st =
    (case st of (k, g) \<Rightarrow>
     case getNextRead (outgoing_requests g) of
       None \<Rightarrow> Inr (k, g)
     | Some q \<Rightarrow>
         res_bind (tcp_send (put64 (next_outgoing_seq_num g)) k) (\<lambda>k.
         res_bind (tcp_send (encode_me_request q) k) (\<lambda>k.
         res_bind (updateNextRead (outgoing_requests g)) (\<lambda>rq.
         send_requests n (k, g\<lparr>outgoing_requests := rq, next_outgoing_seq_num := next_outgoing_seq_num g + 1\<rparr>)))))"

text \<open>One iteration of the gateway's thread; the bytes are what the socket hands to the kernel.\<close>

definition gateway_round :: "u8 list \<times> Nanos \<Rightarrow> TCPSocket \<times> OrderGateway \<Rightarrow> (u8 list \<times> TCPSocket \<times> OrderGateway) res" where
  "gateway_round rx st =
    (case st of (k, g) \<Rightarrow>
     res_bind (tcp_sendAndRecv gateway_recvCallback rx k g) (\<lambda>(_, out, k, g).
     res_bind (send_requests (queue_size (outgoing_requests g) + 1) (k, g)) (\<lambda>(k, g).
     Inr (out, k, g))))"

section \<open>Sending\<close>

lemma send_requests_all:
  assumes "queue_ok (outgoing_requests g)" and "length (contents (outgoing_requests g)) < store_size (outgoing_requests g)"
    and "length (send_buffer k) + length (contents (outgoing_requests g)) * request_size \<le> TCPBufferSize"
    and "length (contents (outgoing_requests g)) < n"
  shows "\<exists>g'. send_requests n (k, g) = Inr (k\<lparr>send_buffer := send_buffer k @
       requests.stream (numbered_requests (next_outgoing_seq_num g) (contents (outgoing_requests g)))\<rparr>, g') \<and>
     queue_ok (outgoing_requests g') \<and> contents (outgoing_requests g') = [] \<and>
     next_outgoing_seq_num g' = next_outgoing_seq_num g + of_nat (length (contents (outgoing_requests g))) \<and>
     incoming_responses g' = incoming_responses g \<and> next_incoming_seq_num g' = next_incoming_seq_num g"
  using assms
proof (induction n arbitrary: g k)
  case (Suc n)
  note front = lfq.front_items[OF Suc.prems(1,2)]
  show ?case
  proof (cases "contents (outgoing_requests g)")
    case Nil
    then show ?thesis using front Suc.prems(1) by simp
  next
    case (Cons q qs)
    define bs where "bs = encode_request \<lparr>ogrq_seq_num = next_outgoing_seq_num g, ogrq_request = q\<rparr>"
    have bs: "bs = put64 (next_outgoing_seq_num g) @ encode_me_request q" by (simp add: bs_def encode_request_def)
    have len: "length bs = request_size" by (simp add: bs_def)
    obtain rq where rq: "updateNextRead (outgoing_requests g) = Inr rq" "queue_ok rq" "contents rq = qs"
        "store_size rq = store_size (outgoing_requests g)"
      using lfq.drop_items[OF Suc.prems(1)] Cons by auto
    define k1 where "k1 = k\<lparr>send_buffer := send_buffer k @ bs\<rparr>"
    define g1 where "g1 = g\<lparr>outgoing_requests := rq, next_outgoing_seq_num := next_outgoing_seq_num g + 1\<rparr>"
    have room: "length (send_buffer k) + length bs + length qs * request_size \<le> TCPBufferSize"
      using Suc.prems(3) Cons len by (simp del: length_contents)
    then have "send_requests (Suc n) (k, g) = send_requests n (k1, g1)"
      using front Cons rq by (simp add: tcp_send_def bs k1_def g1_def)
    moreover have "length (contents (outgoing_requests g1)) < store_size (outgoing_requests g1)"
        "length (send_buffer k1) + length (contents (outgoing_requests g1)) * request_size \<le> TCPBufferSize"
        "length (contents (outgoing_requests g1)) < n" "queue_ok (outgoing_requests g1)"
      using Suc.prems Cons rq room by (simp_all add: g1_def k1_def len del: length_contents)
    then obtain g' where "send_requests n (k1, g1) = Inr (k1\<lparr>send_buffer := send_buffer k1 @
         requests.stream (numbered_requests (next_outgoing_seq_num g1) qs)\<rparr>, g')"
      "queue_ok (outgoing_requests g')" "contents (outgoing_requests g') = []"
      "next_outgoing_seq_num g' = next_outgoing_seq_num g1 + of_nat (length qs)"
      "incoming_responses g' = incoming_responses g1" "next_incoming_seq_num g' = next_incoming_seq_num g1"
      using Suc.IH[of g1 k1] rq by (auto simp: g1_def)
    ultimately show ?thesis using Cons by (auto simp: k1_def g1_def bs_def algebra_simps)
  qed
qed simp

section \<open>Receiving\<close>

lemma gateway_accept_numbered:
  assumes "list_all (\<lambda>r. rs_client_id r = gw_client_id g) rs"
  shows "res_fold gateway_accept (numbered_responses (next_incoming_seq_num g) rs) g =
      Inr (g\<lparr>next_incoming_seq_num := next_incoming_seq_num g + of_nat (length rs),
             incoming_responses := fold push rs (incoming_responses g)\<rparr>)"
  using assms
proof (induction rs arbitrary: g)
  case (Cons r rs)
  then show ?case using Cons.IH[of "g\<lparr>next_incoming_seq_num := next_incoming_seq_num g + 1,
             incoming_responses := push r (incoming_responses g)\<rparr>"]
    by (simp add: gateway_accept_def algebra_simps)
qed simp

lemma gateway_accept_all:
  assumes "list_all (\<lambda>r. rs_client_id r = gw_client_id g) rs" and "queue_ok (incoming_responses g)"
    and "length (contents (incoming_responses g)) + length rs < store_size (incoming_responses g)"
  shows "\<exists>g'. res_fold gateway_accept (numbered_responses (next_incoming_seq_num g) rs) g = Inr g' \<and>
     queue_ok (incoming_responses g') \<and> contents (incoming_responses g') = contents (incoming_responses g) @ rs \<and>
     next_incoming_seq_num g' = next_incoming_seq_num g + of_nat (length rs)"
  using gateway_accept_numbered[OF assms(1)] lfq.put_all[OF assms(2,3)] by simp

lemma numbered_responses_wf:
  "list_all response_wf rs \<Longrightarrow> list_all (\<lambda>r. response_wf (ogrs_response r)) (numbered_responses n rs)"
  by (induction rs arbitrary: n) simp_all

lemma gateway_recv_numbered:
  assumes "list_all response_wf rs" and "recv_buffer k = responses.stream (numbered_responses n rs)"
  shows "gateway_recvCallback rx k g = res_bind (res_fold gateway_accept (numbered_responses n rs) g)
     (\<lambda>g. Inr (k\<lparr>recv_buffer := []\<rparr>, g))"
proof (cases rs)
  case Nil
  then have "k\<lparr>recv_buffer := []\<rparr> = k" using assms(2) by simp
  then show ?thesis using assms Nil by (simp add: gateway_recvCallback_def response_size_def)
next
  case (Cons r rest)
  then have "\<not> length (recv_buffer k) < response_size"
    using assms(2) by (simp add: responses.stream_length)
  then show ?thesis
    using responses.read_stream[OF numbered_responses_wf[OF assms(1), of n], of "[]" gateway_accept g] assms(2)
    by (cases "res_fold gateway_accept (numbered_responses n rs) g") (simp_all add: gateway_recvCallback_def response_size_def)
qed

section \<open>Gateway and server together\<close>

text \<open>The requests the trade engine has queued are numbered, sent and, when the exchange reads
  them, recorded by the order server in the same order, without a loss: the bytes the gateway's
  next round hands to its socket are exactly what the server needs to accept every one of them.\<close>

theorem requests_reach_sequencer:
  assumes "queue_ok (outgoing_requests g)" and "contents (outgoing_requests g) = qs" and "length qs < store_size (outgoing_requests g)"
    and "send_buffer k = []" and "length qs * request_size \<le> TCPBufferSize"
    and "list_all (\<lambda>q. request_wf q \<and> rq_client_id q = c) qs" and "unat c < ME_MAX_NUM_CLIENTS"
    and "next_outgoing_seq_num g = cid_next_exp_seq_num s (unat c)" and "bound_to (fd j) (unat c) s" and "recv_buffer j = []"
    and "pending_client_requests (fifo_sequencer s) = []" and "length qs \<le> MAX_PENDING_REQUESTS"
  shows "\<exists>k1 g1 bs k2 g2 j' s'. send_requests (queue_size (outgoing_requests g) + 1) (k, g) = Inr (k1, g1) \<and>
     gateway_round ([], t) (k1, g1) = Inr (bs, k2, g2) \<and>
     recvCallbacks rx (j\<lparr>recv_buffer := bs\<rparr>) s = Inr (j', s') \<and>
     pending_client_requests (fifo_sequencer s') = map (Pair rx) qs \<and>
     cid_next_exp_seq_num s' (unat c) = next_outgoing_seq_num g2"
proof -
  obtain g1 where run: "send_requests (queue_size (outgoing_requests g) + 1) (k, g) = Inr (k\<lparr>send_buffer := send_buffer k @
       requests.stream (numbered_requests (next_outgoing_seq_num g) qs)\<rparr>, g1)"
    and g1: "queue_ok (outgoing_requests g1)" "contents (outgoing_requests g1) = []"
      "next_outgoing_seq_num g1 = next_outgoing_seq_num g + of_nat (length qs)"
    using send_requests_all[of g k "queue_size (outgoing_requests g) + 1"] assms
    by (auto simp: queue_size_def simp flip: length_contents simp del: send_requests.simps length_contents)
  let ?k1 = "k\<lparr>send_buffer := requests.stream (numbered_requests (next_outgoing_seq_num g) qs)\<rparr>"
  have "num_elements (outgoing_requests g1) = 0" using g1(2) length_contents[of "outgoing_requests g1"] by simp
  then have "getNextRead (outgoing_requests g1) = None" "queue_size (outgoing_requests g1) = 0"
    by (simp_all add: getNextRead_def queue_size_def)
  then have round: "gateway_round ([], t) (?k1, g1) =
      Inr (requests.stream (numbered_requests (next_outgoing_seq_num g) qs), ?k1\<lparr>send_buffer := []\<rparr>, g1)"
    by (simp add: gateway_round_def tcp_idle)
  have "list_all request_wf qs" "list_all (\<lambda>q. unat (rq_client_id q) = unat c) qs"
    using assms(6) by (simp_all add: list_all_iff)
  then obtain s' where s': "recvCallbacks rx (j\<lparr>recv_buffer := requests.stream (numbered_requests (next_outgoing_seq_num g) qs)\<rparr>) s =
      Inr (j\<lparr>recv_buffer := []\<rparr>, s')" "pending_client_requests (fifo_sequencer s') = map (Pair rx) qs"
      "cid_next_exp_seq_num s' (unat c) = cid_next_exp_seq_num s (unat c) + of_nat (length qs)"
    using server_accepts[of qs "unat c" "j\<lparr>recv_buffer := requests.stream (numbered_requests (next_outgoing_seq_num g) qs)\<rparr>" s "[]" rx]
      assms by (auto simp: request_size_def)
  have "send_requests (queue_size (outgoing_requests g) + 1) (k, g) = Inr (?k1, g1)" using run assms(4) by simp
  then show ?thesis using round s' g1(3) assms(8) by metis
qed

text \<open>The responses the server has numbered for a client reach the trade engine in order when the
  gateway's reads end where a response ends.\<close>

theorem responses_reach_client:
  assumes "list_all (\<lambda>r. response_wf r \<and> rs_client_id r = gw_client_id g) rs" and "queue_ok (incoming_responses g)"
    and "length (contents (incoming_responses g)) + length rs < store_size (incoming_responses g)"
    and "recv_buffer k = responses.stream (numbered_responses (next_incoming_seq_num g) rs)"
  shows "\<exists>g'. gateway_recvCallback rx k g = Inr (k\<lparr>recv_buffer := []\<rparr>, g') \<and>
     contents (incoming_responses g') = contents (incoming_responses g) @ rs \<and>
     next_incoming_seq_num g' = next_incoming_seq_num g + of_nat (length rs)"
proof -
  have "list_all response_wf rs" "list_all (\<lambda>r. rs_client_id r = gw_client_id g) rs"
    using assms(1) by (simp_all add: list_all_iff)
  then show ?thesis
    using gateway_accept_all[OF _ assms(2,3)] gateway_recv_numbered[OF _ assms(4), of rx g] by auto
qed

section \<open>A response cut by the network\<close>

text \<open>The first eight bytes after the byte the callback skips.\<close>

lemma put64_head: "put64 n = word_of_nat (unat n) # put_le 7 (unat n div 256)"
  using put_le.simps(2)[of 7 "unat n"] by (simp add: put64_def)

lemma shifted_number:
  "drop 1 (encode_response \<lparr>ogrs_seq_num = n, ogrs_response = r\<rparr>) =
     put_le 7 (unat n div 256) @ rs_byte (rs_type r) # drop 1 (encode_me_response r)"
  by (simp add: encode_response_def put64_head encode_me_response_def)

lemma get_le_append: "get_le (xs @ ys) = get_le xs + 256 ^ length xs * get_le ys"
  by (induction xs) (simp_all add: algebra_simps)

text \<open>The number read from bytes that begin with those is not one the gateway may wait for.\<close>

lemma shifted_number_differs:
  assumes "unat n + m < 2 ^ 56" and "0 < m"
  shows "get64 0 (put_le 7 (unat n div 256) @ b # bs) \<noteq> n + of_nat m"
proof
  assume eq: "get64 0 (put_le 7 (unat n div 256) @ b # bs) = n + of_nat m"
  have b: "unat b < 256" using unat_bound[of b] by simp
  have "get_le (take 8 (put_le 7 (unat n div 256) @ b # bs)) = unat n div 256 mod 256 ^ 7 + 256 ^ 7 * unat b"
    by (simp add: get_le_append get_put_le)
  also have "unat n div 256 mod 256 ^ 7 = unat n div 256" using assms by (intro mod_less) simp
  finally have "get64 0 (put_le 7 (unat n div 256) @ b # bs) = word_of_nat (unat n div 256 + 256 ^ 7 * unat b)"
    by (simp add: get64_def)
  moreover have "unat n div 256 + 256 ^ 7 * unat b < 2 ^ 64" using b assms by simp
  moreover have small: "unat (word_of_nat m :: u64) = m" if "m < 2 ^ 64" for m
    using that by (simp add: unat_of_nat)
  ultimately have "unat (get64 0 (put_le 7 (unat n div 256) @ b # bs)) = unat n div 256 + 256 ^ 7 * unat b"
    by (simp only:)
  moreover have "unat (n + of_nat m) = unat n + m"
    using small[of "unat n + m"] assms(1) by simp
  ultimately have *: "unat n div 256 + 256 ^ 7 * unat b = unat n + m" unfolding eq by simp
  then show False
  proof (cases "unat b = 0")
    case True
    then show False using * div_le_dividend[of "unat n" 256] assms(2) by simp
  next
    case False
    then have "256 ^ 7 \<le> 256 ^ 7 * unat b" by simp
    then show False using * assms by simp
  qed
qed

text \<open>Whole responses under another number than the one it waits for leave the gateway as it is.\<close>

definition read_responses :: "Nanos \<Rightarrow> OGClientResponse list \<Rightarrow> TCPSocket \<times> OrderGateway \<Rightarrow> (TCPSocket \<times> OrderGateway) res" where
  "read_responses t ws st = (case st of (k, g) \<Rightarrow>
     res_bind (tcp_sendAndRecv gateway_recvCallback (responses.stream ws, t) k g) (\<lambda>(got, out, k, g). Inr (k, g)))"

definition misnumbered :: "u64 \<Rightarrow> OGClientResponse list \<Rightarrow> bool" where
  "misnumbered n ws \<longleftrightarrow> ws \<noteq> [] \<and> length ws * response_size \<le> TCPBufferSize \<and>
     list_all (\<lambda>w. response_wf (ogrs_response w) \<and> ogrs_seq_num w \<noteq> n) ws"

lemma accept_misnumbered:
  "list_all (\<lambda>w. ogrs_seq_num w \<noteq> next_incoming_seq_num g) ws \<Longrightarrow> res_fold gateway_accept ws g = Inr g"
  by (induction ws) (simp_all add: gateway_accept_def)

lemma read_misnumbered:
  assumes "misnumbered (next_incoming_seq_num g) ws" and "recv_buffer k = []"
  shows "read_responses t ws (k, g) = Inr (k\<lparr>send_buffer := []\<rparr>, g)"
proof -
  have ws: "length (responses.stream ws) = length ws * response_size" "list_all (\<lambda>w. response_wf (ogrs_response w)) ws"
    "list_all (\<lambda>w. ogrs_seq_num w \<noteq> next_incoming_seq_num g) ws" "0 < length ws" "length ws * response_size \<le> TCPBufferSize"
    using assms(1) by (simp_all add: misnumbered_def responses.stream_length list_all_iff)
  have "responses.stream ws \<noteq> []" using ws(1,4) by (auto simp: response_size_def)
  moreover have "response_size \<le> length (responses.stream ws)" using ws(1,4) by (simp add: Suc_le_eq)
  moreover have "read_frames response_size (\<lambda>f. gateway_accept (decode_response f)) (responses.stream ws) g = Inr ([], g)"
    using responses.read_stream[OF ws(2), of "[]" gateway_accept g] accept_misnumbered[OF ws(3)] by (simp add: response_size_def)
  ultimately show ?thesis
    using ws(1,5) assms(2) by (simp add: read_responses_def tcp_received gateway_recvCallback_def)
qed

lemma reads_misnumbered:
  assumes "list_all (misnumbered (next_incoming_seq_num g)) wss" and "recv_buffer k = []"
  shows "\<exists>k'. res_fold (read_responses t) wss (k, g) = Inr (k', g) \<and> recv_buffer k' = []"
  using assms
proof (induction wss arbitrary: k)
  case (Cons ws wss)
  then show ?case using read_misnumbered[of g ws k t] Cons.IH[of "k\<lparr>send_buffer := []\<rparr>"] by simp
qed simp

text \<open>C39: when a read brings at least one whole response and ends inside the next one, beyond its number, that
  response is lost although all its bytes arrive: the callback keeps bytes of the first
  response of the read in its place, and the number it then reads is not the expected one. The gateway goes on waiting for
  the number of the lost response: of all whole responses that come later, however they are
  spread over reads, it accepts none that does not carry this number again.\<close>

theorem cut_response_lost:
  assumes n: "next_incoming_seq_num g = n" "unat n + length rs < 2 ^ 56" and rs: "rs \<noteq> []" "list_all response_wf rs"
    "list_all (\<lambda>r. rs_client_id r = gw_client_id g) rs"
    and q: "queue_ok (incoming_responses g)" "length (contents (incoming_responses g)) + length rs < store_size (incoming_responses g)"
    and k: "recv_buffer k = []" "(length rs + 1) * response_size \<le> TCPBufferSize" and j: "8 \<le> j" "j < response_size"
    and lost: "bs2 = encode_response \<lparr>ogrs_seq_num = n + of_nat (length rs), ogrs_response = r\<rparr>"
    and later: "list_all (misnumbered (n + of_nat (length rs))) wss"
  shows "\<exists>k1 g1 k2 k3.
     tcp_sendAndRecv gateway_recvCallback (responses.stream (numbered_responses n rs) @ take j bs2, t) k g = Inr (True, send_buffer k, k1, g1) \<and>
     contents (incoming_responses g1) = contents (incoming_responses g) @ rs \<and> next_incoming_seq_num g1 = n + of_nat (length rs) \<and>
     tcp_sendAndRecv gateway_recvCallback (drop j bs2, t') k1 g1 = Inr (True, [], k2, g1) \<and>
     res_fold (read_responses t'') wss (k2, g1) = Inr (k3, g1)"
proof -
  let ?bs = "responses.stream (numbered_responses n rs)"
  obtain r1 rs' where r1: "rs = r1 # rs'" using rs(1) by (cases rs) auto
  let ?enc1 = "encode_response \<lparr>ogrs_seq_num = n, ogrs_response = r1\<rparr>"
  have size: "length ?bs = length rs * response_size" "length bs2 = response_size" by (simp_all add: lost responses.stream_length)
  have small: "TCPBufferSize = 8388608" "response_size = 50" by (simp_all add: TCPBufferSize_def response_size_def)
  from gateway_accept_all[OF rs(3) q] obtain g1 where
    g1: "res_fold gateway_accept (numbered_responses n rs) g = Inr g1" "contents (incoming_responses g1) = contents (incoming_responses g) @ rs"
      "next_incoming_seq_num g1 = n + of_nat (length rs)" by (auto simp: n(1))
  have head: "take j (drop 1 (?bs @ take j bs2)) = take j (drop 1 ?enc1)" using j small by (simp add: r1)
  have "read_frames response_size (\<lambda>f. gateway_accept (decode_response f)) (?bs @ take j bs2) g = Inr (take j bs2, g1)"
    using responses.read_stream[OF numbered_responses_wf[OF rs(2)], of "take j bs2" gateway_accept n g] j size g1(1) by simp
  then have first: "tcp_sendAndRecv gateway_recvCallback (?bs @ take j bs2, t) k g =
      Inr (True, send_buffer k, k\<lparr>recv_buffer := take j (drop 1 ?enc1), send_buffer := []\<rparr>, g1)"
    using k j size small head r1 by (subst tcp_received) (auto simp: gateway_recvCallback_def)
  define buf where "buf = take j (drop 1 ?enc1) @ drop j bs2"
  have len: "length buf = response_size" using j size small by (simp add: buf_def)
  obtain b bs where "buf = put_le 7 (unat n div 256) @ b # bs"
  proof
    show "buf = put_le 7 (unat n div 256) @ rs_byte (rs_type r1) # (take (j - 8) (drop 1 (encode_me_response r1)) @ drop j bs2)"
      using j(1) unfolding buf_def shifted_number by (simp add: take_Cons')
  qed
  then have "ogrs_seq_num (decode_response buf) \<noteq> n + of_nat (length rs)"
    using shifted_number_differs[OF n(2), of b bs] rs(1) by (simp add: decode_response_def)
  then have "gateway_accept (decode_response buf) g1 = Inr g1" by (simp add: gateway_accept_def g1(3))
  then have "read_frames response_size (\<lambda>f. gateway_accept (decode_response f)) buf g1 = Inr ([], g1)"
    using read_frames_step[OF len, of "\<lambda>f. gateway_accept (decode_response f)" "[]" g1] by (simp add: small)
  then have second: "tcp_sendAndRecv gateway_recvCallback (drop j bs2, t') (k\<lparr>recv_buffer := take j (drop 1 ?enc1), send_buffer := []\<rparr>) g1 =
      Inr (True, [], k\<lparr>recv_buffer := [], send_buffer := []\<rparr>, g1)"
    using j size small len by (subst tcp_received) (auto simp: gateway_recvCallback_def buf_def)
  obtain k3 where "res_fold (read_responses t'') wss (k\<lparr>recv_buffer := [], send_buffer := []\<rparr>, g1) = Inr (k3, g1)"
    using reads_misnumbered[of g1 wss "k\<lparr>recv_buffer := [], send_buffer := []\<rparr>" t''] later g1(3) by auto
  then show ?thesis using first second g1(2,3) by (intro exI conjI)
qed

section \<open>Examples\<close>

definition sample_gateway :: OrderGateway where
  "sample_gateway = new_OrderGateway 1 (push (sample_order 5) (newQueue (sample_order 0) 8)) (newQueue (sample_response 0) 8)"

lemma sample_gateway_fields [simp]:
  "gw_client_id sample_gateway = 1" "next_outgoing_seq_num sample_gateway = 1" "next_incoming_seq_num sample_gateway = 1"
  "incoming_responses sample_gateway = newQueue (sample_response 0) 8"
  by (simp_all add: sample_gateway_def new_OrderGateway_def)

lemma sample_requests:
  "queue_ok (outgoing_requests sample_gateway)" "store_size (outgoing_requests sample_gateway) = 8"
  "contents (outgoing_requests sample_gateway) = [sample_order 5]"
proof -
  have "num_elements (newQueue (sample_order 0) 8) = 0" by (simp add: newQueue_def)
  note q = queue_ok_push[OF newQueue_ok(1)[of 8 "sample_order 0"], of "sample_order 5"]
  show "queue_ok (outgoing_requests sample_gateway)" "store_size (outgoing_requests sample_gateway) = 8"
    "contents (outgoing_requests sample_gateway) = [sample_order 5]"
    using q \<open>num_elements _ = 0\<close> by (simp_all add: sample_gateway_def new_OrderGateway_def newQueue_ok)
qed

lemma sample_response_wf [simp]: "response_wf (sample_response c)" "rs_client_id (sample_response c) = c"
  by (simp_all add: response_wf_def sample_response_def byte_rs_def byte_side_def)

theorem requests_reach_sequencer_witness:
  "\<exists>k1 g1 bs k2 g2 j' s'. send_requests (queue_size (outgoing_requests sample_gateway) + 1) (new_TCPSocket 4, sample_gateway) = Inr (k1, g1) \<and>
     gateway_round ([], 0) (k1, g1) = Inr (bs, k2, g2) \<and>
     recvCallbacks 9 ((new_TCPSocket 7)\<lparr>recv_buffer := bs\<rparr>) sample_order_server = Inr (j', s') \<and>
     pending_client_requests (fifo_sequencer s') = map (Pair 9) [sample_order 5] \<and>
     cid_next_exp_seq_num s' (unat (1 :: ClientId)) = next_outgoing_seq_num g2"
proof (rule requests_reach_sequencer)
  show "list_all (\<lambda>q. request_wf q \<and> rq_client_id q = 1) [sample_order 5]"
    by simp (simp add: sample_order_def)
qed (simp_all add: sample_requests new_TCPSocket_def TCPBufferSize_def request_size_def size_defs bound_to_def
    MAX_PENDING_REQUESTS_def)

theorem responses_reach_client_witness:
  "\<exists>g'. gateway_recvCallback 9 ((new_TCPSocket 4)\<lparr>recv_buffer := responses.stream (numbered_responses 1 [sample_response 1])\<rparr>)
      sample_gateway = Inr ((new_TCPSocket 4)\<lparr>recv_buffer := []\<rparr>, g') \<and>
     contents (incoming_responses g') = [sample_response 1] \<and> next_incoming_seq_num g' = 2"
  using responses_reach_client[of sample_gateway "[sample_response 1]"
      "(new_TCPSocket 4)\<lparr>recv_buffer := responses.stream (numbered_responses 1 [sample_response 1])\<rparr>" 9]
  by (simp add: newQueue_ok)

text \<open>Two responses, of which the second is cut after 20 bytes, and a third that comes whole.\<close>

theorem cut_response_lost_witness:
  "\<exists>k1 g1 k2 k3. tcp_sendAndRecv gateway_recvCallback
       (responses.stream (numbered_responses 1 [sample_response 1]) @
        take 20 (encode_response \<lparr>ogrs_seq_num = 1 + of_nat (length [sample_response 1]), ogrs_response = sample_response 1\<rparr>), 9)
       (new_TCPSocket 4) sample_gateway = Inr (True, send_buffer (new_TCPSocket 4), k1, g1) \<and>
     contents (incoming_responses g1) = contents (incoming_responses sample_gateway) @ [sample_response 1] \<and>
     next_incoming_seq_num g1 = 1 + of_nat (length [sample_response 1]) \<and>
     tcp_sendAndRecv gateway_recvCallback
       (drop 20 (encode_response \<lparr>ogrs_seq_num = 1 + of_nat (length [sample_response 1]), ogrs_response = sample_response 1\<rparr>), 10) k1 g1 =
       Inr (True, [], k2, g1) \<and>
     res_fold (read_responses 11) [[\<lparr>ogrs_seq_num = 3, ogrs_response = sample_response 1\<rparr>]] (k2, g1) = Inr (k3, g1)"
  by (rule cut_response_lost)
    (simp_all add: newQueue_ok new_TCPSocket_def response_size_def TCPBufferSize_def misnumbered_def)

end
