(* ===== verification/MarketDataPublisher.thy ===== *)
theory MarketDataPublisher
  imports Sockets SpscQueue
begin

text \<open>
  \<^verbatim>\<open>market_data_publisher.hpp\<close> and \<^verbatim>\<open>market_data_publisher.cpp\<close> of the
  exchange: the thread that numbers the matching engine's market updates, sends them on the
  incremental multicast stream and hands the numbered updates to the snapshot synthetizer.
\<close>

section \<open>The publisher\<close>

record MarketDataPublisher =
  next_seq_num :: u64
  outgoing_market_data :: "MEMarketUpdate spscQueue"
  snapshot_updates :: "MDPMarketUpdate spscQueue"
  incremental_socket :: McastSocket

definition default_mdp_update :: MDPMarketUpdate where
  "default_mdp_update = \<lparr>mdp_seq_num = 0, mdp_update = default_update\<rparr>"

definition new_MarketDataPublisher :: "MEMarketUpdate spscQueue \<Rightarrow> int \<Rightarrow> MarketDataPublisher" where
  "new_MarketDataPublisher q d = \<lparr>next_seq_num = 1, outgoing_market_data = q,
     snapshot_updates = newQueue default_mdp_update ME_MAX_MARKET_UPDATES,
     incremental_socket = mcast_init d (new_McastSocket (- 1))\<rparr>"

text \<open>The body of the loop of \<^verbatim>\<open>run\<close>. The update is copied into the synthetizer's queue
  through the pointer into the slot of the outgoing queue that \<^verbatim>\<open>updateNextRead\<close> has
  already given back.\<close>

definition publish_update :: "MEMarketUpdate \<Rightarrow> MarketDataPublisher \<Rightarrow> MarketDataPublisher res" where
  "publish_update u p =
    (let slot = next_read_idx (outgoing_market_data p) in
     res_bind (mcast_send (put64 (next_seq_num p)) (incremental_socket p)) (\<lambda>k.
     res_bind (mcast_send (encode_me_update u) k) (\<lambda>k.
     res_bind (updateNextRead (outgoing_market_data p)) (\<lambda>q.
     Inr (p\<lparr>incremental_socket := k, outgoing_market_data := q,
            snapshot_updates := push \<lparr>mdp_seq_num = next_seq_num p, mdp_update = store q slot\<rparr> (snapshot_updates p),
            next_seq_num := next_seq_num p + 1\<rparr>)))))"

primrec publish_updates :: "nat \<Rightarrow> MarketDataPublisher \<Rightarrow> MarketDataPublisher res" where
  "publish_updates 0 p = Inl Diverged"
| "publish_updates (Suc n) p =
    (case getNextRead (outgoing_market_data p) of
       None \<Rightarrow> Inr p
     | Some u \<Rightarrow>
         if queue_size (outgoing_market_data p) > 0 then res_bind (publish_update u p) (publish_updates n)
         else Inr p)"

text \<open>The sockets of the publisher have no callback: calling one would end the program.\<close>

definition no_callback :: "McastSocket \<Rightarrow> unit \<Rightarrow> (McastSocket \<times> unit) res" where
  "no_callback k c = Inl FatalExit"

definition publisher_round :: "u8 list \<Rightarrow> MarketDataPublisher \<Rightarrow> (u8 list \<times> MarketDataPublisher) res" where
  "publisher_round rx p =
    res_bind (publish_updates (queue_size (outgoing_market_data p) + 1) p) (\<lambda>p.
    res_bind (mcast_sendAndRecv no_callback rx (incremental_socket p) ()) (\<lambda>(_, out, k, _).
    Inr (out, p\<lparr>incremental_socket := k\<rparr>)))"

section \<open>The incremental stream\<close>

primrec numbered_updates :: "u64 \<Rightarrow> MEMarketUpdate list \<Rightarrow> MDPMarketUpdate list" where
  "numbered_updates n [] = []"
| "numbered_updates n (u # us) = \<lparr>mdp_seq_num = n, mdp_update = u\<rparr> # numbered_updates (n + 1) us"

interpretation nup: numbering numbered_updates "\<lambda>n u. \<lparr>mdp_seq_num = n, mdp_update = u\<rparr>"
  by unfold_locales simp_all

lemma map_numbered_updates [simp]: "map mdp_update (numbered_updates n us) = us"
  by (induction us arbitrary: n) simp_all

lemma numbered_updates_wf:
  "list_all update_wf us \<Longrightarrow> list_all (\<lambda>u. update_wf (mdp_update u)) (numbered_updates n us)"
  by (induction us arbitrary: n) simp_all

lemma updateNextRead_store: "updateNextRead q = Inr q' \<Longrightarrow> store q' = store q"
  by (auto simp: updateNextRead_def Let_def res_bind_eq_Inr)

lemma publish_update_step:
  assumes "queue_ok (outgoing_market_data p)" and "length (contents (outgoing_market_data p)) < store_size (outgoing_market_data p)"
    and "contents (outgoing_market_data p) = u # us"
    and "length (outbound (incremental_socket p)) + update_size \<le> McastBufferSize"
  obtains q where "publish_update u p = Inr (p\<lparr>
        incremental_socket := (incremental_socket p)\<lparr>outbound := outbound (incremental_socket p) @
          encode_update \<lparr>mdp_seq_num = next_seq_num p, mdp_update = u\<rparr>\<rparr>, outgoing_market_data := q,
        snapshot_updates := push \<lparr>mdp_seq_num = next_seq_num p, mdp_update = u\<rparr> (snapshot_updates p),
        next_seq_num := next_seq_num p + 1\<rparr>)"
    and "queue_ok q" and "contents q = us" and "store_size q = store_size (outgoing_market_data p)"
proof -
  let ?k = "incremental_socket p" and ?o = "outgoing_market_data p"
  define bs where "bs = encode_update \<lparr>mdp_seq_num = next_seq_num p, mdp_update = u\<rparr>"
  have bs: "bs = put64 (next_seq_num p) @ encode_me_update u" by (simp add: bs_def encode_update_def)
  have len: "length bs = update_size" by (simp add: bs_def)
  obtain q where q: "updateNextRead ?o = Inr q" "queue_ok q" "contents q = us" "store_size q = store_size ?o"
    using lfq.drop_items[OF assms(1)] assms(3) by auto
  have "num_elements ?o \<noteq> 0" using assms(3) length_contents[of ?o] by auto
  then have "store ?o (next_read_idx ?o) = u" using contents_Cons[OF assms(1)] assms(3) by simp
  then have slot: "store q (next_read_idx ?o) = u" by (simp add: updateNextRead_store[OF q(1)])
  have "publish_update u p = Inr (p\<lparr>incremental_socket := ?k\<lparr>outbound := outbound ?k @ bs\<rparr>, outgoing_market_data := q,
        snapshot_updates := push \<lparr>mdp_seq_num = next_seq_num p, mdp_update = u\<rparr> (snapshot_updates p),
        next_seq_num := next_seq_num p + 1\<rparr>)"
    using assms(4) len q(1) slot by (simp add: publish_update_def mcast_send_def bs Let_def)
  then show thesis using that q(2-4) unfolding bs_def by blast
qed

lemma publish_all:
  assumes "queue_ok (outgoing_market_data p)" and "length (contents (outgoing_market_data p)) < store_size (outgoing_market_data p)"
    and "queue_ok (snapshot_updates p)"
    and "length (contents (snapshot_updates p)) + length (contents (outgoing_market_data p)) < store_size (snapshot_updates p)"
    and "length (outbound (incremental_socket p)) + length (contents (outgoing_market_data p)) * update_size \<le> McastBufferSize"
    and "length (contents (outgoing_market_data p)) < n"
  shows "\<exists>p'. publish_updates n p = Inr p' \<and> contents (outgoing_market_data p') = [] \<and>
     incremental_socket p' = (incremental_socket p)\<lparr>outbound := outbound (incremental_socket p) @
       updates.stream (numbered_updates (next_seq_num p) (contents (outgoing_market_data p)))\<rparr> \<and>
     queue_ok (snapshot_updates p') \<and> contents (snapshot_updates p') =
       contents (snapshot_updates p) @ numbered_updates (next_seq_num p) (contents (outgoing_market_data p)) \<and>
     next_seq_num p' = next_seq_num p + of_nat (length (contents (outgoing_market_data p)))"
  using assms
proof (induction n arbitrary: p)
  case (Suc n)
  note front = lfq.front_items[OF Suc.prems(1,2)]
  show ?case
  proof (cases "contents (outgoing_market_data p)")
    case Nil
    then show ?thesis using front Suc.prems(3) by simp
  next
    case (Cons u us)
    let ?m = "\<lparr>mdp_seq_num = next_seq_num p, mdp_update = u\<rparr>"
    have "length (outbound (incremental_socket p)) + update_size \<le> McastBufferSize"
      using Suc.prems(5) Cons by (simp del: length_contents)
    then obtain q where step: "publish_update u p = Inr (p\<lparr>
        incremental_socket := (incremental_socket p)\<lparr>outbound := outbound (incremental_socket p) @ encode_update ?m\<rparr>,
        outgoing_market_data := q, snapshot_updates := push ?m (snapshot_updates p), next_seq_num := next_seq_num p + 1\<rparr>)"
      and q: "queue_ok q" "contents q = us" "store_size q = store_size (outgoing_market_data p)"
      using publish_update_step[OF Suc.prems(1,2) Cons] by blast
    define p1 where "p1 = p\<lparr>incremental_socket := (incremental_socket p)\<lparr>outbound := outbound (incremental_socket p) @ encode_update ?m\<rparr>,
        outgoing_market_data := q, snapshot_updates := push ?m (snapshot_updates p), next_seq_num := next_seq_num p + 1\<rparr>"
    have p1: "outgoing_market_data p1 = q" "next_seq_num p1 = next_seq_num p + 1" "snapshot_updates p1 = push ?m (snapshot_updates p)"
        "incremental_socket p1 = (incremental_socket p)\<lparr>outbound := outbound (incremental_socket p) @ encode_update ?m\<rparr>"
      by (simp_all add: p1_def)
    have pushed: "queue_ok (snapshot_updates p1)" "contents (snapshot_updates p1) = contents (snapshot_updates p) @ [?m]"
        "store_size (snapshot_updates p1) = store_size (snapshot_updates p)"
      using lfq.put_items[OF Suc.prems(3), of ?m] Suc.prems(4) Cons unfolding p1 by (simp_all del: length_contents)
    have "\<exists>p'. publish_updates n p1 = Inr p' \<and> contents (outgoing_market_data p') = [] \<and>
       incremental_socket p' = (incremental_socket p1)\<lparr>outbound := outbound (incremental_socket p1) @
         updates.stream (numbered_updates (next_seq_num p1) us)\<rparr> \<and>
       queue_ok (snapshot_updates p') \<and> contents (snapshot_updates p') =
         contents (snapshot_updates p1) @ numbered_updates (next_seq_num p1) us \<and>
       next_seq_num p' = next_seq_num p1 + of_nat (length us)"
      using Suc.IH[of p1] Suc.prems q pushed Cons unfolding p1(1,4) by (simp del: length_contents)
    moreover have "num_elements (outgoing_market_data p) \<noteq> 0" using Cons length_contents[of "outgoing_market_data p"] by auto
    then have "publish_updates (Suc n) p = publish_updates n p1"
      using front Cons step by (simp add: queue_size_def p1_def)
    ultimately show ?thesis using Cons pushed by (auto simp: p1 algebra_simps)
  qed
qed simp

lemma publisher_rounds:
  assumes "queue_ok (outgoing_market_data p)" and "contents (outgoing_market_data p) = us" and "length us < store_size (outgoing_market_data p)"
    and "queue_ok (snapshot_updates p)" and "length (contents (snapshot_updates p)) + length us < store_size (snapshot_updates p)"
    and "outbound (incremental_socket p) = []" and "length us * update_size \<le> McastBufferSize"
  shows "\<exists>p'. publisher_round [] p = Inr (updates.stream (numbered_updates (next_seq_num p) us), p') \<and>
     contents (outgoing_market_data p') = [] \<and>
     contents (snapshot_updates p') = contents (snapshot_updates p) @ numbered_updates (next_seq_num p) us \<and>
     next_seq_num p' = next_seq_num p + of_nat (length us)"
proof -
  have "length us < queue_size (outgoing_market_data p) + 1"
    using length_contents[of "outgoing_market_data p"] assms(2) by (simp add: queue_size_def)
  then obtain p' where "publish_updates (queue_size (outgoing_market_data p) + 1) p = Inr p'" "contents (outgoing_market_data p') = []"
     "incremental_socket p' = (incremental_socket p)\<lparr>outbound := updates.stream (numbered_updates (next_seq_num p) us)\<rparr>"
     "contents (snapshot_updates p') = contents (snapshot_updates p) @ numbered_updates (next_seq_num p) us"
     "next_seq_num p' = next_seq_num p + of_nat (length us)"
    using publish_all[of p "queue_size (outgoing_market_data p) + 1"] assms by auto
  then show ?thesis by (simp add: publisher_round_def mcast_sendAndRecv_def)
qed

text \<open>One round of the publisher puts every waiting market update on the incremental stream,
  numbered consecutively, and gives the synthetizer the same numbered updates.\<close>

theorem publishes_increments:
  assumes "queue_ok (outgoing_market_data p)" and "contents (outgoing_market_data p) = us" and "length us < store_size (outgoing_market_data p)"
    and "queue_ok (snapshot_updates p)" and "length (contents (snapshot_updates p)) + length us < store_size (snapshot_updates p)"
    and "outbound (incremental_socket p) = []" and "length us * update_size \<le> McastBufferSize"
  shows "\<exists>p'. publisher_round [] p = Inr (updates.stream (numbered_updates (next_seq_num p) us), p') \<and>
     contents (outgoing_market_data p') = [] \<and>
     contents (snapshot_updates p') = contents (snapshot_updates p) @ numbered_updates (next_seq_num p) us \<and>
     next_seq_num p' = next_seq_num p + of_nat (length us)"
  using publisher_rounds[OF assms] .

definition sample_update :: "u64 \<Rightarrow> MEMarketUpdate" where
  "sample_update i = \<lparr>mu_type = MU_ADD, mu_order_id = i, mu_ticker_id = 3, mu_side = BUY, mu_price = 100,
     mu_qty = 10, mu_priority = 1\<rparr>"

lemma sample_update_wf [simp]: "update_wf (sample_update i)"
  by (simp add: update_wf_def sample_update_def byte_mu_def byte_side_def)

theorem publishes_increments_witness:
  "\<exists>p'. publisher_round [] (new_MarketDataPublisher (push (sample_update 4) (newQueue (sample_update 0) 8)) 5) =
       Inr (encode_update \<lparr>mdp_seq_num = 1, mdp_update = sample_update 4\<rparr>, p') \<and>
     contents (outgoing_market_data p') = [] \<and> contents (snapshot_updates p') = [\<lparr>mdp_seq_num = 1, mdp_update = sample_update 4\<rparr>] \<and> next_seq_num p' = 2"
proof -
  have q: "queue_ok (push (sample_update 4) (newQueue (sample_update 0) 8))"
    "contents (push (sample_update 4) (newQueue (sample_update 0) 8)) = [sample_update 4]"
    "store_size (push (sample_update 4) (newQueue (sample_update 0) 8)) = 8"
    using lfq.put_items[of "newQueue (sample_update 0) 8" "sample_update 4"] by (simp_all add: newQueue_ok)
  show ?thesis
    using publishes_increments[of "new_MarketDataPublisher (push (sample_update 4) (newQueue (sample_update 0) 8)) 5" "[sample_update 4]"] q
    by (simp add: new_MarketDataPublisher_def newQueue_ok size_defs update_size_def McastBufferSize_def mcast_init_def new_McastSocket_def)
qed

end
