(* ===== verification/MarketDataConsumer.thy ===== *)
theory MarketDataConsumer
  imports MarketDataPublisher
begin

text \<open>
  \<^verbatim>\<open>market_data_consumer.hpp\<close> and \<^verbatim>\<open>market_data_consumer.cpp\<close> of the
  client: the thread that hands the updates of the incremental stream to the trade engine while
  their numbers are consecutive and, after a gap, collects the incremental updates and the
  messages of the snapshot stream until the two together continue without a gap.
\<close>

section \<open>\<^verbatim>\<open>std::map\<close> from sequence numbers\<close>

type_synonym QueuedMarketUpdate = "(u64 \<times> MEMarketUpdate) list"

text \<open>Sorted by key, each key once. \<open>queue_assign\<close> is \<^verbatim>\<open>m[k] = v\<close>.\<close>

fun queue_assign :: "u64 \<Rightarrow> MEMarketUpdate \<Rightarrow> QueuedMarketUpdate \<Rightarrow> QueuedMarketUpdate" where
  "queue_assign k v [] = [(k, v)]"
| "queue_assign k v ((k', v') # q) =
    (if k < k' then (k, v) # (k', v') # q
     else if k = k' then (k, v) # q
     else (k', v') # queue_assign k v q)"

lemma queue_assign_keys [simp]: "fst ` set (queue_assign k v q) = insert k (fst ` set q)"
proof (induction k v q rule: queue_assign.induct)
  case (2 k v k' v' q)
  consider "k < k'" | "k = k'" | "\<not> k < k'" "k \<noteq> k'" by blast
  then show ?case
  proof cases
    case 3
    then show ?thesis using "2.IH" by (simp add: insert_commute)
  qed simp_all
qed simp

lemma queue_assign_sorted: "sorted_wrt (<) (map fst q) \<Longrightarrow> sorted_wrt (<) (map fst (queue_assign k v q))"
proof (induction k v q rule: queue_assign.induct)
  case (2 k v k' v' q)
  have tail: "\<forall>x \<in> fst ` set q. k' < x" "sorted_wrt (<) (map fst q)" using "2.prems" by simp_all
  consider "k < k'" | "k = k'" | "k' < k" by (rule linorder_cases)
  then show ?case
  proof cases
    case 1
    then have "\<forall>x \<in> fst ` set q. k < x" using tail(1) order.strict_trans by blast
    then show ?thesis using 1 tail by simp
  next
    case 2
    then show ?thesis using tail by simp
  next
    case 3
    then have "sorted_wrt (<) (map fst (queue_assign k v q))" using "2.IH" tail(2) by simp
    moreover have "\<forall>x \<in> fst ` set (queue_assign k v q). k' < x" using 3 tail(1) by simp
    moreover have "\<not> k < k'" "k \<noteq> k'" using 3 by (simp_all add: order.asym less_imp_neq[symmetric])
    ultimately show ?thesis by simp
  qed
qed simp

lemma queue_assign_last: "\<forall>x \<in> set q. fst x < k \<Longrightarrow> queue_assign k v q = q @ [(k, v)]"
  by (induction q) auto

section \<open>The consumer\<close>

record MarketDataConsumer =
  exp_seq_num :: u64
  incoming_market_update_queue :: "MEMarketUpdate spscQueue"
  in_incremental :: McastSocket
  in_snapshot :: McastSocket
  packet_lost :: bool
  snapshot_queue_message :: QueuedMarketUpdate
  incremental_queue_message :: QueuedMarketUpdate

definition new_MarketDataConsumer :: "MEMarketUpdate spscQueue \<Rightarrow> int \<Rightarrow> MarketDataConsumer" where
  "new_MarketDataConsumer q d = \<lparr>exp_seq_num = 1, incoming_market_update_queue = q,
     in_incremental = mcast_init d (new_McastSocket (- 1)), in_snapshot = new_McastSocket (- 1),
     packet_lost = False, snapshot_queue_message = [], incremental_queue_message = []\<rparr>"

text \<open>\<open>net\<close> is what the kernel answers when the snapshot socket is opened: its descriptor, and
  whether the multicast group was joined.\<close>

type_synonym net = "int \<times> bool"

definition startSnapshotSync :: "net \<Rightarrow> MarketDataConsumer \<Rightarrow> MarketDataConsumer res" where
  "startSnapshotSync net c =
    (let c = c\<lparr>snapshot_queue_message := [], incremental_queue_message := [],
               in_snapshot := mcast_init (fst net) (in_snapshot c)\<rparr> in
     res_bind (ensure (fst net \<ge> 0) FatalExit) (\<lambda>_.
     res_bind (ensure (snd net) FatalExit) (\<lambda>_. Inr c)))"

definition is_boundary :: "MEMarketUpdate \<Rightarrow> bool" where
  "is_boundary u \<longleftrightarrow> mu_type u = SNAPSHOT_START \<or> mu_type u = SNAPSHOT_END"

text \<open>The loop over the snapshot's messages: nothing if a number is missing.\<close>

fun join_snapshot :: "u64 \<Rightarrow> QueuedMarketUpdate \<Rightarrow> MEMarketUpdate list option" where
  "join_snapshot n [] = Some []"
| "join_snapshot n ((k, u) # q) =
    (if k \<noteq> n then None
     else map_option (\<lambda>us. if is_boundary u then us else u # us) (join_snapshot (n + 1) q))"

text \<open>The loop over the incremental messages: the expected number it ends with, and the updates
  unless a number is missing.\<close>

fun join_increments :: "u64 \<Rightarrow> QueuedMarketUpdate \<Rightarrow> u64 \<times> MEMarketUpdate list option" where
  "join_increments e [] = (e, Some [])"
| "join_increments e ((k, u) # q) =
    (if k < e then join_increments e q
     else if k \<noteq> e then (e, None)
     else (case join_increments (e + 1) q of (e', us) \<Rightarrow>
       (e', map_option (\<lambda>us. if is_boundary u then us else u # us) us)))"

definition checkSnapshotSync :: "MarketDataConsumer \<Rightarrow> MarketDataConsumer" where
  "checkSnapshotSync c =
    (case snapshot_queue_message c of
       [] \<Rightarrow> c
     | first_mess # _ \<Rightarrow>
         if mu_type (snd first_mess) \<noteq> SNAPSHOT_START then c\<lparr>snapshot_queue_message := []\<rparr>
         else
           (case join_snapshot 0 (snapshot_queue_message c) of
              None \<Rightarrow> c\<lparr>snapshot_queue_message := []\<rparr>
            | Some snap \<Rightarrow>
                let last_mess = snd (last (snapshot_queue_message c)) in
                if mu_type last_mess \<noteq> SNAPSHOT_END then c
                else
                  (case join_increments (mu_order_id last_mess + 1) (incremental_queue_message c) of
                     (e, None) \<Rightarrow> c\<lparr>exp_seq_num := e, snapshot_queue_message := []\<rparr>
                   | (e, Some incs) \<Rightarrow>
                       c\<lparr>exp_seq_num := e,
                         incoming_market_update_queue := fold push (snap @ incs) (incoming_market_update_queue c),
                         packet_lost := False, snapshot_queue_message := [], incremental_queue_message := [],
                         in_snapshot := mcast_leave (in_snapshot c)\<rparr>)))"

definition queueMessage :: "bool \<Rightarrow> MDPMarketUpdate \<Rightarrow> MarketDataConsumer \<Rightarrow> MarketDataConsumer" where
  "queueMessage is_snapshot m c =
    (let k = mdp_seq_num m; u = mdp_update m;
         c = (if is_snapshot then
                (let q = (if k \<in> fst ` set (snapshot_queue_message c) then [] else snapshot_queue_message c) in
                 c\<lparr>snapshot_queue_message := queue_assign k u q\<rparr>)
              else c\<lparr>incremental_queue_message := queue_assign k u (incremental_queue_message c)\<rparr>) in
     checkSnapshotSync c)"

text \<open>The body of the loop of \<^verbatim>\<open>recvCallbacks\<close>.\<close>

definition consume :: "net \<Rightarrow> bool \<Rightarrow> MDPMarketUpdate \<Rightarrow> MarketDataConsumer \<Rightarrow> MarketDataConsumer res" where
  "consume net is_snapshot m c =
    (let already_in_recovery = packet_lost c;
         c = c\<lparr>packet_lost := already_in_recovery \<or> mdp_seq_num m \<noteq> exp_seq_num c\<rparr> in
     if packet_lost c then
       res_bind (if \<not> already_in_recovery then startSnapshotSync net c else Inr c) (\<lambda>c.
       Inr (queueMessage is_snapshot m c))
     else if \<not> is_snapshot then
       Inr (c\<lparr>exp_seq_num := exp_seq_num c + 1,
              incoming_market_update_queue := push (mdp_update m) (incoming_market_update_queue c)\<rparr>)
     else Inr c)"

text \<open>The callback of both sockets; \<open>snap\<close> tells which of the two it was called for. The test
  whether the socket is the snapshot socket compares descriptors.\<close>

definition sock_of :: "bool \<Rightarrow> MarketDataConsumer \<Rightarrow> McastSocket" where
  "sock_of snap c = (if snap then in_snapshot c else in_incremental c)"

definition set_sock :: "bool \<Rightarrow> McastSocket \<Rightarrow> MarketDataConsumer \<Rightarrow> MarketDataConsumer" where
  "set_sock snap k c = (if snap then c\<lparr>in_snapshot := k\<rparr> else c\<lparr>in_incremental := k\<rparr>)"

definition consumer_recvCallbacks :: "net \<Rightarrow> bool \<Rightarrow> MarketDataConsumer \<Rightarrow> MarketDataConsumer res" where
  "consumer_recvCallbacks net snap c =
    (let is_snapshot = (socket_fd (sock_of snap c) = socket_fd (in_snapshot c)) in
     if \<not> packet_lost c \<and> is_snapshot then Inr (set_sock snap ((sock_of snap c)\<lparr>inbound := []\<rparr>) c)
     else
       res_bind (read_frames update_size (\<lambda>f. consume net is_snapshot (decode_update f)) (inbound (sock_of snap c)) c)
         (\<lambda>(rest, c). Inr (set_sock snap ((sock_of snap c)\<lparr>inbound := rest\<rparr>) c)))"

definition consumer_poll :: "net \<Rightarrow> bool \<Rightarrow> u8 list \<Rightarrow> MarketDataConsumer \<Rightarrow> MarketDataConsumer res" where
  "consumer_poll net snap rx c =
    res_bind (mcast_sendAndRecv (\<lambda>k c. res_bind (consumer_recvCallbacks net snap (set_sock snap k c))
        (\<lambda>c. Inr (sock_of snap c, c))) rx (sock_of snap c) c) (\<lambda>(_, _, k, c).
    Inr (set_sock snap k c))"

text \<open>One iteration of the loop of \<^verbatim>\<open>run\<close>.\<close>

definition consumer_round :: "net \<Rightarrow> u8 list \<Rightarrow> u8 list \<Rightarrow> MarketDataConsumer \<Rightarrow> MarketDataConsumer res" where
  "consumer_round net rx_inc rx_snap c =
    res_bind (consumer_poll net False rx_inc c) (consumer_poll net True rx_snap)"

section \<open>Consecutive numbers\<close>

lemma consume_in_order:
  assumes "\<not> packet_lost c" and "mdp_seq_num m = exp_seq_num c"
  shows "consume net False m c = Inr (c\<lparr>packet_lost := False, exp_seq_num := exp_seq_num c + 1,
     incoming_market_update_queue := push (mdp_update m) (incoming_market_update_queue c)\<rparr>)"
  using assms by (simp add: consume_def Let_def)

lemma consume_all_in_order:
  assumes "\<not> packet_lost c"
  shows "res_fold (consume net False) (numbered_updates (exp_seq_num c) us) c =
     Inr (c\<lparr>packet_lost := False, exp_seq_num := exp_seq_num c + of_nat (length us),
            incoming_market_update_queue := fold push us (incoming_market_update_queue c)\<rparr>)"
  using assms
proof (induction us arbitrary: c)
  case (Cons u us)
  then show ?case using consume_in_order[of c "\<lparr>mdp_seq_num = exp_seq_num c, mdp_update = u\<rparr>" net]
      Cons.IH[of "c\<lparr>packet_lost := False, exp_seq_num := exp_seq_num c + 1,
        incoming_market_update_queue := push u (incoming_market_update_queue c)\<rparr>"]
    by (simp add: algebra_simps)
qed simp

text \<open>The streams of the program carry enumerators only.\<close>

lemma read_update_stream:
  assumes "list_all update_wf us" and "length tail < update_size"
  shows "read_frames update_size (\<lambda>f. step (decode_update f)) (updates.stream (numbered_updates n us) @ tail) s =
     res_bind (res_fold step (numbered_updates n us) s) (\<lambda>s. Inr (tail, s))"
  using updates.read_stream[OF numbered_updates_wf[OF assms(1), of n] assms(2), of step s] .

lemma consumer_followed:
  assumes "\<not> packet_lost c" and "socket_fd (in_incremental c) \<noteq> socket_fd (in_snapshot c)"
    and "list_all update_wf us" and "length tail < update_size"
    and "queue_ok (incoming_market_update_queue c)"
    and "length (contents (incoming_market_update_queue c)) + length us < store_size (incoming_market_update_queue c)"
    and "inbound (in_incremental c) @ rx = updates.stream (numbered_updates (exp_seq_num c) us) @ tail" and "rx \<noteq> []"
    and "length (inbound (in_incremental c) @ rx) \<le> McastBufferSize"
  shows "\<exists>c'. consumer_poll net False rx c = Inr c' \<and> \<not> packet_lost c' \<and>
     contents (incoming_market_update_queue c') = contents (incoming_market_update_queue c) @ us \<and>
     exp_seq_num c' = exp_seq_num c + of_nat (length us) \<and> inbound (in_incremental c') = tail"
proof -
  define c0 where "c0 = c\<lparr>in_incremental := (in_incremental c)\<lparr>inbound := inbound (in_incremental c) @ rx\<rparr>\<rparr>"
  define c1 where "c1 = c0\<lparr>packet_lost := False, exp_seq_num := exp_seq_num c0 + of_nat (length us),
      incoming_market_update_queue := fold push us (incoming_market_update_queue c0)\<rparr>"
  have "\<not> packet_lost c0" "exp_seq_num c0 = exp_seq_num c" using assms(1) by (simp_all add: c0_def)
  then have "res_fold (consume net False) (numbered_updates (exp_seq_num c) us) c0 = Inr c1"
    using consume_all_in_order[of c0 net us] by (simp add: c1_def)
  then have "read_frames update_size (\<lambda>f. consume net False (decode_update f)) (inbound (in_incremental c) @ rx) c0 = Inr (tail, c1)"
    using read_update_stream[OF assms(3,4), of "consume net False" "exp_seq_num c" c0] unfolding assms(7) by simp
  then have "consumer_recvCallbacks net False c0 = Inr (c1\<lparr>in_incremental := (in_incremental c1)\<lparr>inbound := tail\<rparr>\<rparr>)"
    using assms(2) by (simp add: consumer_recvCallbacks_def sock_of_def set_sock_def c0_def c1_def Let_def)
  moreover have "take (McastBufferSize - length (inbound (in_incremental c))) rx = rx" using assms(9) by simp
  ultimately have "consumer_poll net False rx c =
      Inr (c1\<lparr>in_incremental := (in_incremental c1)\<lparr>inbound := tail, outbound := []\<rparr>\<rparr>)"
    using assms(8) by (simp add: consumer_poll_def mcast_sendAndRecv_def sock_of_def set_sock_def c0_def Let_def)
  then show ?thesis using lfq.put_all[OF assms(5,6)] by (simp add: c1_def c0_def)
qed

text \<open>While the numbers are consecutive the client's trade engine gets exactly the updates the
  exchange put on the incremental stream, in order, wherever the datagrams are cut.\<close>

theorem consumer_follows_stream:
  assumes "\<not> packet_lost c" and "socket_fd (in_incremental c) \<noteq> socket_fd (in_snapshot c)"
    and "list_all update_wf us" and "length tail < update_size"
    and "queue_ok (incoming_market_update_queue c)"
    and "length (contents (incoming_market_update_queue c)) + length us < store_size (incoming_market_update_queue c)"
    and "inbound (in_incremental c) @ rx = updates.stream (numbered_updates (exp_seq_num c) us) @ tail" and "rx \<noteq> []"
    and "length (inbound (in_incremental c) @ rx) \<le> McastBufferSize"
  shows "\<exists>c'. consumer_poll net False rx c = Inr c' \<and> \<not> packet_lost c' \<and>
     contents (incoming_market_update_queue c') = contents (incoming_market_update_queue c) @ us \<and>
     exp_seq_num c' = exp_seq_num c + of_nat (length us) \<and> inbound (in_incremental c') = tail"
  using consumer_followed[OF assms] .

theorem consumer_follows_stream_witness:
  "\<exists>c'. consumer_poll (6, True) False (updates.stream (numbered_updates 1 [sample_update 4, sample_update 5]) @ [1, 2])
       (new_MarketDataConsumer (newQueue default_update 8) 5) = Inr c' \<and> \<not> packet_lost c' \<and>
     contents (incoming_market_update_queue c') = [sample_update 4, sample_update 5] \<and> exp_seq_num c' = 3 \<and>
     inbound (in_incremental c') = [1, 2]"
  using consumer_follows_stream[of "new_MarketDataConsumer (newQueue default_update 8) 5" "[sample_update 4, sample_update 5]" "[1, 2]"
      "updates.stream (numbered_updates 1 [sample_update 4, sample_update 5]) @ [1, 2]" "(6, True)"]
  by (simp add: new_MarketDataConsumer_def new_McastSocket_def mcast_init_def update_size_def newQueue_ok McastBufferSize_def)

end
