(* ===== verification/SnapshotSynthetizer.thy ===== *)
theory SnapshotSynthetizer
  imports MarketDataPublisher MemPool
begin

text \<open>
  \<^verbatim>\<open>snapshot_synthetizer.hpp\<close> and \<^verbatim>\<open>snapshot_synthetizer.cpp\<close> of the
  exchange: the thread that keeps, from the numbered market updates, a copy of every live order
  of every ticker and publishes all of them once a minute on the snapshot stream.
\<close>

section \<open>State\<close>

record SnapshotSynthetizer =
  market_updates :: "MDPMarketUpdate spscQueue"
  snapshot_socket :: McastSocket
  ticker_order_to_update :: "nat \<Rightarrow> nat \<Rightarrow> ptr"
  last_seq_num :: u64
  last_snap_update :: Nanos
  update_pool :: "MEMarketUpdate MemPool"

definition new_SnapshotSynthetizer :: "MDPMarketUpdate spscQueue \<Rightarrow> int \<Rightarrow> SnapshotSynthetizer" where
  "new_SnapshotSynthetizer q d = \<lparr>market_updates = q, snapshot_socket = mcast_init d (new_McastSocket (- 1)),
     ticker_order_to_update = (\<lambda>_ _. None), last_seq_num = 0, last_snap_update = 0,
     update_pool = newMemPool default_update ME_MAX_ORDER_IDS\<rparr>"

definition set_order :: "nat \<Rightarrow> nat \<Rightarrow> ptr \<Rightarrow> SnapshotSynthetizer \<Rightarrow> SnapshotSynthetizer" where
  "set_order t i x s = s\<lparr>ticker_order_to_update := (ticker_order_to_update s)
     (t := (ticker_order_to_update s t)(i := x))\<rparr>"

section \<open>Applying an update\<close>

text \<open>\<^verbatim>\<open>orders->at(market_update.order_id_)\<close>, and the three checks the cases
  \<^verbatim>\<open>MODIFY\<close> and \<^verbatim>\<open>CANCEL\<close> begin with.\<close>

definition order_at :: "nat \<Rightarrow> OrderId \<Rightarrow> SnapshotSynthetizer \<Rightarrow> ptr res" where
  "order_at t i s = res_bind (ensure (unat i < ME_MAX_ORDER_IDS) OutOfRange) (\<lambda>_.
     Inr (ticker_order_to_update s t (unat i)))"

definition check_existing :: "nat \<Rightarrow> MEMarketUpdate \<Rightarrow> SnapshotSynthetizer \<Rightarrow> ptr res" where
  "check_existing t u s =
    res_bind (order_at t (mu_order_id u) s) (\<lambda>x.
    res_bind (ensure (x \<noteq> None) FatalExit) (\<lambda>_.
    res_bind (load (update_pool s) x) (\<lambda>w.
    res_bind (ensure (mu_order_id w = mu_order_id u) FatalExit) (\<lambda>_.
    res_bind (ensure (mu_side w = mu_side u) FatalExit) (\<lambda>_. Inr x)))))"

text \<open>The case \<^verbatim>\<open>CANCEL\<close> has no \<^verbatim>\<open>break\<close> and runs into the empty cases
  after it.\<close>

definition apply_update :: "nat \<Rightarrow> MEMarketUpdate \<Rightarrow> SnapshotSynthetizer \<Rightarrow> SnapshotSynthetizer res" where
  "apply_update t u s =
    (case mu_type u of
       MU_ADD \<Rightarrow>
         res_bind (order_at t (mu_order_id u) s) (\<lambda>x.
         res_bind (ensure (x = None) FatalExit) (\<lambda>_.
         res_bind (allocate u (update_pool s)) (\<lambda>(i, P).
         Inr (set_order t (unat (mu_order_id u)) (Some i) (s\<lparr>update_pool := P\<rparr>)))))
     | MU_MODIFY \<Rightarrow>
         res_bind (check_existing t u s) (\<lambda>x.
         res_bind (update_at x (\<lambda>w. w\<lparr>mu_price := mu_price u, mu_qty := mu_qty u\<rparr>) (update_pool s)) (\<lambda>P.
         Inr (s\<lparr>update_pool := P\<rparr>)))
     | MU_CANCEL \<Rightarrow>
         res_bind (check_existing t u s) (\<lambda>x.
         res_bind (deallocate (the x) (update_pool s)) (\<lambda>P.
         Inr (set_order t (unat (mu_order_id u)) None (s\<lparr>update_pool := P\<rparr>))))
     | _ \<Rightarrow> Inr s)"

definition addSnapShot :: "MDPMarketUpdate \<Rightarrow> SnapshotSynthetizer \<Rightarrow> SnapshotSynthetizer res" where
  "addSnapShot m s =
    (let u = mdp_update m; t = unat (mu_ticker_id u) in
     res_bind (ensure (t < ME_MAX_TICKERS) OutOfRange) (\<lambda>_.
     res_bind (apply_update t u s) (\<lambda>s.
     res_bind (ensure (mdp_seq_num m = last_seq_num s + 1) FatalExit) (\<lambda>_.
     Inr (s\<lparr>last_seq_num := mdp_seq_num m\<rparr>)))))"

section \<open>Publishing a snapshot\<close>

text \<open>The state of the publication: the next number, the socket, and the datagrams handed to the
  kernel so far.\<close>

type_synonym publication = "u64 \<times> McastSocket \<times> u8 list list"

definition snap_send :: "MEMarketUpdate \<Rightarrow> publication \<Rightarrow> publication res" where
  "snap_send u st =
    (case st of (n, k, out) \<Rightarrow>
     res_bind (mcast_send (encode_update \<lparr>mdp_seq_num = n, mdp_update = u\<rparr>) k) (\<lambda>k. Inr (n + 1, k, out)))"

definition snap_flush :: "publication \<Rightarrow> publication res" where
  "snap_flush st =
    (case st of (n, k, out) \<Rightarrow>
     res_bind (mcast_sendAndRecv no_callback [] k ()) (\<lambda>(_, bs, k, _).
     Inr (n, k, if bs = [] then out else out @ [bs])))"

definition publish_order :: "MEMarketUpdate MemPool \<Rightarrow> ptr \<Rightarrow> publication \<Rightarrow> publication res" where
  "publish_order P x st =
    (if x = None then Inr st
     else res_bind (load P x) (\<lambda>u. res_bind (snap_send u st) snap_flush))"

definition clear_message :: "nat \<Rightarrow> MEMarketUpdate" where
  "clear_message t = default_update\<lparr>mu_ticker_id := word_of_nat t, mu_type := MU_CLEAR\<rparr>"

definition publish_ticker :: "SnapshotSynthetizer \<Rightarrow> nat \<Rightarrow> publication \<Rightarrow> publication res" where
  "publish_ticker s t st =
    res_bind (snap_send (clear_message t) st)
      (res_fold (publish_order (update_pool s)) (map (ticker_order_to_update s t) [0..<ME_MAX_ORDER_IDS]))"

definition boundary_message :: "MarketUpdateType \<Rightarrow> u64 \<Rightarrow> MEMarketUpdate" where
  "boundary_message ty n = default_update\<lparr>mu_type := ty, mu_order_id := n\<rparr>"

definition publishSnapShot :: "SnapshotSynthetizer \<Rightarrow> (u8 list list \<times> SnapshotSynthetizer) res" where
  "publishSnapShot s =
    res_bind (snap_send (boundary_message SNAPSHOT_START (last_seq_num s)) (0, snapshot_socket s, [])) (\<lambda>st.
    res_bind (res_fold (publish_ticker s) [0..<ME_MAX_TICKERS] st) (\<lambda>st.
    res_bind (snap_send (boundary_message SNAPSHOT_END (last_seq_num s)) st) (\<lambda>st.
    res_bind (snap_flush st) (\<lambda>(_, k, out).
    Inr (out, s\<lparr>snapshot_socket := k\<rparr>)))))"

section \<open>The thread\<close>

primrec apply_updates :: "nat \<Rightarrow> SnapshotSynthetizer \<Rightarrow> SnapshotSynthetizer res" where
  "apply_updates 0 s = Inl Diverged"
| "apply_updates (Suc n) s =
    (case getNextRead (market_updates s) of
       None \<Rightarrow> Inr s
     | Some m \<Rightarrow>
         if queue_size (market_updates s) > 0 then
           res_bind (addSnapShot m s) (\<lambda>s.
           res_bind (updateNextRead (market_updates s)) (\<lambda>q.
           apply_updates n (s\<lparr>market_updates := q\<rparr>)))
         else Inr s)"

definition NANOS_TO_SECS :: Nanos where "NANOS_TO_SECS = 1000000000"

text \<open>One iteration of the loop of \<^verbatim>\<open>run\<close>; \<open>now\<close> and \<open>now'\<close> are the two readings
  of the clock.\<close>

definition synthetizer_round :: "Nanos \<Rightarrow> Nanos \<Rightarrow> SnapshotSynthetizer \<Rightarrow> (u8 list list \<times> SnapshotSynthetizer) res" where
  "synthetizer_round now now' s =
    res_bind (apply_updates (queue_size (market_updates s) + 1) s) (\<lambda>s.
    if now - last_snap_update s > 60 * NANOS_TO_SECS then publishSnapShot (s\<lparr>last_snap_update := now'\<rparr>)
    else Inr ([], s))"

section \<open>What the synthetizer keeps\<close>

text \<open>The abstract state: the live orders by ticker and order identifier.\<close>

type_synonym live_orders = "nat \<Rightarrow> nat \<Rightarrow> MEMarketUpdate option"

definition keep_update :: "MEMarketUpdate \<Rightarrow> live_orders \<Rightarrow> live_orders" where
  "keep_update u m =
    (let t = unat (mu_ticker_id u); i = unat (mu_order_id u) in
     case mu_type u of
       MU_ADD \<Rightarrow> m(t := (m t)(i := Some u))
     | MU_MODIFY \<Rightarrow> m(t := (m t)(i := map_option (\<lambda>w. w\<lparr>mu_price := mu_price u, mu_qty := mu_qty u\<rparr>) (m t i)))
     | MU_CANCEL \<Rightarrow> m(t := (m t)(i := None))
     | _ \<Rightarrow> m)"

text \<open>The updates a synthetizer accepts on top of some live orders: a new order is new, a change
  names a live order and its side.\<close>

definition fits :: "MEMarketUpdate \<Rightarrow> live_orders \<Rightarrow> bool" where
  "fits u m \<longleftrightarrow> unat (mu_ticker_id u) < ME_MAX_TICKERS \<and>
    (let i = unat (mu_order_id u); x = m (unat (mu_ticker_id u)) i in
     case mu_type u of
       MU_ADD \<Rightarrow> i < ME_MAX_ORDER_IDS \<and> x = None
     | MU_MODIFY \<Rightarrow> i < ME_MAX_ORDER_IDS \<and> (\<exists>w. x = Some w \<and> mu_side w = mu_side u)
     | MU_CANCEL \<Rightarrow> i < ME_MAX_ORDER_IDS \<and> (\<exists>w. x = Some w \<and> mu_side w = mu_side u)
     | _ \<Rightarrow> True)"

definition abs_orders :: "SnapshotSynthetizer \<Rightarrow> live_orders" where
  "abs_orders s t i = map_option (object (update_pool s)) (ticker_order_to_update s t i)"

definition live_keys :: "live_orders \<Rightarrow> (nat \<times> nat) set" where
  "live_keys m = {(t, i). m t i \<noteq> None}"

definition slot_of :: "SnapshotSynthetizer \<Rightarrow> nat \<times> nat \<Rightarrow> nat" where
  "slot_of s k = the (ticker_order_to_update s (fst k) (snd k))"

definition entry_ok :: "nat \<Rightarrow> nat \<Rightarrow> MEMarketUpdate \<Rightarrow> bool" where
  "entry_ok t i u \<longleftrightarrow> t < ME_MAX_TICKERS \<and> i < ME_MAX_ORDER_IDS \<and> mu_type u = MU_ADD \<and>
     unat (mu_ticker_id u) = t \<and> unat (mu_order_id u) = i"

text \<open>The table and the pool agree: every entry has a cell of its own, every used cell an entry, and
  the cell holds an addition with the entry's identifiers.\<close>

definition syn_ok :: "SnapshotSynthetizer \<Rightarrow> bool" where
  "syn_ok s \<longleftrightarrow> pool_ok (update_pool s) \<and> num_cells (update_pool s) = ME_MAX_ORDER_IDS \<and>
     bij_betw (slot_of s) (live_keys (abs_orders s)) (live (update_pool s)) \<and>
     (\<forall>t i u. abs_orders s t i = Some u \<longrightarrow> entry_ok t i u)"

lemma abs_orders_Some: "abs_orders s t i = Some u \<longleftrightarrow>
    (\<exists>p. ticker_order_to_update s t i = Some p \<and> u = object (update_pool s) p)"
  by (auto simp: abs_orders_def)

lemma abs_orders_None [simp]: "abs_orders s t i = None \<longleftrightarrow> ticker_order_to_update s t i = None"
  by (simp add: abs_orders_def)

lemma new_SnapshotSynthetizer_ok: "syn_ok (new_SnapshotSynthetizer q d)"
  "abs_orders (new_SnapshotSynthetizer q d) = (\<lambda>_ _. None)"
proof -
  show "abs_orders (new_SnapshotSynthetizer q d) = (\<lambda>_ _. None)"
    by (simp add: abs_orders_def new_SnapshotSynthetizer_def fun_eq_iff)
  then show "syn_ok (new_SnapshotSynthetizer q d)"
    using newMemPool_ok[where v = default_update and n = ME_MAX_ORDER_IDS]
    by (simp add: syn_ok_def live_keys_def new_SnapshotSynthetizer_def size_defs bij_betw_def)
      (simp add: newMemPool_def)
qed

lemma slot_live:
  assumes "syn_ok s" and "ticker_order_to_update s t i = Some p"
  shows "p \<in> live (update_pool s)" and "p < num_cells (update_pool s)"
proof -
  have "(t, i) \<in> live_keys (abs_orders s)" "slot_of s (t, i) = p"
    using assms(2) by (simp_all add: live_keys_def slot_of_def)
  then show "p \<in> live (update_pool s)"
    using assms(1) unfolding syn_ok_def bij_betw_def by blast
  then show "p < num_cells (update_pool s)" by (rule live_bound)
qed

lemma slot_inject:
  assumes "syn_ok s" and "ticker_order_to_update s t i = Some p" and "ticker_order_to_update s t' i' = Some p"
  shows "t' = t \<and> i' = i"
proof -
  have "(t, i) \<in> live_keys (abs_orders s)" "(t', i') \<in> live_keys (abs_orders s)" "slot_of s (t, i) = slot_of s (t', i')"
    using assms(2,3) by (simp_all add: live_keys_def slot_of_def)
  then show ?thesis using assms(1) unfolding syn_ok_def bij_betw_def inj_on_def by blast
qed

lemma card_live: "syn_ok s \<Longrightarrow> card (live (update_pool s)) = card (live_keys (abs_orders s))"
  by (auto simp: syn_ok_def dest: bij_betw_same_card)

subsection \<open>Additions\<close>

lemma syn_add_refines:
  assumes ok: "syn_ok s" and fits: "fits u (abs_orders s)" and ty: "mu_type u = MU_ADD"
    and room: "card (live_keys (abs_orders s)) + 2 \<le> ME_MAX_ORDER_IDS"
  shows "\<exists>s'. apply_update (unat (mu_ticker_id u)) u s = Inr s' \<and> syn_ok s' \<and>
     abs_orders s' = keep_update u (abs_orders s) \<and> last_seq_num s' = last_seq_num s \<and>
     market_updates s' = market_updates s \<and> snapshot_socket s' = snapshot_socket s"
proof -
  let ?t = "unat (mu_ticker_id u)" and ?i = "unat (mu_order_id u)" and ?P = "update_pool s"
  have new: "?t < ME_MAX_TICKERS" "?i < ME_MAX_ORDER_IDS" "ticker_order_to_update s ?t ?i = None"
    using fits ty by (simp_all add: fits_def Let_def)
  have "pool_ok ?P" "card (live ?P) + 2 \<le> num_cells ?P"
    using ok room card_live[OF ok] by (simp_all add: syn_ok_def)
  then obtain p Q where Q: "allocate u ?P = Inr (p, Q)" "p \<notin> live ?P" "p < num_cells ?P"
    "live Q = insert p (live ?P)" "object Q = (object ?P)(p := u)" "num_cells Q = num_cells ?P" "pool_ok Q"
    by (rule mp.alloc_elim)
  define s' where "s' = set_order ?t ?i (Some p) (s\<lparr>update_pool := Q\<rparr>)"
  have tbl: "ticker_order_to_update s' t i = (if t = ?t \<and> i = ?i then Some p else ticker_order_to_update s t i)" for t i
    by (simp add: s'_def set_order_def)
  have pool: "update_pool s' = Q" by (simp add: s'_def set_order_def)
  have abs: "abs_orders s' = keep_update u (abs_orders s)"
  proof (intro ext)
    fix t i
    have "object Q j = object ?P j" if "ticker_order_to_update s t i = Some j" for j
      using slot_live(1)[OF ok that] Q(2,5) by auto
    moreover have "object Q p = u" by (simp add: Q(5))
    ultimately show "abs_orders s' t i = keep_update u (abs_orders s) t i"
      by (cases "ticker_order_to_update s t i") (auto simp: abs_orders_def tbl pool keep_update_def ty Let_def)
  qed
  have keys: "live_keys (abs_orders s') = insert (?t, ?i) (live_keys (abs_orders s))"
    by (auto simp: live_keys_def tbl)
  have "bij_betw (slot_of s') (live_keys (abs_orders s)) (live ?P)"
  proof -
    have "slot_of s' k = slot_of s k" if "k \<in> live_keys (abs_orders s)" for k
      using that new(3) by (auto simp: slot_of_def tbl live_keys_def)
    then show ?thesis using ok bij_betw_cong[of "live_keys (abs_orders s)" "slot_of s'" "slot_of s"]
      by (simp add: syn_ok_def)
  qed
  moreover have "slot_of s' (?t, ?i) = p" by (simp add: slot_of_def tbl)
  ultimately have "bij_betw (slot_of s') (live_keys (abs_orders s')) (live Q)"
    unfolding keys Q(4) using Q(2) new(3)
    by (intro bij_betw_combine[of _ "{(?t, ?i)}" "{p}" "live_keys (abs_orders s)" "live ?P", simplified]) 
      (auto simp: bij_betw_def live_keys_def)
  moreover have "entry_ok t i w" if "abs_orders s' t i = Some w" for t i w
    using that ok new ty by (auto simp: abs keep_update_def Let_def syn_ok_def entry_ok_def split: if_splits)
  ultimately have "syn_ok s'" using Q(6,7) ok by (simp add: syn_ok_def pool)
  moreover have "apply_update ?t u s = Inr s'"
    using new Q(1) by (simp add: apply_update_def ty order_at_def s'_def)
  ultimately show ?thesis using abs by (auto simp: s'_def set_order_def)
qed

subsection \<open>Changes and removals\<close>

lemma check_existing_finds:
  assumes ok: "syn_ok s" and i: "unat (mu_order_id u) < ME_MAX_ORDER_IDS"
    and w: "abs_orders s t (unat (mu_order_id u)) = Some w" "mu_side w = mu_side u"
  obtains p where "ticker_order_to_update s t (unat (mu_order_id u)) = Some p" and "object (update_pool s) p = w"
    and "check_existing t u s = Inr (Some p)"
proof -
  obtain p where p: "ticker_order_to_update s t (unat (mu_order_id u)) = Some p" "w = object (update_pool s) p"
    using w(1) unfolding abs_orders_Some by blast
  have "entry_ok t (unat (mu_order_id u)) w" using ok w(1) by (auto simp: syn_ok_def)
  then have "mu_order_id w = mu_order_id u" by (simp add: entry_ok_def word_unat_eq_iff)
  then have "check_existing t u s = Inr (Some p)"
    using p i w(2) slot_live(2)[OF ok p(1)] by (simp add: check_existing_def order_at_def)
  then show thesis using that p by blast
qed

lemma syn_modify_refines:
  assumes ok: "syn_ok s" and fits: "fits u (abs_orders s)" and ty: "mu_type u = MU_MODIFY"
  shows "\<exists>s'. apply_update (unat (mu_ticker_id u)) u s = Inr s' \<and> syn_ok s' \<and>
     abs_orders s' = keep_update u (abs_orders s) \<and> last_seq_num s' = last_seq_num s \<and>
     market_updates s' = market_updates s \<and> snapshot_socket s' = snapshot_socket s"
proof -
  let ?t = "unat (mu_ticker_id u)" and ?i = "unat (mu_order_id u)" and ?P = "update_pool s"
  let ?f = "\<lambda>w. w\<lparr>mu_price := mu_price u, mu_qty := mu_qty u\<rparr>"
  have "?i < ME_MAX_ORDER_IDS" "\<exists>w. abs_orders s ?t ?i = Some w \<and> mu_side w = mu_side u"
    using fits ty by (simp_all add: fits_def Let_def)
  then obtain w p where w: "abs_orders s ?t ?i = Some w" and p: "ticker_order_to_update s ?t ?i = Some p"
      "object ?P p = w" "check_existing ?t u s = Inr (Some p)"
    using check_existing_finds[OF ok] by metis
  have bound: "p < num_cells ?P" using slot_live(2)[OF ok p(1)] .
  define s' where "s' = s\<lparr>update_pool := ?P\<lparr>object := (object ?P)(p := ?f w)\<rparr>\<rparr>"
  have "apply_update ?t u s = Inr s'"
    using p bound by (simp add: apply_update_def ty s'_def)
  moreover have abs: "abs_orders s' = keep_update u (abs_orders s)"
  proof (intro ext)
    fix t i
    show "abs_orders s' t i = keep_update u (abs_orders s) t i"
      using slot_inject[OF ok p(1), of t i] p(1,2)
      by (cases "ticker_order_to_update s t i") (auto simp: abs_orders_def s'_def keep_update_def ty Let_def)
  qed
  moreover have "entry_ok t i v" if "abs_orders s' t i = Some v" for t i v
    using that ok unfolding abs
    by (auto simp: keep_update_def ty Let_def syn_ok_def entry_ok_def split: if_splits)
  moreover have "live_keys (abs_orders s') = live_keys (abs_orders s)" "slot_of s' = slot_of s"
      "live (update_pool s') = live ?P" "pool_ok (update_pool s') = pool_ok ?P" "num_cells (update_pool s') = num_cells ?P"
    by (simp_all add: live_keys_def s'_def slot_of_def fun_eq_iff live_def pool_ok_def)
  ultimately show ?thesis using ok by (auto simp: syn_ok_def s'_def)
qed

lemma syn_cancel_refines:
  assumes ok: "syn_ok s" and fits: "fits u (abs_orders s)" and ty: "mu_type u = MU_CANCEL"
  shows "\<exists>s'. apply_update (unat (mu_ticker_id u)) u s = Inr s' \<and> syn_ok s' \<and>
     abs_orders s' = keep_update u (abs_orders s) \<and> last_seq_num s' = last_seq_num s \<and>
     market_updates s' = market_updates s \<and> snapshot_socket s' = snapshot_socket s"
proof -
  let ?t = "unat (mu_ticker_id u)" and ?i = "unat (mu_order_id u)" and ?P = "update_pool s"
  have "?i < ME_MAX_ORDER_IDS" "\<exists>w. abs_orders s ?t ?i = Some w \<and> mu_side w = mu_side u"
    using fits ty by (simp_all add: fits_def Let_def)
  then obtain w p where w: "abs_orders s ?t ?i = Some w" and p: "ticker_order_to_update s ?t ?i = Some p"
      "object ?P p = w" "check_existing ?t u s = Inr (Some p)"
    using check_existing_finds[OF ok] by metis
  have "pool_ok ?P" "p \<in> live ?P" using ok slot_live(1)[OF ok p(1)] by (simp_all add: syn_ok_def)
  then obtain Q where Q: "deallocate p ?P = Inr Q" "live Q = live ?P - {p}" "object Q = object ?P"
      "num_cells Q = num_cells ?P" "pool_ok Q"
    by (rule mp.free_elim)
  define s' where "s' = set_order ?t ?i None (s\<lparr>update_pool := Q\<rparr>)"
  have tbl: "ticker_order_to_update s' t i = (if t = ?t \<and> i = ?i then None else ticker_order_to_update s t i)" for t i
    by (simp add: s'_def set_order_def)
  have pool: "update_pool s' = Q" by (simp add: s'_def set_order_def)
  have abs: "abs_orders s' = keep_update u (abs_orders s)"
    by (auto simp: fun_eq_iff abs_orders_def tbl pool Q(3) keep_update_def ty Let_def)
  have keys: "live_keys (abs_orders s') = live_keys (abs_orders s) - {(?t, ?i)}"
    by (auto simp: live_keys_def tbl)
  have "slot_of s' k = slot_of s k" if "k \<in> live_keys (abs_orders s) - {(?t, ?i)}" for k
    using that by (cases k) (auto simp: slot_of_def tbl)
  moreover have "bij_betw (slot_of s) (live_keys (abs_orders s) - {(?t, ?i)}) (live ?P - {p})"
  proof -
    have "bij_betw (slot_of s) (live_keys (abs_orders s)) (live ?P)" using ok by (simp add: syn_ok_def)
    moreover have "(?t, ?i) \<in> live_keys (abs_orders s)" "slot_of s (?t, ?i) = p"
      using p(1) by (simp_all add: live_keys_def slot_of_def)
    ultimately show ?thesis by (metis bij_betw_DiffI bij_betw_singletonI empty_subsetI insert_subset bij_betwE)
  qed
  ultimately have "bij_betw (slot_of s') (live_keys (abs_orders s')) (live Q)"
    unfolding keys Q(2) using bij_betw_cong[of "live_keys (abs_orders s) - {(?t, ?i)}" "slot_of s'" "slot_of s"] by blast
  moreover have "entry_ok t i v" if "abs_orders s' t i = Some v" for t i v
    using that ok unfolding abs by (auto simp: keep_update_def ty Let_def syn_ok_def split: if_splits)
  ultimately have "syn_ok s'" using Q(4,5) ok by (simp add: syn_ok_def pool)
  moreover have "apply_update ?t u s = Inr s'"
    using p Q(1) by (simp add: apply_update_def ty s'_def)
  ultimately show ?thesis using abs by (auto simp: s'_def set_order_def)
qed

lemma other_refines:
  assumes "mu_type u \<notin> {MU_ADD, MU_MODIFY, MU_CANCEL}"
  shows "apply_update t u s = Inr s" and "keep_update u m = m"
  using assms by (cases "mu_type u"; simp add: apply_update_def keep_update_def Let_def)+

lemma apply_update_refines:
  assumes "syn_ok s" and "fits u (abs_orders s)" and "card (live_keys (abs_orders s)) + 2 \<le> ME_MAX_ORDER_IDS"
  shows "\<exists>s'. apply_update (unat (mu_ticker_id u)) u s = Inr s' \<and> syn_ok s' \<and>
     abs_orders s' = keep_update u (abs_orders s) \<and> last_seq_num s' = last_seq_num s \<and>
     market_updates s' = market_updates s \<and> snapshot_socket s' = snapshot_socket s"
proof -
  consider "mu_type u = MU_ADD" | "mu_type u = MU_MODIFY" | "mu_type u = MU_CANCEL" | "mu_type u \<notin> {MU_ADD, MU_MODIFY, MU_CANCEL}"
    by blast
  then show ?thesis
  proof cases
    case 1
    then show ?thesis using syn_add_refines[OF assms(1,2) _ assms(3)] by blast
  next
    case 2
    then show ?thesis using syn_modify_refines[OF assms(1,2)] by blast
  next
    case 3
    then show ?thesis using syn_cancel_refines[OF assms(1,2)] by blast
  next
    case 4
    then show ?thesis using other_refines[OF 4] assms(1) by simp
  qed
qed

lemma addSnapShot_step:
  assumes "syn_ok s" and "fits (mdp_update m) (abs_orders s)" and "mdp_seq_num m = last_seq_num s + 1"
    and "card (live_keys (abs_orders s)) + 2 \<le> ME_MAX_ORDER_IDS"
  shows "\<exists>s'. addSnapShot m s = Inr s' \<and> syn_ok s' \<and> abs_orders s' = keep_update (mdp_update m) (abs_orders s) \<and>
     last_seq_num s' = mdp_seq_num m \<and> market_updates s' = market_updates s \<and> snapshot_socket s' = snapshot_socket s"
proof -
  obtain s1 where s1: "apply_update (unat (mu_ticker_id (mdp_update m))) (mdp_update m) s = Inr s1" "syn_ok s1"
     "abs_orders s1 = keep_update (mdp_update m) (abs_orders s)" "last_seq_num s1 = last_seq_num s"
     "market_updates s1 = market_updates s" "snapshot_socket s1 = snapshot_socket s"
    using apply_update_refines[OF assms(1,2,4)] by blast
  have "unat (mu_ticker_id (mdp_update m)) < ME_MAX_TICKERS" using assms(2) by (simp add: fits_def)
  then have "addSnapShot m s = Inr (s1\<lparr>last_seq_num := mdp_seq_num m\<rparr>)"
    using s1 assms(3) by (simp add: addSnapShot_def Let_def)
  moreover have same: "slot_of (s1\<lparr>last_seq_num := mdp_seq_num m\<rparr>) = slot_of s1"
      "abs_orders (s1\<lparr>last_seq_num := mdp_seq_num m\<rparr>) = abs_orders s1"
    by (simp_all add: slot_of_def abs_orders_def fun_eq_iff)
  then have "syn_ok (s1\<lparr>last_seq_num := mdp_seq_num m\<rparr>)" using s1(2) by (simp add: syn_ok_def)
  ultimately show ?thesis using s1 same(2) by simp
qed

text \<open>An update out of sequence ends the program, whatever it says.\<close>

lemma addSnapShot_gap:
  assumes "syn_ok s" and "fits (mdp_update m) (abs_orders s)" and "mdp_seq_num m \<noteq> last_seq_num s + 1"
    and "card (live_keys (abs_orders s)) + 2 \<le> ME_MAX_ORDER_IDS"
  shows "addSnapShot m s = Inl FatalExit"
proof -
  obtain s1 where "apply_update (unat (mu_ticker_id (mdp_update m))) (mdp_update m) s = Inr s1" "last_seq_num s1 = last_seq_num s"
    using apply_update_refines[OF assms(1,2,4)] by blast
  then show ?thesis using assms(2,3) by (simp add: addSnapShot_def Let_def fits_def)
qed

primrec fits_all :: "MEMarketUpdate list \<Rightarrow> live_orders \<Rightarrow> bool" where
  "fits_all [] m \<longleftrightarrow> True"
| "fits_all (u # us) m \<longleftrightarrow> fits u m \<and> fits_all us (keep_update u m)"

lemma fits_all_append: "fits_all (us @ vs) m \<longleftrightarrow> fits_all us m \<and> fits_all vs (fold keep_update us m)"
  by (induction us arbitrary: m) simp_all

lemma keys_keep: "live_keys (keep_update u m) \<subseteq> insert (unat (mu_ticker_id u), unat (mu_order_id u)) (live_keys m)"
  by (cases "mu_type u") (auto simp: keep_update_def live_keys_def Let_def split: if_splits)

lemma card_keys_keep:
  assumes "finite (live_keys m)"
  shows "card (live_keys (keep_update u m)) \<le> card (live_keys m) + 1" and "finite (live_keys (keep_update u m))"
proof -
  have fin: "finite (insert (unat (mu_ticker_id u), unat (mu_order_id u)) (live_keys m))" using assms by simp
  then show "finite (live_keys (keep_update u m))" by (rule finite_subset[OF keys_keep])
  have "card (live_keys (keep_update u m)) \<le> card (insert (unat (mu_ticker_id u), unat (mu_order_id u)) (live_keys m))"
    by (rule card_mono[OF fin keys_keep])
  also have "\<dots> \<le> card (live_keys m) + 1" by (simp add: card_insert_if assms)
  finally show "card (live_keys (keep_update u m)) \<le> card (live_keys m) + 1" .
qed

lemma finite_keys: "syn_ok s \<Longrightarrow> finite (live_keys (abs_orders s))"
  unfolding syn_ok_def by (metis bij_betw_finite finite_live)

lemma apply_updates_all:
  assumes "queue_ok (market_updates s)" and "length (contents (market_updates s)) < store_size (market_updates s)"
    and "contents (market_updates s) = numbered_updates (last_seq_num s + 1) us"
    and "syn_ok s" and "fits_all us (abs_orders s)" and "card (live_keys (abs_orders s)) + length us + 1 \<le> ME_MAX_ORDER_IDS"
    and "length us < n"
  shows "\<exists>s'. apply_updates n s = Inr s' \<and> syn_ok s' \<and> abs_orders s' = fold keep_update us (abs_orders s) \<and>
     last_seq_num s' = last_seq_num s + of_nat (length us) \<and> contents (market_updates s') = [] \<and>
     snapshot_socket s' = snapshot_socket s"
  using assms
proof (induction n arbitrary: s us)
  case (Suc n)
  note front = lfq.front_items[OF Suc.prems(1,2)]
  show ?case
  proof (cases us)
    case Nil
    then show ?thesis using front Suc.prems(3,4) by simp
  next
    case (Cons u vs)
    let ?m = "\<lparr>mdp_seq_num = last_seq_num s + 1, mdp_update = u\<rparr>"
    have c: "contents (market_updates s) = ?m # numbered_updates (last_seq_num s + 1 + 1) vs"
      using Suc.prems(3) Cons by simp
    obtain s1 where s1: "addSnapShot ?m s = Inr s1" "syn_ok s1" "abs_orders s1 = keep_update u (abs_orders s)"
        "last_seq_num s1 = last_seq_num s + 1" "market_updates s1 = market_updates s" "snapshot_socket s1 = snapshot_socket s"
      using addSnapShot_step[of s ?m] Suc.prems(4-6) Cons by auto
    obtain q where q: "updateNextRead (market_updates s1) = Inr q" "queue_ok q"
        "contents q = numbered_updates (last_seq_num s + 1 + 1) vs" "store_size q = store_size (market_updates s)"
      using lfq.drop_items[OF Suc.prems(1)] c s1(5) by auto
    define s2 where "s2 = s1\<lparr>market_updates := q\<rparr>"
    have s2: "market_updates s2 = q" "last_seq_num s2 = last_seq_num s + 1" "abs_orders s2 = keep_update u (abs_orders s)"
        "snapshot_socket s2 = snapshot_socket s" "syn_ok s2"
    proof -
      have "slot_of s2 = slot_of s1" "abs_orders s2 = abs_orders s1"
        by (simp_all add: s2_def slot_of_def abs_orders_def fun_eq_iff)
      then show "abs_orders s2 = keep_update u (abs_orders s)" "syn_ok s2" using s1 by (simp_all add: syn_ok_def s2_def)
    qed (simp_all add: s2_def s1)
    have "card (live_keys (abs_orders s2)) \<le> card (live_keys (abs_orders s)) + 1"
      unfolding s2(3) by (rule card_keys_keep(1)[OF finite_keys[OF Suc.prems(4)]])
    then obtain s' where "apply_updates n s2 = Inr s'" "syn_ok s'" "abs_orders s' = fold keep_update vs (abs_orders s2)"
        "last_seq_num s' = last_seq_num s2 + of_nat (length vs)" "contents (market_updates s') = []"
        "snapshot_socket s' = snapshot_socket s2"
      using Suc.IH[of s2 vs] Suc.prems Cons c q s2 by (auto simp del: length_contents)
    moreover have "num_elements (market_updates s) \<noteq> 0" using c length_contents[of "market_updates s"] by auto
    then have "apply_updates (Suc n) s = apply_updates n s2"
      using front c s1(1) q(1) by (simp add: queue_size_def s2_def)
    ultimately show ?thesis using Cons s2 by (auto simp: algebra_simps)
  qed
qed simp

text \<open>C13: updates that continue the stream and fit the live orders are taken over exactly: the
  synthetizer's pointers stay consistent and what they describe changes as the updates say.\<close>

theorem synthetizer_follows_stream:
  assumes "syn_ok s" and "fits_all us (abs_orders s)" and "card (live_keys (abs_orders s)) + length us + 1 \<le> ME_MAX_ORDER_IDS"
    and "queue_ok (market_updates s)" and "length us < store_size (market_updates s)"
    and "contents (market_updates s) = numbered_updates (last_seq_num s + 1) us"
  shows "\<exists>s'. apply_updates (queue_size (market_updates s) + 1) s = Inr s' \<and> syn_ok s' \<and>
     abs_orders s' = fold keep_update us (abs_orders s) \<and> last_seq_num s' = last_seq_num s + of_nat (length us) \<and>
     contents (market_updates s') = []"
  using apply_updates_all[of s us "queue_size (market_updates s) + 1"] assms length_contents[of "market_updates s"]
  by (auto simp: queue_size_def)

lemma fits_sample: "fits (sample_update 4) (\<lambda>_ _. None)"
  by (simp add: fits_def sample_update_def size_defs)

definition sample_synthetizer :: SnapshotSynthetizer where
  "sample_synthetizer = new_SnapshotSynthetizer
     (push \<lparr>mdp_seq_num = 1, mdp_update = sample_update 4\<rparr> (newQueue default_mdp_update 8)) 6"

theorem synthetizer_follows_stream_witness:
  "\<exists>s'. apply_updates (queue_size (market_updates sample_synthetizer) + 1) sample_synthetizer = Inr s' \<and> syn_ok s' \<and>
     abs_orders s' = fold keep_update [sample_update 4] (abs_orders sample_synthetizer) \<and>
     last_seq_num s' = last_seq_num sample_synthetizer + of_nat (length [sample_update 4]) \<and> contents (market_updates s') = []"
proof (rule synthetizer_follows_stream)
  let ?q = "newQueue default_mdp_update 8"
  have q: "queue_ok (push \<lparr>mdp_seq_num = 1, mdp_update = sample_update 4\<rparr> ?q)"
    "contents (push \<lparr>mdp_seq_num = 1, mdp_update = sample_update 4\<rparr> ?q) = [\<lparr>mdp_seq_num = 1, mdp_update = sample_update 4\<rparr>]"
    "store_size (push \<lparr>mdp_seq_num = 1, mdp_update = sample_update 4\<rparr> ?q) = 8"
    using lfq.put_items[of ?q "\<lparr>mdp_seq_num = 1, mdp_update = sample_update 4\<rparr>"] by (simp_all add: newQueue_ok)
  have new: "syn_ok sample_synthetizer" "abs_orders sample_synthetizer = (\<lambda>_ _. None)" "last_seq_num sample_synthetizer = 0"
    "market_updates sample_synthetizer = push \<lparr>mdp_seq_num = 1, mdp_update = sample_update 4\<rparr> ?q"
    by (simp_all add: sample_synthetizer_def new_SnapshotSynthetizer_ok) (simp_all add: new_SnapshotSynthetizer_def)
  show "syn_ok sample_synthetizer" "fits_all [sample_update 4] (abs_orders sample_synthetizer)"
    "card (live_keys (abs_orders sample_synthetizer)) + length [sample_update 4] + 1 \<le> ME_MAX_ORDER_IDS"
    "queue_ok (market_updates sample_synthetizer)" "length [sample_update 4] < store_size (market_updates sample_synthetizer)"
    "contents (market_updates sample_synthetizer) = numbered_updates (last_seq_num sample_synthetizer + 1) [sample_update 4]"
    using q fits_sample by (simp_all add: new live_keys_def size_defs)
qed

end
