(* ===== verification/Snapshots.thy ===== *)
theory Snapshots
  imports SnapshotSynthetizer
begin

text \<open>
  The contents of a published snapshot (\<^verbatim>\<open>publishSnapShot\<close> of
  \<^verbatim>\<open>snapshot_synthetizer.cpp\<close>) as a sequence of messages computed from the live
  orders, that the synthetizer sends exactly this sequence, and that a receiver who applies it
  has the live orders again.
\<close>

section \<open>The messages of a snapshot\<close>

definition ticker_orders :: "live_orders \<Rightarrow> nat \<Rightarrow> MEMarketUpdate list" where
  "ticker_orders m t = List.map_filter (m t) [0..<ME_MAX_ORDER_IDS]"

definition snapshot_body :: "live_orders \<Rightarrow> MEMarketUpdate list" where
  "snapshot_body m = concat (map (\<lambda>t. clear_message t # ticker_orders m t) [0..<ME_MAX_TICKERS])"

definition snapshot_messages :: "live_orders \<Rightarrow> u64 \<Rightarrow> MEMarketUpdate list" where
  "snapshot_messages m n = boundary_message SNAPSHOT_START n # snapshot_body m @ [boundary_message SNAPSHOT_END n]"

section \<open>Publication\<close>

text \<open>\<open>sent\<close> is what has been put on the stream so far: whole messages in every datagram handed to
  the kernel, and at most \<open>b\<close> messages still in the socket's buffer.\<close>

definition datagrams :: "MDPMarketUpdate list list \<Rightarrow> u8 list list" where
  "datagrams gs = map updates.stream gs"

definition published :: "MEMarketUpdate list \<Rightarrow> nat \<Rightarrow> publication \<Rightarrow> bool" where
  "published sent b st = (case st of (n, k, out) \<Rightarrow> \<exists>gs rest. out = datagrams gs \<and> [] \<notin> set gs \<and>
     list_all (\<lambda>g. length g \<le> 1000) gs \<and> outbound k = updates.stream rest \<and> concat gs @ rest = numbered_updates 0 sent \<and>
     n = of_nat (length sent) \<and> length rest \<le> b)"

lemma stream_empty: "updates.stream us = [] \<longleftrightarrow> us = []"
  using updates.stream_length[of us] by (metis length_0_conv list.size(3) mult_eq_0_iff update_size_def zero_neq_numeral)

lemma snap_send_published:
  assumes "published sent b st" and "b < 1000"
  shows "\<exists>st'. snap_send u st = Inr st' \<and> published (sent @ [u]) (Suc b) st'"
proof -
  obtain k gs rest where st: "st = (of_nat (length sent), k, datagrams gs)" and g: "[] \<notin> set gs"
      "list_all (\<lambda>g. length g \<le> 1000) gs" "outbound k = updates.stream rest" "concat gs @ rest = numbered_updates 0 sent" "length rest \<le> b"
    using assms(1) by (cases st) (auto simp: published_def)
  let ?m = "\<lparr>mdp_seq_num = of_nat (length sent), mdp_update = u\<rparr>"
  have "length (outbound k) + update_size \<le> McastBufferSize"
    using g(5) assms(2) unfolding g(3) updates.stream_length by (simp add: update_size_def McastBufferSize_def)
  then have "snap_send u st = Inr (of_nat (length sent) + 1, k\<lparr>outbound := outbound k @ encode_update ?m\<rparr>, datagrams gs)"
    by (simp add: st snap_send_def mcast_send_def)
  moreover have "concat gs @ (rest @ [?m]) = numbered_updates 0 (sent @ [u])"
    using g(4) by (simp add: nup.num_append)
  ultimately show ?thesis
    using g by (auto simp: published_def updates.stream_append intro!: exI[of _ gs] exI[of _ "rest @ [?m]"])
qed

lemma snap_flush_published:
  assumes "published sent b st" and "b \<le> 1000"
  shows "\<exists>st'. snap_flush st = Inr st' \<and> published sent 0 st'"
proof -
  obtain n k gs rest where st: "st = (n, k, datagrams gs)" and g: "n = of_nat (length sent)" "[] \<notin> set gs"
      "list_all (\<lambda>g. length g \<le> 1000) gs" "length rest \<le> b"
      "outbound k = updates.stream rest" "concat gs @ rest = numbered_updates 0 sent"
    using assms(1) by (cases st) (auto simp: published_def)
  let ?gs = "if rest = [] then gs else gs @ [rest]"
  have "snap_flush st = Inr (n, k\<lparr>outbound := []\<rparr>, datagrams ?gs)"
    by (simp add: st snap_flush_def mcast_sendAndRecv_def g(5) stream_empty datagrams_def)
  moreover have "concat ?gs @ [] = numbered_updates 0 sent" "[] \<notin> set ?gs"
      "list_all (\<lambda>g. length g \<le> 1000) ?gs" using g assms(2) by auto
  ultimately show ?thesis using g(1) by (auto simp: published_def intro!: exI[of _ ?gs])
qed

lemma published_mono: "published sent b st \<Longrightarrow> b \<le> c \<Longrightarrow> published sent c st"
  unfolding published_def by (auto split: prod.splits intro: le_trans)

lemma publish_order_published:
  assumes "published sent b st" and "b < 1000" and "\<And>i. x = Some i \<Longrightarrow> i < num_cells P"
  shows "\<exists>st'. publish_order P x st = Inr st' \<and> published (sent @ map (object P) (case x of None \<Rightarrow> [] | Some i \<Rightarrow> [i])) b st'"
proof (cases x)
  case None
  then show ?thesis using assms(1) by (simp add: publish_order_def)
next
  case (Some i)
  obtain st1 where st1: "snap_send (object P i) st = Inr st1" "published (sent @ [object P i]) (Suc b) st1"
    using snap_send_published[OF assms(1,2)] by blast
  obtain st2 where "snap_flush st1 = Inr st2" "published (sent @ [object P i]) 0 st2"
    using snap_flush_published[OF st1(2)] assms(2) by auto
  then show ?thesis using Some st1(1) assms(3) published_mono[of _ 0 st2 b] by (simp add: publish_order_def)
qed

lemma publish_orders_published:
  assumes "published sent b st" and "b < 1000" and "\<And>i. Some i \<in> set xs \<Longrightarrow> i < num_cells P"
  shows "\<exists>st'. res_fold (publish_order P) xs st = Inr st' \<and>
     published (sent @ map (object P) (List.map_filter (\<lambda>x. x) xs)) b st'"
  using assms
proof (induction xs arbitrary: sent st)
  case (Cons x xs)
  have "i < num_cells P" if "x = Some i" for i using Cons.prems(3) that by simp
  from publish_order_published[OF Cons.prems(1,2) this]
  obtain st1 where st1: "publish_order P x st = Inr st1"
      "published (sent @ map (object P) (case x of None \<Rightarrow> [] | Some i \<Rightarrow> [i])) b st1"
    by blast
  have "i < num_cells P" if "Some i \<in> set xs" for i using Cons.prems(3) that by simp
  from Cons.IH[OF st1(2) Cons.prems(2) this]
  obtain st2 where "res_fold (publish_order P) xs st1 = Inr st2"
      "published ((sent @ map (object P) (case x of None \<Rightarrow> [] | Some i \<Rightarrow> [i])) @
        map (object P) (List.map_filter (\<lambda>x. x) xs)) b st2"
    by blast
  then show ?case using st1(1) by (cases x) (simp_all add: map_filter_simps)
qed (simp add: map_filter_simps)

lemma publish_ticker_published:
  assumes "syn_ok s" and "published sent b st" and "b < 500"
  shows "\<exists>st'. publish_ticker s t st = Inr st' \<and>
     published (sent @ clear_message t # ticker_orders (abs_orders s) t) (Suc b) st'"
proof -
  obtain st1 where st1: "snap_send (clear_message t) st = Inr st1" "published (sent @ [clear_message t]) (Suc b) st1"
    using snap_send_published[OF assms(2), of "clear_message t"] assms(3) by force
  have "i < num_cells (update_pool s)" if "Some i \<in> set (map (ticker_order_to_update s t) [0..<ME_MAX_ORDER_IDS])" for i
    using that slot_live(2)[OF assms(1), of t _ i] by fastforce
  moreover have "Suc b < 1000" using assms(3) by simp
  ultimately obtain st2 where "res_fold (publish_order (update_pool s)) (map (ticker_order_to_update s t) [0..<ME_MAX_ORDER_IDS]) st1 = Inr st2"
     "published ((sent @ [clear_message t]) @ map (object (update_pool s))
        (List.map_filter (\<lambda>x. x) (map (ticker_order_to_update s t) [0..<ME_MAX_ORDER_IDS]))) (Suc b) st2"
    using publish_orders_published[OF st1(2)] by blast
  moreover have "map (object (update_pool s)) (List.map_filter (\<lambda>x. x) (map (ticker_order_to_update s t) ns)) =
      List.map_filter (abs_orders s t) ns" for ns
    by (induction ns) (auto simp: map_filter_simps abs_orders_def split: option.splits)
  ultimately show ?thesis using st1(1) by (simp add: publish_ticker_def ticker_orders_def)
qed

lemma publish_tickers_published:
  assumes "syn_ok s" and "published sent b st" and "b + length ts < 500"
  shows "\<exists>st'. res_fold (publish_ticker s) ts st = Inr st' \<and>
     published (sent @ concat (map (\<lambda>t. clear_message t # ticker_orders (abs_orders s) t) ts)) (b + length ts) st'"
  using assms(2,3)
proof (induction ts arbitrary: sent b st)
  case (Cons t ts)
  obtain st1 where st1: "publish_ticker s t st = Inr st1"
      "published (sent @ clear_message t # ticker_orders (abs_orders s) t) (Suc b) st1"
    using publish_ticker_published[OF assms(1) Cons.prems(1)] Cons.prems(2) by fastforce
  then show ?case using Cons.IH[OF st1(2)] Cons.prems(2) by auto
qed simp

lemma snapshot_datagrams:
  assumes "syn_ok s" and "outbound (snapshot_socket s) = []"
  shows "\<exists>gs s'. publishSnapShot s = Inr (datagrams gs, s') \<and> [] \<notin> set gs \<and>
     list_all (\<lambda>g. length g \<le> 1000) gs \<and>
     concat gs = numbered_updates 0 (snapshot_messages (abs_orders s) (last_seq_num s)) \<and>
     outbound (snapshot_socket s') = [] \<and> abs_orders s' = abs_orders s \<and> last_seq_num s' = last_seq_num s"
proof -
  have "published [] 0 (0, snapshot_socket s, [])"
    using assms(2) by (auto simp: published_def datagrams_def intro!: exI[of _ "[]"])
  from snap_send_published[OF this, of "boundary_message SNAPSHOT_START (last_seq_num s)"]
  obtain st1 where st1: "snap_send (boundary_message SNAPSHOT_START (last_seq_num s)) (0, snapshot_socket s, []) = Inr st1"
      "published [boundary_message SNAPSHOT_START (last_seq_num s)] 1 st1" by auto
  from publish_tickers_published[OF assms(1) st1(2), of "[0..<ME_MAX_TICKERS]"]
  obtain st2 where st2: "res_fold (publish_ticker s) [0..<ME_MAX_TICKERS] st1 = Inr st2"
      "published (boundary_message SNAPSHOT_START (last_seq_num s) # snapshot_body (abs_orders s)) 9 st2"
    by (auto simp: snapshot_body_def size_defs)
  from snap_send_published[OF st2(2), of "boundary_message SNAPSHOT_END (last_seq_num s)"]
  obtain st3 where st3: "snap_send (boundary_message SNAPSHOT_END (last_seq_num s)) st2 = Inr st3"
      "published (snapshot_messages (abs_orders s) (last_seq_num s)) 10 st3"
    by (auto simp: snapshot_messages_def)
  from snap_flush_published[OF st3(2)]
  obtain st4 where st4: "snap_flush st3 = Inr st4" "published (snapshot_messages (abs_orders s) (last_seq_num s)) 0 st4"
    by auto
  then obtain n k gs where st: "st4 = (n, k, datagrams gs)" and gs: "[] \<notin> set gs" "list_all (\<lambda>g. length g \<le> 1000) gs" "outbound k = []"
      "concat gs = numbered_updates 0 (snapshot_messages (abs_orders s) (last_seq_num s))"
    by (cases st4) (auto simp: published_def)
  moreover have "abs_orders (s\<lparr>snapshot_socket := k\<rparr>) = abs_orders s" by (simp add: abs_orders_def fun_eq_iff)
  ultimately show ?thesis using st1(1) st2(1) st3(1) st4(1)
    by (intro exI[of _ gs] exI[of _ "s\<lparr>snapshot_socket := k\<rparr>"]) (simp add: publishSnapShot_def)
qed

text \<open>The datagrams of a snapshot hold the messages computed from the live orders, each message
  whole in one datagram, numbered from zero: the start message with the number of the last update
  taken over, for each ticker a clearing message followed by its live orders in the order of
  their identifiers, and the end message with that number again.\<close>

theorem snapshot_published:
  assumes "syn_ok s" and "outbound (snapshot_socket s) = []"
  shows "\<exists>gs s'. publishSnapShot s = Inr (datagrams gs, s') \<and> [] \<notin> set gs \<and>
     list_all (\<lambda>g. length g \<le> 1000) gs \<and>
     concat gs = numbered_updates 0 (snapshot_messages (abs_orders s) (last_seq_num s)) \<and>
     outbound (snapshot_socket s') = [] \<and> abs_orders s' = abs_orders s \<and> last_seq_num s' = last_seq_num s"
  using assms by (rule snapshot_datagrams)

section \<open>Replaying a snapshot\<close>

definition well_keyed :: "live_orders \<Rightarrow> bool" where
  "well_keyed m \<longleftrightarrow> (\<forall>t i u. m t i = Some u \<longrightarrow> entry_ok t i u)"

lemma syn_ok_keyed: "syn_ok s \<Longrightarrow> well_keyed (abs_orders s)"
  by (simp add: syn_ok_def well_keyed_def)

text \<open>What the messages tell a reader to do that holds the orders \<open>m\<close>: CLEAR, which the incremental
  stream never carries, drops all orders of its ticker, and the others are as the synthetizer takes them.\<close>

definition obey_update :: "MEMarketUpdate \<Rightarrow> live_orders \<Rightarrow> live_orders" where
  "obey_update u m = (if mu_type u = MU_CLEAR then m(unat (mu_ticker_id u) := (\<lambda>_. None)) else keep_update u m)"

lemma obey_entry: "entry_ok t i u \<Longrightarrow> obey_update u m = m(t := (m t)(i := Some u))"
  by (simp add: obey_update_def keep_update_def entry_ok_def Let_def)

lemma obey_clear: "t < ME_MAX_TICKERS \<Longrightarrow> obey_update (clear_message t) m = m(t := (\<lambda>_. None))"
  by (simp add: obey_update_def clear_message_def size_defs unat_of_nat)

lemma obey_increments: "list_all (\<lambda>u. mu_type u \<noteq> MU_CLEAR) us \<Longrightarrow> fold obey_update us m = fold keep_update us m"
  by (induction us arbitrary: m) (simp_all add: obey_update_def)

lemma replay_orders:
  assumes "well_keyed m"
  shows "fold obey_update (List.map_filter (m t) ns) m0 =
    m0(t := (\<lambda>i. if i \<in> set ns \<and> m t i \<noteq> None then m t i else m0 t i))"
proof (induction ns arbitrary: m0)
  case (Cons n ns)
  show ?case
  proof (cases "m t n")
    case None
    then show ?thesis using Cons.IH[of m0] by (auto simp: map_filter_simps fun_eq_iff)
  next
    case (Some u)
    then have "entry_ok t n u" using assms by (simp add: well_keyed_def)
    then have "fold obey_update (List.map_filter (m t) (n # ns)) m0 =
        fold obey_update (List.map_filter (m t) ns) (m0(t := (m0 t)(n := Some u)))"
      using Some by (simp add: map_filter_simps obey_entry)
    then show ?thesis unfolding Cons.IH using Some by (auto simp: fun_eq_iff)
  qed
qed (simp add: map_filter_simps)

lemma replay_ticker:
  assumes "well_keyed m" and "t < ME_MAX_TICKERS"
  shows "fold obey_update (clear_message t # ticker_orders m t) m0 = m0(t := m t)"
proof -
  have "m t i = None" if "\<not> i < ME_MAX_ORDER_IDS" for i
    using assms(1) that unfolding well_keyed_def entry_ok_def by (cases "m t i") blast+
  then have "(\<lambda>i. if i \<in> set [0..<ME_MAX_ORDER_IDS] \<and> m t i \<noteq> None then m t i else (m0(t := \<lambda>_. None)) t i) = m t"
    by (auto simp: fun_eq_iff)
  then show ?thesis
    unfolding fold_simps comp_apply obey_clear[OF assms(2)] ticker_orders_def replay_orders[OF assms(1)]
    by (simp only: fun_upd_upd)
qed

lemma replay_tickers:
  assumes "well_keyed m" and "\<forall>t \<in> set ts. t < ME_MAX_TICKERS"
  shows "fold obey_update (concat (map (\<lambda>t. clear_message t # ticker_orders m t) ts)) m0 = (\<lambda>t. if t \<in> set ts then m t else m0 t)"
  using assms(2)
proof (induction ts arbitrary: m0)
  case (Cons t ts)
  then have "t < ME_MAX_TICKERS" by simp
  with Cons show ?case
    unfolding list.map concat.simps fold_append comp_apply replay_ticker[OF assms(1) \<open>t < ME_MAX_TICKERS\<close>]
    by (auto simp: fun_eq_iff)
qed simp

text \<open>Whatever orders of the exchange's tickers a reader has held, the body of a snapshot leaves it with
  the synthetizer's: each ticker is cleared before its orders are added.\<close>

lemma replay_body:
  assumes "syn_ok s" and "\<forall>t \<ge> ME_MAX_TICKERS. held t = (\<lambda>_. None)"
  shows "fold obey_update (snapshot_body (abs_orders s)) held = abs_orders s"
proof -
  have keyed: "well_keyed (abs_orders s)" using assms(1) by (rule syn_ok_keyed)
  then have "abs_orders s t i = None" if "\<not> t < ME_MAX_TICKERS" for t i
    using that unfolding well_keyed_def entry_ok_def by (cases "abs_orders s t i") blast+
  then have "(if t < ME_MAX_TICKERS then abs_orders s t else held t) = abs_orders s t" for t
    using assms(2) by (auto simp: fun_eq_iff simp del: abs_orders_None)
  then show ?thesis
    unfolding snapshot_body_def using replay_tickers[OF keyed, of "[0..<ME_MAX_TICKERS]" held] by simp
qed

text \<open>A reader that obeys the messages of a snapshot has the synthetizer's live orders, and taking the
  later updates of the incremental stream then keeps up with it.\<close>

theorem snapshot_replays:
  assumes "syn_ok s" and "\<forall>t \<ge> ME_MAX_TICKERS. held t = (\<lambda>_. None)" and "list_all (\<lambda>u. mu_type u \<noteq> MU_CLEAR) later"
  shows "fold obey_update (snapshot_messages (abs_orders s) n @ later) held = fold keep_update later (abs_orders s)"
proof -
  have "obey_update (boundary_message SNAPSHOT_START n) m = m" "obey_update (boundary_message SNAPSHOT_END n) m = m" for m
    by (simp_all add: obey_update_def keep_update_def boundary_message_def Let_def)
  then show ?thesis using replay_body[OF assms(1,2)] obey_increments[OF assms(3)] by (simp add: snapshot_messages_def)
qed

section \<open>Examples\<close>

text \<open>A synthetizer that has taken over one order.\<close>

lemma sample_live:
  obtains s where "addSnapShot \<lparr>mdp_seq_num = 1, mdp_update = sample_update 4\<rparr> (new_SnapshotSynthetizer (newQueue default_mdp_update 8) 6) = Inr s"
    and "syn_ok s" and "abs_orders s 3 4 = Some (sample_update 4)" and "last_seq_num s = 1" and "outbound (snapshot_socket s) = []"
    and "abs_orders s = (\<lambda>_ _. None)(3 := [4 \<mapsto> sample_update 4])"
proof -
  let ?s = "new_SnapshotSynthetizer (newQueue default_mdp_update 8) 6"
  have new: "syn_ok ?s" "abs_orders ?s = (\<lambda>_ _. None)" by (simp_all add: new_SnapshotSynthetizer_ok)
  have last: "last_seq_num ?s = 0" "outbound (snapshot_socket ?s) = []"
    by (simp_all add: new_SnapshotSynthetizer_def mcast_init_def new_McastSocket_def)
  have "card (live_keys (abs_orders ?s)) + 2 \<le> ME_MAX_ORDER_IDS"
    unfolding new(2) by (simp add: live_keys_def size_defs)
  then obtain s where "addSnapShot \<lparr>mdp_seq_num = 1, mdp_update = sample_update 4\<rparr> ?s = Inr s" "syn_ok s"
     "abs_orders s = keep_update (sample_update 4) (abs_orders ?s)" "last_seq_num s = 1" "snapshot_socket s = snapshot_socket ?s"
    using addSnapShot_step[OF new(1), of "\<lparr>mdp_seq_num = 1, mdp_update = sample_update 4\<rparr>"] fits_sample unfolding new(2) last by auto
  moreover have "keep_update (sample_update 4) (\<lambda>_ _. None) = (\<lambda>_ _. None)(3 := [4 \<mapsto> sample_update 4])"
    by (simp add: keep_update_def sample_update_def Let_def)
  ultimately show thesis using that[of s] last unfolding new by simp
qed

theorem snapshot_published_witness:
  "\<exists>s gs s'. abs_orders s 3 4 = Some (sample_update 4) \<and> publishSnapShot s = Inr (datagrams gs, s') \<and>
     concat gs = numbered_updates 0 (snapshot_messages (abs_orders s) 1)"
proof -
  obtain s where s: "syn_ok s" "abs_orders s 3 4 = Some (sample_update 4)" "last_seq_num s = 1" "outbound (snapshot_socket s) = []"
    using sample_live by blast
  show ?thesis using snapshot_published[OF s(1,4)] s(2,3) by auto
qed

theorem snapshot_replays_witness:
  "\<exists>s. abs_orders s 3 4 = Some (sample_update 4) \<and>
     fold obey_update (snapshot_messages (abs_orders s) 1 @ []) ((\<lambda>_ _. None)(5 := [7 \<mapsto> sample_update 7])) = abs_orders s"
proof -
  obtain s where s: "syn_ok s" "abs_orders s 3 4 = Some (sample_update 4)"
    using sample_live by blast
  have "\<forall>t \<ge> ME_MAX_TICKERS. ((\<lambda>_ _. None)(5 := [7 \<mapsto> sample_update 7]) :: live_orders) t = (\<lambda>_. None)"
    by (simp add: size_defs)
  from snapshot_replays[OF s(1) this, of "[]" 1] s(2) show ?thesis by (intro exI[of _ s]) (simp only: list.pred_inject(1) fold_simps simp_thms)
qed

end
