(* ===== verification/Recovery.thy ===== *)
theory Recovery
  imports MarketDataConsumer Snapshots
begin

text \<open>
  The consumer's recovery from a gap in the incremental stream, and the consumer and the
  synthetizer together: a client that has lost updates gets, from the datagrams of one snapshot
  and the incremental updates it queued meanwhile, exactly the messages from which a reader that
  obeys them has the live orders of the exchange again.
\<close>

section \<open>Queued messages\<close>

definition as_queue :: "u64 \<Rightarrow> MEMarketUpdate list \<Rightarrow> QueuedMarketUpdate" where
  "as_queue n us = map (\<lambda>m. (mdp_seq_num m, mdp_update m)) (numbered_updates n us)"

lemma as_queue_simps [simp]: "as_queue n [] = []" "as_queue n (u # us) = (n, u) # as_queue (n + 1) us"
  by (simp_all add: as_queue_def)

lemma as_queue_append: "as_queue n (us @ vs) = as_queue n us @ as_queue (n + of_nat (length us)) vs"
  by (simp add: as_queue_def nup.num_append)

lemma as_queue_Nil [simp]: "as_queue n us = [] \<longleftrightarrow> us = []"
  by (cases us) simp_all

lemma snd_last_as_queue: "us \<noteq> [] \<Longrightarrow> snd (last (as_queue n us)) = last us"
  by (induction us arbitrary: n) auto

lemma join_snapshot_consecutive: "join_snapshot n (as_queue n us) = Some (filter (\<lambda>u. \<not> is_boundary u) us)"
  by (induction us arbitrary: n) simp_all

lemma as_queue_keys_from:
  "x \<in> set (as_queue (of_nat k) us) \<Longrightarrow> k + length us < 2 ^ 64 \<Longrightarrow> fst x < of_nat (k + length us)"
proof (induction us arbitrary: k)
  case (Cons u us)
  show ?case
  proof (cases "x = (of_nat k, u)")
    case True
    then show ?thesis using Cons.prems(2) by (simp add: word_less_nat_alt unat_of_nat del: of_nat_Suc of_nat_add)
  next
    case False
    then have "x \<in> set (as_queue (of_nat (Suc k)) us)" using Cons.prems(1) by (simp add: add.commute)
    then show ?thesis using Cons.IH[of "Suc k"] Cons.prems(2) by simp
  qed
qed simp

lemma as_queue_keys_below:
  assumes "unat a + length us < 2 ^ 64"
  shows "\<forall>x \<in> set (as_queue a us). fst x < a + of_nat (length us)"
  using as_queue_keys_from[of _ "unat a" us] assms by simp

lemma join_increments_consecutive:
  assumes "unat a + length us < 2 ^ 64" and "unat a \<le> unat e" and "unat e \<le> unat a + length us"
  shows "join_increments e (as_queue a us) =
    (a + of_nat (length us), Some (filter (\<lambda>u. \<not> is_boundary u) (drop (unat e - unat a) us)))"
  using assms
proof (induction us arbitrary: a e)
  case Nil
  then have "e = a" by (simp add: word_unat_eq_iff)
  then show ?case by simp
next
  case (Cons u us)
  have suc: "unat (a + 1) = unat a + 1" using Cons.prems(1) by (simp add: unat_word_ariths(1))
  show ?case
  proof (cases "a < e")
    case True
    then have "unat a < unat e" by (simp add: word_less_nat_alt)
    then have "join_increments e (as_queue (a + 1) us) =
        (a + 1 + of_nat (length us), Some (filter (\<lambda>u. \<not> is_boundary u) (drop (unat e - unat (a + 1)) us)))"
      using Cons.prems suc by (intro Cons.IH) simp_all
    moreover have "unat e - unat a = Suc (unat e - unat (a + 1))" using \<open>unat a < unat e\<close> suc by simp
    ultimately show ?thesis using True by (simp add: algebra_simps)
  next
    case False
    then have "e = a" using Cons.prems(2) by (simp add: word_less_nat_alt word_unat_eq_iff)
    moreover have "join_increments (a + 1) (as_queue (a + 1) us) =
        (a + 1 + of_nat (length us), Some (filter (\<lambda>u. \<not> is_boundary u) us))"
      using Cons.IH[of "a + 1" "a + 1"] Cons.prems(1) suc by simp
    ultimately show ?thesis by (simp add: algebra_simps)
  qed
qed

section \<open>Collecting a snapshot\<close>

lemma consume_lost:
  assumes "packet_lost c"
  shows "consume net snap m c = Inr (queueMessage snap m c)"
proof -
  have same: "c\<lparr>packet_lost := True\<rparr> = c" using assms by (cases c) simp
  show ?thesis using assms by (simp add: consume_def Let_def) (simp only: same)
qed

definition no_end :: "MEMarketUpdate list \<Rightarrow> bool" where
  "no_end us \<longleftrightarrow> list_all (\<lambda>u. mu_type u \<noteq> SNAPSHOT_END) us"

text \<open>A message that continues what has been collected is added to it.\<close>

lemma queue_next:
  assumes "snapshot_queue_message c = as_queue 0 pre" and "length pre < 2 ^ 64 - 1"
  shows "queueMessage True \<lparr>mdp_seq_num = of_nat (length pre), mdp_update = u\<rparr> c =
    checkSnapshotSync (c\<lparr>snapshot_queue_message := as_queue 0 (pre @ [u])\<rparr>)"
proof -
  have below: "\<forall>x \<in> set (as_queue 0 pre). fst x < of_nat (length pre)" using assms(2) as_queue_keys_below[of 0 pre] by simp
  then have "of_nat (length pre) \<notin> fst ` set (as_queue 0 pre)" by fastforce
  then show ?thesis
    using queue_assign_last[OF below] assms(1) by (simp add: queueMessage_def Let_def as_queue_append)
qed

lemma check_snapshot:
  assumes "snapshot_queue_message c = as_queue 0 us" and "us \<noteq> []" and "mu_type (hd us) = SNAPSHOT_START"
  shows "checkSnapshotSync c =
    (if mu_type (last us) \<noteq> SNAPSHOT_END then c
     else (case join_increments (mu_order_id (last us) + 1) (incremental_queue_message c) of
         (e, None) \<Rightarrow> c\<lparr>exp_seq_num := e, snapshot_queue_message := []\<rparr>
       | (e, Some incs) \<Rightarrow>
           c\<lparr>exp_seq_num := e,
             incoming_market_update_queue := fold push (filter (\<lambda>u. \<not> is_boundary u) us @ incs) (incoming_market_update_queue c),
             packet_lost := False, snapshot_queue_message := [], incremental_queue_message := [],
             in_snapshot := mcast_leave (in_snapshot c)\<rparr>))"
proof -
  obtain u q where q: "as_queue 0 us = (0, u) # q" "mu_type u = SNAPSHOT_START" using assms(2,3) by (cases us) auto
  show ?thesis
    unfolding checkSnapshotSync_def assms(1) join_snapshot_consecutive option.case snd_last_as_queue[OF assms(2)] Let_def
    unfolding q(1) list.case snd_conv using q(2) by simp
qed

lemma check_incomplete:
  assumes "snapshot_queue_message c = as_queue 0 us" and "us \<noteq> []" and "mu_type (hd us) = SNAPSHOT_START"
    and "mu_type (last us) \<noteq> SNAPSHOT_END"
  shows "checkSnapshotSync c = c"
  using check_snapshot[OF assms(1-3)] assms(4) by simp

lemma collect:
  assumes "packet_lost c" and "snapshot_queue_message c = as_queue 0 pre" and "length (pre @ us) < 2 ^ 64 - 1"
    and "pre @ us \<noteq> [] \<longrightarrow> mu_type (hd (pre @ us)) = SNAPSHOT_START" and "no_end us"
  shows "res_fold (consume net True) (numbered_updates (of_nat (length pre)) us) c =
    Inr (c\<lparr>snapshot_queue_message := as_queue 0 (pre @ us)\<rparr>)"
  using assms
proof (induction us arbitrary: pre c)
  case Nil
  then show ?case by (cases c) simp
next
  case (Cons u us)
  let ?c = "c\<lparr>snapshot_queue_message := as_queue 0 (pre @ [u])\<rparr>"
  have "mu_type (hd (pre @ [u])) = SNAPSHOT_START" using Cons.prems(4) by (cases pre) simp_all
  then have "checkSnapshotSync ?c = ?c"
    using Cons.prems(5) by (intro check_incomplete[of _ "pre @ [u]"]) (simp_all add: no_end_def)
  then have "consume net True \<lparr>mdp_seq_num = of_nat (length pre), mdp_update = u\<rparr> c = Inr ?c"
    using Cons.prems(1-3) queue_next[of c pre u] by (simp add: consume_lost)
  moreover have "res_fold (consume net True) (numbered_updates (of_nat (length (pre @ [u]))) us) ?c =
      Inr (?c\<lparr>snapshot_queue_message := as_queue 0 ((pre @ [u]) @ us)\<rparr>)"
    using Cons.prems by (intro Cons.IH) (simp_all add: no_end_def)
  ultimately show ?case by (simp add: add.commute)
qed

text \<open>The end message completes the recovery when the queued incremental updates reach back to it.\<close>

lemma complete:
  assumes "packet_lost c" and "snapshot_queue_message c = as_queue 0 (boundary_message SNAPSHOT_START n # body)"
    and "length body < 2 ^ 64 - 2" and "list_all (\<lambda>u. \<not> is_boundary u) body" and "list_all (\<lambda>u. \<not> is_boundary u) us"
    and "incremental_queue_message c = as_queue a us"
    and "unat a + length us < 2 ^ 64" and "unat a \<le> unat (n + 1)" and "unat (n + 1) \<le> unat a + length us"
  shows "consume net True \<lparr>mdp_seq_num = of_nat (length body + 1), mdp_update = boundary_message SNAPSHOT_END n\<rparr> c =
    Inr (c\<lparr>exp_seq_num := a + of_nat (length us),
           incoming_market_update_queue := fold push (body @ drop (unat (n + 1) - unat a) us) (incoming_market_update_queue c),
           packet_lost := False, snapshot_queue_message := [], incremental_queue_message := [],
           in_snapshot := mcast_leave (in_snapshot c)\<rparr>)"
proof -
  let ?us = "boundary_message SNAPSHOT_START n # body @ [boundary_message SNAPSHOT_END n]"
  let ?c = "c\<lparr>snapshot_queue_message := as_queue 0 ?us\<rparr>"
  have types: "mu_type (boundary_message ty n) = ty" "mu_order_id (boundary_message ty n) = n" for ty
    by (simp_all add: boundary_message_def)
  have keep: "filter (\<lambda>u. \<not> is_boundary u) xs = xs" if "list_all (\<lambda>u. \<not> is_boundary u) xs" for xs
    using that by (simp add: list_all_iff)
  have "list_all (\<lambda>u. \<not> is_boundary u) (drop k us)" for k
    using assms(5) by (auto simp: list_all_iff dest: in_set_dropD)
  then have incs: "join_increments (n + 1) (as_queue a us) = (a + of_nat (length us), Some (drop (unat (n + 1) - unat a) us))"
    using join_increments_consecutive[OF assms(7-9)] keep by simp
  have "filter (\<lambda>u. \<not> is_boundary u) ?us = body"
    using keep[OF assms(4)] by (simp add: is_boundary_def types)
  moreover have "last ?us = boundary_message SNAPSHOT_END n" by simp
  ultimately have check: "checkSnapshotSync ?c = ?c\<lparr>exp_seq_num := a + of_nat (length us),
           incoming_market_update_queue := fold push (body @ drop (unat (n + 1) - unat a) us) (incoming_market_update_queue ?c),
           packet_lost := False, snapshot_queue_message := [], incremental_queue_message := [],
           in_snapshot := mcast_leave (in_snapshot ?c)\<rparr>"
    using check_snapshot[of ?c ?us] incs assms(6) types by (simp del: as_queue_simps last.simps filter.simps)
  have "queueMessage True \<lparr>mdp_seq_num = of_nat (length body + 1), mdp_update = boundary_message SNAPSHOT_END n\<rparr> c = checkSnapshotSync ?c"
    using queue_next[OF assms(2), of "boundary_message SNAPSHOT_END n"] assms(3) by simp
  also have "\<dots> = c\<lparr>exp_seq_num := a + of_nat (length us),
           incoming_market_update_queue := fold push (body @ drop (unat (n + 1) - unat a) us) (incoming_market_update_queue c),
           packet_lost := False, snapshot_queue_message := [], incremental_queue_message := [],
           in_snapshot := mcast_leave (in_snapshot c)\<rparr>"
    unfolding check by simp
  finally show ?thesis using consume_lost[OF assms(1)] by simp
qed

section \<open>A snapshot in datagrams\<close>

text \<open>A lost consumer that reads one datagram of snapshot messages.\<close>

lemma poll_snapshot:
  assumes "packet_lost c" and "inbound (in_snapshot c) = []" and "g \<noteq> []" and "length g * update_size \<le> McastBufferSize"
    and "list_all (\<lambda>m. update_wf (mdp_update m)) g" and "res_fold (consume net True) g (c\<lparr>in_snapshot := (in_snapshot c)\<lparr>inbound := updates.stream g\<rparr>\<rparr>) = Inr c'"
  shows "consumer_poll net True (updates.stream g) c = Inr (c'\<lparr>in_snapshot := (in_snapshot c')\<lparr>inbound := [], outbound := []\<rparr>\<rparr>)"
proof -
  define c0 where "c0 = c\<lparr>in_snapshot := (in_snapshot c)\<lparr>inbound := updates.stream g\<rparr>\<rparr>"
  have "read_frames update_size (\<lambda>f. consume net True (decode_update f)) (updates.stream g) c0 = Inr ([], c')"
    using updates.read_stream[OF assms(5), of "[]" "consume net True" c0] assms(6) by (simp add: c0_def update_size_def)
  then have "consumer_recvCallbacks net True c0 = Inr (c'\<lparr>in_snapshot := (in_snapshot c')\<lparr>inbound := []\<rparr>\<rparr>)"
    using assms(1) by (simp add: consumer_recvCallbacks_def sock_of_def set_sock_def c0_def Let_def)
  moreover have "take McastBufferSize (updates.stream g) = updates.stream g"
    using assms(4) by (simp add: updates.stream_length)
  ultimately show ?thesis
    using assms(2,3) by (simp add: consumer_poll_def mcast_sendAndRecv_def sock_of_def set_sock_def c0_def stream_empty Let_def)
qed

text \<open>A whole snapshot, already partly collected, arriving in datagrams of whole messages.\<close>

definition level_again :: "MarketDataConsumer \<Rightarrow> MEMarketUpdate list \<Rightarrow> u64 \<Rightarrow> MarketDataConsumer \<Rightarrow> bool" where
  "level_again c us e c' \<longleftrightarrow> \<not> packet_lost c' \<and> exp_seq_num c' = e \<and>
     incoming_market_update_queue c' = fold push us (incoming_market_update_queue c) \<and>
     snapshot_queue_message c' = [] \<and> incremental_queue_message c' = [] \<and> socket_fd (in_snapshot c') = - 1"

lemma numbered_split:
  assumes "numbered_updates n us = g @ h"
  shows "g = numbered_updates n (take (length g) us) \<and>
     h = numbered_updates (n + of_nat (length g)) (drop (length g) us)"
proof -
  have "length (numbered_updates n us) = length g + length h" using assms by simp
  then have "length (take (length g) us) = length g" by simp
  then have "numbered_updates n us = numbered_updates n (take (length g) us) @ numbered_updates (n + of_nat (length g)) (drop (length g) us)"
    using nup.num_append[of n "take (length g) us" "drop (length g) us"] by simp
  then show ?thesis using assms \<open>length (take (length g) us) = length g\<close>
    by (metis append_eq_append_conv nup.num_length)
qed

lemma no_end_take:
  assumes "pre @ us = boundary_message SNAPSHOT_START n # body @ [boundary_message SNAPSHOT_END n]"
    and "list_all (\<lambda>u. \<not> is_boundary u) body" and "k < length us"
  shows "no_end (take k us)"
proof -
  have "take (length pre + k) (pre @ us) = take (length pre + k) (boundary_message SNAPSHOT_START n # body)"
  proof -
    have "length pre + k \<le> length (boundary_message SNAPSHOT_START n # body)"
      using assms(3) arg_cong[OF assms(1), of length] by simp
    then have "take (length pre + k) ((boundary_message SNAPSHOT_START n # body) @ [boundary_message SNAPSHOT_END n]) =
        take (length pre + k) (boundary_message SNAPSHOT_START n # body)"
      by (simp only: take_append) simp
    then show ?thesis unfolding assms(1) by simp
  qed
  moreover have "set (take k us) \<subseteq> set (take (length pre + k) (pre @ us))" by simp
  ultimately have "set (take k us) \<subseteq> set (boundary_message SNAPSHOT_START n # body)"
    using set_take_subset[of "length pre + k" "boundary_message SNAPSHOT_START n # body"] by simp
  then show ?thesis using assms(2) by (auto simp: no_end_def list_all_iff boundary_message_def is_boundary_def)
qed

lemma polls_recover:
  assumes "packet_lost c" and "inbound (in_snapshot c) = []" and "snapshot_queue_message c = as_queue 0 pre"
    and "incremental_queue_message c = as_queue a incs"
    and "pre @ us = boundary_message SNAPSHOT_START n # body @ [boundary_message SNAPSHOT_END n]"
    and "concat gs = numbered_updates (of_nat (length pre)) us" and "[] \<notin> set gs" and "us \<noteq> []"
    and "list_all (\<lambda>g. length g * update_size \<le> McastBufferSize) gs" and "list_all update_wf us"
    and "length body < 2 ^ 64 - 3" and "list_all (\<lambda>u. \<not> is_boundary u) body" and "list_all (\<lambda>u. \<not> is_boundary u) incs"
    and "unat a + length incs < 2 ^ 64" and "unat a \<le> unat (n + 1)" and "unat (n + 1) \<le> unat a + length incs"
  shows "\<exists>c'. res_fold (consumer_poll net True) (datagrams gs) c = Inr c' \<and>
     level_again c (body @ drop (unat (n + 1) - unat a) incs) (a + of_nat (length incs)) c'"
  using assms(1-10)
proof (induction gs arbitrary: c pre us)
  case (Cons g gs)
  have split: "g = numbered_updates (of_nat (length pre)) (take (length g) us)"
      "concat gs = numbered_updates (of_nat (length pre) + of_nat (length g)) (drop (length g) us)"
    using numbered_split[of "of_nat (length pre)" us g "concat gs"] Cons.prems(6) by simp_all
  have len: "length g + length (concat gs) = length us"
    using arg_cong[OF Cons.prems(6), of length] by simp
  have wf: "list_all (\<lambda>m. update_wf (mdp_update m)) g"
    using numbered_updates_wf[of "take (length g) us"] Cons.prems(10) split(1)
    by (metis append_take_drop_id list_all_append)
  have size: "length g * update_size \<le> McastBufferSize" "g \<noteq> []" using Cons.prems(7,9) by auto
  let ?c0 = "c\<lparr>in_snapshot := (in_snapshot c)\<lparr>inbound := updates.stream g\<rparr>\<rparr>"
  have bound: "length (pre @ us) < 2 ^ 64 - 1" using assms(11) unfolding Cons.prems(5) by simp
  have start: "mu_type (hd (pre @ us)) = SNAPSHOT_START" unfolding Cons.prems(5) by (simp add: boundary_message_def)
  show ?case
  proof (cases "gs = []")
    case False
    then have "concat gs \<noteq> []" using Cons.prems(7) by (cases gs) auto
    then have short: "length g < length us" using len by (cases "concat gs") auto
    define us1 where "us1 = take (length g) us"
    have us1: "length us1 = length g" "us1 \<noteq> []" using short size(2) by (auto simp: us1_def)
    let ?c1 = "?c0\<lparr>snapshot_queue_message := as_queue 0 (pre @ us1)\<rparr>"
    have "no_end us1" unfolding us1_def by (rule no_end_take[OF Cons.prems(5) assms(12) short])
    moreover have "mu_type (hd (pre @ us1)) = SNAPSHOT_START"
      using start us1(2) by (cases pre) (auto simp: us1_def hd_append)
    moreover have "length (pre @ us1) < 2 ^ 64 - 1" using bound short us1(1) by simp
    ultimately have "res_fold (consume net True) (numbered_updates (of_nat (length pre)) us1) ?c0 = Inr ?c1"
      using Cons.prems(1,3) by (intro collect) simp_all
    then have "res_fold (consume net True) g ?c0 = Inr ?c1" using split(1) unfolding us1_def by simp
    from poll_snapshot[OF Cons.prems(1,2) size(2,1) wf this]
    have poll: "consumer_poll net True (updates.stream g) c = Inr (?c1\<lparr>in_snapshot := (in_snapshot ?c1)\<lparr>inbound := [], outbound := []\<rparr>\<rparr>)" .
    let ?c2 = "?c1\<lparr>in_snapshot := (in_snapshot ?c1)\<lparr>inbound := [], outbound := []\<rparr>\<rparr>"
    have rest: "concat gs = numbered_updates (of_nat (length (pre @ us1))) (drop (length g) us)"
      using split(2) us1(1) by simp
    have parts: "(pre @ us1) @ drop (length g) us = boundary_message SNAPSHOT_START n # body @ [boundary_message SNAPSHOT_END n]"
      using Cons.prems(5) by (simp add: us1_def)
    have wf2: "list_all update_wf (drop (length g) us)" using Cons.prems(10) by (metis append_take_drop_id list_all_append)
    obtain c' where "res_fold (consumer_poll net True) (datagrams gs) ?c2 = Inr c'"
        "level_again ?c2 (body @ drop (unat (n + 1) - unat a) incs) (a + of_nat (length incs)) c'"
      using Cons.IH[of ?c2 "pre @ us1", OF _ _ _ _ parts rest _ _ _ wf2] Cons.prems(1,4,7,9) short by auto
    then show ?thesis using poll by (auto simp: datagrams_def level_again_def)
  next
    case True
    then have g: "g = numbered_updates (of_nat (length pre)) us" using Cons.prems(6) by simp
    define us0 where "us0 = butlast us"
    have "last us = boundary_message SNAPSHOT_END n" using arg_cong[OF Cons.prems(5), of last] Cons.prems(8) by simp
    then have us: "us = us0 @ [boundary_message SNAPSHOT_END n]" using Cons.prems(8) by (metis append_butlast_last_id us0_def)
    then have front: "pre @ us0 = boundary_message SNAPSHOT_START n # body" using Cons.prems(5) by auto
    have "us0 = take (length us - 1) us" by (simp add: us0_def butlast_conv_take)
    then have "no_end us0" using no_end_take[OF Cons.prems(5) assms(12), of "length us - 1"] Cons.prems(8) by simp
    let ?c1 = "?c0\<lparr>snapshot_queue_message := as_queue 0 (boundary_message SNAPSHOT_START n # body)\<rparr>"
    have "res_fold (consume net True) (numbered_updates (of_nat (length pre)) us0) ?c0 = Inr ?c1"
    proof -
      have "length (pre @ us0) < 2 ^ 64 - 1" using bound by (simp add: us)
      then show ?thesis
        using Cons.prems(1,3) \<open>no_end us0\<close> collect[of ?c0 pre us0 net] unfolding front by (simp add: boundary_message_def)
    qed
    moreover have "length pre + length us0 = length body + 1" using arg_cong[OF front, of length] by simp
    then have "numbered_updates (of_nat (length pre)) us = numbered_updates (of_nat (length pre)) us0 @
        [\<lparr>mdp_seq_num = of_nat (length body + 1), mdp_update = boundary_message SNAPSHOT_END n\<rparr>]"
      by (simp add: us nup.num_append flip: of_nat_add)
    moreover note complete[of ?c1 n body incs a net] assms(11-16) Cons.prems(1,4)
    ultimately have "res_fold (consume net True) g ?c0 = Inr (?c1\<lparr>exp_seq_num := a + of_nat (length incs),
           incoming_market_update_queue := fold push (body @ drop (unat (n + 1) - unat a) incs) (incoming_market_update_queue ?c1),
           packet_lost := False, snapshot_queue_message := [], incremental_queue_message := [],
           in_snapshot := mcast_leave (in_snapshot ?c1)\<rparr>)"
      unfolding g by (simp add: res_fold_append)
    from poll_snapshot[OF Cons.prems(1,2) size(2,1) wf this] True
    show ?thesis by (simp add: datagrams_def level_again_def mcast_leave_def)
  qed
next
  case Nil
  then show ?case by (cases us) simp_all
qed

section \<open>Synthetizer and consumer together\<close>

lemma length_map_filter: "length (List.map_filter f xs) \<le> length xs"
  by (induction xs) (auto simp: map_filter_simps split: option.split)

lemma length_snapshot_body: "length (snapshot_body m) \<le> ME_MAX_TICKERS * (ME_MAX_ORDER_IDS + 1)"
proof -
  have "length (concat (map (\<lambda>t. clear_message t # ticker_orders m t) ts)) \<le> length ts * (ME_MAX_ORDER_IDS + 1)" for ts
  proof (induction ts)
    case (Cons t ts)
    have "length (ticker_orders m t) \<le> ME_MAX_ORDER_IDS"
      using length_map_filter[of "m t" "[0..<ME_MAX_ORDER_IDS]"] by (simp add: ticker_orders_def)
    then show ?case using Cons.IH by simp
  qed simp
  from this[of "[0..<ME_MAX_TICKERS]"] show ?thesis by (simp add: snapshot_body_def)
qed

lemma set_map_filter: "set (List.map_filter f xs) = {y. \<exists>x \<in> set xs. f x = Some y}"
  by (induction xs) (auto simp: map_filter_simps split: option.split)

lemma snapshot_body_members:
  assumes "u \<in> set (snapshot_body m)"
  shows "(\<exists>t. u = clear_message t) \<or> (\<exists>t i. m t i = Some u)"
  using assms by (auto simp: snapshot_body_def ticker_orders_def set_map_filter)

lemma snapshot_body_plain:
  assumes "syn_ok s"
  shows "list_all (\<lambda>u. \<not> is_boundary u) (snapshot_body (abs_orders s))"
proof -
  have "\<not> is_boundary u" if "abs_orders s t i = Some u" for t i u
    using assms that by (auto simp: syn_ok_def entry_ok_def is_boundary_def)
  moreover have "\<not> is_boundary (clear_message t)" for t by (simp add: is_boundary_def clear_message_def)
  ultimately have "\<not> is_boundary u" if "u \<in> set (snapshot_body (abs_orders s))" for u
    using snapshot_body_members[OF that] by blast
  then show ?thesis by (simp add: list_all_iff)
qed

lemma default_update_wf: "byte_mu (mu_byte ty) = ty \<Longrightarrow> update_wf (boundary_message ty n)" "update_wf (clear_message t)"
  by (simp_all add: update_wf_def boundary_message_def clear_message_def default_update_def byte_mu_def byte_side_def)

lemma snapshot_messages_wf:
  assumes "\<And>t i u. m t i = Some u \<Longrightarrow> update_wf u"
  shows "list_all update_wf (snapshot_messages m n)"
proof -
  have "update_wf u" if "u \<in> set (snapshot_body m)" for u
    using snapshot_body_members[OF that] assms default_update_wf(2) by auto
  then show ?thesis by (simp add: snapshot_messages_def list_all_iff default_update_wf(1) byte_mu_def)
qed

text \<open>A consumer in recovery that has queued the incremental updates numbered from \<open>a\<close> on.\<close>

definition recovering :: "MarketDataConsumer \<Rightarrow> u64 \<Rightarrow> MEMarketUpdate list \<Rightarrow> bool" where
  "recovering c a incs \<longleftrightarrow> packet_lost c \<and> inbound (in_snapshot c) = [] \<and> snapshot_queue_message c = [] \<and>
     incremental_queue_message c = as_queue a incs \<and> unat a + length incs < 2 ^ 64 \<and>
     list_all (\<lambda>u. \<not> is_boundary u) incs"

text \<open>The consumer and the synthetizer over one snapshot.\<close>

lemma snapshot_levels:
  assumes "syn_ok s" and "outbound (snapshot_socket s) = []" and "\<And>t i u. abs_orders s t i = Some u \<Longrightarrow> update_wf u"
    and "recovering c a incs"
    and "unat a \<le> unat (last_seq_num s + 1)" and "unat (last_seq_num s + 1) \<le> unat a + length incs"
  shows "\<exists>out s' c'. publishSnapShot s = Inr (out, s') \<and> res_fold (consumer_poll net True) out c = Inr c' \<and>
     level_again c (snapshot_body (abs_orders s) @ drop (unat (last_seq_num s + 1) - unat a) incs) (a + of_nat (length incs)) c'"
proof -
  let ?n = "last_seq_num s" and ?body = "snapshot_body (abs_orders s)"
  let ?us = "?body @ drop (unat (?n + 1) - unat a) incs"
  obtain gs s' where pub: "publishSnapShot s = Inr (datagrams gs, s')" "[] \<notin> set gs"
      "list_all (\<lambda>g. length g \<le> 1000) gs" "concat gs = numbered_updates 0 (snapshot_messages (abs_orders s) ?n)"
    using snapshot_datagrams[OF assms(1,2)] by blast
  have "list_all (\<lambda>g. length g * update_size \<le> McastBufferSize) gs"
    using pub(3) by (auto simp: list_all_iff update_size_def McastBufferSize_def)
  moreover have "length ?body < 2 ^ 64 - 3"
    using length_snapshot_body[of "abs_orders s"] by (simp add: size_defs)
  moreover have "[] @ snapshot_messages (abs_orders s) ?n = boundary_message SNAPSHOT_START ?n # ?body @ [boundary_message SNAPSHOT_END ?n]"
    by (simp add: snapshot_messages_def)
  moreover have "snapshot_messages (abs_orders s) ?n \<noteq> []" by (simp add: snapshot_messages_def)
  moreover have "list_all update_wf (snapshot_messages (abs_orders s) ?n)"
    using assms(3) by (rule snapshot_messages_wf)
  ultimately obtain c' where "res_fold (consumer_poll net True) (datagrams gs) c = Inr c'"
      "level_again c ?us (a + of_nat (length incs)) c'"
    using polls_recover[of c "[]" a incs "snapshot_messages (abs_orders s) ?n" ?n ?body gs net] pub(2,4) assms(4-6)
      snapshot_body_plain[OF assms(1)]
    by (auto simp: recovering_def simp del: numbered_updates.simps)
  then show ?thesis using pub(1) by blast
qed

text \<open>C8: a client that has lost updates recovers from one snapshot. The exchange has published the
  updates \<open>all\<close>, none of which is a CLEAR; the synthetizer has taken over the first \<open>n\<close> of them, and the consumer, in
  recovery, has queued those from number \<open>k + 1\<close> on, with \<open>k \<le> n\<close>. After the datagrams of the
  snapshot it expects the next update of the incremental stream, has left the snapshot stream, and
  its queue to the trade engine has grown by the snapshot's messages and the updates
  after it, in this order, when they fit. A reader of that queue that obeys each message, CLEAR included, then has
  the live orders of everything published, whatever orders of the exchange's tickers it held
  before. The program's own book is not such a reader when it is not empty: what CLEAR does there is
  the subject of \<open>clear_aborts_on_two_levels\<close> and \<open>clear_leaves_stale_levels\<close> in theory ClientBook.\<close>

theorem snapshot_recovers_client:
  assumes "syn_ok s" and "outbound (snapshot_socket s) = []" and "\<forall>t i u. abs_orders s t i = Some u \<longrightarrow> update_wf u"
    and "abs_orders s = fold keep_update (take n all) (\<lambda>_ _. None)" and "last_seq_num s = of_nat n"
    and "k \<le> n" and "n \<le> length all" and "length all < 2 ^ 64 - 1"
    and "list_all (\<lambda>u. \<not> is_boundary u \<and> mu_type u \<noteq> MU_CLEAR) all"
    and "recovering c (of_nat (k + 1)) (drop k all)"
    and "us = snapshot_body (abs_orders s) @ drop n all"
    and "queue_ok (incoming_market_update_queue c)"
    and "length (contents (incoming_market_update_queue c)) + length us < store_size (incoming_market_update_queue c)"
    and "\<forall>t \<ge> ME_MAX_TICKERS. held t = (\<lambda>_. None)"
  shows "\<exists>out s' c'. publishSnapShot s = Inr (out, s') \<and> res_fold (consumer_poll net True) out c = Inr c' \<and>
     \<not> packet_lost c' \<and> exp_seq_num c' = of_nat (length all + 1) \<and> socket_fd (in_snapshot c') = - 1 \<and>
     snapshot_queue_message c' = [] \<and> incremental_queue_message c' = [] \<and>
     contents (incoming_market_update_queue c') = contents (incoming_market_update_queue c) @ us \<and>
     fold obey_update us held = fold keep_update all (\<lambda>_ _. None)"
proof -
  let ?a = "of_nat (k + 1) :: u64" and ?incs = "drop k all" and ?n = "last_seq_num s"
  have a: "unat ?a = k + 1" using assms(6-8) by (intro of_nat_inverse[OF refl]) simp
  have "?n + 1 = of_nat (n + 1)" using assms(5) by simp
  moreover have "unat (of_nat (n + 1) :: u64) = n + 1" using assms(7,8) by (intro of_nat_inverse[OF refl]) simp
  ultimately have n: "unat (?n + 1) = n + 1" by (simp only:)
  have "unat ?a \<le> unat (?n + 1)" "unat (?n + 1) \<le> unat ?a + length ?incs" unfolding a n using assms(6,7) by simp_all
  from snapshot_levels[OF assms(1,2) _ assms(10) this, where net = net] assms(3) obtain out s' c' where run: "publishSnapShot s = Inr (out, s')"
      "res_fold (consumer_poll net True) out c = Inr c'" and
    lev: "level_again c (snapshot_body (abs_orders s) @ drop (unat (?n + 1) - unat ?a) ?incs) (?a + of_nat (length ?incs)) c'"
    by blast
  have "drop (unat (?n + 1) - unat ?a) ?incs = drop n all" unfolding a n using assms(6) by simp
  moreover have "?a + of_nat (length ?incs) = of_nat (length all + 1)"
    using assms(6,7) by (simp flip: of_nat_add)
  ultimately have lev: "level_again c us (of_nat (length all + 1)) c'" using lev by (simp only: assms(11))
  have plain: "list_all (\<lambda>u. mu_type u \<noteq> MU_CLEAR) (drop n all)" using assms(9) by (auto simp: list_all_iff dest: in_set_dropD)
  have "fold obey_update us held = fold keep_update (drop n all) (fold keep_update (take n all) (\<lambda>_ _. None))"
    using replay_body[OF assms(1,14)] obey_increments[OF plain] assms(4) by (simp add: assms(11))
  then have "fold obey_update us held = fold keep_update all (\<lambda>_ _. None)"
    by (metis append_take_drop_id fold_append comp_apply)
  then show ?thesis using run lev lfq.put_all[OF assms(12,13)] by (auto simp: level_again_def)
qed

section \<open>Falling behind\<close>

lemma check_without_snapshot: "snapshot_queue_message c = [] \<Longrightarrow> checkSnapshotSync c = c"
  by (simp add: checkSnapshotSync_def)

lemma queue_increments:
  assumes "recovering c a pre" and "unat a + length (pre @ us) < 2 ^ 64" and "list_all (\<lambda>u. \<not> is_boundary u) us"
  shows "\<exists>c'. res_fold (consume net False) (numbered_updates (a + of_nat (length pre)) us) c = Inr c' \<and> recovering c' a (pre @ us) \<and>
     incoming_market_update_queue c' = incoming_market_update_queue c"
  using assms
proof (induction us arbitrary: c pre)
  case (Cons u us)
  let ?c = "c\<lparr>incremental_queue_message := as_queue a (pre @ [u])\<rparr>"
  have "\<forall>x \<in> set (as_queue a pre). fst x < a + of_nat (length pre)"
    using Cons.prems(2) by (intro as_queue_keys_below) simp
  from queue_assign_last[OF this, of u]
  have "queueMessage False \<lparr>mdp_seq_num = a + of_nat (length pre), mdp_update = u\<rparr> c = ?c"
    using Cons.prems(1) by (simp add: queueMessage_def Let_def recovering_def as_queue_append check_without_snapshot)
  then have step: "consume net False \<lparr>mdp_seq_num = a + of_nat (length pre), mdp_update = u\<rparr> c = Inr ?c"
    using Cons.prems(1) consume_lost[of c net False] by (simp add: recovering_def)
  have "recovering ?c a (pre @ [u])" using Cons.prems by (simp add: recovering_def)
  then obtain c' where "res_fold (consume net False) (numbered_updates (a + of_nat (length (pre @ [u]))) us) ?c = Inr c'"
      "recovering c' a ((pre @ [u]) @ us)" "incoming_market_update_queue c' = incoming_market_update_queue ?c"
    using Cons.IH[of ?c "pre @ [u]"] Cons.prems by auto
  then show ?case using step by (simp add: algebra_simps)
qed simp

text \<open>C24: at the first update out of order the consumer hands nothing more to the trade engine: it
  opens the snapshot stream and queues that update and all that follow it, which is the state
  recovery starts from.\<close>

theorem gap_starts_recovery:
  assumes "\<not> packet_lost c" and "a \<noteq> exp_seq_num c" and "fst net \<ge> 0" and "snd net" and "inbound (in_snapshot c) = []"
    and "unat a + length us < 2 ^ 64" and "us \<noteq> []" and "list_all (\<lambda>u. \<not> is_boundary u) us"
  shows "\<exists>c'. res_fold (consume net False) (numbered_updates a us) c = Inr c' \<and> recovering c' a us \<and>
     incoming_market_update_queue c' = incoming_market_update_queue c"
proof -
  obtain u vs where us: "us = u # vs" using assms(7) by (cases us) auto
  define c1 where "c1 = c\<lparr>packet_lost := True, snapshot_queue_message := [], incremental_queue_message := [(a, u)],
      in_snapshot := mcast_init (fst net) (in_snapshot c)\<rparr>"
  have "consume net False \<lparr>mdp_seq_num = a, mdp_update = u\<rparr> c = Inr c1"
    using assms(1-4) by (simp add: consume_def startSnapshotSync_def queueMessage_def check_without_snapshot c1_def Let_def)
  moreover have "recovering c1 a [u]"
    using assms(5,6,8) by (simp add: recovering_def c1_def us mcast_init_def)
  then obtain c' where "res_fold (consume net False) (numbered_updates (a + of_nat (length [u])) vs) c1 = Inr c'"
      "recovering c' a ([u] @ vs)" "incoming_market_update_queue c' = incoming_market_update_queue c1"
    using queue_increments[of c1 a "[u]" vs net] assms(6,8) us by auto
  ultimately show ?thesis by (simp add: us c1_def)
qed

text \<open>A snapshot with a message missing is not used: the message after the hole makes the consumer
  forget what it has collected, and it stays in recovery.\<close>

theorem incomplete_snapshot_discarded:
  assumes "packet_lost c" and "snapshot_queue_message c = as_queue 0 (u # us)" and "mu_type u = SNAPSHOT_START"
    and "length us + 1 < j" and "j < 2 ^ 64"
  shows "consume net True \<lparr>mdp_seq_num = of_nat j, mdp_update = v\<rparr> c = Inr (c\<lparr>snapshot_queue_message := []\<rparr>)"
proof -
  have "\<forall>x \<in> set (as_queue 0 (u # us)). fst x < of_nat (length (u # us))"
    using as_queue_keys_below[of 0 "u # us"] assms(4,5) by simp
  moreover have jump: "(of_nat (length (u # us)) :: u64) < of_nat j"
    using assms(4,5) by (simp add: word_less_nat_alt unat_of_nat del: of_nat_Suc)
  ultimately have below: "\<forall>x \<in> set (as_queue 0 (u # us)). fst x < of_nat j" by (meson order.strict_trans)
  then have fresh: "of_nat j \<notin> fst ` set (as_queue 0 (u # us))" by fastforce
  have no: "join_snapshot n (as_queue n xs @ [(k, v)]) = None" if "k \<noteq> n + of_nat (length xs)" for n k xs
    using that by (induction xs arbitrary: n) (auto simp: algebra_simps)
  have "join_snapshot 0 (as_queue 0 (u # us) @ [(of_nat j, v)]) = None"
    using jump by (intro no) auto
  then have "checkSnapshotSync (c\<lparr>snapshot_queue_message := as_queue 0 (u # us) @ [(of_nat j, v)]\<rparr>) = c\<lparr>snapshot_queue_message := []\<rparr>"
    using assms(3) by (simp add: checkSnapshotSync_def)
  then show ?thesis
    using queue_assign_last[OF below, of v] fresh assms(2) by (simp add: consume_lost[OF assms(1)] queueMessage_def Let_def)
qed

section \<open>Examples\<close>

definition sample_consumer :: MarketDataConsumer where
  "sample_consumer = new_MarketDataConsumer (newQueue default_update 8) 5"

definition lost_consumer :: MarketDataConsumer where
  "lost_consumer = sample_consumer\<lparr>packet_lost := True\<rparr>"

text \<open>A consumer that missed the first update, with room for a snapshot, and a reader that holds an
  order which is no longer live.\<close>

definition late_consumer :: MarketDataConsumer where
  "late_consumer = (new_MarketDataConsumer (newQueue default_update 64) 5)\<lparr>packet_lost := True,
     incremental_queue_message := as_queue 2 [sample_update 8, sample_update 9]\<rparr>"

lemma body_bound:
  assumes "\<And>t. length (ticker_orders m t) \<le> 1"
  shows "length (snapshot_body m) \<le> 2 * ME_MAX_TICKERS"
proof -
  have "length (concat (map (\<lambda>t. clear_message t # ticker_orders m t) ts)) \<le> 2 * length ts" for ts
  proof (induction ts)
    case (Cons t ts)
    then show ?case using assms[of t] by simp
  qed simp
  from this[of "[0..<ME_MAX_TICKERS]"] show ?thesis by (simp add: snapshot_body_def)
qed

lemma one_order_body: "length (snapshot_body ((\<lambda>_ _. None)(3 := [i \<mapsto> u]))) \<le> 2 * ME_MAX_TICKERS"
proof -
  let ?m = "(\<lambda>_ _. None)(3 := [i \<mapsto> u]) :: live_orders"
  have count: "length (List.map_filter f xs) = length (filter (\<lambda>x. f x \<noteq> None) xs)" for f :: "nat \<Rightarrow> MEMarketUpdate option" and xs
    by (induction xs) (auto simp: map_filter_simps split: option.split)
  have one: "length (ticker_orders ?m t) \<le> 1" for t
  proof -
    have "{x. ?m t x \<noteq> None} \<inter> set [0..<ME_MAX_ORDER_IDS] \<subseteq> {i}" by (auto split: if_splits)
    then have "card ({x. ?m t x \<noteq> None} \<inter> set [0..<ME_MAX_ORDER_IDS]) \<le> card {i}" by (intro card_mono) simp_all
    then show ?thesis unfolding ticker_orders_def count by (simp add: distinct_length_filter)
  qed
  show ?thesis using body_bound[of ?m, OF one] .
qed

theorem snapshot_recovers_client_witness:
  "\<exists>s out s' c' us. abs_orders s = (\<lambda>_ _. None)(3 := [4 \<mapsto> sample_update 4]) \<and> publishSnapShot s = Inr (out, s') \<and>
     res_fold (consumer_poll (6, True) True) out late_consumer = Inr c' \<and> \<not> packet_lost c' \<and> exp_seq_num c' = 4 \<and>
     contents (incoming_market_update_queue c') = us \<and>
     fold obey_update us ((\<lambda>_ _. None)(3 := [7 \<mapsto> sample_update 7])) =
       fold keep_update [sample_update 4, sample_update 8, sample_update 9] (\<lambda>_ _. None)"
proof -
  obtain s where s: "syn_ok s" "last_seq_num s = 1" "outbound (snapshot_socket s) = []"
      "abs_orders s = (\<lambda>_ _. None)(3 := [4 \<mapsto> sample_update 4])"
    using sample_live by blast
  let ?all = "[sample_update 4, sample_update 8, sample_update 9]" and ?q = "newQueue default_update 64"
  let ?us = "snapshot_body (abs_orders s) @ drop 1 ?all"
  have wf: "\<forall>t i u. abs_orders s t i = Some u \<longrightarrow> update_wf u"
    unfolding s(4) by (auto split: if_splits)
  have first: "abs_orders s = fold keep_update (take 1 ?all) (\<lambda>_ _. None)"
    unfolding s(4) by (simp add: keep_update_def sample_update_def Let_def)
  have plain: "list_all (\<lambda>u. \<not> is_boundary u \<and> mu_type u \<noteq> MU_CLEAR) ?all" by (simp add: is_boundary_def sample_update_def)
  have rec: "recovering late_consumer (of_nat (1 + 1)) (drop 1 ?all)"
    by (simp add: recovering_def late_consumer_def new_MarketDataConsumer_def new_McastSocket_def is_boundary_def sample_update_def)
  have q: "incoming_market_update_queue late_consumer = ?q" by (simp add: late_consumer_def new_MarketDataConsumer_def)
  have room: "queue_ok ?q" "contents ?q = []" "store_size ?q = 64" by (simp_all add: newQueue_ok)
  have "length ?us < 64" using one_order_body[of 4 "sample_update 4"] unfolding s(4) by (simp add: size_defs)
  then have "length (contents (incoming_market_update_queue late_consumer)) + length ?us < store_size (incoming_market_update_queue late_consumer)"
    unfolding q room by simp
  moreover have "\<forall>t \<ge> ME_MAX_TICKERS. ((\<lambda>_ _. None)(3 := [7 \<mapsto> sample_update 7]) :: live_orders) t = (\<lambda>_. None)"
    by (simp add: size_defs)
  moreover have "(1::nat) \<le> 1" "1 \<le> length ?all" "length ?all < 2 ^ 64 - 1" "last_seq_num s = of_nat 1" using s(2) by simp_all
  moreover have "queue_ok (incoming_market_update_queue late_consumer)" unfolding q by (rule room(1))
  ultimately obtain out s' c' where "publishSnapShot s = Inr (out, s')" "res_fold (consumer_poll (6, True) True) out late_consumer = Inr c'"
      "\<not> packet_lost c'" "exp_seq_num c' = of_nat (length ?all + 1)"
      "contents (incoming_market_update_queue c') = contents (incoming_market_update_queue late_consumer) @ ?us"
      "fold obey_update ?us ((\<lambda>_ _. None)(3 := [7 \<mapsto> sample_update 7])) = fold keep_update ?all (\<lambda>_ _. None)"
    using snapshot_recovers_client[OF s(1,3) wf first _ _ _ _ plain rec refl, where held = "(\<lambda>_ _. None)(3 := [7 \<mapsto> sample_update 7])" and net = "(6, True)"]
    by blast
  then show ?thesis using s(4) unfolding q room(2)
    by (intro exI[of _ s] exI[of _ out] exI[of _ s'] exI[of _ c'] exI[of _ ?us]) simp
qed

theorem gap_starts_recovery_witness:
  "\<exists>c'. res_fold (consume (6, True) False) (numbered_updates 3 [sample_update 4]) sample_consumer = Inr c' \<and>
     recovering c' 3 [sample_update 4] \<and> incoming_market_update_queue c' = incoming_market_update_queue sample_consumer"
  by (rule gap_starts_recovery)
    (simp_all add: sample_consumer_def new_MarketDataConsumer_def new_McastSocket_def is_boundary_def sample_update_def)

theorem incomplete_snapshot_discarded_witness:
  "consume (6, True) True \<lparr>mdp_seq_num = of_nat 5, mdp_update = sample_update 4\<rparr>
      (lost_consumer\<lparr>snapshot_queue_message := as_queue 0 [boundary_message SNAPSHOT_START 9]\<rparr>) =
     Inr (lost_consumer\<lparr>snapshot_queue_message := as_queue 0 [boundary_message SNAPSHOT_START 9], snapshot_queue_message := []\<rparr>)"
  by (rule incomplete_snapshot_discarded[where u = "boundary_message SNAPSHOT_START 9" and us = "[]"])
    (simp_all add: lost_consumer_def sample_consumer_def new_MarketDataConsumer_def boundary_message_def)

end
