(* ===== verification/MarketOrderBook.thy ===== *)
theory MarketOrderBook
  imports BookOps Messages
begin

text \<open>
  The client's book of one ticker, \<^verbatim>\<open>include/client/market_order_book.hpp\<close>,
  \<^verbatim>\<open>include/client/market_order.hpp\<close> and
  \<^verbatim>\<open>src/client/market_order_book.cpp\<close>: the pointer structure of \<open>BookCore\<close>, the
  array from market order identifiers to orders, and the best bid and offer. The handler
  \<open>onMarketUpdate\<close> ends by calling the trade engine; the call it makes is part of its result.
  Measuring and logging are left out.
\<close>

section \<open>State\<close>

type_synonym MarketOrder = order

record BBO =
  bid_price :: Price
  ask_price :: Price
  bid_qty :: Qty
  ask_qty :: Qty

definition new_BBO :: BBO where
  "new_BBO = \<lparr>bid_price = Price_INVALID, ask_price = Price_INVALID,
     bid_qty = Qty_INVALID, ask_qty = Qty_INVALID\<rparr>"

definition BBO_toString :: "BBO \<Rightarrow> string" where
  "BBO_toString x =
     ''Best Bid Offer: '' @ qtyToString (bid_qty x) @ ''@'' @ priceToString (bid_price x) @
     '' AND '' @ qtyToString (ask_qty x) @ ''@'' @ priceToString (ask_price x)"

record MarketOrderBook =
  book_ticker :: TickerId
  oid_to_order :: "nat \<Rightarrow> ptr"
  mcore :: "unit book"
  bbo :: BBO

definition default_MarketOrder :: MarketOrder where
  "default_MarketOrder = \<lparr>ord_id = OrderId_INVALID, ord_side = SIDE_INVALID, ord_price = Price_INVALID,
     ord_qty = Qty_INVALID, ord_priority = Priority_INVALID, ord_next = None, ord_prev = None\<rparr>"

definition default_MarketOrdersAtPrice :: OrdersAtPrice where
  "default_MarketOrdersAtPrice = \<lparr>lvl_side = SIDE_INVALID, lvl_price = Price_INVALID, lvl_head = None,
     lvl_next = None, lvl_prev = None\<rparr>"

definition MarketOrder_toString :: "MarketOrder \<Rightarrow> string" where
  "MarketOrder_toString r =
     ''MEOrder'' @ '' ['' @ '' orderId:'' @ orderIdToString (ord_id r) @
     '' side:'' @ sideToString (ord_side r) @ '' price:'' @ priceToString (ord_price r) @
     '' qty:'' @ qtyToString (ord_qty r) @ '' priority:'' @ priorityToString (ord_priority r) @ '']''"

text \<open>The two arrays have no initializer and the constructor does not name them: what they hold
  at first is what the memory held, the arguments \<open>orders0\<close> and \<open>levels0\<close>.\<close>

definition new_MarketOrderBook :: "(nat \<Rightarrow> ptr) \<Rightarrow> (nat \<Rightarrow> ptr) \<Rightarrow> TickerId \<Rightarrow> MarketOrderBook" where
  "new_MarketOrderBook orders0 levels0 t =
    \<lparr>book_ticker = t, oid_to_order = orders0,
     mcore = \<lparr>orders_pool = newMemPool default_MarketOrder ME_MAX_ORDER_IDS,
             levels_pool = newMemPool default_MarketOrdersAtPrice ME_MAX_PRICE_LEVELS,
             bids_by_price = None, asks_by_price = None, price_to_level = levels0\<rparr>,
     bbo = new_BBO\<rparr>"

section \<open>Adding\<close>

text \<open>\<^verbatim>\<open>AddOrderAtPrice\<close> is statement by statement the function of the same name of the
  exchange's book, \<open>BookCore.AddOrderAtPrice\<close>, on this book's fields.\<close>

definition client_AddOrderAtPrice :: "nat \<Rightarrow> MarketOrderBook \<Rightarrow> MarketOrderBook res" where
  "client_AddOrderAtPrice lvl b =
    res_bind (AddOrderAtPrice lvl (mcore b)) (\<lambda>c. Inr (b\<lparr>mcore := c\<rparr>))"

definition getOrdersAtPrice :: "MarketOrderBook \<Rightarrow> Price \<Rightarrow> ptr" where
  "getOrdersAtPrice b p = getOrderAtPrice (mcore b) p"

definition AddOrder :: "nat \<Rightarrow> MarketOrderBook \<Rightarrow> MarketOrderBook res" where
  "AddOrder ord b =
    res_bind (load (orders_pool (mcore b)) (Some ord)) (\<lambda>Od.
    res_bind
      (case getOrdersAtPrice b (ord_price Od) of
        None \<Rightarrow>
          res_bind (update_at (Some ord) (\<lambda>x. x\<lparr>ord_next := Some ord, ord_prev := Some ord\<rparr>)
                      (orders_pool (mcore b))) (\<lambda>Q.
          res_bind (allocate \<lparr>lvl_side = ord_side Od, lvl_price = ord_price Od, lvl_head = Some ord,
                      lvl_next = None, lvl_prev = None\<rparr> (levels_pool (mcore b))) (\<lambda>(l, P).
          client_AddOrderAtPrice l (b\<lparr>mcore := (mcore b)\<lparr>orders_pool := Q, levels_pool := P\<rparr>\<rparr>)))
      | Some l \<Rightarrow>
          res_bind (load (levels_pool (mcore b)) (Some l)) (\<lambda>L.
          let levelHead = lvl_head L; Q = orders_pool (mcore b) in
          res_bind (load Q levelHead) (\<lambda>H.
          res_bind (update_at (ord_prev H) (\<lambda>x. x\<lparr>ord_next := Some ord\<rparr>) Q) (\<lambda>Q.
          res_bind (update_at (Some ord) (\<lambda>x. x\<lparr>ord_next := levelHead\<rparr>) Q) (\<lambda>Q.
          res_bind (load Q levelHead) (\<lambda>H.
          res_bind (update_at (Some ord) (\<lambda>x. x\<lparr>ord_prev := ord_prev H\<rparr>) Q) (\<lambda>Q.
          res_bind (update_at levelHead (\<lambda>x. x\<lparr>ord_prev := Some ord\<rparr>) Q) (\<lambda>Q.
          Inr (b\<lparr>mcore := (mcore b)\<lparr>orders_pool := Q\<rparr>\<rparr>)))))))))
    (\<lambda>b.
    res_bind (load (orders_pool (mcore b)) (Some ord)) (\<lambda>Od.
    res_bind (ensure (unat (ord_id Od) < ME_MAX_ORDER_IDS) OutOfRange) (\<lambda>_.
    Inr (b\<lparr>oid_to_order := (oid_to_order b)(unat (ord_id Od) := Some ord)\<rparr>)))))"

section \<open>Removing\<close>

text \<open>\<^verbatim>\<open>removeOrderAtPrice\<close>, again the exchange's function on this book's fields.\<close>

definition client_removeOrderAtPrice :: "ptr \<Rightarrow> MarketOrderBook \<Rightarrow> MarketOrderBook res" where
  "client_removeOrderAtPrice lvl b =
    res_bind (removeOrderAtPrice lvl (mcore b)) (\<lambda>c. Inr (b\<lparr>mcore := c\<rparr>))"

definition client_removeOrder :: "nat \<Rightarrow> MarketOrderBook \<Rightarrow> MarketOrderBook res" where
  "client_removeOrder ord b =
    res_bind (load (orders_pool (mcore b)) (Some ord)) (\<lambda>Od.
    let orderLevel = getOrdersAtPrice b (ord_price Od) in
    res_bind
      (if ord_next Od = Some ord \<and> ord_prev Od = Some ord then client_removeOrderAtPrice orderLevel b
       else
         res_bind (update_at (ord_prev Od) (\<lambda>x. x\<lparr>ord_next := ord_next Od\<rparr>) (orders_pool (mcore b))) (\<lambda>Q.
         res_bind (load Q (Some ord)) (\<lambda>Od'.
         res_bind (update_at (ord_next Od') (\<lambda>x. x\<lparr>ord_prev := ord_prev Od'\<rparr>) Q) (\<lambda>Q.
         res_bind (load Q (Some ord)) (\<lambda>Od'.
         res_bind (load (levels_pool (mcore b)) orderLevel) (\<lambda>L.
         res_bind (if Some ord = lvl_head L
                   then update_at orderLevel (\<lambda>x. x\<lparr>lvl_head := ord_next Od'\<rparr>) (levels_pool (mcore b))
                   else Inr (levels_pool (mcore b))) (\<lambda>P.
         res_bind (update_at (Some ord) (\<lambda>x. x\<lparr>ord_next := None, ord_prev := None\<rparr>) Q) (\<lambda>Q.
         Inr (b\<lparr>mcore := (mcore b)\<lparr>orders_pool := Q, levels_pool := P\<rparr>\<rparr>)))))))))
    (\<lambda>b.
    res_bind (load (orders_pool (mcore b)) (Some ord)) (\<lambda>Od.
    res_bind (ensure (unat (ord_id Od) < ME_MAX_ORDER_IDS) WildAccess) (\<lambda>_.
    res_bind (deallocate ord (orders_pool (mcore b))) (\<lambda>Q.
    Inr (b\<lparr>mcore := (mcore b)\<lparr>orders_pool := Q\<rparr>,
           oid_to_order := (oid_to_order b)(unat (ord_id Od) := None)\<rparr>))))))"

section \<open>Clearing\<close>

text \<open>\<^verbatim>\<open>deallocate\<close> of a pointer: the null pointer has no cell, and the index computed
  from it fails the assertion.\<close>

definition deallocate_ptr :: "ptr \<Rightarrow> 'a MemPool \<Rightarrow> 'a MemPool res" where
  "deallocate_ptr x p = (case x of None \<Rightarrow> Inl AssertFailed | Some i \<Rightarrow> deallocate i p)"

definition clear_orders :: "(nat \<Rightarrow> ptr) \<Rightarrow> 'x MemPool \<Rightarrow> 'x MemPool res" where
  "clear_orders m =
    res_fold (\<lambda>k Q. case m k of None \<Rightarrow> Inr Q | Some i \<Rightarrow> deallocate i Q) [0..<ME_MAX_ORDER_IDS]"

text \<open>The loop over the levels behind the head, which reads the head's \<^verbatim>\<open>next_\<close> anew each
  time.\<close>

primrec clear_behind :: "nat \<Rightarrow> nat \<Rightarrow> OrdersAtPrice MemPool \<Rightarrow> OrdersAtPrice MemPool res" where
  "clear_behind 0 h P = Inl Diverged"
| "clear_behind (Suc n) h P =
    res_bind (load P (Some h)) (\<lambda>H.
    if lvl_next H = Some h then Inr P
    else res_bind (deallocate_ptr (lvl_next H) P) (clear_behind n h))"

definition clear_side :: "ptr \<Rightarrow> OrdersAtPrice MemPool \<Rightarrow> OrdersAtPrice MemPool res" where
  "clear_side head P =
    (case head of None \<Rightarrow> Inr P
     | Some h \<Rightarrow> res_bind (clear_behind (num_cells P + 1) h P) (deallocate h))"

definition clear_book :: "MarketOrderBook \<Rightarrow> MarketOrderBook res" where
  "clear_book b =
    res_bind (clear_orders (oid_to_order b) (orders_pool (mcore b))) (\<lambda>Q.
    let b = b\<lparr>mcore := (mcore b)\<lparr>orders_pool := Q\<rparr>, oid_to_order := (\<lambda>_. None)\<rparr> in
    res_bind (clear_side (bids_by_price (mcore b)) (levels_pool (mcore b))) (\<lambda>P.
    res_bind (clear_side (asks_by_price (mcore b)) P) (\<lambda>P.
    Inr (b\<lparr>mcore := (mcore b)\<lparr>levels_pool := P\<rparr>\<rparr>))))"

section \<open>Best bid and offer\<close>

text \<open>The sum over the orders of a level behind the first, bounded by a number of iterations
  beyond the number of cells.\<close>

primrec add_quantities :: "nat \<Rightarrow> 'x order_scheme MemPool \<Rightarrow> ptr \<Rightarrow> ptr \<Rightarrow> Qty \<Rightarrow> Qty res" where
  "add_quantities 0 Q first cur acc = Inl Diverged"
| "add_quantities (Suc n) Q first cur acc =
    (if cur \<noteq> first then
       res_bind (load Q cur) (\<lambda>Od. add_quantities n Q first (ord_next Od) (acc + ord_qty Od))
     else Inr acc)"

lemma add_quantities_numeral [simp]:
  "add_quantities (numeral k) Q first cur acc =
    (if cur \<noteq> first then
       res_bind (load Q cur) (\<lambda>Od. add_quantities (pred_numeral k) Q first (ord_next Od) (acc + ord_qty Od))
     else Inr acc)"
  by (simp add: numeral_eq_Suc)

text \<open>Price and quantity of the best level of a side.\<close>

definition best_level :: "ptr \<Rightarrow> 'x book \<Rightarrow> (Price \<times> Qty) res" where
  "best_level head c =
    (case head of None \<Rightarrow> Inr (Price_INVALID, Qty_INVALID)
     | Some h \<Rightarrow>
         res_bind (load (levels_pool c) (Some h)) (\<lambda>L.
         res_bind (load (orders_pool c) (lvl_head L)) (\<lambda>F.
         res_bind (add_quantities (num_cells (orders_pool c) + 1) (orders_pool c) (lvl_head L)
                     (ord_next F) (ord_qty F)) (\<lambda>q.
         Inr (lvl_price L, q)))))"

definition updateBBO :: "bool \<Rightarrow> bool \<Rightarrow> MarketOrderBook \<Rightarrow> MarketOrderBook res" where
  "updateBBO update_bid update_ask b =
    res_bind
      (if update_bid then
         res_bind (best_level (bids_by_price (mcore b)) (mcore b)) (\<lambda>(p, q).
         Inr (b\<lparr>bbo := (bbo b)\<lparr>bid_price := p, bid_qty := q\<rparr>\<rparr>))
       else Inr b) (\<lambda>b.
    if update_ask then
      res_bind (best_level (asks_by_price (mcore b)) (mcore b)) (\<lambda>(p, q).
      Inr (b\<lparr>bbo := (bbo b)\<lparr>ask_price := p, ask_qty := q\<rparr>\<rparr>))
    else Inr b)"

section \<open>Market updates\<close>

text \<open>The call that \<^verbatim>\<open>onMarketUpdate\<close> ends with.\<close>

datatype engine_call = OnTradeUpdate MEMarketUpdate | OnOrderBookUpdate TickerId Price Side

definition touches_best :: "Side \<Rightarrow> MEMarketUpdate \<Rightarrow> 'x book \<Rightarrow> bool res" where
  "touches_best s u c =
    (if head_of s c \<noteq> None \<and> mu_side u = s then
       res_bind (load (levels_pool c) (head_of s c)) (\<lambda>L.
       Inr (if s = BUY then mu_price u \<ge> lvl_price L else mu_price u \<le> lvl_price L))
     else Inr False)"

definition handle_add :: "MEMarketUpdate \<Rightarrow> MarketOrderBook \<Rightarrow> MarketOrderBook res" where
  "handle_add u b =
    res_bind (allocate \<lparr>ord_id = mu_order_id u, ord_side = mu_side u, ord_price = mu_price u,
                ord_qty = mu_qty u, ord_priority = mu_priority u, ord_next = None, ord_prev = None\<rparr>
                (orders_pool (mcore b))) (\<lambda>(ord, Q).
    AddOrder ord (b\<lparr>mcore := (mcore b)\<lparr>orders_pool := Q\<rparr>\<rparr>))"

text \<open>\<^verbatim>\<open>oid_to_order_[...]\<close>, not checked.\<close>

definition order_of :: "OrderId \<Rightarrow> MarketOrderBook \<Rightarrow> ptr res" where
  "order_of i b = res_bind (ensure (unat i < ME_MAX_ORDER_IDS) WildAccess) (\<lambda>_.
     Inr (oid_to_order b (unat i)))"

definition handle_modify :: "MEMarketUpdate \<Rightarrow> MarketOrderBook \<Rightarrow> MarketOrderBook res" where
  "handle_modify u b =
    res_bind (order_of (mu_order_id u) b) (\<lambda>ord.
    if ord = None then Inr b
    else res_bind (update_at ord (\<lambda>x. x\<lparr>ord_qty := mu_qty u\<rparr>) (orders_pool (mcore b))) (\<lambda>Q.
      Inr (b\<lparr>mcore := (mcore b)\<lparr>orders_pool := Q\<rparr>\<rparr>)))"

definition handle_cancel :: "MEMarketUpdate \<Rightarrow> MarketOrderBook \<Rightarrow> MarketOrderBook res" where
  "handle_cancel u b =
    res_bind (order_of (mu_order_id u) b) (\<lambda>ord.
    case ord of None \<Rightarrow> Inr b | Some i \<Rightarrow> client_removeOrder i b)"

text \<open>The switch over the types that change the orders.\<close>

definition change_book :: "MEMarketUpdate \<Rightarrow> MarketOrderBook \<Rightarrow> MarketOrderBook res" where
  "change_book u b = (case mu_type u of
       MU_ADD \<Rightarrow> handle_add u b
     | MU_MODIFY \<Rightarrow> handle_modify u b
     | MU_CANCEL \<Rightarrow> handle_cancel u b
     | MU_CLEAR \<Rightarrow> clear_book b
     | _ \<Rightarrow> Inr b)"

definition onMarketUpdate :: "MEMarketUpdate \<Rightarrow> MarketOrderBook \<Rightarrow> (engine_call \<times> MarketOrderBook) res" where
  "onMarketUpdate u b =
    res_bind (touches_best BUY u (mcore b)) (\<lambda>bid_updated.
    res_bind (touches_best SELL u (mcore b)) (\<lambda>ask_updated.
    if mu_type u = MU_TRADE then Inr (OnTradeUpdate u, b)
    else
      res_bind (change_book u b) (\<lambda>b.
      res_bind (updateBBO bid_updated ask_updated b) (\<lambda>b.
      Inr (OnOrderBookUpdate (mu_ticker_id u) (mu_price u) (mu_side u), b)))))"

section \<open>The shared pointer operations\<close>

lemma AddOrder_link:
  "AddOrder ord b =
    res_bind (link_order ord (mcore b)) (\<lambda>c.
    res_bind (load (orders_pool c) (Some ord)) (\<lambda>Od.
    res_bind (ensure (unat (ord_id Od) < ME_MAX_ORDER_IDS) OutOfRange) (\<lambda>_.
    Inr (b\<lparr>mcore := c, oid_to_order := (oid_to_order b)(unat (ord_id Od) := Some ord)\<rparr>))))"
proof (cases "load (orders_pool (mcore b)) (Some ord)")
  case (Inr Od)
  then show ?thesis
    by (cases "getOrderAtPrice (mcore b) (ord_price Od)")
      (simp_all add: AddOrder_def link_order_def getOrdersAtPrice_def client_AddOrderAtPrice_def Let_def
        res_bind_assoc split_def cong del: res_bind_cong)
qed (simp add: AddOrder_def link_order_def)

lemma client_removeOrder_unlink:
  "client_removeOrder ord b =
    res_bind (unlink_order ord (mcore b)) (\<lambda>c.
    res_bind (load (orders_pool c) (Some ord)) (\<lambda>Od.
    res_bind (ensure (unat (ord_id Od) < ME_MAX_ORDER_IDS) WildAccess) (\<lambda>_.
    res_bind (deallocate ord (orders_pool c)) (\<lambda>Q.
    Inr (b\<lparr>mcore := c\<lparr>orders_pool := Q\<rparr>,
           oid_to_order := (oid_to_order b)(unat (ord_id Od) := None)\<rparr>)))))"
proof (cases "load (orders_pool (mcore b)) (Some ord)")
  case (Inr Od)
  then show ?thesis
    by (cases "ord_next Od = Some ord"; cases "ord_prev Od = Some ord")
      (simp_all add: client_removeOrder_def unlink_order_def getOrdersAtPrice_def client_removeOrderAtPrice_def
        Let_def res_bind_assoc cong del: res_bind_cong)
qed (simp add: client_removeOrder_def unlink_order_def)

end
