(* ===== verification/MarketBookRep.thy ===== *)
theory MarketBookRep
  imports MarketOrderBook
begin

text \<open>
  The client's order book implements two lists of orders and a best bid and offer: \<open>client_view\<close>
  is what a book shows, \<open>spec_update\<close> what an update should do to it, and \<open>client_ok\<close> the
  representation invariant. The update CLEAR is treated in the next theory.
\<close>

section \<open>The abstract book\<close>

record client_view =
  cv_orders :: "Side \<Rightarrow> MarketOrder list"
  cv_bbo :: BBO

definition view :: "MarketOrderBook \<Rightarrow> client_view" where
  "view b = \<lparr>cv_orders = (\<lambda>s. resting s (mcore b)), cv_bbo = bbo b\<rparr>"

definition new_order :: "MEMarketUpdate \<Rightarrow> MarketOrder" where
  "new_order u = \<lparr>ord_id = mu_order_id u, ord_side = mu_side u, ord_price = mu_price u,
     ord_qty = mu_qty u, ord_priority = mu_priority u, ord_next = None, ord_prev = None\<rparr>"

definition spec_orders :: "MEMarketUpdate \<Rightarrow> (Side \<Rightarrow> MarketOrder list) \<Rightarrow> Side \<Rightarrow> MarketOrder list" where
  "spec_orders u os = (case mu_type u of
       MU_ADD \<Rightarrow> os(mu_side u := insert_order (mu_side u) (new_order u) (os (mu_side u)))
     | MU_MODIFY \<Rightarrow> (\<lambda>s. map (\<lambda>x. if ord_id x = mu_order_id u then x\<lparr>ord_qty := mu_qty u\<rparr> else x) (os s))
     | MU_CANCEL \<Rightarrow> (\<lambda>s. filter (\<lambda>x. ord_id x \<noteq> mu_order_id u) (os s))
     | _ \<Rightarrow> os)"

text \<open>The best price of a side with the quantity that rests at it.\<close>

definition best :: "MarketOrder list \<Rightarrow> Price \<times> Qty" where
  "best rs = (case rs of [] \<Rightarrow> (Price_INVALID, Qty_INVALID)
     | r # _ \<Rightarrow> (ord_price r, \<Sum>x\<leftarrow>filter (\<lambda>x. ord_price x = ord_price r) rs. ord_qty x))"

text \<open>An update is at the best price of its side when it is not worse than it.\<close>

definition at_best :: "Side \<Rightarrow> MEMarketUpdate \<Rightarrow> MarketOrder list \<Rightarrow> bool" where
  "at_best s u rs \<longleftrightarrow> rs \<noteq> [] \<and> mu_side u = s \<and> \<not> better s (ord_price (hd rs)) (mu_price u)"

definition spec_bbo :: "bool \<Rightarrow> bool \<Rightarrow> (Side \<Rightarrow> MarketOrder list) \<Rightarrow> BBO \<Rightarrow> BBO" where
  "spec_bbo bid ask os x =
    (let x = (if bid then x\<lparr>bid_price := fst (best (os BUY)), bid_qty := snd (best (os BUY))\<rparr> else x) in
     if ask then x\<lparr>ask_price := fst (best (os SELL)), ask_qty := snd (best (os SELL))\<rparr> else x)"

definition spec_update :: "MEMarketUpdate \<Rightarrow> client_view \<Rightarrow> client_view" where
  "spec_update u v =
    (if mu_type u = MU_TRADE then v
     else let os = spec_orders u (cv_orders v) in
       \<lparr>cv_orders = os,
        cv_bbo = spec_bbo (at_best BUY u (cv_orders v BUY)) (at_best SELL u (cv_orders v SELL)) os (cv_bbo v)\<rparr>)"

definition spec_call :: "MEMarketUpdate \<Rightarrow> engine_call" where
  "spec_call u = (if mu_type u = MU_TRADE then OnTradeUpdate u
     else OnOrderBookUpdate (mu_ticker_id u) (mu_price u) (mu_side u))"

text \<open>What the book needs of an update: identifiers within the array; for a new order also a side,
  an identifier not in use, a price whose index no other price uses, and room.\<close>

definition expected :: "MEMarketUpdate \<Rightarrow> client_view \<Rightarrow> bool" where
  "expected u v = (case mu_type u of
       MU_ADD \<Rightarrow> (mu_side u = BUY \<or> mu_side u = SELL) \<and> unat (mu_order_id u) < ME_MAX_ORDER_IDS \<and>
         list_all (\<lambda>x. ord_id x \<noteq> mu_order_id u \<and>
           (priceToIndex (ord_price x) = priceToIndex (mu_price u) \<longrightarrow>
              ord_price x = mu_price u \<and> ord_side x = mu_side u))
           (cv_orders v BUY @ cv_orders v SELL) \<and>
         length (cv_orders v BUY) + length (cv_orders v SELL) + 2 \<le> ME_MAX_ORDER_IDS \<and>
         level_count (cv_orders v BUY) + level_count (cv_orders v SELL) + 2 \<le> ME_MAX_PRICE_LEVELS
     | MU_MODIFY \<Rightarrow> unat (mu_order_id u) < ME_MAX_ORDER_IDS
     | MU_CANCEL \<Rightarrow> unat (mu_order_id u) < ME_MAX_ORDER_IDS
     | MU_CLEAR \<Rightarrow> False
     | _ \<Rightarrow> True)"

section \<open>Invariant\<close>

definition oid_rep :: "(nat \<Rightarrow> ptr) \<Rightarrow> (nat \<Rightarrow> MarketOrder) \<Rightarrow> nat set \<Rightarrow> bool" where
  "oid_rep m f I \<longleftrightarrow> (\<forall>k i. m k = Some i \<longleftrightarrow> i \<in> I \<and> unat (ord_id (f i)) = k) \<and>
     (\<forall>i \<in> I. unat (ord_id (f i)) < ME_MAX_ORDER_IDS)"

definition client_rep :: "MarketOrderBook \<Rightarrow> shape \<Rightarrow> bool" where
  "client_rep b sh \<longleftrightarrow> book_rep (mcore b) sh \<and>
     oid_rep (oid_to_order b) (ob (mcore b)) (set (all_orders sh)) \<and>
     num_cells (orders_pool (mcore b)) = ME_MAX_ORDER_IDS \<and>
     num_cells (levels_pool (mcore b)) = ME_MAX_PRICE_LEVELS"

definition client_ok :: "MarketOrderBook \<Rightarrow> bool" where
  "client_ok b \<longleftrightarrow> (\<exists>sh. client_rep b sh)"

lemma client_repD:
  assumes "client_rep b sh"
  shows "book_rep (mcore b) sh" and "links_rep (mcore b) sh"
    and "oid_rep (oid_to_order b) (ob (mcore b)) (set (all_orders sh))"
    and "num_cells (orders_pool (mcore b)) = ME_MAX_ORDER_IDS"
    and "num_cells (levels_pool (mcore b)) = ME_MAX_PRICE_LEVELS"
  using assms by (simp_all add: client_rep_def book_rep_def)

lemma oid_repD: "oid_rep m f I \<Longrightarrow> m k = Some i \<longleftrightarrow> i \<in> I \<and> unat (ord_id (f i)) = k"
  by (simp add: oid_rep_def)

lemma oid_rep_unique:
  "oid_rep m f I \<Longrightarrow> i \<in> I \<Longrightarrow> j \<in> I \<Longrightarrow> ord_id (f j) = ord_id (f i) \<Longrightarrow> j = i"
  by (metis oid_repD option.inject)

lemma oid_rep_cong:
  "(\<And>i. i \<in> I \<Longrightarrow> ord_id (f i) = ord_id (f' i)) \<Longrightarrow> oid_rep m f I \<longleftrightarrow> oid_rep m f' I"
  by (auto simp: oid_rep_def)

lemma oid_rep_remove:
  assumes "oid_rep m f I" and "i \<in> I"
  shows "oid_rep (m(unat (ord_id (f i)) := None)) f (I - {i})"
  using assms oid_rep_unique[OF assms] by (auto simp: oid_rep_def word_unat_eq_iff)

lemma oid_rep_add:
  assumes "oid_rep m f I" and "i \<notin> I" and "unat (ord_id (f i)) < ME_MAX_ORDER_IDS"
    and "\<And>j. j \<in> I \<Longrightarrow> ord_id (f j) \<noteq> ord_id (f i)"
  shows "oid_rep (m(unat (ord_id (f i)) := Some i)) f (insert i I)"
  using assms by (auto simp: oid_rep_def word_unat_eq_iff)

lemma view_simps [simp]:
  "cv_orders (view b) = (\<lambda>s. resting s (mcore b))" "cv_bbo (view b) = bbo b"
  by (simp_all add: view_def)

lemma resting_ids:
  assumes rep: "client_rep b sh" and s: "s \<in> sides" and x: "x \<in> set (resting s (mcore b))"
  obtains i where "i \<in> set (cells_of (sh s))" and "i \<in> set (all_orders sh)" and "x = strip (ob (mcore b) i)"
  using x that by (auto simp: resting_rep[OF client_repD(2)[OF rep] s] set_all_orders[OF s])

lemma order_of_rep:
  assumes rep: "client_rep b sh" and "unat k < ME_MAX_ORDER_IDS"
  shows "order_of k b = Inr (oid_to_order b (unat k))"
  using assms by (simp add: order_of_def)

section \<open>The handlers\<close>

text \<open>A handler leaves the best bid and offer and the ticker alone.\<close>

definition does :: "MarketOrderBook \<Rightarrow> MarketOrderBook res \<Rightarrow> (Side \<Rightarrow> MarketOrder list) \<Rightarrow> bool" where
  "does b m os \<longleftrightarrow> (\<exists>b'. m = Inr b' \<and> client_ok b' \<and> bbo b' = bbo b \<and> book_ticker b' = book_ticker b \<and>
     (\<lambda>s. resting s (mcore b')) = os)"

lemma doesI:
  "m = Inr b' \<Longrightarrow> client_rep b' sh \<Longrightarrow> bbo b' = bbo b \<Longrightarrow> book_ticker b' = book_ticker b \<Longrightarrow>
   (\<And>s. resting s (mcore b') = os s) \<Longrightarrow> does b m os"
  by (auto simp: does_def client_ok_def)

lemma does_keep: "client_rep b sh \<Longrightarrow> (\<And>s. resting s (mcore b) = os s) \<Longrightarrow> does b (Inr b) os"
  by (rule doesI) auto

lemma expected_add:
  assumes rep: "client_rep b sh" and t: "mu_type u = MU_ADD" and ex: "expected u (view b)"
  shows "mu_side u \<in> sides" and "price_clear (mcore b) (mu_side u) (mu_price u)"
    and "2 \<le> spare (orders_pool (mcore b))" and "2 \<le> spare (levels_pool (mcore b))"
    and "q \<in> sides \<Longrightarrow> x \<in> set (resting q (mcore b)) \<Longrightarrow> ord_id x \<noteq> mu_order_id u"
proof -
  note r = client_repD[OF rep]
  show "mu_side u \<in> sides" using ex t by (auto simp: expected_def sides_def)
  show "2 \<le> spare (orders_pool (mcore b))" "2 \<le> spare (levels_pool (mcore b))"
    using ex t r(4,5) by (auto simp: book_spare[OF r(1)] expected_def)
  have all: "ord_id x \<noteq> mu_order_id u \<and> (priceToIndex (ord_price x) = priceToIndex (mu_price u) \<longrightarrow>
      ord_price x = mu_price u \<and> ord_side x = mu_side u)"
    if "q \<in> sides" "x \<in> set (resting q (mcore b))" for q x
    using ex t that by (auto simp: expected_def list_all_iff sides_def)
  then show "q \<in> sides \<Longrightarrow> x \<in> set (resting q (mcore b)) \<Longrightarrow> ord_id x \<noteq> mu_order_id u" by blast
  have "ord_side x = q" if q: "q \<in> sides" "x \<in> set (resting q (mcore b))" for q x
  proof -
    obtain i where i: "i \<in> set (cells_of (sh q))" "x = strip (ob (mcore b) i)"
      using resting_ids[OF rep q] by metis
    from i(1) obtain y where "y \<in> set (sh q)" "i \<in> set (snd y)" by (rule cells_ofE)
    then show ?thesis using links_sides_price(2)[OF r(2) q(1)] i(2) by simp
  qed
  then show "price_clear (mcore b) (mu_side u) (mu_price u)"
    using all unfolding price_clear_def by metis
qed

lemma new_order_fields [simp]:
  "ord_id (new_order u) = mu_order_id u" "ord_side (new_order u) = mu_side u"
  "ord_price (new_order u) = mu_price u" "ord_qty (new_order u) = mu_qty u"
  "ord_priority (new_order u) = mu_priority u" "strip (new_order u) = new_order u"
  by (simp_all add: new_order_def strip_def)

lemma handle_add_rep:
  assumes rep: "client_rep b sh" and t: "mu_type u = MU_ADD" and ex: "expected u (view b)"
  shows "does b (handle_add u b) (spec_orders u (\<lambda>s. resting s (mcore b)))"
proof -
  note r = client_repD[OF rep] and e = expected_add[OF rep t ex]
  let ?s = "mu_side u"
  have "price_clear (mcore b) ?s (ord_price (new_order u))" "ord_side (new_order u) = ?s" using e(2) by simp_all
  then obtain i Q c sh' where c: "allocate (new_order u) (orders_pool (mcore b)) = Inr (i, Q)"
    "link_order i ((mcore b)\<lparr>orders_pool := Q\<rparr>) = Inr c" "book_rep c sh'" "i \<notin> set (all_orders sh)"
    "set (all_orders sh') = insert i (set (all_orders sh))" "i < num_cells (orders_pool c)"
    "num_cells (orders_pool c) = num_cells (orders_pool (mcore b))"
    "num_cells (levels_pool c) = num_cells (levels_pool (mcore b))"
    "\<And>j. strip (ob c j) = strip (if j = i then new_order u else ob (mcore b) j)"
    "(\<lambda>t. resting t c) = (\<lambda>t. resting t (mcore b))(?s := insert_order ?s (new_order u) (resting ?s (mcore b)))"
    using alloc_link[OF r(1) e(1) _ _ e(3,4), of "new_order u"] unfolding new_order_fields(6) by blast
  have idi: "ord_id (ob c i) = mu_order_id u"
    using strip_eq_fields[OF c(9)[of i]] by simp
  have idj: "ord_id (ob c j) = ord_id (ob (mcore b) j)" if "j \<in> set (all_orders sh)" for j
    using strip_eq_fields[OF c(9)[of j]] that c(4) by auto
  have bound: "unat (mu_order_id u) < ME_MAX_ORDER_IDS" using ex t by (simp add: expected_def)
  let ?b = "b\<lparr>mcore := c, oid_to_order := (oid_to_order b)(unat (ord_id (ob c i)) := Some i)\<rparr>"
  have "handle_add u b = Inr ?b"
    using c(1,2,6) bound idi by (simp add: handle_add_def AddOrder_link new_order_def)
  moreover have "oid_rep (oid_to_order b) (ob c) (set (all_orders sh))"
    using r(3) oid_rep_cong[of "set (all_orders sh)" "ob c" "ob (mcore b)"] idj by simp
  then have "oid_rep (oid_to_order ?b) (ob c) (set (all_orders sh'))"
  proof -
    assume *: "oid_rep (oid_to_order b) (ob c) (set (all_orders sh))"
    have "ord_id (ob c j) \<noteq> ord_id (ob c i)" if j: "j \<in> set (all_orders sh)" for j
    proof -
      obtain q where q: "q \<in> sides" "j \<in> set (cells_of (sh q))" using j by (auto simp: all_orders_def sides_def)
      then have "strip (ob (mcore b) j) \<in> set (resting q (mcore b))" by (simp add: resting_rep[OF r(2)])
      then show ?thesis using e(5)[OF q(1)] idj[OF j] idi by fastforce
    qed
    then show ?thesis unfolding c(5) using oid_rep_add[OF * c(4)] bound idi by simp
  qed
  then have "client_rep ?b sh'" using c r by (simp add: client_rep_def)
  moreover have "resting q c = spec_orders u (\<lambda>s. resting s (mcore b)) q" for q
    using fun_cong[OF c(10), of q] t by (simp add: spec_orders_def)
  ultimately show ?thesis by (intro doesI[of _ ?b sh']) simp_all
qed

lemma handle_modify_rep:
  assumes rep: "client_rep b sh" and t: "mu_type u = MU_MODIFY" and ex: "expected u (view b)"
  shows "does b (handle_modify u b) (spec_orders u (\<lambda>s. resting s (mcore b)))"
proof -
  note r = client_repD[OF rep]
  have look: "order_of (mu_order_id u) b = Inr (oid_to_order b (unat (mu_order_id u)))"
    using ex t by (intro order_of_rep[OF rep]) (simp add: expected_def)
  let ?g = "\<lambda>x. if ord_id x = mu_order_id u then x\<lparr>ord_qty := mu_qty u\<rparr> else x"
  have spec: "spec_orders u (\<lambda>s. resting s (mcore b)) s = map ?g (resting s (mcore b))" for s
    using t by (simp add: spec_orders_def)
  show ?thesis
  proof (cases "oid_to_order b (unat (mu_order_id u))")
    case None
    have "ord_id x \<noteq> mu_order_id u" if x: "x \<in> set (resting s (mcore b))" for s x
    proof (cases "s \<in> sides")
      case True
      obtain i where "i \<in> set (all_orders sh)" "x = strip (ob (mcore b) i)" using resting_ids[OF rep True x] by metis
      then show ?thesis using None oid_repD[OF r(3), of "unat (mu_order_id u)" i] by auto
    qed (use x in simp)
    then have "map ?g (resting s (mcore b)) = resting s (mcore b)" for s by (intro map_idI) simp
    then show ?thesis using None look rep by (simp add: handle_modify_def spec does_keep)
  next
    case (Some i)
    then have i: "i \<in> set (all_orders sh)" "ord_id (ob (mcore b) i) = mu_order_id u"
      using oid_repD[OF r(3)] by (auto simp: word_unat_eq_iff)
    have ib: "i < num_cells (orders_pool (mcore b))" using links_order_bound[OF r(2) i(1)] .
    let ?f = "(ob (mcore b))(i := (ob (mcore b) i)\<lparr>ord_qty := mu_qty u\<rparr>)"
    let ?c = "(mcore b)\<lparr>orders_pool := (orders_pool (mcore b))\<lparr>object := ?f\<rparr>\<rparr>"
    have run: "handle_modify u b = Inr (b\<lparr>mcore := ?c\<rparr>)" using Some look ib by (simp add: handle_modify_def)
    have lr: "links_rep ?c sh" by (rule links_rep_cong[OF r(2)]) (simp_all add: same_links_def)
    moreover have "pool_ok (orders_pool ?c) = pool_ok (orders_pool (mcore b))"
      "live (orders_pool ?c) = live (orders_pool (mcore b))" by (simp_all add: pool_ok_def live_def)
    ultimately have "book_rep ?c sh" using r(1) by (simp add: book_rep_def pools_rep_def)
    moreover have "oid_rep (oid_to_order b) ?f (set (all_orders sh))"
      using r(3) oid_rep_cong[of "set (all_orders sh)" ?f "ob (mcore b)"] by simp
    ultimately have cr: "client_rep (b\<lparr>mcore := ?c\<rparr>) sh" using r(4,5) by (simp add: client_rep_def fun_upd_def)
    have view: "resting s ?c = map ?g (resting s (mcore b))" for s
    proof (cases "s \<in> sides")
      case True
      have "strip (?f j) = ?g (strip (ob (mcore b) j))" if "j \<in> set (cells_of (sh s))" for j
      proof -
        have "j \<in> set (all_orders sh)" using that by (simp add: set_all_orders[OF True])
        then have "ord_id (ob (mcore b) j) = mu_order_id u \<longleftrightarrow> j = i"
          using oid_rep_unique[OF r(3) i(1)] i(2) by auto
        then show ?thesis using i(2) by (auto simp: strip_def)
      qed
      then show ?thesis by (simp add: resting_rep[OF lr True] resting_rep[OF r(2) True])
    qed simp
    show ?thesis unfolding run by (rule doesI[OF refl cr]) (simp_all add: view spec)
  qed
qed

lemma handle_cancel_rep:
  assumes rep: "client_rep b sh" and t: "mu_type u = MU_CANCEL" and ex: "expected u (view b)"
  shows "does b (handle_cancel u b) (spec_orders u (\<lambda>s. resting s (mcore b)))"
proof -
  note r = client_repD[OF rep]
  have bound: "unat (mu_order_id u) < ME_MAX_ORDER_IDS" using ex t by (simp add: expected_def)
  note look = order_of_rep[OF rep bound]
  have spec: "spec_orders u (\<lambda>s. resting s (mcore b)) s = filter (\<lambda>x. ord_id x \<noteq> mu_order_id u) (resting s (mcore b))" for s
    using t by (simp add: spec_orders_def)
  show ?thesis
  proof (cases "oid_to_order b (unat (mu_order_id u))")
    case None
    have "ord_id x \<noteq> mu_order_id u" if x: "x \<in> set (resting s (mcore b))" for s x
    proof (cases "s \<in> sides")
      case True
      obtain i where "i \<in> set (all_orders sh)" "x = strip (ob (mcore b) i)" using resting_ids[OF rep True x] by metis
      then show ?thesis using None oid_repD[OF r(3), of "unat (mu_order_id u)" i] by auto
    qed (use x in simp)
    then have "filter (\<lambda>x. ord_id x \<noteq> mu_order_id u) (resting s (mcore b)) = resting s (mcore b)" for s
      by (intro filter_True) simp
    then show ?thesis using None look rep by (simp add: handle_cancel_def spec does_keep)
  next
    case (Some i)
    then have i: "i \<in> set (all_orders sh)" "ord_id (ob (mcore b) i) = mu_order_id u"
      using oid_repD[OF r(3)] by (auto simp: word_unat_eq_iff)
    from i(1) obtain s A l os1 os2 B where sp: "s \<in> sides" "sh s = A @ (l, os1 @ i # os2) # B"
      by (rule order_split)
    let ?sh = "sh(s := without l (os1 @ os2) A B)"
    obtain c Q where c: "unlink_order i (mcore b) = Inr c" "deallocate i (orders_pool c) = Inr Q"
      "book_rep (c\<lparr>orders_pool := Q\<rparr>) ?sh" "i < num_cells (orders_pool c)" "object Q = ob c"
      "\<And>j. strip (ob c j) = strip (ob (mcore b) j)" "set (all_orders ?sh) = set (all_orders sh) - {i}"
      "num_cells Q = num_cells (orders_pool (mcore b))" "num_cells (levels_pool c) = num_cells (levels_pool (mcore b))"
      "\<forall>t \<in> sides. resting t (c\<lparr>orders_pool := Q\<rparr>) =
         map (\<lambda>j. strip (ob (mcore b) j)) (filter (\<lambda>j. j \<noteq> i) (cells_of (sh t)))"
      using unlink_free[OF r(1) sp] by blast
    have ids: "ord_id (ob c j) = ord_id (ob (mcore b) j)" for j using strip_eq_fields[OF c(6)] by simp
    let ?b = "b\<lparr>mcore := c\<lparr>orders_pool := Q\<rparr>, oid_to_order := (oid_to_order b)(unat (mu_order_id u) := None)\<rparr>"
    have run: "handle_cancel u b = Inr ?b"
      using Some look c(1,2,4) bound ids i(2) by (simp add: handle_cancel_def client_removeOrder_unlink)
    have "oid_rep (oid_to_order b) (ob c) (set (all_orders sh))"
      using r(3) oid_rep_cong[of "set (all_orders sh)" "ob c" "ob (mcore b)"] ids by simp
    from oid_rep_remove[OF this i(1)] have "oid_rep (oid_to_order ?b) (ob c) (set (all_orders ?sh))"
      unfolding c(7) using ids i(2) by simp
    then have cr: "client_rep ?b ?sh" using c r by (simp add: client_rep_def)
    have view: "resting q (c\<lparr>orders_pool := Q\<rparr>) = filter (\<lambda>x. ord_id x \<noteq> mu_order_id u) (resting q (mcore b))" for q
    proof (cases "q \<in> sides")
      case True
      have "ord_id (ob (mcore b) j) \<noteq> mu_order_id u \<longleftrightarrow> j \<noteq> i" if "j \<in> set (cells_of (sh q))" for j
        using oid_rep_unique[OF r(3) i(1), of j] i(2) that by (auto simp: set_all_orders[OF True])
      then have "filter (\<lambda>j. j \<noteq> i) (cells_of (sh q)) =
          filter (\<lambda>j. ord_id (ob (mcore b) j) \<noteq> mu_order_id u) (cells_of (sh q))"
        by (intro filter_cong) auto
      then show ?thesis using c(10) True resting_rep[OF r(2) True] by (simp add: filter_map comp_def)
    qed simp
    show ?thesis unfolding run by (rule doesI[OF refl cr]) (simp_all add: view spec)
  qed
qed

section \<open>Best bid and offer\<close>

lemma add_quantities_ring:
  assumes r: "ring (\<lambda>i. ord_next (object Q i)) pv (h # xs)" and sp: "h # xs = as @ x # bs" and "length bs < n"
    and bd: "\<And>i. i \<in> set (h # xs) \<Longrightarrow> i < num_cells Q"
  shows "add_quantities n Q (Some h) (ord_next (object Q x)) acc =
     Inr (acc + (\<Sum>i\<leftarrow>bs. ord_qty (object Q i)))"
  using sp assms(3)
proof (induction bs arbitrary: as x n acc)
  case Nil
  then obtain m where "n = Suc m" by (cases n) auto
  moreover have "ord_next (object Q x) = Some h"
    using ring_links(1)[of _ pv as x "[]"] r Nil.prems(1) by (cases as) auto
  ultimately show ?case by simp
next
  case (Cons y bs)
  then obtain m where m: "n = Suc m" by (cases n) auto
  have nx: "ord_next (object Q x) = Some y"
    using ring_links(1)[of _ pv as x "y # bs"] r Cons.prems(1) by fastforce
  have "distinct (as @ x # y # bs)" using ring_distinct[OF r] Cons.prems(1) by simp
  then have "y \<noteq> h" using Cons.prems(1) by (cases as) auto
  moreover have "y < num_cells Q" using bd[of y] Cons.prems(1) by simp
  moreover have "add_quantities m Q (Some h) (ord_next (object Q y)) (acc + ord_qty (object Q y)) =
      Inr (acc + ord_qty (object Q y) + (\<Sum>i\<leftarrow>bs. ord_qty (object Q i)))"
    using Cons.IH[of "as @ [x]" y m] Cons.prems m by simp
  ultimately show ?case using m nx by (simp add: add.assoc)
qed

text \<open>The head of a side is its first level, whose first order is the first resting one.\<close>

lemma first_level:
  assumes rep: "links_rep c sh" and s: "s \<in> sides"
  obtains "sh s = []" and "head_of s c = None" and "resting s c = []"
  | l h os B where "sh s = (l, h # os) # B" and "head_of s c = Some l" and "lvl_head (lv c l) = Some h"
    and "ring (nxO c) (pvO c) (h # os)" and "l < num_cells (levels_pool c)"
    and "\<And>i. i \<in> set (h # os) \<Longrightarrow> i < num_cells (orders_pool c)"
    and "resting s c \<noteq> []" and "ord_price (hd (resting s c)) = lvl_price (lv c l)"
proof (cases "sh s")
  case Nil
  then show ?thesis using that(1) links_side[OF rep s] by (simp add: side_rep_def resting_rep[OF rep s])
next
  case (Cons x B)
  obtain l os where x: "x = (l, os)" by (cases x)
  have sr: "side_rep c s ((l, os) # B)" using links_side[OF rep s] Cons x by simp
  then have lr: "level_rep c s (l, os)" by (simp add: side_rep_def)
  then obtain h os' where os: "os = h # os'" using ring_nonempty by (cases os) (auto simp: level_rep_def)
  show ?thesis
  proof (rule that(2)[of l h os' B])
    show "l < num_cells (levels_pool c)" using links_level_bound[OF rep, of l] Cons x by (simp add: set_all_levels[OF s])
    show "i < num_cells (orders_pool c)" if "i \<in> set (h # os')" for i
      using links_order_bound[OF rep, of i] that Cons x os by (auto simp: set_all_orders[OF s])
  qed (use sr lr x os Cons in \<open>simp_all add: side_rep_def level_rep_def resting_rep[OF rep s]\<close>)
qed

lemma best_level_rep:
  assumes rep: "links_rep c sh" and s: "s \<in> sides"
  shows "best_level (head_of s c) c = Inr (best (resting s c))"
  using rep s
proof (cases rule: first_level)
  case 1
  then show ?thesis by (simp add: best_level_def best_def)
next
  case (2 l h os B)
  have "length (h # os) \<le> num_cells (orders_pool c)"
    using ring_distinct[OF 2(4)] 2(6) by (rule distinct_length_le_bound)
  then have q: "add_quantities (num_cells (orders_pool c) + 1) (orders_pool c) (Some h) (ord_next (ob c h)) (ord_qty (ob c h)) =
      Inr (ord_qty (ob c h) + (\<Sum>i\<leftarrow>os. ord_qty (ob c i)))"
    using 2(6) by (intro add_quantities_ring[OF 2(4), of "[]"]) auto
  obtain r rs where rs: "resting s c = r # rs" using 2(7) by (cases "resting s c") auto
  have "filter (\<lambda>x. ord_price x = lvl_price (lv c l)) (resting s c) = map (\<lambda>i. strip (ob c i)) (h # os)"
    using resting_level[OF rep s, of "[]" l "h # os" B] 2(1) by simp
  then have "best (resting s c) = (lvl_price (lv c l), \<Sum>x\<leftarrow>map (\<lambda>i. strip (ob c i)) (h # os). ord_qty x)"
    using 2(8) rs by (simp only: best_def list.case list.sel)
  then have "best (resting s c) = (lvl_price (lv c l), ord_qty (ob c h) + (\<Sum>i\<leftarrow>os. ord_qty (ob c i)))"
    by (simp add: comp_def)
  moreover have "h < num_cells (orders_pool c)" using 2(6) by simp
  ultimately show ?thesis using 2(2,3,5) q by (simp add: best_level_def)
qed

lemma touches_best_rep:
  assumes rep: "links_rep c sh" and s: "s \<in> sides"
  shows "touches_best s u c = Inr (at_best s u (resting s c))"
  using rep s
proof (cases rule: first_level)
  case 1
  then show ?thesis by (simp add: touches_best_def at_best_def)
next
  case (2 l h os B)
  show ?thesis using 2(2,5,7,8) s
    by (auto simp: touches_best_def at_best_def better_def sides_def)
qed

lemma updateBBO_rep:
  assumes rep: "links_rep (mcore b) sh"
  shows "updateBBO bid ask b = Inr (b\<lparr>bbo := spec_bbo bid ask (\<lambda>s. resting s (mcore b)) (bbo b)\<rparr>)"
  using best_level_rep[OF rep sides_simps(1)] best_level_rep[OF rep sides_simps(2)]
  by (cases "best (resting BUY (mcore b))"; cases "best (resting SELL (mcore b))"; cases bid; cases ask)
    (simp_all add: updateBBO_def head_of_def spec_bbo_def)

lemma change_book_rep:
  assumes rep: "client_rep b sh" and ex: "expected u (view b)"
  shows "does b (change_book u b) (spec_orders u (\<lambda>s. resting s (mcore b)))"
proof (cases "mu_type u = MU_ADD \<or> mu_type u = MU_MODIFY \<or> mu_type u = MU_CANCEL")
  case True
  then show ?thesis
    using handle_add_rep[OF rep _ ex] handle_modify_rep[OF rep _ ex] handle_cancel_rep[OF rep _ ex]
    by (auto simp: change_book_def)
next
  case False
  have "mu_type u \<noteq> MU_CLEAR" using ex by (auto simp: expected_def)
  then have "change_book u b = Inr b" "spec_orders u (\<lambda>s. resting s (mcore b)) = (\<lambda>s. resting s (mcore b))"
    using False by (simp_all add: change_book_def spec_orders_def split: MarketUpdateType.split)
  then show ?thesis using rep by (auto intro: does_keep)
qed

lemma onMarketUpdate_ok:
  assumes ok: "client_ok b" and ex: "expected u (view b)"
  obtains b' where "onMarketUpdate u b = Inr (spec_call u, b')" and "client_ok b'"
    and "view b' = spec_update u (view b)" and "book_ticker b' = book_ticker b"
proof -
  obtain sh where rep: "client_rep b sh" using ok by (auto simp: client_ok_def)
  note touch = touches_best_rep[OF client_repD(2)[OF rep]]
  show thesis
  proof (cases "mu_type u = MU_TRADE")
    case True
    then have "onMarketUpdate u b = Inr (spec_call u, b)"
      using touch by (simp add: onMarketUpdate_def spec_call_def)
    then show thesis using that ok True by (simp add: spec_update_def)
  next
    case False
    from change_book_rep[OF rep ex] obtain b1 where b1: "change_book u b = Inr b1" "client_ok b1"
      "bbo b1 = bbo b" "book_ticker b1 = book_ticker b"
      "(\<lambda>s. resting s (mcore b1)) = spec_orders u (\<lambda>s. resting s (mcore b))"
      unfolding does_def by blast
    obtain sh1 where rep1: "client_rep b1 sh1" using b1(2) by (auto simp: client_ok_def)
    let ?x = "spec_bbo (at_best BUY u (resting BUY (mcore b))) (at_best SELL u (resting SELL (mcore b)))
      (spec_orders u (\<lambda>s. resting s (mcore b))) (bbo b)"
    let ?b = "b1\<lparr>bbo := ?x\<rparr>"
    have "onMarketUpdate u b = Inr (spec_call u, ?b)"
      using False touch b1 updateBBO_rep[OF client_repD(2)[OF rep1]]
      by (simp add: onMarketUpdate_def spec_call_def)
    moreover have "client_ok ?b" using rep1 by (auto simp: client_ok_def client_rep_def)
    moreover have "view ?b = spec_update u (view b)"
      using False b1(5) by (simp add: spec_update_def view_def Let_def)
    ultimately show thesis using that b1(4) by simp
  qed
qed

end
