(* ===== verification/ClientBook.thy ===== *)
theory ClientBook
  imports MarketBookRep
begin

text \<open>
  The correctness of the client's order book, \<^verbatim>\<open>src/client/market_order_book.cpp\<close>: what
  every update does to the two lists of orders and to the best bid and offer, when the latter is
  what rests in the book, and what CLEAR does.
\<close>

section \<open>New books\<close>

lemma new_client_ok: "client_ok (new_MarketOrderBook (\<lambda>_. None) (\<lambda>_. None) t)"
proof -
  have "0 < ME_MAX_ORDER_IDS" "0 < ME_MAX_PRICE_LEVELS" by (simp_all add: size_defs)
  then have "client_rep (new_MarketOrderBook (\<lambda>_. None) (\<lambda>_. None) t) (\<lambda>_. [])"
    by (simp add: client_rep_def book_rep_def links_rep_def side_rep_def pools_rep_def
        new_MarketOrderBook_def newMemPool_ok all_orders_def all_levels_def oid_rep_def head_of_def)
      (simp add: newMemPool_def)
  then show ?thesis by (auto simp: client_ok_def)
qed

lemma view_new: "view (new_MarketOrderBook m p t) = \<lparr>cv_orders = (\<lambda>_. []), cv_bbo = new_BBO\<rparr>"
  by (simp add: view_def new_MarketOrderBook_def resting_def side_cells_def head_of_def fun_eq_iff)

lemma resting_new [simp]: "resting s (mcore (new_MarketOrderBook m p t)) = []"
  by (simp add: new_MarketOrderBook_def resting_def side_cells_def head_of_def)

text \<open>The identifiers in a good book are different and within the array.\<close>

lemma client_ids:
  assumes "client_ok b"
  shows "distinct (map ord_id (resting BUY (mcore b) @ resting SELL (mcore b)))"
    and "s \<in> sides \<Longrightarrow> x \<in> set (resting s (mcore b)) \<Longrightarrow> unat (ord_id x) < ME_MAX_ORDER_IDS"
    and "s \<in> sides \<Longrightarrow> x \<in> set (resting s (mcore b)) \<Longrightarrow> ord_side x = s"
proof -
  obtain sh where rep: "client_rep b sh" using assms by (auto simp: client_ok_def)
  note r = client_repD[OF rep]
  have "map ord_id (resting BUY (mcore b) @ resting SELL (mcore b)) = map (\<lambda>i. ord_id (ob (mcore b) i)) (all_orders sh)"
    by (simp add: resting_rep[OF r(2)] all_orders_def)
  moreover have "inj_on (\<lambda>i. ord_id (ob (mcore b) i)) (set (all_orders sh))"
    using oid_rep_unique[OF r(3)] by (intro inj_onI) auto
  moreover have "distinct (all_orders sh)" using r(2) by (simp add: links_rep_def)
  ultimately show "distinct (map ord_id (resting BUY (mcore b) @ resting SELL (mcore b)))"
    by (simp only: distinct_map simp_thms)
  assume s: "s \<in> sides" and x: "x \<in> set (resting s (mcore b))"
  obtain i where i: "i \<in> set (cells_of (sh s))" "i \<in> set (all_orders sh)" "x = strip (ob (mcore b) i)"
    using resting_ids[OF rep s x] .
  then show "unat (ord_id x) < ME_MAX_ORDER_IDS" using r(3) by (simp add: oid_rep_def)
  from i(1) obtain y where "y \<in> set (sh s)" "i \<in> set (snd y)" by (rule cells_ofE)
  then show "ord_side x = s" using links_sides_price(2)[OF r(2) s] i(3) by simp
qed

section \<open>Every update but CLEAR\<close>

text \<open>C9: an expected update is always handled: the pointer-level \<open>onMarketUpdate\<close> returns,
  keeps the representation invariant, calls the trade engine once, and changes the two lists of
  orders and the best bid and offer as the abstract book does: a new order goes behind the orders
  it does not beat, a modify changes one quantity, a cancel drops one order, an unknown
  identifier changes nothing, and the quote of a side is recomputed when the update is at its best
  price.\<close>

theorem client_book_follows_updates:
  assumes "client_ok b" and "expected u (view b)"
  shows "\<exists>b'. onMarketUpdate u b = Inr (spec_call u, b') \<and> client_ok b' \<and> view b' = spec_update u (view b)"
  using onMarketUpdate_ok[OF assms] by metis

definition sample_add :: MEMarketUpdate where
  "sample_add = \<lparr>mu_type = MU_ADD, mu_order_id = 7, mu_ticker_id = 3, mu_side = BUY, mu_price = 100,
     mu_qty = 10, mu_priority = 1\<rparr>"

lemma sample_expected: "expected sample_add (view (new_MarketOrderBook (\<lambda>_. None) (\<lambda>_. None) 3))"
  by (simp only: view_new) (simp add: expected_def sample_add_def level_count_def size_defs)

theorem client_book_follows_updates_witness:
  "\<exists>b'. onMarketUpdate sample_add (new_MarketOrderBook (\<lambda>_. None) (\<lambda>_. None) 3) = Inr (spec_call sample_add, b') \<and>
     client_ok b' \<and> view b' = spec_update sample_add (view (new_MarketOrderBook (\<lambda>_. None) (\<lambda>_. None) 3))"
  by (rule client_book_follows_updates[OF new_client_ok sample_expected])

section \<open>The quote\<close>

definition quote :: "Side \<Rightarrow> BBO \<Rightarrow> Price \<times> Qty" where
  "quote s x = (if s = BUY then (bid_price x, bid_qty x) else (ask_price x, ask_qty x))"

text \<open>The update tells the side and the price of the order it names.\<close>

definition truthful :: "MEMarketUpdate \<Rightarrow> client_view \<Rightarrow> bool" where
  "truthful u v \<longleftrightarrow> list_all (\<lambda>s. list_all (\<lambda>x. ord_id x = mu_order_id u \<longrightarrow>
     s = mu_side u \<and> ord_price x = mu_price u) (cv_orders v s)) [BUY, SELL]"

lemma quote_spec:
  assumes "s \<in> sides"
  shows "quote s (spec_bbo (at_best BUY u bids) (at_best SELL u asks) os x) =
     (if at_best s u (if s = BUY then bids else asks) then best (os s) else quote s x)"
  using assms by (auto simp: quote_def spec_bbo_def sides_def Let_def)

lemma best_cong:
  assumes "rs = r # rs0" and "rs' = r' # rs0'" and "ord_price r' = ord_price r"
    and "map ord_qty (filter (\<lambda>x. ord_price x = ord_price r) rs') = map ord_qty (filter (\<lambda>x. ord_price x = ord_price r) rs)"
  shows "best rs' = best rs"
  using assms(4) unfolding best_def assms(1-3) by (simp only: list.case assms(3))

lemma best_unaffected:
  assumes s: "s \<in> sides" and tr: "truthful u v" and nt: "mu_type u \<noteq> MU_TRADE"
    and no: "\<not> at_best s u (cv_orders v s)"
    and add: "mu_type u = MU_ADD \<Longrightarrow> mu_side u = s \<Longrightarrow> cv_orders v s \<noteq> []"
  shows "best (spec_orders u (cv_orders v) s) = best (cv_orders v s)"
proof (cases "cv_orders v s")
  case Nil
  then have "spec_orders u (cv_orders v) s = []"
    using add by (auto simp: spec_orders_def split: MarketUpdateType.split)
  then show ?thesis using Nil by simp
next
  case (Cons r rs)
  have other: "ord_price x = mu_price u \<and> mu_side u = s" if "x \<in> set (r # rs)" "ord_id x = mu_order_id u" for x
    using tr that s Cons by (auto simp: truthful_def sides_def list_all_iff)
  have worse: "better s (ord_price r) (mu_price u)" if "mu_side u = s"
    using no that Cons by (simp add: at_best_def)
  have away: "ord_id x \<noteq> mu_order_id u" if "x \<in> set (r # rs)" "ord_price x = ord_price r" for x
    using other[OF that(1)] worse that(2) by auto
  have ra: "ord_id r \<noteq> mu_order_id u" using away[of r] by simp
  consider (add) "mu_type u = MU_ADD" | (mod) "mu_type u = MU_MODIFY" | (can) "mu_type u = MU_CANCEL"
    | (oth) "spec_orders u (cv_orders v) = cv_orders v"
    by (cases "mu_type u") (simp_all add: spec_orders_def)
  then show ?thesis
  proof cases
    case add
    show ?thesis
    proof (cases "mu_side u = s")
      case True
      let ?n = "new_order u" and ?g = "\<lambda>x. goes_before s x (new_order u)"
      have n: "ord_price ?n = mu_price u" by (simp add: new_order_def)
      have ne: "mu_price u \<noteq> ord_price r" using worse[OF True] by auto
      have rg: "?g r" using worse[OF True] by (simp add: goes_before_def n)
      have "filter (\<lambda>x. ord_price x = ord_price r) (insert_order s ?n (r # rs)) =
          filter (\<lambda>x. ord_price x = ord_price r) (takeWhile ?g (r # rs) @ dropWhile ?g (r # rs))"
        using ne by (simp add: insert_order_def n del: takeWhile_dropWhile_id)
      then have "filter (\<lambda>x. ord_price x = ord_price r) (insert_order s ?n (r # rs)) =
          filter (\<lambda>x. ord_price x = ord_price r) (r # rs)"
        by (simp only: takeWhile_dropWhile_id)
      then have "best (insert_order s ?n (r # rs)) = best (r # rs)"
        using rg by (intro best_cong[OF refl _ refl]) (auto simp: insert_order_def)
      then show ?thesis using add True Cons by (simp add: spec_orders_def)
    qed (use add in \<open>simp add: spec_orders_def\<close>)
  next
    case mod
    let ?g = "\<lambda>x. if ord_id x = mu_order_id u then x\<lparr>ord_qty := mu_qty u\<rparr> else x"
    have "filter (\<lambda>x. ord_price x = ord_price r) (map ?g (r # rs)) = map ?g (filter (\<lambda>x. ord_price x = ord_price r) (r # rs))"
      by (simp only: filter_map comp_def) (auto intro!: filter_cong arg_cong[where f = "map _"])
    also have "\<dots> = filter (\<lambda>x. ord_price x = ord_price r) (r # rs)"
      using away by (intro map_idI) auto
    finally have "best (map ?g (r # rs)) = best (r # rs)"
      using ra by (intro best_cong[OF refl _ refl]) auto
    then show ?thesis using mod Cons by (simp add: spec_orders_def)
  next
    case can
    have "filter (\<lambda>x. ord_price x = ord_price r) (filter (\<lambda>x. ord_id x \<noteq> mu_order_id u) (r # rs)) =
        filter (\<lambda>x. ord_price x = ord_price r) (r # rs)"
      unfolding filter_filter using away by (intro filter_cong) auto
    then have "best (filter (\<lambda>x. ord_id x \<noteq> mu_order_id u) (r # rs)) = best (r # rs)"
      using ra by (intro best_cong[OF refl _ refl]) auto
    then show ?thesis using can Cons by (simp add: spec_orders_def)
  next
    case oth
    then show ?thesis by simp
  qed
qed

text \<open>C25: the best bid and offer that the algorithms read stays what rests in the book: once the
  quote of a side is its best price with the quantity there, every expected update that names
  its order truthfully keeps it so, except an ADD to an empty side.\<close>

theorem quote_stays_exact:
  assumes "client_ok b" and "expected u (view b)" and "truthful u (view b)" and "s = BUY \<or> s = SELL"
    and "quote s (bbo b) = best (resting s (mcore b))"
    and "mu_type u = MU_ADD \<Longrightarrow> mu_side u = s \<Longrightarrow> resting s (mcore b) \<noteq> []"
  shows "\<exists>call b'. onMarketUpdate u b = Inr (call, b') \<and> quote s (bbo b') = best (resting s (mcore b'))"
proof -
  obtain b' where b': "onMarketUpdate u b = Inr (spec_call u, b')" "view b' = spec_update u (view b)"
    using onMarketUpdate_ok[OF assms(1,2)] by metis
  have s: "s \<in> sides" using assms(4) by (auto simp: sides_def)
  have "quote s (cv_bbo (spec_update u (view b))) = best (cv_orders (spec_update u (view b)) s)"
  proof (cases "mu_type u = MU_TRADE")
    case False
    note same = best_unaffected[OF s assms(3) False, simplified]
    show ?thesis
      using assms(4) False quote_spec[OF s] same assms(5,6)
      by (elim disjE) (auto simp add: spec_update_def Let_def)
  qed (use assms(5) in \<open>simp add: spec_update_def\<close>)
  then show ?thesis using b'(1) unfolding b'(2)[symmetric] by auto
qed

theorem quote_stays_exact_witness:
  "\<exists>call b'. onMarketUpdate sample_add (new_MarketOrderBook (\<lambda>_. None) (\<lambda>_. None) 3) = Inr (call, b') \<and>
     quote SELL (bbo b') = best (resting SELL (mcore b'))"
proof (rule quote_stays_exact[OF new_client_ok sample_expected])
  show "truthful sample_add (view (new_MarketOrderBook (\<lambda>_. None) (\<lambda>_. None) 3))"
    by (simp add: truthful_def)
  show "quote SELL (bbo (new_MarketOrderBook (\<lambda>_. None) (\<lambda>_. None) 3)) =
      best (resting SELL (mcore (new_MarketOrderBook (\<lambda>_. None) (\<lambda>_. None) 3)))"
    by (simp add: quote_def best_def) (simp add: new_MarketOrderBook_def new_BBO_def)
qed (simp_all add: sample_add_def)

text \<open>The first order of an empty side is not quoted: after its ADD the best bid and offer is
  what it was before, although the order now rests alone at the best price.\<close>

theorem first_order_not_quoted:
  assumes "client_ok b" and "expected u (view b)" and "mu_type u = MU_ADD"
    and "resting (mu_side u) (mcore b) = []"
  shows "\<exists>call b'. onMarketUpdate u b = Inr (call, b') \<and> bbo b' = bbo b \<and>
     resting (mu_side u) (mcore b') = [new_order u]"
proof -
  obtain b' where b': "onMarketUpdate u b = Inr (spec_call u, b')" "view b' = spec_update u (view b)"
    using onMarketUpdate_ok[OF assms(1,2)] by metis
  have s: "mu_side u = BUY \<or> mu_side u = SELL" using assms(2,3) by (simp add: expected_def)
  have "\<not> at_best t u (resting t (mcore b))" for t using assms(4) by (auto simp: at_best_def)
  then have "cv_bbo (view b') = bbo b"
    unfolding b'(2) using assms(3) by (simp add: spec_update_def spec_bbo_def Let_def)
  moreover have "cv_orders (view b') (mu_side u) = [new_order u]"
    unfolding b'(2) using assms(3,4) by (simp add: spec_update_def spec_orders_def Let_def insert_order_def)
  ultimately show ?thesis using b'(1) by auto
qed

theorem first_order_not_quoted_witness:
  "\<exists>call b'. onMarketUpdate sample_add (new_MarketOrderBook (\<lambda>_. None) (\<lambda>_. None) 3) = Inr (call, b') \<and>
     bbo b' = bbo (new_MarketOrderBook (\<lambda>_. None) (\<lambda>_. None) 3) \<and>
     resting (mu_side sample_add) (mcore b') = [new_order sample_add]"
  by (rule first_order_not_quoted[OF new_client_ok sample_expected]) (simp_all add: sample_add_def)

section \<open>CLEAR\<close>

lemma clear_fold:
  assumes "distinct ks" and "pool_ok Q"
    and "\<And>k i. k \<in> set ks \<Longrightarrow> m k = Some i \<Longrightarrow> i \<in> live Q"
    and "\<And>k k' i. m k = Some i \<Longrightarrow> m k' = Some i \<Longrightarrow> k = k'"
  shows "\<exists>Q'. res_fold (\<lambda>k Q. case m k of None \<Rightarrow> Inr Q | Some i \<Rightarrow> deallocate i Q) ks Q = Inr Q' \<and>
     object Q' = object Q \<and> num_cells Q' = num_cells Q \<and> pool_ok Q' \<and>
     live Q' = live Q - {i. \<exists>k \<in> set ks. m k = Some i}"
  using assms(1-3)
proof (induction ks arbitrary: Q)
  case (Cons k ks)
  show ?case
  proof (cases "m k")
    case None
    obtain Q' where "res_fold (\<lambda>k Q. case m k of None \<Rightarrow> Inr Q | Some i \<Rightarrow> deallocate i Q) ks Q = Inr Q'"
      "object Q' = object Q" "num_cells Q' = num_cells Q" "pool_ok Q'"
      "live Q' = live Q - {i. \<exists>k \<in> set ks. m k = Some i}"
      using Cons.IH[of Q] Cons.prems by auto
    then show ?thesis using None by auto
  next
    case (Some i)
    have "i \<in> live Q" by (rule Cons.prems(3)[OF _ Some]) simp
    with Cons.prems(2) obtain R where R: "deallocate i Q = Inr R" "live R = live Q - {i}"
      "object R = object Q" "num_cells R = num_cells Q" "pool_ok R" by (rule mp.free_elim)
    have "j \<in> live R" if "k' \<in> set ks" "m k' = Some j" for k' j
      using Cons.prems(1,3) that assms(4)[of k i k'] Some R(2) by auto
    then obtain Q' where "res_fold (\<lambda>k Q. case m k of None \<Rightarrow> Inr Q | Some i \<Rightarrow> deallocate i Q) ks R = Inr Q'"
      "object Q' = object R" "num_cells Q' = num_cells R" "pool_ok Q'"
      "live Q' = live R - {i. \<exists>k \<in> set ks. m k = Some i}"
      using Cons.IH[of R] Cons.prems(1) R(5) by auto
    then show ?thesis using Some R by auto
  qed
qed auto

lemma clear_orders_rep:
  assumes rep: "client_rep b sh"
  obtains Q where "clear_orders (oid_to_order b) (orders_pool (mcore b)) = Inr Q"
    and "object Q = ob (mcore b)" and "num_cells Q = num_cells (orders_pool (mcore b))" and "live Q = {}"
proof -
  note r = client_repD[OF rep] and br = book_repD[OF client_repD(1)[OF rep]]
  obtain Q where Q: "clear_orders (oid_to_order b) (orders_pool (mcore b)) = Inr Q"
    "object Q = ob (mcore b)" "num_cells Q = num_cells (orders_pool (mcore b))"
    "live Q = live (orders_pool (mcore b)) - {i. \<exists>k \<in> set [0..<ME_MAX_ORDER_IDS]. oid_to_order b k = Some i}"
    using clear_fold[of "[0..<ME_MAX_ORDER_IDS]" "orders_pool (mcore b)" "oid_to_order b"] br oid_repD[OF r(3)]
    unfolding clear_orders_def by auto
  have "\<exists>k \<in> set [0..<ME_MAX_ORDER_IDS]. oid_to_order b k = Some i" if "i \<in> set (all_orders sh)" for i
    using r(3) that by (auto simp: oid_rep_def)
  then have "live Q = {}" using Q(4) br(3) by auto
  then show thesis using that Q by blast
qed

text \<open>One level: the loop does not run. Two: it gives the second back twice.\<close>

lemma clear_side_rep:
  assumes rep: "links_rep c sh" and s: "s \<in> sides" and hd: "head_of s c = head"
    and P: "object P = lv c" "num_cells P = num_cells (levels_pool c)" "set (map fst (sh s)) \<subseteq> live P" "pool_ok P"
    and big: "2 \<le> num_cells (levels_pool c)"
  shows "2 \<le> length (sh s) \<Longrightarrow> clear_side head P = Inl AssertFailed"
    and "length (sh s) \<le> 1 \<Longrightarrow> \<exists>P'. clear_side head P = Inr P' \<and> object P' = object P \<and>
       num_cells P' = num_cells P \<and> live P' = live P - set (map fst (sh s)) \<and> pool_ok P'"
proof -
  have sr: "side_rep c s (sh s)" using links_side[OF rep s] .
  show "clear_side head P = Inl AssertFailed" if two: "2 \<le> length (sh s)"
  proof -
    obtain x y zs where xyz: "sh s = x # y # zs" using two by (cases "sh s"; cases "tl (sh s)") auto
    have r: "ring (nxL c) (pvL c) (fst x # fst y # map fst zs)" using sr xyz by (simp add: side_rep_def)
    have nx: "lvl_next (lv c (fst x)) = Some (fst y)" using ring_head_links(1)[OF r] by simp
    have ne: "fst y \<noteq> fst x" using ring_distinct[OF r] by auto
    have live: "fst x \<in> live P" "fst y \<in> live P" using P(3) xyz by auto
    obtain R where R: "deallocate (fst y) P = Inr R" "live R = live P - {fst y}" "object R = object P"
      "num_cells R = num_cells P" "pool_ok R" by (rule mp.free_elim[OF P(4) live(2)])
    have again: "deallocate (fst y) R = Inl AssertFailed" using R(2) by (intro mp.free_rejects) simp
    obtain k where k: "num_cells P + 1 = Suc (Suc k)" using big P(2) by (metis Suc_eq_plus1 Suc_le_D numeral_2_eq_2 le_SucI)
    have "clear_behind (Suc (Suc k)) (fst x) P = Inl AssertFailed"
      using nx ne live_bound[OF live(1)] P(1) R again by (simp add: deallocate_ptr_def)
    then show ?thesis using sr xyz hd k unfolding clear_side_def by (simp add: side_rep_def del: clear_behind.simps)
  qed
  show "\<exists>P'. clear_side head P = Inr P' \<and> object P' = object P \<and>
       num_cells P' = num_cells P \<and> live P' = live P - set (map fst (sh s)) \<and> pool_ok P'" if one: "length (sh s) \<le> 1"
  proof (cases "sh s")
    case Nil
    then show ?thesis using sr hd P(4) by (auto simp: side_rep_def clear_side_def)
  next
    case (Cons x xs)
    then have x: "sh s = [x]" using one by simp
    then have "lvl_next (lv c (fst x)) = Some (fst x)" using sr by (simp add: side_rep_def)
    moreover have live: "fst x \<in> live P" using P(3) x by simp
    ultimately have "clear_behind (num_cells P + 1) (fst x) P = Inr P"
      using live_bound[OF live] P(1) by simp
    then have "clear_side head P = deallocate (fst x) P" using sr x hd by (simp add: side_rep_def clear_side_def)
    moreover obtain R where "deallocate (fst x) P = Inr R" "live R = live P - {fst x}" "object R = object P"
      "num_cells R = num_cells P" "pool_ok R" by (rule mp.free_elim[OF P(4) live])
    ultimately show ?thesis using x by simp
  qed
qed

lemma clear_rep:
  assumes rep: "client_rep b sh"
  shows "2 \<le> length (sh BUY) \<or> 2 \<le> length (sh SELL) \<Longrightarrow> clear_book b = Inl AssertFailed"
    and "length (sh BUY) \<le> 1 \<Longrightarrow> length (sh SELL) \<le> 1 \<Longrightarrow>
      \<exists>Q P. clear_book b = Inr (b\<lparr>mcore := (mcore b)\<lparr>orders_pool := Q, levels_pool := P\<rparr>, oid_to_order := (\<lambda>_. None)\<rparr>) \<and>
        object Q = ob (mcore b) \<and> num_cells Q = num_cells (orders_pool (mcore b)) \<and> live Q = {} \<and>
        object P = lv (mcore b) \<and> num_cells P = num_cells (levels_pool (mcore b)) \<and> live P = {}"
proof -
  note r = client_repD[OF rep] and br = book_repD[OF client_repD(1)[OF rep]]
  obtain Q where Q: "clear_orders (oid_to_order b) (orders_pool (mcore b)) = Inr Q"
    "object Q = ob (mcore b)" "num_cells Q = num_cells (orders_pool (mcore b))" "live Q = {}"
    by (rule clear_orders_rep[OF rep])
  have big: "2 \<le> num_cells (levels_pool (mcore b))" using r(5) by (simp add: size_defs)
  have hd: "head_of BUY (mcore b) = bids_by_price (mcore b)" "head_of SELL (mcore b) = asks_by_price (mcore b)"
    by (simp_all add: head_of_def)
  let ?P = "levels_pool (mcore b)"
  have lB: "set (map fst (sh BUY)) \<subseteq> live ?P" and lS: "set (map fst (sh SELL)) \<subseteq> live ?P"
    using br(5) by (simp_all add: all_levels_def)
  have dis: "set (map fst (sh BUY)) \<inter> set (map fst (sh SELL)) = {}"
    using r(2) by (simp add: links_rep_def all_levels_def)
  note bid = clear_side_rep[OF r(2) sides_simps(1) hd(1) refl refl lB br(4) big]
  show "clear_book b = Inl AssertFailed" if two: "2 \<le> length (sh BUY) \<or> 2 \<le> length (sh SELL)"
  proof (cases "2 \<le> length (sh BUY)")
    case True
    then show ?thesis using bid(1) Q by (simp add: clear_book_def)
  next
    case False
    then obtain P where P: "clear_side (bids_by_price (mcore b)) ?P = Inr P" "object P = lv (mcore b)"
      "num_cells P = num_cells ?P" "live P = live ?P - set (map fst (sh BUY))" "pool_ok P"
      using bid(2) by auto
    have "set (map fst (sh SELL)) \<subseteq> live P" using P(4) lS dis by blast
    then have "clear_side (asks_by_price (mcore b)) P = Inl AssertFailed"
      using clear_side_rep(1)[OF r(2) sides_simps(2) hd(2) P(2,3) _ P(5) big] two False by simp
    then show ?thesis using Q P(1) by (simp add: clear_book_def)
  qed
  assume one: "length (sh BUY) \<le> 1" "length (sh SELL) \<le> 1"
  then obtain P where P: "clear_side (bids_by_price (mcore b)) ?P = Inr P" "object P = lv (mcore b)"
    "num_cells P = num_cells ?P" "live P = live ?P - set (map fst (sh BUY))" "pool_ok P"
    using bid(2) by auto
  have "set (map fst (sh SELL)) \<subseteq> live P" using P(4) lS dis by blast
  then obtain R where R: "clear_side (asks_by_price (mcore b)) P = Inr R" "object R = object P"
    "num_cells R = num_cells P" "live R = live P - set (map fst (sh SELL))"
    using clear_side_rep(2)[OF r(2) sides_simps(2) hd(2) P(2,3) _ P(5) big] one by blast
  have "live R = {}" using R(4) P(4) br(5) by (auto simp: all_levels_def)
  then show "\<exists>Q P. clear_book b = Inr (b\<lparr>mcore := (mcore b)\<lparr>orders_pool := Q, levels_pool := P\<rparr>, oid_to_order := (\<lambda>_. None)\<rparr>) \<and>
        object Q = ob (mcore b) \<and> num_cells Q = num_cells (orders_pool (mcore b)) \<and> live Q = {} \<and>
        object P = lv (mcore b) \<and> num_cells P = num_cells (levels_pool (mcore b)) \<and> live P = {}"
    using Q P R by (intro exI[of _ Q] exI[of _ R]) (simp add: clear_book_def)
qed

lemma onMarketUpdate_clear:
  assumes rep: "client_rep b sh" and u: "mu_type u = MU_CLEAR" and s: "mu_side u = SIDE_INVALID"
  shows "onMarketUpdate u b = res_bind (clear_book b) (\<lambda>b. Inr (spec_call u, b))"
  using u s
  by (cases "clear_book b") (simp_all add: onMarketUpdate_def touches_best_def change_book_def updateBBO_def spec_call_def)

lemma sample_book:
  obtains b where "onMarketUpdate sample_add (new_MarketOrderBook (\<lambda>_. None) (\<lambda>_. None) 3) = Inr (spec_call sample_add, b)"
    and "client_ok b" and "resting BUY (mcore b) = [new_order sample_add]" and "resting SELL (mcore b) = []"
proof -
  obtain b where b: "onMarketUpdate sample_add (new_MarketOrderBook (\<lambda>_. None) (\<lambda>_. None) 3) = Inr (spec_call sample_add, b)"
    "client_ok b" "view b = spec_update sample_add (view (new_MarketOrderBook (\<lambda>_. None) (\<lambda>_. None) 3))"
    using onMarketUpdate_ok[OF new_client_ok sample_expected] by metis
  have "resting s (mcore b) = cv_orders (spec_update sample_add (view (new_MarketOrderBook (\<lambda>_. None) (\<lambda>_. None) 3))) s" for s
    by (simp only: b(3)[symmetric] view_simps)
  moreover have "cv_orders (spec_update sample_add (view (new_MarketOrderBook (\<lambda>_. None) (\<lambda>_. None) 3))) =
      (\<lambda>_. [])(BUY := [new_order sample_add])"
    by (simp add: spec_update_def spec_orders_def sample_add_def insert_order_def Let_def)
  ultimately show thesis using that[OF b(1,2)] by simp
qed

lemma sample_book_two:
  obtains b where "client_ok b" and "2 \<le> level_count (resting BUY (mcore b))"
proof -
  let ?u = "sample_add\<lparr>mu_order_id := 8, mu_price := 99\<rparr>"
  obtain b where b: "client_ok b" "resting BUY (mcore b) = [new_order sample_add]" "resting SELL (mcore b) = []"
    by (rule sample_book)
  then have "expected ?u (view b)"
    by (simp add: expected_def sample_add_def level_count_def size_defs priceToIndex_def)
  from onMarketUpdate_ok[OF b(1) this] obtain b' where b': "client_ok b'" "view b' = spec_update ?u (view b)" by metis
  have "resting BUY (mcore b') = cv_orders (spec_update ?u (view b)) BUY" by (simp only: b'(2)[symmetric] view_simps)
  also have "\<dots> = [new_order sample_add, new_order ?u]"
    using b(2,3) by (simp add: spec_update_def spec_orders_def Let_def)
      (simp add: sample_add_def insert_order_def goes_before_def better_def new_order_def)
  finally show thesis using that[OF b'(1)] by (simp add: level_count_def sample_add_def)
qed

text \<open>C37: the CLEAR that opens every snapshot brings the trading program down when its book has two
  price levels on a side: the loop that gives the levels back never follows the ring, gives the
  second level back twice, and the pool's assertion fails.\<close>

theorem clear_aborts_on_two_levels:
  assumes "client_ok b" and "2 \<le> level_count (resting BUY (mcore b)) \<or> 2 \<le> level_count (resting SELL (mcore b))"
    and "u = default_update\<lparr>mu_type := MU_CLEAR, mu_ticker_id := t\<rparr>"
  shows "onMarketUpdate u b = Inl AssertFailed"
proof -
  obtain sh where rep: "client_rep b sh" using assms(1) by (auto simp: client_ok_def)
  have "2 \<le> length (sh BUY) \<or> 2 \<le> length (sh SELL)"
    using assms(2) resting_level_count[OF client_repD(2)[OF rep]] by simp
  then show ?thesis
    using clear_rep(1)[OF rep] onMarketUpdate_clear[OF rep, of u] by (simp add: assms(3) default_update_def)
qed

theorem clear_aborts_on_two_levels_witness:
  "\<exists>b. client_ok b \<and>
     onMarketUpdate (default_update\<lparr>mu_type := MU_CLEAR, mu_ticker_id := 3\<rparr>) b = Inl AssertFailed"
proof -
  obtain b where b: "client_ok b" "2 \<le> level_count (resting BUY (mcore b))" by (rule sample_book_two)
  then show ?thesis using clear_aborts_on_two_levels[OF b(1) disjI1[OF b(2)] refl, of 3] by blast
qed

text \<open>With at most one level on each side CLEAR returns, but it empties nothing the program
  reads: the heads of the sides and the price array still lead to the cells given back, so
  every order still shows on its side and the best bid and offer stays, while no order can be found by
  its identifier any more and its cell is free for reuse.\<close>

theorem clear_leaves_stale_levels:
  assumes "client_ok b" and "level_count (resting BUY (mcore b)) \<le> 1" and "level_count (resting SELL (mcore b)) \<le> 1"
    and "u = default_update\<lparr>mu_type := MU_CLEAR, mu_ticker_id := t\<rparr>"
  shows "\<exists>b'. onMarketUpdate u b = Inr (spec_call u, b') \<and> resting BUY (mcore b') = resting BUY (mcore b) \<and>
     resting SELL (mcore b') = resting SELL (mcore b) \<and> bbo b' = bbo b \<and>
     getOrdersAtPrice b' = getOrdersAtPrice b \<and> oid_to_order b' = (\<lambda>_. None) \<and>
     live (orders_pool (mcore b')) = {} \<and> live (levels_pool (mcore b')) = {}"
proof -
  obtain sh where rep: "client_rep b sh" using assms(1) by (auto simp: client_ok_def)
  have one: "length (sh BUY) \<le> 1" "length (sh SELL) \<le> 1"
    using assms(2,3) resting_level_count[OF client_repD(2)[OF rep]] by simp_all
  obtain Q P where QP: "clear_book b = Inr (b\<lparr>mcore := (mcore b)\<lparr>orders_pool := Q, levels_pool := P\<rparr>, oid_to_order := (\<lambda>_. None)\<rparr>)"
    "object Q = ob (mcore b)" "num_cells Q = num_cells (orders_pool (mcore b))" "live Q = {}"
    "object P = lv (mcore b)" "num_cells P = num_cells (levels_pool (mcore b))" "live P = {}"
    using clear_rep(2)[OF rep one] by blast
  let ?c = "(mcore b)\<lparr>orders_pool := Q, levels_pool := P\<rparr>"
  have "resting s ?c = resting s (mcore b)" for s
  proof (cases "s \<in> sides")
    case True
    have "links_rep ?c sh" using QP by (intro links_rep_cong[OF client_repD(2)[OF rep]]) auto
    then show ?thesis using QP(2) by (simp add: resting_rep[OF _ True] resting_rep[OF client_repD(2)[OF rep] True])
  qed simp
  moreover have "getOrdersAtPrice (b\<lparr>mcore := ?c, oid_to_order := (\<lambda>_. None)\<rparr>) = getOrdersAtPrice b"
    by (simp add: getOrdersAtPrice_def getOrderAtPrice_def fun_eq_iff)
  moreover have "onMarketUpdate u b = Inr (spec_call u, b\<lparr>mcore := ?c, oid_to_order := (\<lambda>_. None)\<rparr>)"
    using QP(1) onMarketUpdate_clear[OF rep, of u] by (simp add: assms(4) default_update_def)
  ultimately show ?thesis using QP(4,7) by (intro exI[of _ "b\<lparr>mcore := ?c, oid_to_order := (\<lambda>_. None)\<rparr>"]) simp
qed

theorem clear_leaves_stale_levels_witness:
  "\<exists>b b'. client_ok b \<and> resting BUY (mcore b) = [new_order sample_add] \<and>
     onMarketUpdate (default_update\<lparr>mu_type := MU_CLEAR, mu_ticker_id := 3\<rparr>) b =
       Inr (spec_call (default_update\<lparr>mu_type := MU_CLEAR, mu_ticker_id := 3\<rparr>), b') \<and>
     resting BUY (mcore b') = [new_order sample_add]"
proof -
  obtain b where b: "client_ok b" "resting BUY (mcore b) = [new_order sample_add]" "resting SELL (mcore b) = []"
    by (rule sample_book)
  have "level_count (resting BUY (mcore b)) \<le> 1" "level_count (resting SELL (mcore b)) \<le> 1"
    using b by (simp_all add: level_count_def)
  from clear_leaves_stale_levels[OF b(1) this refl, of 3] b show ?thesis by metis
qed

section \<open>Identifiers beyond the array\<close>

lemma handle_add_oversized:
  assumes rep: "client_rep b sh" and t: "mu_type u = MU_ADD" and ex: "expected (u\<lparr>mu_order_id := k\<rparr>) (view b)"
    and big: "ME_MAX_ORDER_IDS \<le> unat (mu_order_id u)"
  shows "handle_add u b = Inl OutOfRange"
proof -
  have e: "mu_side u \<in> sides" "price_clear (mcore b) (mu_side u) (ord_price (new_order u))"
    "ord_side (new_order u) = mu_side u" "2 \<le> spare (orders_pool (mcore b))" "2 \<le> spare (levels_pool (mcore b))"
    using expected_add(1-4)[OF rep _ ex] t by simp_all
  obtain i Q c where c: "allocate (new_order u) (orders_pool (mcore b)) = Inr (i, Q)"
    "link_order i ((mcore b)\<lparr>orders_pool := Q\<rparr>) = Inr c" "i < num_cells (orders_pool c)"
    "\<And>j. strip (ob c j) = strip (if j = i then new_order u else ob (mcore b) j)"
    using alloc_link[OF client_repD(1)[OF rep] e] by blast
  have "ord_id (ob c i) = mu_order_id u" using strip_eq_fields[OF c(4)[of i]] by simp
  then show ?thesis using c(1-3) big by (simp add: handle_add_def AddOrder_link new_order_def)
qed

text \<open>Market order identifiers are numbered per ticker without a bound, and the client's array
  has room for the first \<open>ME_MAX_ORDER_IDS\<close>: for a later one a MODIFY or CANCEL reads outside the
  array, and an ADD throws from a \<^verbatim>\<open>noexcept\<close> function after it has linked the order.\<close>

theorem oversized_identifier_crashes:
  assumes "client_ok b" and "mu_type u = MU_ADD \<or> mu_type u = MU_MODIFY \<or> mu_type u = MU_CANCEL"
    and "expected (u\<lparr>mu_order_id := k\<rparr>) (view b)" and "ME_MAX_ORDER_IDS \<le> unat (mu_order_id u)"
  shows "onMarketUpdate u b = Inl (if mu_type u = MU_ADD then OutOfRange else WildAccess)"
proof -
  obtain sh where rep: "client_rep b sh" using assms(1) by (auto simp: client_ok_def)
  note touch = touches_best_rep[OF client_repD(2)[OF rep]]
  have "change_book u b = Inl (if mu_type u = MU_ADD then OutOfRange else WildAccess)"
    using handle_add_oversized[OF rep _ assms(3,4)] assms(2,4)
    by (auto simp: change_book_def handle_modify_def handle_cancel_def order_of_def)
  then show ?thesis using assms(2) touch by (auto simp: onMarketUpdate_def)
qed

theorem oversized_identifier_crashes_witness:
  "onMarketUpdate (sample_add\<lparr>mu_order_id := 1048576\<rparr>) (new_MarketOrderBook (\<lambda>_. None) (\<lambda>_. None) 3) =
     Inl (if mu_type (sample_add\<lparr>mu_order_id := 1048576\<rparr>) = MU_ADD then OutOfRange else WildAccess)"
proof (rule oversized_identifier_crashes[OF new_client_ok, where k = 7])
  have "sample_add\<lparr>mu_order_id := 1048576, mu_order_id := 7\<rparr> = sample_add" by (simp add: sample_add_def)
  then show "expected (sample_add\<lparr>mu_order_id := 1048576, mu_order_id := 7\<rparr>) (view (new_MarketOrderBook (\<lambda>_. None) (\<lambda>_. None) 3))"
    using sample_expected by simp
qed (simp_all add: sample_add_def size_defs)

end
