(* ===== verification/Mirror.thy ===== *)
theory Mirror
  imports ExchangeBook ClientBook
begin

text \<open>
  The two order books together: \<^verbatim>\<open>src/client/market_order_book.cpp\<close> fed with the market
  updates of \<^verbatim>\<open>src/exchange/order_book.cpp\<close>. A client whose book shows the exchange's
  orders still does so after every cancel, and after every new order but one kind.
\<close>

section \<open>Showing the same orders\<close>

text \<open>What a client can know of an order of the exchange.\<close>

definition shown :: "MEOrder \<Rightarrow> MarketOrder" where
  "shown r = order.truncate r"

lemma shown_simps [simp]:
  "ord_id (shown r) = ord_id r" "ord_side (shown r) = ord_side r" "ord_price (shown r) = ord_price r"
  "ord_qty (shown r) = ord_qty r" "ord_priority (shown r) = ord_priority r"
  "shown (r\<lparr>ord_qty := k\<rparr>) = (shown r)\<lparr>ord_qty := k\<rparr>"
  by (simp_all add: shown_def order.defs)

definition mirrors :: "MEOrderBook \<Rightarrow> MarketOrderBook \<Rightarrow> bool" where
  "mirrors b c \<longleftrightarrow> list_all (\<lambda>s. map shown (resting s (core b)) = resting s (mcore c)) [BUY, SELL]"

lemma mirrorsD: "mirrors b c \<Longrightarrow> s \<in> sides \<Longrightarrow> resting s (mcore c) = map shown (resting s (core b))"
  by (auto simp: mirrors_def sides_def)

lemma mirrorsI: "(\<And>s. s \<in> sides \<Longrightarrow> resting s (mcore c) = map shown (resting s (core b))) \<Longrightarrow> mirrors b c"
  by (simp add: mirrors_def)

text \<open>A list of updates handled one after another.\<close>

definition follow :: "MEMarketUpdate list \<Rightarrow> MarketOrderBook \<Rightarrow> MarketOrderBook res" where
  "follow = res_fold (\<lambda>u c. res_bind (onMarketUpdate u c) (\<lambda>r. Inr (snd r)))"

lemma follow_Nil [simp]: "follow [] c = Inr c"
  by (simp add: follow_def)

lemma follow_append: "follow (us @ vs) c = res_bind (follow us c) (follow vs)"
  unfolding follow_def by (rule res_fold_append)

lemma follow_step:
  assumes "client_ok c" and "expected u (view c)"
  shows "\<exists>c'. (\<forall>us. follow (u # us) c = follow us c') \<and> client_ok c' \<and> view c' = spec_update u (view c)"
proof -
  obtain c' where "onMarketUpdate u c = Inr (spec_call u, c')" "client_ok c'" "view c' = spec_update u (view c)"
    using onMarketUpdate_ok[OF assms] by metis
  then show ?thesis by (intro exI[of _ c']) (simp add: follow_def)
qed

lemma resting_view: "resting s (mcore c) = cv_orders (view c) s"
  by simp

lemma client_ids_side:
  assumes "client_ok c" and "s \<in> sides"
  shows "distinct (map ord_id (resting s (mcore c)))"
    and "x \<in> set (resting s (mcore c)) \<Longrightarrow> y \<in> set (resting (opp s) (mcore c)) \<Longrightarrow> ord_id x \<noteq> ord_id y"
  using client_ids(1)[OF assms(1)] assms(2)
  by (auto simp: sides_def) (metis IntI empty_iff image_eqI)+

lemma level_count_shown [simp]: "level_count (map shown rs) = level_count rs"
  by (simp add: level_count_def comp_def)

lemma insert_order_shown: "map shown (insert_order s r rs) = insert_order s (shown r) (map shown rs)"
  by (simp add: insert_order_def takeWhile_map dropWhile_map comp_def goes_before_def)

section \<open>Fills\<close>

lemma spec_orders_away:
  "mu_type u = MU_MODIFY \<or> mu_type u = MU_CANCEL \<Longrightarrow> (\<And>x. x \<in> set (os t) \<Longrightarrow> ord_id x \<noteq> mu_order_id u) \<Longrightarrow>
   spec_orders u os t = os t"
  by (auto simp: spec_orders_def filter_id_conv intro!: map_idI)

lemma spec_orders_head:
  assumes "os t = x # xs" and "ord_id x = mu_order_id u" and "\<And>y. y \<in> set xs \<Longrightarrow> ord_id y \<noteq> mu_order_id u"
  shows "mu_type u = MU_MODIFY \<Longrightarrow> spec_orders u os t = x\<lparr>ord_qty := mu_qty u\<rparr> # xs"
    and "mu_type u = MU_CANCEL \<Longrightarrow> spec_orders u os t = xs"
  using assms by (auto simp: spec_orders_def filter_id_conv intro!: map_idI)

text \<open>The updates of a sweep take the client's opposite side to what the sweep leaves.\<close>

lemma fills_followed:
  assumes "sweep s p q rs = (fs, left, rest)" and "s \<in> sides" and "client_ok c"
    and "resting (opp s) (mcore c) = map shown rs"
  shows "\<exists>c'. follow (fill_updates t s fs) c = Inr c' \<and> client_ok c' \<and>
     resting (opp s) (mcore c') = map shown rest \<and> resting s (mcore c') = resting s (mcore c)"
  using assms(1,3,4)
proof (induction rs arbitrary: q fs left c)
  case Nil
  then show ?case by auto
next
  case (Cons r rs)
  let ?o = "opp s" and ?rest = "map shown rs"
  consider (stop) "q = 0 \<or> limit_excludes s p (ord_price r)"
    | (go) "q \<noteq> 0" "\<not> limit_excludes s p (ord_price r)" by blast
  then show ?case
  proof cases
    case stop
    then show ?thesis using Cons.prems by auto
  next
    case go
    define f where "f = min (ord_qty r) q"
    let ?t = "\<lparr>mu_type = MU_TRADE, mu_order_id = OrderId_INVALID, mu_ticker_id = t, mu_side = s,
      mu_price = ord_price r, mu_qty = f, mu_priority = Priority_INVALID\<rparr>"
    let ?u = "\<lparr>mu_type = (if ord_qty r - f = 0 then MU_CANCEL else MU_MODIFY), mu_order_id = ord_id r,
      mu_ticker_id = t, mu_side = ord_side r, mu_price = ord_price r, mu_qty = ord_qty r - f,
      mu_priority = ord_priority r\<rparr>"
    have "expected ?t (view c)" by (simp add: expected_def)
    from follow_step[OF Cons.prems(2) this] obtain c1 where c1: "\<And>us. follow (?t # us) c = follow us c1"
      "client_ok c1" "view c1 = view c" by (auto simp: spec_update_def)
    have res1: "resting q (mcore c1) = resting q (mcore c)" for q by (simp only: resting_view c1(3))
    have "unat (ord_id r) < ME_MAX_ORDER_IDS"
      using client_ids(2)[OF Cons.prems(2) opp_sides, of "shown r" s] Cons.prems(3) by simp
    then have "expected ?u (view c1)" by (simp add: expected_def)
    from follow_step[OF c1(2) this] obtain c2 where c2: "\<And>us. follow (?u # us) c1 = follow us c2"
      "client_ok c2" "view c2 = spec_update ?u (view c1)" by blast
    have res2: "resting q (mcore c2) = spec_orders ?u (\<lambda>s. resting s (mcore c)) q" for q
      using res1 by (simp only: resting_view c2(3)) (simp add: spec_update_def Let_def)
    have away: "ord_id x \<noteq> ord_id r" if "x \<in> set ?rest" for x
      using client_ids_side(1)[OF Cons.prems(2) opp_sides, of s] Cons.prems(3) that by (auto simp: image_iff)
    have away': "ord_id x \<noteq> ord_id r" if "x \<in> set (resting s (mcore c))" for x
      using client_ids_side(2)[OF Cons.prems(2) assms(2) that, of "shown r"] Cons.prems(3) by simp
    show ?thesis
    proof (cases "ord_qty r \<le> q")
      case True
      then obtain fs' where fs': "sweep s p (q - ord_qty r) rs = (fs', left, rest)" "fs = (r, ord_qty r) # fs'"
        using Cons.prems(1) go by (auto simp: Let_def split: prod.splits)
      have f: "f = ord_qty r" using True by (simp add: f_def min_def)
      have o2: "resting ?o (mcore c2) = ?rest"
        unfolding res2 using f Cons.prems(3) away by (intro spec_orders_head(2)[of _ _ "shown r"]) simp_all
      have s2: "resting s (mcore c2) = resting s (mcore c)"
        unfolding res2 using f away' by (intro spec_orders_away) simp_all
      from Cons.IH[OF fs'(1) c2(2) o2] obtain c' where "follow (fill_updates t s fs') c2 = Inr c'"
        "client_ok c'" "resting ?o (mcore c') = map shown rest" "resting s (mcore c') = resting s (mcore c2)" by blast
      then show ?thesis using c1(1) c2(1) f fs'(2) s2 by simp
    next
      case False
      then have fs': "fs = [(r, q)]" "rest = r\<lparr>ord_qty := ord_qty r - q\<rparr> # rs" using Cons.prems(1) go by auto
      have f: "f = q" "ord_qty r - q \<noteq> 0" using False by (auto simp: f_def min_def)
      have "resting ?o (mcore c2) = map shown rest"
        unfolding res2 using f fs'(2) Cons.prems(3) away by (subst spec_orders_head(1)[of _ _ "shown r"]) simp_all
      moreover have "resting s (mcore c2) = resting s (mcore c)"
        unfolding res2 using f away' by (intro spec_orders_away) simp_all
      ultimately show ?thesis using c1(1) c2(1,2) f fs'(1) by simp
    qed
  qed
qed

section \<open>A new order\<close>

text \<open>The ADD that ends the updates of a new order is one the client expects after the fills.\<close>

lemma add_expected:
  assumes ok: "me_ok b" and adm: "admissible c oid s p (abs_book b)"
    and id: "unat (next_order_id b) < ME_MAX_ORDER_IDS" and sw: "sweep s p q (resting (opp s) (core b)) = (fs, left, rest)"
    and left: "left \<noteq> 0" and k: "client_ok k" "resting (opp s) (mcore k) = map shown rest"
      "resting s (mcore k) = map shown (resting s (core b))"
    and u: "mu_type u = MU_ADD" "mu_order_id u = next_order_id b" "mu_side u = s" "mu_price u = p"
  shows "expected u (view k)"
proof -
  have s: "s \<in> sides" using adm by (auto simp: admissible_def sides_def)
  have wf: "order_wf t (next_order_id b) x" if "t \<in> sides" "x \<in> set (resting t (core b))" for t x
    using ok book_wf_side[OF _ that(1), of "abs_book b"] that(2)
    by (auto simp: me_ok_def side_wf_iff resting_abs)
  have adm': "ord_price x = p" if "t \<in> sides" "x \<in> set (resting t (core b))" "priceToIndex (ord_price x) = priceToIndex p" for t x
    using adm that by (auto simp: admissible_def list_all_iff resting_abs sides_def)
  have own: "ord_id x \<noteq> next_order_id b \<and> (priceToIndex (ord_price x) = priceToIndex p \<longrightarrow> ord_price x = p \<and> ord_side x = s)"
    if "x \<in> set (resting s (core b))" for x
    using wf[OF s that] adm'[OF s that] by (auto simp: order_wf_def)
  have opp: "ord_id x \<noteq> next_order_id b \<and> (priceToIndex (ord_price x) = priceToIndex p \<longrightarrow> ord_price x = p \<and> ord_side x = s)"
    if x: "x \<in> set rest" for x
  proof -
    obtain y j where y: "y \<in> set (resting (opp s) (core b))" "x = y\<lparr>ord_qty := j\<rparr>"
      using sweep_rest_member[OF sw x] by metis
    obtain sh where "me_rep b sh" using ok by (auto simp: me_ok_def)
    then have lr: "links_rep (core b) sh" by (simp add: me_rep_def pre_rep_links)
    have "limit_excludes s p (ord_price x)"
      by (rule sweep_uncrossed[OF sw s resting_sorted[OF lr opp_sides] left x])
    then have "ord_price x \<noteq> p" by (auto simp: limit_excludes_def split: if_splits)
    moreover have "priceToIndex (ord_price x) \<noteq> priceToIndex p" using adm'[OF opp_sides y(1)] y(2) \<open>ord_price x \<noteq> p\<close> by auto
    ultimately show ?thesis using wf[OF opp_sides y(1)] y(2) by (auto simp: order_wf_def)
  qed
  have len: "length (resting s (core b)) + length rest + 2 \<le> ME_MAX_ORDER_IDS"
    "level_count (resting s (core b)) + level_count rest + 2 \<le> ME_MAX_PRICE_LEVELS"
    using adm sweep_level_count[OF sw] s by (auto simp: admissible_def room_def resting_abs sides_def)
  show ?thesis
    using s u id own opp len k(2,3)
    by (elim sidesE) (auto simp: expected_def list_all_iff)
qed

lemma insert_order_inject:
  assumes "insert_order s r rs = insert_order s r' rs" and "ord_price r = ord_price r'"
  shows "r = r'"
proof -
  have "goes_before s x r = goes_before s x r'" for x by (simp add: goes_before_def assms(2))
  then show ?thesis using assms(1) by (simp add: insert_order_def)
qed

lemma add_mirrored:
  assumes ok: "me_ok b" and adm: "admissible c oid s p (abs_book b)" and nid: "next_order_id b + 1 \<noteq> 0"
    and id: "unat (next_order_id b) < ME_MAX_ORDER_IDS" and k: "client_ok k" "mirrors b k"
    and sw: "sweep s p q (resting (opp s) (core b)) = (fs, left, rest)"
  shows "\<exists>b' us k'. add c oid s p q b = Inr b' \<and> sent_updates b' = sent_updates b @ us \<and>
     follow us k = Inr k' \<and> client_ok k' \<and> (mirrors b' k' \<longleftrightarrow> left = q \<or> left = 0)"
proof -
  obtain b' where b': "add c oid s p q b = Inr b'" "abs_book b' = spec_add c oid s p q (abs_book b)"
    using add_ok[OF ok adm nid] by metis
  have s: "s \<in> sides" using adm by (auto simp: admissible_def sides_def)
  have sw': "sweep s p q (ab_orders (abs_book b) (opp s)) = (fs, left, rest)" using sw by (simp add: resting_abs)
  let ?r = "spec_order (abs_book b) c oid s p left"
  let ?a = "\<lparr>mu_type = MU_ADD, mu_order_id = next_order_id b, mu_ticker_id = ticker b, mu_side = s,
     mu_price = p, mu_qty = q, mu_priority = next_priority p (resting s (core b))\<rparr>"
  let ?us = "fill_updates (ticker b) s fs @ (if left > 0 then [?a] else [])"
  have us: "sent_updates b' = sent_updates b @ ?us"
    using arg_cong[OF b'(2), of ab_updates] spec_add_fields(4)[OF sw'] by (simp add: abs_book_def)
  have ord: "(\<lambda>t. resting t (core b')) = (\<lambda>t. resting t (core b))(opp s := rest,
      s := if left > 0 then insert_order s ?r (resting s (core b)) else resting s (core b))"
    using arg_cong[OF b'(2), of ab_orders] spec_add_fields(3)[OF sw'] by (simp add: abs_book_def)
  have own: "resting s (core b') = (if left > 0 then insert_order s ?r (resting s (core b)) else resting s (core b))"
    and opp: "resting (opp s) (core b') = rest"
    using fun_cong[OF ord, of s] fun_cong[OF ord, of "opp s"] opp_neq[OF s] by simp_all
  obtain k1 where k1: "follow (fill_updates (ticker b) s fs) k = Inr k1" "client_ok k1"
    "resting (opp s) (mcore k1) = map shown rest" "resting s (mcore k1) = map shown (resting s (core b))"
    using fills_followed[OF sw s k(1) mirrorsD[OF k(2) opp_sides]] mirrorsD[OF k(2) s] by metis
  have both: "mirrors b' k' \<longleftrightarrow> resting s (mcore k') = map shown (resting s (core b')) \<and>
      resting (opp s) (mcore k') = map shown (resting (opp s) (core b'))" for k'
    using s by (auto simp: mirrors_def sides_def)
  show ?thesis
  proof (cases "left = 0")
    case True
    then have "mirrors b' k1" using k1 own opp by (simp add: both)
    then show ?thesis using b'(1) us k1 True by (intro exI[of _ b'] exI[of _ ?us] exI[of _ k1]) simp
  next
    case False
    have "expected ?a (view k1)" by (rule add_expected[OF ok adm id sw False k1(2-4)]) simp_all
    from follow_step[OF k1(2) this] obtain k2 where k2: "\<And>us. follow (?a # us) k1 = follow us k2" "client_ok k2"
      "view k2 = spec_update ?a (view k1)" by blast
    have res: "resting t (mcore k2) = spec_orders ?a (\<lambda>s. resting s (mcore k1)) t" for t
      by (simp only: resting_view k2(3)) (simp add: spec_update_def Let_def)
    have "resting (opp s) (mcore k2) = map shown rest"
      using res[of "opp s"] k1(3) opp_neq[OF s] by (simp add: spec_orders_def)
    moreover have "resting s (mcore k2) = insert_order s (new_order ?a) (map shown (resting s (core b)))"
      using res[of s] k1(4) by (simp add: spec_orders_def)
    moreover have pr: "ord_price (new_order ?a) = ord_price (shown ?r)" by (simp add: spec_order_def)
    moreover have "new_order ?a = shown ?r \<longleftrightarrow> left = q"
      by (auto simp: new_order_def spec_order_def shown_def order.defs resting_abs)
    ultimately have "mirrors b' k2 \<longleftrightarrow> left = q"
      using False own opp insert_order_inject[OF _ pr] unfolding both
      by (auto simp: insert_order_shown word_gt_0)
    then show ?thesis using b'(1) us k1(1) k2(1)[of "[]"] k2(2) False
      by (intro exI[of _ b'] exI[of _ ?us] exI[of _ k2]) (simp add: follow_append word_gt_0)
  qed
qed

text \<open>C14: a client whose book shows the exchange's orders handles all the updates of a new order,
  and shows the exchange's orders again, fills and reduced quantities included, exactly unless
  the order traded in part and the remainder rests: then its book and the exchange's differ.\<close>

theorem client_mirrors_new_order:
  assumes "me_ok b" and "admissible c oid s p (abs_book b)" and "next_order_id b + 1 \<noteq> 0"
    and "unat (next_order_id b) < ME_MAX_ORDER_IDS" and "client_ok k" and "mirrors b k"
    and "sweep s p q (resting (opp s) (core b)) = (fs, left, rest)"
  shows "\<exists>b' us k'. add c oid s p q b = Inr b' \<and> sent_updates b' = sent_updates b @ us \<and>
     follow us k = Inr k' \<and> client_ok k' \<and> (mirrors b' k' \<longleftrightarrow> left = q \<or> left = 0)"
  using add_mirrored[OF assms] .

lemma new_mirrors: "mirrors (new_MEOrderBook t) (new_MarketOrderBook (\<lambda>_. None) (\<lambda>_. None) t)"
  by (rule mirrorsI) (simp add: resting_abs[symmetric] abs_new)

theorem client_mirrors_new_order_witness:
  "\<exists>b' us k'. add 1 5 BUY 100 10 (new_MEOrderBook 3) = Inr b' \<and>
     sent_updates b' = sent_updates (new_MEOrderBook 3) @ us \<and>
     follow us (new_MarketOrderBook (\<lambda>_. None) (\<lambda>_. None) 3) = Inr k' \<and> client_ok k' \<and>
     (mirrors b' k' \<longleftrightarrow> (10 :: Qty) = 10 \<or> (10 :: Qty) = 0)"
proof (rule client_mirrors_new_order[OF new_ok admissible_new _ _ new_client_ok new_mirrors])
  show "sweep BUY 100 10 (resting (opp BUY) (core (new_MEOrderBook 3))) = ([], 10, [])"
    by (simp add: resting_abs[symmetric] abs_new)
qed (simp_all add: in_index_def size_defs new_MEOrderBook_def)

section \<open>A cancel\<close>

lemma find_SomeD: "find P xs = Some x \<Longrightarrow> x \<in> set xs" "find P xs = Some x \<Longrightarrow> P x"
  by (induction xs) (auto split: if_splits)

lemma owned_unique:
  assumes ok: "me_ok b" and "x \<in> set (resting BUY (core b) @ resting SELL (core b))" and "owned_by c oid x"
    and "y \<in> set (resting BUY (core b) @ resting SELL (core b))" and "owned_by c oid y"
  shows "x = y"
proof -
  obtain sh where rep: "me_rep b sh" using ok by (auto simp: me_ok_def)
  then have pre: "pre_rep b sh" by (simp add: me_rep_def)
  have ix: "index_rep (cid_oid_to_order b) (ob (core b)) (set (all_orders sh))" using pre by (simp add: pre_rep_def)
  have all: "resting BUY (core b) @ resting SELL (core b) = map (\<lambda>i. strip (ob (core b) i)) (all_orders sh)"
    using abs_orders_all[OF pre] by (simp add: resting_abs)
  obtain i j where ij: "i \<in> set (all_orders sh)" "j \<in> set (all_orders sh)" "x = strip (ob (core b) i)" "y = strip (ob (core b) j)"
    using assms(2,4) unfolding all by auto
  then have "j = i" using assms(3,5) by (intro index_rep_unique[OF ix]) (simp_all add: owned_by_def)
  then show ?thesis using ij by simp
qed

lemma cancel_mirrored:
  assumes "me_ok b" and "client_ok k" and "mirrors b k"
  shows "\<exists>b' us k'. cancel c oid b = Inr b' \<and> sent_updates b' = sent_updates b @ us \<and>
     follow us k = Inr k' \<and> client_ok k' \<and> mirrors b' k'"
proof -
  obtain b' where b': "cancel c oid b = Inr b'" "abs_book b' = spec_cancel c oid (abs_book b)"
    using cancel_ok[OF assms(1)] by metis
  let ?all = "resting BUY (core b) @ resting SELL (core b)"
  show ?thesis
  proof (cases "find (owned_by c oid) ?all")
    case None
    then have "abs_book b' = (abs_book b)\<lparr>ab_responses := ab_responses (abs_book b')\<rparr>"
      by (simp add: b'(2) spec_cancel_def find_owned_def resting_abs)
    then have "ab_updates (abs_book b') = ab_updates (abs_book b)" "ab_orders (abs_book b') = ab_orders (abs_book b)"
      by (metis abook.select_convs abook.surjective abook.update_convs(4))+
    then have "sent_updates b' = sent_updates b" "\<And>t. resting t (core b') = resting t (core b)"
      by (simp_all add: abs_book_def fun_eq_iff)
    then show ?thesis using b'(1) assms(2,3)
      by (intro exI[of _ b'] exI[of _ "[]"] exI[of _ k]) (simp add: mirrors_def)
  next
    case (Some r)
    then have r: "r \<in> set ?all" "owned_by c oid r" using find_SomeD by metis+
    let ?u = "\<lparr>mu_type = MU_CANCEL, mu_order_id = ord_id r, mu_ticker_id = ticker b, mu_side = ord_side r,
        mu_price = ord_price r, mu_qty = ord_qty r, mu_priority = ord_priority r\<rparr>"
    have found: "find_owned c oid (abs_book b) = Some r" using Some by (simp add: find_owned_def resting_abs)
    have us: "sent_updates b' = sent_updates b @ [?u]"
      using arg_cong[OF b'(2), of ab_updates] found by (simp add: spec_cancel_def)
    have ord: "resting t (core b') = filter (\<lambda>x. \<not> owned_by c oid x) (resting t (core b))" for t
      using arg_cong[OF b'(2), of "\<lambda>a. ab_orders a t"] found by (simp add: spec_cancel_def resting_abs)
    obtain q where q: "q \<in> sides" "r \<in> set (resting q (core b))" using r(1) sides_simps by (metis Un_iff set_append)
    have kr: "resting t (mcore k) = map shown (resting t (core b))" if "t \<in> sides" for t
      using mirrorsD[OF assms(3) that] .
    have "unat (ord_id r) < ME_MAX_ORDER_IDS"
      using client_ids(2)[OF assms(2) q(1), of "shown r"] q(2) kr[OF q(1)] by simp
    then have "expected ?u (view k)" by (simp add: expected_def)
    from follow_step[OF assms(2) this] obtain k' where k': "\<And>us. follow (?u # us) k = follow us k'" "client_ok k'"
      "view k' = spec_update ?u (view k)" by blast
    have same: "owned_by c oid x \<longleftrightarrow> ord_id x = ord_id r" if x: "x \<in> set ?all" for x
    proof
      have "map ord_id (resting BUY (mcore k) @ resting SELL (mcore k)) = map ord_id ?all"
        by (simp add: kr comp_def)
      then have "distinct (map ord_id ?all)" using client_ids(1)[OF assms(2)] by simp
      then show "owned_by c oid x" if "ord_id x = ord_id r"
        using r x that unfolding distinct_map by (metis inj_onD)
      show "ord_id x = ord_id r" if "owned_by c oid x" using owned_unique[OF assms(1) x that r] by simp
    qed
    have "resting t (mcore k') = map shown (resting t (core b'))" if t: "t \<in> sides" for t
    proof -
      have "resting t (mcore k') = filter (\<lambda>x. ord_id x \<noteq> ord_id r) (map shown (resting t (core b)))"
        unfolding kr[OF t, symmetric] by (simp only: resting_view k'(3)) (simp add: spec_update_def spec_orders_def Let_def)
      also have "\<dots> = map shown (filter (\<lambda>x. ord_id x \<noteq> ord_id r) (resting t (core b)))"
        by (simp add: filter_map comp_def)
      also have "filter (\<lambda>x. ord_id x \<noteq> ord_id r) (resting t (core b)) = resting t (core b')"
        unfolding ord using same t by (intro filter_cong) (auto simp: sides_def)
      finally show ?thesis .
    qed
    then show ?thesis using b'(1) us k'(1)[of "[]"] k'(2)
      by (intro exI[of _ b'] exI[of _ "[?u]"] exI[of _ k']) (simp add: mirrorsI)
  qed
qed

text \<open>A cancel is mirrored too: whatever the exchange publishes for it, a client whose book
  showed the exchange's orders shows them again.\<close>

theorem client_mirrors_cancel:
  assumes "me_ok b" and "client_ok k" and "mirrors b k"
  shows "\<exists>b' us k'. cancel c oid b = Inr b' \<and> sent_updates b' = sent_updates b @ us \<and>
     follow us k = Inr k' \<and> client_ok k' \<and> mirrors b' k'"
  using cancel_mirrored[OF assms] .

theorem client_mirrors_cancel_witness:
  "\<exists>b k b' us k'. resting BUY (core b) \<noteq> [] \<and> mirrors b k \<and>
     cancel 1 5 b = Inr b' \<and> sent_updates b' = sent_updates b @ us \<and>
     follow us k = Inr k' \<and> client_ok k' \<and> mirrors b' k'"
proof -
  have adm: "admissible 1 5 BUY 100 (abs_book (new_MEOrderBook 3))"
    by (rule admissible_new) (simp_all add: in_index_def size_defs)
  have id: "next_order_id (new_MEOrderBook 3) + 1 \<noteq> 0" "unat (next_order_id (new_MEOrderBook 3)) < ME_MAX_ORDER_IDS"
    by (simp_all add: new_MEOrderBook_def size_defs)
  have sw: "sweep BUY 100 10 (resting (opp BUY) (core (new_MEOrderBook 3))) = ([], 10, [])"
    by (simp add: resting_abs[symmetric] abs_new)
  obtain b where b: "add 1 5 BUY 100 10 (new_MEOrderBook 3) = Inr b" "me_ok b"
    "abs_book b = spec_add 1 5 BUY 100 10 (abs_book (new_MEOrderBook 3))"
    using add_ok[OF new_ok adm id(1)] by metis
  obtain k where k: "client_ok k" "mirrors b k"
    using add_mirrored[OF new_ok adm id new_client_ok new_mirrors sw] b(1) by auto
  have "resting BUY (core b) = ab_orders (spec_add 1 5 BUY 100 10 (abs_book (new_MEOrderBook 3))) BUY"
    by (simp only: b(3)[symmetric] resting_abs)
  then have "resting BUY (core b) \<noteq> []" by (simp add: spec_add_def abs_new insert_order_def Let_def)
  then show ?thesis using client_mirrors_cancel[OF b(2) k, of 1 5] k(2) by blast
qed

end
