(* ===== verification/PriceTime.thy ===== *)
theory PriceTime
  imports ExchangeBook "HOL-Library.Multiset"
begin

text \<open>
  Price-time priority of \<^verbatim>\<open>src/exchange/order_book.cpp\<close> as a linear order: an order's
  \<open>rank\<close> is its price, counted from the best end of its side, and then its identifier. The
  library's sorting functions are the reference: a side of the book is the sorted list of its
  orders, and adding an order is the insertion step of insertion sort.
\<close>

section \<open>Ranks\<close>

datatype rank = Rank (rank_price: int) (rank_id: int)

instantiation rank :: linorder
begin

definition less_eq_rank :: "rank \<Rightarrow> rank \<Rightarrow> bool" where
  "less_eq_rank x y \<longleftrightarrow> rank_price x < rank_price y \<or> rank_price x = rank_price y \<and> rank_id x \<le> rank_id y"

definition less_rank :: "rank \<Rightarrow> rank \<Rightarrow> bool" where
  "less_rank x y \<longleftrightarrow> rank_price x < rank_price y \<or> rank_price x = rank_price y \<and> rank_id x < rank_id y"

instance
  by standard (auto simp: less_eq_rank_def less_rank_def intro: rank.expand)

end

definition rank_of :: "Side \<Rightarrow> MEOrder \<Rightarrow> rank" where
  "rank_of s x = Rank (if s = BUY then - uint (ord_price x) else uint (ord_price x)) (uint (ord_id x))"

lemma rank_of_less:
  "s \<in> sides \<Longrightarrow> rank_of s x < rank_of s y \<longleftrightarrow>
    better s (ord_price x) (ord_price y) \<or> ord_price x = ord_price y \<and> ord_id x < ord_id y"
  by (auto simp: sides_def rank_of_def less_rank_def better_def word_less_def word_uint_eq_iff)

lemma ahead_rank: "s \<in> sides \<Longrightarrow> ahead s x y \<Longrightarrow> rank_of s x < rank_of s y"
  by (auto simp: rank_of_less ahead_def)

section \<open>Sides are sorted\<close>

lemma sorted_ranks:
  assumes "s \<in> sides" and "sorted_wrt (ahead s) rs"
  shows "sorted (map (rank_of s) rs)" and "distinct (map (rank_of s) rs)"
proof -
  have "sorted_wrt (<) (map (rank_of s) rs)" unfolding sorted_wrt_map
    by (rule sorted_wrt_mono_rel[OF _ assms(2)]) (simp add: ahead_rank assms(1))
  then show "sorted (map (rank_of s) rs)" "distinct (map (rank_of s) rs)"
    by (simp_all add: strict_sorted_iff)
qed

text \<open>A list sorted by distinct ranks is what sorting any arrangement of it gives.\<close>

lemma sort_key_unique:
  assumes "sorted (map f rs)" and "distinct (map f rs)" and "mset xs = mset rs"
  shows "sort_key f xs = rs"
proof -
  have "set xs = set rs" by (rule mset_eq_setD[OF assms(3)])
  then have same: "set (sort_key f xs) = set rs" by simp
  have "mset (map f (sort_key f xs)) = mset (map f rs)" using assms(3) by simp
  then have "distinct (map f (sort_key f xs))" using assms(2) mset_eq_imp_distinct_iff by blast
  then have "map f (sort_key f xs) = map f rs"
    by (intro sorted_distinct_set_unique) (use assms(1,2) same in simp_all)
  moreover have "inj_on f (set (sort_key f xs) \<union> set rs)" using assms(2) unfolding same by (simp add: distinct_map)
  ultimately show ?thesis by (rule map_inj_on)
qed

lemma insert_order_insort:
  assumes s: "s \<in> sides" and srt: "sorted_wrt (ahead s) rs" and newest: "\<And>x. x \<in> set rs \<Longrightarrow> ord_id x < ord_id r"
  shows "insort_key (rank_of s) r rs = insert_order s r rs"
  using srt newest
proof (induction rs)
  case (Cons x rs)
  have "rank_of s r \<le> rank_of s x \<longleftrightarrow> \<not> goes_before s x r"
    unfolding linorder_not_less[symmetric] using Cons.prems(2)[of x]
    by (auto simp: rank_of_less[OF s] goes_before_def)
  then show ?case using Cons by (auto simp: insert_order_def)
qed (simp add: insert_order_def)

section \<open>Adding is insertion\<close>

text \<open>C21: adding an order leaves the side it is for as insertion into the sorted list would: what
  matching does not use up is inserted by price and time, and the pointer structure after
  \<open>add\<close> is the sorted arrangement of its orders.\<close>

theorem add_is_sorted_insertion:
  assumes "me_ok b" and "admissible c oid s p (abs_book b)" and "next_order_id b + 1 \<noteq> 0"
  shows "\<exists>b' left. add c oid s p q b = Inr b' \<and>
     resting s (core b') = (if left = 0 then resting s (core b)
       else insort_key (rank_of s) (spec_order (abs_book b) c oid s p left) (resting s (core b))) \<and>
     (\<forall>xs. mset xs = mset (resting s (core b')) \<longrightarrow> sort_key (rank_of s) xs = resting s (core b'))"
proof -
  have s: "s \<in> sides" using assms(2) by (auto simp: admissible_def sides_def)
  obtain b' where b': "add c oid s p q b = Inr b'" "me_ok b'" "abs_book b' = spec_add c oid s p q (abs_book b)"
    using add_ok[OF assms] by metis
  obtain fs left rest where sw: "sweep s p q (ab_orders (abs_book b) (opp s)) = (fs, left, rest)"
    by (metis prod_cases3)
  have wf: "side_wf s (next_order_id b) (resting s (core b))" "side_wf s (next_order_id b') (resting s (core b'))"
    using assms(1) b'(2) book_wf_side[OF _ s] by (fastforce simp: me_ok_def resting_abs)+
  let ?r = "spec_order (abs_book b) c oid s p left"
  have "resting s (core b') = (if left = 0 then resting s (core b) else insert_order s ?r (resting s (core b)))"
    using arg_cong[OF b'(3), of "\<lambda>a. ab_orders a s"] spec_add_fields(3)[OF sw] by (simp add: resting_abs word_gt_0)
  moreover have "insort_key (rank_of s) ?r (resting s (core b)) = insert_order s ?r (resting s (core b))"
    by (rule insert_order_insort[OF s]) (use wf(1) in \<open>auto simp: side_wf_iff order_wf_def spec_order_def\<close>)
  moreover have "sort_key (rank_of s) xs = resting s (core b')" if "mset xs = mset (resting s (core b'))" for xs
    using sort_key_unique[OF sorted_ranks[OF s] that] wf(2) by (simp add: side_wf_iff)
  ultimately show ?thesis using b'(1) by (intro exI[of _ b'] exI[of _ left]) simp
qed

theorem add_is_sorted_insertion_witness:
  "\<exists>b' left. add 1 5 BUY 100 10 (new_MEOrderBook 3) = Inr b' \<and>
     resting BUY (core b') = (if left = 0 then resting BUY (core (new_MEOrderBook 3))
       else insort_key (rank_of BUY) (spec_order (abs_book (new_MEOrderBook 3)) 1 5 BUY 100 left)
         (resting BUY (core (new_MEOrderBook 3)))) \<and>
     (\<forall>xs. mset xs = mset (resting BUY (core b')) \<longrightarrow> sort_key (rank_of BUY) xs = resting BUY (core b'))"
  by (rule add_is_sorted_insertion[OF new_ok admissible_new])
    (simp_all add: in_index_def size_defs new_MEOrderBook_def)

end
