(* ===== verification/BookPrinting.thy ===== *)
theory BookPrinting
  imports ClientBook
begin

text \<open>
  \<^verbatim>\<open>MarketOrderBook::toString\<close> of \<^verbatim>\<open>src/client/market_order_book.cpp\<close>, which the
  destructor calls with its validity check: the printed text, and the assertion that the prices
  of each side are sorted.
\<close>

section \<open>Walking a ring\<close>

text \<open>A loop over the cells from \<open>first\<close> on, until the next would be \<open>first\<close> again.\<close>

primrec ring_loop ::
  "nat \<Rightarrow> ('a \<Rightarrow> ptr) \<Rightarrow> 'a MemPool \<Rightarrow> ptr \<Rightarrow> ('a \<Rightarrow> 's \<Rightarrow> 's res) \<Rightarrow> ptr \<Rightarrow> 's \<Rightarrow> 's res" where
  "ring_loop 0 nx P first body cur s = Inl Diverged"
| "ring_loop (Suc n) nx P first body cur s =
    res_bind (load P cur) (\<lambda>x.
    res_bind (body x s) (\<lambda>s.
    if nx x = first then Inr s else ring_loop n nx P first body (nx x) s))"

lemma ring_loop_suffix:
  assumes r: "ring (\<lambda>i. nx (object P i)) pv (h # xs)" and "h # xs = as @ x # bs" and "length bs < n"
    and bd: "\<And>i. i \<in> set (h # xs) \<Longrightarrow> i < num_cells P"
  shows "ring_loop n nx P (Some h) body (Some x) s = res_fold (\<lambda>i. body (object P i)) (x # bs) s"
  using assms(2,3)
proof (induction bs arbitrary: as x n s)
  case Nil
  then obtain m where "n = Suc m" by (cases n) auto
  moreover have "nx (object P x) = Some h"
    using ring_links(1)[of _ pv as x "[]"] r Nil.prems(1) by (cases as) auto
  ultimately show ?case using bd[of x] Nil.prems(1) by (cases "body (object P x) s") simp_all
next
  case (Cons y bs)
  then obtain m where m: "n = Suc m" by (cases n) auto
  have nx: "nx (object P x) = Some y" using ring_links(1)[of _ pv as x "y # bs"] r Cons.prems(1) by fastforce
  have "distinct (as @ x # y # bs)" using ring_distinct[OF r] Cons.prems(1) by simp
  then have "y \<noteq> h" using Cons.prems(1) by (cases as) auto
  moreover have "x < num_cells P" using bd[of x] Cons.prems(1) by simp
  moreover have "ring_loop m nx P (Some h) body (Some y) s' = res_fold (\<lambda>i. body (object P i)) (y # bs) s'" for s'
    using Cons.IH[of "as @ [x]" y m] Cons.prems m by simp
  ultimately show ?case using m nx by (cases "body (object P x) s") simp_all
qed

text \<open>With more steps than the pool has cells the loop is a fold over the ring.\<close>

lemma ring_loop_ring:
  assumes "ring (\<lambda>i. nx (object P i)) pv xs" and "\<And>i. i \<in> set xs \<Longrightarrow> i < num_cells P"
  shows "ring_loop (num_cells P + 1) nx P (Some (hd xs)) body (Some (hd xs)) s = res_fold (\<lambda>i. body (object P i)) xs s"
proof -
  obtain h ys where xs: "xs = h # ys" using ring_nonempty[OF assms(1)] by (cases xs) auto
  have "length xs \<le> num_cells P" by (rule distinct_length_le_bound[OF ring_distinct[OF assms(1)] assms(2)])
  then show ?thesis using ring_loop_suffix[of nx P pv h ys "[]" h ys "num_cells P + 1"] assms xs
    by (simp del: ring_loop.simps res_fold.simps)
qed

section \<open>The printed text\<close>

text \<open>\<^verbatim>\<open>%3s\<close> and \<^verbatim>\<open>%-3s\<close> of \<^verbatim>\<open>sprintf\<close>.\<close>

definition pad_left :: "nat \<Rightarrow> string \<Rightarrow> string" where
  "pad_left n s = replicate (n - length s) (CHR '' '') @ s"

definition pad_right :: "nat \<Rightarrow> string \<Rightarrow> string" where
  "pad_right n s = s @ replicate (n - length s) (CHR '' '')"

definition newline :: string where
  "newline = [char_of (10 :: nat)]"

definition id_behind :: "'x order_scheme MemPool \<Rightarrow> ptr \<Rightarrow> OrderId res" where
  "id_behind Q p = (case p of None \<Rightarrow> Inr OrderId_INVALID | Some i \<Rightarrow> res_bind (load Q p) (\<lambda>x. Inr (ord_id x)))"

definition order_text :: "bool \<Rightarrow> 'x order_scheme MemPool \<Rightarrow> 'x order_scheme \<Rightarrow> string res" where
  "order_text detailed Q x =
    (if detailed then
       res_bind (id_behind Q (ord_prev x)) (\<lambda>p.
       res_bind (id_behind Q (ord_next x)) (\<lambda>n.
       Inr (''[oid:'' @ orderIdToString (ord_id x) @ '' q:'' @ qtyToString (ord_qty x) @
            '' p:'' @ orderIdToString p @ '' n:'' @ orderIdToString n @ ''] '')))
     else Inr '''')"

text \<open>The lambda \<^verbatim>\<open>printer\<close>: the text of one level and the price to compare the next with.\<close>

definition printer :: "bool \<Rightarrow> bool \<Rightarrow> Side \<Rightarrow> 'x book \<Rightarrow> OrdersAtPrice \<Rightarrow> Price \<Rightarrow> (string \<times> Price) res" where
  "printer detailed sanity_check side c itr last_price =
    (let Q = orders_pool c; first = lvl_head itr in
     res_bind (ring_loop (num_cells Q + 1) ord_next Q first (\<lambda>x (qty, k). Inr (qty + ord_qty x, k + 1)) first (0, 0))
       (\<lambda>(qty, num_orders :: nat).
     res_bind (load (levels_pool c) (lvl_prev itr)) (\<lambda>P.
     res_bind (load (levels_pool c) (lvl_next itr)) (\<lambda>N.
     res_bind (ring_loop (num_cells Q + 1) ord_next Q first
         (\<lambda>x ss. res_bind (order_text detailed Q x) (\<lambda>t. Inr (ss @ t))) first
         ('' <px:'' @ pad_left 3 (priceToString (lvl_price itr)) @ '' p:'' @ pad_left 3 (priceToString (lvl_price P)) @
          '' n:'' @ pad_left 3 (priceToString (lvl_price N)) @ ''> '' @ pad_right 3 (priceToString (lvl_price itr)) @
          '' @ '' @ pad_right 5 (qtyToString qty) @ ''('' @ pad_right 4 (to_string num_orders) @ '')'')) (\<lambda>ss.
     if sanity_check then
       res_bind (ensure (\<not> (side = SELL \<and> last_price \<ge> lvl_price itr \<or> side = BUY \<and> last_price \<le> lvl_price itr))
                   FatalExit) (\<lambda>_. Inr (ss @ newline, lvl_price itr))
     else Inr (ss @ newline, last_price))))))"

definition print_next ::
  "bool \<Rightarrow> bool \<Rightarrow> Side \<Rightarrow> string \<Rightarrow> 'x book \<Rightarrow> OrdersAtPrice \<Rightarrow> nat \<times> Price \<times> string \<Rightarrow> (nat \<times> Price \<times> string) res" where
  "print_next detailed check side title c itr st =
    (case st of (count, last_price, ss) \<Rightarrow>
       res_bind (printer detailed check side c itr last_price) (\<lambda>(t, last_price).
       Inr (count + 1, last_price, ss @ title @ to_string count @ '' => '' @ t)))"

definition print_side :: "bool \<Rightarrow> bool \<Rightarrow> Side \<Rightarrow> string \<Rightarrow> Price \<Rightarrow> ptr \<Rightarrow> 'x book \<Rightarrow> string res" where
  "print_side detailed check side title last_price head c =
    (case head of None \<Rightarrow> Inr ''''
     | Some h \<Rightarrow>
         res_bind (ring_loop (num_cells (levels_pool c) + 1) lvl_next (levels_pool c) head
           (print_next detailed check side title c) head (0, last_price, ''''))
         (\<lambda>(_, _, ss). Inr ss))"

definition MarketOrderBook_toString :: "bool \<Rightarrow> bool \<Rightarrow> MarketOrderBook \<Rightarrow> string res" where
  "MarketOrderBook_toString detailed validity_check b =
    (let c = mcore b in
     res_bind (print_side detailed validity_check SELL ''ASKS L:'' 0 (asks_by_price c) c) (\<lambda>asks.
     res_bind (print_side detailed validity_check BUY ''BIDS L:'' (- 1) (bids_by_price c) c) (\<lambda>bids.
     Inr (''Ticker:'' @ tickerIdToString (book_ticker b) @ newline @ asks @
          newline @ ''                          X'' @ newline @ newline @ bids))))"

section \<open>Printing a represented book\<close>

lemma res_fold_total:
  assumes "\<And>x s. x \<in> set xs \<Longrightarrow> \<exists>s'. f x s = Inr s'"
  shows "\<exists>s'. res_fold f xs s = Inr s'"
  using assms
proof (induction xs arbitrary: s)
  case (Cons x xs)
  obtain s1 where "f x s = Inr s1" using Cons.prems[of x s] by auto
  then show ?case using Cons.IH[of s1] Cons.prems by auto
qed simp

lemma order_text_rep:
  assumes rep: "links_rep c sh" and s: "s \<in> sides" and x: "x \<in> set (sh s)" and i: "i \<in> set (snd x)"
  shows "\<exists>t. order_text detailed (orders_pool c) (ob c i) = Inr t"
proof -
  have r: "ring (nxO c) (pvO c) (snd x)" using links_level[OF rep s x] by (simp add: level_rep_def)
  obtain as bs where sp: "snd x = as @ i # bs" using i by (meson split_list)
  have bound: "j < num_cells (orders_pool c)" if "j \<in> set (snd x)" for j
    using links_order_bound[OF rep, of j] cells_of_mem[OF x that] by (simp add: set_all_orders[OF s])
  have "hd (bs @ as @ [i]) \<in> set (snd x)" "last (i # bs @ as) \<in> set (snd x)"
    using sp by (auto simp: hd_append intro: hd_in_set) (metis Un_iff insert_iff last_in_set list.set(2) set_append list.distinct(1) last_ConsR last_append)+
  then have "hd (bs @ as @ [i]) < num_cells (orders_pool c)" "last (i # bs @ as) < num_cells (orders_pool c)"
    using bound by blast+
  then show ?thesis using ring_links[of "nxO c" "pvO c" as i bs] r sp by (simp add: order_text_def id_behind_def)
qed

text \<open>\<open>printer\<close> on a level: only its check can fail.\<close>

lemma printer_rep:
  assumes rep: "links_rep c sh" and s: "s \<in> sides" and x: "(l, os) \<in> set (sh s)"
  shows "\<exists>t. printer detailed check s c (lv c l) last_price =
     (if check \<and> \<not> better s last_price (lvl_price (lv c l)) then Inl FatalExit
      else Inr (t, if check then lvl_price (lv c l) else last_price))"
proof -
  let ?Q = "orders_pool c" and ?P = "levels_pool c" and ?L = "lv c l"
  have lr: "level_rep c s (l, os)" by (rule links_level[OF rep s x])
  then have r: "ring (nxO c) (pvO c) os" and head: "lvl_head ?L = Some (hd os)" by (simp_all add: level_rep_def)
  have ob: "i < num_cells ?Q" if "i \<in> set os" for i
    using links_order_bound[OF rep, of i] cells_of_mem[OF x, of i] that by (simp add: set_all_orders[OF s])
  have walk: "ring_loop (num_cells ?Q + 1) ord_next ?Q (Some (hd os)) body (Some (hd os)) st =
      res_fold (\<lambda>i. body (ob c i)) os st" for body and st :: "'b"
    by (rule ring_loop_ring[OF r]) (rule ob)
  have "\<exists>z. ring_loop (num_cells ?Q + 1) ord_next ?Q (lvl_head ?L) (\<lambda>x (qty, k). Inr (qty + ord_qty x, k + 1))
      (lvl_head ?L) (0, 0 :: nat) = Inr z"
    unfolding head walk by (rule res_fold_total) (auto split: prod.split)
  then obtain q k where q: "ring_loop (num_cells ?Q + 1) ord_next ?Q (lvl_head ?L)
      (\<lambda>x (qty, k). Inr (qty + ord_qty x, k + 1)) (lvl_head ?L) (0, 0 :: nat) = Inr (q, k)"
    by (metis surj_pair)
  have texts: "\<exists>t. order_text detailed ?Q (ob c i) = Inr t" if "i \<in> set os" for i
    using order_text_rep[OF rep s x] that by simp
  have t: "\<exists>t. ring_loop (num_cells ?Q + 1) ord_next ?Q (lvl_head ?L)
      (\<lambda>x ss. res_bind (order_text detailed ?Q x) (\<lambda>t. Inr (ss @ t))) (lvl_head ?L) ss = Inr t" for ss
    unfolding head walk by (rule res_fold_total) (auto dest!: texts)
  have ringL: "ring (nxL c) (pvL c) (map fst (sh s))" using links_side[OF rep s] x by (auto simp: side_rep_def)
  obtain as bs where sp: "map fst (sh s) = as @ l # bs" using x by (metis (no_types) fst_conv image_eqI list.set_map split_list)
  have "j < num_cells ?P" if "j \<in> set (map fst (sh s))" for j
    by (rule links_level_bound[OF rep]) (use that in \<open>simp add: set_all_levels[OF s]\<close>)
  then have lb: "j < num_cells ?P" if "j \<in> set (as @ l # bs)" for j using that unfolding sp by blast
  have "hd (bs @ as @ [l]) \<in> set (as @ l # bs)" by (auto simp: hd_append)
  moreover have "last (l # bs @ as) \<in> set (as @ l # bs)" using last_in_set[of "l # bs @ as"] by auto
  ultimately have "hd (bs @ as @ [l]) < num_cells ?P" "last (l # bs @ as) < num_cells ?P" using lb by blast+
  then have nb: "\<exists>P. load ?P (lvl_prev ?L) = Inr P" "\<exists>N. load ?P (lvl_next ?L) = Inr N"
    using ring_links[of "nxL c" "pvL c" as l bs] ringL sp by simp_all
  have b: "(s = SELL \<and> last_price \<ge> lvl_price ?L \<or> s = BUY \<and> last_price \<le> lvl_price ?L) \<longleftrightarrow>
      \<not> better s last_price (lvl_price ?L)"
    using s by (auto simp: better_def sides_def not_le not_less)
  obtain P N where PN: "load ?P (lvl_prev ?L) = Inr P" "load ?P (lvl_next ?L) = Inr N" using nb by blast
  have "\<exists>g. \<forall>ss. ring_loop (num_cells ?Q + 1) ord_next ?Q (lvl_head ?L)
      (\<lambda>x ss. res_bind (order_text detailed ?Q x) (\<lambda>t. Inr (ss @ t))) (lvl_head ?L) ss = Inr (g ss)"
    by (rule choice) (use t in blast)
  then obtain g where g: "\<And>ss. ring_loop (num_cells ?Q + 1) ord_next ?Q (lvl_head ?L)
      (\<lambda>x ss. res_bind (order_text detailed ?Q x) (\<lambda>t. Inr (ss @ t))) (lvl_head ?L) ss = Inr (g ss)" by blast
  show ?thesis
    unfolding printer_def Let_def q PN res_bind_simps split_conv b g
    by (cases check; cases "better s last_price (lvl_price ?L)") simp_all
qed

text \<open>A side is printed unless the check is made and the first level is no better than the price it
  starts with.\<close>

lemma print_levels:
  assumes rep: "links_rep c sh" and s: "s \<in> sides"
  shows "set ls \<subseteq> set (sh s) \<Longrightarrow> sorted_wrt (better s) (map (\<lambda>x. lvl_price (lv c (fst x))) ls) \<Longrightarrow>
    (\<exists>t. res_fold (\<lambda>i. print_next detailed check s title c (lv c i)) (map fst ls) (k, last_price, ss) =
      (if check \<and> ls \<noteq> [] \<and> \<not> better s last_price (lvl_price (lv c (fst (hd ls)))) then Inl FatalExit else Inr t))"
proof (induction ls arbitrary: k last_price ss)
  case (Cons x ls)
  obtain l os where x: "x = (l, os)" by (cases x)
  then have mem: "(l, os) \<in> set (sh s)" using Cons.prems(1) by simp
  obtain t where t: "printer detailed check s c (lv c l) last_price =
     (if check \<and> \<not> better s last_price (lvl_price (lv c l)) then Inl FatalExit
      else Inr (t, if check then lvl_price (lv c l) else last_price))"
    using printer_rep[OF rep s mem] by blast
  show ?case
  proof (cases "check \<and> \<not> better s last_price (lvl_price (lv c l))")
    case True
    then show ?thesis using t x by (simp add: print_next_def)
  next
    case False
    define p where "p = (if check then lvl_price (lv c l) else last_price)"
    define ss' where "ss' = ss @ title @ to_string k @ '' => '' @ t"
    have one: "print_next detailed check s title c (lv c l) (k, last_price, ss) = Inr (k + 1, p, ss')"
      using t False by (simp add: print_next_def p_def ss'_def)
    have sorted: "set ls \<subseteq> set (sh s)" "sorted_wrt (better s) (map (\<lambda>x. lvl_price (lv c (fst x))) ls)"
      using Cons.prems by simp_all
    have "check \<and> ls \<noteq> [] \<longrightarrow> better s p (lvl_price (lv c (fst (hd ls))))"
      using Cons.prems(2) x by (cases ls) (auto simp: p_def)
    then have "\<exists>t. res_fold (\<lambda>i. print_next detailed check s title c (lv c i)) (map fst ls) (k + 1, p, ss') = Inr t"
      using Cons.IH[OF sorted, of "k + 1" p ss'] by fastforce
    then show ?thesis using one False x by auto
  qed
qed simp

lemma print_side_rep:
  assumes rep: "links_rep c sh" and s: "s \<in> sides"
  shows "\<exists>t. print_side detailed check s title last_price (head_of s c) c =
    (if check \<and> resting s c \<noteq> [] \<and> \<not> better s last_price (ord_price (hd (resting s c))) then Inl FatalExit else Inr t)"
  using rep s
proof (cases rule: first_level)
  case 1
  then show ?thesis by (simp add: print_side_def)
next
  case (2 l h os B)
  let ?body = "print_next detailed check s title c"
  have side: "side_rep c s (sh s)" by (rule links_side[OF rep s])
  then have r: "ring (nxL c) (pvL c) (map fst (sh s))" using 2(1) by (simp add: side_rep_def)
  have bound: "i < num_cells (levels_pool c)" if "i \<in> set (map fst (sh s))" for i
    using links_level_bound[OF rep, of i] that by (simp add: set_all_levels[OF s])
  have "ring_loop (num_cells (levels_pool c) + 1) lvl_next (levels_pool c) (Some l) ?body (Some l) (0, last_price, '''') =
      res_fold (\<lambda>i. ?body (lv c i)) (map fst (sh s)) (0, last_price, '''')"
    using ring_loop_ring[OF r bound, of ?body "(0, last_price, '''')"] 2(1) by simp
  moreover obtain t where "res_fold (\<lambda>i. ?body (lv c i)) (map fst (sh s)) (0, last_price, '''') =
    (if check \<and> sh s \<noteq> [] \<and> \<not> better s last_price (lvl_price (lv c (fst (hd (sh s))))) then Inl FatalExit else Inr t)"
    using print_levels[OF rep s subset_refl] side unfolding side_rep_def by blast
  ultimately show ?thesis using 2(1,2,7,8) by (cases t) (simp add: print_side_def del: ring_loop.simps)
qed

section \<open>The validity check\<close>

text \<open>A price fails against the start value of its side only when it is that value, and then the
  best order has it.\<close>

lemma first_price:
  assumes rep: "links_rep c sh" and s: "s \<in> sides" and worst: "\<And>p. better s start p \<longleftrightarrow> p \<noteq> start"
  shows "resting s c \<noteq> [] \<and> \<not> better s start (ord_price (hd (resting s c))) \<longleftrightarrow>
    (\<exists>x \<in> set (resting s c). ord_price x = start)"
proof (cases "resting s c")
  case (Cons y ys)
  have "better s (ord_price y) (ord_price x) \<or> ord_price y = ord_price x" if "x \<in> set ys" for x
    using resting_sorted[OF rep s] Cons that by simp
  moreover have "\<not> better s p start" for p using worst[of p] by (auto simp: better_def)
  ultimately have "ord_price y = start" if "x \<in> set ys" "ord_price x = start" for x using that by metis
  then show ?thesis using Cons worst by auto
qed simp

text \<open>The printed form of a good book, which the destructor writes with its validity check, is
  always produced, unless the check is asked for and an order is offered at price 0 or bid at the largest
  price: these two are what the check starts from, and it takes them for prices out of order and
  ends the program. In particular the price lists of a good book are sorted.\<close>

theorem validity_check_passes:
  assumes "client_ok b"
  shows "(\<exists>txt. MarketOrderBook_toString detailed check b = Inr txt) \<longleftrightarrow>
    \<not> (check \<and> ((\<exists>x \<in> set (resting SELL (mcore b)). ord_price x = 0) \<or>
       (\<exists>x \<in> set (resting BUY (mcore b)). ord_price x = Price_INVALID)))"
proof -
  obtain sh where "client_rep b sh" using assms by (auto simp: client_ok_def)
  then have rep: "links_rep (mcore b) sh" by (simp add: client_rep_def book_rep_def)
  have sell: "better SELL 0 p \<longleftrightarrow> p \<noteq> 0" for p by (simp add: better_def word_neq_0_conv)
  have buy: "better BUY (- 1) p \<longleftrightarrow> p \<noteq> - 1" for p by (simp add: better_def word_order.not_eq_extremum)
  obtain ta where "print_side detailed check SELL ''ASKS L:'' 0 (asks_by_price (mcore b)) (mcore b) =
     (if check \<and> (\<exists>x \<in> set (resting SELL (mcore b)). ord_price x = 0) then Inl FatalExit else Inr ta)"
    using print_side_rep[OF rep sides_simps(2), of detailed check "''ASKS L:''" 0] first_price[OF rep sides_simps(2) sell]
    by (auto simp: head_of_def)
  moreover obtain tb where "print_side detailed check BUY ''BIDS L:'' (- 1) (bids_by_price (mcore b)) (mcore b) =
     (if check \<and> (\<exists>x \<in> set (resting BUY (mcore b)). ord_price x = Price_INVALID) then Inl FatalExit else Inr tb)"
    using print_side_rep[OF rep sides_simps(1), of detailed check "''BIDS L:''" "- 1"] first_price[OF rep sides_simps(1) buy]
    by (auto simp: head_of_def Price_INVALID_def)
  ultimately show ?thesis by (auto simp: MarketOrderBook_toString_def Let_def)
qed

text \<open>An order offered at price 0: the book prints, and its check ends the program.\<close>

definition free_offer :: MEMarketUpdate where
  "free_offer = \<lparr>mu_type = MU_ADD, mu_order_id = 7, mu_ticker_id = 3, mu_side = SELL, mu_price = 0,
     mu_qty = 10, mu_priority = 1\<rparr>"

theorem validity_check_passes_witness:
  "\<exists>b. client_ok b \<and> (\<exists>txt. MarketOrderBook_toString True False b = Inr txt) \<and>
     \<not> (\<exists>txt. MarketOrderBook_toString False True b = Inr txt)"
proof -
  let ?b = "new_MarketOrderBook (\<lambda>_. None) (\<lambda>_. None) 3"
  have "expected free_offer (view ?b)"
    by (simp only: view_new) (simp add: expected_def free_offer_def level_count_def size_defs)
  then obtain b' where b': "client_ok b'" "view b' = spec_update free_offer (view ?b)"
    by (rule onMarketUpdate_ok[OF new_client_ok])
  have "resting SELL (mcore b') = cv_orders (view b') SELL" by (simp add: view_def)
  also have "\<dots> = [new_order free_offer]"
    unfolding b'(2) view_new by (simp add: spec_update_def spec_orders_def free_offer_def insert_order_def Let_def)
  finally have "\<exists>x \<in> set (resting SELL (mcore b')). ord_price x = 0" by (simp add: new_order_def free_offer_def)
  then show ?thesis
    using b'(1) validity_check_passes[OF b'(1), of True False] validity_check_passes[OF b'(1), of False True] by blast
qed

end
