(* ===== verification/PositionKeeper.thy ===== *)
theory PositionKeeper
  imports MarketOrderBook
begin

text \<open>
  \<^verbatim>\<open>include/client/position_keeper.hpp\<close> and \<^verbatim>\<open>include/client/risk_manager.hpp\<close>:
  what the trading program holds of each ticker and what its fills earned, and the check of a
  new order against the limits of its configuration. Integers keep their widths and their
  conversions; the arithmetic of \<^verbatim>\<open>double\<close> is an argument, the record \<open>fp\<close>, of which
  the theorems assume nothing.
\<close>

section \<open>Doubles\<close>

record 'd fp =
  of_integer :: "int \<Rightarrow> 'd"
  fadd :: "'d \<Rightarrow> 'd \<Rightarrow> 'd"
  fsub :: "'d \<Rightarrow> 'd \<Rightarrow> 'd"
  fmul :: "'d \<Rightarrow> 'd \<Rightarrow> 'd"
  fdiv :: "'d \<Rightarrow> 'd \<Rightarrow> 'd"
  fless :: "'d \<Rightarrow> 'd \<Rightarrow> bool"
  fle :: "'d \<Rightarrow> 'd \<Rightarrow> bool"
  fneq :: "'d \<Rightarrow> 'd \<Rightarrow> bool"
  fnan :: "'d"

text \<open>Integers as doubles, for concrete runs.\<close>

definition int_fp :: "int fp" where
  "int_fp = \<lparr>of_integer = (\<lambda>i. i), fadd = (+), fsub = (-), fmul = (*), fdiv = (div),
     fless = (<), fle = (\<le>), fneq = (\<noteq>), fnan = 0\<rparr>"

definition of_u64 :: "'d fp \<Rightarrow> u64 \<Rightarrow> 'd" where
  "of_u64 F w = of_integer F (uint w)"

section \<open>Positions\<close>

record 'd PositionInfo =
  position :: "32 word"
  real_pnl :: 'd
  unreal_pnl :: 'd
  total_pnl :: 'd
  open_vwap :: "nat \<Rightarrow> 'd"
  volume :: Qty
  pos_bbo :: BBO

definition new_PositionInfo :: "'d fp \<Rightarrow> 'd PositionInfo" where
  "new_PositionInfo F = \<lparr>position = 0, real_pnl = of_integer F 0, unreal_pnl = of_integer F 0,
     total_pnl = of_integer F 0, open_vwap = (\<lambda>_. of_integer F 0), volume = 0, pos_bbo = new_BBO\<rparr>"

text \<open>\<^verbatim>\<open>position_\<close> is a signed 32-bit integer. Its products with the side and with another
  position are taken exactly; the code's would overflow beyond that.\<close>

definition pos_of :: "'d PositionInfo \<Rightarrow> int" where
  "pos_of P = sint (position P)"

definition side_index :: "Side \<Rightarrow> nat" where
  "side_index s = unat (sideToIndex s)"

definition side_slots :: nat where
  "side_slots = unat (sideToIndex SIDE_MAX + 1)"

lemma side_index_simps [simp]:
  "side_index BUY = 2" "side_index SELL = 0" "side_index SIDE_INVALID = 1" "side_slots = 4"
  by (simp_all add: side_index_def side_slots_def)

text \<open>The mark of an open position at a price.\<close>

definition mark :: "'d fp \<Rightarrow> 'd \<Rightarrow> 'd PositionInfo \<Rightarrow> 'd" where
  "mark F price P =
    (let n = of_integer F \<bar>pos_of P\<bar> in
     if pos_of P > 0 then fmul F (fsub F price (fdiv F (open_vwap P (side_index BUY)) n)) n
     else fmul F (fsub F (fdiv F (open_vwap P (side_index SELL)) n) price) n)"

text \<open>The middle part of \<^verbatim>\<open>addFill\<close>: the volume-weighted prices and the realized profit, from
  the position before, after \<open>volume_\<close> and \<open>position_\<close> are set.\<close>

definition fill_pnl :: "'d fp \<Rightarrow> MEClientResponse \<Rightarrow> int \<Rightarrow> 'd PositionInfo \<Rightarrow> 'd PositionInfo res" where
  "fill_pnl F r old_position P =
    (let si = side_index (rs_side r);
         oi = side_index (if rs_side r = BUY then SELL else BUY);
         sv = sideToValue (rs_side r);
         v = open_vwap P in
     if old_position * sv \<ge> 0 then
       res_bind (ensure (si < side_slots) WildAccess) (\<lambda>_.
       Inr (P\<lparr>open_vwap := v(si := fadd F (v si) (of_u64 F (rs_price r * ucast (rs_exec_qty r))))\<rparr>))
     else
       let opp_side_vwap = fdiv F (v oi) (of_integer F \<bar>old_position\<bar>);
           v = v(oi := fmul F opp_side_vwap (of_integer F \<bar>pos_of P\<bar>));
           closed = of_integer F (min (sint (rs_exec_qty r)) \<bar>old_position\<bar>);
           P = P\<lparr>open_vwap := v, real_pnl := fadd F (real_pnl P)
                 (fmul F (fmul F closed (fsub F opp_side_vwap (of_u64 F (rs_price r)))) (of_integer F sv))\<rparr> in
       if pos_of P * old_position < 0 then
         res_bind (ensure (si < side_slots) WildAccess) (\<lambda>_.
         Inr (P\<lparr>open_vwap := v(si := of_u64 F (rs_price r * word_of_int \<bar>pos_of P\<bar>), oi := of_integer F 0)\<rparr>))
       else Inr P)"

definition addFill :: "'d fp \<Rightarrow> MEClientResponse \<Rightarrow> 'd PositionInfo \<Rightarrow> 'd PositionInfo res" where
  "addFill F r P =
    (let old_position = pos_of P;
         P = P\<lparr>volume := rs_exec_qty r, position := rs_exec_qty r * word_of_int (sideToValue (rs_side r))\<rparr> in
     res_bind (fill_pnl F r old_position P) (\<lambda>P.
     let P = (if pos_of P = 0
              then P\<lparr>open_vwap := (open_vwap P)(side_index BUY := of_integer F 0, side_index BUY := of_integer F 0),
                     unreal_pnl := of_integer F 0\<rparr>
              else P\<lparr>unreal_pnl := mark F (of_u64 F (rs_price r)) P\<rparr>) in
     Inr (P\<lparr>total_pnl := fadd F (unreal_pnl P) (real_pnl P)\<rparr>)))"

definition position_updateBBO :: "'d fp \<Rightarrow> BBO \<Rightarrow> 'd PositionInfo \<Rightarrow> 'd PositionInfo" where
  "position_updateBBO F x P =
    (let P = P\<lparr>pos_bbo := x\<rparr> in
     if pos_of P \<noteq> 0 \<and> ask_price x \<noteq> Price_INVALID \<and> bid_price x \<noteq> Price_INVALID then
       let mid_price = (ask_price x + bid_price x) div 2;
           P = P\<lparr>unreal_pnl := mark F (of_u64 F mid_price) P\<rparr> in
       P\<lparr>total_pnl := fadd F (real_pnl P) (unreal_pnl P)\<rparr>
     else P)"

section \<open>The position keeper\<close>

type_synonym 'd PositionKeeper = "nat \<Rightarrow> 'd PositionInfo"

definition keeper_addFill :: "'d fp \<Rightarrow> MEClientResponse \<Rightarrow> 'd PositionKeeper \<Rightarrow> 'd PositionKeeper res" where
  "keeper_addFill F r k =
    res_bind (ensure (unat (rs_ticker_id r) < ME_MAX_TICKERS) OutOfRange) (\<lambda>_.
    res_bind (addFill F r (k (unat (rs_ticker_id r)))) (\<lambda>P.
    Inr (k(unat (rs_ticker_id r) := P))))"

definition keeper_updateBBO :: "'d fp \<Rightarrow> TickerId \<Rightarrow> BBO \<Rightarrow> 'd PositionKeeper \<Rightarrow> 'd PositionKeeper res" where
  "keeper_updateBBO F t x k =
    res_bind (ensure (unat t < ME_MAX_TICKERS) OutOfRange) (\<lambda>_.
    Inr (k(unat t := position_updateBBO F x (k (unat t)))))"

section \<open>Risk\<close>

datatype RiskCheckResult = RISK_INVALID | ORDER_TOO_LARGE | POSITION_TOO_LARGE | LOSS_TOO_LARGE | ALLOWED

fun riskCheckResultToString :: "RiskCheckResult \<Rightarrow> string" where
  "riskCheckResultToString ALLOWED = ''ALLOWED''"
| "riskCheckResultToString RISK_INVALID = ''INVALID''"
| "riskCheckResultToString ORDER_TOO_LARGE = ''ORDER_TOO_LARGE''"
| "riskCheckResultToString POSITION_TOO_LARGE = ''POSITION_TOO_LARGE''"
| "riskCheckResultToString LOSS_TOO_LARGE = ''LOSS_TOO_LARGE''"

record 'd RiskCfg =
  max_order_size :: Qty
  max_position :: Qty
  max_loss :: 'd

definition position_checkPreTradeRisk ::
  "'d fp \<Rightarrow> 'd RiskCfg \<Rightarrow> 'd PositionInfo \<Rightarrow> Side \<Rightarrow> Qty \<Rightarrow> RiskCheckResult" where
  "position_checkPreTradeRisk F cfg P side qty =
    (if qty > max_order_size cfg then ORDER_TOO_LARGE
     else if \<bar>pos_of P + sideToValue side * sint qty\<bar> > sint (max_position cfg) then POSITION_TOO_LARGE
     else if fless F (total_pnl P) (max_loss cfg) then LOSS_TOO_LARGE
     else ALLOWED)"

text \<open>The risk manager holds pointers into the position keeper; here the keeper is passed.\<close>

definition checkPreTradeRisk ::
  "'d fp \<Rightarrow> (nat \<Rightarrow> 'd RiskCfg) \<Rightarrow> 'd PositionKeeper \<Rightarrow> TickerId \<Rightarrow> Side \<Rightarrow> Qty \<Rightarrow> RiskCheckResult res" where
  "checkPreTradeRisk F cfg k t side qty =
    res_bind (ensure (unat t < ME_MAX_TICKERS) OutOfRange) (\<lambda>_.
    Inr (position_checkPreTradeRisk F (cfg (unat t)) (k (unat t)) side qty))"

section \<open>What a fill does to the position\<close>

lemma fill_pnl_position:
  assumes "fill_pnl F r old P = Inr P'"
  shows "position P' = position P \<and> volume P' = volume P"
  using assms by (auto simp: fill_pnl_def Let_def res_bind_eq_Inr split: if_splits)

lemma fill_pnl_ok:
  assumes "rs_side r = BUY \<or> rs_side r = SELL"
  shows "\<exists>P'. fill_pnl F r old P = Inr P'"
proof -
  have "side_index (rs_side r) < side_slots" using assms by auto
  then show ?thesis by (simp add: fill_pnl_def Let_def)
qed

lemma addFill_ok:
  assumes "rs_side r = BUY \<or> rs_side r = SELL"
  obtains P' where "addFill F r P = Inr P'"
    and "position P' = rs_exec_qty r * word_of_int (sideToValue (rs_side r))" and "volume P' = rs_exec_qty r"
    and "total_pnl P' = fadd F (unreal_pnl P') (real_pnl P')"
proof -
  let ?P = "P\<lparr>volume := rs_exec_qty r, position := rs_exec_qty r * word_of_int (sideToValue (rs_side r))\<rparr>"
  obtain P1 where P1: "fill_pnl F r (pos_of P) ?P = Inr P1" using fill_pnl_ok[OF assms] by blast
  then show thesis
    using that fill_pnl_position[OF P1] by (cases "pos_of P1 = 0") (simp_all add: addFill_def Let_def)
qed

lemma signed_quantity:
  assumes "s = BUY \<or> s = SELL" and "unat (q :: Qty) < 2 ^ 31"
  shows "sint (q * word_of_int (sideToValue s)) = sideToValue s * int (unat q)" and "sint q = int (unat q)"
proof -
  have fits: "signed_take_bit 31 k = k" if "\<bar>k\<bar> < 2 ^ 31" for k :: int
    using that by (intro signed_take_bit_int_eq_self) auto
  have b: "\<bar>int (unat q)\<bar> < 2 ^ 31"
    using assms(2) by (metis abs_of_nat of_nat_less_iff of_nat_numeral of_nat_power)
  then have q: "sint q = int (unat q)" using fits[of "int (unat q)"] by (simp add: sint_uint)
  then show "sint q = int (unat q)" .
  have "q * word_of_int (sideToValue s) = word_of_int (sideToValue s * int (unat q))"
    using assms(1) by (auto simp: of_nat_unat)
  also have "sint (word_of_int (sideToValue s * int (unat q)) :: Qty) = sideToValue s * int (unat q)"
  proof -
    have "\<bar>sideToValue s\<bar> = 1" using assms(1) by auto
    then have "\<bar>sideToValue s * int (unat q)\<bar> < 2 ^ 31" using b by (simp only: abs_mult mult_1)
    then show ?thesis using fits by (simp only: sint_sbintrunc') simp
  qed
  finally show "sint (q * word_of_int (sideToValue s)) = sideToValue s * int (unat q)" .
qed

section \<open>Positions and limits\<close>

definition sided :: "MEClientResponse \<Rightarrow> bool" where
  "sided r \<longleftrightarrow> rs_side r = BUY \<or> rs_side r = SELL"

definition signed_exec :: "MEClientResponse \<Rightarrow> int" where
  "signed_exec r = sideToValue (rs_side r) * int (unat (rs_exec_qty r))"

lemma addFill_position:
  assumes "sided r" and "unat (rs_exec_qty r) < 2 ^ 31"
  obtains P' where "addFill F r P = Inr P'" and "pos_of P' = signed_exec r" and "volume P' = rs_exec_qty r"
proof -
  obtain P' where P': "addFill F r P = Inr P'" "position P' = rs_exec_qty r * word_of_int (sideToValue (rs_side r))"
    "volume P' = rs_exec_qty r"
    using addFill_ok assms(1) unfolding sided_def by metis
  then have "pos_of P' = signed_exec r"
    using signed_quantity(1) assms unfolding sided_def by (simp only: pos_of_def signed_exec_def)
  then show thesis using that P' by blast
qed

text \<open>A fill overwrites the position and the traded volume: after any sequence of fills both
  are those of the last fill alone, whatever was bought and sold before.\<close>

theorem position_is_last_fill:
  assumes "list_all (\<lambda>r. sided r \<and> unat (rs_exec_qty r) < 2 ^ 31) rs" and "rs \<noteq> []"
  shows "\<exists>P'. res_fold (addFill F) rs P = Inr P' \<and> pos_of P' = signed_exec (last rs) \<and>
     volume P' = rs_exec_qty (last rs)"
  using assms
proof (induction rs arbitrary: P)
  case (Cons r rs)
  obtain P1 where P1: "addFill F r P = Inr P1" "pos_of P1 = signed_exec r" "volume P1 = rs_exec_qty r"
    using addFill_position[of r F P] Cons.prems(1) by auto
  show ?case
  proof (cases "rs = []")
    case False
    then show ?thesis using Cons.IH[of P1] Cons.prems(1) P1(1) by simp
  qed (use P1 in simp)
qed simp

definition sample_fill :: "Side \<Rightarrow> Qty \<Rightarrow> MEClientResponse" where
  "sample_fill s q = \<lparr>rs_type = FILLED, rs_client_id = 1, rs_ticker_id = 0, rs_client_order_id = 1,
     rs_market_order_id = 1, rs_side = s, rs_price = 100, rs_exec_qty = q, rs_left_qty = 0\<rparr>"

theorem position_is_last_fill_witness:
  "\<exists>P'. res_fold (addFill int_fp) [sample_fill BUY 10, sample_fill BUY 5, sample_fill SELL 3] (new_PositionInfo int_fp) = Inr P' \<and>
     pos_of P' = - 3 \<and> volume P' = 3"
  using position_is_last_fill[of "[sample_fill BUY 10, sample_fill BUY 5, sample_fill SELL 3]" int_fp "new_PositionInfo int_fp"]
  by (simp add: sample_fill_def sided_def signed_exec_def)

text \<open>An order is allowed exactly when its quantity is within the order limit, the position it
  would lead to from the recorded one is within the position limit on either side, and the
  recorded profit is not below the loss limit.\<close>

theorem risk_allows_within_limits:
  assumes "s = BUY \<or> s = SELL" and "unat q < 2 ^ 31" and "unat (max_position cfg) < 2 ^ 31"
  shows "position_checkPreTradeRisk F cfg P s q = ALLOWED \<longleftrightarrow>
     unat q \<le> unat (max_order_size cfg) \<and>
     \<bar>pos_of P + sideToValue s * int (unat q)\<bar> \<le> int (unat (max_position cfg)) \<and>
     \<not> fless F (total_pnl P) (max_loss cfg)"
proof -
  have "sint q = int (unat q)" "sint (max_position cfg) = int (unat (max_position cfg))"
    using signed_quantity(2) assms by blast+
  then show ?thesis unfolding position_checkPreTradeRisk_def by (auto simp only: word_less_nat_alt not_less split: if_splits)
qed

definition sample_risk :: "int RiskCfg" where
  "sample_risk = \<lparr>max_order_size = 10, max_position = 20, max_loss = - 100\<rparr>"

theorem risk_allows_within_limits_witness:
  "position_checkPreTradeRisk int_fp sample_risk (new_PositionInfo int_fp) SELL 7 = ALLOWED \<longleftrightarrow>
     unat (7 :: Qty) \<le> unat (max_order_size sample_risk) \<and>
     \<bar>pos_of (new_PositionInfo int_fp) + sideToValue SELL * int (unat (7 :: Qty))\<bar> \<le> int (unat (max_position sample_risk)) \<and>
     \<not> fless int_fp (total_pnl (new_PositionInfo int_fp)) (max_loss sample_risk)"
  by (rule risk_allows_within_limits) (simp_all add: sample_risk_def)

text \<open>So the position limit bounds one fill and not the position: however often a quantity of at
  most half the limit has been bought, buying it once more is never refused for the position.\<close>

theorem position_limit_not_enforced:
  assumes "list_all (\<lambda>r. rs_side r = BUY \<and> rs_exec_qty r = q) rs"
    and "unat q \<le> unat (max_order_size cfg)" and "2 * unat q \<le> unat (max_position cfg)"
    and "unat (max_position cfg) < 2 ^ 31"
  shows "\<exists>P'. res_fold (addFill F) rs (new_PositionInfo F) = Inr P' \<and>
     position_checkPreTradeRisk F cfg P' BUY q \<in> {ALLOWED, LOSS_TOO_LARGE}"
proof -
  have q: "unat q < 2 ^ 31" using assms(3,4) by linarith
  have si: "sint q = int (unat q)" "sint (max_position cfg) = int (unat (max_position cfg))"
    using signed_quantity(2)[of BUY] q assms(4) by blast+
  have check: "position_checkPreTradeRisk F cfg P BUY q \<in> {ALLOWED, LOSS_TOO_LARGE}"
    if "pos_of P = 0 \<or> pos_of P = int (unat q)" for P
  proof -
    have "\<not> q > max_order_size cfg" using assms(2) by (simp add: word_le_nat_alt not_less)
    moreover have "\<not> \<bar>pos_of P + sideToValue BUY * sint q\<bar> > sint (max_position cfg)"
      using that assms(3) unfolding si sideToValue.simps by linarith
    ultimately show ?thesis by (simp only: position_checkPreTradeRisk_def if_False) auto
  qed
  have "\<exists>P'. res_fold (addFill F) rs P = Inr P' \<and> (pos_of P' = 0 \<or> pos_of P' = int (unat q))"
    if "pos_of P = 0 \<or> pos_of P = int (unat q)" for P
    using assms(1) that
  proof (induction rs arbitrary: P)
    case (Cons r rs)
    have "sided r" "unat (rs_exec_qty r) < 2 ^ 31" using Cons.prems(1) q by (auto simp: sided_def)
    then obtain P1 where P1: "addFill F r P = Inr P1" "pos_of P1 = signed_exec r" by (rule addFill_position)
    have "pos_of P1 = int (unat q)" using P1(2) Cons.prems(1) by (auto simp: signed_exec_def)
    then show ?case using Cons.IH[of P1] Cons.prems(1) P1(1) by auto
  qed simp
  moreover have "pos_of (new_PositionInfo F) = 0" by (simp add: new_PositionInfo_def pos_of_def)
  ultimately show ?thesis using check by blast
qed

theorem position_limit_not_enforced_witness:
  "\<exists>P'. res_fold (addFill int_fp) (replicate 5 (sample_fill BUY 10)) (new_PositionInfo int_fp) = Inr P' \<and>
     position_checkPreTradeRisk int_fp sample_risk P' BUY 10 \<in> {ALLOWED, LOSS_TOO_LARGE}"
  by (rule position_limit_not_enforced) (simp_all add: sample_fill_def sample_risk_def list_all_iff)

end
