(* ===== verification/OrderManager.thy ===== *)
theory OrderManager
  imports PositionKeeper
begin

text \<open>
  \<^verbatim>\<open>include/client/om_order.hpp\<close>, \<^verbatim>\<open>include/client/order_manager.hpp\<close> and
  \<^verbatim>\<open>src/client/order_manager.cpp\<close>: the trading program's own orders, one per ticker and side,
  each with a state that follows the requests sent and the responses received. A call of
  \<^verbatim>\<open>sendClientRequest\<close> of the trade engine is an element of the list of requests an operation
  returns, and the risk manager's check is an argument, which the trade engine instantiates.
\<close>

section \<open>State\<close>

datatype OMOrderState = OM_INVALID | PENDING_NEW | LIVE | PENDING_CANCEL | DEAD

fun OMOrderStateToString :: "OMOrderState \<Rightarrow> string" where
  "OMOrderStateToString PENDING_NEW = ''PENDING_NEW''"
| "OMOrderStateToString LIVE = ''LIVE''"
| "OMOrderStateToString PENDING_CANCEL = ''PENDING_CANCEL''"
| "OMOrderStateToString DEAD = ''DEAD''"
| "OMOrderStateToString OM_INVALID = ''INVALID''"

record OMOrder =
  om_ticker_id :: TickerId
  om_order_id :: OrderId
  om_side :: Side
  om_price :: Price
  om_qty :: Qty
  om_state :: OMOrderState

definition new_OMOrder :: OMOrder where
  "new_OMOrder = \<lparr>om_ticker_id = TickerId_INVALID, om_order_id = OrderId_INVALID, om_side = SIDE_INVALID,
     om_price = Price_INVALID, om_qty = Qty_INVALID, om_state = OM_INVALID\<rparr>"

definition OMOrder_toString :: "OMOrder \<Rightarrow> string" where
  "OMOrder_toString x =
     ''OMOrder'' @ ''['' @ ''tid:'' @ tickerIdToString (om_ticker_id x) @ '' '' @
     ''oid:'' @ orderIdToString (om_order_id x) @ '' '' @ ''side:'' @ sideToString (om_side x) @ '' '' @
     ''price:'' @ priceToString (om_price x) @ '' '' @ ''qty:'' @ qtyToString (om_qty x) @ '' '' @
     ''state:'' @ OMOrderStateToString (om_state x) @ '']''"

record OrderManager =
  ticker_side_order :: "nat \<Rightarrow> nat \<Rightarrow> OMOrder"
  om_next_order_id :: OrderId

definition new_OrderManager :: OrderManager where
  "new_OrderManager = \<lparr>ticker_side_order = (\<lambda>_ _. new_OMOrder), om_next_order_id = 1\<rparr>"

text \<open>\<^verbatim>\<open>ticker_side_order_.at(ticker).at(sideToIndex(side))\<close>, read and replaced.\<close>

definition slot :: "TickerId \<Rightarrow> Side \<Rightarrow> OrderManager \<Rightarrow> OMOrder" where
  "slot t s m = ticker_side_order m (unat t) (side_index s)"

definition set_slot :: "TickerId \<Rightarrow> Side \<Rightarrow> OMOrder \<Rightarrow> OrderManager \<Rightarrow> OrderManager" where
  "set_slot t s x m = m\<lparr>ticker_side_order := (ticker_side_order m)(unat t := (ticker_side_order m (unat t))(side_index s := x))\<rparr>"

definition check_slot :: "TickerId \<Rightarrow> Side \<Rightarrow> unit res" where
  "check_slot t s = ensure (unat t < ME_MAX_TICKERS \<and> side_index s < side_slots) OutOfRange"

section \<open>Operations\<close>

definition newOrder ::
  "ClientId \<Rightarrow> TickerId \<Rightarrow> Price \<Rightarrow> Side \<Rightarrow> Qty \<Rightarrow> OrderId \<Rightarrow> MEClientRequest list \<times> OMOrder \<times> OrderId" where
  "newOrder cid t price side qty next_id =
    ([\<lparr>rq_type = CRQ_NEW, rq_client_id = cid, rq_ticker_id = t, rq_order_id = next_id, rq_side = side,
       rq_price = price, rq_qty = qty\<rparr>],
     \<lparr>om_ticker_id = t, om_order_id = next_id, om_side = side, om_price = price, om_qty = qty,
       om_state = PENDING_NEW\<rparr>,
     next_id + 1)"

definition cancelOrder :: "ClientId \<Rightarrow> OMOrder \<Rightarrow> MEClientRequest list \<times> OMOrder" where
  "cancelOrder cid x =
    ([\<lparr>rq_type = CRQ_CANCEL, rq_client_id = cid, rq_ticker_id = om_ticker_id x, rq_order_id = om_order_id x,
       rq_side = om_side x, rq_price = om_price x, rq_qty = om_qty x\<rparr>],
     x\<lparr>om_state := PENDING_CANCEL\<rparr>)"

text \<open>\<open>check\<close> is \<^verbatim>\<open>checkPreTradeRisk\<close> of the risk manager.\<close>

definition moveOrder ::
  "(TickerId \<Rightarrow> Side \<Rightarrow> Qty \<Rightarrow> RiskCheckResult res) \<Rightarrow> ClientId \<Rightarrow> TickerId \<Rightarrow> Price \<Rightarrow> Side \<Rightarrow> Qty \<Rightarrow>
     OrderManager \<Rightarrow> (MEClientRequest list \<times> OrderManager) res" where
  "moveOrder check cid t price side qty m =
    (let x = slot t side m in
     case om_state x of
       LIVE \<Rightarrow>
         if om_price x \<noteq> price then
           let (rqs, x) = cancelOrder cid x in Inr (rqs, set_slot t side x m)
         else Inr ([], m)
     | DEAD \<Rightarrow>
         res_bind (check t side qty) (\<lambda>risk_result.
         if risk_result = ALLOWED then
           let (rqs, x, next_id) = newOrder cid t price side qty (om_next_order_id m) in
           Inr (rqs, (set_slot t side x m)\<lparr>om_next_order_id := next_id\<rparr>)
         else Inr ([], m))
     | OM_INVALID \<Rightarrow> Inr ([], m)
     | PENDING_CANCEL \<Rightarrow> Inr ([], m)
     | PENDING_NEW \<Rightarrow> Inr ([], m))"

definition moveOrders ::
  "(TickerId \<Rightarrow> Side \<Rightarrow> Qty \<Rightarrow> RiskCheckResult res) \<Rightarrow> ClientId \<Rightarrow> TickerId \<Rightarrow> Price \<Rightarrow> Price \<Rightarrow> Qty \<Rightarrow>
     OrderManager \<Rightarrow> (MEClientRequest list \<times> OrderManager) res" where
  "moveOrders check cid t bid ask qty m =
    res_bind (check_slot t BUY) (\<lambda>_.
    res_bind (moveOrder check cid t bid BUY qty m) (\<lambda>(rqs, m).
    res_bind (check_slot t SELL) (\<lambda>_.
    res_bind (moveOrder check cid t ask SELL qty m) (\<lambda>(rqs', m).
    Inr (rqs @ rqs', m)))))"

definition response_step :: "MEClientResponse \<Rightarrow> OMOrder \<Rightarrow> OMOrder" where
  "response_step r x =
    (case rs_type r of
       ACCEPTED \<Rightarrow> x\<lparr>om_state := LIVE\<rparr>
     | CANCELLED \<Rightarrow> x\<lparr>om_state := DEAD\<rparr>
     | FILLED \<Rightarrow>
         let x = x\<lparr>om_qty := rs_left_qty r\<rparr> in
         if om_qty x = 0 then x\<lparr>om_state := DEAD\<rparr> else x
     | _ \<Rightarrow> x)"

definition om_onOrderUpdate :: "MEClientResponse \<Rightarrow> OrderManager \<Rightarrow> OrderManager res" where
  "om_onOrderUpdate r m =
    res_bind (check_slot (rs_ticker_id r) (rs_side r)) (\<lambda>_.
    Inr (set_slot (rs_ticker_id r) (rs_side r) (response_step r (slot (rs_ticker_id r) (rs_side r) m)) m))"

section \<open>Slots\<close>

lemma slot_set_slot:
  "slot t' s' (set_slot t s x m) = (if t' = t \<and> side_index s' = side_index s then x else slot t' s' m)"
  by (auto simp: slot_def set_slot_def word_unat_eq_iff)

lemma slot_next_id [simp]: "slot t s (m\<lparr>om_next_order_id := k\<rparr>) = slot t s m"
  by (simp add: slot_def)

lemma set_slot_next_id [simp]: "om_next_order_id (set_slot t s x m) = om_next_order_id m"
  by (simp add: set_slot_def)

lemma check_slot_ok: "unat t < ME_MAX_TICKERS \<Longrightarrow> s = BUY \<or> s = SELL \<Longrightarrow> check_slot t s = Inr ()"
  by (auto simp: check_slot_def)

section \<open>The life of an order\<close>

text \<open>What one order does when it is asked to stand at the price \<open>p\<close> for the quantity \<open>q\<close>, with the requests it sends:
  a live order stays where it is right and is cancelled where it is not; a dead one is sent anew, under the next
  identifier \<open>k\<close>, if the risk check allows it and not otherwise; an order whose last request is not answered, or that
  was never used, waits.\<close>

inductive om_step ::
  "(TickerId \<Rightarrow> Side \<Rightarrow> Qty \<Rightarrow> RiskCheckResult res) \<Rightarrow> ClientId \<Rightarrow> TickerId \<Rightarrow> Side \<Rightarrow> Price \<Rightarrow> Qty \<Rightarrow> OrderId \<Rightarrow>
     OMOrder \<Rightarrow> MEClientRequest list \<Rightarrow> OMOrder \<Rightarrow> bool"
  for check cid t s p q k where
  stays: "om_state x = LIVE \<Longrightarrow> om_price x = p \<Longrightarrow> om_step check cid t s p q k x [] x"
| waits: "om_state x \<noteq> LIVE \<Longrightarrow> om_state x \<noteq> DEAD \<Longrightarrow> om_step check cid t s p q k x [] x"
| refused: "om_state x = DEAD \<Longrightarrow> check t s q \<noteq> Inr ALLOWED \<Longrightarrow> om_step check cid t s p q k x [] x"
| send_new: "om_state x = DEAD \<Longrightarrow> check t s q = Inr ALLOWED \<Longrightarrow>
    om_step check cid t s p q k x
      [\<lparr>rq_type = CRQ_NEW, rq_client_id = cid, rq_ticker_id = t, rq_order_id = k, rq_side = s, rq_price = p, rq_qty = q\<rparr>]
      \<lparr>om_ticker_id = t, om_order_id = k, om_side = s, om_price = p, om_qty = q, om_state = PENDING_NEW\<rparr>"
| send_cancel: "om_state x = LIVE \<Longrightarrow> om_price x \<noteq> p \<Longrightarrow>
    om_step check cid t s p q k x
      [\<lparr>rq_type = CRQ_CANCEL, rq_client_id = cid, rq_ticker_id = om_ticker_id x,
        rq_order_id = om_order_id x, rq_side = om_side x, rq_price = om_price x, rq_qty = om_qty x\<rparr>]
      (x\<lparr>om_state := PENDING_CANCEL\<rparr>)"

inductive_cases om_step_liveE: "om_step check cid t s p q k (x\<lparr>om_state := LIVE\<rparr>) rqs y"
inductive_cases om_stepE: "om_step check cid t s p q k x rqs y"

lemma moveOrder_cases:
  assumes "moveOrder check cid t price side qty m = Inr (rqs, m')"
  obtains (keep) "rqs = []" and "m' = m" and "om_state (slot t side m) = LIVE \<longrightarrow> om_price (slot t side m) = price"
      and "om_state (slot t side m) = DEAD \<longrightarrow> check t side qty \<noteq> Inr ALLOWED"
  | (cancel) "om_state (slot t side m) = LIVE" and "om_price (slot t side m) \<noteq> price"
      and "rqs = fst (cancelOrder cid (slot t side m))"
      and "m' = set_slot t side (snd (cancelOrder cid (slot t side m))) m"
  | (new) "om_state (slot t side m) = DEAD" and "check t side qty = Inr ALLOWED"
      and "rqs = fst (newOrder cid t price side qty (om_next_order_id m))"
      and "m' = (set_slot t side (fst (snd (newOrder cid t price side qty (om_next_order_id m)))) m)
           \<lparr>om_next_order_id := om_next_order_id m + 1\<rparr>"
proof (cases "om_state (slot t side m)")
  case LIVE
  show ?thesis
  proof (cases "om_price (slot t side m) = price")
    case True
    show ?thesis by (rule keep) (use assms LIVE True in \<open>simp_all add: moveOrder_def Let_def\<close>)
  next
    case False
    show ?thesis by (rule cancel[OF LIVE False]) (use assms LIVE False in \<open>auto simp: moveOrder_def Let_def cancelOrder_def\<close>)
  qed
next
  case DEAD
  then obtain v where v: "check t side qty = Inr v" using assms by (auto simp: moveOrder_def res_bind_eq_Inr)
  show ?thesis
  proof (cases "v = ALLOWED")
    case True
    then have "check t side qty = Inr ALLOWED" using v by simp
    then show ?thesis by (rule new[OF DEAD]) (use assms DEAD v True in \<open>auto simp: moveOrder_def Let_def newOrder_def\<close>)
  next
    case False
    show ?thesis by (rule keep) (use assms DEAD v False in \<open>simp_all add: moveOrder_def Let_def\<close>)
  qed
qed (rule keep; use assms in \<open>simp add: moveOrder_def Let_def\<close>)+

lemma moveOrder_step:
  assumes "moveOrder check cid t price side qty m = Inr (rqs, m')"
  shows "om_step check cid t side price qty (om_next_order_id m) (slot t side m) rqs (slot t side m')"
    and "\<And>t' s'. t' \<noteq> t \<or> side_index s' \<noteq> side_index side \<Longrightarrow> slot t' s' m' = slot t' s' m"
    and "om_next_order_id m' = om_next_order_id m + of_nat (length (filter (\<lambda>r. rq_type r = CRQ_NEW) rqs))"
proof -
  show "om_step check cid t side price qty (om_next_order_id m) (slot t side m) rqs (slot t side m')"
    using assms
  proof (cases rule: moveOrder_cases)
    case keep
    then show ?thesis
      by (cases "om_state (slot t side m) = LIVE"; cases "om_state (slot t side m) = DEAD") (auto intro: om_step.intros)
  qed (auto simp: slot_set_slot newOrder_def cancelOrder_def intro: om_step.intros)
qed (use assms in \<open>cases rule: moveOrder_cases; auto simp: slot_set_slot newOrder_def cancelOrder_def\<close>)+

lemma moveOrder_ok:
  assumes "unat t < ME_MAX_TICKERS" and "\<And>s. \<exists>v. check t s qty = Inr v"
  obtains rqs m' where "moveOrder check cid t price side qty m = Inr (rqs, m')"
proof -
  obtain v where "check t side qty = Inr v" using assms(2) by blast
  then show thesis using that
    by (cases "om_state (slot t side m)"; cases "om_price (slot t side m) = price"; cases "v = ALLOWED")
      (auto simp: moveOrder_def Let_def newOrder_def cancelOrder_def)
qed

lemma moveOrders_parts:
  assumes "moveOrders check cid t bid ask qty m = Inr (rqs, m')"
  obtains r1 m1 r2 where "moveOrder check cid t bid BUY qty m = Inr (r1, m1)"
    and "moveOrder check cid t ask SELL qty m1 = Inr (r2, m')" and "rqs = r1 @ r2"
  using assms by (auto simp: moveOrders_def res_bind_eq_Inr)

section \<open>Moving orders\<close>

lemma side_indices [simp]: "side_index SELL \<noteq> side_index BUY" "side_index BUY \<noteq> side_index SELL"
  by simp_all

lemma moveOrders_run:
  assumes "unat t < ME_MAX_TICKERS" and "\<And>s. \<exists>v. check t s qty = Inr v"
  obtains r1 m1 r2 m2 where "moveOrder check cid t bid BUY qty m = Inr (r1, m1)"
    and "moveOrder check cid t ask SELL qty m1 = Inr (r2, m2)"
    and "moveOrders check cid t bid ask qty m = Inr (r1 @ r2, m2)"
proof -
  obtain r1 m1 where 1: "moveOrder check cid t bid BUY qty m = Inr (r1, m1)" by (rule moveOrder_ok[of t check qty, OF assms])
  obtain r2 m2 where 2: "moveOrder check cid t ask SELL qty m1 = Inr (r2, m2)" by (rule moveOrder_ok[of t check qty, OF assms])
  have "moveOrders check cid t bid ask qty m = Inr (r1 @ r2, m2)"
    using 1 2 check_slot_ok[OF assms(1)] by (simp add: moveOrders_def)
  then show thesis using that 1 2 by blast
qed

text \<open>C19: moving the orders of a known ticker always returns, and does to each of its two orders exactly what
  \<open>om_step\<close> prescribes for its side, its price and the next identifier: a live order at another price is cancelled, a
  dead one is sent anew where the risk check allows it, any other is left alone. No other order changes,
  the buy order goes first, and the identifiers used are consecutive.\<close>

theorem moveOrders_steps:
  assumes "unat t < ME_MAX_TICKERS" and "\<And>s. \<exists>v. check t s qty = Inr v"
  shows "\<exists>r1 r2 m' k. moveOrders check cid t bid ask qty m = Inr (r1 @ r2, m') \<and>
     k = om_next_order_id m + of_nat (length (filter (\<lambda>r. rq_type r = CRQ_NEW) r1)) \<and>
     om_step check cid t BUY bid qty (om_next_order_id m) (slot t BUY m) r1 (slot t BUY m') \<and>
     om_step check cid t SELL ask qty k (slot t SELL m) r2 (slot t SELL m') \<and>
     (\<forall>t' s. t' \<noteq> t \<longrightarrow> slot t' s m' = slot t' s m) \<and>
     om_next_order_id m' = k + of_nat (length (filter (\<lambda>r. rq_type r = CRQ_NEW) r2))"
proof -
  obtain r1 m1 r2 m2 where run: "moveOrder check cid t bid BUY qty m = Inr (r1, m1)"
    "moveOrder check cid t ask SELL qty m1 = Inr (r2, m2)" "moveOrders check cid t bid ask qty m = Inr (r1 @ r2, m2)"
    using moveOrders_run[of t check qty, OF assms] .
  note s1 = moveOrder_step[OF run(1)] and s2 = moveOrder_step[OF run(2)]
  have "slot t BUY m2 = slot t BUY m1" "slot t SELL m1 = slot t SELL m" by (rule s2(2) s1(2); simp)+
  then show ?thesis using run(3) s1 s2
    by (intro exI[of _ r1] exI[of _ r2] exI[of _ m2] exI[of _ "om_next_order_id m1"]) simp
qed

definition sample_manager :: OrderManager where
  "sample_manager = set_slot 0 BUY (new_OMOrder\<lparr>om_state := DEAD\<rparr>) new_OrderManager"

text \<open>A dead buy order and a live sell order at another price: the one is sent, the other is cancelled.\<close>

definition requoted_manager :: OrderManager where
  "requoted_manager = set_slot 0 SELL \<lparr>om_ticker_id = 0, om_order_id = 7, om_side = SELL, om_price = 105, om_qty = 10,
     om_state = LIVE\<rparr> (sample_manager\<lparr>om_next_order_id := 8\<rparr>)"

theorem moveOrders_steps_witness:
  "\<exists>b s m'. moveOrders (\<lambda>_ _ _. Inr ALLOWED) 4 0 99 101 10 requoted_manager = Inr ([b] @ [s], m') \<and>
     b = \<lparr>rq_type = CRQ_NEW, rq_client_id = 4, rq_ticker_id = 0, rq_order_id = 8, rq_side = BUY, rq_price = 99, rq_qty = 10\<rparr> \<and>
     s = \<lparr>rq_type = CRQ_CANCEL, rq_client_id = 4, rq_ticker_id = 0, rq_order_id = 7, rq_side = SELL, rq_price = 105, rq_qty = 10\<rparr> \<and>
     om_state (slot 0 BUY m') = PENDING_NEW \<and> om_state (slot 0 SELL m') = PENDING_CANCEL \<and> om_next_order_id m' = 9"
proof -
  have x: "om_state (slot 0 BUY requoted_manager) = DEAD" "om_next_order_id requoted_manager = 8"
    "slot 0 SELL requoted_manager = \<lparr>om_ticker_id = 0, om_order_id = 7, om_side = SELL, om_price = 105, om_qty = 10, om_state = LIVE\<rparr>"
    by (simp_all add: requoted_manager_def sample_manager_def slot_set_slot)
  have "unat (0 :: TickerId) < ME_MAX_TICKERS" by (simp add: size_defs)
  with moveOrders_steps[of 0 "\<lambda>_ _ _. Inr ALLOWED" 10 4 99 101 requoted_manager]
  obtain r1 r2 m' k where r: "moveOrders (\<lambda>_ _ _. Inr ALLOWED) 4 0 99 101 10 requoted_manager = Inr (r1 @ r2, m')"
    "om_step (\<lambda>_ _ _. Inr ALLOWED) 4 0 BUY 99 10 8 (slot 0 BUY requoted_manager) r1 (slot 0 BUY m')"
    "om_step (\<lambda>_ _ _. Inr ALLOWED) 4 0 SELL 101 10 k (slot 0 SELL requoted_manager) r2 (slot 0 SELL m')"
    "k = 8 + of_nat (length (filter (\<lambda>r. rq_type r = CRQ_NEW) r1))"
    "om_next_order_id m' = k + of_nat (length (filter (\<lambda>r. rq_type r = CRQ_NEW) r2))"
    unfolding x(2) by auto
  from r(2,3) show ?thesis using r(1,4,5) x by (elim om_stepE) auto
qed

section \<open>Quotes come to rest\<close>

text \<open>The answers of an exchange that takes every new order and finds every order to be cancelled.\<close>

definition confirms :: "MEClientRequest \<Rightarrow> MEClientResponse \<Rightarrow> bool" where
  "confirms q r \<longleftrightarrow> rs_ticker_id r = rq_ticker_id q \<and> rs_side r = rq_side q \<and>
     rs_type r = (if rq_type q = CRQ_NEW then ACCEPTED else CANCELLED)"

text \<open>An order that is in the market where the manager keeps it, or is out of it.\<close>

definition settled :: "TickerId \<Rightarrow> Side \<Rightarrow> OMOrder \<Rightarrow> bool" where
  "settled t s x \<longleftrightarrow> om_state x = DEAD \<or> om_state x = LIVE \<and> om_ticker_id x = t \<and> om_side x = s"

text \<open>One round: the orders are moved, and the exchange confirms every request.\<close>

definition quote_round ::
  "(TickerId \<Rightarrow> Side \<Rightarrow> Qty \<Rightarrow> RiskCheckResult res) \<Rightarrow> ClientId \<Rightarrow> TickerId \<Rightarrow> Price \<Rightarrow> Price \<Rightarrow> Qty \<Rightarrow>
     OrderManager \<Rightarrow> OrderManager \<Rightarrow> bool" where
  "quote_round check cid t bid ask qty m m' \<longleftrightarrow> (\<exists>rqs m1 rs. moveOrders check cid t bid ask qty m = Inr (rqs, m1) \<and>
     list_all2 confirms rqs rs \<and> res_fold om_onOrderUpdate rs m1 = Inr m')"

text \<open>Towards the quote: out of the market, in it elsewhere, in it where it belongs.\<close>

definition nearer :: "TickerId \<Rightarrow> Side \<Rightarrow> Price \<Rightarrow> OMOrder \<Rightarrow> OMOrder \<Rightarrow> bool" where
  "nearer t s p x y \<longleftrightarrow> settled t s y \<and> (if om_state x = LIVE \<and> om_price x \<noteq> p then om_state y = DEAD else om_state y = LIVE \<and> om_price y = p)"

lemma nearer_twice: "nearer t s p x y \<Longrightarrow> nearer t s p y z \<Longrightarrow> om_state z = LIVE \<and> om_price z = p"
  by (auto simp: nearer_def split: if_splits)

lemma step_confirmed:
  assumes "om_step check cid t s p q k x rqs y" and "settled t s x" and "check t s q = Inr ALLOWED" and "list_all2 confirms rqs rs"
  shows "nearer t s p x (fold response_step rs y)" and "list_all (\<lambda>r. rs_ticker_id r = t \<and> rs_side r = s) rs"
  using assms
  by (cases; auto simp: settled_def nearer_def confirms_def list_all2_Cons1 response_step_def)+

lemma answers_slots:
  assumes "unat t < ME_MAX_TICKERS" and "s = BUY \<or> s = SELL" and "list_all (\<lambda>r. rs_ticker_id r = t \<and> rs_side r = s) rs"
  shows "\<exists>m'. res_fold om_onOrderUpdate rs m = Inr m' \<and> slot t s m' = fold response_step rs (slot t s m) \<and>
     (\<forall>s'. side_index s' \<noteq> side_index s \<longrightarrow> slot t s' m' = slot t s' m)"
  using assms(3)
proof (induction rs arbitrary: m)
  case (Cons r rs)
  let ?m = "set_slot t s (response_step r (slot t s m)) m"
  have "om_onOrderUpdate r m = Inr ?m" using Cons.prems check_slot_ok[OF assms(1,2)] by (simp add: om_onOrderUpdate_def)
  then show ?case using Cons.IH[of ?m] Cons.prems by (auto simp: slot_set_slot)
qed simp

lemma quote_round_nearer:
  assumes t: "unat t < ME_MAX_TICKERS" and ok: "\<And>s. check t s qty = Inr ALLOWED"
    and m: "settled t BUY (slot t BUY m)" "settled t SELL (slot t SELL m)"
    and move: "moveOrders check cid t bid ask qty m = Inr (rqs, m1)" and conf: "list_all2 confirms rqs rs"
  shows "\<exists>m'. res_fold om_onOrderUpdate rs m1 = Inr m' \<and>
     nearer t BUY bid (slot t BUY m) (slot t BUY m') \<and> nearer t SELL ask (slot t SELL m) (slot t SELL m')"
proof -
  from move obtain r1 m0 r2 where run: "moveOrder check cid t bid BUY qty m = Inr (r1, m0)"
    "moveOrder check cid t ask SELL qty m0 = Inr (r2, m1)" "rqs = r1 @ r2" by (rule moveOrders_parts)
  obtain s1 s2 where s: "rs = s1 @ s2" "list_all2 confirms r1 s1" "list_all2 confirms r2 s2"
    using conf unfolding run(3) list_all2_append1 by blast
  note step = moveOrder_step[OF run(1)] moveOrder_step[OF run(2)]
  have same: "slot t SELL m0 = slot t SELL m" "slot t BUY m1 = slot t BUY m0" by (rule step(2) step(5); simp)+
  note buy = step_confirmed[OF step(1) m(1) ok s(2)]
  have sell: "nearer t SELL ask (slot t SELL m) (fold response_step s2 (slot t SELL m1))"
    "list_all (\<lambda>r. rs_ticker_id r = t \<and> rs_side r = SELL) s2"
    using step_confirmed[OF step(4) _ ok s(3)] m(2) by (simp_all add: same)
  obtain m2 where m2: "res_fold om_onOrderUpdate s1 m1 = Inr m2" "slot t BUY m2 = fold response_step s1 (slot t BUY m1)"
    "slot t SELL m2 = slot t SELL m1" using answers_slots[OF t _ buy(2), of m1] by auto
  obtain m3 where m3: "res_fold om_onOrderUpdate s2 m2 = Inr m3" "slot t SELL m3 = fold response_step s2 (slot t SELL m2)"
    "slot t BUY m3 = slot t BUY m2" using answers_slots[OF t _ sell(2), of m2] by auto
  show ?thesis using m2 m3 buy(1) sell(1) by (simp add: s(1) res_fold_append same(2))
qed

text \<open>With nothing to change, nothing is sent.\<close>

lemma moveOrders_in_place:
  assumes "unat t < ME_MAX_TICKERS" and "om_state (slot t BUY m) = LIVE" and "om_price (slot t BUY m) = bid"
    and "om_state (slot t SELL m) = LIVE" and "om_price (slot t SELL m) = ask"
  shows "moveOrders check cid t bid ask qty m = Inr ([], m)"
  using assms by (simp add: moveOrders_def moveOrder_def check_slot_ok Let_def)

text \<open>Quotes come to rest. While the risk manager allows the quantity and the exchange confirms every
  request, two rounds bring both orders of a ticker into the market at the prices asked for,
  wherever they were, a cancelled order being sent anew in the round after; from then on
  \<open>moveOrders\<close> sends nothing for these prices.\<close>

theorem quotes_come_to_rest:
  assumes "unat t < ME_MAX_TICKERS" and "\<And>s. check t s qty = Inr ALLOWED"
    and "settled t BUY (slot t BUY m)" and "settled t SELL (slot t SELL m)"
  shows "(\<exists>m1 m2. quote_round check cid t bid ask qty m m1 \<and> quote_round check cid t bid ask qty m1 m2) \<and>
     (\<forall>m1 m2. quote_round check cid t bid ask qty m m1 \<longrightarrow> quote_round check cid t bid ask qty m1 m2 \<longrightarrow>
       om_state (slot t BUY m2) = LIVE \<and> om_price (slot t BUY m2) = bid \<and>
       om_state (slot t SELL m2) = LIVE \<and> om_price (slot t SELL m2) = ask \<and>
       moveOrders check cid t bid ask qty m2 = Inr ([], m2))"
proof -
  have round: "(\<exists>m'. quote_round check cid t bid ask qty k m') \<and> (\<forall>m'. quote_round check cid t bid ask qty k m' \<longrightarrow>
      nearer t BUY bid (slot t BUY k) (slot t BUY m') \<and> nearer t SELL ask (slot t SELL k) (slot t SELL m'))"
    if k: "settled t BUY (slot t BUY k)" "settled t SELL (slot t SELL k)" for k
  proof -
    note near = quote_round_nearer[of t check qty k, OF assms(1,2) k]
    have "\<exists>v. check t s qty = Inr v" for s using assms(2) by blast
    from moveOrders_run[of t check qty, OF assms(1) this] obtain rqs k1 where move: "moveOrders check cid t bid ask qty k = Inr (rqs, k1)" by metis
    have "list_all2 confirms rqs (map (\<lambda>q. \<lparr>rs_type = if rq_type q = CRQ_NEW then ACCEPTED else CANCELLED, rs_client_id = cid,
        rs_ticker_id = rq_ticker_id q, rs_client_order_id = rq_order_id q, rs_market_order_id = 0, rs_side = rq_side q,
        rs_price = 0, rs_exec_qty = 0, rs_left_qty = 0\<rparr>) rqs)"
      by (simp add: list_all2_map2 confirms_def list_all2_same)
    from near[OF move this] move this show ?thesis using near by (fastforce simp: quote_round_def)
  qed
  have settled: "settled t s y" if "nearer t s p x y" for s p x y using that by (simp add: nearer_def)
  show ?thesis
  proof (intro conjI allI impI)
    show "\<exists>m1 m2. quote_round check cid t bid ask qty m m1 \<and> quote_round check cid t bid ask qty m1 m2"
      using round[OF assms(3,4)] round settled by meson
  next
    fix m1 m2
    assume r: "quote_round check cid t bid ask qty m m1" "quote_round check cid t bid ask qty m1 m2"
    from r(1) round[OF assms(3,4)] have n1: "nearer t BUY bid (slot t BUY m) (slot t BUY m1)"
      "nearer t SELL ask (slot t SELL m) (slot t SELL m1)" by blast+
    from r(2) round[OF settled[OF n1(1)] settled[OF n1(2)]] have n2: "nearer t BUY bid (slot t BUY m1) (slot t BUY m2)"
      "nearer t SELL ask (slot t SELL m1) (slot t SELL m2)" by blast+
    note in_place = nearer_twice[OF n1(1) n2(1)] nearer_twice[OF n1(2) n2(2)]
    show "om_state (slot t BUY m2) = LIVE" "om_price (slot t BUY m2) = bid"
      "om_state (slot t SELL m2) = LIVE" "om_price (slot t SELL m2) = ask" using in_place by simp_all
    show "moveOrders check cid t bid ask qty m2 = Inr ([], m2)"
      using moveOrders_in_place[OF assms(1)] in_place by simp
  qed
qed

theorem quotes_come_to_rest_witness:
  "\<exists>m1 m2. quote_round (\<lambda>_ _ _. Inr ALLOWED) 4 0 99 101 10 requoted_manager m1 \<and>
     quote_round (\<lambda>_ _ _. Inr ALLOWED) 4 0 99 101 10 m1 m2 \<and>
     om_price (slot 0 SELL requoted_manager) = 105 \<and> om_state (slot 0 SELL m2) = LIVE \<and> om_price (slot 0 SELL m2) = 101 \<and>
     om_state (slot 0 BUY m2) = LIVE \<and> om_price (slot 0 BUY m2) = 99 \<and>
     moveOrders (\<lambda>_ _ _. Inr ALLOWED) 4 0 99 101 10 m2 = Inr ([], m2)"
proof -
  have "settled 0 BUY (slot 0 BUY requoted_manager)" "settled 0 SELL (slot 0 SELL requoted_manager)"
    "om_price (slot 0 SELL requoted_manager) = 105"
    by (simp_all add: requoted_manager_def sample_manager_def slot_set_slot settled_def)
  moreover have "unat (0 :: TickerId) < ME_MAX_TICKERS" by (simp add: size_defs)
  ultimately show ?thesis
    using quotes_come_to_rest[of 0 "\<lambda>_ _ _. Inr ALLOWED" 10 requoted_manager 4 99 101] by blast
qed


section \<open>Orders that were never sent\<close>

text \<open>An order starts \<open>OM_INVALID\<close>, and a manager with no other order sends nothing.\<close>

definition untouched :: "OrderManager \<Rightarrow> bool" where
  "untouched m \<longleftrightarrow> (\<forall>t s. om_state (slot t s m) = OM_INVALID)"

lemma new_untouched: "untouched new_OrderManager"
  by (simp add: untouched_def slot_def new_OrderManager_def new_OMOrder_def)

lemma moveOrder_untouched: "untouched m \<Longrightarrow> moveOrder check cid t p s q m = Inr ([], m)"
  by (simp add: untouched_def moveOrder_def Let_def)

lemma moveOrders_untouched:
  "untouched m \<Longrightarrow> unat t < ME_MAX_TICKERS \<Longrightarrow> moveOrders check cid t bid ask q m = Inr ([], m)"
  by (simp add: moveOrders_def moveOrder_untouched check_slot_ok)

end
