(* ===== verification/RandomTrader.thy ===== *)
theory RandomTrader
  imports MEBookProps
begin

text \<open>
  \<^verbatim>\<open>include/client/random_trader.hpp\<close>: the algorithm that alternates between sending a random
  order and cancelling a random earlier one. The clock readings and the values of
  \<^verbatim>\<open>rand()\<close> are arguments, in the order of the calls.
\<close>

section \<open>State\<close>

record RandomTrader =
  rt_client_id :: ClientId
  rt_next_order_id :: OrderId
  rt_order_count :: nat
  rt_next_action_time :: int
  rt_cancel_next :: bool
  rt_requests :: "MEClientRequest list"
  rt_base_price :: "nat \<Rightarrow> Price"

text \<open>\<^verbatim>\<open>client_id * 1000\<close> is a product of 32-bit unsigned integers.\<close>

definition new_RandomTrader :: "ClientId \<Rightarrow> int \<Rightarrow> (nat \<Rightarrow> nat) \<Rightarrow> RandomTrader" where
  "new_RandomTrader cid now rands =
    \<lparr>rt_client_id = cid, rt_next_order_id = ucast (cid * 1000), rt_order_count = 0,
     rt_next_action_time = now + 10 * 1000000000, rt_cancel_next = False, rt_requests = [],
     rt_base_price = (\<lambda>i. word_of_nat (rands i mod 100 + 100))\<rparr>"

section \<open>The timer\<close>

definition random_request :: "nat \<Rightarrow> nat \<Rightarrow> nat \<Rightarrow> nat \<Rightarrow> RandomTrader \<Rightarrow> MEClientRequest" where
  "random_request a b c d rt =
    (let ticker_id = a mod ME_MAX_TICKERS;
         price = rt_base_price rt ticker_id + word_of_nat (b mod 10) + 1;
         qty = word_of_nat (1 + c mod 100 + 1);
         side = (if d mod 2 \<noteq> 0 then BUY else SELL) in
     \<lparr>rq_type = CRQ_NEW, rq_client_id = rt_client_id rt, rq_ticker_id = word_of_nat ticker_id,
      rq_order_id = rt_next_order_id rt, rq_side = side, rq_price = price, rq_qty = qty\<rparr>)"

text \<open>The remainder by \<^verbatim>\<open>requests_.size()\<close> is undefined while there is no request; the
  invariant below excludes it. The cancel takes the first of the four random values.\<close>

definition onTimer ::
  "int \<Rightarrow> int \<Rightarrow> nat \<times> nat \<times> nat \<times> nat \<Rightarrow> RandomTrader \<Rightarrow> (MEClientRequest list \<times> RandomTrader) res" where
  "onTimer now now' rands rt =
    (case rands of (a, b, c, d) \<Rightarrow>
     if rt_order_count rt \<ge> 10000 \<or> now < rt_next_action_time rt then Inr ([], rt)
     else
       res_bind
         (if \<not> rt_cancel_next rt then
            let request = random_request a b c d rt in
            Inr ([request], rt\<lparr>rt_next_order_id := rt_next_order_id rt + 1, rt_requests := rt_requests rt @ [request],
              rt_order_count := rt_order_count rt + 1, rt_cancel_next := True\<rparr>)
          else
            res_bind (ensure (rt_requests rt \<noteq> []) WildAccess) (\<lambda>_.
            let request = rt_requests rt ! (a mod length (rt_requests rt)) in
            Inr ([request\<lparr>rq_type := CRQ_CANCEL\<rparr>], rt\<lparr>rt_cancel_next := False\<rparr>))) (\<lambda>(rqs, rt).
       Inr (rqs, rt\<lparr>rt_next_action_time := now' + 20 * 1000 * 1000\<rparr>)))"

section \<open>Invariant\<close>

text \<open>What every request the trader sends is like.\<close>

definition moderate :: "ClientId \<Rightarrow> MEClientRequest \<Rightarrow> bool" where
  "moderate cid r \<longleftrightarrow> rq_client_id r = cid \<and> unat (rq_ticker_id r) < ME_MAX_TICKERS \<and>
     (rq_side r = BUY \<or> rq_side r = SELL) \<and> 101 \<le> unat (rq_price r) \<and> unat (rq_price r) \<le> 209 \<and>
     2 \<le> unat (rq_qty r) \<and> unat (rq_qty r) \<le> 101 \<and>
     1000 * unat cid \<le> unat (rq_order_id r) \<and> unat (rq_order_id r) < 1000 * unat cid + 10000"

definition trader_ok :: "RandomTrader \<Rightarrow> bool" where
  "trader_ok rt \<longleftrightarrow> unat (rt_client_id rt) < 4000000 \<and> rt_order_count rt \<le> 10000 \<and>
     unat (rt_next_order_id rt) = 1000 * unat (rt_client_id rt) + rt_order_count rt \<and>
     map (\<lambda>r. unat (rq_order_id r)) (rt_requests rt) =
       map (\<lambda>i. 1000 * unat (rt_client_id rt) + i) [0..<rt_order_count rt] \<and>
     list_all (\<lambda>r. moderate (rt_client_id rt) r \<and> rq_type r = CRQ_NEW) (rt_requests rt) \<and>
     (rt_cancel_next rt \<longrightarrow> rt_requests rt \<noteq> []) \<and>
     (\<forall>i. 100 \<le> unat (rt_base_price rt i) \<and> unat (rt_base_price rt i) \<le> 199)"

lemma unat_small: "n < 2 ^ LENGTH('a) \<Longrightarrow> unat (word_of_nat n :: 'a::len word) = n"
  by (simp add: unat_of_nat take_bit_nat_eq_self)

lemma new_trader_ok:
  assumes "unat cid < 4000000"
  shows "trader_ok (new_RandomTrader cid now rands)"
proof -
  have "unat (cid * 1000) = unat cid * 1000"
    using assms unat_mult_lem[of cid 1000] by simp
  then have "unat (ucast (cid * 1000) :: OrderId) = 1000 * unat cid"
    using assms by (simp add: unsigned_ucast_eq take_bit_nat_eq_self)
  moreover have "unat (word_of_nat (rands i mod 100 + 100) :: Price) = rands i mod 100 + 100" for i
    by (intro unat_small) (simp add: less_trans[of _ 200])
  moreover have "rands i mod 100 \<le> 99" for i using mod_less_divisor[of 100 "rands i"] by linarith
  ultimately show ?thesis using assms by (simp add: trader_ok_def new_RandomTrader_def)
qed

lemma random_request_moderate:
  assumes "trader_ok rt" and "rt_order_count rt < 10000"
  shows "moderate (rt_client_id rt) (random_request a b c d rt)"
proof -
  let ?t = "a mod ME_MAX_TICKERS" and ?p = "rt_base_price rt (a mod ME_MAX_TICKERS)"
  have t: "?t < ME_MAX_TICKERS" by (simp add: size_defs)
  then have tick: "unat (word_of_nat ?t :: TickerId) = ?t" by (intro unat_small) (simp add: size_defs)
  have b: "b mod 10 \<le> 9" using mod_less_divisor[of 10 b] by linarith
  have c: "c mod 100 \<le> 99" using mod_less_divisor[of 100 c] by linarith
  have base: "100 \<le> unat ?p" "unat ?p \<le> 199" using assms(1) by (simp_all add: trader_ok_def)
  have b': "unat (word_of_nat (b mod 10) :: Price) = b mod 10" using b by (intro unat_small) simp
  have "unat (?p + word_of_nat (b mod 10)) = unat ?p + b mod 10"
    using b' base b unat_add_lem[of ?p "word_of_nat (b mod 10)"] by simp
  then have price: "unat (?p + word_of_nat (b mod 10) + 1) = unat ?p + b mod 10 + 1"
    using base b unat_add_lem[of "?p + word_of_nat (b mod 10)" 1] by simp
  have "(1 :: Qty) + word_of_nat (c mod 100) + 1 = word_of_nat (1 + c mod 100 + 1)" by simp
  moreover have "unat (word_of_nat (1 + c mod 100 + 1) :: Qty) = 1 + c mod 100 + 1"
    using c by (intro unat_small) simp
  ultimately have qty: "unat ((1 :: Qty) + word_of_nat (c mod 100) + 1) = 1 + c mod 100 + 1" by simp
  have "101 \<le> unat (?p + word_of_nat (b mod 10) + 1)" "unat (?p + word_of_nat (b mod 10) + 1) \<le> 209"
    using price base b by linarith+
  then show ?thesis
    using assms t tick qty c
    by (simp add: moderate_def random_request_def Let_def trader_ok_def)
qed

section \<open>Runs\<close>

type_synonym timer_event = "int \<times> int \<times> nat \<times> nat \<times> nat \<times> nat"

primrec timer_run :: "timer_event list \<Rightarrow> RandomTrader \<Rightarrow> (MEClientRequest list \<times> RandomTrader) res" where
  "timer_run [] rt = Inr ([], rt)"
| "timer_run (e # es) rt =
    res_bind (onTimer (fst e) (fst (snd e)) (snd (snd e)) rt) (\<lambda>(rqs, rt).
    res_bind (timer_run es rt) (\<lambda>(rqs', rt).
    Inr (rqs @ rqs', rt)))"

definition is_new :: "MEClientRequest \<Rightarrow> bool" where
  "is_new r \<longleftrightarrow> rq_type r = CRQ_NEW"

text \<open>A cancel names an order that was sent.\<close>

definition cancels_sent :: "MEClientRequest list \<Rightarrow> MEClientRequest \<Rightarrow> bool" where
  "cancels_sent sent r \<longleftrightarrow> (\<exists>q \<in> set sent. r = q \<or> r = q\<lparr>rq_type := CRQ_CANCEL\<rparr>)"

lemma onTimer_step:
  assumes ok: "trader_ok rt"
  obtains rqs rt' where "onTimer now now' rands rt = Inr (rqs, rt')" and "trader_ok rt'"
    and "rt_client_id rt' = rt_client_id rt" and "list_all (moderate (rt_client_id rt)) rqs"
    and "rt_requests rt' = rt_requests rt @ filter is_new rqs" and "list_all (cancels_sent (rt_requests rt')) rqs"
proof -
  obtain a b c d where rands: "rands = (a, b, c, d)" by (cases rands)
  consider (idle) "rt_order_count rt \<ge> 10000 \<or> now < rt_next_action_time rt"
    | (new) "rt_order_count rt < 10000" "\<not> now < rt_next_action_time rt" "\<not> rt_cancel_next rt"
    | (can) "rt_order_count rt < 10000" "\<not> now < rt_next_action_time rt" "rt_cancel_next rt"
    by linarith
  then show thesis
  proof cases
    case idle
    then show thesis using that[of "[]" rt] ok rands by (simp add: onTimer_def)
  next
    case new
    let ?r = "random_request a b c d rt"
    let ?rt = "rt\<lparr>rt_next_order_id := rt_next_order_id rt + 1, rt_requests := rt_requests rt @ [?r],
        rt_order_count := rt_order_count rt + 1, rt_cancel_next := True, rt_next_action_time := now' + 20 * 1000 * 1000\<rparr>"
    have r: "moderate (rt_client_id rt) ?r" by (rule random_request_moderate[OF ok new(1)])
    have rn: "rq_type ?r = CRQ_NEW" "rq_order_id ?r = rt_next_order_id rt" by (simp_all add: random_request_def Let_def)
    have "unat (rt_next_order_id rt + 1) = unat (rt_next_order_id rt) + 1"
      using ok new(1) unat_add_lem[of "rt_next_order_id rt" 1] by (simp add: trader_ok_def)
    then have "trader_ok ?rt" using ok new(1) r rn by (simp add: trader_ok_def)
    moreover have "onTimer now now' rands rt = Inr ([?r], ?rt)" using new rands by (simp add: onTimer_def Let_def)
    ultimately show thesis using that[of "[?r]" ?rt] r rn by (simp add: is_new_def cancels_sent_def)
  next
    case can
    let ?q = "rt_requests rt ! (a mod length (rt_requests rt))"
    let ?rt = "rt\<lparr>rt_cancel_next := False, rt_next_action_time := now' + 20 * 1000 * 1000\<rparr>"
    have ne: "rt_requests rt \<noteq> []" using ok can(3) by (simp add: trader_ok_def)
    then have q: "?q \<in> set (rt_requests rt)" by simp
    then have "moderate (rt_client_id rt) ?q" using ok by (auto simp: trader_ok_def list_all_iff)
    then have m: "moderate (rt_client_id rt) (?q\<lparr>rq_type := CRQ_CANCEL\<rparr>)" by (simp add: moderate_def)
    have "onTimer now now' rands rt = Inr ([?q\<lparr>rq_type := CRQ_CANCEL\<rparr>], ?rt)"
      using can ne rands by (simp add: onTimer_def Let_def)
    moreover have "trader_ok ?rt" using ok by (simp add: trader_ok_def)
    moreover have "cancels_sent (rt_requests rt) (?q\<lparr>rq_type := CRQ_CANCEL\<rparr>)"
      using q unfolding cancels_sent_def by blast
    ultimately show thesis using that[of "[?q\<lparr>rq_type := CRQ_CANCEL\<rparr>]" ?rt] m by (simp add: is_new_def)
  qed
qed

lemma timer_run_ok:
  assumes "trader_ok rt"
  obtains rqs rt' where "timer_run es rt = Inr (rqs, rt')" and "trader_ok rt'"
    and "rt_client_id rt' = rt_client_id rt" and "list_all (moderate (rt_client_id rt)) rqs"
    and "rt_requests rt' = rt_requests rt @ filter is_new rqs" and "list_all (cancels_sent (rt_requests rt')) rqs"
  using assms
proof (induction es arbitrary: rt thesis)
  case Nil
  then show ?case by simp
next
  case (Cons e es)
  obtain rqs rt1 where 1: "onTimer (fst e) (fst (snd e)) (snd (snd e)) rt = Inr (rqs, rt1)" "trader_ok rt1"
    "rt_client_id rt1 = rt_client_id rt" "list_all (moderate (rt_client_id rt)) rqs"
    "rt_requests rt1 = rt_requests rt @ filter is_new rqs" "list_all (cancels_sent (rt_requests rt1)) rqs"
    by (rule onTimer_step[OF Cons.prems(2)])
  obtain rqs' rt2 where 2: "timer_run es rt1 = Inr (rqs', rt2)" "trader_ok rt2"
    "rt_client_id rt2 = rt_client_id rt1" "list_all (moderate (rt_client_id rt1)) rqs'"
    "rt_requests rt2 = rt_requests rt1 @ filter is_new rqs'" "list_all (cancels_sent (rt_requests rt2)) rqs'"
    using Cons.IH[OF _ 1(2)] by blast
  have "cancels_sent (rt_requests rt2) r" if "cancels_sent (rt_requests rt1) r" for r
    using that 2(5) by (auto simp: cancels_sent_def)
  then have "list_all (cancels_sent (rt_requests rt2)) rqs" using 1(6) by (auto simp: list_all_iff)
  then show ?case using 1 2 by (intro Cons.prems(1)[of "rqs @ rqs'" rt2]) simp_all
qed

text \<open>C33: whatever \<^verbatim>\<open>rand()\<close> and the clock return, the random trader of a client that the exchange has room for
  never fails and sends at most 10000 new orders, whose identifiers are 1000 times the client's
  identifier and the numbers that follow it, without a gap; it cancels only orders it has sent, and keeps
  every request within what the exchange can index: the ticker and the identifiers are within the book's arrays,
  and no two of its prices share a price level.\<close>

theorem random_trader_within_bounds:
  assumes "unat cid < ME_MAX_NUM_CLIENTS"
  shows "\<exists>rqs rt. timer_run es (new_RandomTrader cid now rands) = Inr (rqs, rt) \<and>
     length (filter is_new rqs) \<le> 10000 \<and>
     map (\<lambda>r. unat (rq_order_id r)) (filter is_new rqs) = [1000 * unat cid ..< 1000 * unat cid + length (filter is_new rqs)] \<and>
     list_all (cancels_sent (filter is_new rqs)) rqs \<and>
     list_all (\<lambda>r. unat (rq_ticker_id r) < ME_MAX_TICKERS \<and> in_index (rq_client_id r) (rq_order_id r) \<and>
       rq_qty r \<noteq> 0 \<and> priceToIndex (rq_price r) = unat (rq_price r)) rqs"
proof -
  have c: "unat cid \<le> 255" using assms by (simp add: size_defs)
  then have "trader_ok (new_RandomTrader cid now rands)" by (intro new_trader_ok) simp
  from timer_run_ok[OF this] obtain rqs rt where r: "timer_run es (new_RandomTrader cid now rands) = Inr (rqs, rt)"
    "trader_ok rt" "rt_client_id rt = cid" "list_all (moderate cid) rqs" "rt_requests rt = filter is_new rqs"
    "list_all (cancels_sent (rt_requests rt)) rqs" by (auto simp: new_RandomTrader_def)
  have ids: "map (\<lambda>r. unat (rq_order_id r)) (filter is_new rqs) = map (\<lambda>i. 1000 * unat cid + i) [0..<rt_order_count rt]"
    using r(2,3,5) by (simp add: trader_ok_def)
  have count: "length (filter is_new rqs) = rt_order_count rt" using arg_cong[OF ids, of length] by simp
  have "map (\<lambda>i. k + i) [0..<n] = [k..<k + n]" for k n :: nat by (induction n) simp_all
  then have "map (\<lambda>r. unat (rq_order_id r)) (filter is_new rqs) = [1000 * unat cid ..< 1000 * unat cid + length (filter is_new rqs)]"
    using ids by (simp add: count)
  moreover have "length (filter is_new rqs) \<le> 10000" using r(2) by (simp add: count trader_ok_def)
  moreover have "unat (rq_ticker_id q) < ME_MAX_TICKERS \<and> in_index (rq_client_id q) (rq_order_id q) \<and>
      rq_qty q \<noteq> 0 \<and> priceToIndex (rq_price q) = unat (rq_price q)" if "moderate cid q" for q
    using that c assms by (auto simp: moderate_def in_index_def size_defs priceToIndex_def)
  then have "list_all (\<lambda>r. unat (rq_ticker_id r) < ME_MAX_TICKERS \<and> in_index (rq_client_id r) (rq_order_id r) \<and>
       rq_qty r \<noteq> 0 \<and> priceToIndex (rq_price r) = unat (rq_price r)) rqs"
    using r(4) by (auto simp: list_all_iff)
  ultimately show ?thesis using r(1,5,6) by auto
qed

theorem random_trader_within_bounds_witness:
  "\<exists>rqs rt. timer_run [(11000000000, 11000000001, 3, 5, 7, 1), (12000000000, 12000000001, 4, 0, 0, 0)]
       (new_RandomTrader 7 0 (\<lambda>i. i)) = Inr (rqs, rt) \<and>
     length (filter is_new rqs) \<le> 10000 \<and>
     map (\<lambda>r. unat (rq_order_id r)) (filter is_new rqs) = [7000 ..< 7000 + length (filter is_new rqs)] \<and>
     list_all (cancels_sent (filter is_new rqs)) rqs \<and>
     list_all (\<lambda>r. unat (rq_ticker_id r) < ME_MAX_TICKERS \<and> in_index (rq_client_id r) (rq_order_id r) \<and>
       rq_qty r \<noteq> 0 \<and> priceToIndex (rq_price r) = unat (rq_price r)) rqs"
proof -
  have seven: "unat (7 :: ClientId) < ME_MAX_NUM_CLIENTS" "1000 * unat (7 :: ClientId) = 7000" by (simp_all add: size_defs)
  from random_trader_within_bounds[OF seven(1), of "[(11000000000, 11000000001, 3, 5, 7, 1), (12000000000, 12000000001, 4, 0, 0, 0)]"
      0 "\<lambda>i. i"] show ?thesis unfolding seven(2) .
qed

end
