(* ===== verification/TradeEngine.thy ===== *)
theory TradeEngine
  imports ClientBook OrderManager RandomTrader SpscQueue
begin

text \<open>
  The trading thread: \<^verbatim>\<open>src/client/trade_engine.cpp\<close> with the feature engine
  (\<^verbatim>\<open>include/client/feature_engine.hpp\<close>), the market maker and the liquidity taker
  (\<^verbatim>\<open>include/client/market_maker.hpp\<close>, \<^verbatim>\<open>liquidity_taker.hpp\<close> and their
  \<^verbatim>\<open>.cpp\<close> files). The function objects that the constructor installs are the functions
  \<open>algoOn...\<close>, which look at the algorithm chosen.
\<close>

section \<open>Features\<close>

record 'd FeatureEngine =
  mkt_price :: 'd
  agg_trade_qty_ratio :: 'd

definition new_FeatureEngine :: "'d fp \<Rightarrow> 'd FeatureEngine" where
  "new_FeatureEngine F = \<lparr>mkt_price = fnan F, agg_trade_qty_ratio = fnan F\<rparr>"

definition two_sided :: "BBO \<Rightarrow> bool" where
  "two_sided x \<longleftrightarrow> bid_price x \<noteq> Price_INVALID \<and> ask_price x \<noteq> Price_INVALID"

definition feature_onOrderBookUpdate :: "'d fp \<Rightarrow> BBO \<Rightarrow> 'd FeatureEngine \<Rightarrow> 'd FeatureEngine" where
  "feature_onOrderBookUpdate F x fe =
    (if two_sided x then
       fe\<lparr>mkt_price := fdiv F (of_u64 F (bid_price x * ucast (bid_qty x) + ask_price x * ucast (ask_qty x)))
          (of_integer F (uint (ask_qty x + bid_qty x)))\<rparr>
     else fe)"

definition feature_onTradeUpdate :: "'d fp \<Rightarrow> MEMarketUpdate \<Rightarrow> BBO \<Rightarrow> 'd FeatureEngine \<Rightarrow> 'd FeatureEngine" where
  "feature_onTradeUpdate F u x fe =
    (if two_sided x then
       fe\<lparr>agg_trade_qty_ratio := fdiv F (of_integer F (uint (mu_qty u)))
          (of_integer F (uint (if mu_side u = BUY then ask_qty x else bid_qty x)))\<rparr>
     else fe)"

section \<open>The market maker and the liquidity taker\<close>

record 'd TradeEngineCfg =
  clip :: Qty
  threshold :: 'd
  risk_cfg :: "'d RiskCfg"

type_synonym risk_gate = "TickerId \<Rightarrow> Side \<Rightarrow> Qty \<Rightarrow> RiskCheckResult res"

definition maker_onOrderBookUpdate ::
  "'d fp \<Rightarrow> (nat \<Rightarrow> 'd TradeEngineCfg) \<Rightarrow> risk_gate \<Rightarrow> ClientId \<Rightarrow> 'd FeatureEngine \<Rightarrow> TickerId \<Rightarrow> BBO \<Rightarrow>
     OrderManager \<Rightarrow> (MEClientRequest list \<times> OrderManager) res" where
  "maker_onOrderBookUpdate F cfg check cid fe t x m =
    (let fair_price = mkt_price fe in
     if two_sided x \<and> fneq F fair_price (fnan F) then
       res_bind (ensure (unat t < ME_MAX_TICKERS) WildAccess) (\<lambda>_.
       let thr = threshold (cfg (unat t));
           bid = bid_price x - (if fle F thr (fsub F fair_price (of_u64 F (bid_price x))) then 0 else 1);
           ask = ask_price x + (if fle F thr (fsub F (of_u64 F (ask_price x)) fair_price) then 0 else 1) in
       moveOrders check cid t bid ask (clip (cfg (unat t))) m)
     else Inr ([], m))"

definition taker_onTradeUpdate ::
  "'d fp \<Rightarrow> (nat \<Rightarrow> 'd TradeEngineCfg) \<Rightarrow> risk_gate \<Rightarrow> ClientId \<Rightarrow> 'd FeatureEngine \<Rightarrow> MEMarketUpdate \<Rightarrow> BBO \<Rightarrow>
     OrderManager \<Rightarrow> (MEClientRequest list \<times> OrderManager) res" where
  "taker_onTradeUpdate F cfg check cid fe u x m =
    (let agg_qty_ratio = agg_trade_qty_ratio fe; t = mu_ticker_id u in
     if two_sided x \<and> fneq F agg_qty_ratio (fnan F) then
       res_bind (ensure (unat t < ME_MAX_TICKERS) WildAccess) (\<lambda>_.
       let c = clip (cfg (unat t)) in
       if fle F (threshold (cfg (unat t))) agg_qty_ratio then
         if mu_side u = BUY then moveOrders check cid t (ask_price x) Price_INVALID c m
         else moveOrders check cid t Price_INVALID (bid_price x) c m
       else Inr ([], m))
     else Inr ([], m))"

section \<open>The trade engine\<close>

record 'd TradeEngine =
  te_client_id :: ClientId
  te_algo_type :: AlgoType
  te_books :: "nat \<Rightarrow> MarketOrderBook"
  outgoing_requests :: "MEClientRequest spscQueue"
  incoming_responses :: "MEClientResponse spscQueue"
  incoming_market_updates :: "MEMarketUpdate spscQueue"
  te_features :: "'d FeatureEngine"
  te_positions :: "'d PositionKeeper"
  te_orders :: OrderManager
  te_cfg :: "nat \<Rightarrow> 'd TradeEngineCfg"
  te_random :: RandomTrader

text \<open>\<open>orders0\<close> and \<open>levels0\<close> are what the memory of the books' arrays holds at first;
  \<open>now\<close> and \<open>rands\<close> are read by the constructor of the random trader.\<close>

definition new_TradeEngine ::
  "'d fp \<Rightarrow> (nat \<Rightarrow> nat \<Rightarrow> ptr) \<Rightarrow> (nat \<Rightarrow> nat \<Rightarrow> ptr) \<Rightarrow> int \<Rightarrow> (nat \<Rightarrow> nat) \<Rightarrow> ClientId \<Rightarrow> AlgoType \<Rightarrow>
     (nat \<Rightarrow> 'd TradeEngineCfg) \<Rightarrow> MEClientRequest spscQueue \<Rightarrow> MEClientResponse spscQueue \<Rightarrow>
     MEMarketUpdate spscQueue \<Rightarrow> 'd TradeEngine" where
  "new_TradeEngine F orders0 levels0 now rands cid algo cfg rq rs mu =
    \<lparr>te_client_id = cid, te_algo_type = algo,
     te_books = (\<lambda>i. new_MarketOrderBook (orders0 i) (levels0 i) (word_of_nat i)),
     outgoing_requests = rq, incoming_responses = rs, incoming_market_updates = mu,
     te_features = new_FeatureEngine F, te_positions = (\<lambda>_. new_PositionInfo F),
     te_orders = new_OrderManager, te_cfg = cfg, te_random = new_RandomTrader cid now rands\<rparr>"

definition te_sendClientRequest :: "MEClientRequest \<Rightarrow> 'd TradeEngine \<Rightarrow> 'd TradeEngine" where
  "te_sendClientRequest r e = e\<lparr>outgoing_requests := push r (outgoing_requests e)\<rparr>"

definition te_gate :: "'d fp \<Rightarrow> 'd TradeEngine \<Rightarrow> risk_gate" where
  "te_gate F e = checkPreTradeRisk F (\<lambda>i. risk_cfg (te_cfg e i)) (te_positions e)"

text \<open>What an algorithm's use of the order manager does to the engine.\<close>

definition with_orders ::
  "(MEClientRequest list \<times> OrderManager) res \<Rightarrow> 'd TradeEngine \<Rightarrow> 'd TradeEngine res" where
  "with_orders r e = res_bind r (\<lambda>(rqs, m). Inr (fold te_sendClientRequest rqs (e\<lparr>te_orders := m\<rparr>)))"

definition algoOnOrderBookUpdate :: "'d fp \<Rightarrow> TickerId \<Rightarrow> BBO \<Rightarrow> 'd TradeEngine \<Rightarrow> 'd TradeEngine res" where
  "algoOnOrderBookUpdate F t x e =
    (if te_algo_type e = MAKER then
       with_orders (maker_onOrderBookUpdate F (te_cfg e) (te_gate F e) (te_client_id e) (te_features e) t x (te_orders e)) e
     else Inr e)"

definition algoOnTradeUpdate :: "'d fp \<Rightarrow> MEMarketUpdate \<Rightarrow> BBO \<Rightarrow> 'd TradeEngine \<Rightarrow> 'd TradeEngine res" where
  "algoOnTradeUpdate F u x e =
    (if te_algo_type e = TAKER then
       with_orders (taker_onTradeUpdate F (te_cfg e) (te_gate F e) (te_client_id e) (te_features e) u x (te_orders e)) e
     else Inr e)"

definition algoOnOrderUpdate :: "MEClientResponse \<Rightarrow> 'd TradeEngine \<Rightarrow> 'd TradeEngine res" where
  "algoOnOrderUpdate r e =
    (if te_algo_type e = MAKER \<or> te_algo_type e = TAKER then
       res_bind (om_onOrderUpdate r (te_orders e)) (\<lambda>m. Inr (e\<lparr>te_orders := m\<rparr>))
     else Inr e)"

definition te_onOrderBookUpdate :: "'d fp \<Rightarrow> TickerId \<Rightarrow> BBO \<Rightarrow> 'd TradeEngine \<Rightarrow> 'd TradeEngine res" where
  "te_onOrderBookUpdate F t x e =
    res_bind (keeper_updateBBO F t x (te_positions e)) (\<lambda>k.
    let e = e\<lparr>te_positions := k, te_features := feature_onOrderBookUpdate F x (te_features e)\<rparr> in
    algoOnOrderBookUpdate F t x e)"

definition te_onTradeUpdate :: "'d fp \<Rightarrow> MEMarketUpdate \<Rightarrow> BBO \<Rightarrow> 'd TradeEngine \<Rightarrow> 'd TradeEngine res" where
  "te_onTradeUpdate F u x e =
    algoOnTradeUpdate F u x (e\<lparr>te_features := feature_onTradeUpdate F u x (te_features e)\<rparr>)"

definition te_onOrderUpdate :: "'d fp \<Rightarrow> MEClientResponse \<Rightarrow> 'd TradeEngine \<Rightarrow> 'd TradeEngine res" where
  "te_onOrderUpdate F r e =
    res_bind (if rs_type r = FILLED then keeper_addFill F r (te_positions e) else Inr (te_positions e)) (\<lambda>k.
    algoOnOrderUpdate r (e\<lparr>te_positions := k\<rparr>))"

text \<open>A market update: the book of its ticker handles it and calls the engine back.\<close>

definition te_callback :: "'d fp \<Rightarrow> engine_call \<Rightarrow> BBO \<Rightarrow> 'd TradeEngine \<Rightarrow> 'd TradeEngine res" where
  "te_callback F call x e =
    (case call of
       OnTradeUpdate u \<Rightarrow> te_onTradeUpdate F u x e
     | OnOrderBookUpdate t p s \<Rightarrow> te_onOrderBookUpdate F t x e)"

definition te_onMarketUpdate :: "'d fp \<Rightarrow> MEMarketUpdate \<Rightarrow> 'd TradeEngine \<Rightarrow> 'd TradeEngine res" where
  "te_onMarketUpdate F u e =
    res_bind (ensure (unat (mu_ticker_id u) \<le> ME_MAX_TICKERS) FatalExit) (\<lambda>_.
    res_bind (ensure (unat (mu_ticker_id u) < ME_MAX_TICKERS) WildAccess) (\<lambda>_.
    res_bind (onMarketUpdate u (te_books e (unat (mu_ticker_id u)))) (\<lambda>(call, b).
    te_callback F call (bbo b) (e\<lparr>te_books := (te_books e)(unat (mu_ticker_id u) := b)\<rparr>))))"

definition onRandomTimer :: "int \<Rightarrow> int \<Rightarrow> nat \<times> nat \<times> nat \<times> nat \<Rightarrow> 'd TradeEngine \<Rightarrow> 'd TradeEngine res" where
  "onRandomTimer now now' rands e =
    (if te_algo_type e = RANDOM then
       res_bind (onTimer now now' rands (te_random e)) (\<lambda>(rqs, rt).
       Inr (fold te_sendClientRequest rqs (e\<lparr>te_random := rt\<rparr>)))
     else Inr e)"

text \<open>The reading loop of \<^verbatim>\<open>run\<close>, written twice in the code: look at the front of a queue,
  handle it, release it, until nothing is there; bounded by a number of messages. The queue is a
  component of the state that the handler works on.\<close>

primrec serve_queue ::
  "('s \<Rightarrow> 'a spscQueue) \<Rightarrow> ('a spscQueue \<Rightarrow> 's \<Rightarrow> 's) \<Rightarrow> ('a \<Rightarrow> 's \<Rightarrow> 's res) \<Rightarrow> nat \<Rightarrow> 's \<Rightarrow> 's res" where
  "serve_queue getq setq handle 0 s = Inl Diverged"
| "serve_queue getq setq handle (Suc n) s =
    (case getNextRead (getq s) of
       None \<Rightarrow> Inr s
     | Some x \<Rightarrow>
         res_bind (handle x s) (\<lambda>s.
         res_bind (updateNextRead (getq s)) (\<lambda>q.
         serve_queue getq setq handle n (setq q s))))"

definition serve_responses :: "nat \<Rightarrow> 'd fp \<Rightarrow> 'd TradeEngine \<Rightarrow> 'd TradeEngine res" where
  "serve_responses n F =
    serve_queue incoming_responses (\<lambda>q e. e\<lparr>incoming_responses := q\<rparr>) (te_onOrderUpdate F) n"

definition serve_updates :: "nat \<Rightarrow> 'd fp \<Rightarrow> 'd TradeEngine \<Rightarrow> 'd TradeEngine res" where
  "serve_updates n F =
    serve_queue incoming_market_updates (\<lambda>q e. e\<lparr>incoming_market_updates := q\<rparr>) (te_onMarketUpdate F) n"

definition te_round :: "'d fp \<Rightarrow> int \<Rightarrow> int \<Rightarrow> nat \<times> nat \<times> nat \<times> nat \<Rightarrow> 'd TradeEngine \<Rightarrow> 'd TradeEngine res" where
  "te_round F now now' rands e =
    res_bind (onRandomTimer now now' rands e) (\<lambda>e.
    res_bind (serve_responses (num_elements (incoming_responses e) + 1) F e) (\<lambda>e.
    serve_updates (num_elements (incoming_market_updates e) + 1) F e))"

section \<open>What handling leaves alone\<close>

lemma fold_send: "fold te_sendClientRequest rqs e = e\<lparr>outgoing_requests := fold push rqs (outgoing_requests e)\<rparr>"
  by (induction rqs arbitrary: e) (simp_all add: te_sendClientRequest_def)

text \<open>Handlers touch neither incoming queue, nor the algorithm and the client.\<close>

definition same_inbox :: "'d TradeEngine \<Rightarrow> 'd TradeEngine \<Rightarrow> bool" where
  "same_inbox e e' \<longleftrightarrow> incoming_responses e' = incoming_responses e \<and>
     incoming_market_updates e' = incoming_market_updates e \<and> te_algo_type e' = te_algo_type e \<and>
     te_client_id e' = te_client_id e \<and> te_cfg e' = te_cfg e"

lemma with_orders_inbox: "with_orders r e = Inr e' \<Longrightarrow> same_inbox e e'"
  by (auto simp: with_orders_def res_bind_eq_Inr fold_send same_inbox_def)

lemma te_onOrderUpdate_inbox: "te_onOrderUpdate F r e = Inr e' \<Longrightarrow> same_inbox e e'"
  by (auto simp: te_onOrderUpdate_def algoOnOrderUpdate_def res_bind_eq_Inr same_inbox_def split: if_splits)

lemma te_callback_inbox:
  assumes "te_callback F call x e = Inr e'"
  shows "same_inbox e e'"
proof (cases call)
  case (OnTradeUpdate u)
  then show ?thesis using assms
    by (auto simp: te_callback_def te_onTradeUpdate_def algoOnTradeUpdate_def same_inbox_def split: if_splits
        dest!: with_orders_inbox)
next
  case (OnOrderBookUpdate t p s)
  then show ?thesis using assms
    by (auto simp: te_callback_def te_onOrderBookUpdate_def algoOnOrderBookUpdate_def res_bind_eq_Inr Let_def
        same_inbox_def split: if_splits dest!: with_orders_inbox)
qed

lemma te_onMarketUpdate_inbox:
  assumes "te_onMarketUpdate F u e = Inr e'"
  shows "same_inbox e e'"
proof -
  obtain call b where "te_callback F call (bbo b) (e\<lparr>te_books := (te_books e)(unat (mu_ticker_id u) := b)\<rparr>) = Inr e'"
    using assms by (auto simp: te_onMarketUpdate_def res_bind_eq_Inr)
  from te_callback_inbox[OF this] show ?thesis by (simp add: same_inbox_def)
qed

end
