(* ===== verification/TradingProps.thy ===== *)
theory TradingProps
  imports TradeEngine
begin

text \<open>
  The trading thread as a whole, \<^verbatim>\<open>src/client/trade_engine.cpp\<close>: in which order a turn of its
  loop serves its queues, what an update for a ticker it does not have does, and which requests
  the algorithms send.
\<close>

section \<open>The reading loop\<close>

lemma res_fold_frame:
  assumes "\<And>x s. f x (g s) = res_bind (f x s) (\<lambda>s. Inr (g s))"
  shows "res_fold f xs (g s) = res_bind (res_fold f xs s) (\<lambda>s. Inr (g s))"
proof (induction xs arbitrary: s)
  case (Cons x xs)
  then show ?case by (cases "f x s") (simp_all add: assms)
qed simp

text \<open>A handler that neither reads nor writes the queue the loop reads from.\<close>

locale queue_loop =
  fixes getq :: "'s \<Rightarrow> 'a spscQueue"
    and setq :: "'a spscQueue \<Rightarrow> 's \<Rightarrow> 's"
    and handle :: "'a \<Rightarrow> 's \<Rightarrow> 's res"
  assumes get_set: "getq (setq q s) = q"
    and set_get: "setq (getq s) s = s"
    and set_set: "setq q (setq q' s) = setq q s"
    and handle_get: "handle x s = Inr s' \<Longrightarrow> getq s' = getq s"
    and handle_set: "handle x (setq q s) = res_bind (handle x s) (\<lambda>s. Inr (setq q s))"
begin

text \<open>The loop handles exactly what the queue holds, in order, and leaves it empty.\<close>

lemma serve_all:
  assumes "queue_ok (getq s)" and "num_elements (getq s) < store_size (getq s)" and "num_elements (getq s) < n"
    and "res_fold handle (contents (getq s)) s = Inr s'"
  shows "\<exists>q. serve_queue getq setq handle n s = Inr (setq q s') \<and> contents q = []"
  using assms
proof (induction n arbitrary: s s')
  case (Suc n)
  show ?case
  proof (cases "contents (getq s)")
    case Nil
    then have "getNextRead (getq s) = None" using getNextRead_contents[OF Suc.prems(1,2)] by simp
    moreover have "s' = s" using Suc.prems(4) Nil by simp
    ultimately show ?thesis using Nil set_get[of s] by (intro exI[of _ "getq s"]) simp
  next
    case (Cons x xs)
    then have front: "getNextRead (getq s) = Some x" using getNextRead_contents[OF Suc.prems(1,2)] by simp
    obtain s1 where s1: "handle x s = Inr s1" "res_fold handle xs s1 = Inr s'"
      using Suc.prems(4) Cons by (auto simp: res_bind_eq_Inr)
    have box: "getq s1 = getq s" by (rule handle_get[OF s1(1)])
    obtain q1 where q1: "updateNextRead (getq s) = Inr q1" "queue_ok q1" "contents q1 = xs"
      "store_size q1 = store_size (getq s)" "num_elements q1 = num_elements (getq s) - 1"
      using updateNextRead_contents[OF Suc.prems(1)] Cons by auto
    have "num_elements (getq s) \<noteq> 0" using Cons by (metis length_contents length_0_conv list.distinct(1))
    then have sizes: "num_elements q1 < store_size q1" "num_elements q1 < n" using Suc.prems(2,3) q1(4,5) by linarith+
    have "res_fold handle xs (setq q1 s1) = Inr (setq q1 s')"
      using res_fold_frame[of handle "setq q1" xs s1, OF handle_set] s1(2) by simp
    then obtain q where "serve_queue getq setq handle n (setq q1 s1) = Inr (setq q (setq q1 s'))" "contents q = []"
      using Suc.IH[of "setq q1 s1"] q1(2,3) sizes by (auto simp: get_set)
    then show ?thesis using front s1(1) box q1(1) by (auto simp: set_set)
  qed
qed simp

end

section \<open>A turn of the loop\<close>

lemma onRandomTimer_inbox: "onRandomTimer now now' rands e = Inr e' \<Longrightarrow> same_inbox e e'"
  by (auto simp: onRandomTimer_def res_bind_eq_Inr fold_send same_inbox_def split: if_splits)

lemma algoOnOrderUpdate_frame:
  "algoOnOrderUpdate r (e\<lparr>incoming_responses := q\<rparr>) =
     res_bind (algoOnOrderUpdate r e) (\<lambda>e. Inr (e\<lparr>incoming_responses := q\<rparr>))"
  by (cases "om_onOrderUpdate r (te_orders e)") (simp_all add: algoOnOrderUpdate_def)

lemma te_onOrderUpdate_frame:
  "te_onOrderUpdate F r (e\<lparr>incoming_responses := q\<rparr>) =
     res_bind (te_onOrderUpdate F r e) (\<lambda>e. Inr (e\<lparr>incoming_responses := q\<rparr>))"
proof -
  have *: "e\<lparr>incoming_responses := q, te_positions := k\<rparr> = e\<lparr>te_positions := k\<rparr>\<lparr>incoming_responses := q\<rparr>" for k by simp
  show ?thesis
    unfolding te_onOrderUpdate_def res_bind_assoc * algoOnOrderUpdate_frame by simp
qed

lemma with_orders_frame:
  "with_orders r (e\<lparr>incoming_market_updates := q\<rparr>) = res_bind (with_orders r e) (\<lambda>e. Inr (e\<lparr>incoming_market_updates := q\<rparr>))"
  "with_orders r (e\<lparr>incoming_responses := q'\<rparr>) = res_bind (with_orders r e) (\<lambda>e. Inr (e\<lparr>incoming_responses := q'\<rparr>))"
  by (cases r; auto simp: with_orders_def fold_send)+

lemma te_gate_frame [simp]:
  "te_gate F (e\<lparr>incoming_market_updates := q\<rparr>) = te_gate F e" "te_gate F (e\<lparr>incoming_responses := q'\<rparr>) = te_gate F e"
  by (simp_all add: te_gate_def)

lemma algo_frame:
  "algoOnTradeUpdate F u x (e\<lparr>incoming_market_updates := q\<rparr>) =
     res_bind (algoOnTradeUpdate F u x e) (\<lambda>e. Inr (e\<lparr>incoming_market_updates := q\<rparr>))"
  "algoOnTradeUpdate F u x (e\<lparr>incoming_responses := q'\<rparr>) =
     res_bind (algoOnTradeUpdate F u x e) (\<lambda>e. Inr (e\<lparr>incoming_responses := q'\<rparr>))"
  "algoOnOrderBookUpdate F t x (e\<lparr>incoming_market_updates := q\<rparr>) =
     res_bind (algoOnOrderBookUpdate F t x e) (\<lambda>e. Inr (e\<lparr>incoming_market_updates := q\<rparr>))"
  "algoOnOrderBookUpdate F t x (e\<lparr>incoming_responses := q'\<rparr>) =
     res_bind (algoOnOrderBookUpdate F t x e) (\<lambda>e. Inr (e\<lparr>incoming_responses := q'\<rparr>))"
  by (simp_all only: algoOnTradeUpdate_def algoOnOrderBookUpdate_def with_orders_frame te_gate_frame) simp_all

lemma te_fields_commute:
  "e\<lparr>incoming_market_updates := q, te_features := f\<rparr> = e\<lparr>te_features := f\<rparr>\<lparr>incoming_market_updates := q\<rparr>"
  "e\<lparr>incoming_responses := q', te_features := f\<rparr> = e\<lparr>te_features := f\<rparr>\<lparr>incoming_responses := q'\<rparr>"
  "e\<lparr>incoming_market_updates := q, te_positions := k\<rparr> = e\<lparr>te_positions := k\<rparr>\<lparr>incoming_market_updates := q\<rparr>"
  "e\<lparr>incoming_responses := q', te_positions := k\<rparr> = e\<lparr>te_positions := k\<rparr>\<lparr>incoming_responses := q'\<rparr>"
  "e\<lparr>incoming_market_updates := q, te_books := b\<rparr> = e\<lparr>te_books := b\<rparr>\<lparr>incoming_market_updates := q\<rparr>"
  "e\<lparr>incoming_responses := q', te_books := b\<rparr> = e\<lparr>te_books := b\<rparr>\<lparr>incoming_responses := q'\<rparr>"
  by simp_all

lemma te_callback_frame:
  "te_callback F call x (e\<lparr>incoming_market_updates := q\<rparr>) =
     res_bind (te_callback F call x e) (\<lambda>e. Inr (e\<lparr>incoming_market_updates := q\<rparr>))"
  "te_callback F call x (e\<lparr>incoming_responses := q'\<rparr>) =
     res_bind (te_callback F call x e) (\<lambda>e. Inr (e\<lparr>incoming_responses := q'\<rparr>))"
proof -
  have t: "te_onTradeUpdate F u x (e\<lparr>incoming_market_updates := q\<rparr>) =
      res_bind (te_onTradeUpdate F u x e) (\<lambda>e. Inr (e\<lparr>incoming_market_updates := q\<rparr>))"
    "te_onTradeUpdate F u x (e\<lparr>incoming_responses := q'\<rparr>) =
      res_bind (te_onTradeUpdate F u x e) (\<lambda>e. Inr (e\<lparr>incoming_responses := q'\<rparr>))" for u
    unfolding te_onTradeUpdate_def te_fields_commute algo_frame by simp_all
  have b: "te_onOrderBookUpdate F t x (e\<lparr>incoming_market_updates := q\<rparr>) =
      res_bind (te_onOrderBookUpdate F t x e) (\<lambda>e. Inr (e\<lparr>incoming_market_updates := q\<rparr>))"
    "te_onOrderBookUpdate F t x (e\<lparr>incoming_responses := q'\<rparr>) =
      res_bind (te_onOrderBookUpdate F t x e) (\<lambda>e. Inr (e\<lparr>incoming_responses := q'\<rparr>))" for t
    unfolding te_onOrderBookUpdate_def Let_def te_fields_commute algo_frame res_bind_assoc
    by (simp_all cong del: res_bind_cong)
  show "te_callback F call x (e\<lparr>incoming_market_updates := q\<rparr>) =
       res_bind (te_callback F call x e) (\<lambda>e. Inr (e\<lparr>incoming_market_updates := q\<rparr>))"
    "te_callback F call x (e\<lparr>incoming_responses := q'\<rparr>) =
       res_bind (te_callback F call x e) (\<lambda>e. Inr (e\<lparr>incoming_responses := q'\<rparr>))"
    unfolding te_callback_def by (cases call; simp add: t b)+
qed

lemma te_onMarketUpdate_frame:
  "te_onMarketUpdate F u (e\<lparr>incoming_market_updates := q\<rparr>) =
     res_bind (te_onMarketUpdate F u e) (\<lambda>e. Inr (e\<lparr>incoming_market_updates := q\<rparr>))"
  "te_onMarketUpdate F u (e\<lparr>incoming_responses := q'\<rparr>) =
     res_bind (te_onMarketUpdate F u e) (\<lambda>e. Inr (e\<lparr>incoming_responses := q'\<rparr>))"
  unfolding te_onMarketUpdate_def te_fields_commute te_callback_frame split_def res_bind_assoc
  by (simp_all cong del: res_bind_cong)

interpretation response_loop: queue_loop incoming_responses "\<lambda>q e. e\<lparr>incoming_responses := q\<rparr>" "te_onOrderUpdate F"
  for F :: "'d fp"
proof unfold_locales
  show "te_onOrderUpdate F r e = Inr e' \<Longrightarrow> incoming_responses e' = incoming_responses e" for r e e'
    by (drule te_onOrderUpdate_inbox) (simp add: same_inbox_def)
qed (simp_all add: te_onOrderUpdate_frame)

interpretation update_loop: queue_loop incoming_market_updates "\<lambda>q e. e\<lparr>incoming_market_updates := q\<rparr>" "te_onMarketUpdate F"
  for F :: "'d fp"
proof unfold_locales
  show "te_onMarketUpdate F u e = Inr e' \<Longrightarrow> incoming_market_updates e' = incoming_market_updates e" for u e e'
    by (drule te_onMarketUpdate_inbox) (simp add: same_inbox_def)
qed (simp_all add: te_onMarketUpdate_frame)

lemma res_fold_keeps:
  assumes "\<And>x s s'. f x s = Inr s' \<Longrightarrow> g s' = g s"
  shows "res_fold f xs s = Inr s' \<Longrightarrow> g s' = g s"
proof (induction xs arbitrary: s)
  case (Cons x xs)
  then show ?case using assms by (auto simp: res_bind_eq_Inr)
qed simp

text \<open>C23: a turn of the trading loop that finds its queues below capacity first lets the random timer act, which
  only the random trader uses, and then handles every response it has, in order, and then
  every market update, in order, each exactly once, and leaves both queues empty: for all three algorithms the
  turn is the timer followed by these two folds, and its loops end within the bounds of the model.\<close>

theorem round_serves_in_order:
  assumes "queue_ok (incoming_responses e)" and "num_elements (incoming_responses e) < store_size (incoming_responses e)"
    and "queue_ok (incoming_market_updates e)"
    and "num_elements (incoming_market_updates e) < store_size (incoming_market_updates e)"
    and "onRandomTimer now now' rands e = Inr e0"
    and "res_fold (te_onOrderUpdate F) (contents (incoming_responses e)) e0 = Inr e1"
    and "res_fold (te_onMarketUpdate F) (contents (incoming_market_updates e)) e1 = Inr e2"
  shows "(\<exists>q1 q2. te_round F now now' rands e = Inr (e2\<lparr>incoming_responses := q1, incoming_market_updates := q2\<rparr>) \<and>
     contents q1 = [] \<and> contents q2 = []) \<and> (te_algo_type e \<noteq> RANDOM \<longrightarrow> e0 = e)"
proof -
  have e0: "incoming_responses e0 = incoming_responses e" "incoming_market_updates e0 = incoming_market_updates e"
    using onRandomTimer_inbox[OF assms(5)] by (simp_all add: same_inbox_def)
  obtain q1 where q1: "serve_responses (num_elements (incoming_responses e0) + 1) F e0 = Inr (e1\<lparr>incoming_responses := q1\<rparr>)"
    "contents q1 = []"
    using response_loop.serve_all[of e0 "num_elements (incoming_responses e0) + 1" F e1] assms(1,2,6)
    by (auto simp: serve_responses_def e0)
  let ?e = "e1\<lparr>incoming_responses := q1\<rparr>"
  have box: "incoming_market_updates e1 = incoming_market_updates e"
    unfolding e0(2)[symmetric] by (rule res_fold_keeps[OF _ assms(6)]) (drule te_onOrderUpdate_inbox, simp add: same_inbox_def)
  note framed = res_fold_frame[of "te_onMarketUpdate F" "\<lambda>e. e\<lparr>incoming_responses := q1\<rparr>", OF te_onMarketUpdate_frame(2)]
  have "res_fold (te_onMarketUpdate F) (contents (incoming_market_updates ?e)) ?e = Inr (e2\<lparr>incoming_responses := q1\<rparr>)"
    using assms(7) by (simp add: box framed)
  then obtain q2 where "serve_updates (num_elements (incoming_market_updates ?e) + 1) F ?e =
      Inr (e2\<lparr>incoming_responses := q1, incoming_market_updates := q2\<rparr>)" "contents q2 = []"
    using update_loop.serve_all[of ?e "num_elements (incoming_market_updates ?e) + 1" F "e2\<lparr>incoming_responses := q1\<rparr>"]
      assms(3,4) box by (auto simp: serve_updates_def)
  moreover have "te_algo_type e \<noteq> RANDOM \<longrightarrow> e0 = e" using assms(5) by (auto simp: onRandomTimer_def)
  ultimately show ?thesis using q1 assms(5) by (auto simp: te_round_def)
qed

text \<open>A small engine for the witnesses, with queues of four messages.\<close>

definition no_request :: MEClientRequest where
  "no_request = \<lparr>rq_type = CRQ_INVALID, rq_client_id = ClientId_INVALID, rq_ticker_id = TickerId_INVALID,
     rq_order_id = OrderId_INVALID, rq_side = SIDE_INVALID, rq_price = Price_INVALID, rq_qty = Qty_INVALID\<rparr>"

definition day_response :: MEClientResponse where
  "day_response = \<lparr>rs_type = ACCEPTED, rs_client_id = 4, rs_ticker_id = 0, rs_client_order_id = 1,
     rs_market_order_id = 1, rs_side = BUY, rs_price = 100, rs_exec_qty = 0, rs_left_qty = 10\<rparr>"

definition day_update :: MEMarketUpdate where
  "day_update = \<lparr>mu_type = MU_TRADE, mu_order_id = OrderId_INVALID, mu_ticker_id = 0, mu_side = SELL,
     mu_price = 100, mu_qty = 10, mu_priority = Priority_INVALID\<rparr>"

definition sample_engine :: "AlgoType \<Rightarrow> int TradeEngine" where
  "sample_engine algo = new_TradeEngine int_fp (\<lambda>_ _. None) (\<lambda>_ _. None) 0 (\<lambda>_. 0) 4 algo
     (\<lambda>_. \<lparr>clip = 10, threshold = 0, risk_cfg = \<lparr>max_order_size = 10, max_position = 10, max_loss = 0\<rparr>\<rparr>)
     (newQueue no_request 4) (newQueue day_response 4) (newQueue day_update 4)"

text \<open>The random trader: its timer is due, and a response waits.\<close>

theorem round_serves_in_order_witness:
  "\<exists>r e q1 q2. te_round int_fp 10000000000 0 (0, 0, 0, 0) (sample_engine RANDOM\<lparr>incoming_responses := push day_response (newQueue day_response 4)\<rparr>) =
       Inr (e\<lparr>incoming_responses := q1, incoming_market_updates := q2\<rparr>) \<and> contents q1 = [] \<and> contents q2 = [] \<and>
     outgoing_requests e = push r (outgoing_requests (sample_engine RANDOM)) \<and> rq_type r = CRQ_NEW"
proof -
  let ?q = "push day_response (newQueue day_response 4)"
  let ?e = "sample_engine RANDOM\<lparr>incoming_responses := ?q\<rparr>"
  have q: "queue_ok ?q" "contents ?q = [day_response]" "store_size ?q = 4" "num_elements ?q = 1"
    using queue_ok_push[of "newQueue day_response 4" day_response] by (simp_all add: newQueue_ok) (simp_all add: newQueue_def)
  have parts: "incoming_market_updates (sample_engine RANDOM) = newQueue day_update 4" "te_algo_type (sample_engine RANDOM) = RANDOM"
    "te_random (sample_engine RANDOM) = new_RandomTrader 4 0 (\<lambda>_. 0)"
    by (simp_all add: sample_engine_def new_TradeEngine_def)
  obtain r rt where "onTimer 10000000000 0 (0, 0, 0, 0) (new_RandomTrader 4 0 (\<lambda>_. 0)) = Inr ([r], rt)" "rq_type r = CRQ_NEW"
    by (simp add: onTimer_def new_RandomTrader_def random_request_def Let_def)
  then obtain e0 where e0: "onRandomTimer 10000000000 0 (0, 0, 0, 0) ?e = Inr e0" "te_algo_type e0 = RANDOM"
    "outgoing_requests e0 = push r (outgoing_requests (sample_engine RANDOM))"
    by (simp add: onRandomTimer_def parts te_sendClientRequest_def)
  have run: "te_onOrderUpdate int_fp day_response e0 = Inr e0"
    by (simp add: te_onOrderUpdate_def algoOnOrderUpdate_def day_response_def e0(2))
  from round_serves_in_order[of ?e 10000000000 0 "(0, 0, 0, 0)" e0 int_fp e0 e0]
  have "\<exists>q1 q2. te_round int_fp 10000000000 0 (0, 0, 0, 0) ?e = Inr (e0\<lparr>incoming_responses := q1, incoming_market_updates := q2\<rparr>) \<and>
      contents q1 = [] \<and> contents q2 = []"
    using q e0(1) run by (simp add: parts newQueue_ok) (simp add: newQueue_def)
  then show ?thesis using e0(3) \<open>rq_type r = CRQ_NEW\<close> by blast
qed

section \<open>What the algorithms send\<close>

lemma maker_untouched:
  assumes "untouched m" and "maker_onOrderBookUpdate F cfg check cid fe t x m = Inr (rqs, m')"
  shows "rqs = [] \<and> m' = m"
  using assms by (auto simp: maker_onOrderBookUpdate_def Let_def res_bind_eq_Inr moveOrders_untouched
      split: if_splits)

lemma taker_untouched:
  assumes "untouched m" and "taker_onTradeUpdate F cfg check cid fe u x m = Inr (rqs, m')"
  shows "rqs = [] \<and> m' = m"
  using assms by (auto simp: taker_onTradeUpdate_def Let_def res_bind_eq_Inr moveOrders_untouched
      split: if_splits)

text \<open>An engine whose algorithm keeps orders, that has asked for nothing and has been told nothing.\<close>

definition silent :: "'d TradeEngine \<Rightarrow> bool" where
  "silent e \<longleftrightarrow> (te_algo_type e = MAKER \<or> te_algo_type e = TAKER) \<and> untouched (te_orders e) \<and>
     num_elements (outgoing_requests e) = 0 \<and> num_elements (incoming_responses e) = 0"

lemma silent_fields [simp]:
  "silent (e\<lparr>te_features := f\<rparr>) = silent e" "silent (e\<lparr>te_positions := k\<rparr>) = silent e"
  "silent (e\<lparr>te_books := b\<rparr>) = silent e" "silent (e\<lparr>incoming_market_updates := q\<rparr>) = silent e"
  by (simp_all add: silent_def)

lemma with_orders_silent:
  assumes "silent e" and "\<And>rqs m. r = Inr (rqs, m) \<Longrightarrow> rqs = [] \<and> m = te_orders e" and "with_orders r e = Inr e'"
  shows "silent e'"
proof -
  obtain rqs m where "r = Inr (rqs, m)" using assms(3) by (auto simp: with_orders_def res_bind_eq_Inr)
  then show ?thesis using assms by (simp add: with_orders_def)
qed

lemma te_callback_silent:
  assumes "silent e" and "te_callback F call x e = Inr e'"
  shows "silent e'"
proof (cases call)
  case (OnTradeUpdate u)
  let ?e = "e\<lparr>te_features := feature_onTradeUpdate F u x (te_features e)\<rparr>"
  have e: "silent ?e" "untouched (te_orders ?e)" using assms(1) by (simp_all add: silent_def)
  have run: "algoOnTradeUpdate F u x ?e = Inr e'"
    using assms(2) OnTradeUpdate by (simp add: te_callback_def te_onTradeUpdate_def)
  show ?thesis
  proof (cases "te_algo_type ?e = TAKER")
    case True
    show ?thesis
      by (rule with_orders_silent[OF e(1) taker_untouched[OF e(2)]]) (use run True in \<open>auto simp: algoOnTradeUpdate_def\<close>)
  next
    case False
    then have "e' = ?e" using run by (simp only: algoOnTradeUpdate_def if_False sum.inject)
    then show ?thesis using e(1) by simp
  qed
next
  case (OnOrderBookUpdate t p s)
  then obtain k where k: "algoOnOrderBookUpdate F t x
      (e\<lparr>te_positions := k, te_features := feature_onOrderBookUpdate F x (te_features e)\<rparr>) = Inr e'"
    using assms(2) by (auto simp: te_callback_def te_onOrderBookUpdate_def res_bind_eq_Inr Let_def)
  let ?e = "e\<lparr>te_positions := k, te_features := feature_onOrderBookUpdate F x (te_features e)\<rparr>"
  have e: "silent ?e" "untouched (te_orders ?e)" using assms(1) by (simp_all add: silent_def)
  show ?thesis
  proof (cases "te_algo_type ?e = MAKER")
    case True
    show ?thesis
      by (rule with_orders_silent[OF e(1) maker_untouched[OF e(2)]]) (use k True in \<open>auto simp: algoOnOrderBookUpdate_def\<close>)
  next
    case False
    then have "e' = ?e" using k by (simp only: algoOnOrderBookUpdate_def if_False sum.inject)
    then show ?thesis using e(1) by simp
  qed
qed

lemma te_onMarketUpdate_silent:
  assumes "silent e" and "te_onMarketUpdate F u e = Inr e'"
  shows "silent e'"
proof -
  obtain call b where "te_callback F call (bbo b) (e\<lparr>te_books := (te_books e)(unat (mu_ticker_id u) := b)\<rparr>) = Inr e'"
    using assms(2) by (auto simp: te_onMarketUpdate_def res_bind_eq_Inr)
  then show ?thesis by (rule te_callback_silent[rotated]) (simp add: assms(1))
qed

lemma serve_updates_silent: "silent e \<Longrightarrow> serve_updates n F e = Inr e' \<Longrightarrow> silent e'"
  unfolding serve_updates_def
proof (induction n arbitrary: e)
  case (Suc n)
  show ?case
  proof (cases "getNextRead (incoming_market_updates e)")
    case None
    then show ?thesis using Suc.prems by simp
  next
    case (Some u)
    with Suc.prems(2) obtain e1 q where "te_onMarketUpdate F u e = Inr e1"
      and rest: "serve_queue incoming_market_updates (\<lambda>q e. e\<lparr>incoming_market_updates := q\<rparr>) (te_onMarketUpdate F) n
        (e1\<lparr>incoming_market_updates := q\<rparr>) = Inr e'"
      by (auto simp: res_bind_eq_Inr)
    then have "silent e1" using Suc.prems(1) te_onMarketUpdate_silent by blast
    then show ?thesis using Suc.IH[OF _ rest] by simp
  qed
qed simp

lemma te_round_silent:
  assumes "silent e" and "te_round F now now' rands e = Inr e'"
  shows "silent e'"
proof -
  have "onRandomTimer now now' rands e = Inr e" "serve_responses (num_elements (incoming_responses e) + 1) F e = Inr e"
    using assms(1) by (auto simp: silent_def onRandomTimer_def serve_responses_def getNextRead_def)
  then show ?thesis using assms serve_updates_silent[OF assms(1)] by (simp add: te_round_def)
qed

text \<open>A day of the trading program: turns of its loop, market updates that arrive, the gateway that
  takes requests to the exchange, and responses, which the exchange sends only to a client it
  has had a request from. The list is what the gateway has taken.\<close>

inductive trading_day :: "'d fp \<Rightarrow> 'd TradeEngine \<Rightarrow> 'd TradeEngine \<times> MEClientRequest list \<Rightarrow> bool"
  for F e0 where
  day_starts: "trading_day F e0 (e0, [])"
| turn: "trading_day F e0 (e, taken) \<Longrightarrow> te_round F now now' rands e = Inr e' \<Longrightarrow> trading_day F e0 (e', taken)"
| update_arrives: "trading_day F e0 (e, taken) \<Longrightarrow>
    trading_day F e0 (e\<lparr>incoming_market_updates := push u (incoming_market_updates e)\<rparr>, taken)"
| gateway_takes: "trading_day F e0 (e, taken) \<Longrightarrow> getNextRead (outgoing_requests e) = Some r \<Longrightarrow>
    updateNextRead (outgoing_requests e) = Inr q \<Longrightarrow>
    trading_day F e0 (e\<lparr>outgoing_requests := q\<rparr>, taken @ [r])"
| response_arrives: "trading_day F e0 (e, taken) \<Longrightarrow> taken \<noteq> [] \<Longrightarrow>
    trading_day F e0 (e\<lparr>incoming_responses := push r (incoming_responses e)\<rparr>, taken)"

lemma trading_day_silent:
  assumes "trading_day F e0 s" and "silent e0"
  shows "silent (fst s) \<and> snd s = []"
  using assms
proof (induction rule: trading_day.induct)
  case (turn e taken now now' rands e')
  then show ?case using te_round_silent[OF _ turn.hyps(2)] by simp
next
  case (gateway_takes e taken r q)
  then have "num_elements (outgoing_requests e) = 0" by (simp add: silent_def)
  then show ?case using gateway_takes by (simp add: getNextRead_def)
qed auto

lemma new_TradeEngine_silent:
  "algo = MAKER \<or> algo = TAKER \<Longrightarrow>
    silent (new_TradeEngine F orders0 levels0 now rands cid algo cfg (newQueue rq n1) (newQueue rs n2) mu)"
  by (auto simp: silent_def new_TradeEngine_def new_untouched newQueue_def)

text \<open>C34: the market maker and the liquidity taker never trade. Whatever updates arrive, on no day
  does either send a single request: its orders start in the state \<^verbatim>\<open>INVALID\<close>, for
  which \<^verbatim>\<open>moveOrder\<close> does nothing, and no response ever takes them out of it.\<close>

theorem maker_and_taker_never_trade:
  assumes "algo = MAKER \<or> algo = TAKER"
    and "trading_day F (new_TradeEngine F orders0 levels0 start rands cid algo cfg (newQueue rq n1) (newQueue rs n2) mu)
      (e, taken)"
  shows "num_elements (outgoing_requests e) = 0 \<and> taken = []"
  using trading_day_silent[OF assms(2) new_TradeEngine_silent[OF assms(1)]] by (simp add: silent_def)

text \<open>Two updates arrive and the loop turns.\<close>

theorem maker_and_taker_never_trade_witness:
  "\<exists>e. trading_day int_fp (sample_engine MAKER) (e, []) \<and> num_elements (incoming_market_updates e) = 1 \<and>
     num_elements (outgoing_requests e) = 0"
proof -
  let ?e = "(sample_engine MAKER)\<lparr>incoming_market_updates :=
     push day_update (incoming_market_updates (sample_engine MAKER))\<rparr>"
  have "te_round int_fp 0 0 (0, 0, 0, 0) (sample_engine MAKER) = Inr (sample_engine MAKER)"
    by (simp add: te_round_def onRandomTimer_def serve_responses_def serve_updates_def getNextRead_def
        sample_engine_def new_TradeEngine_def newQueue_def)
  from turn[OF day_starts this] have day: "trading_day int_fp (sample_engine MAKER) (?e, [])"
    by (rule update_arrives)
  have "num_elements (outgoing_requests ?e) = 0 \<and> [] = ([] :: MEClientRequest list)"
    using maker_and_taker_never_trade[OF _ day[unfolded sample_engine_def]] by (simp add: sample_engine_def)
  moreover have "num_elements (incoming_market_updates ?e) = 1"
    by (simp add: sample_engine_def new_TradeEngine_def newQueue_def push_def updateNextWrite_def setNextWrite_def)
  ultimately show ?thesis using day by blast
qed

section \<open>Orders and limits\<close>

text \<open>What the risk manager asks of a new order, at the positions and with the limits of the engine.\<close>

definition within_limits :: "'d fp \<Rightarrow> 'd TradeEngine \<Rightarrow> MEClientRequest \<Rightarrow> bool" where
  "within_limits F e r \<longleftrightarrow> (let t = unat (rq_ticker_id r); c = risk_cfg (te_cfg e t); P = te_positions e t in
     t < ME_MAX_TICKERS \<and> rq_qty r = clip (te_cfg e t) \<and> rq_qty r \<le> max_order_size c \<and>
     \<bar>pos_of P + sideToValue (rq_side r) * sint (rq_qty r)\<bar> \<le> sint (max_position c) \<and> \<not> fless F (total_pnl P) (max_loss c))"

lemma within_limits_cong:
  "te_cfg e' = te_cfg e \<Longrightarrow> te_positions e' = te_positions e \<Longrightarrow> within_limits F e' r = within_limits F e r"
  by (simp add: within_limits_def)

lemma gate_allows:
  assumes "te_gate F e t s q = Inr ALLOWED" and "rq_ticker_id r = t" and "rq_side r = s" and "rq_qty r = q" and "q = clip (te_cfg e (unat t))"
  shows "within_limits F e r"
  using assms by (auto simp: te_gate_def checkPreTradeRisk_def res_bind_eq_Inr position_checkPreTradeRisk_def within_limits_def
      not_less split: if_splits)

lemma moveOrder_new:
  assumes "moveOrder check cid t p s q m = Inr (rqs, m')"
  shows "list_all (\<lambda>r. rq_type r = CRQ_NEW \<longrightarrow> rq_ticker_id r = t \<and> rq_side r = s \<and> rq_price r = p \<and> rq_qty r = q \<and> check t s q = Inr ALLOWED) rqs"
  using moveOrder_step(1)[OF assms] by (cases rule: om_stepE) auto

lemma moveOrders_new:
  assumes "moveOrders (te_gate F e) cid t bid ask (clip (te_cfg e (unat t))) m = Inr (rqs, m')"
  shows "list_all (\<lambda>r. rq_type r = CRQ_NEW \<longrightarrow> within_limits F e r) rqs"
proof -
  obtain r1 m1 r2 where run: "moveOrder (te_gate F e) cid t bid BUY (clip (te_cfg e (unat t))) m = Inr (r1, m1)"
    "moveOrder (te_gate F e) cid t ask SELL (clip (te_cfg e (unat t))) m1 = Inr (r2, m')" and "rqs = r1 @ r2"
    using moveOrders_parts[OF assms] by metis
  then show ?thesis using moveOrder_new[OF run(1)] moveOrder_new[OF run(2)] gate_allows[of F e t]
    by (auto simp: list_all_iff)
qed

text \<open>What a handler has sent.\<close>

definition sends_checked :: "'d fp \<Rightarrow> 'd TradeEngine \<Rightarrow> 'd TradeEngine \<Rightarrow> bool" where
  "sends_checked F e e' \<longleftrightarrow> (\<exists>rqs. outgoing_requests e' = fold push rqs (outgoing_requests e) \<and>
     list_all (\<lambda>r. rq_type r = CRQ_NEW \<longrightarrow> within_limits F e' r) rqs)"

lemma sends_nothing: "outgoing_requests e' = outgoing_requests e \<Longrightarrow> sends_checked F e e'"
  unfolding sends_checked_def by (rule exI[of _ "[]"]) simp

lemma with_orders_checked:
  assumes "with_orders x e = Inr e'" and "\<And>rqs m. x = Inr (rqs, m) \<Longrightarrow> list_all (\<lambda>r. rq_type r = CRQ_NEW \<longrightarrow> within_limits F e r) rqs"
  shows "sends_checked F e e'"
proof -
  obtain rqs m where x: "x = Inr (rqs, m)" and e': "e' = e\<lparr>te_orders := m, outgoing_requests := fold push rqs (outgoing_requests e)\<rparr>"
    using assms(1) by (auto simp: with_orders_def res_bind_eq_Inr fold_send)
  have "within_limits F e' = within_limits F e" by (rule ext, rule within_limits_cong) (simp_all add: e')
  then show ?thesis unfolding sends_checked_def using assms(2)[OF x] by (intro exI[of _ rqs]) (simp add: e')
qed

lemma maker_checked:
  "maker_onOrderBookUpdate F (te_cfg e) (te_gate F e) cid fe t x m = Inr (rqs, m') \<Longrightarrow>
     list_all (\<lambda>r. rq_type r = CRQ_NEW \<longrightarrow> within_limits F e r) rqs"
  by (auto simp: maker_onOrderBookUpdate_def Let_def res_bind_eq_Inr dest: moveOrders_new split: if_splits)

lemma taker_checked:
  "taker_onTradeUpdate F (te_cfg e) (te_gate F e) cid fe u x m = Inr (rqs, m') \<Longrightarrow>
     list_all (\<lambda>r. rq_type r = CRQ_NEW \<longrightarrow> within_limits F e r) rqs"
  by (auto simp: taker_onTradeUpdate_def Let_def res_bind_eq_Inr dest: moveOrders_new split: if_splits)

lemma algo_checked:
  "algoOnTradeUpdate F u x e = Inr e' \<Longrightarrow> sends_checked F e e'"
  "algoOnOrderBookUpdate F t x e = Inr e' \<Longrightarrow> sends_checked F e e'"
  by (auto simp: algoOnTradeUpdate_def algoOnOrderBookUpdate_def sends_nothing split: if_splits
      elim!: with_orders_checked dest: taker_checked maker_checked)

lemma te_callback_checked:
  assumes "te_callback F call x e = Inr e'"
  shows "sends_checked F e e'"
proof (cases call)
  case (OnTradeUpdate u)
  then have "algoOnTradeUpdate F u x (e\<lparr>te_features := feature_onTradeUpdate F u x (te_features e)\<rparr>) = Inr e'"
    using assms by (simp add: te_callback_def te_onTradeUpdate_def)
  from algo_checked(1)[OF this] show ?thesis by (simp add: sends_checked_def)
next
  case (OnOrderBookUpdate t p s)
  then obtain k where "algoOnOrderBookUpdate F t x
      (e\<lparr>te_positions := k, te_features := feature_onOrderBookUpdate F x (te_features e)\<rparr>) = Inr e'"
    using assms by (auto simp: te_callback_def te_onOrderBookUpdate_def res_bind_eq_Inr Let_def)
  from algo_checked(2)[OF this] show ?thesis by (simp add: sends_checked_def)
qed

lemma te_onOrderUpdate_sends_nothing: "te_onOrderUpdate F r e = Inr e' \<Longrightarrow> outgoing_requests e' = outgoing_requests e"
  by (auto simp: te_onOrderUpdate_def algoOnOrderUpdate_def res_bind_eq_Inr split: if_splits)

text \<open>C30: the market maker and the liquidity taker trade within their limits. From whatever state, the new orders
  that the trade engine sends while it handles a market update or a response are for the configured clip, which is
  then at most the largest order size; if all of the order is filled the position stays within the
  largest position, and the result is not below the loss limit, at the positions the engine then keeps. The
  theorem is not about the random trader, whose orders come from its timer and which asks nobody
  (\<open>random_timer_ignores_limits\<close>).\<close>

theorem orders_within_limits:
  assumes "te_onMarketUpdate F u e = Inr e' \<or> te_onOrderUpdate F r e = Inr e'"
  shows "\<exists>rqs. outgoing_requests e' = fold push rqs (outgoing_requests e) \<and>
     list_all (\<lambda>r. rq_type r = CRQ_NEW \<longrightarrow> within_limits F e' r) rqs"
  using assms
proof
  assume "te_onMarketUpdate F u e = Inr e'"
  then obtain call b where "te_callback F call (bbo b) (e\<lparr>te_books := (te_books e)(unat (mu_ticker_id u) := b)\<rparr>) = Inr e'"
    by (auto simp: te_onMarketUpdate_def res_bind_eq_Inr)
  from te_callback_checked[OF this] show ?thesis by (simp add: sends_checked_def)
next
  assume "te_onOrderUpdate F r e = Inr e'"
  from te_onOrderUpdate_sends_nothing[OF this] show ?thesis using sends_nothing[of e' e F] by (simp add: sends_checked_def)
qed

text \<open>A taker whose buy order is dead, on a book quoted at 99 and 101, sees a trade that is large for the bid.\<close>

definition quoted_book :: MarketOrderBook where
  "quoted_book = (new_MarketOrderBook (\<lambda>_. None) (\<lambda>_. None) 0)\<lparr>bbo := new_BBO\<lparr>bid_price := 99, ask_price := 101, bid_qty := 5, ask_qty := 5\<rparr>\<rparr>"

definition taking_engine :: "int TradeEngine" where
  "taking_engine = (sample_engine TAKER)\<lparr>te_books := (\<lambda>_. quoted_book), te_orders := sample_manager\<rparr>"

theorem orders_within_limits_witness:
  "\<exists>e' rqs. te_onMarketUpdate int_fp day_update taking_engine = Inr e' \<and>
     num_elements (outgoing_requests taking_engine) = 0 \<and> num_elements (outgoing_requests e') = 1 \<and>
     outgoing_requests e' = fold push rqs (outgoing_requests taking_engine) \<and>
     list_all (\<lambda>r. rq_type r = CRQ_NEW \<longrightarrow> within_limits int_fp e' r) rqs"
proof -
  obtain e' where e': "te_onMarketUpdate int_fp day_update taking_engine = Inr e'" "num_elements (outgoing_requests e') = 1"
  proof -
    have book: "onMarketUpdate day_update quoted_book = Inr (OnTradeUpdate day_update, quoted_book)"
      by (simp add: onMarketUpdate_def touches_best_def quoted_book_def new_MarketOrderBook_def day_update_def head_of_def)
    let ?x = "bbo quoted_book" and ?fe = "feature_onTradeUpdate int_fp day_update (bbo quoted_book) (te_features taking_engine)"
    have x: "two_sided ?x" "bid_price ?x = 99" "bid_qty ?x = 5" by (simp_all add: quoted_book_def two_sided_def Price_INVALID_def)
    then have fe: "agg_trade_qty_ratio ?fe = 2" by (simp add: feature_onTradeUpdate_def day_update_def int_fp_def)
    have gate: "te_gate int_fp taking_engine 0 BUY 10 = Inr ALLOWED"
      by (simp add: te_gate_def taking_engine_def sample_engine_def new_TradeEngine_def checkPreTradeRisk_def position_checkPreTradeRisk_def
          size_defs new_PositionInfo_def pos_of_def int_fp_def)
    have slots: "om_state (slot 0 BUY sample_manager) = DEAD" "om_state (slot 0 SELL sample_manager) = OM_INVALID"
      by (simp_all add: sample_manager_def slot_set_slot) (simp add: slot_def new_OrderManager_def new_OMOrder_def)
    then obtain r m where moved: "moveOrders (te_gate int_fp taking_engine) 4 0 Price_INVALID 99 10 sample_manager = Inr ([r], m)"
      by (simp add: moveOrders_def moveOrder_def check_slot_def size_defs newOrder_def gate slot_set_slot Let_def)
    have parts: "te_algo_type taking_engine = TAKER" "te_client_id taking_engine = 4" "te_orders taking_engine = sample_manager"
      "te_books taking_engine = (\<lambda>_. quoted_book)" "outgoing_requests taking_engine = newQueue no_request 4"
      "clip (te_cfg taking_engine 0) = 10" "threshold (te_cfg taking_engine 0) = 0"
      by (simp_all add: taking_engine_def sample_engine_def new_TradeEngine_def)
    have "taker_onTradeUpdate int_fp (te_cfg taking_engine) (te_gate int_fp taking_engine) 4 ?fe day_update ?x sample_manager = Inr ([r], m)"
      using moved x fe parts(6,7) by (simp add: taker_onTradeUpdate_def day_update_def size_defs Let_def) (simp add: int_fp_def)
    moreover have "te_gate int_fp (taking_engine\<lparr>te_books := k, te_features := f\<rparr>) = te_gate int_fp taking_engine" for k f by (simp add: te_gate_def)
    moreover have "mu_ticker_id day_update = 0" by (simp add: day_update_def)
    ultimately have "\<exists>e'. te_onMarketUpdate int_fp day_update taking_engine = Inr e' \<and>
        outgoing_requests e' = push r (newQueue no_request 4)"
      by (simp add: te_onMarketUpdate_def book parts te_callback_def te_onTradeUpdate_def algoOnTradeUpdate_def with_orders_def
          te_sendClientRequest_def size_defs)
    then show thesis using that by (auto simp: newQueue_def push_def updateNextWrite_def setNextWrite_def)
  qed
  have "num_elements (outgoing_requests taking_engine) = 0"
    by (simp add: taking_engine_def sample_engine_def new_TradeEngine_def newQueue_def)
  then show ?thesis using e' orders_within_limits[of int_fp day_update taking_engine e'] by blast
qed

text \<open>The timer of the random trader does the same under any limits and any positions.\<close>

lemma random_timer_ignores_limits:
  "onRandomTimer now now' rands (e\<lparr>te_cfg := cfg, te_positions := k\<rparr>) =
     res_bind (onRandomTimer now now' rands e) (\<lambda>e'. Inr (e'\<lparr>te_cfg := cfg, te_positions := k\<rparr>))"
  by (cases "onTimer now now' rands (te_random e)") (auto simp: onRandomTimer_def fold_send)

section \<open>Orders without a price\<close>

lemma moveOrder_dead:
  assumes "om_state (slot t s m) = DEAD" and "check t s q = Inr ALLOWED"
  shows "\<exists>m'. moveOrder check cid t p s q m = Inr ([\<lparr>rq_type = CRQ_NEW, rq_client_id = cid, rq_ticker_id = t,
      rq_order_id = om_next_order_id m, rq_side = s, rq_price = p, rq_qty = q\<rparr>], m')"
  using assms by (simp add: moveOrder_def newOrder_def Let_def)

text \<open>The liquidity taker means \<^verbatim>\<open>Price_INVALID\<close> as no order on that side, but
  \<^verbatim>\<open>moveOrder\<close> sends it as a price: after a large trade on the sell side a taker whose
  buy order is dead sends a buy order at the largest price there is, one that no passive order
  is too expensive for.\<close>

theorem taker_sends_unpriced_order:
  assumes "two_sided x" and "fneq F (agg_trade_qty_ratio fe) (fnan F)"
    and "fle F (threshold (cfg (unat (mu_ticker_id u)))) (agg_trade_qty_ratio fe)"
    and "unat (mu_ticker_id u) < ME_MAX_TICKERS" and "mu_side u \<noteq> BUY"
    and "om_state (slot (mu_ticker_id u) BUY m) = DEAD"
    and "check (mu_ticker_id u) BUY (clip (cfg (unat (mu_ticker_id u)))) = Inr ALLOWED" and "\<And>s q. \<exists>v. check (mu_ticker_id u) s q = Inr v"
  shows "\<exists>r rqs m'. taker_onTradeUpdate F cfg check cid fe u x m = Inr (r # rqs, m') \<and>
     rq_type r = CRQ_NEW \<and> rq_side r = BUY \<and> rq_qty r = clip (cfg (unat (mu_ticker_id u))) \<and>
     (\<forall>passive. \<not> limit_excludes (rq_side r) (rq_price r) passive)"
proof -
  let ?t = "mu_ticker_id u" and ?c = "clip (cfg (unat (mu_ticker_id u)))"
  obtain r1 m1 r2 m2 where run: "moveOrder check cid ?t Price_INVALID BUY ?c m = Inr (r1, m1)"
    "moveOrders check cid ?t Price_INVALID (bid_price x) ?c m = Inr (r1 @ r2, m2)"
    by (rule moveOrders_run[of ?t check ?c, OF assms(4,8)])
  have r1: "r1 = [\<lparr>rq_type = CRQ_NEW, rq_client_id = cid, rq_ticker_id = ?t, rq_order_id = om_next_order_id m,
      rq_side = BUY, rq_price = Price_INVALID, rq_qty = ?c\<rparr>]"
    using moveOrder_dead[of ?t BUY m check ?c cid Price_INVALID, OF assms(6,7)] run(1) by auto
  have "\<not> limit_excludes BUY Price_INVALID p" for p
    by (simp add: limit_excludes_def Price_INVALID_def not_less)
  then show ?thesis using assms(1-5) run(2) r1 by (simp add: taker_onTradeUpdate_def Let_def)
qed

text \<open>A book quoted at 99 and 101, a trade on the sell side, and no limit of the risk manager.\<close>

theorem taker_sends_unpriced_order_witness:
  "\<exists>r rqs m'. taker_onTradeUpdate int_fp (\<lambda>_. \<lparr>clip = 10, threshold = 1, risk_cfg = sample_risk\<rparr>) (\<lambda>_ _ _. Inr ALLOWED) 4
      \<lparr>mkt_price = 100, agg_trade_qty_ratio = 5\<rparr> day_update (new_BBO\<lparr>bid_price := 99, ask_price := 101\<rparr>) sample_manager =
      Inr (r # rqs, m') \<and>
     rq_type r = CRQ_NEW \<and> rq_side r = BUY \<and> rq_qty r = 10 \<and>
     (\<forall>passive. \<not> limit_excludes (rq_side r) (rq_price r) passive)"
  using taker_sends_unpriced_order[where F = int_fp and cfg = "\<lambda>_. \<lparr>clip = 10, threshold = 1, risk_cfg = sample_risk\<rparr>"
      and check = "\<lambda>_ _ _. Inr ALLOWED" and cid = 4 and u = day_update
      and fe = "\<lparr>mkt_price = 100, agg_trade_qty_ratio = 5\<rparr>" and x = "new_BBO\<lparr>bid_price := 99, ask_price := 101\<rparr>"
      and m = sample_manager]
  by (simp add: two_sided_def int_fp_def Price_INVALID_def day_update_def size_defs sample_manager_def slot_set_slot)

section \<open>Unknown tickers\<close>

text \<open>The first identifier that is no ticker passes the assertion and indexes past the books; the
  others are caught.\<close>

lemma ticker_eight_passes_assert:
  "te_onMarketUpdate F (u\<lparr>mu_ticker_id := 8\<rparr>) e = Inl WildAccess"
  "te_onMarketUpdate F (u\<lparr>mu_ticker_id := 9\<rparr>) e = Inl FatalExit"
  by (simp_all add: te_onMarketUpdate_def size_defs)

end
