(* ===== verification/TradingMain.thy ===== *)
theory TradingMain
  imports TradeEngine
begin

text \<open>
  \<^verbatim>\<open>src/client/trading_main.cpp\<close>: what the trading program makes of its command line, up
  to the trade engine it creates. \<^verbatim>\<open>atof\<close> is an argument, as all arithmetic of doubles is;
  \<^verbatim>\<open>atoi\<close> is undefined beyond the range of \<^verbatim>\<open>int\<close>, where the model reads on.
\<close>

section \<open>Numbers\<close>

definition is_space :: "char \<Rightarrow> bool" where
  "is_space c \<longleftrightarrow> of_char c = (32 :: nat) \<or> (9 \<le> (of_char c :: nat) \<and> (of_char c :: nat) \<le> 13)"

definition is_digit :: "char \<Rightarrow> bool" where
  "is_digit c \<longleftrightarrow> 48 \<le> (of_char c :: nat) \<and> (of_char c :: nat) \<le> 57"

definition atoi :: "string \<Rightarrow> int" where
  "atoi s =
    (let s = dropWhile is_space s; number = (\<lambda>s. int (of_digits (takeWhile is_digit s))) in
     if s \<noteq> [] \<and> hd s = CHR ''-'' then - number (tl s)
     else if s \<noteq> [] \<and> hd s = CHR ''+'' then number (tl s)
     else number s)"

lemma to_string_not_Nil [simp]: "to_string n \<noteq> []"
  by (cases "n < 10") (simp_all add: to_string.simps[of n])

lemma atoi_to_string: "atoi (to_string n) = int n"
proof -
  obtain c cs where c: "to_string n = c # cs" by (cases "to_string n") auto
  have digits: "is_digit x" if "x \<in> set (c # cs)" for x
    using to_string_digits[of x n] that c by (simp add: is_digit_def)
  have "is_digit c" by (rule digits) simp
  then have "48 \<le> (of_char c :: nat)" by (simp add: is_digit_def)
  then have first: "\<not> is_space c" "c \<noteq> CHR ''-''" "c \<noteq> CHR ''+''" by (simp add: is_space_def, auto)
  have "takeWhile is_digit (c # cs) = c # cs" using digits by (simp add: takeWhile_eq_all_conv)
  then show ?thesis using first c of_digits_to_string[of n] by (simp add: atoi_def Let_def)
qed

section \<open>The configuration of the tickers\<close>

text \<open>The loop over the arguments by fives. When fewer than five are left, it reads the null
  pointer behind the last argument, or beyond it; the assignment evaluates its right side first.\<close>

fun parse_cfg ::
  "(string \<Rightarrow> 'd) \<Rightarrow> nat \<Rightarrow> string list \<Rightarrow> (nat \<Rightarrow> 'd TradeEngineCfg) \<Rightarrow> (nat \<Rightarrow> 'd TradeEngineCfg) res" where
  "parse_cfg atof t [] cfg = Inr cfg"
| "parse_cfg atof t (a # b # c # d # e # args) cfg =
    res_bind (ensure (t < ME_MAX_TICKERS) OutOfRange) (\<lambda>_.
    parse_cfg atof (t + 1) args (cfg(t :=
      \<lparr>clip = word_of_int (atoi a), threshold = atof b,
       risk_cfg = \<lparr>max_order_size = word_of_int (atoi c), max_position = word_of_int (atoi d), max_loss = atof e\<rparr>\<rparr>)))"
| "parse_cfg atof t args cfg = Inl WildAccess"

definition default_cfg :: "'d fp \<Rightarrow> nat \<Rightarrow> 'd TradeEngineCfg" where
  "default_cfg F = (\<lambda>_. \<lparr>clip = 0, threshold = of_integer F 0,
     risk_cfg = \<lparr>max_order_size = 0, max_position = 0, max_loss = of_integer F 0\<rparr>\<rparr>)"

text \<open>\<^verbatim>\<open>argv\<close> without the name of the program. The queues hold
  \<^verbatim>\<open>ME_MAX_CLIENTS_UPDATES\<close> messages each; what their slots and the arrays of the books hold at first, the
  clock and \<^verbatim>\<open>rand()\<close> are arguments.\<close>

definition trading_main ::
  "'d fp \<Rightarrow> (string \<Rightarrow> 'd) \<Rightarrow> (nat \<Rightarrow> nat \<Rightarrow> ptr) \<Rightarrow> (nat \<Rightarrow> nat \<Rightarrow> ptr) \<Rightarrow> int \<Rightarrow> (nat \<Rightarrow> nat) \<Rightarrow>
     MEClientRequest \<Rightarrow> MEClientResponse \<Rightarrow> MEMarketUpdate \<Rightarrow> string list \<Rightarrow> 'd TradeEngine res" where
  "trading_main F atof orders0 levels0 now rands rq rs mu argv =
    (case argv of
       client_id # algo_type # args \<Rightarrow>
         res_bind (parse_cfg atof 0 args (default_cfg F)) (\<lambda>ticker_cfg.
         Inr (new_TradeEngine F orders0 levels0 now rands (word_of_int (atoi client_id)) (stringToAlgoType algo_type)
           ticker_cfg (newQueue rq ME_MAX_CLIENTS_UPDATES) (newQueue rs ME_MAX_CLIENTS_UPDATES)
           (newQueue mu ME_MAX_CLIENTS_UPDATES)))
     | _ \<Rightarrow> Inl FatalExit)"

section \<open>What is read\<close>

text \<open>A configuration as it is typed: numbers for the integers, any text for the doubles.\<close>

record typed_cfg =
  typed_clip :: nat
  typed_threshold :: string
  typed_order_size :: nat
  typed_position :: nat
  typed_loss :: string

definition typed :: "typed_cfg \<Rightarrow> string list" where
  "typed c = [to_string (typed_clip c), typed_threshold c, to_string (typed_order_size c),
     to_string (typed_position c), typed_loss c]"

definition cfg_of :: "(string \<Rightarrow> 'd) \<Rightarrow> typed_cfg \<Rightarrow> 'd TradeEngineCfg" where
  "cfg_of atof c = \<lparr>clip = word_of_nat (typed_clip c), threshold = atof (typed_threshold c),
     risk_cfg = \<lparr>max_order_size = word_of_nat (typed_order_size c), max_position = word_of_nat (typed_position c),
       max_loss = atof (typed_loss c)\<rparr>\<rparr>"

lemma parse_typed:
  "parse_cfg atof t (typed c @ args) cfg =
    res_bind (ensure (t < ME_MAX_TICKERS) OutOfRange) (\<lambda>_. parse_cfg atof (t + 1) args (cfg(t := cfg_of atof c)))"
  by (simp add: typed_def cfg_of_def atoi_to_string cong del: res_bind_cong)

lemma parse_groups:
  "t + length cs \<le> ME_MAX_TICKERS \<Longrightarrow> length rest < 5 \<Longrightarrow>
    parse_cfg atof t (concat (map typed cs) @ rest) cfg =
      (if rest = [] then Inr (\<lambda>i. if t \<le> i \<and> i < t + length cs then cfg_of atof (cs ! (i - t)) else cfg i)
       else Inl WildAccess)"
proof (induction cs arbitrary: t cfg)
  case Nil
  then show ?case by (cases "(atof, t, rest, cfg)" rule: parse_cfg.cases) (auto simp: fun_eq_iff)
next
  case (Cons c cs)
  have "parse_cfg atof t (typed c @ concat (map typed cs) @ rest) cfg =
      parse_cfg atof (t + 1) (concat (map typed cs) @ rest) (cfg(t := cfg_of atof c))"
    unfolding parse_typed using Cons.prems by simp
  also have "\<dots> = (if rest = [] then Inr (\<lambda>i. if t + 1 \<le> i \<and> i < t + 1 + length cs then cfg_of atof (cs ! (i - (t + 1)))
      else (cfg(t := cfg_of atof c)) i) else Inl WildAccess)"
    by (rule Cons.IH) (use Cons.prems in auto)
  also have "\<dots> = (if rest = [] then Inr (\<lambda>i. if t \<le> i \<and> i < t + length (c # cs) then cfg_of atof ((c # cs) ! (i - t))
      else cfg i) else Inl WildAccess)"
    by (auto simp: fun_eq_iff nth_Cons split: nat.split) (metis diff_Suc_1 diff_Suc_eq_diff_pred diff_commute)
  finally show ?case by simp
qed

text \<open>C35: the command line round trip: up to eight configurations, printed as the program expects them,
  are read back in order, the other tickers keep the default, and so are the client and the
  algorithm; when the last configuration is cut short, the program reads behind its arguments.\<close>

theorem main_reads_configuration:
  assumes "length cs \<le> ME_MAX_TICKERS" and "length rest < 5"
  shows "trading_main F atof orders0 levels0 now rands rq rs mu
      (to_string client # algoTypeToString algo # concat (map typed cs) @ rest) =
    (if rest = [] then Inr (new_TradeEngine F orders0 levels0 now rands (word_of_nat client) algo
       (\<lambda>i. if i < length cs then cfg_of atof (cs ! i) else default_cfg F i)
       (newQueue rq ME_MAX_CLIENTS_UPDATES) (newQueue rs ME_MAX_CLIENTS_UPDATES) (newQueue mu ME_MAX_CLIENTS_UPDATES))
     else Inl WildAccess)"
  using parse_groups[of 0 cs rest atof "default_cfg F"] assms
  by (simp add: trading_main_def atoi_to_string stringToAlgoType_roundtrip cong: if_cong)

text \<open>A maker with one configuration, and the same with a second that is cut short.\<close>

definition sample_typed :: typed_cfg where
  "sample_typed = \<lparr>typed_clip = 10, typed_threshold = ''0.6'', typed_order_size = 100, typed_position = 200, typed_loss = ''-5''\<rparr>"

theorem main_reads_configuration_witness:
  "\<forall>rq rs mu. (\<exists>e. trading_main int_fp (\<lambda>s. atoi s) (\<lambda>_ _. None) (\<lambda>_ _. None) 0 (\<lambda>_. 0) rq rs mu
       (to_string 4 # algoTypeToString MAKER # typed sample_typed) = Inr e \<and> te_algo_type e = MAKER \<and>
       clip (te_cfg e 0) = 10 \<and> clip (te_cfg e 1) = 0) \<and>
   trading_main int_fp (\<lambda>s. atoi s) (\<lambda>_ _. None) (\<lambda>_ _. None) 0 (\<lambda>_. 0) rq rs mu
       (to_string 4 # algoTypeToString MAKER # typed sample_typed @ [''20'']) = Inl WildAccess"
proof (intro allI)
  fix rq rs mu
  note main = main_reads_configuration[where cs = "[sample_typed]" and F = int_fp and atof = "\<lambda>s. atoi s"
      and now = 0 and rands = "\<lambda>_. 0" and ?orders0.0 = "\<lambda>_ _. None" and ?levels0.0 = "\<lambda>_ _. None" and client = 4
      and algo = MAKER and rq = rq and rs = rs and mu = mu]
  show "(\<exists>e. trading_main int_fp (\<lambda>s. atoi s) (\<lambda>_ _. None) (\<lambda>_ _. None) 0 (\<lambda>_. 0) rq rs mu
       (to_string 4 # algoTypeToString MAKER # typed sample_typed) = Inr e \<and> te_algo_type e = MAKER \<and>
       clip (te_cfg e 0) = 10 \<and> clip (te_cfg e 1) = 0) \<and>
   trading_main int_fp (\<lambda>s. atoi s) (\<lambda>_ _. None) (\<lambda>_ _. None) 0 (\<lambda>_. 0) rq rs mu
       (to_string 4 # algoTypeToString MAKER # typed sample_typed @ [''20'']) = Inl WildAccess"
    using main[of "[]"] main[of "[''20'']"]
    by (simp add: size_defs new_TradeEngine_def cfg_of_def default_cfg_def sample_typed_def)
qed

lemma too_many_configurations:
  assumes "length cs = ME_MAX_TICKERS"
  shows "parse_cfg atof 0 (concat (map typed cs) @ typed c) cfg = Inl OutOfRange"
proof -
  have "parse_cfg atof t (concat (map typed cs) @ typed c) cfg = Inl OutOfRange"
    if "t + length cs = ME_MAX_TICKERS" for t cs cfg
    using that
  proof (induction cs arbitrary: t cfg)
    case Nil
    then show ?case using parse_typed[of atof t c "[]" cfg] by simp
  next
    case (Cons c' cs)
    then show ?case using parse_typed[of atof t c' "concat (map typed cs) @ typed c" cfg] by simp
  qed
  then show ?thesis using assms by simp
qed

end
