(* ===== verification/QueueSteps.thy ===== *)
theory QueueSteps
  imports SpscQueue Framing
begin

text \<open>
  What a step of a thread does to a queue, as the compositions of threads need it: what it put in, what it
  took out, and that a queue which is never filled keeps its order. Also what a loop over whole
  structures leaves unchanged.
\<close>

section \<open>Queues that are filled and emptied\<close>

lemma push_fields [simp]: "num_elements (push v q) = num_elements q + 1" "store_size (push v q) = store_size q"
  by (simp_all add: push_def updateNextWrite_def setNextWrite_def)

lemma fold_push_fields [simp]:
  "num_elements (fold push vs q) = num_elements q + length vs" "store_size (fold push vs q) = store_size q"
  by (induction vs arbitrary: q) simp_all

definition roomy :: "'a spscQueue \<Rightarrow> bool" where
  "roomy q \<longleftrightarrow> queue_ok q \<and> num_elements q < store_size q"

text \<open>\<open>q'\<close> is \<open>q\<close> after \<open>xs\<close> have been read from it.\<close>

definition takes :: "'a spscQueue \<Rightarrow> 'a list \<Rightarrow> 'a spscQueue \<Rightarrow> bool" where
  "takes q xs q' \<longleftrightarrow> queue_ok q' \<and> store_size q' = store_size q \<and> contents q = xs @ contents q'"

lemma roomy_push:
  assumes "roomy q" and "num_elements (fold push vs q) < store_size (fold push vs q)"
  shows "roomy (fold push vs q)" and "contents (fold push vs q) = contents q @ vs"
  using lfq.put_all[of q vs] assms by (simp_all add: roomy_def)

lemma takes_refl: "roomy q \<Longrightarrow> takes q [] q"
  by (simp add: takes_def roomy_def)

lemma takes_trans: "takes q xs q' \<Longrightarrow> takes q' ys q'' \<Longrightarrow> takes q (xs @ ys) q''"
  by (simp add: takes_def)

lemma takes_roomy: "roomy q \<Longrightarrow> takes q xs q' \<Longrightarrow> roomy q'"
  by (metis add_leD2 length_append length_contents order_le_less_trans roomy_def takes_def le_add2)

lemma takes_next:
  assumes "roomy q" and "getNextRead q = Some x" and "updateNextRead q = Inr q'"
  shows "takes q [x] q'"
proof -
  have c: "contents q = x # tl (contents q)"
    using getNextRead_contents[of q] assms(1,2) by (simp add: roomy_def split: list.splits)
  then have "contents q \<noteq> []" by (metis list.distinct(1))
  then obtain q'' where "updateNextRead q = Inr q''" "queue_ok q''" "contents q'' = tl (contents q)"
      "store_size q'' = store_size q"
    using lfq.drop_items[of q] assms(1) by (auto simp: roomy_def simp del: length_contents)
  then show ?thesis using c assms(3) by (simp add: takes_def)
qed

text \<open>What a step put into a queue, and what it took out of one.\<close>

definition added :: "'a spscQueue \<Rightarrow> 'a spscQueue \<Rightarrow> 'a list" where
  "added q q' = drop (length (contents q)) (contents q')"

definition removed :: "'a spscQueue \<Rightarrow> 'a spscQueue \<Rightarrow> 'a list" where
  "removed q q' = take (length (contents q) - length (contents q')) (contents q)"

lemma added_push: "contents q' = contents q @ vs \<Longrightarrow> added q q' = vs"
  by (simp add: added_def del: length_contents)

lemma removed_takes: "takes q xs q' \<Longrightarrow> removed q q' = xs"
  by (simp add: removed_def takes_def del: length_contents)

section \<open>Reading loops\<close>

lemma read_frames_keeps:
  assumes "\<And>f s s'. step f s = Inr s' \<Longrightarrow> P s \<Longrightarrow> P s'"
  shows "read_frames n step buf s = Inr (rest, s') \<Longrightarrow> P s \<Longrightarrow> P s'"
proof (induction buf arbitrary: s rule: length_induct)
  case (1 buf)
  show ?case
  proof (cases "length buf < n \<or> n = 0")
    case True
    then show ?thesis using "1.prems" by (simp add: read_frames.simps)
  next
    case False
    then obtain s1 where "step (take n buf) s = Inr s1" "read_frames n step (drop n buf) s1 = Inr (rest, s')"
      using "1.prems"(1) by (subst (asm) read_frames.simps) (auto simp: res_bind_eq_Inr)
    moreover have "length (drop n buf) < length buf" using False by auto
    ultimately show ?thesis using "1.IH" assms "1.prems"(2) by blast
  qed
qed

end
