(* ===== verification/Client.thy ===== *)
theory Client
  imports QueueSteps OrderGateway MarketDataConsumer TradingProps
begin

text \<open>
  The trading program as a whole (\<^verbatim>\<open>src/client/trading_main.cpp\<close>): trade engine, order gateway and
  market data consumer, joined by the queues that the main program hands them, and the interleavings of their
  three threads; a step is one iteration of one thread's loop. The specification is a trade engine
  without queues and threads, the trading desk: it handles one event after the other and keeps every request it issues.
\<close>

section \<open>The program\<close>

record 'd client =
  cl_engine :: "'d TradeEngine"
  cl_gateway :: "TCPSocket \<times> OrderGateway"
  cl_consumer :: MarketDataConsumer

text \<open>What the main program creates: \<open>d\<close> is the descriptor of the gateway's connection, \<open>d'\<close> that of the
  incremental stream.\<close>

definition new_client ::
  "'d fp \<Rightarrow> (nat \<Rightarrow> nat \<Rightarrow> ptr) \<Rightarrow> (nat \<Rightarrow> nat \<Rightarrow> ptr) \<Rightarrow> int \<Rightarrow> (nat \<Rightarrow> nat) \<Rightarrow> ClientId \<Rightarrow> AlgoType \<Rightarrow>
     (nat \<Rightarrow> 'd TradeEngineCfg) \<Rightarrow> int \<Rightarrow> int \<Rightarrow> 'd client" where
  "new_client F orders0 levels0 now rands cid algo cfg d d' =
    (let client_request = newQueue default_request ME_MAX_CLIENTS_UPDATES;
         client_response = newQueue default_response ME_MAX_CLIENTS_UPDATES;
         market_updates = newQueue default_update ME_MAX_CLIENTS_UPDATES in
     \<lparr>cl_engine = new_TradeEngine F orders0 levels0 now rands cid algo cfg client_request client_response market_updates,
      cl_gateway = (new_TCPSocket d, new_OrderGateway cid client_request client_response),
      cl_consumer = new_MarketDataConsumer market_updates d'\<rparr>)"

text \<open>The queues of the engine, all three at once.\<close>

definition boxes ::
  "MEClientRequest spscQueue \<Rightarrow> MEClientResponse spscQueue \<Rightarrow> MEMarketUpdate spscQueue \<Rightarrow> 'd TradeEngine \<Rightarrow> 'd TradeEngine" where
  "boxes q a b e = e\<lparr>TradeEngine.outgoing_requests := q, TradeEngine.incoming_responses := a, incoming_market_updates := b\<rparr>"

text \<open>One iteration of each thread; a queue is written back to the component that shares it.\<close>

definition trade_turn :: "'d fp \<Rightarrow> int \<Rightarrow> int \<Rightarrow> nat \<times> nat \<times> nat \<times> nat \<Rightarrow> 'd client \<Rightarrow> 'd client res" where
  "trade_turn F now now' rands x =
    res_bind (te_round F now now' rands (cl_engine x)) (\<lambda>e.
    Inr (x\<lparr>cl_engine := e,
      cl_gateway := (fst (cl_gateway x), (snd (cl_gateway x))\<lparr>OrderGateway.outgoing_requests := TradeEngine.outgoing_requests e,
        OrderGateway.incoming_responses := TradeEngine.incoming_responses e\<rparr>),
      cl_consumer := (cl_consumer x)\<lparr>incoming_market_update_queue := incoming_market_updates e\<rparr>\<rparr>))"

definition gateway_turn :: "u8 list \<times> Nanos \<Rightarrow> 'd client \<Rightarrow> (u8 list \<times> 'd client) res" where
  "gateway_turn rx x =
    res_bind (gateway_round rx (cl_gateway x)) (\<lambda>(out, k, g).
    Inr (out, x\<lparr>cl_gateway := (k, g),
      cl_engine := boxes (OrderGateway.outgoing_requests g) (OrderGateway.incoming_responses g)
        (incoming_market_updates (cl_engine x)) (cl_engine x)\<rparr>))"

definition consumer_turn :: "net \<Rightarrow> u8 list \<Rightarrow> u8 list \<Rightarrow> 'd client \<Rightarrow> 'd client res" where
  "consumer_turn net rx rx' x =
    res_bind (consumer_round net rx rx' (cl_consumer x)) (\<lambda>c.
    Inr (x\<lparr>cl_consumer := c,
      cl_engine := (cl_engine x)\<lparr>incoming_market_updates := incoming_market_update_queue c\<rparr>\<rparr>))"

definition client_unfilled :: "'d client \<Rightarrow> bool" where
  "client_unfilled x \<longleftrightarrow>
     num_elements (TradeEngine.outgoing_requests (cl_engine x)) < store_size (TradeEngine.outgoing_requests (cl_engine x)) \<and>
     num_elements (TradeEngine.incoming_responses (cl_engine x)) < store_size (TradeEngine.incoming_responses (cl_engine x)) \<and>
     num_elements (incoming_market_updates (cl_engine x)) < store_size (incoming_market_updates (cl_engine x))"

text \<open>What has passed: the requests issued by the engine, those the gateway took to send, the bytes handed
  to the kernel; the responses the gateway accepted and those the engine took; the updates the consumer
  handed on and those the engine took; and what each read from the gateway's socket and from the incremental
  stream took.\<close>

record client_history =
  ch_issued :: "MEClientRequest list"
  ch_sent :: "MEClientRequest list"
  ch_wire :: "u8 list"
  ch_accepted :: "MEClientResponse list"
  ch_heard :: "MEClientResponse list"
  ch_handed :: "MEMarketUpdate list"
  ch_seen :: "MEMarketUpdate list"
  ch_reads :: "u8 list list"
  ch_datagrams :: "u8 list list"

definition no_client_history :: client_history where
  "no_client_history = \<lparr>ch_issued = [], ch_sent = [], ch_wire = [], ch_accepted = [], ch_heard = [], ch_handed = [], ch_seen = [],
    ch_reads = [], ch_datagrams = []\<rparr>"

text \<open>A socket reads no more than there is room for.\<close>

definition gateway_takes :: "u8 list \<times> Nanos \<Rightarrow> 'd client \<Rightarrow> u8 list" where
  "gateway_takes rx x = take (TCPBufferSize - length (recv_buffer (fst (cl_gateway x)))) (fst rx)"

definition consumer_takes :: "u8 list \<Rightarrow> 'd client \<Rightarrow> u8 list" where
  "consumer_takes rx x = take (McastBufferSize - length (inbound (in_incremental (cl_consumer x)))) rx"

inductive client_run :: "'d fp \<Rightarrow> 'd client \<Rightarrow> 'd client \<Rightarrow> client_history \<Rightarrow> bool" for F x0 where
  client_start: "client_run F x0 x0 no_client_history"
| client_trades: "client_run F x0 x h \<Longrightarrow> trade_turn F now now' rands x = Inr x' \<Longrightarrow> client_unfilled x' \<Longrightarrow>
    client_run F x0 x' (h\<lparr>
      ch_issued := ch_issued h @ added (TradeEngine.outgoing_requests (cl_engine x)) (TradeEngine.outgoing_requests (cl_engine x')),
      ch_heard := ch_heard h @ removed (TradeEngine.incoming_responses (cl_engine x)) (TradeEngine.incoming_responses (cl_engine x')),
      ch_seen := ch_seen h @ removed (incoming_market_updates (cl_engine x)) (incoming_market_updates (cl_engine x'))\<rparr>)"
| client_gateway: "client_run F x0 x h \<Longrightarrow> gateway_turn rx x = Inr (out, x') \<Longrightarrow> client_unfilled x' \<Longrightarrow>
    client_run F x0 x' (h\<lparr>
      ch_sent := ch_sent h @ removed (TradeEngine.outgoing_requests (cl_engine x)) (TradeEngine.outgoing_requests (cl_engine x')),
      ch_wire := ch_wire h @ out,
      ch_accepted := ch_accepted h @ added (TradeEngine.incoming_responses (cl_engine x)) (TradeEngine.incoming_responses (cl_engine x')),
      ch_reads := ch_reads h @ [gateway_takes rx x]\<rparr>)"
| client_consumer: "client_run F x0 x h \<Longrightarrow> consumer_turn net rx rx' x = Inr x' \<Longrightarrow> client_unfilled x' \<Longrightarrow>
    client_run F x0 x' (h\<lparr>
      ch_handed := ch_handed h @ added (incoming_market_updates (cl_engine x)) (incoming_market_updates (cl_engine x')),
      ch_datagrams := ch_datagrams h @ [consumer_takes rx x]\<rparr>)"

section \<open>The trading desk\<close>

text \<open>An event of the trading thread: a look at the timer of the random trader, a response, an update.\<close>

datatype event = Timer int int "nat \<times> nat \<times> nat \<times> nat" | Response MEClientResponse | Update MEMarketUpdate

fun handle_event :: "'d fp \<Rightarrow> event \<Rightarrow> 'd TradeEngine \<Rightarrow> 'd TradeEngine res" where
  "handle_event F (Timer now now' rands) e = onRandomTimer now now' rands e"
| "handle_event F (Response r) e = te_onOrderUpdate F r e"
| "handle_event F (Update u) e = te_onMarketUpdate F u e"

definition desk :: "'d TradeEngine \<Rightarrow> 'd TradeEngine" where
  "desk e = boxes (newQueue default_request ME_MAX_CLIENTS_UPDATES) (newQueue default_response ME_MAX_CLIENTS_UPDATES)
     (newQueue default_update ME_MAX_CLIENTS_UPDATES) e"

text \<open>The requests that handling an event puts into the empty queue are issued, and the queue is emptied again.\<close>

definition desk_step :: "'d fp \<Rightarrow> event \<Rightarrow> 'd TradeEngine \<times> MEClientRequest list \<Rightarrow> ('d TradeEngine \<times> MEClientRequest list) res" where
  "desk_step F ev st =
    res_bind (handle_event F ev (fst st)) (\<lambda>e. Inr (desk e, snd st @ contents (TradeEngine.outgoing_requests e)))"

definition responses_in :: "event list \<Rightarrow> MEClientResponse list" where
  "responses_in evs = concat (map (\<lambda>ev. case ev of Response r \<Rightarrow> [r] | _ \<Rightarrow> []) evs)"

definition updates_in :: "event list \<Rightarrow> MEMarketUpdate list" where
  "updates_in evs = concat (map (\<lambda>ev. case ev of Update u \<Rightarrow> [u] | _ \<Rightarrow> []) evs)"

lemma responses_in_simps [simp]:
  "responses_in (evs @ evs') = responses_in evs @ responses_in evs'" "responses_in (map Response rs) = rs"
  "responses_in (map Update us) = []" "responses_in [Timer now now' rands] = []" "responses_in [] = []"
  "updates_in (evs @ evs') = updates_in evs @ updates_in evs'" "updates_in (map Response rs) = []"
  "updates_in (map Update us) = us" "updates_in [Timer now now' rands] = []" "updates_in [] = []"
  by (simp_all add: responses_in_def updates_in_def comp_def)

text \<open>Handling an event depends on no queue and does no more to the outgoing one than add to it.\<close>

lemma boxes_fields [simp]:
  "TradeEngine.outgoing_requests (boxes q a b e) = q" "TradeEngine.incoming_responses (boxes q a b e) = a"
  "incoming_market_updates (boxes q a b e) = b" "te_algo_type (boxes q a b e) = te_algo_type e"
  "te_random (boxes q a b e) = te_random e" "te_orders (boxes q a b e) = te_orders e"
  "te_positions (boxes q a b e) = te_positions e" "te_features (boxes q a b e) = te_features e"
  "te_books (boxes q a b e) = te_books e" "te_cfg (boxes q a b e) = te_cfg e" "te_client_id (boxes q a b e) = te_client_id e"
  by (simp_all add: boxes_def)

lemma boxes_same: "boxes (TradeEngine.outgoing_requests e) (TradeEngine.incoming_responses e) (incoming_market_updates e) e = e"
  by (simp add: boxes_def)

lemma boxes_boxes [simp]: "boxes q a b (boxes q' a' b' e) = boxes q a b e"
  by (simp add: boxes_def)


definition emits :: "('d TradeEngine \<Rightarrow> 'd TradeEngine res) \<Rightarrow> 'd TradeEngine \<Rightarrow> 'd TradeEngine \<Rightarrow> bool" where
  "emits f e e' \<longleftrightarrow> (\<exists>rqs. \<forall>q a b. f (boxes q a b e) = Inr (boxes (fold push rqs q) a b e'))"

lemma with_orders_emits:
  assumes "with_orders r e = Inr e'"
  shows "emits (with_orders r) e e'"
proof -
  obtain rqs m where "r = Inr (rqs, m)" "e' = e\<lparr>te_orders := m, TradeEngine.outgoing_requests := fold push rqs (TradeEngine.outgoing_requests e)\<rparr>"
    using assms by (auto simp: with_orders_def res_bind_eq_Inr fold_send)
  then show ?thesis unfolding emits_def by (intro exI[of _ rqs]) (simp add: with_orders_def fold_send boxes_def)
qed

lemma emits_nothing: "(\<And>q a b. f (boxes q a b e) = Inr (boxes q a b e')) \<Longrightarrow> emits f e e'"
  unfolding emits_def by (rule exI[of _ "[]"]) simp

lemma boxes_updates:
  "(boxes q a b e)\<lparr>te_positions := k\<rparr> = boxes q a b (e\<lparr>te_positions := k\<rparr>)"
  "(boxes q a b e)\<lparr>te_features := f\<rparr> = boxes q a b (e\<lparr>te_features := f\<rparr>)"
  "(boxes q a b e)\<lparr>te_books := bs\<rparr> = boxes q a b (e\<lparr>te_books := bs\<rparr>)"
  "(boxes q a b e)\<lparr>te_orders := m\<rparr> = boxes q a b (e\<lparr>te_orders := m\<rparr>)"
  "(boxes q a b e)\<lparr>te_random := rt\<rparr> = boxes q a b (e\<lparr>te_random := rt\<rparr>)"
  by (simp_all add: boxes_def)

lemma te_gate_boxes [simp]: "te_gate F (boxes q a b e) = te_gate F e"
  by (simp add: te_gate_def)

lemma algo_emits:
  "algoOnTradeUpdate F u x e = Inr e' \<Longrightarrow> emits (algoOnTradeUpdate F u x) e e'"
  "algoOnOrderBookUpdate F t x e = Inr e' \<Longrightarrow> emits (algoOnOrderBookUpdate F t x) e e'"
  by (auto simp: algoOnTradeUpdate_def algoOnOrderBookUpdate_def emits_def split: if_splits
      dest!: with_orders_emits[unfolded emits_def] intro: exI[of _ "[]"])

lemma te_callback_emits:
  assumes "te_callback F call x e = Inr e'"
  shows "emits (te_callback F call x) e e'"
proof (cases call)
  case (OnTradeUpdate u)
  then show ?thesis using assms algo_emits(1)[of F u x]
    by (fastforce simp: te_callback_def te_onTradeUpdate_def emits_def boxes_updates)
next
  case (OnOrderBookUpdate t p s)
  then show ?thesis using assms algo_emits(2)[of F t x]
    by (fastforce simp: te_callback_def te_onOrderBookUpdate_def emits_def boxes_updates res_bind_eq_Inr Let_def)
qed

lemma handle_emits:
  assumes "handle_event F ev e = Inr e'"
  shows "emits (handle_event F ev) e e'"
proof (cases ev)
  case (Timer now now' rands)
  show ?thesis
  proof (cases "te_algo_type e = RANDOM")
    case True
    then obtain rqs rt where "onTimer now now' rands (te_random e) = Inr (rqs, rt)" "e' = fold te_sendClientRequest rqs (e\<lparr>te_random := rt\<rparr>)"
      using assms Timer by (auto simp: onRandomTimer_def res_bind_eq_Inr)
    then have "handle_event F ev (boxes q a b e) = Inr (boxes (fold push rqs q) a b e')" for q a b
      using Timer True by (simp add: onRandomTimer_def fold_send boxes_def)
    then show ?thesis unfolding emits_def by blast
  next
    case False
    then show ?thesis using assms Timer by (intro emits_nothing) (simp add: onRandomTimer_def)
  qed
next
  case (Response r)
  then obtain k where k: "(if rs_type r = FILLED then keeper_addFill F r (te_positions e) else Inr (te_positions e)) = Inr k"
    "algoOnOrderUpdate r (e\<lparr>te_positions := k\<rparr>) = Inr e'"
    using assms by (auto simp: te_onOrderUpdate_def res_bind_eq_Inr)
  then show ?thesis using Response
    by (intro emits_nothing) (auto simp: te_onOrderUpdate_def algoOnOrderUpdate_def res_bind_eq_Inr boxes_updates split: if_splits)
next
  case (Update u)
  let ?t = "unat (mu_ticker_id u)"
  obtain call b where b: "?t < ME_MAX_TICKERS" "onMarketUpdate u (te_books e ?t) = Inr (call, b)"
    "te_callback F call (bbo b) (e\<lparr>te_books := (te_books e)(?t := b)\<rparr>) = Inr e'"
    using assms Update by (auto simp: te_onMarketUpdate_def res_bind_eq_Inr)
  then show ?thesis using Update te_callback_emits[OF b(3)]
    by (simp add: te_onMarketUpdate_def emits_def boxes_updates)
qed

section \<open>The trade engine's turn\<close>

text \<open>From \<open>e\<close> to \<open>e'\<close> the engine has handled the events \<open>evs\<close>: what it added to its outgoing queue is what the
  desk issues, as long as that fits a queue.\<close>

definition worked :: "'d fp \<Rightarrow> event list \<Rightarrow> 'd TradeEngine \<Rightarrow> 'd TradeEngine \<Rightarrow> bool" where
  "worked F evs e e' \<longleftrightarrow> (\<exists>rqs. TradeEngine.outgoing_requests e' = fold push rqs (TradeEngine.outgoing_requests e) \<and>
     (length rqs < ME_MAX_CLIENTS_UPDATES \<longrightarrow> (\<forall>out. res_fold (desk_step F) evs (desk e, out) = Inr (desk e', out @ rqs))))"

lemma worked_refl: "worked F [] e e"
  unfolding worked_def by (rule exI[of _ "[]"]) simp

lemma worked_trans:
  assumes "worked F evs e e1" and "worked F evs' e1 e2"
  shows "worked F (evs @ evs') e e2"
proof -
  obtain rqs where r: "TradeEngine.outgoing_requests e1 = fold push rqs (TradeEngine.outgoing_requests e)"
    "length rqs < ME_MAX_CLIENTS_UPDATES \<Longrightarrow> res_fold (desk_step F) evs (desk e, out) = Inr (desk e1, out @ rqs)" for out
    using assms(1) by (auto simp: worked_def)
  obtain rqs' where r': "TradeEngine.outgoing_requests e2 = fold push rqs' (TradeEngine.outgoing_requests e1)"
    "length rqs' < ME_MAX_CLIENTS_UPDATES \<Longrightarrow> res_fold (desk_step F) evs' (desk e1, out) = Inr (desk e2, out @ rqs')" for out
    using assms(2) by (auto simp: worked_def)
  show ?thesis unfolding worked_def
    by (rule exI[of _ "rqs @ rqs'"]) (simp add: r r' res_fold_append)
qed

lemma worked_event:
  assumes "handle_event F ev e = Inr e'"
  shows "worked F [ev] e e'"
proof -
  obtain rqs where rqs: "\<And>q a b. handle_event F ev (boxes q a b e) = Inr (boxes (fold push rqs q) a b e')"
    using handle_emits[OF assms] by (auto simp: emits_def)
  have "handle_event F ev e = Inr (boxes (fold push rqs (TradeEngine.outgoing_requests e)) (TradeEngine.incoming_responses e)
      (incoming_market_updates e) e')"
    using rqs[of "TradeEngine.outgoing_requests e" "TradeEngine.incoming_responses e" "incoming_market_updates e"]
    by (simp add: boxes_same)
  then have out: "TradeEngine.outgoing_requests e' = fold push rqs (TradeEngine.outgoing_requests e)"
    using assms by (metis boxes_fields(1) sum.inject(2))
  have "desk_step F ev (desk e, out) = Inr (desk e', out @ rqs)" if "length rqs < ME_MAX_CLIENTS_UPDATES" for out
  proof -
    let ?q = "newQueue default_request ME_MAX_CLIENTS_UPDATES"
    have "0 < ME_MAX_CLIENTS_UPDATES" by (simp add: size_defs)
    then have "contents (fold push rqs ?q) = rqs"
      using lfq.put_all[of ?q rqs] that by (simp add: newQueue_ok del: length_contents)
    then show ?thesis by (simp add: desk_step_def desk_def rqs)
  qed
  then show ?thesis unfolding worked_def by (intro exI[of _ rqs]) (simp add: out)
qed

text \<open>The reading loop, for either queue.\<close>

lemma serve_queue_worked:
  assumes "serve_queue getq setq handle n e = Inr e'" and "roomy (getq e)"
    and handle: "\<And>x s. handle x s = handle_event F (mk x) s"
    and get: "\<And>q s. getq (setq q s) = q" "\<And>x s s'. handle x s = Inr s' \<Longrightarrow> getq s' = getq s"
    and other: "\<And>q s. other (setq q s) = other s" "\<And>x s s'. handle x s = Inr s' \<Longrightarrow> other s' = other s"
    and set: "\<And>evs q s s'. worked F evs (setq q s) s' \<longleftrightarrow> worked F evs s s'"
  shows "\<exists>xs. takes (getq e) xs (getq e') \<and> worked F (map mk xs) e e' \<and> other e' = other e"
  using assms(1,2)
proof (induction n arbitrary: e)
  case (Suc n)
  show ?case
  proof (cases "getNextRead (getq e)")
    case None
    then show ?thesis using Suc.prems by (intro exI[of _ "[]"]) (simp add: takes_refl worked_refl)
  next
    case (Some x)
    then obtain e1 q where step: "handle x e = Inr e1" "updateNextRead (getq e1) = Inr q" "serve_queue getq setq handle n (setq q e1) = Inr e'"
      using Suc.prems(1) by (auto simp: res_bind_eq_Inr)
    have t: "takes (getq e) [x] q" using takes_next[OF Suc.prems(2) Some] step(2) get(2)[OF step(1)] by simp
    have "roomy (getq (setq q e1))" using takes_roomy[OF Suc.prems(2) t] by (simp add: get(1))
    from Suc.IH[OF step(3) this] obtain xs where xs: "takes q xs (getq e')" "worked F (map mk xs) (setq q e1) e'" "other e' = other e"
      using get(1) other(1) other(2)[OF step(1)] by auto
    have "worked F [mk x] e e1" using worked_event step(1) by (simp add: handle)
    from worked_trans[OF this xs(2)[unfolded set]] show ?thesis
      using takes_trans[OF t xs(1)] xs(3) by (intro exI[of _ "x # xs"]) simp
  qed
qed simp

lemma worked_set:
  "worked F evs (s\<lparr>TradeEngine.incoming_responses := a\<rparr>) s' \<longleftrightarrow> worked F evs s s'"
  "worked F evs (s\<lparr>incoming_market_updates := b\<rparr>) s' \<longleftrightarrow> worked F evs s s'"
  by (simp_all add: worked_def desk_def boxes_def)

lemma inboxes_kept:
  "te_onOrderUpdate F r s = Inr s' \<Longrightarrow> TradeEngine.incoming_responses s' = TradeEngine.incoming_responses s"
  "te_onOrderUpdate F r s = Inr s' \<Longrightarrow> incoming_market_updates s' = incoming_market_updates s"
  "te_onMarketUpdate F u s = Inr s' \<Longrightarrow> TradeEngine.incoming_responses s' = TradeEngine.incoming_responses s"
  "te_onMarketUpdate F u s = Inr s' \<Longrightarrow> incoming_market_updates s' = incoming_market_updates s"
  by (drule te_onOrderUpdate_inbox te_onMarketUpdate_inbox, simp add: same_inbox_def)+

lemma responses_worked:
  assumes "serve_responses n F e = Inr e'" and "roomy (TradeEngine.incoming_responses e)"
  shows "\<exists>rs. takes (TradeEngine.incoming_responses e) rs (TradeEngine.incoming_responses e') \<and> worked F (map Response rs) e e' \<and>
    incoming_market_updates e' = incoming_market_updates e"
  using assms unfolding serve_responses_def
  by (rule serve_queue_worked) (simp_all add: worked_set, (erule inboxes_kept)+)

lemma updates_worked:
  assumes "serve_updates n F e = Inr e'" and "roomy (incoming_market_updates e)"
  shows "\<exists>us. takes (incoming_market_updates e) us (incoming_market_updates e') \<and> worked F (map Update us) e e' \<and>
    TradeEngine.incoming_responses e' = TradeEngine.incoming_responses e"
  using assms unfolding serve_updates_def
  by (rule serve_queue_worked) (simp_all add: worked_set, (erule inboxes_kept)+)

lemma round_worked:
  assumes "te_round F now now' rands e = Inr e'" and "roomy (TradeEngine.incoming_responses e)" and "roomy (incoming_market_updates e)"
  shows "\<exists>rs us. takes (TradeEngine.incoming_responses e) rs (TradeEngine.incoming_responses e') \<and>
     takes (incoming_market_updates e) us (incoming_market_updates e') \<and>
     worked F ([Timer now now' rands] @ map Response rs @ map Update us) e e'"
proof -
  obtain e1 e2 where t: "onRandomTimer now now' rands e = Inr e1"
    and r: "serve_responses (num_elements (TradeEngine.incoming_responses e1) + 1) F e1 = Inr e2"
    and u: "serve_updates (num_elements (incoming_market_updates e2) + 1) F e2 = Inr e'"
    using assms(1) by (auto simp: te_round_def res_bind_eq_Inr)
  have timer: "worked F [Timer now now' rands] e e1" by (rule worked_event) (simp add: t)
  have same: "TradeEngine.incoming_responses e1 = TradeEngine.incoming_responses e" "incoming_market_updates e1 = incoming_market_updates e"
    using t by (auto simp: onRandomTimer_def res_bind_eq_Inr fold_send split: if_splits)
  obtain rs where rs: "takes (TradeEngine.incoming_responses e1) rs (TradeEngine.incoming_responses e2)"
    "worked F (map Response rs) e1 e2" "incoming_market_updates e2 = incoming_market_updates e1"
    using responses_worked[OF r] assms(2) same by auto
  obtain us where us: "takes (incoming_market_updates e2) us (incoming_market_updates e')"
    "worked F (map Update us) e2 e'" "TradeEngine.incoming_responses e' = TradeEngine.incoming_responses e2"
    using updates_worked[OF u] assms(3) same rs(3) by auto
  have "worked F ([Timer now now' rands] @ map Response rs @ map Update us) e e'"
    using worked_trans[OF timer worked_trans[OF rs(2) us(2)]] .
  then show ?thesis using rs us same by auto
qed

section \<open>The gateway's and the consumer's turns\<close>

text \<open>What accepting keeps from a state \<open>g0\<close> on.\<close>

definition accepting :: "OrderGateway \<Rightarrow> OrderGateway \<Rightarrow> bool" where
  "accepting g0 g \<longleftrightarrow> (\<exists>rs. OrderGateway.incoming_responses g = fold push rs (OrderGateway.incoming_responses g0) \<and>
     next_incoming_seq_num g = next_incoming_seq_num g0 + of_nat (length rs) \<and>
     list_all (\<lambda>r. rs_client_id r = gw_client_id g0) rs) \<and> gw_client_id g = gw_client_id g0 \<and>
     OrderGateway.outgoing_requests g = OrderGateway.outgoing_requests g0 \<and> next_outgoing_seq_num g = next_outgoing_seq_num g0"

lemma accepting_refl: "accepting g g"
  by (auto simp: accepting_def intro: exI[of _ "[]"])

lemma gateway_accept_accepting:
  assumes "gateway_accept r g = Inr g'" and "accepting g0 g"
  shows "accepting g0 g'"
proof (cases "g' = g")
  case False
  then have g': "g' = g\<lparr>next_incoming_seq_num := next_incoming_seq_num g + 1,
      OrderGateway.incoming_responses := push (ogrs_response r) (OrderGateway.incoming_responses g)\<rparr>"
    "rs_client_id (ogrs_response r) = gw_client_id g"
    using assms(1) by (auto simp: gateway_accept_def split: if_splits)
  obtain rs where "OrderGateway.incoming_responses g = fold push rs (OrderGateway.incoming_responses g0)"
    "next_incoming_seq_num g = next_incoming_seq_num g0 + of_nat (length rs)"
    "list_all (\<lambda>r. rs_client_id r = gw_client_id g0) rs" using assms(2) by (auto simp: accepting_def)
  then show ?thesis using assms(2) g' unfolding accepting_def
    by (intro conjI exI[of _ "rs @ [ogrs_response r]"]) (simp_all add: algebra_simps)
qed (use assms(2) in simp)

lemma gateway_recv_accepting:
  assumes "gateway_recvCallback t k g = Inr (k', g')"
  shows "accepting g g' \<and> send_buffer k' = send_buffer k"
proof (cases "length (recv_buffer k) < response_size")
  case True
  then show ?thesis using assms by (simp add: gateway_recvCallback_def accepting_refl)
next
  case False
  then obtain rest where "read_frames response_size (\<lambda>f. gateway_accept (decode_response f)) (recv_buffer k) g = Inr (rest, g')"
    and "k' = k\<lparr>recv_buffer := take (length rest) (drop 1 (recv_buffer k))\<rparr>"
    using assms by (auto simp: gateway_recvCallback_def res_bind_eq_Inr)
  moreover from read_frames_keeps[where P="accepting g", OF _ this(1) accepting_refl] have "accepting g g'"
    using gateway_accept_accepting by blast
  ultimately show ?thesis by simp
qed

lemma send_requests_takes:
  assumes "send_requests n (k, g) = Inr (k', g')" and "roomy (OrderGateway.outgoing_requests g)"
  shows "\<exists>qs. takes (OrderGateway.outgoing_requests g) qs (OrderGateway.outgoing_requests g') \<and>
     send_buffer k' = send_buffer k @ requests.stream (numbered_requests (next_outgoing_seq_num g) qs) \<and>
     next_outgoing_seq_num g' = next_outgoing_seq_num g + of_nat (length qs) \<and> gw_client_id g' = gw_client_id g \<and>
     OrderGateway.incoming_responses g' = OrderGateway.incoming_responses g \<and> next_incoming_seq_num g' = next_incoming_seq_num g"
  using assms
proof (induction n arbitrary: k g)
  case (Suc n)
  show ?case
  proof (cases "getNextRead (OrderGateway.outgoing_requests g)")
    case None
    then show ?thesis using Suc.prems by (intro exI[of _ "[]"]) (auto simp: takes_refl)
  next
    case (Some q)
    then obtain k1 rq where step: "updateNextRead (OrderGateway.outgoing_requests g) = Inr rq"
      "send_requests n (k1, g\<lparr>OrderGateway.outgoing_requests := rq, next_outgoing_seq_num := next_outgoing_seq_num g + 1\<rparr>) = Inr (k', g')"
      and k1: "send_buffer k1 = send_buffer k @ put64 (next_outgoing_seq_num g) @ encode_me_request q"
      using Suc.prems(1) by (auto simp: res_bind_eq_Inr tcp_send_def ensure_def split: if_splits)
    have t: "takes (OrderGateway.outgoing_requests g) [q] rq" by (rule takes_next[OF Suc.prems(2) Some step(1)])
    from Suc.IH[OF step(2)] takes_roomy[OF Suc.prems(2) t] obtain qs where
      qs: "takes rq qs (OrderGateway.outgoing_requests g')"
      "send_buffer k' = send_buffer k1 @ requests.stream (numbered_requests (next_outgoing_seq_num g + 1) qs)"
      "next_outgoing_seq_num g' = next_outgoing_seq_num g + 1 + of_nat (length qs)" "gw_client_id g' = gw_client_id g"
      "OrderGateway.incoming_responses g' = OrderGateway.incoming_responses g" "next_incoming_seq_num g' = next_incoming_seq_num g"
      by auto
    have "put64 (next_outgoing_seq_num g) @ encode_me_request q = encode_request \<lparr>ogrq_seq_num = next_outgoing_seq_num g, ogrq_request = q\<rparr>"
      by (simp add: encode_request_def)
    then show ?thesis using takes_trans[OF t qs(1)] k1 qs
      by (intro exI[of _ "q # qs"]) (simp add: algebra_simps flip: append_assoc)
  qed
qed simp

lemma gateway_round_takes:
  assumes "gateway_round rx (k, g) = Inr (out, k', g')" and "roomy (OrderGateway.outgoing_requests g)"
  shows "\<exists>qs rs. out = send_buffer k \<and> takes (OrderGateway.outgoing_requests g) qs (OrderGateway.outgoing_requests g') \<and>
     send_buffer k' = requests.stream (numbered_requests (next_outgoing_seq_num g) qs) \<and>
     next_outgoing_seq_num g' = next_outgoing_seq_num g + of_nat (length qs) \<and> gw_client_id g' = gw_client_id g \<and>
     OrderGateway.incoming_responses g' = fold push rs (OrderGateway.incoming_responses g) \<and>
     next_incoming_seq_num g' = next_incoming_seq_num g + of_nat (length rs) \<and> list_all (\<lambda>r. rs_client_id r = gw_client_id g) rs"
proof -
  obtain got k1 g1 where r: "tcp_sendAndRecv gateway_recvCallback rx k g = Inr (got, out, k1, g1)"
    and s: "send_requests (queue_size (OrderGateway.outgoing_requests g1) + 1) (k1, g1) = Inr (k', g')"
    using assms(1) by (auto simp: gateway_round_def res_bind_eq_Inr)
  have a: "accepting g g1" and o: "out = send_buffer k" and k1: "send_buffer k1 = []"
    using r by (auto simp: tcp_sendAndRecv_def Let_def res_bind_eq_Inr accepting_refl dest!: gateway_recv_accepting split: if_splits)
  have same: "OrderGateway.outgoing_requests g1 = OrderGateway.outgoing_requests g" using a by (simp add: accepting_def)
  from send_requests_takes[OF s] assms(2) same obtain qs where qs: "takes (OrderGateway.outgoing_requests g) qs (OrderGateway.outgoing_requests g')"
    "send_buffer k' = requests.stream (numbered_requests (next_outgoing_seq_num g) qs)"
    "next_outgoing_seq_num g' = next_outgoing_seq_num g + of_nat (length qs)" "gw_client_id g' = gw_client_id g"
    "OrderGateway.incoming_responses g' = OrderGateway.incoming_responses g1" "next_incoming_seq_num g' = next_incoming_seq_num g1"
    using k1 a by (auto simp: accepting_def)
  moreover obtain rs where "OrderGateway.incoming_responses g1 = fold push rs (OrderGateway.incoming_responses g)"
    "next_incoming_seq_num g1 = next_incoming_seq_num g + of_nat (length rs)" "list_all (\<lambda>r. rs_client_id r = gw_client_id g) rs"
    using a by (auto simp: accepting_def)
  ultimately show ?thesis using o by auto
qed

text \<open>The consumer only adds to its queue.\<close>

definition handing :: "MEMarketUpdate spscQueue \<Rightarrow> MarketDataConsumer \<Rightarrow> bool" where
  "handing q c \<longleftrightarrow> (\<exists>us. incoming_market_update_queue c = fold push us q)"

lemma handing_push: "handing q c \<Longrightarrow> incoming_market_update_queue c' = fold push us (incoming_market_update_queue c) \<Longrightarrow> handing q c'"
  by (auto simp: handing_def intro: exI[of _ "_ @ us"])

lemma handing_same: "handing q c \<Longrightarrow> incoming_market_update_queue c' = incoming_market_update_queue c \<Longrightarrow> handing q c'"
  by (simp add: handing_def)

lemma checkSnapshotSync_handing:
  assumes "handing q c"
  shows "handing q (checkSnapshotSync c)"
proof -
  have "\<exists>us. incoming_market_update_queue (checkSnapshotSync c) = fold push us (incoming_market_update_queue c)"
    by (auto simp: checkSnapshotSync_def Let_def split: list.splits option.splits prod.splits intro: exI[of _ "[]"] exI[of _ "_ @ _"])
  then show ?thesis using handing_push[OF assms] by blast
qed

lemma consume_handing:
  assumes "consume net snap m c = Inr c'" and "handing q c"
  shows "handing q c'"
proof -
  have queued: "handing q (queueMessage snap m d)" if "handing q d" for d
    unfolding queueMessage_def Let_def
    by (rule checkSnapshotSync_handing, rule handing_same[OF that]) simp
  have started: "handing q d'" if "startSnapshotSync net d = Inr d'" "handing q d" for d d'
    using that by (auto simp: startSnapshotSync_def Let_def res_bind_eq_Inr handing_def)
  have more: "handing q (d\<lparr>exp_seq_num := k, incoming_market_update_queue := push u (incoming_market_update_queue d)\<rparr>)"
    if "handing q d" for d k u using handing_push[OF that, of _ "[u]"] by simp
  have lost: "handing q (c\<lparr>packet_lost := b\<rparr>)" for b using assms(2) by (simp add: handing_def)
  show ?thesis using assms(1)
    by (auto simp: consume_def Let_def res_bind_eq_Inr split: if_splits intro!: queued intro: started lost more[OF lost, simplified])
qed

lemma set_sock_handing: "handing q (set_sock snap k c) \<longleftrightarrow> handing q c"
  by (simp add: set_sock_def handing_def)

lemma recv_handing:
  assumes "consumer_recvCallbacks net snap c = Inr c'" and "handing q c"
  shows "handing q c'"
proof (cases "\<not> packet_lost c \<and> socket_fd (sock_of snap c) = socket_fd (in_snapshot c)")
  case True
  then show ?thesis using assms by (auto simp: consumer_recvCallbacks_def set_sock_handing)
next
  case False
  then obtain rest c1 where r: "read_frames update_size (\<lambda>f. consume net (socket_fd (sock_of snap c) = socket_fd (in_snapshot c))
      (decode_update f)) (inbound (sock_of snap c)) c = Inr (rest, c1)"
    and c': "c' = set_sock snap ((sock_of snap c1)\<lparr>inbound := rest\<rparr>) c1"
    using assms(1) by (auto simp: consumer_recvCallbacks_def Let_def res_bind_eq_Inr)
  have "handing q c1" by (rule read_frames_keeps[where P="handing q", OF _ r assms(2)]) (rule consume_handing)
  then show ?thesis by (simp add: c' set_sock_handing)
qed

lemma poll_handing:
  assumes "consumer_poll net snap rx c = Inr c'" and "handing q c"
  shows "handing q c'"
  using assms by (auto simp: consumer_poll_def mcast_sendAndRecv_def Let_def res_bind_eq_Inr set_sock_handing
      split: if_splits dest!: recv_handing)

lemma consumer_round_handing:
  assumes "consumer_round net rx rx' c = Inr c'"
  shows "\<exists>us. incoming_market_update_queue c' = fold push us (incoming_market_update_queue c)"
proof -
  have "handing (incoming_market_update_queue c) c" by (auto simp: handing_def intro: exI[of _ "[]"])
  then have "handing (incoming_market_update_queue c) c'"
    using assms poll_handing[of net False rx c] poll_handing[of net True rx'] by (auto simp: consumer_round_def res_bind_eq_Inr)
  then show ?thesis by (simp add: handing_def)
qed

section \<open>The program implements the desk\<close>

text \<open>The components hold the same queues.\<close>

definition linked :: "'d client \<Rightarrow> bool" where
  "linked x \<longleftrightarrow> OrderGateway.outgoing_requests (snd (cl_gateway x)) = TradeEngine.outgoing_requests (cl_engine x) \<and>
     OrderGateway.incoming_responses (snd (cl_gateway x)) = TradeEngine.incoming_responses (cl_engine x) \<and>
     incoming_market_update_queue (cl_consumer x) = incoming_market_updates (cl_engine x)"

definition client_queues_ok :: "'d client \<Rightarrow> bool" where
  "client_queues_ok x \<longleftrightarrow> roomy (TradeEngine.outgoing_requests (cl_engine x)) \<and> roomy (TradeEngine.incoming_responses (cl_engine x)) \<and>
     roomy (incoming_market_updates (cl_engine x)) \<and>
     store_size (TradeEngine.outgoing_requests (cl_engine x)) = ME_MAX_CLIENTS_UPDATES"

text \<open>What was written was read or waits, and the wire carries the requests sent, numbered from 1.\<close>

definition passed_on :: "'d client \<Rightarrow> client_history \<Rightarrow> bool" where
  "passed_on x h \<longleftrightarrow> ch_issued h = ch_sent h @ contents (TradeEngine.outgoing_requests (cl_engine x)) \<and>
     ch_accepted h = ch_heard h @ contents (TradeEngine.incoming_responses (cl_engine x)) \<and>
     ch_handed h = ch_seen h @ contents (incoming_market_updates (cl_engine x))"

definition on_wire :: "ClientId \<Rightarrow> 'd client \<Rightarrow> client_history \<Rightarrow> bool" where
  "on_wire cid x h \<longleftrightarrow> ch_wire h @ send_buffer (fst (cl_gateway x)) = requests.stream (numbered_requests 1 (ch_sent h)) \<and>
     next_outgoing_seq_num (snd (cl_gateway x)) = 1 + of_nat (length (ch_sent h)) \<and>
     next_incoming_seq_num (snd (cl_gateway x)) = 1 + of_nat (length (ch_accepted h)) \<and>
     gw_client_id (snd (cl_gateway x)) = cid \<and> list_all (\<lambda>r. rs_client_id r = cid) (ch_accepted h)"

definition desk_log :: "'d fp \<Rightarrow> 'd TradeEngine \<Rightarrow> 'd client \<Rightarrow> client_history \<Rightarrow> bool" where
  "desk_log F e0 x h \<longleftrightarrow> (\<exists>evs. res_fold (desk_step F) evs (desk e0, []) = Inr (desk (cl_engine x), ch_issued h) \<and>
     responses_in evs = ch_heard h \<and> updates_in evs = ch_seen h)"

definition client_inv :: "'d fp \<Rightarrow> 'd TradeEngine \<Rightarrow> ClientId \<Rightarrow> 'd client \<Rightarrow> client_history \<Rightarrow> bool" where
  "client_inv F e0 cid x h \<longleftrightarrow> linked x \<and> client_queues_ok x \<and> passed_on x h \<and> on_wire cid x h \<and> desk_log F e0 x h"

lemma new_client_inv:
  assumes "x0 = new_client F orders0 levels0 now rands cid algo cfg d d'"
  shows "client_inv F (cl_engine x0) cid x0 no_client_history"
proof -
  have "0 < ME_MAX_CLIENTS_UPDATES" by (simp add: size_defs)
  then have "linked x0" "client_queues_ok x0" "passed_on x0 no_client_history" "on_wire cid x0 no_client_history"
    by (simp_all add: assms linked_def client_queues_ok_def roomy_def passed_on_def on_wire_def new_client_def new_TradeEngine_def
        new_OrderGateway_def new_MarketDataConsumer_def new_TCPSocket_def no_client_history_def newQueue_ok Let_def)
      (simp_all add: newQueue_def)
  moreover have "desk_log F (cl_engine x0) x0 no_client_history"
    unfolding desk_log_def by (rule exI[of _ "[]"]) (simp add: no_client_history_def)
  ultimately show ?thesis by (simp add: client_inv_def)
qed

lemma trade_turn_inv:
  assumes "client_inv F e0 cid x h" and "trade_turn F now now' rands x = Inr x'" and "client_unfilled x'"
  shows "client_inv F e0 cid x' (h\<lparr>
      ch_issued := ch_issued h @ added (TradeEngine.outgoing_requests (cl_engine x)) (TradeEngine.outgoing_requests (cl_engine x')),
      ch_heard := ch_heard h @ removed (TradeEngine.incoming_responses (cl_engine x)) (TradeEngine.incoming_responses (cl_engine x')),
      ch_seen := ch_seen h @ removed (incoming_market_updates (cl_engine x)) (incoming_market_updates (cl_engine x'))\<rparr>)"
    (is "client_inv F e0 cid x' ?h")
proof -
  let ?e = "cl_engine x"
  obtain e' where e': "te_round F now now' rands ?e = Inr e'" and x': "cl_engine x' = e'" "linked x'"
    "cl_gateway x' = (fst (cl_gateway x), (snd (cl_gateway x))\<lparr>OrderGateway.outgoing_requests := TradeEngine.outgoing_requests e',
        OrderGateway.incoming_responses := TradeEngine.incoming_responses e'\<rparr>)"
    using assms(2) by (auto simp: trade_turn_def res_bind_eq_Inr linked_def)
  have inv: "client_queues_ok x" "passed_on x h" "on_wire cid x h" "desk_log F e0 x h" using assms(1) by (simp_all add: client_inv_def)
  have room: "roomy (TradeEngine.outgoing_requests ?e)" "roomy (TradeEngine.incoming_responses ?e)" "roomy (incoming_market_updates ?e)"
    "store_size (TradeEngine.outgoing_requests ?e) = ME_MAX_CLIENTS_UPDATES" using inv(1) by (simp_all add: client_queues_ok_def)
  from round_worked[OF e' room(2,3)] obtain rs us where
    t: "takes (TradeEngine.incoming_responses ?e) rs (TradeEngine.incoming_responses e')" "takes (incoming_market_updates ?e) us (incoming_market_updates e')"
    and w: "worked F ([Timer now now' rands] @ map Response rs @ map Update us) ?e e'" by blast
  let ?evs = "[Timer now now' rands] @ map Response rs @ map Update us"
  from w obtain rqs where rqs: "TradeEngine.outgoing_requests e' = fold push rqs (TradeEngine.outgoing_requests ?e)"
    "length rqs < ME_MAX_CLIENTS_UPDATES \<longrightarrow> (\<forall>out. res_fold (desk_step F) ?evs (desk ?e, out) = Inr (desk e', out @ rqs))"
    by (auto simp: worked_def simp del: responses_in_simps)
  have c: "roomy (TradeEngine.outgoing_requests e')" "contents (TradeEngine.outgoing_requests e') = contents (TradeEngine.outgoing_requests ?e) @ rqs"
    using roomy_push[OF room(1)] assms(3) unfolding rqs(1) by (simp_all add: client_unfilled_def x' rqs(1))
  have "length rqs < ME_MAX_CLIENTS_UPDATES" using assms(3) room(4) by (simp add: client_unfilled_def x' rqs(1))
  then have step: "res_fold (desk_step F) ?evs (desk ?e, out) = Inr (desk e', out @ rqs)" for out using rqs(2) by blast
  have h: "ch_issued ?h = ch_issued h @ rqs" "ch_heard ?h = ch_heard h @ rs" "ch_seen ?h = ch_seen h @ us"
    "ch_sent ?h = ch_sent h" "ch_wire ?h = ch_wire h" "ch_accepted ?h = ch_accepted h" "ch_handed ?h = ch_handed h"
    using added_push[OF c(2)] removed_takes[OF t(1)] removed_takes[OF t(2)] by (simp_all add: x')
  have "client_queues_ok x'" using c(1) takes_roomy[OF room(2) t(1)] takes_roomy[OF room(3) t(2)] room(4) rqs(1)
    by (simp add: client_queues_ok_def x')
  moreover have "passed_on x' ?h" using inv(2) c(2) t unfolding passed_on_def h by (simp add: x' takes_def)
  moreover have "on_wire cid x' ?h" using inv(3) unfolding on_wire_def h by (simp add: x'(3))
  moreover have "desk_log F e0 x' ?h"
  proof -
    obtain evs where "res_fold (desk_step F) evs (desk e0, []) = Inr (desk ?e, ch_issued h)" "responses_in evs = ch_heard h" "updates_in evs = ch_seen h"
      using inv(4) by (auto simp: desk_log_def)
    then show ?thesis using step unfolding desk_log_def h unfolding x'(1)
      by (intro exI[of _ "evs @ ?evs"]) (simp only: res_fold_append res_bind_simps responses_in_simps append_Nil append_Nil2 simp_thms)
  qed
  ultimately show ?thesis using x'(2) by (simp add: client_inv_def)
qed

lemma gateway_turn_inv:
  assumes "client_inv F e0 cid x h" and "gateway_turn rx x = Inr (out, x')" and "client_unfilled x'"
  shows "client_inv F e0 cid x' (h\<lparr>
      ch_sent := ch_sent h @ removed (TradeEngine.outgoing_requests (cl_engine x)) (TradeEngine.outgoing_requests (cl_engine x')),
      ch_wire := ch_wire h @ out,
      ch_accepted := ch_accepted h @ added (TradeEngine.incoming_responses (cl_engine x)) (TradeEngine.incoming_responses (cl_engine x')),
      ch_reads := ch_reads h @ [gateway_takes rx x]\<rparr>)"
    (is "client_inv F e0 cid x' ?h")
proof -
  let ?e = "cl_engine x"
  obtain k g where kg: "cl_gateway x = (k, g)" by fastforce
  obtain k' g' where run: "gateway_round rx (k, g) = Inr (out, k', g')" and
    x': "cl_engine x' = boxes (OrderGateway.outgoing_requests g') (OrderGateway.incoming_responses g') (incoming_market_updates ?e) ?e"
      "cl_gateway x' = (k', g')" "cl_consumer x' = cl_consumer x"
    using assms(2) kg by (auto simp: gateway_turn_def res_bind_eq_Inr)
  have inv: "linked x" "client_queues_ok x" "passed_on x h" "on_wire cid x h" "desk_log F e0 x h"
    using assms(1) by (simp_all add: client_inv_def)
  have same: "OrderGateway.outgoing_requests g = TradeEngine.outgoing_requests ?e" "OrderGateway.incoming_responses g = TradeEngine.incoming_responses ?e"
    using inv(1) kg by (simp_all add: linked_def)
  have room: "roomy (TradeEngine.outgoing_requests ?e)" "roomy (TradeEngine.incoming_responses ?e)"
    using inv(2) by (simp_all add: client_queues_ok_def)
  from gateway_round_takes[OF run] room(1) same obtain qs rs where
    out: "out = send_buffer k" "send_buffer k' = requests.stream (numbered_requests (next_outgoing_seq_num g) qs)" and
    t: "takes (TradeEngine.outgoing_requests ?e) qs (OrderGateway.outgoing_requests g')" and
    n: "next_outgoing_seq_num g' = next_outgoing_seq_num g + of_nat (length qs)" "gw_client_id g' = gw_client_id g"
      "next_incoming_seq_num g' = next_incoming_seq_num g + of_nat (length rs)" "list_all (\<lambda>r. rs_client_id r = gw_client_id g) rs" and
    rs: "OrderGateway.incoming_responses g' = fold push rs (TradeEngine.incoming_responses ?e)" by auto
  have c: "roomy (OrderGateway.incoming_responses g')" "contents (OrderGateway.incoming_responses g') = contents (TradeEngine.incoming_responses ?e) @ rs"
    using roomy_push[OF room(2)] assms(3) unfolding rs by (simp_all add: client_unfilled_def x' rs)
  have h: "ch_sent ?h = ch_sent h @ qs" "ch_wire ?h = ch_wire h @ send_buffer k" "ch_accepted ?h = ch_accepted h @ rs"
    "ch_issued ?h = ch_issued h" "ch_heard ?h = ch_heard h" "ch_handed ?h = ch_handed h" "ch_seen ?h = ch_seen h"
    using removed_takes[OF t] added_push[OF c(2)] out(1) by (simp_all add: x')
  have "linked x'" using inv(1) by (simp add: linked_def x')
  moreover have "client_queues_ok x'" using inv(2) takes_roomy[OF room(1) t] c(1) t by (simp add: client_queues_ok_def x' takes_def)
  moreover have "passed_on x' ?h" using inv(3) c(2) t unfolding passed_on_def h by (simp add: x' takes_def)
  moreover have "on_wire cid x' ?h" using inv(4) n out(2) kg unfolding on_wire_def h
    by (simp add: x' nrq.num_append requests.stream_append)
  moreover have "desk_log F e0 x' ?h" using inv(5) unfolding desk_log_def h by (simp add: x' desk_def)
  ultimately show ?thesis by (simp add: client_inv_def)
qed

lemma consumer_turn_inv:
  assumes "client_inv F e0 cid x h" and "consumer_turn net rx rx' x = Inr x'" and "client_unfilled x'"
  shows "client_inv F e0 cid x' (h\<lparr>
      ch_handed := ch_handed h @ added (incoming_market_updates (cl_engine x)) (incoming_market_updates (cl_engine x')),
      ch_datagrams := ch_datagrams h @ [consumer_takes rx x]\<rparr>)"
    (is "client_inv F e0 cid x' ?h")
proof -
  let ?e = "cl_engine x"
  obtain c' where run: "consumer_round net rx rx' (cl_consumer x) = Inr c'" and
    x': "cl_consumer x' = c'" "cl_engine x' = ?e\<lparr>incoming_market_updates := incoming_market_update_queue c'\<rparr>" "cl_gateway x' = cl_gateway x"
    using assms(2) by (auto simp: consumer_turn_def res_bind_eq_Inr)
  have inv: "linked x" "client_queues_ok x" "passed_on x h" "on_wire cid x h" "desk_log F e0 x h"
    using assms(1) by (simp_all add: client_inv_def)
  obtain us where us: "incoming_market_update_queue c' = fold push us (incoming_market_updates ?e)"
    using consumer_round_handing[OF run] inv(1) by (auto simp: linked_def)
  have c: "roomy (incoming_market_update_queue c')" "contents (incoming_market_update_queue c') = contents (incoming_market_updates ?e) @ us"
    using roomy_push[of "incoming_market_updates ?e" us] inv(2) assms(3) unfolding us
    by (simp_all add: client_unfilled_def client_queues_ok_def x' us)
  have h: "ch_handed ?h = ch_handed h @ us" "ch_issued ?h = ch_issued h" "ch_heard ?h = ch_heard h" "ch_seen ?h = ch_seen h"
    "ch_sent ?h = ch_sent h" "ch_wire ?h = ch_wire h" "ch_accepted ?h = ch_accepted h"
    using added_push[OF c(2)] by (simp_all add: x')
  have "linked x'" using inv(1) by (simp add: linked_def x')
  moreover have "client_queues_ok x'" using inv(2) c(1) by (simp add: client_queues_ok_def x')
  moreover have "passed_on x' ?h" using inv(3) c(2) unfolding passed_on_def h by (simp add: x')
  moreover have "on_wire cid x' ?h" using inv(4) unfolding on_wire_def h by (simp add: x')
  moreover have "desk_log F e0 x' ?h" using inv(5) unfolding desk_log_def h by (simp add: x' desk_def boxes_def)
  ultimately show ?thesis by (simp add: client_inv_def)
qed

lemma client_run_inv:
  assumes "client_run F x0 x h" and "client_inv F e0 cid x0 no_client_history"
  shows "client_inv F e0 cid x h"
  using assms
proof (induction rule: client_run.induct)
  case (client_trades x h now now' rands x')
  then show ?case using trade_turn_inv by blast
next
  case (client_gateway x h rx out x')
  then show ?case using gateway_turn_inv by blast
next
  case (client_consumer x h net rx rx' x')
  then show ?case using consumer_turn_inv by blast
qed

text \<open>C6: whatever the interleaving of the client's three threads, as long as no queue is filled, the trading program
  is a trading desk that handles one event after the other: its engine, queues aside, is in the state of the
  desk; the responses among the events are those the engine took, and with those still waiting they are the
  responses the gateway accepted, in order and once, and likewise for the updates; the requests the desk
  issued are those sent, in order, and those still waiting; and the wire, with what the socket has
  still to hand over, carries exactly the requests sent, numbered from 1 without a gap.\<close>

theorem client_serializes:
  assumes "client_run F x0 x h" and "x0 = new_client F orders0 levels0 now rands cid algo cfg d d'"
  shows "\<exists>evs issued. res_fold (desk_step F) evs (desk (cl_engine x0), []) = Inr (desk (cl_engine x), issued) \<and>
    ch_accepted h = responses_in evs @ contents (TradeEngine.incoming_responses (cl_engine x)) \<and>
    ch_handed h = updates_in evs @ contents (incoming_market_updates (cl_engine x)) \<and>
    issued = ch_sent h @ contents (TradeEngine.outgoing_requests (cl_engine x)) \<and>
    ch_wire h @ send_buffer (fst (cl_gateway x)) = requests.stream (numbered_requests 1 (ch_sent h))"
proof -
  have inv: "client_inv F (cl_engine x0) cid x h" by (rule client_run_inv[OF assms(1) new_client_inv[OF assms(2)]])
  then obtain evs where "res_fold (desk_step F) evs (desk (cl_engine x0), []) = Inr (desk (cl_engine x), ch_issued h)"
    "responses_in evs = ch_heard h" "updates_in evs = ch_seen h" by (auto simp: client_inv_def desk_log_def)
  then show ?thesis using inv by (intro exI[of _ evs] exI[of _ "ch_issued h"]) (simp add: client_inv_def passed_on_def on_wire_def)
qed

end
