(* ===== verification/MarketPath.thy ===== *)
theory MarketPath
  imports MatchingEngine MarketDataConsumer Mirror
begin

text \<open>
  What leaves the matching engine (\<^verbatim>\<open>src/exchange/matching_engine.cpp\<close>,
  \<^verbatim>\<open>order_book.cpp\<close>): the types of its messages and their number; and the path of the
  market updates from there through the publisher (\<^verbatim>\<open>market_data_publisher.cpp\<close>), the multicast
  stream and the consumer (\<^verbatim>\<open>client/market_data_consumer.cpp\<close>) into a client's book.
\<close>

section \<open>Types of messages\<close>

definition typed_update :: "TickerId \<Rightarrow> MEMarketUpdate \<Rightarrow> bool" where
  "typed_update t u \<longleftrightarrow> mu_type u \<in> {MU_ADD, MU_MODIFY, MU_CANCEL, MU_TRADE} \<and> mu_side u \<in> {BUY, SELL} \<and>
     mu_ticker_id u = t \<and> (mu_type u = MU_CANCEL \<or> mu_qty u \<noteq> 0)"

definition typed_response :: "TickerId \<Rightarrow> MEClientResponse \<Rightarrow> bool" where
  "typed_response t r \<longleftrightarrow> rs_ticker_id r = t \<and>
     (rs_type r = CANCEL_REJECTED \<and> rs_side r = SIDE_INVALID \<or>
      rs_type r \<in> {ACCEPTED, CANCELLED, FILLED} \<and> rs_side r \<in> {BUY, SELL}) \<and>
     (rs_type r = FILLED \<longrightarrow> rs_exec_qty r \<noteq> 0)"

text \<open>Such messages survive their encoding.\<close>

lemma typed_update_wf: "typed_update t u \<Longrightarrow> update_wf u"
  by (cases "mu_type u"; cases "mu_side u") (simp_all add: typed_update_def update_wf_def byte_mu_def byte_side_def)

lemma typed_response_wf: "typed_response t r \<Longrightarrow> response_wf r"
  by (cases "rs_type r"; cases "rs_side r") (simp_all add: typed_response_def response_wf_def byte_rs_def byte_side_def)

lemma sweep_fills:
  assumes "sweep s p q rs = (fs, left, rest)" and "list_all (\<lambda>r. ord_qty r \<noteq> 0) rs"
  shows "list_all (\<lambda>(r, f). r \<in> set rs \<and> f \<noteq> 0) fs \<and> length fs \<le> length rs"
  using assms(1)
proof (cases rule: sweep_cases)
  case (whole front)
  then show ?thesis using assms(2) by (auto simp: list_all_iff)
next
  case (partial front r rs' f)
  then show ?thesis using assms(2) by (auto simp: list_all_iff)
qed

lemma sweep_left: "sweep s p q rs = (fs, left, rest) \<Longrightarrow> q = 0 \<Longrightarrow> left = 0"
  by simp

lemma fill_updates_typed:
  "list_all (\<lambda>(r, f). ord_side r \<in> {BUY, SELL} \<and> f \<noteq> 0) fs \<Longrightarrow> s \<in> {BUY, SELL} \<Longrightarrow>
     list_all (typed_update t) (fill_updates t s fs)"
  by (induction t s fs rule: fill_updates.induct) (auto simp: typed_update_def)

lemma fill_responses_typed:
  "list_all (\<lambda>(r, f). ord_side r \<in> {BUY, SELL} \<and> f \<noteq> 0) fs \<Longrightarrow> s \<in> {BUY, SELL} \<Longrightarrow>
     list_all (typed_response t) (fill_responses t c oid moid s q fs)"
  by (induction t c oid moid s q fs rule: fill_responses.induct) (auto simp: typed_response_def)

lemma fill_responses_clients:
  "r \<in> set (fill_responses t c oid moid s q fs) \<Longrightarrow> rs_client_id r = c \<or> rs_client_id r \<in> ord_client ` fst ` set fs"
  by (induction t c oid moid s q fs rule: fill_responses.induct) auto

lemma length_fill_responses [simp]: "length (fill_responses t c oid moid s q fs) = 2 * length fs"
  by (induction t c oid moid s q fs rule: fill_responses.induct) simp_all

lemma length_fill_updates [simp]: "length (fill_updates t s fs) = 2 * length fs"
  by (induction t s fs rule: fill_updates.induct) simp_all

section \<open>One book\<close>

text \<open>The orders a book holds, over both sides.\<close>

abbreviation orders_of :: "MEOrderBook \<Rightarrow> MEOrder list" where
  "orders_of b \<equiv> resting BUY (core b) @ resting SELL (core b)"

lemma good_orders:
  assumes "me_ok b" and "s \<in> {BUY, SELL}"
  shows "list_all (\<lambda>r. ord_side r = s \<and> ord_qty r \<noteq> 0) (resting s (core b))"
proof -
  have "side_wf s (next_order_id b) (resting s (core b))"
    using assms by (auto simp: me_ok_def book_wf_def resting_abs)
  then show ?thesis by (auto simp: side_wf_def list_all_iff order_wf_def)
qed

text \<open>Responses go to the client of the request and to the owners of resting orders; the first of them
  is the answer to the request.\<close>

definition addressed :: "ClientId \<Rightarrow> MEOrderBook \<Rightarrow> MEClientResponse \<Rightarrow> bool" where
  "addressed c b r \<longleftrightarrow> rs_client_id r = c \<or> rs_client_id r \<in> ord_client ` set (orders_of b)"

definition answer_to :: "MEClientRequest \<Rightarrow> MEClientResponse \<Rightarrow> bool" where
  "answer_to q r \<longleftrightarrow> rs_client_id r = rq_client_id q \<and> rs_client_order_id r = rq_order_id q \<and>
     (rq_type q = CRQ_NEW \<longrightarrow> rs_type r = ACCEPTED) \<and>
     (rq_type q = CRQ_CANCEL \<longrightarrow> rs_type r = CANCELLED \<or> rs_type r = CANCEL_REJECTED)"

lemma spec_add_messages:
  assumes ok: "me_ok b" and s: "s \<in> {BUY, SELL}"
  obtains us rs where "ab_updates (spec_add c oid s p q (abs_book b)) = sent_updates b @ us"
    and "ab_responses (spec_add c oid s p q (abs_book b)) = sent_responses b @ rs"
    and "list_all (typed_update (ticker b)) us" and "list_all (typed_response (ticker b)) rs"
    and "length us \<le> 2 * length (orders_of b) + 1" and "length rs \<le> 2 * length (orders_of b) + 1"
    and "list_all (addressed c b) rs"
    and "\<exists>r rs'. rs = r # rs' \<and> rs_client_id r = c \<and> rs_client_order_id r = oid \<and> rs_type r = ACCEPTED"
proof -
  obtain fs left rest where sw: "sweep s p q (resting (opp s) (core b)) = (fs, left, rest)" by (metis prod_cases3)
  have o: "opp s \<in> {BUY, SELL}" by (simp add: opp_def)
  have "list_all (\<lambda>r. ord_qty r \<noteq> 0) (resting (opp s) (core b))"
    using good_orders[OF ok o] by (simp add: list_all_iff)
  note fills = sweep_fills[OF sw this]
  have typed: "list_all (\<lambda>(r, f). ord_side r \<in> {BUY, SELL} \<and> f \<noteq> 0) fs"
    using fills good_orders[OF ok o] o by (fastforce simp: list_all_iff)
  let ?t = "ticker b" and ?i = "next_order_id b"
  let ?added = "\<lparr>mu_type = MU_ADD, mu_order_id = ?i, mu_ticker_id = ?t, mu_side = s, mu_price = p, mu_qty = q,
     mu_priority = next_priority p (resting s (core b))\<rparr>"
  let ?us = "fill_updates ?t s fs @ (if left > 0 then [?added] else [])"
  let ?rs = "\<lparr>rs_type = ACCEPTED, rs_client_id = c, rs_ticker_id = ?t, rs_client_order_id = oid,
     rs_market_order_id = ?i, rs_side = s, rs_price = p, rs_exec_qty = 0, rs_left_qty = q\<rparr> #
     fill_responses ?t c oid ?i s q fs"
  have "left > 0 \<Longrightarrow> q \<noteq> 0" using sw by auto
  then have "list_all (typed_update ?t) ?us"
    using fill_updates_typed[OF typed s, of ?t] s by (auto simp: typed_update_def)
  moreover have "list_all (typed_response ?t) ?rs"
    using fill_responses_typed[OF typed s, of ?t] s by (auto simp: typed_response_def)
  moreover have "length fs \<le> length (orders_of b)" using fills s by (auto simp: opp_def)
  then have "length ?us \<le> 2 * length (orders_of b) + 1" "length ?rs \<le> 2 * length (orders_of b) + 1" by simp_all
  moreover have "fst ` set fs \<subseteq> set (orders_of b)" using fills s by (auto simp: list_all_iff opp_def split: if_splits)
  then have "addressed c b r" if "r \<in> set ?rs" for r
    using that fill_responses_clients[of r ?t c oid ?i s q fs] by (auto simp: addressed_def)
  then have "list_all (addressed c b) ?rs" by (simp only: list_all_iff) blast
  ultimately show thesis
    by (intro that[of ?us ?rs]) (use sw in \<open>simp_all add: spec_add_def spec_order_def resting_abs Let_def\<close>)
qed

lemma spec_cancel_messages:
  assumes ok: "me_ok b"
  obtains us rs where "ab_updates (spec_cancel c oid (abs_book b)) = sent_updates b @ us"
    and "ab_responses (spec_cancel c oid (abs_book b)) = sent_responses b @ rs"
    and "list_all (typed_update (ticker b)) us" and "list_all (typed_response (ticker b)) rs"
    and "length us \<le> 2 * length (orders_of b) + 1"
    and "\<exists>r. rs = [r] \<and> rs_client_id r = c \<and> rs_client_order_id r = oid \<and> (rs_type r = CANCELLED \<or> rs_type r = CANCEL_REJECTED)"
proof (cases "find_owned c oid (abs_book b)")
  case None
  then show thesis
    by (intro that[of "[]" "drop (length (sent_responses b)) (ab_responses (spec_cancel c oid (abs_book b)))"])
      (simp_all add: spec_cancel_def typed_response_def)
next
  case (Some r)
  then have "r \<in> set (orders_of b)" using find_SomeD(1) by (fastforce simp: find_owned_def resting_abs)
  then have "ord_side r \<in> {BUY, SELL}"
    using good_orders[OF ok, of BUY] good_orders[OF ok, of SELL] by (auto simp: list_all_iff)
  then show thesis using Some
    by (intro that[of "drop (length (sent_updates b)) (ab_updates (spec_cancel c oid (abs_book b)))"
          "drop (length (sent_responses b)) (ab_responses (spec_cancel c oid (abs_book b)))"])
      (simp_all add: spec_cancel_def typed_response_def typed_update_def)
qed

lemma dispatch_messages:
  assumes ok: "me_ok b" and empty: "sent_updates b = []" "sent_responses b = []" and ty: "rq_type q \<noteq> CRQ_INVALID"
    and new: "rq_type q = CRQ_NEW \<longrightarrow> next_order_id b + 1 \<noteq> 0 \<and>
        admissible (rq_client_id q) (rq_order_id q) (rq_side q) (rq_price q) (abs_book b)"
  shows "\<exists>b'. dispatch q b = Inr b' \<and> list_all (typed_update (ticker b)) (sent_updates b') \<and>
    list_all (typed_response (ticker b)) (sent_responses b') \<and> length (sent_updates b') \<le> 2 * length (orders_of b) + 1 \<and>
    length (sent_responses b') \<le> 2 * length (orders_of b) + 1 \<and> list_all (addressed (rq_client_id q) b) (sent_responses b') \<and>
    (rq_type q = CRQ_NEW \<or> rq_type q = CRQ_CANCEL \<longrightarrow> (\<exists>r rs. sent_responses b' = r # rs \<and> answer_to q r))"
proof (cases "rq_type q")
  case CRQ_NEW
  then have adm: "admissible (rq_client_id q) (rq_order_id q) (rq_side q) (rq_price q) (abs_book b)" "next_order_id b + 1 \<noteq> 0"
    using new by simp_all
  then have side: "rq_side q \<in> {BUY, SELL}" by (auto simp: admissible_def)
  obtain b' where b': "add (rq_client_id q) (rq_order_id q) (rq_side q) (rq_price q) (rq_qty q) b = Inr b'"
    "abs_book b' = spec_add (rq_client_id q) (rq_order_id q) (rq_side q) (rq_price q) (rq_qty q) (abs_book b)"
    using add_ok[OF ok adm] by metis
  have "sent_updates b' = ab_updates (abs_book b')" "sent_responses b' = ab_responses (abs_book b')" by simp_all
  then show ?thesis using spec_add_messages[OF ok side, of "rq_client_id q" "rq_order_id q" "rq_price q" "rq_qty q"] b' empty CRQ_NEW
    by (fastforce simp: dispatch_def answer_to_def)
next
  case CRQ_CANCEL
  obtain b' where b': "cancel (rq_client_id q) (rq_order_id q) b = Inr b'"
    "abs_book b' = spec_cancel (rq_client_id q) (rq_order_id q) (abs_book b)"
    using cancel_ok[OF ok] by metis
  have "sent_updates b' = ab_updates (abs_book b')" "sent_responses b' = ab_responses (abs_book b')" by simp_all
  then show ?thesis using spec_cancel_messages[OF ok, of "rq_client_id q" "rq_order_id q"] b' empty CRQ_CANCEL
    by (fastforce simp: dispatch_def answer_to_def addressed_def)
qed (use ok empty ty in \<open>simp_all add: dispatch_def\<close>)

section \<open>The engine\<close>

text \<open>C17: everything the engine puts into its queues while it serves a request is a message its
  readers know: a response of a kind and side the client handles, an update of a kind the client's book
  handles, both of the request's ticker, with no empty trade and no empty order among them.\<close>

theorem engine_messages_typed:
  assumes "engine_ok e" and "servable q e"
  shows "\<exists>e' us rs. processClientRequest q e = Inr e' \<and>
     market_updates_queue e' = fold push us (market_updates_queue e) \<and>
     outcoming_response_queue e' = fold push rs (outcoming_response_queue e) \<and>
     list_all (typed_update (rq_ticker_id q)) us \<and> list_all (typed_response (rq_ticker_id q)) rs"
proof -
  let ?b = "ticker_order_book e (unat (rq_ticker_id q))"
  have t: "unat (rq_ticker_id q) < ME_MAX_TICKERS" and ty: "rq_type q \<noteq> CRQ_INVALID"
    and new: "rq_type q = CRQ_NEW \<longrightarrow> next_order_id ?b + 1 \<noteq> 0 \<and>
        admissible (rq_client_id q) (rq_order_id q) (rq_side q) (rq_price q) (abs_book ?b)"
    using assms(2) by (auto simp: servable_def Let_def)
  have slot: "me_ok ?b" "sent_updates ?b = []" "sent_responses ?b = []" "ticker ?b = rq_ticker_id q"
    using assms(1) t by (simp_all add: engine_ok_def slot_ok_def)
  from dispatch_messages[OF slot(1-3) ty new] obtain b' where b': "dispatch q ?b = Inr b'"
    "list_all (typed_update (rq_ticker_id q)) (sent_updates b')"
    "list_all (typed_response (rq_ticker_id q)) (sent_responses b')" unfolding slot(4) by blast
  then have "processClientRequest q e = Inr (deliver (unat (rq_ticker_id q)) b' e)"
    using t by (simp add: processClientRequest_def)
  then show ?thesis using b' by (intro exI conjI) auto
qed

theorem engine_messages_typed_witness:
  "\<exists>e' us rs. processClientRequest sample_request exchange_engine = Inr e' \<and>
     market_updates_queue e' = fold push us (market_updates_queue exchange_engine) \<and>
     outcoming_response_queue e' = fold push rs (outcoming_response_queue exchange_engine) \<and>
     list_all (typed_update (rq_ticker_id sample_request)) us \<and> list_all (typed_response (rq_ticker_id sample_request)) rs"
  by (rule engine_messages_typed[OF exchange_engine_ok sample_servable])

section \<open>From the engine to the client's book\<close>

text \<open>Whether a new order trades in part and its remainder rests.\<close>

definition partly_filled :: "MEClientRequest \<Rightarrow> MEOrderBook \<Rightarrow> bool" where
  "partly_filled q b \<longleftrightarrow> rq_type q = CRQ_NEW \<and>
     (case sweep (rq_side q) (rq_price q) (rq_qty q) (resting (opp (rq_side q)) (core b)) of
        (fs, left, rest) \<Rightarrow> left \<noteq> rq_qty q \<and> left \<noteq> 0)"

lemma dispatch_mirrored:
  assumes ok: "me_ok b" and empty: "sent_updates b = []" and ty: "rq_type q \<noteq> CRQ_INVALID"
    and new: "rq_type q = CRQ_NEW \<longrightarrow> next_order_id b + 1 \<noteq> 0 \<and> unat (next_order_id b) < ME_MAX_ORDER_IDS \<and>
        admissible (rq_client_id q) (rq_order_id q) (rq_side q) (rq_price q) (abs_book b)"
    and k: "client_ok k" "mirrors b k"
  shows "\<exists>b' k'. dispatch q b = Inr b' \<and> follow (sent_updates b') k = Inr k' \<and> client_ok k' \<and>
     (mirrors b' k' \<longleftrightarrow> \<not> partly_filled q b)"
proof (cases "rq_type q")
  case CRQ_NEW
  obtain fs left rest where sw: "sweep (rq_side q) (rq_price q) (rq_qty q) (resting (opp (rq_side q)) (core b)) = (fs, left, rest)"
    by (metis prod_cases3)
  show ?thesis
    using add_mirrored[OF ok _ _ _ k sw, of "rq_client_id q" "rq_order_id q"] new CRQ_NEW sw empty
    by (auto simp: dispatch_def partly_filled_def)
next
  case CRQ_CANCEL
  have "\<exists>b' us k'. cancel (rq_client_id q) (rq_order_id q) b = Inr b' \<and> sent_updates b' = sent_updates b @ us \<and>
     follow us k = Inr k' \<and> client_ok k' \<and> mirrors b' k'" by (rule cancel_mirrored[OF ok k])
  then show ?thesis using CRQ_CANCEL empty by (auto simp: dispatch_def partly_filled_def)
qed (use empty ty k in \<open>auto simp: dispatch_def partly_filled_def\<close>)

lemma mirrors_forget [simp]: "mirrors (forget_messages b) k = mirrors b k"
  by (simp add: mirrors_def forget_messages_def)

text \<open>The consumer's share, also when there is nothing to read.\<close>

lemma consumer_reads:
  assumes "\<not> packet_lost c" and "socket_fd (in_incremental c) \<noteq> socket_fd (in_snapshot c)"
    and "list_all update_wf us" and "queue_ok (incoming_market_update_queue c)"
    and "length (contents (incoming_market_update_queue c)) + length us < store_size (incoming_market_update_queue c)"
    and "inbound (in_incremental c) = []" and "length us * update_size \<le> McastBufferSize"
  shows "\<exists>c'. consumer_poll net False (updates.stream (numbered_updates (exp_seq_num c) us)) c = Inr c' \<and>
     \<not> packet_lost c' \<and> contents (incoming_market_update_queue c') = contents (incoming_market_update_queue c) @ us \<and>
     exp_seq_num c' = exp_seq_num c + of_nat (length us)"
proof (cases us)
  case Nil
  then show ?thesis using assms(1)
    by (simp add: consumer_poll_def mcast_sendAndRecv_def sock_of_def set_sock_def)
next
  case (Cons u rest)
  let ?bs = "updates.stream (numbered_updates (exp_seq_num c) us)"
  have len: "length ?bs = length us * update_size" by (simp add: updates.stream_length)
  then have "0 < length ?bs" using Cons by (simp only: len) (simp add: update_size_def)
  then have "?bs \<noteq> []" by (rule length_greater_0_conv[THEN iffD1])
  then show ?thesis
    using consumer_followed[OF assms(1-3) _ assms(4,5), of "[]" ?bs net] assms(6,7) len by (auto simp: update_size_def)
qed

text \<open>C12: from the engine to the client's book: when the engine has served a request, the publisher's next
  round and one read of the client's consumer bring the trade engine exactly the updates of that
  request; the client's book handles them and again shows the orders of the exchange's, unless the
  request was a new order that traded in part; and publisher and consumer agree on the next number.\<close>

theorem market_data_reaches_book:
  assumes "engine_ok e" and "servable q e" and "t = unat (rq_ticker_id q)" and "b = ticker_order_book e t"
    and "rq_type q = CRQ_NEW \<longrightarrow> unat (next_order_id b) < ME_MAX_ORDER_IDS"
    and "client_ok k" and "mirrors b k"
    and "n = 2 * length (orders_of b) + 1" and "n * update_size \<le> McastBufferSize"
    and "queue_ok (market_updates_queue e)" and "contents (market_updates_queue e) = []"
    and "n < store_size (market_updates_queue e)"
    and "queue_ok (snapshot_updates p)" and "length (contents (snapshot_updates p)) + n < store_size (snapshot_updates p)"
    and "outbound (incremental_socket p) = []"
    and "\<not> packet_lost c" and "socket_fd (in_incremental c) \<noteq> socket_fd (in_snapshot c)"
    and "inbound (in_incremental c) = []" and "queue_ok (incoming_market_update_queue c)"
    and "length (contents (incoming_market_update_queue c)) + n < store_size (incoming_market_update_queue c)"
    and "exp_seq_num c = next_seq_num p"
  shows "\<exists>e' bytes p' c' us k'. processClientRequest q e = Inr e' \<and>
     publisher_round [] (p\<lparr>outgoing_market_data := market_updates_queue e'\<rparr>) = Inr (bytes, p') \<and>
     consumer_poll net False bytes c = Inr c' \<and>
     contents (incoming_market_update_queue c') = contents (incoming_market_update_queue c) @ us \<and>
     follow us k = Inr k' \<and> client_ok k' \<and> (mirrors (ticker_order_book e' t) k' \<longleftrightarrow> \<not> partly_filled q b) \<and>
     exp_seq_num c' = next_seq_num p'"
proof -
  have t: "t < ME_MAX_TICKERS" and ty: "rq_type q \<noteq> CRQ_INVALID"
    and new: "rq_type q = CRQ_NEW \<longrightarrow> next_order_id b + 1 \<noteq> 0 \<and>
        admissible (rq_client_id q) (rq_order_id q) (rq_side q) (rq_price q) (abs_book b)"
    using assms(2-4) by (auto simp: servable_def Let_def)
  have slot: "me_ok b" "sent_updates b = []" "sent_responses b = []"
    using assms(1,4) t by (simp_all add: engine_ok_def slot_ok_def)
  obtain b' where b': "dispatch q b = Inr b'" "list_all (typed_update (ticker b)) (sent_updates b')" "length (sent_updates b') \<le> n"
    using dispatch_messages[OF slot(1-3) ty new] assms(8) by auto
  obtain k' where k': "follow (sent_updates b') k = Inr k'" "client_ok k'" "mirrors b' k' \<longleftrightarrow> \<not> partly_filled q b"
    using dispatch_mirrored[OF slot(1,2) ty _ assms(6,7)] new assms(5) b'(1) by auto
  define us where "us = sent_updates b'"
  define e' where "e' = deliver t b' e"
  have run: "processClientRequest q e = Inr e'" using t b'(1) assms(3,4) by (simp add: processClientRequest_def e'_def)
  have q: "queue_ok (market_updates_queue e')" "contents (market_updates_queue e') = us"
    "length us < store_size (market_updates_queue e')"
    using lfq.put_all[OF assms(10), of us] assms(11,12) b'(3) by (auto simp: e'_def us_def)
  define p1 where "p1 = p\<lparr>outgoing_market_data := market_updates_queue e'\<rparr>"
  have small: "length us * update_size \<le> McastBufferSize"
    using b'(3) assms(9) by (metis us_def le_trans mult_le_mono1)
  obtain p' where p': "publisher_round [] p1 = Inr (updates.stream (numbered_updates (next_seq_num p) us), p')"
    "next_seq_num p' = next_seq_num p + of_nat (length us)"
    using publisher_rounds[of p1 us] q small assms(13-15) b'(3) by (auto simp: p1_def us_def)
  have "list_all update_wf us" using b'(2) typed_update_wf unfolding us_def list_all_iff by blast
  then obtain c' where c': "consumer_poll net False (updates.stream (numbered_updates (exp_seq_num c) us)) c = Inr c'"
    "contents (incoming_market_update_queue c') = contents (incoming_market_update_queue c) @ us"
    "exp_seq_num c' = exp_seq_num c + of_nat (length us)"
    using consumer_reads[OF assms(16,17) _ assms(19) _ assms(18) small, of net] assms(20) b'(3) by (auto simp: us_def)
  have "mirrors (ticker_order_book e' t) k' \<longleftrightarrow> \<not> partly_filled q b" using k'(3) by (simp add: e'_def)
  then show ?thesis using run p' c' k'(1,2) assms(21) unfolding p1_def us_def[symmetric] by auto
qed

theorem market_data_reaches_book_witness:
  "\<exists>e' bytes p' c' us k'. processClientRequest sample_request exchange_engine = Inr e' \<and>
     publisher_round [] ((new_MarketDataPublisher (market_updates_queue exchange_engine) 5)
       \<lparr>outgoing_market_data := market_updates_queue e'\<rparr>) = Inr (bytes, p') \<and>
     consumer_poll (6, True) False bytes (new_MarketDataConsumer (newQueue default_update ME_MAX_MARKET_UPDATES) 5) = Inr c' \<and>
     contents (incoming_market_update_queue c') = [] @ us \<and>
     follow us (new_MarketOrderBook (\<lambda>_. None) (\<lambda>_. None) 3) = Inr k' \<and> client_ok k' \<and>
     (mirrors (ticker_order_book e' 3) k' \<longleftrightarrow> \<not> partly_filled sample_request (new_MEOrderBook 3)) \<and>
     exp_seq_num c' = next_seq_num p'"
proof -
  have none: "orders_of (new_MEOrderBook 3) = []" by (simp add: resting_abs[symmetric] abs_new)
  have n: "1 = 2 * length (orders_of (new_MEOrderBook 3)) + 1" by (simp only: none list.size mult_0_right add_0)
  have one: "1 < ME_MAX_MARKET_UPDATES" by (simp add: size_defs)
  have book: "new_MEOrderBook 3 = ticker_order_book exchange_engine 3" and three: "3 = unat (rq_ticker_id sample_request)"
    and queue: "market_updates_queue exchange_engine = newQueue default_update ME_MAX_MARKET_UPDATES"
    by (simp_all add: exchange_engine_def new_engine_def sample_request_def)
  have empty: "contents (incoming_market_update_queue (new_MarketDataConsumer (newQueue default_update ME_MAX_MARKET_UPDATES) 5)) = []"
    using one by (simp add: new_MarketDataConsumer_def newQueue_ok)
  show ?thesis unfolding empty[symmetric]
    by (rule market_data_reaches_book[OF exchange_engine_ok sample_servable three book _ new_client_ok new_mirrors n])
      (use one in \<open>simp_all add: queue newQueue_ok new_MarketDataPublisher_def new_MarketDataConsumer_def update_size_def
        McastBufferSize_def mcast_init_def new_McastSocket_def new_MEOrderBook_def size_defs del: length_contents\<close>)
qed

end
