(* ===== verification/Exchange.thy ===== *)
theory Exchange
  imports QueueSteps MatchingEngine OrderServer SnapshotSynthetizer
begin

text \<open>
  The exchange as a whole (\<^verbatim>\<open>src/exchange/exchange_main.cpp\<close>): the matching engine, the
  order server, the market data publisher and the snapshot synthetizer, joined by the queues that the main
  program hands them, and the interleavings of their four threads. A step is one iteration of
  one thread's loop; the interleavings inside a queue are the matter of \<open>QueueThreads\<close>.
\<close>

section \<open>The server's steps\<close>

text \<open>Whatever the receive callback keeps, reading the sockets keeps.\<close>

lemma serve_sockets_keep:
  assumes "\<And>t k k' c c'. cb t k c = Inr (k', c') \<Longrightarrow> P c \<Longrightarrow> P c'"
  shows "res_fold (serve_socket cb rx) ds (g, out, srv, c) = Inr (g', out', srv', c') \<Longrightarrow> P c \<Longrightarrow> P c'"
proof (induction ds arbitrary: g out srv c)
  case (Cons d ds)
  obtain g1 out1 srv1 c1 where one: "serve_socket cb rx d (g, out, srv, c) = Inr (g1, out1, srv1, c1)"
    and rest: "res_fold (serve_socket cb rx) ds (g1, out1, srv1, c1) = Inr (g', out', srv', c')"
    using Cons.prems(1) by (auto simp: res_bind_eq_Inr)
  have "P c1"
    using one Cons.prems(2) assms
    by (auto simp: serve_socket_def tcp_sendAndRecv_def res_bind_eq_Inr Let_def split: option.splits if_splits)
  then show ?case using Cons.IH[OF rest] by blast
qed simp

text \<open>The requests of a client among those recorded, sequenced or pending.\<close>

definition requests_of :: "nat \<Rightarrow> MEClientRequest list \<Rightarrow> nat" where
  "requests_of c qs = size (filter_mset (\<lambda>q. unat (rq_client_id q) = c) (mset qs))"

lemma requests_of_append [simp]: "requests_of c (qs @ rs) = requests_of c qs + requests_of c rs"
  by (simp add: requests_of_def)

lemma requests_of_Cons [simp]: "requests_of c (q # qs) = (if unat (rq_client_id q) = c then 1 else 0) + requests_of c qs"
  "requests_of c [] = 0"
  by (simp_all add: requests_of_def)

text \<open>The expected number of a client counts its requests.\<close>

definition counted :: "MEClientRequest list \<Rightarrow> OrderServer \<Rightarrow> bool" where
  "counted qs s \<longleftrightarrow> (\<forall>c. cid_next_exp_seq_num s c =
     1 + of_nat (requests_of c (qs @ map snd (pending_client_requests (fifo_sequencer s)))))"

definition recorded ::
  "MEClientRequest list \<Rightarrow> MEClientRequest spscQueue \<Rightarrow> MEClientResponse spscQueue \<Rightarrow> OrderServer \<Rightarrow> bool" where
  "recorded qs rq rs s \<longleftrightarrow> counted qs s \<and> incoming_request (fifo_sequencer s) = rq \<and> outgoing_messages s = rs"

lemma accept_request_recorded:
  "accept_request k t r s = Inr s' \<Longrightarrow> recorded qs rq rs s \<Longrightarrow> recorded qs rq rs s'"
  by (auto simp: accept_request_def addClientRequest_def Let_def res_bind_eq_Inr recorded_def counted_def split: if_splits)

lemma recvCallbacks_recorded:
  assumes "recvCallbacks t k s = Inr (k', s')" and "recorded qs rq rs s"
  shows "recorded qs rq rs s'"
proof (cases "length (recv_buffer k) < request_size")
  case True
  then show ?thesis using assms by (simp add: recvCallbacks_def)
next
  case False
  then obtain rest where "read_frames request_size (\<lambda>f. accept_request (fd k) t (decode_request f)) (recv_buffer k) s = Inr (rest, s')"
    using assms(1) by (auto simp: recvCallbacks_def res_bind_eq_Inr)
  from read_frames_keeps[where P="recorded qs rq rs", OF _ this assms(2)] show ?thesis using accept_request_recorded by blast
qed

lemma finish_recorded:
  assumes "time_sort srt" and "recvFinishedCallbacks srt s = Inr s'" and "recorded qs rq rs s"
  shows "\<exists>new. recorded (qs @ new) (fold push new rq) rs s'"
proof (cases "pending_client_requests (fifo_sequencer s) = []")
  case True
  then have "s' = s" using assms(2) by (simp add: recvFinishedCallbacks_def sequenceAndPublish_def)
  then have "recorded (qs @ []) (fold push [] rq) rs s'" using assms(3) by simp
  then show ?thesis ..
next
  case False
  let ?p = "pending_client_requests (fifo_sequencer s)"
  have "requests_of c (map snd (srt ?p)) = requests_of c (map snd ?p)" for c
    by (simp add: requests_of_def time_sort.sort_perm[OF assms(1)])
  then have "recorded (qs @ map snd (srt ?p)) (fold push (map snd (srt ?p)) rq) rs s'"
    using False assms(2,3) by (auto simp: fold_push_snd recvFinishedCallbacks_def sequenceAndPublish_def recorded_def counted_def)
  then show ?thesis ..
qed

lemma sendAndRecv_recorded:
  assumes "time_sort srt" and "recorded qs rq rs s"
    and "server_sendAndRecv recvCallbacks (recvFinishedCallbacks srt) rx rx' srv s = Inr (out, srv', s')"
  shows "\<exists>new. recorded (qs @ new) (fold push new rq) rs s'"
proof -
  obtain got out1 srv1 s1 s2 got2 where read: "res_fold (serve_socket recvCallbacks rx) (recv_sockets srv) (False, [], srv, s) = Inr (got, out1, srv1, s1)"
    and fin: "(if got then recvFinishedCallbacks srt s1 else Inr s1) = Inr s2"
    and last: "res_fold (serve_socket recvCallbacks rx') (send_sockets srv1) (False, out1, srv1, s2) = Inr (got2, out, srv', s')"
    using assms(3) by (auto simp: server_sendAndRecv_def res_bind_eq_Inr)
  have s1: "recorded qs rq rs s1"
    by (rule serve_sockets_keep[where P="recorded qs rq rs", OF _ read assms(2)]) (rule recvCallbacks_recorded)
  obtain new where s2: "recorded (qs @ new) (fold push new rq) rs s2"
  proof (cases got)
    case True
    then show ?thesis using fin finish_recorded[OF assms(1) _ s1] that by auto
  next
    case False
    then show ?thesis using fin s1 that[of "[]"] by simp
  qed
  have "recorded (qs @ new) (fold push new rq) rs s'"
    by (rule serve_sockets_keep[where P="recorded (qs @ new) (fold push new rq) rs", OF _ last s2]) (rule recvCallbacks_recorded)
  then show ?thesis ..
qed

lemma send_response_frame:
  "send_response r (s, srv) = Inr (s', srv') \<Longrightarrow> outgoing_messages s' = outgoing_messages s \<and>
     fifo_sequencer s' = fifo_sequencer s \<and> cid_next_exp_seq_num s' = cid_next_exp_seq_num s"
  by (auto simp: send_response_def Let_def res_bind_eq_Inr split: option.splits)

lemma send_responses_takes:
  assumes "send_responses n (s, srv) = Inr (s', srv')" and "roomy (outgoing_messages s)"
  shows "\<exists>xs. takes (outgoing_messages s) xs (outgoing_messages s') \<and>
     fifo_sequencer s' = fifo_sequencer s \<and> cid_next_exp_seq_num s' = cid_next_exp_seq_num s"
  using assms
proof (induction n arbitrary: s srv)
  case (Suc n)
  show ?case
  proof (cases "getNextRead (outgoing_messages s)")
    case None
    then show ?thesis using Suc.prems takes_refl by fastforce
  next
    case (Some r)
    then have "num_elements (outgoing_messages s) \<noteq> 0" by (auto simp: getNextRead_def split: if_splits)
    then obtain s1 srv1 q where step: "send_response r (s, srv) = Inr (s1, srv1)"
      "updateNextRead (outgoing_messages s1) = Inr q" "send_responses n (s1\<lparr>outgoing_messages := q\<rparr>, srv1) = Inr (s', srv')"
      using Suc.prems(1) Some by (auto simp: queue_size_def res_bind_eq_Inr)
    note frame = send_response_frame[OF step(1)]
    have t: "takes (outgoing_messages s) [r] q" using takes_next[OF Suc.prems(2) Some] step(2) frame by simp
    from Suc.IH[OF step(3)] takes_roomy[OF Suc.prems(2) t] obtain xs where "takes q xs (outgoing_messages s')"
      "fifo_sequencer s' = fifo_sequencer s1" "cid_next_exp_seq_num s' = cid_next_exp_seq_num s1" by auto
    then show ?thesis using takes_trans[OF t] frame by auto
  qed
qed simp

lemma server_round_recorded:
  assumes "time_sort srt" and "server_round srt ev fds rx rx' (s, srv) = Inr (out, s', srv')"
    and "counted qs s" and "roomy (outgoing_messages s)"
  shows "\<exists>new sent. counted (qs @ new) s' \<and> incoming_request (fifo_sequencer s') = fold push new (incoming_request (fifo_sequencer s)) \<and>
     takes (outgoing_messages s) sent (outgoing_messages s')"
proof -
  obtain srv1 srv2 s1 where steps: "server_sendAndRecv recvCallbacks (recvFinishedCallbacks srt) rx rx' srv1 s = Inr (out, srv2, s1)"
    "send_responses (queue_size (outgoing_messages s1) + 1) (s1, srv2) = Inr (s', srv')"
    using assms(2) by (auto simp: server_round_def res_bind_eq_Inr)
  have "recorded qs (incoming_request (fifo_sequencer s)) (outgoing_messages s) s"
    using assms(3) by (simp add: recorded_def)
  from sendAndRecv_recorded[OF assms(1) this steps(1)] obtain new where
    new: "recorded (qs @ new) (fold push new (incoming_request (fifo_sequencer s))) (outgoing_messages s) s1" by blast
  then have "roomy (outgoing_messages s1)" using assms(4) by (simp add: recorded_def)
  from send_responses_takes[OF steps(2) this] show ?thesis using new by (auto simp: recorded_def counted_def)
qed

section \<open>The publisher's and the synthetizer's steps\<close>

lemma publish_update_shape:
  assumes "publish_update u p = Inr p1" and "getNextRead (outgoing_market_data p) = Some u"
  obtains k q where "updateNextRead (outgoing_market_data p) = Inr q"
    and "outbound k = outbound (incremental_socket p) @ encode_update \<lparr>mdp_seq_num = next_seq_num p, mdp_update = u\<rparr>"
    and "p1 = p\<lparr>incremental_socket := k, outgoing_market_data := q,
        snapshot_updates := push \<lparr>mdp_seq_num = next_seq_num p, mdp_update = u\<rparr> (snapshot_updates p),
        next_seq_num := next_seq_num p + 1\<rparr>"
proof -
  have u: "store (outgoing_market_data p) (next_read_idx (outgoing_market_data p)) = u"
    using assms(2) by (auto simp: getNextRead_def split: if_splits)
  obtain q where q: "updateNextRead (outgoing_market_data p) = Inr q"
    using assms(1) by (auto simp: publish_update_def Let_def res_bind_eq_Inr)
  obtain k1 k where k: "mcast_send (put64 (next_seq_num p)) (incremental_socket p) = Inr k1" "mcast_send (encode_me_update u) k1 = Inr k"
    and p1: "p1 = p\<lparr>incremental_socket := k, outgoing_market_data := q,
        snapshot_updates := push \<lparr>mdp_seq_num = next_seq_num p, mdp_update = u\<rparr> (snapshot_updates p),
        next_seq_num := next_seq_num p + 1\<rparr>"
    using assms(1) u q updateNextRead_store[OF q] by (auto simp: publish_update_def Let_def res_bind_eq_Inr)
  have "outbound k = outbound (incremental_socket p) @ encode_update \<lparr>mdp_seq_num = next_seq_num p, mdp_update = u\<rparr>"
    using k by (auto simp: mcast_send_def encode_update_def ensure_def split: if_splits)
  with q show thesis using p1 by (rule that)
qed

lemma publish_updates_takes:
  assumes "publish_updates n p = Inr p'" and "roomy (outgoing_market_data p)"
  shows "\<exists>us. takes (outgoing_market_data p) us (outgoing_market_data p') \<and>
     snapshot_updates p' = fold push (numbered_updates (next_seq_num p) us) (snapshot_updates p) \<and>
     next_seq_num p' = next_seq_num p + of_nat (length us) \<and>
     outbound (incremental_socket p') = outbound (incremental_socket p) @ updates.stream (numbered_updates (next_seq_num p) us)"
  using assms
proof (induction n arbitrary: p)
  case (Suc n)
  show ?case
  proof (cases "getNextRead (outgoing_market_data p)")
    case None
    then show ?thesis using Suc.prems takes_refl by fastforce
  next
    case (Some u)
    then have "num_elements (outgoing_market_data p) \<noteq> 0" by (auto simp: getNextRead_def split: if_splits)
    then obtain p1 where p1: "publish_update u p = Inr p1" "publish_updates n p1 = Inr p'"
      using Suc.prems(1) Some by (auto simp: queue_size_def res_bind_eq_Inr)
    from p1(1) Some obtain k q where q: "updateNextRead (outgoing_market_data p) = Inr q"
      and k: "outbound k = outbound (incremental_socket p) @ encode_update \<lparr>mdp_seq_num = next_seq_num p, mdp_update = u\<rparr>"
      and eq: "p1 = p\<lparr>incremental_socket := k, outgoing_market_data := q,
        snapshot_updates := push \<lparr>mdp_seq_num = next_seq_num p, mdp_update = u\<rparr> (snapshot_updates p),
        next_seq_num := next_seq_num p + 1\<rparr>" by (rule publish_update_shape)
    have t: "takes (outgoing_market_data p) [u] q" by (rule takes_next[OF Suc.prems(2) Some q])
    have "roomy (outgoing_market_data p1)" using takes_roomy[OF Suc.prems(2) t] eq by simp
    from Suc.IH[OF p1(2) this] obtain us where "takes q us (outgoing_market_data p')"
      "snapshot_updates p' = fold push (numbered_updates (next_seq_num p + 1) us) (snapshot_updates p1)"
      "next_seq_num p' = next_seq_num p + 1 + of_nat (length us)"
      "outbound (incremental_socket p') = outbound k @ updates.stream (numbered_updates (next_seq_num p + 1) us)" by (auto simp: eq)
    then show ?thesis using takes_trans[OF t, of us] k by (intro exI[of _ "u # us"]) (auto simp: eq algebra_simps)
  qed
qed simp

lemma publisher_round_takes:
  assumes "publisher_round rx p = Inr (out, p')" and "roomy (outgoing_market_data p)"
  shows "\<exists>us. takes (outgoing_market_data p) us (outgoing_market_data p') \<and>
     snapshot_updates p' = fold push (numbered_updates (next_seq_num p) us) (snapshot_updates p) \<and>
     next_seq_num p' = next_seq_num p + of_nat (length us) \<and> outbound (incremental_socket p') = [] \<and>
     out = outbound (incremental_socket p) @ updates.stream (numbered_updates (next_seq_num p) us)"
proof -
  obtain p1 k where p1: "publish_updates (queue_size (outgoing_market_data p) + 1) p = Inr p1" "p' = p1\<lparr>incremental_socket := k\<rparr>"
    "outbound k = []" "out = outbound (incremental_socket p1)"
    using assms(1) by (auto simp: publisher_round_def mcast_sendAndRecv_def no_callback_def Let_def res_bind_eq_Inr split: if_splits
        simp del: publish_updates.simps)
  from publish_updates_takes[OF p1(1) assms(2)] show ?thesis by (auto simp: p1)
qed

lemma apply_update_frame:
  "apply_update t u s = Inr s' \<Longrightarrow> market_updates s' = market_updates s \<and> last_seq_num s' = last_seq_num s"
  by (auto simp: apply_update_def set_order_def res_bind_eq_Inr split: MarketUpdateType.splits)

lemma addSnapShot_frame:
  "addSnapShot m s = Inr s' \<Longrightarrow> market_updates s' = market_updates s \<and>
     last_seq_num s' = last_seq_num s + 1 \<and> mdp_seq_num m = last_seq_num s + 1"
  by (auto simp: addSnapShot_def Let_def res_bind_eq_Inr dest!: apply_update_frame)

lemma apply_updates_takes:
  assumes "apply_updates n s = Inr s'" and "roomy (market_updates s)"
  shows "\<exists>ms. takes (market_updates s) ms (market_updates s') \<and> last_seq_num s' = last_seq_num s + of_nat (length ms)"
  using assms
proof (induction n arbitrary: s)
  case (Suc n)
  show ?case
  proof (cases "getNextRead (market_updates s)")
    case None
    then show ?thesis using Suc.prems takes_refl by fastforce
  next
    case (Some m)
    then have "num_elements (market_updates s) \<noteq> 0" by (auto simp: getNextRead_def split: if_splits)
    then obtain s1 q where step: "addSnapShot m s = Inr s1" "updateNextRead (market_updates s1) = Inr q"
      "apply_updates n (s1\<lparr>market_updates := q\<rparr>) = Inr s'"
      using Suc.prems(1) Some by (auto simp: queue_size_def res_bind_eq_Inr)
    note frame = addSnapShot_frame[OF step(1)]
    have t: "takes (market_updates s) [m] q" using takes_next[OF Suc.prems(2) Some] step(2) frame by simp
    from Suc.IH[OF step(3)] takes_roomy[OF Suc.prems(2) t] obtain ms where "takes q ms (market_updates s')"
      "last_seq_num s' = last_seq_num s1 + of_nat (length ms)" by auto
    then show ?thesis using takes_trans[OF t, of ms] frame by (intro exI[of _ "m # ms"]) (auto simp: algebra_simps)
  qed
qed simp

lemma synthetizer_round_takes:
  assumes "synthetizer_round now now' s = Inr (out, s')" and "roomy (market_updates s)"
  shows "\<exists>ms. takes (market_updates s) ms (market_updates s') \<and> last_seq_num s' = last_seq_num s + of_nat (length ms)"
proof -
  obtain s1 where s1: "apply_updates (queue_size (market_updates s) + 1) s = Inr s1"
    and "s' = s1 \<or> (\<exists>k. s' = s1\<lparr>last_snap_update := now', snapshot_socket := k\<rparr>)"
    using assms(1) by (auto simp: synthetizer_round_def publishSnapShot_def res_bind_eq_Inr split: if_splits)
  then show ?thesis using apply_updates_takes[OF s1 assms(2)] by auto
qed

section \<open>The exchange\<close>

text \<open>A queue that two components hold a reference to is a component of both; a step of one of them
  writes its copy back to the other.\<close>

record exchange =
  ex_engine :: engine
  ex_server :: "OrderServer \<times> TCPServer"
  ex_publisher :: MarketDataPublisher
  ex_synthetizer :: SnapshotSynthetizer

text \<open>What the main program creates: \<open>tcp\<close> is the listening server, \<open>d\<close> and \<open>d'\<close> the
  descriptors of the two multicast sockets.\<close>

definition new_exchange :: "TCPServer \<Rightarrow> int \<Rightarrow> int \<Rightarrow> exchange" where
  "new_exchange tcp d d' =
    (let client_requests = newQueue default_request ME_MAX_CLIENTS_UPDATES;
         client_responses = newQueue default_response ME_MAX_CLIENTS_UPDATES;
         market_updates = newQueue default_update ME_MAX_MARKET_UPDATES;
         publisher = new_MarketDataPublisher market_updates d in
     \<lparr>ex_engine = new_engine client_requests client_responses market_updates,
      ex_server = (new_OrderServer client_requests client_responses, tcp),
      ex_publisher = publisher,
      ex_synthetizer = new_SnapshotSynthetizer (snapshot_updates publisher) d'\<rparr>)"

text \<open>One iteration of each thread.\<close>

definition engine_turn :: "exchange \<Rightarrow> exchange res" where
  "engine_turn x =
    res_bind (engine_poll (ex_engine x)) (\<lambda>e.
    let (s, srv) = ex_server x in
    Inr (x\<lparr>ex_engine := e,
      ex_server := (s\<lparr>fifo_sequencer := (fifo_sequencer s)\<lparr>incoming_request := incoming_request_queue e\<rparr>,
        outgoing_messages := outcoming_response_queue e\<rparr>, srv),
      ex_publisher := (ex_publisher x)\<lparr>outgoing_market_data := market_updates_queue e\<rparr>\<rparr>))"

definition server_turn ::
  "(timed_request list \<Rightarrow> timed_request list) \<Rightarrow> epoll_event list option \<Rightarrow> int list \<Rightarrow> (int \<Rightarrow> u8 list \<times> Nanos) \<Rightarrow>
     (int \<Rightarrow> u8 list \<times> Nanos) \<Rightarrow> exchange \<Rightarrow> ((int \<times> u8 list) list \<times> exchange) res" where
  "server_turn srt ev fds rx rx' x =
    res_bind (server_round srt ev fds rx rx' (ex_server x)) (\<lambda>(out, s, srv).
    Inr (out, x\<lparr>ex_server := (s, srv),
      ex_engine := (ex_engine x)\<lparr>incoming_request_queue := incoming_request (fifo_sequencer s),
        outcoming_response_queue := outgoing_messages s\<rparr>\<rparr>))"

definition publisher_turn :: "u8 list \<Rightarrow> exchange \<Rightarrow> (u8 list \<times> exchange) res" where
  "publisher_turn rx x =
    res_bind (publisher_round rx (ex_publisher x)) (\<lambda>(out, p).
    Inr (out, x\<lparr>ex_publisher := p,
      ex_engine := (ex_engine x)\<lparr>market_updates_queue := outgoing_market_data p\<rparr>,
      ex_synthetizer := (ex_synthetizer x)\<lparr>market_updates := snapshot_updates p\<rparr>\<rparr>))"

definition synthetizer_turn :: "Nanos \<Rightarrow> Nanos \<Rightarrow> exchange \<Rightarrow> (u8 list list \<times> exchange) res" where
  "synthetizer_turn now now' x =
    res_bind (synthetizer_round now now' (ex_synthetizer x)) (\<lambda>(out, s).
    Inr (out, x\<lparr>ex_synthetizer := s, ex_publisher := (ex_publisher x)\<lparr>snapshot_updates := market_updates s\<rparr>\<rparr>))"

text \<open>No queue is filled to the brim.\<close>

definition unfilled :: "exchange \<Rightarrow> bool" where
  "unfilled x \<longleftrightarrow> num_elements (incoming_request_queue (ex_engine x)) < store_size (incoming_request_queue (ex_engine x)) \<and>
     num_elements (outcoming_response_queue (ex_engine x)) < store_size (outcoming_response_queue (ex_engine x)) \<and>
     num_elements (market_updates_queue (ex_engine x)) < store_size (market_updates_queue (ex_engine x)) \<and>
     num_elements (market_updates (ex_synthetizer x)) < store_size (market_updates (ex_synthetizer x))"

text \<open>What has passed: the requests sequenced, the responses the server took to send, the updates
  published, and the updates the synthetizer took.\<close>

record history =
  sequenced :: "MEClientRequest list"
  answered :: "MEClientResponse list"
  published :: "MEMarketUpdate list"
  digested :: "MDPMarketUpdate list"

definition no_history :: history where
  "no_history = \<lparr>sequenced = [], answered = [], published = [], digested = []\<rparr>"

text \<open>The runs of the four threads, in any order, while no queue is filled, with what has passed.\<close>

inductive exchange_run ::
  "(timed_request list \<Rightarrow> timed_request list) \<Rightarrow> exchange \<Rightarrow> exchange \<Rightarrow> history \<Rightarrow> bool" for srt x0 where
  run_start: "exchange_run srt x0 x0 no_history"
| run_engine: "exchange_run srt x0 x h \<Longrightarrow> engine_turn x = Inr x' \<Longrightarrow> unfilled x' \<Longrightarrow> exchange_run srt x0 x' h"
| run_server: "exchange_run srt x0 x h \<Longrightarrow> server_turn srt ev fds rx rx' x = Inr (out, x') \<Longrightarrow> unfilled x' \<Longrightarrow>
    exchange_run srt x0 x' (h\<lparr>
      sequenced := sequenced h @ added (incoming_request_queue (ex_engine x)) (incoming_request_queue (ex_engine x')),
      answered := answered h @ removed (outcoming_response_queue (ex_engine x)) (outcoming_response_queue (ex_engine x'))\<rparr>)"
| run_publisher: "exchange_run srt x0 x h \<Longrightarrow> publisher_turn rx x = Inr (out, x') \<Longrightarrow> unfilled x' \<Longrightarrow>
    exchange_run srt x0 x' (h\<lparr>
      published := published h @ removed (market_updates_queue (ex_engine x)) (market_updates_queue (ex_engine x'))\<rparr>)"
| run_synthetizer: "exchange_run srt x0 x h \<Longrightarrow> synthetizer_turn now now' x = Inr (out, x') \<Longrightarrow> unfilled x' \<Longrightarrow>
    exchange_run srt x0 x' (h\<lparr>
      digested := digested h @ removed (market_updates (ex_synthetizer x)) (market_updates (ex_synthetizer x'))\<rparr>)"

section \<open>The specification\<close>

text \<open>A matching engine without queues or threads: requests are served one after the other, and
  all responses and updates are kept.\<close>

record exchange_log =
  lg_books :: "nat \<Rightarrow> MEOrderBook"
  lg_responses :: "MEClientResponse list"
  lg_updates :: "MEMarketUpdate list"

definition log_request :: "MEClientRequest \<Rightarrow> exchange_log \<Rightarrow> exchange_log res" where
  "log_request q l =
    (let t = unat (rq_ticker_id q) in
     res_bind (ensure (t < ME_MAX_TICKERS) WildAccess) (\<lambda>_.
     res_bind (dispatch q (lg_books l t)) (\<lambda>b.
     Inr \<lparr>lg_books = (lg_books l)(t := forget_messages b), lg_responses = lg_responses l @ sent_responses b,
       lg_updates = lg_updates l @ sent_updates b\<rparr>)))"

definition new_log :: exchange_log where
  "new_log = \<lparr>lg_books = (\<lambda>t. new_MEOrderBook (word_of_nat t)), lg_responses = [], lg_updates = []\<rparr>"

section \<open>The exchange implements it\<close>

definition wired :: "exchange \<Rightarrow> bool" where
  "wired x \<longleftrightarrow> incoming_request (fifo_sequencer (fst (ex_server x))) = incoming_request_queue (ex_engine x) \<and>
     outgoing_messages (fst (ex_server x)) = outcoming_response_queue (ex_engine x) \<and>
     outgoing_market_data (ex_publisher x) = market_updates_queue (ex_engine x) \<and>
     snapshot_updates (ex_publisher x) = market_updates (ex_synthetizer x)"

definition queues_ok :: "exchange \<Rightarrow> bool" where
  "queues_ok x \<longleftrightarrow> roomy (incoming_request_queue (ex_engine x)) \<and> roomy (outcoming_response_queue (ex_engine x)) \<and>
     roomy (market_updates_queue (ex_engine x)) \<and> roomy (market_updates (ex_synthetizer x))"

definition serves :: "MEClientRequest list \<Rightarrow> exchange \<Rightarrow> history \<Rightarrow> bool" where
  "serves qs x h \<longleftrightarrow> res_fold log_request qs new_log = Inr \<lparr>lg_books = ticker_order_book (ex_engine x),
     lg_responses = answered h @ contents (outcoming_response_queue (ex_engine x)),
     lg_updates = published h @ contents (market_updates_queue (ex_engine x))\<rparr>"

definition numbers_agree :: "exchange \<Rightarrow> history \<Rightarrow> bool" where
  "numbers_agree x h \<longleftrightarrow> counted (sequenced h) (fst (ex_server x)) \<and>
     next_seq_num (ex_publisher x) = 1 + of_nat (length (published h)) \<and>
     numbered_updates 1 (published h) = digested h @ contents (market_updates (ex_synthetizer x)) \<and>
     last_seq_num (ex_synthetizer x) = of_nat (length (digested h))"

definition exchange_inv :: "exchange \<Rightarrow> history \<Rightarrow> bool" where
  "exchange_inv x h \<longleftrightarrow> wired x \<and> queues_ok x \<and> numbers_agree x h \<and>
     (\<exists>qs. sequenced h = qs @ contents (incoming_request_queue (ex_engine x)) \<and> serves qs x h)"

lemma exchange_invE:
  assumes "exchange_inv x h"
  obtains served where "wired x" and "queues_ok x" and "numbers_agree x h"
    and "sequenced h = served @ contents (incoming_request_queue (ex_engine x))" and "serves served x h"
  using assms by (auto simp: exchange_inv_def)

lemma new_exchange_inv: "exchange_inv (new_exchange tcp d d') no_history"
proof -
  have "0 < ME_MAX_CLIENTS_UPDATES" "0 < ME_MAX_MARKET_UPDATES" by (simp_all add: size_defs)
  then show ?thesis
    by (simp add: exchange_inv_def wired_def queues_ok_def roomy_def serves_def numbers_agree_def counted_def
        new_exchange_def new_engine_def new_OrderServer_def new_MarketDataPublisher_def new_SnapshotSynthetizer_def
        no_history_def new_log_def newQueue_ok Let_def) (simp add: newQueue_def)
qed

lemma engine_poll_logged:
  assumes "engine_poll e = Inr e'" and "roomy (incoming_request_queue e)"
  shows "\<exists>qs rs us. takes (incoming_request_queue e) qs (incoming_request_queue e') \<and>
     outcoming_response_queue e' = fold push rs (outcoming_response_queue e) \<and>
     market_updates_queue e' = fold push us (market_updates_queue e) \<and>
     (\<forall>l. lg_books l = ticker_order_book e \<longrightarrow> res_fold log_request qs l = Inr \<lparr>lg_books = ticker_order_book e',
        lg_responses = lg_responses l @ rs, lg_updates = lg_updates l @ us\<rparr>)"
proof (cases "getNextRead (incoming_request_queue e)")
  case None
  then have "e' = e" using assms(1) by (simp add: engine_poll_def)
  then show ?thesis using takes_refl[OF assms(2)]
    by (intro exI[of _ "[]"] exI[of _ "[]"] exI[of _ "[]"]) (auto intro: exchange_log.equality)
next
  case (Some q)
  then obtain e1 rq where step: "processClientRequest q e = Inr e1" "updateNextRead (incoming_request_queue e1) = Inr rq"
    "e' = e1\<lparr>incoming_request_queue := rq\<rparr>"
    using assms(1) process_keeps_queue by (fastforce simp: engine_poll_def res_bind_eq_Inr)
  from step(1) obtain b where b: "unat (rq_ticker_id q) < ME_MAX_TICKERS"
    "dispatch q (ticker_order_book e (unat (rq_ticker_id q))) = Inr b" "e1 = deliver (unat (rq_ticker_id q)) b e"
    by (rule processed)
  have "takes (incoming_request_queue e) [q] rq" using takes_next[OF assms(2) Some] step(2) b(3) by simp
  moreover have "res_fold log_request [q] l = Inr \<lparr>lg_books = ticker_order_book e',
        lg_responses = lg_responses l @ sent_responses b, lg_updates = lg_updates l @ sent_updates b\<rparr>"
    if "lg_books l = ticker_order_book e" for l
    using b step(3) that by (simp add: log_request_def Let_def)
  ultimately show ?thesis using b(3) step(3)
    by (intro exI[of _ "[q]"] exI[of _ "sent_responses b"] exI[of _ "sent_updates b"]) simp
qed

lemma engine_turn_inv:
  assumes "exchange_inv x h" and "engine_turn x = Inr x'" and "unfilled x'"
  shows "exchange_inv x' h"
proof -
  obtain s srv where sv: "ex_server x = (s, srv)" by fastforce
  obtain e' where e': "engine_poll (ex_engine x) = Inr e'"
    and x': "x' = x\<lparr>ex_engine := e',
      ex_server := (s\<lparr>fifo_sequencer := (fifo_sequencer s)\<lparr>incoming_request := incoming_request_queue e'\<rparr>,
        outgoing_messages := outcoming_response_queue e'\<rparr>, srv),
      ex_publisher := (ex_publisher x)\<lparr>outgoing_market_data := market_updates_queue e'\<rparr>\<rparr>"
    using assms(2) sv by (auto simp: engine_turn_def res_bind_eq_Inr)
  from assms(1) obtain served where inv: "wired x" "queues_ok x" "numbers_agree x h"
    and seq: "sequenced h = served @ contents (incoming_request_queue (ex_engine x))" and srvd: "serves served x h"
    by (rule exchange_invE)
  have room: "roomy (incoming_request_queue (ex_engine x))" "roomy (outcoming_response_queue (ex_engine x))"
    "roomy (market_updates_queue (ex_engine x))" using inv(2) by (simp_all add: queues_ok_def)
  from engine_poll_logged[OF e' room(1)] obtain qs rs us where
    t: "takes (incoming_request_queue (ex_engine x)) qs (incoming_request_queue e')" and
    rs: "outcoming_response_queue e' = fold push rs (outcoming_response_queue (ex_engine x))" and
    us: "market_updates_queue e' = fold push us (market_updates_queue (ex_engine x))" and
    logged: "\<And>l. lg_books l = ticker_order_book (ex_engine x) \<Longrightarrow> res_fold log_request qs l =
      Inr \<lparr>lg_books = ticker_order_book e', lg_responses = lg_responses l @ rs, lg_updates = lg_updates l @ us\<rparr>"
    by blast
  have c: "roomy (outcoming_response_queue e')" "contents (outcoming_response_queue e') = contents (outcoming_response_queue (ex_engine x)) @ rs"
    "roomy (market_updates_queue e')" "contents (market_updates_queue e') = contents (market_updates_queue (ex_engine x)) @ us"
    using roomy_push[OF room(2)] roomy_push[OF room(3)] assms(3) unfolding rs us by (simp_all add: unfilled_def x' rs us)
  have "wired x'" using inv(1) by (simp add: wired_def x')
  moreover have "queues_ok x'" using inv(2) c takes_roomy[OF room(1) t] by (simp add: queues_ok_def x')
  moreover have "numbers_agree x' h" using inv(3) sv by (simp add: numbers_agree_def counted_def x')
  moreover have "sequenced h = (served @ qs) @ contents (incoming_request_queue (ex_engine x'))"
    using seq t by (simp add: takes_def x')
  moreover have "serves (served @ qs) x' h"
    using srvd logged c by (simp add: serves_def res_fold_append x')
  ultimately show ?thesis unfolding exchange_inv_def by blast
qed

lemma server_turn_inv:
  assumes "time_sort srt" and "exchange_inv x h" and "server_turn srt ev fds rx rx' x = Inr (out, x')" and "unfilled x'"
  shows "exchange_inv x' (h\<lparr>
      sequenced := sequenced h @ added (incoming_request_queue (ex_engine x)) (incoming_request_queue (ex_engine x')),
      answered := answered h @ removed (outcoming_response_queue (ex_engine x)) (outcoming_response_queue (ex_engine x'))\<rparr>)"
    (is "exchange_inv x' ?h")
proof -
  obtain s srv where sv: "ex_server x = (s, srv)" by fastforce
  obtain s' srv' where run: "server_round srt ev fds rx rx' (s, srv) = Inr (out, s', srv')"
    and x': "x' = x\<lparr>ex_server := (s', srv'), ex_engine := (ex_engine x)\<lparr>incoming_request_queue := incoming_request (fifo_sequencer s'),
        outcoming_response_queue := outgoing_messages s'\<rparr>\<rparr>"
    using assms(3) sv by (auto simp: server_turn_def res_bind_eq_Inr)
  from assms(2) obtain served where inv: "wired x" "queues_ok x" "numbers_agree x h"
    and seq: "sequenced h = served @ contents (incoming_request_queue (ex_engine x))" and srvd: "serves served x h"
    by (rule exchange_invE)
  have same: "incoming_request (fifo_sequencer s) = incoming_request_queue (ex_engine x)"
    "outgoing_messages s = outcoming_response_queue (ex_engine x)" using inv(1) sv by (simp_all add: wired_def)
  have room: "roomy (incoming_request_queue (ex_engine x))" "roomy (outcoming_response_queue (ex_engine x))"
    using inv(2) by (simp_all add: queues_ok_def)
  have "counted (sequenced h) s" using inv(3) sv by (simp add: numbers_agree_def)
  from server_round_recorded[OF assms(1) run this] room(2) same obtain new sent where
    new: "counted (sequenced h @ new) s'" "incoming_request (fifo_sequencer s') = fold push new (incoming_request_queue (ex_engine x))" and
    sent: "takes (outcoming_response_queue (ex_engine x)) sent (outgoing_messages s')" by auto
  have c: "roomy (incoming_request (fifo_sequencer s'))"
    "contents (incoming_request (fifo_sequencer s')) = contents (incoming_request_queue (ex_engine x)) @ new"
    using roomy_push[OF room(1)] assms(4) unfolding new(2) by (simp_all add: unfilled_def x' new(2))
  have h: "sequenced ?h = sequenced h @ new" "answered ?h = answered h @ sent" "published ?h = published h" "digested ?h = digested h"
    using added_push[OF c(2)] removed_takes[OF sent] by (simp_all add: x')
  have "wired x'" using inv(1) by (simp add: wired_def x')
  moreover have "queues_ok x'" using inv(2) c takes_roomy[OF room(2) sent] by (simp add: queues_ok_def x')
  moreover have "numbers_agree x' ?h" using inv(3) new(1) unfolding numbers_agree_def h by (simp add: x')
  moreover have "sequenced ?h = served @ contents (incoming_request_queue (ex_engine x'))"
    unfolding h using seq c by (simp add: x')
  moreover have "serves served x' ?h" using srvd sent unfolding serves_def h by (simp add: x' takes_def)
  ultimately show ?thesis unfolding exchange_inv_def by blast
qed

lemma publisher_turn_inv:
  assumes "exchange_inv x h" and "publisher_turn rx x = Inr (out, x')" and "unfilled x'"
  shows "exchange_inv x' (h\<lparr>published := published h @ removed (market_updates_queue (ex_engine x)) (market_updates_queue (ex_engine x'))\<rparr>)"
    (is "exchange_inv x' ?h")
proof -
  obtain p' where run: "publisher_round rx (ex_publisher x) = Inr (out, p')"
    and x': "x' = x\<lparr>ex_publisher := p', ex_engine := (ex_engine x)\<lparr>market_updates_queue := outgoing_market_data p'\<rparr>,
      ex_synthetizer := (ex_synthetizer x)\<lparr>market_updates := snapshot_updates p'\<rparr>\<rparr>"
    using assms(2) by (auto simp: publisher_turn_def res_bind_eq_Inr)
  from assms(1) obtain served where inv: "wired x" "queues_ok x" "numbers_agree x h"
    and seq: "sequenced h = served @ contents (incoming_request_queue (ex_engine x))" and srvd: "serves served x h"
    by (rule exchange_invE)
  have same: "outgoing_market_data (ex_publisher x) = market_updates_queue (ex_engine x)"
    "snapshot_updates (ex_publisher x) = market_updates (ex_synthetizer x)" using inv(1) by (simp_all add: wired_def)
  have room: "roomy (market_updates_queue (ex_engine x))" "roomy (market_updates (ex_synthetizer x))"
    using inv(2) by (simp_all add: queues_ok_def)
  from publisher_round_takes[OF run] room(1) same obtain us where
    t: "takes (market_updates_queue (ex_engine x)) us (outgoing_market_data p')" and
    snap: "snapshot_updates p' = fold push (numbered_updates (next_seq_num (ex_publisher x)) us) (market_updates (ex_synthetizer x))" and
    n: "next_seq_num p' = next_seq_num (ex_publisher x) + of_nat (length us)" by auto
  have c: "roomy (snapshot_updates p')" "contents (snapshot_updates p') =
      contents (market_updates (ex_synthetizer x)) @ numbered_updates (next_seq_num (ex_publisher x)) us"
    using roomy_push[OF room(2)] assms(3) unfolding snap by (simp_all add: unfilled_def x' snap)
  have h: "sequenced ?h = sequenced h" "answered ?h = answered h" "published ?h = published h @ us" "digested ?h = digested h"
    using removed_takes[OF t] by (simp_all add: x')
  have "wired x'" using inv(1) by (simp add: wired_def x')
  moreover have "queues_ok x'" using inv(2) c takes_roomy[OF room(1) t] by (simp add: queues_ok_def x')
  moreover have "numbers_agree x' ?h" using inv(3) n c unfolding numbers_agree_def h
    by (simp add: x' nup.num_append)
  moreover have "sequenced ?h = served @ contents (incoming_request_queue (ex_engine x'))"
    unfolding h using seq by (simp add: x')
  moreover have "serves served x' ?h" using srvd t unfolding serves_def h by (simp add: x' takes_def)
  ultimately show ?thesis unfolding exchange_inv_def by blast
qed

lemma synthetizer_turn_inv:
  assumes "exchange_inv x h" and "synthetizer_turn now now' x = Inr (out, x')"
  shows "exchange_inv x' (h\<lparr>digested := digested h @ removed (market_updates (ex_synthetizer x)) (market_updates (ex_synthetizer x'))\<rparr>)"
    (is "exchange_inv x' ?h")
proof -
  obtain s' where run: "synthetizer_round now now' (ex_synthetizer x) = Inr (out, s')"
    and x': "x' = x\<lparr>ex_synthetizer := s', ex_publisher := (ex_publisher x)\<lparr>snapshot_updates := market_updates s'\<rparr>\<rparr>"
    using assms(2) by (auto simp: synthetizer_turn_def res_bind_eq_Inr)
  from assms(1) obtain served where inv: "wired x" "queues_ok x" "numbers_agree x h"
    and seq: "sequenced h = served @ contents (incoming_request_queue (ex_engine x))" and srvd: "serves served x h"
    by (rule exchange_invE)
  have room: "roomy (market_updates (ex_synthetizer x))" using inv(2) by (simp add: queues_ok_def)
  from synthetizer_round_takes[OF run room] obtain ms where
    t: "takes (market_updates (ex_synthetizer x)) ms (market_updates s')" and
    n: "last_seq_num s' = last_seq_num (ex_synthetizer x) + of_nat (length ms)" by blast
  have h: "sequenced ?h = sequenced h" "answered ?h = answered h" "published ?h = published h" "digested ?h = digested h @ ms"
    using removed_takes[OF t] by (simp_all add: x')
  have "wired x'" using inv(1) by (simp add: wired_def x')
  moreover have "queues_ok x'" using inv(2) takes_roomy[OF room t] by (simp add: queues_ok_def x')
  moreover have "numbers_agree x' ?h" using inv(3) n t unfolding numbers_agree_def h by (simp add: x' takes_def)
  moreover have "sequenced ?h = served @ contents (incoming_request_queue (ex_engine x'))"
    unfolding h using seq by (simp add: x')
  moreover have "serves served x' ?h" using srvd unfolding serves_def h by (simp add: x')
  ultimately show ?thesis unfolding exchange_inv_def by blast
qed

lemma exchange_run_inv:
  assumes "exchange_run srt x0 x h" and "time_sort srt" and "exchange_inv x0 no_history"
  shows "exchange_inv x h"
  using assms(1)
proof (induction rule: exchange_run.induct)
  case run_start
  show ?case by (rule assms(3))
next
  case (run_engine x h x')
  then show ?case using engine_turn_inv by blast
next
  case (run_server x h ev fds rx rx' out x')
  then show ?case using server_turn_inv[OF assms(2)] by blast
next
  case (run_publisher x h rx out x')
  then show ?case using publisher_turn_inv by blast
next
  case (run_synthetizer x h now now' out x')
  then show ?case using synthetizer_turn_inv by blast
qed

text \<open>C5: whatever the interleaving of the exchange's four threads, as long as no queue is filled, the
  exchange is a matching engine that serves the sequenced requests one after the other: some first part of
  them has been served, the rest waits; the books are those of serving that part; and every
  response and every update of it has been taken to be sent, or waits, in order and once.\<close>

theorem exchange_serializes:
  assumes "exchange_run srt (new_exchange tcp d d') x h" and "time_sort srt"
  shows "\<exists>served. sequenced h = served @ contents (incoming_request_queue (ex_engine x)) \<and>
     res_fold log_request served new_log = Inr \<lparr>lg_books = ticker_order_book (ex_engine x),
       lg_responses = answered h @ contents (outcoming_response_queue (ex_engine x)),
       lg_updates = published h @ contents (market_updates_queue (ex_engine x))\<rparr>"
  using exchange_run_inv[OF assms new_exchange_inv] by (auto simp: exchange_inv_def serves_def)

text \<open>C18: in the same runs the numbers agree: the number the server expects of a client counts that
  client's requests, sequenced or recorded; the publisher's next number counts the updates published; and the
  synthetizer has taken a first part of these, numbered from 1, so that the update it meets
  next always carries the number it checks for.\<close>

theorem exchange_numbers_agree:
  assumes "exchange_run srt (new_exchange tcp d d') x h" and "time_sort srt"
  shows "cid_next_exp_seq_num (fst (ex_server x)) c = 1 + of_nat (requests_of c
       (sequenced h @ map snd (pending_client_requests (fifo_sequencer (fst (ex_server x)))))) \<and>
     next_seq_num (ex_publisher x) = 1 + of_nat (length (published h)) \<and>
     numbered_updates 1 (published h) = digested h @ contents (market_updates (ex_synthetizer x)) \<and>
     (\<forall>m ms. contents (market_updates (ex_synthetizer x)) = m # ms \<longrightarrow> mdp_seq_num m = last_seq_num (ex_synthetizer x) + 1)"
proof -
  have n: "numbers_agree x h" using exchange_run_inv[OF assms new_exchange_inv] by (simp add: exchange_inv_def)
  have at: "numbered_updates i us = as @ m # ms \<Longrightarrow> mdp_seq_num m = i + of_nat (length as)" for i us as m ms
  proof (induction as arbitrary: i us)
    case Nil
    then show ?case by (cases us) auto
  next
    case (Cons a as)
    then obtain u vs where "us = u # vs" "numbered_updates (i + 1) vs = as @ m # ms" by (cases us) auto
    then show ?case using Cons.IH[of "i + 1" vs] by (simp add: algebra_simps)
  qed
  show ?thesis using n at[of 1 "published h" "digested h"] by (auto simp: numbers_agree_def counted_def add.commute)
qed

section \<open>A run\<close>

text \<open>Client 1 is connected on the socket 7; its first order is read, served and published.\<close>

definition sample_tcp :: TCPServer where
  "sample_tcp = \<lparr>listener_fd = 3, all_sockets = [7 \<mapsto> new_TCPSocket 7], recv_sockets = [7], send_sockets = []\<rparr>"

definition sample_exchange :: exchange where
  "sample_exchange = new_exchange sample_tcp 4 5"

definition first_bytes :: "int \<Rightarrow> u8 list \<times> Nanos" where
  "first_bytes d = (encode_request \<lparr>ogrq_seq_num = 1, ogrq_request = sample_request\<rparr>, 9)"

definition nothing_read :: "int \<Rightarrow> u8 list \<times> Nanos" where
  "nothing_read d = ([], 0)"

end
