(* ===== verification/RequestPath.thy ===== *)
theory RequestPath
  imports MarketPath Exchange OrderGateway
begin

text \<open>
  The path of one request and its answer: the client's order gateway
  (\<^verbatim>\<open>client/order_gateway.cpp\<close>), the order server and its sequencer, the matching engine, the order
  server again and back to the gateway, as turns of the exchange's threads.
\<close>

section \<open>Turns of the server\<close>

text \<open>A server with one socket to read from.\<close>

definition one_socket :: "int \<Rightarrow> TCPServer \<Rightarrow> bool" where
  "one_socket d srv \<longleftrightarrow> recv_sockets srv = [d] \<and> send_sockets srv = [] \<and>
     (\<exists>k. all_sockets srv d = Some k \<and> fd k = d \<and> recv_buffer k = [])"

lemma poll_nothing [simp]: "poll (Some []) [] srv = Inr srv"
  by (simp add: poll_def)

lemma serve_one:
  assumes "recv_sockets srv = [d]" and "send_sockets srv = []" and "all_sockets srv d = Some k"
    and "tcp_sendAndRecv cb (rx d) k c = Inr (got, bs, k', c')"
  shows "server_sendAndRecv cb fin rx rx' srv c = res_bind (if got then fin c' else Inr c')
     (\<lambda>c. Inr ([(d, bs)], srv\<lparr>all_sockets := (all_sockets srv)(d := Some k')\<rparr>, c))"
  using assms by (cases "if got then fin c' else Inr c'") (auto simp: server_sendAndRecv_def serve_socket_def)

lemma send_nothing:
  assumes "num_elements (outgoing_messages s) = 0"
  shows "send_responses (queue_size (outgoing_messages s) + 1) (s, srv) = Inr (s, srv)"
  using assms by (simp add: getNextRead_def queue_size_def)

text \<open>A turn in which one request arrives, and nothing is to be sent.\<close>

definition recorded_request :: "int \<Rightarrow> MEClientRequest \<Rightarrow> OrderServer \<Rightarrow> OrderServer" where
  "recorded_request d q s = (let c = unat (rq_client_id q) in
     s\<lparr>cid_to_socket := (cid_to_socket s)(c := Some d),
       cid_next_exp_seq_num := (cid_next_exp_seq_num s)(c := cid_next_exp_seq_num s c + 1),
       fifo_sequencer := \<lparr>pending_client_requests = [], incoming_request = push q (incoming_request (fifo_sequencer s))\<rparr>\<rparr>)"

lemma sort_single:
  assumes "time_sort srt"
  shows "srt [x] = [x]"
proof -
  have "mset (srt [x]) = mset [x]" by (rule time_sort.sort_perm[OF assms])
  then show ?thesis by (metis mset_single_iff_right mset.simps(1,2))
qed

lemma turn_with_request:
  assumes "time_sort srt" and "one_socket d srv" and "all_sockets srv d = Some k"
    and "rx d = (encode_request \<lparr>ogrq_seq_num = cid_next_exp_seq_num s (unat (rq_client_id q)), ogrq_request = q\<rparr>, t)"
    and "request_wf q" and "unat (rq_client_id q) < ME_MAX_NUM_CLIENTS" and "bound_to d (unat (rq_client_id q)) s"
    and "pending_client_requests (fifo_sequencer s) = []" and "num_elements (outgoing_messages s) = 0"
  shows "server_round srt (Some []) [] rx rx' (s, srv) = Inr ([(d, send_buffer k)], recorded_request d q s,
     srv\<lparr>all_sockets := (all_sockets srv)(d := Some (k\<lparr>send_buffer := []\<rparr>))\<rparr>)"
proof -
  let ?c = "unat (rq_client_id q)"
  let ?bs = "encode_request \<lparr>ogrq_seq_num = cid_next_exp_seq_num s ?c, ogrq_request = q\<rparr>"
  have k: "fd k = d" "recv_buffer k = []" "recv_sockets srv = [d]" "send_sockets srv = []"
    using assms(2,3) by (auto simp: one_socket_def)
  have small: "length ?bs \<le> TCPBufferSize" "?bs \<noteq> []"
    by (simp_all add: request_size_def TCPBufferSize_def flip: length_0_conv)
  define s1 where "s1 = s\<lparr>cid_to_socket := (cid_to_socket s)(?c := Some d),
       cid_next_exp_seq_num := (cid_next_exp_seq_num s)(?c := cid_next_exp_seq_num s ?c + 1),
       fifo_sequencer := (fifo_sequencer s)\<lparr>pending_client_requests := [(t, q)]\<rparr>\<rparr>"
  have "accept_request d t \<lparr>ogrq_seq_num = cid_next_exp_seq_num s ?c, ogrq_request = q\<rparr> s = Inr s1"
    using assms(6-8) by (auto simp: accept_request_def addClientRequest_def bound_to_def MAX_PENDING_REQUESTS_def s1_def Let_def)
  then have recv: "recvCallbacks t (k\<lparr>recv_buffer := ?bs\<rparr>) s = Inr (k\<lparr>recv_buffer := []\<rparr>, s1)"
    using recv_numbered[of "[q]" "[]" "k\<lparr>recv_buffer := ?bs\<rparr>" "cid_next_exp_seq_num s ?c" t s] assms(5) k
    by (simp add: request_size_def)
  let ?s = "recorded_request d q s" and ?srv = "srv\<lparr>all_sockets := (all_sockets srv)(d := Some (k\<lparr>send_buffer := []\<rparr>))\<rparr>"
  have io: "tcp_sendAndRecv recvCallbacks (rx d) k s = Inr (True, send_buffer k, k\<lparr>send_buffer := []\<rparr>, s1)"
    using tcp_received[OF small(2), of k recvCallbacks t s] small(1) recv k assms(4)
    by (simp add: TCPSocket.equality)
  have fin: "recvFinishedCallbacks srt s1 = Inr ?s"
    using sort_single[OF assms(1)] by (simp add: recvFinishedCallbacks_def sequenceAndPublish_def s1_def recorded_request_def Let_def)
  have read: "server_sendAndRecv recvCallbacks (recvFinishedCallbacks srt) rx rx' srv s = Inr ([(d, send_buffer k)], ?srv, ?s)"
    by (simp add: serve_one[where rx=rx, OF k(3,4) assms(3) io] fin)
  have "num_elements (outgoing_messages ?s) = 0"
    using assms(9) by (simp add: recorded_request_def Let_def)
  from send_nothing[OF this, of ?srv] show ?thesis
    unfolding server_round_def by (simp only: prod.case poll_nothing res_bind_simps read)
qed

text \<open>A turn in which nothing arrives.\<close>

lemma turn_without_request:
  assumes "recv_sockets srv = [d]" and "send_sockets srv = []" and "all_sockets srv d = Some k" and "rx d = ([], t)"
  shows "server_round srt (Some []) [] rx rx' (s, srv) =
     res_bind (send_responses (queue_size (outgoing_messages s) + 1)
        (s, srv\<lparr>all_sockets := (all_sockets srv)(d := Some (k\<lparr>send_buffer := []\<rparr>))\<rparr>))
       (\<lambda>st. Inr ([(d, send_buffer k)], st))"
proof -
  have io: "tcp_sendAndRecv recvCallbacks (rx d) k s = Inr (False, send_buffer k, k\<lparr>send_buffer := []\<rparr>, s)"
    by (simp add: assms(4) tcp_idle)
  have "server_sendAndRecv recvCallbacks (recvFinishedCallbacks srt) rx rx' srv s =
     Inr ([(d, send_buffer k)], srv\<lparr>all_sockets := (all_sockets srv)(d := Some (k\<lparr>send_buffer := []\<rparr>))\<rparr>, s)"
    by (simp add: serve_one[where rx=rx, OF assms(1,2,3) io])
  then show ?thesis unfolding server_round_def by (simp only: prod.case poll_nothing res_bind_simps)
qed

lemma send_responses_sockets:
  "send_responses n (s, srv) = Inr (s', srv') \<Longrightarrow> recv_sockets srv' = recv_sockets srv \<and> send_sockets srv' = send_sockets srv"
proof (induction n arbitrary: s srv)
  case (Suc n)
  show ?case
  proof (cases "getNextRead (outgoing_messages s)")
    case None
    then show ?thesis using Suc.prems by simp
  next
    case (Some r)
    then have "queue_size (outgoing_messages s) \<noteq> 0" by (auto simp: getNextRead_def queue_size_def split: if_splits)
    then obtain s1 srv1 q where step: "send_response r (s, srv) = Inr (s1, srv1)"
      "send_responses n (s1\<lparr>outgoing_messages := q\<rparr>, srv1) = Inr (s', srv')"
      using Suc.prems Some by (auto simp: res_bind_eq_Inr)
    have "recv_sockets srv1 = recv_sockets srv \<and> send_sockets srv1 = send_sockets srv"
      using step(1) by (auto simp: send_response_def Let_def res_bind_eq_Inr split: option.splits)
    then show ?thesis using Suc.IH[OF step(2)] by simp
  qed
qed simp

section \<open>The turn of the engine\<close>

lemma engine_serves_queued:
  assumes "engine_ok e" and "servable q e" and "t = unat (rq_ticker_id q)"
    and "roomy (incoming_request_queue e)" and "contents (incoming_request_queue e) = [q]"
  shows "\<exists>rq b. engine_poll e = Inr ((deliver t b e)\<lparr>incoming_request_queue := rq\<rparr>) \<and> roomy rq \<and> contents rq = [] \<and>
     dispatch q (ticker_order_book e t) = Inr b \<and>
     length (sent_responses b) \<le> 2 * length (orders_of (ticker_order_book e t)) + 1 \<and>
     length (sent_updates b) \<le> 2 * length (orders_of (ticker_order_book e t)) + 1 \<and>
     list_all response_wf (sent_responses b) \<and>
     list_all (addressed (rq_client_id q) (ticker_order_book e t)) (sent_responses b) \<and>
     (rq_type q = CRQ_NEW \<or> rq_type q = CRQ_CANCEL \<longrightarrow> (\<exists>r rs. sent_responses b = r # rs \<and> answer_to q r))"
proof -
  let ?b = "ticker_order_book e t"
  have t: "t < ME_MAX_TICKERS" and ty: "rq_type q \<noteq> CRQ_INVALID"
    and new: "rq_type q = CRQ_NEW \<longrightarrow> next_order_id ?b + 1 \<noteq> 0 \<and>
        admissible (rq_client_id q) (rq_order_id q) (rq_side q) (rq_price q) (abs_book ?b)"
    using assms(2,3) by (auto simp: servable_def Let_def)
  have slot: "me_ok ?b" "sent_updates ?b = []" "sent_responses ?b = []"
    using assms(1) t by (simp_all add: engine_ok_def slot_ok_def)
  from dispatch_messages[OF slot ty new] obtain b where b: "dispatch q ?b = Inr b"
    "list_all (typed_response (ticker ?b)) (sent_responses b)"
    "length (sent_responses b) \<le> 2 * length (orders_of ?b) + 1" "length (sent_updates b) \<le> 2 * length (orders_of ?b) + 1"
    "list_all (addressed (rq_client_id q) ?b) (sent_responses b)"
    "rq_type q = CRQ_NEW \<or> rq_type q = CRQ_CANCEL \<longrightarrow> (\<exists>r rs. sent_responses b = r # rs \<and> answer_to q r)" by blast
  have read: "getNextRead (incoming_request_queue e) = Some q"
    using getNextRead_contents[of "incoming_request_queue e"] assms(4,5) by (simp add: roomy_def)
  obtain rq where rq: "updateNextRead (incoming_request_queue e) = Inr rq" "queue_ok rq" "contents rq = []"
      "store_size rq = store_size (incoming_request_queue e)"
    using lfq.drop_items[of "incoming_request_queue e"] assms(4,5) by (auto simp: roomy_def)
  have "num_elements rq = 0" using rq(3) length_contents[of rq] by simp
  then have "roomy rq" using rq(2) by (simp add: roomy_def queue_ok_def)
  moreover have "engine_poll e = Inr ((deliver t b e)\<lparr>incoming_request_queue := rq\<rparr>)"
    using read rq(1) t b(1) assms(3) by (simp add: engine_poll_def processClientRequest_def)
  moreover have "list_all response_wf (sent_responses b)" using b(2) typed_response_wf by (auto simp: list_all_iff)
  ultimately show ?thesis using rq(3) b by blast
qed

section \<open>Rounds of the gateway\<close>

lemma send_requests_client:
  "send_requests n (k, g) = Inr (k', g') \<Longrightarrow> gw_client_id g' = gw_client_id g"
proof (induction n arbitrary: k g)
  case (Suc n)
  show ?case
  proof (cases "getNextRead (outgoing_requests g)")
    case None
    then show ?thesis using Suc.prems by simp
  next
    case (Some q)
    then obtain k1 rq where "send_requests n (k1, g\<lparr>outgoing_requests := rq,
        next_outgoing_seq_num := next_outgoing_seq_num g + 1\<rparr>) = Inr (k', g')"
      using Suc.prems by (auto simp: res_bind_eq_Inr)
    from Suc.IH[OF this] show ?thesis by simp
  qed
qed simp

lemma round_queues_request:
  assumes "roomy (outgoing_requests g)" and "contents (outgoing_requests g) = [q]" and "send_buffer k = []"
  obtains g1 where "gateway_round ([], t) (k, g) = Inr ([], k\<lparr>send_buffer :=
        encode_request \<lparr>ogrq_seq_num = next_outgoing_seq_num g, ogrq_request = q\<rparr>\<rparr>, g1)"
    and "num_elements (outgoing_requests g1) = 0" and "gw_client_id g1 = gw_client_id g"
    and "incoming_responses g1 = incoming_responses g" and "next_incoming_seq_num g1 = next_incoming_seq_num g"
proof -
  have one: "num_elements (outgoing_requests g) = 1" using assms(2) length_contents[of "outgoing_requests g"] by simp
  have room: "length (send_buffer k) + length (contents (outgoing_requests g)) * request_size \<le> TCPBufferSize"
    using assms(2,3) by (simp add: request_size_def TCPBufferSize_def)
  obtain g1 where g1: "send_requests (queue_size (outgoing_requests g) + 1) (k, g) = Inr (k\<lparr>send_buffer :=
        encode_request \<lparr>ogrq_seq_num = next_outgoing_seq_num g, ogrq_request = q\<rparr>\<rparr>, g1)"
    "contents (outgoing_requests g1) = []" "incoming_responses g1 = incoming_responses g"
    "next_incoming_seq_num g1 = next_incoming_seq_num g"
    using send_requests_all[OF _ _ room, of "queue_size (outgoing_requests g) + 1"] assms one
    by (auto simp: roomy_def queue_size_def simp del: send_requests.simps)
  have same: "k\<lparr>send_buffer := []\<rparr> = k" using assms(3) by simp
  have "gateway_round ([], t) (k, g) = Inr ([], k\<lparr>send_buffer :=
        encode_request \<lparr>ogrq_seq_num = next_outgoing_seq_num g, ogrq_request = q\<rparr>\<rparr>, g1)"
    unfolding gateway_round_def by (simp only: prod.case tcp_idle res_bind_simps assms(3) same g1(1))
  moreover have "num_elements (outgoing_requests g1) = 0" using g1(2) length_contents[of "outgoing_requests g1"] by simp
  ultimately show thesis using that g1 send_requests_client[OF g1(1)] by blast
qed

lemma round_without_request:
  assumes "num_elements (outgoing_requests g) = 0" and "tcp_sendAndRecv gateway_recvCallback rx k g = Inr (got, bs, k', g')"
    and "outgoing_requests g' = outgoing_requests g"
  shows "gateway_round rx (k, g) = Inr (bs, k', g')"
proof -
  have "send_requests (queue_size (outgoing_requests g') + 1) (k', g') = Inr (k', g')"
    using assms(1,3) by (simp add: getNextRead_def)
  then show ?thesis unfolding gateway_round_def by (simp only: prod.case assms(2) res_bind_simps)
qed

lemma gateway_recvCallback_requests:
  assumes "gateway_recvCallback t k g = Inr (k', g')"
  shows "outgoing_requests g' = outgoing_requests g"
proof (cases "length (recv_buffer k) < response_size")
  case True
  then show ?thesis using assms by (simp add: gateway_recvCallback_def)
next
  case False
  then obtain rest where r: "read_frames response_size (\<lambda>f. gateway_accept (decode_response f)) (recv_buffer k) g = Inr (rest, g')"
    using assms by (auto simp: gateway_recvCallback_def res_bind_eq_Inr)
  show ?thesis
    by (rule read_frames_keeps[where P="\<lambda>h. outgoing_requests h = outgoing_requests g", OF _ r])
      (auto simp: gateway_accept_def split: if_splits)
qed

lemma round_reads_responses:
  assumes "num_elements (outgoing_requests g) = 0" and "list_all response_wf rs" and "rs \<noteq> []"
    and "list_all (\<lambda>r. rs_client_id r = gw_client_id g) rs" and "queue_ok (incoming_responses g)"
    and "length (contents (incoming_responses g)) + length rs < store_size (incoming_responses g)"
    and "recv_buffer k = []" and "length rs * response_size \<le> TCPBufferSize"
  shows "\<exists>k' g'. gateway_round (responses.stream (numbered_responses (next_incoming_seq_num g) rs), t) (k, g) =
       Inr (send_buffer k, k', g') \<and> contents (incoming_responses g') = contents (incoming_responses g) @ rs"
proof -
  let ?bs = "responses.stream (numbered_responses (next_incoming_seq_num g) rs)"
  have len: "length ?bs = length rs * response_size" by (simp add: responses.stream_length)
  have pos: "0 < length ?bs" using assms(3) by (simp only: len) (simp add: response_size_def)
  then have ne: "?bs \<noteq> []" by (rule length_greater_0_conv[THEN iffD1])
  obtain g' where g': "res_fold gateway_accept (numbered_responses (next_incoming_seq_num g) rs) g = Inr g'"
    "contents (incoming_responses g') = contents (incoming_responses g) @ rs"
    using gateway_accept_all[OF assms(4-6)] by blast
  have recv: "gateway_recvCallback t (k\<lparr>recv_buffer := ?bs\<rparr>) g = Inr (k\<lparr>recv_buffer := []\<rparr>, g')"
    using gateway_recv_numbered[OF assms(2), of "k\<lparr>recv_buffer := ?bs\<rparr>" "next_incoming_seq_num g" t g] g'(1) by simp
  have "tcp_sendAndRecv gateway_recvCallback (?bs, t) k g = Inr (True, send_buffer k, k\<lparr>recv_buffer := [], send_buffer := []\<rparr>, g')"
    using tcp_received[OF ne, of k gateway_recvCallback t g] assms(7,8) recv len by simp
  from round_without_request[OF assms(1) this gateway_recvCallback_requests[OF recv]] g'(2) show ?thesis by blast
qed

section \<open>A request and its answer\<close>

text \<open>An exchange with nothing to do, which reads the socket \<open>d\<close> of the client \<open>c\<close>.\<close>

definition idle_exchange :: "int \<Rightarrow> nat \<Rightarrow> exchange \<Rightarrow> bool" where
  "idle_exchange d c x \<longleftrightarrow> wired x \<and> queues_ok x \<and> contents (incoming_request_queue (ex_engine x)) = [] \<and>
     contents (outcoming_response_queue (ex_engine x)) = [] \<and>
     (case ex_server x of (s, srv) \<Rightarrow> one_socket d srv \<and> bound_to d c s \<and> pending_client_requests (fifo_sequencer s) = [] \<and>
        (\<forall>c'. cid_to_socket s c' = Some d \<longrightarrow> c' = c) \<and>
        (\<forall>d' k. all_sockets srv d' = Some k \<longrightarrow> send_buffer k = []))"

text \<open>The owners of some orders are connected.\<close>

definition owners_connected :: "MEOrder list \<Rightarrow> exchange \<Rightarrow> bool" where
  "owners_connected os x \<longleftrightarrow> (case ex_server x of (s, srv) \<Rightarrow>
     list_all (\<lambda>r. unat (ord_client r) < ME_MAX_NUM_CLIENTS \<and>
       (\<exists>d. cid_to_socket s (unat (ord_client r)) = Some d \<and> all_sockets srv d \<noteq> None)) os)"

lemma responses_leave:
  assumes "roomy (outgoing_messages s)" and "contents (outgoing_messages s) = rs"
    and "connected (s, srv) rs" and "all_sockets srv d = Some k" and "cid_to_socket s c = Some d"
    and "\<forall>c'. cid_to_socket s c' = Some d \<longrightarrow> c' = c"
  obtains s' srv' k' where "send_responses (queue_size (outgoing_messages s) + 1) (s, srv) = Inr (s', srv')"
    and "num_elements (outgoing_messages s') = 0" and "all_sockets srv' d = Some k'"
    and "send_buffer k' = send_buffer k @ responses.stream (numbered_responses (cid_next_outgoing_seq_num s c)
       (filter (\<lambda>r. owner r = c) rs))"
    and "recv_sockets srv' = recv_sockets srv" and "send_sockets srv' = send_sockets srv"
    and "fifo_sequencer s' = fifo_sequencer s"
proof -
  have q: "queue_ok (outgoing_messages s)" "length (contents (outgoing_messages s)) < store_size (outgoing_messages s)"
    using assms(1) by (simp_all add: roomy_def)
  have conn: "connected (s, srv) (contents (outgoing_messages s))" using assms(2,3) by simp
  from responses_numbered[OF q conn assms(4-6)] obtain s' srv' k' where
    run: "send_responses (queue_size (outgoing_messages s) + 1) (s, srv) = Inr (s', srv')" and
    c: "contents (outgoing_messages s') = []" "all_sockets srv' d = Some k'"
      "send_buffer k' = send_buffer k @ responses.stream (numbered_responses (cid_next_outgoing_seq_num s c)
       (filter (\<lambda>r. owner r = c) rs))" unfolding assms(2) by blast
  have "num_elements (outgoing_messages s') = 0" using c(1) length_contents[of "outgoing_messages s'"] by simp
  then show thesis using that run c send_responses_sockets[OF run] send_responses_takes[OF run assms(1)] by blast
qed

text \<open>The turn in which a request arrives.\<close>

definition with_request :: "int \<Rightarrow> MEClientRequest \<Rightarrow> exchange \<Rightarrow> exchange" where
  "with_request d q x = x\<lparr>ex_server := (recorded_request d q (fst (ex_server x)), snd (ex_server x)),
     ex_engine := (ex_engine x)\<lparr>incoming_request_queue := push q (incoming_request_queue (ex_engine x))\<rparr>\<rparr>"

lemma request_turn:
  assumes srt: "time_sort srt" and idle: "idle_exchange d c x"
    and q: "request_wf q" "c = unat (rq_client_id q)" "c < ME_MAX_NUM_CLIENTS"
    and rx: "rx d = (encode_request \<lparr>ogrq_seq_num = cid_next_exp_seq_num (fst (ex_server x)) c, ogrq_request = q\<rparr>, t)"
  shows "server_turn srt (Some []) [] rx rx' x = Inr ([(d, [])], with_request d q x)"
proof -
  obtain s srv where sv: "ex_server x = (s, srv)" by fastforce
  have i: "wired x" "contents (outcoming_response_queue (ex_engine x)) = []" "one_socket d srv" "bound_to d c s"
    "pending_client_requests (fifo_sequencer s) = []" "\<And>d' k. all_sockets srv d' = Some k \<Longrightarrow> send_buffer k = []"
    using idle sv by (auto simp: idle_exchange_def)
  obtain k where k: "all_sockets srv d = Some k" using i(3) by (auto simp: one_socket_def)
  have sk: "send_buffer k = []" using i(6) k by blast
  then have same: "srv\<lparr>all_sockets := (all_sockets srv)(d := Some (k\<lparr>send_buffer := []\<rparr>))\<rparr> = srv"
    using k by (intro TCPServer.equality) auto
  have none: "num_elements (outgoing_messages s) = 0"
    using i(1,2) sv length_contents[of "outgoing_messages s"] by (simp add: wired_def)
  have bytes: "rx d = (encode_request \<lparr>ogrq_seq_num = cid_next_exp_seq_num s (unat (rq_client_id q)), ogrq_request = q\<rparr>, t)"
    using rx sv q(2) by simp
  have "server_round srt (Some []) [] rx rx' (s, srv) = Inr ([(d, [])], recorded_request d q s, srv)"
    using turn_with_request[where rx=rx, OF srt i(3) k bytes q(1)] q(2,3) i(4,5) none sk same by simp
  then show ?thesis using i(1) sv
    by (simp add: server_turn_def with_request_def recorded_request_def wired_def Let_def)
qed

text \<open>The two turns in which responses leave.\<close>

lemma response_turns:
  assumes sv: "ex_server x = (s, srv)" and out: "roomy (outgoing_messages s)" "contents (outgoing_messages s) = rs"
    and socks: "recv_sockets srv = [d]" "send_sockets srv = []" and k: "all_sockets srv d = Some k" "send_buffer k = []"
    and conn: "connected (s, srv) rs" and mine: "cid_to_socket s c = Some d" "\<forall>c'. cid_to_socket s c' = Some d \<longrightarrow> c' = c"
  shows "\<exists>x1 x2. server_turn srt (Some []) [] nothing_read rx' x = Inr ([(d, [])], x1) \<and>
     server_turn srt (Some []) [] nothing_read rx' x1 = Inr ([(d, responses.stream (numbered_responses
       (cid_next_outgoing_seq_num s c) (filter (\<lambda>r. owner r = c) rs)))], x2) \<and>
     ticker_order_book (ex_engine x2) = ticker_order_book (ex_engine x)"
proof -
  obtain s3 srv3 k3 where r3: "send_responses (queue_size (outgoing_messages s) + 1) (s, srv) = Inr (s3, srv3)"
    "num_elements (outgoing_messages s3) = 0" "all_sockets srv3 d = Some k3"
    "send_buffer k3 = responses.stream (numbered_responses (cid_next_outgoing_seq_num s c) (filter (\<lambda>r. owner r = c) rs))"
    "recv_sockets srv3 = [d]" "send_sockets srv3 = []"
    using responses_leave[OF out conn k(1) mine] unfolding k(2) socks append_Nil by blast
  have same: "srv\<lparr>all_sockets := (all_sockets srv)(d := Some (k\<lparr>send_buffer := []\<rparr>))\<rparr> = srv"
    using k by (intro TCPServer.equality) auto
  have quiet: "nothing_read d = ([], 0)" by (simp add: nothing_read_def)
  have "server_round srt (Some []) [] nothing_read rx' (s, srv) = Inr ([(d, [])], s3, srv3)"
    unfolding turn_without_request[where rx=nothing_read, OF socks k(1) quiet] same r3(1) k(2) by simp
  then obtain x1 where t1: "server_turn srt (Some []) [] nothing_read rx' x = Inr ([(d, [])], x1)"
    and x1: "ex_server x1 = (s3, srv3)" "ticker_order_book (ex_engine x1) = ticker_order_book (ex_engine x)"
    by (auto simp: server_turn_def sv)
  have "server_round srt (Some []) [] nothing_read rx' (s3, srv3) =
      Inr ([(d, send_buffer k3)], s3, srv3\<lparr>all_sockets := (all_sockets srv3)(d := Some (k3\<lparr>send_buffer := []\<rparr>))\<rparr>)"
    unfolding turn_without_request[where rx=nothing_read, OF r3(5,6,3) quiet] send_nothing[OF r3(2)] by simp
  then obtain x2 where "server_turn srt (Some []) [] nothing_read rx' x1 = Inr ([(d, send_buffer k3)], x2)"
    "ticker_order_book (ex_engine x2) = ticker_order_book (ex_engine x1)"
    by (auto simp: server_turn_def x1)
  then show ?thesis using t1 x1(2) r3(4) by (intro exI[of _ x1] exI[of _ x2]) simp
qed

text \<open>The turn of the engine in between.\<close>

definition served :: "nat \<Rightarrow> MEOrderBook \<Rightarrow> exchange \<Rightarrow> exchange \<Rightarrow> bool" where
  "served t b x x' \<longleftrightarrow> ticker_order_book (ex_engine x') = (ticker_order_book (ex_engine x))(t := forget_messages b) \<and>
     (\<exists>f rs. ex_server x' = ((fst (ex_server x))\<lparr>fifo_sequencer := f, outgoing_messages := rs\<rparr>, snd (ex_server x)) \<and>
        rs = fold push (sent_responses b) (outcoming_response_queue (ex_engine x)))"

lemma engine_turn_request:
  assumes idle: "idle_exchange d c x" and e: "engine_ok (ex_engine x)" "servable q (ex_engine x)"
    and t: "t = unat (rq_ticker_id q)" and os: "os = orders_of (ticker_order_book (ex_engine x) t)"
    and size: "1 < store_size (incoming_request_queue (ex_engine x))"
  shows "\<exists>x' b. engine_turn (with_request d q x) = Inr x' \<and> served t b (with_request d q x) x' \<and>
     dispatch q (ticker_order_book (ex_engine x) t) = Inr b \<and> length (sent_responses b) \<le> 2 * length os + 1 \<and>
     list_all response_wf (sent_responses b) \<and>
     list_all (\<lambda>r. rs_client_id r = rq_client_id q \<or> rs_client_id r \<in> ord_client ` set os) (sent_responses b) \<and>
     (rq_type q = CRQ_NEW \<or> rq_type q = CRQ_CANCEL \<longrightarrow> (\<exists>r rs. sent_responses b = r # rs \<and> answer_to q r))"
proof -
  let ?e = "ex_engine x" and ?e1 = "ex_engine (with_request d q x)"
  have room: "roomy (incoming_request_queue ?e)" "contents (incoming_request_queue ?e) = []"
    "num_elements (incoming_request_queue ?e) = 0"
    using idle length_contents[of "incoming_request_queue ?e"] by (auto simp: idle_exchange_def queues_ok_def)
  have rq: "roomy (incoming_request_queue ?e1)" "contents (incoming_request_queue ?e1) = [q]"
    using roomy_push[OF room(1), of "[q]"] room(2,3) size by (simp_all add: with_request_def)
  have same: "ticker_order_book ?e1 = ticker_order_book ?e" by (simp add: with_request_def)
  have e1: "engine_ok ?e1" "servable q ?e1" using e same by (simp_all add: engine_ok_def slot_ok_def servable_def)
  from engine_serves_queued[OF e1 t rq] obtain rq' b where
    poll: "engine_poll ?e1 = Inr ((deliver t b ?e1)\<lparr>incoming_request_queue := rq'\<rparr>)" and
    b: "dispatch q (ticker_order_book ?e t) = Inr b" "length (sent_responses b) \<le> 2 * length os + 1"
      "list_all response_wf (sent_responses b)" "list_all (addressed (rq_client_id q) (ticker_order_book ?e t)) (sent_responses b)"
      "rq_type q = CRQ_NEW \<or> rq_type q = CRQ_CANCEL \<longrightarrow> (\<exists>r rs. sent_responses b = r # rs \<and> answer_to q r)"
    unfolding same os[symmetric] by blast
  obtain x' where "engine_turn (with_request d q x) = Inr x'" "served t b (with_request d q x) x'"
    using poll by (auto simp: engine_turn_def served_def split_def Let_def)
  moreover have "addressed (rq_client_id q) (ticker_order_book ?e t) = (\<lambda>r. rs_client_id r = rq_client_id q \<or> rs_client_id r \<in> ord_client ` set os)"
    by (simp only: addressed_def os fun_eq_iff) simp
  ultimately show ?thesis using b by (simp only:) blast
qed

lemma exchange_answers:
  assumes srt: "time_sort srt" and idle: "idle_exchange d c x"
    and e: "engine_ok (ex_engine x)" "servable q (ex_engine x)" and t: "t = unat (rq_ticker_id q)"
    and q: "request_wf q" "c = unat (rq_client_id q)" "c < ME_MAX_NUM_CLIENTS"
    and os: "os = orders_of (ticker_order_book (ex_engine x) t)" and conn: "owners_connected os x"
    and sizes: "1 < store_size (incoming_request_queue (ex_engine x))"
      "2 * length os + 1 < store_size (outcoming_response_queue (ex_engine x))"
      "(2 * length os + 1) * response_size \<le> TCPBufferSize"
    and rx: "rx d = (encode_request \<lparr>ogrq_seq_num = cid_next_exp_seq_num (fst (ex_server x)) c, ogrq_request = q\<rparr>, rt)"
  shows "\<exists>b x1 x2 x3. dispatch q (ticker_order_book (ex_engine x) t) = Inr b \<and>
     server_turn srt (Some []) [] rx rx' x = Inr ([(d, [])], with_request d q x) \<and>
     engine_turn (with_request d q x) = Inr x1 \<and>
     server_turn srt (Some []) [] nothing_read rx' x1 = Inr ([(d, [])], x2) \<and>
     server_turn srt (Some []) [] nothing_read rx' x2 = Inr ([(d, responses.stream (numbered_responses
       (cid_next_outgoing_seq_num (fst (ex_server x)) c) (filter (\<lambda>r. owner r = c) (sent_responses b))))], x3) \<and>
     ticker_order_book (ex_engine x3) = (ticker_order_book (ex_engine x))(t := forget_messages b) \<and>
     list_all response_wf (sent_responses b) \<and> length (sent_responses b) \<le> 2 * length os + 1 \<and>
     (rq_type q = CRQ_NEW \<or> rq_type q = CRQ_CANCEL \<longrightarrow> (\<exists>r rs. sent_responses b = r # rs \<and> answer_to q r))"
proof -
  obtain s srv where sv: "ex_server x = (s, srv)" by fastforce
  have i: "contents (outcoming_response_queue (ex_engine x)) = []" "roomy (outcoming_response_queue (ex_engine x))"
    "recv_sockets srv = [d]" "send_sockets srv = []" "\<forall>c'. cid_to_socket s c' = Some d \<longrightarrow> c' = c"
    "\<And>d' k. all_sockets srv d' = Some k \<Longrightarrow> send_buffer k = []"
    using idle sv by (auto simp: idle_exchange_def one_socket_def queues_ok_def)
  obtain k where k: "all_sockets srv d = Some k" "send_buffer k = []"
    using idle sv by (auto simp: idle_exchange_def one_socket_def)
  from engine_turn_request[OF idle e t os sizes(1)] obtain x1 b where
    x1: "engine_turn (with_request d q x) = Inr x1" "served t b (with_request d q x) x1" and
    b: "dispatch q (ticker_order_book (ex_engine x) t) = Inr b" "length (sent_responses b) \<le> 2 * length os + 1"
      "list_all response_wf (sent_responses b)"
      "list_all (\<lambda>r. rs_client_id r = rq_client_id q \<or> rs_client_id r \<in> ord_client ` set os) (sent_responses b)"
      "rq_type q = CRQ_NEW \<or> rq_type q = CRQ_CANCEL \<longrightarrow> (\<exists>r rs. sent_responses b = r # rs \<and> answer_to q r)" by blast
  obtain s1 where s1: "ex_server x1 = (s1, srv)" "cid_to_socket s1 = (cid_to_socket s)(c := Some d)"
    "cid_next_outgoing_seq_num s1 = cid_next_outgoing_seq_num s"
    "outgoing_messages s1 = fold push (sent_responses b) (outcoming_response_queue (ex_engine x))"
    using x1(2) sv q(2) by (auto simp: served_def with_request_def recorded_request_def Let_def)
  have none: "num_elements (outcoming_response_queue (ex_engine x)) = 0" using i(1) length_contents[of "outcoming_response_queue (ex_engine x)"] by simp
  have out: "roomy (outgoing_messages s1)" "contents (outgoing_messages s1) = sent_responses b"
    using roomy_push[OF i(2), of "sent_responses b"] i(1) none sizes(2) b(2) by (simp_all add: s1(4))
  have "owner r < ME_MAX_NUM_CLIENTS \<and> (\<exists>d'. cid_to_socket s1 (owner r) = Some d' \<and> all_sockets srv d' \<noteq> None)"
    if r: "r \<in> set (sent_responses b)" for r
  proof (cases "owner r = c")
    case True
    then show ?thesis using k(1) q(3) by (auto simp: s1(2))
  next
    case False
    then obtain w where "w \<in> set os" "rs_client_id r = ord_client w" using r b(4) q(2) by (auto simp: list_all_iff)
    then show ?thesis using conn sv False by (auto simp: owners_connected_def list_all_iff s1(2))
  qed
  moreover have "length (send_buffer j) + length (sent_responses b) * response_size \<le> TCPBufferSize"
    if "all_sockets srv d' = Some j" for d' j
    using i(6)[OF that] b(2) sizes(3) by (metis add_0 le_trans list.size(3) mult_le_mono1)
  ultimately have conn1: "connected (s1, srv) (sent_responses b)"
    by (auto simp: connected_def list_all_iff)
  have mine: "cid_to_socket s1 c = Some d" "\<forall>c'. cid_to_socket s1 c' = Some d \<longrightarrow> c' = c" using i(5) by (auto simp: s1(2))
  have m: "cid_next_outgoing_seq_num s1 c = cid_next_outgoing_seq_num (fst (ex_server x)) c" by (simp add: s1(3) sv)
  from response_turns[OF s1(1) out i(3,4) k conn1 mine, of srt rx'] obtain x2 x3 where
    turns: "server_turn srt (Some []) [] nothing_read rx' x1 = Inr ([(d, [])], x2)"
    "server_turn srt (Some []) [] nothing_read rx' x2 = Inr ([(d, responses.stream (numbered_responses
       (cid_next_outgoing_seq_num (fst (ex_server x)) c) (filter (\<lambda>r. owner r = c) (sent_responses b))))], x3)"
    "ticker_order_book (ex_engine x3) = ticker_order_book (ex_engine x1)"
    unfolding m by blast
  have books: "ticker_order_book (ex_engine x3) = (ticker_order_book (ex_engine x))(t := forget_messages b)"
    using x1(2) turns(3) by (simp add: served_def with_request_def)
  show ?thesis
    by (intro exI[of _ b] exI[of _ x1] exI[of _ x2] exI[of _ x3] conjI)
      (rule b(1) request_turn[where rx=rx, OF srt idle q rx] x1(1) turns(1) turns(2) books b(3) b(2) b(5))+
qed

text \<open>C7: the round trip of one request on a quiet exchange: there is a single connection, that of the client, nothing is under
  way, and the trade engine has queued one request the exchange can serve. In one fixed schedule, two
  rounds of the client's gateway put it on the wire, a turn of the order server sequences it, a turn of the matching
  engine serves it, two more turns of the order server send the responses, and a third round of the gateway
  hands the trade engine exactly the client's responses that the order book gave, the first of
  which answers the request. Other schedules and other clients are the subject of theories Delivery and Answers,
  without a bound on the number of turns.\<close>

theorem request_is_answered:
  assumes "time_sort srt" and "idle_exchange d (unat c) x" and "engine_ok (ex_engine x)" and "servable q (ex_engine x)"
    and "t = unat (rq_ticker_id q)" and "request_wf q" and "rq_client_id q = c" and "unat c < ME_MAX_NUM_CLIENTS"
    and "os = orders_of (ticker_order_book (ex_engine x) t)" and "owners_connected os x"
    and "1 < store_size (incoming_request_queue (ex_engine x))"
    and "2 * length os + 1 < store_size (outcoming_response_queue (ex_engine x))"
    and "(2 * length os + 1) * response_size \<le> TCPBufferSize"
    and "gw_client_id g = c" and "roomy (outgoing_requests g)" and "contents (outgoing_requests g) = [q]"
    and "queue_ok (incoming_responses g)"
    and "length (contents (incoming_responses g)) + (2 * length os + 1) < store_size (incoming_responses g)"
    and "send_buffer k = []" and "recv_buffer k = []"
    and "next_outgoing_seq_num g = cid_next_exp_seq_num (fst (ex_server x)) (unat c)"
    and "next_incoming_seq_num g = cid_next_outgoing_seq_num (fst (ex_server x)) (unat c)"
    and "rq_type q = CRQ_NEW \<or> rq_type q = CRQ_CANCEL"
  shows "\<exists>k1 g1 bs k2 g2 x1 x2 x3 x4 rbs k3 g3 b r rs. dispatch q (ticker_order_book (ex_engine x) t) = Inr b \<and>
     gateway_round ([], t0) (k, g) = Inr ([], k1, g1) \<and> gateway_round ([], t1) (k1, g1) = Inr (bs, k2, g2) \<and>
     server_turn srt (Some []) [] (\<lambda>_. (bs, rt)) nothing_read x = Inr ([(d, [])], x1) \<and> engine_turn x1 = Inr x2 \<and>
     server_turn srt (Some []) [] nothing_read nothing_read x2 = Inr ([(d, [])], x3) \<and>
     server_turn srt (Some []) [] nothing_read nothing_read x3 = Inr ([(d, rbs)], x4) \<and>
     gateway_round (rbs, t2) (k2, g2) = Inr ([], k3, g3) \<and>
     contents (incoming_responses g3) = contents (incoming_responses g) @ r # rs \<and> answer_to q r \<and>
     r # rs = filter (\<lambda>r. rs_client_id r = c) (sent_responses b)"
proof -
  define bs where "bs = encode_request \<lparr>ogrq_seq_num = next_outgoing_seq_num g, ogrq_request = q\<rparr>"
  obtain g1 where g1: "gateway_round ([], t0) (k, g) = Inr ([], k\<lparr>send_buffer := bs\<rparr>, g1)"
    "num_elements (outgoing_requests g1) = 0" "gw_client_id g1 = c"
    "incoming_responses g1 = incoming_responses g" "next_incoming_seq_num g1 = next_incoming_seq_num g"
    using round_queues_request[OF assms(15,16,19), of t0] assms(14) unfolding bs_def by metis
  have "tcp_sendAndRecv gateway_recvCallback ([], t1) (k\<lparr>send_buffer := bs\<rparr>) g1 = Inr (False, bs, k\<lparr>send_buffer := []\<rparr>, g1)"
    by (simp add: tcp_idle)
  from round_without_request[OF g1(2) this refl]
  have g2: "gateway_round ([], t1) (k\<lparr>send_buffer := bs\<rparr>, g1) = Inr (bs, k\<lparr>send_buffer := []\<rparr>, g1)" .
  have rx: "(\<lambda>_. (bs, rt)) d = (encode_request \<lparr>ogrq_seq_num = cid_next_exp_seq_num (fst (ex_server x)) (unat c), ogrq_request = q\<rparr>, rt)"
    by (simp add: bs_def assms(21))
  have c: "unat c = unat (rq_client_id q)" using assms(7) by simp
  from exchange_answers[where rx="\<lambda>_. (bs, rt)" and rx'=nothing_read, OF assms(1-6) c assms(8-13) rx] obtain b x2 x3 x4 where
    b: "dispatch q (ticker_order_book (ex_engine x) t) = Inr b" "list_all response_wf (sent_responses b)"
      "length (sent_responses b) \<le> 2 * length os + 1" "\<exists>r rs. sent_responses b = r # rs \<and> answer_to q r" and
    turns: "server_turn srt (Some []) [] (\<lambda>_. (bs, rt)) nothing_read x = Inr ([(d, [])], with_request d q x)"
      "engine_turn (with_request d q x) = Inr x2" "server_turn srt (Some []) [] nothing_read nothing_read x2 = Inr ([(d, [])], x3)"
      "server_turn srt (Some []) [] nothing_read nothing_read x3 = Inr ([(d, responses.stream (numbered_responses
       (cid_next_outgoing_seq_num (fst (ex_server x)) (unat c)) (filter (\<lambda>r. owner r = unat c) (sent_responses b))))], x4)"
    using assms(23) by blast
  define own where "own = filter (\<lambda>r. rs_client_id r = c) (sent_responses b)"
  have own: "filter (\<lambda>r. owner r = unat c) (sent_responses b) = own"
    unfolding own_def word_unat_eq_iff by (rule refl)
  have "length own \<le> length (sent_responses b)" by (simp add: own_def)
  then have small: "length own \<le> 2 * length os + 1" using b(3) by linarith
  obtain r rs where first: "own = r # rs" "answer_to q r"
    using b(4) assms(7) by (auto simp: own_def answer_to_def)
  have wf: "list_all response_wf own" "list_all (\<lambda>r. rs_client_id r = gw_client_id g1) own"
    using b(2) by (auto simp: own_def list_all_iff g1(3))
  have room: "length (contents (incoming_responses g1)) + length own < store_size (incoming_responses g1)"
    using assms(18) small g1(4) by simp
  have ok: "queue_ok (incoming_responses g1)" "own \<noteq> []" "recv_buffer (k\<lparr>send_buffer := []\<rparr>) = []"
    using assms(17,20) g1(4) first(1) by simp_all
  have fits: "length own * response_size \<le> TCPBufferSize" using assms(13) small by (metis le_trans mult_le_mono1)
  from round_reads_responses[OF g1(2) wf(1) ok(2) wf(2) ok(1) room ok(3) fits, of t2] obtain k3 g3 where
    g3: "gateway_round (responses.stream (numbered_responses (next_incoming_seq_num g1) own), t2) (k\<lparr>send_buffer := []\<rparr>, g1) = Inr ([], k3, g3)"
      "contents (incoming_responses g3) = contents (incoming_responses g1) @ own" by auto
  have n: "next_incoming_seq_num g1 = cid_next_outgoing_seq_num (fst (ex_server x)) (unat c)" using g1(5) assms(22) by simp
  have q3: "contents (incoming_responses g3) = contents (incoming_responses g) @ r # rs" using g3(2) g1(4) first(1) by simp
  show ?thesis
    by (intro exI conjI) (rule b(1) g1(1) g2 turns(1) turns(2) turns(3) turns(4)[unfolded own] g3(1)[unfolded n] q3 first(2)
      first(1)[symmetric, unfolded own_def])+
qed

section \<open>Examples\<close>

lemma sample_parts:
  "ex_engine sample_exchange = exchange_engine" "fst (ex_server sample_exchange) = new_OrderServer
     (incoming_request_queue exchange_engine) (outcoming_response_queue exchange_engine)"
  "snd (ex_server sample_exchange) = sample_tcp"
  by (simp_all add: sample_exchange_def new_exchange_def exchange_engine_def new_engine_def Let_def)

lemma engine_queues:
  "incoming_request_queue exchange_engine = newQueue default_request ME_MAX_CLIENTS_UPDATES"
  "outcoming_response_queue exchange_engine = newQueue default_response ME_MAX_CLIENTS_UPDATES"
  "market_updates_queue exchange_engine = newQueue default_update ME_MAX_MARKET_UPDATES"
  by (simp_all add: exchange_engine_def new_engine_def)

lemma sample_idle: "idle_exchange 7 c sample_exchange"
proof -
  have inv: "exchange_inv sample_exchange no_history" unfolding sample_exchange_def by (rule new_exchange_inv)
  have sv: "ex_server sample_exchange = (new_OrderServer (incoming_request_queue exchange_engine)
      (outcoming_response_queue exchange_engine), sample_tcp)" using sample_parts by (metis prod.collapse)
  show ?thesis
    using inv by (auto simp: idle_exchange_def exchange_inv_def sv sample_parts(1) engine_queues newQueue_ok size_defs
        new_OrderServer_def one_socket_def sample_tcp_def new_TCPSocket_def bound_to_def)
qed

lemma sample_empty_book: "orders_of (ticker_order_book (ex_engine sample_exchange) 3) = []"
  by (simp add: sample_parts exchange_engine_def new_engine_def resting_abs[symmetric] abs_new)

definition trading_gateway :: OrderGateway where
  "trading_gateway = new_OrderGateway 1 (push sample_request (newQueue default_request 8)) (newQueue default_response 8)"

lemma trading_gateway_requests:
  "roomy (outgoing_requests trading_gateway)" "contents (outgoing_requests trading_gateway) = [sample_request]"
  using newQueue_push[of 8 sample_request default_request]
  by (simp_all add: trading_gateway_def new_OrderGateway_def roomy_def del: push_fields(1)) (simp add: newQueue_def)

lemma sample_request_facts:
  "request_wf sample_request" "rq_client_id sample_request = 1" "rq_ticker_id sample_request = 3" "rq_type sample_request = CRQ_NEW"
  by (simp_all add: sample_request_def request_wf_def byte_rq_def byte_side_def)

theorem request_is_answered_witness:
  "\<exists>k1 g1 bs k2 g2 x1 x2 x3 x4 rbs k3 g3 b r rs. dispatch sample_request (ticker_order_book (ex_engine sample_exchange) 3) = Inr b \<and>
     gateway_round ([], 0) (new_TCPSocket 9, trading_gateway) = Inr ([], k1, g1) \<and> gateway_round ([], 1) (k1, g1) = Inr (bs, k2, g2) \<and>
     server_turn (sort_key fst) (Some []) [] (\<lambda>_. (bs, 5)) nothing_read sample_exchange = Inr ([(7, [])], x1) \<and> engine_turn x1 = Inr x2 \<and>
     server_turn (sort_key fst) (Some []) [] nothing_read nothing_read x2 = Inr ([(7, [])], x3) \<and>
     server_turn (sort_key fst) (Some []) [] nothing_read nothing_read x3 = Inr ([(7, rbs)], x4) \<and>
     gateway_round (rbs, 6) (k2, g2) = Inr ([], k3, g3) \<and>
     contents (incoming_responses g3) = contents (incoming_responses trading_gateway) @ r # rs \<and> answer_to sample_request r \<and>
     r # rs = filter (\<lambda>r. rs_client_id r = 1) (sent_responses b)"
  by (rule request_is_answered[where os="[]" and c=1, OF stable.time_sort_axioms])
    (use sample_idle sample_empty_book[symmetric] exchange_engine_ok sample_servable trading_gateway_requests in
      \<open>simp_all add: sample_parts engine_queues sample_request_facts owners_connected_def size_defs newQueue_ok response_size_def
        TCPBufferSize_def trading_gateway_def new_OrderGateway_def new_TCPSocket_def new_OrderServer_def split_def\<close>)

lemma sample_run:
  "\<exists>x h. exchange_run (sort_key fst) (new_exchange sample_tcp 4 5) x h \<and> sequenced h = [sample_request] \<and>
     contents (incoming_request_queue (ex_engine x)) = [] \<and> answered h = [] \<and> published h = [] \<and>
     num_elements (outcoming_response_queue (ex_engine x)) \<noteq> 0"
proof -
  let ?x = "with_request 7 sample_request sample_exchange" and ?q = "newQueue default_request ME_MAX_CLIENTS_UPDATES"
  have big: "1 < ME_MAX_CLIENTS_UPDATES" "1 < ME_MAX_MARKET_UPDATES" by (simp_all add: size_defs)
  have rx: "first_bytes 7 = (encode_request \<lparr>ogrq_seq_num = cid_next_exp_seq_num (fst (ex_server sample_exchange)) 1,
      ogrq_request = sample_request\<rparr>, 9)" by (simp add: first_bytes_def sample_parts new_OrderServer_def)
  have t1: "server_turn (sort_key fst) (Some []) [] first_bytes nothing_read sample_exchange = Inr ([(7, [])], ?x)"
    using request_turn[where rx=first_bytes, OF stable.time_sort_axioms sample_idle sample_request_facts(1) _ _ rx]
    by (simp add: sample_request_facts size_defs)
  have e: "incoming_request_queue (ex_engine ?x) = push sample_request ?q"
    "outcoming_response_queue (ex_engine ?x) = newQueue default_response ME_MAX_CLIENTS_UPDATES"
    "market_updates_queue (ex_engine ?x) = newQueue default_update ME_MAX_MARKET_UPDATES"
    "ticker_order_book (ex_engine ?x) = ticker_order_book exchange_engine"
    by (simp_all add: with_request_def sample_parts engine_queues)
  have syn: "market_updates (ex_synthetizer ?x) = newQueue default_mdp_update ME_MAX_MARKET_UPDATES"
    by (simp add: with_request_def sample_exchange_def new_exchange_def new_SnapshotSynthetizer_def new_MarketDataPublisher_def Let_def)
  note q = newQueue_push[OF big(1), of sample_request default_request]
  have nums: "num_elements (newQueue v n) = 0" "store_size (newQueue v n) = n" for v :: 'b and n by (simp_all add: newQueue_def)
  define h where "h = no_history\<lparr>sequenced := [sample_request]\<rparr>"
  have h1: "no_history\<lparr>sequenced := sequenced no_history @ added (incoming_request_queue (ex_engine sample_exchange)) (incoming_request_queue (ex_engine ?x)),
      answered := answered no_history @ removed (outcoming_response_queue (ex_engine sample_exchange)) (outcoming_response_queue (ex_engine ?x))\<rparr> = h"
    using q by (simp add: added_def removed_def e sample_parts(1) engine_queues no_history_def h_def nums newQueue_ok)
  have "unfilled ?x" using big unfolding unfilled_def e syn by (simp add: nums)
  then have run1: "exchange_run (sort_key fst) (new_exchange sample_tcp 4 5) ?x h"
    using run_server[OF run_start t1[unfolded sample_exchange_def]] h1 unfolding sample_exchange_def by simp
  have ok: "engine_ok (ex_engine ?x)" "servable sample_request (ex_engine ?x)"
    using exchange_engine_ok sample_servable e(4) by (simp_all add: engine_ok_def slot_ok_def servable_def)
  have "roomy (incoming_request_queue (ex_engine ?x))" "contents (incoming_request_queue (ex_engine ?x)) = [sample_request]"
    using q big unfolding e roomy_def by (simp_all add: nums)
  from engine_serves_queued[OF ok refl this] sample_empty_book obtain rq b where
    poll: "engine_poll (ex_engine ?x) = Inr ((deliver 3 b (ex_engine ?x))\<lparr>incoming_request_queue := rq\<rparr>)" "roomy rq" "contents rq = []"
      "length (sent_responses b) \<le> 1" "length (sent_updates b) \<le> 1" "sent_responses b \<noteq> []"
    by (auto simp: sample_request_facts e(4) sample_parts(1))
  obtain x2 where x2: "engine_turn ?x = Inr x2" "incoming_request_queue (ex_engine x2) = rq"
    "outcoming_response_queue (ex_engine x2) = fold push (sent_responses b) (newQueue default_response ME_MAX_CLIENTS_UPDATES)"
    "market_updates_queue (ex_engine x2) = fold push (sent_updates b) (newQueue default_update ME_MAX_MARKET_UPDATES)"
    "ex_synthetizer x2 = ex_synthetizer ?x"
    using poll(1) by (auto simp: engine_turn_def split_def Let_def e)
  have "unfilled x2" using poll big unfolding unfilled_def x2 syn by (simp add: nums roomy_def)
  then have "exchange_run (sort_key fst) (new_exchange sample_tcp 4 5) x2 h" by (rule run_engine[OF run1 x2(1)])
  then show ?thesis using poll(3,6) x2(2,3) by (intro exI[of _ x2] exI[of _ h]) (simp add: h_def no_history_def nums)
qed

theorem exchange_serializes_witness:
  "\<exists>(x :: exchange) (h :: history). sequenced h = [sample_request] \<and> contents (incoming_request_queue (ex_engine x)) = [] \<and>
     (\<exists>served. sequenced h = served @ contents (incoming_request_queue (ex_engine x)) \<and>
     res_fold log_request served new_log = Inr \<lparr>lg_books = ticker_order_book (ex_engine x),
       lg_responses = answered h @ contents (outcoming_response_queue (ex_engine x)),
       lg_updates = published h @ contents (market_updates_queue (ex_engine x))\<rparr>)"
proof -
  obtain x h where run: "exchange_run (sort_key fst) (new_exchange sample_tcp 4 5) x h" "sequenced h = [sample_request]"
    "contents (incoming_request_queue (ex_engine x)) = []" using sample_run by blast
  show ?thesis
    by (rule exI[of _ x], rule exI[of _ h]) (intro conjI run(2,3) exchange_serializes[OF run(1) stable.time_sort_axioms])
qed

theorem exchange_numbers_agree_witness:
  "\<exists>(x :: exchange) (h :: history). sequenced h = [sample_request] \<and>
     cid_next_exp_seq_num (fst (ex_server x)) 1 = 1 + of_nat (requests_of 1
       (sequenced h @ map snd (pending_client_requests (fifo_sequencer (fst (ex_server x)))))) \<and>
     next_seq_num (ex_publisher x) = 1 + of_nat (length (published h)) \<and>
     numbered_updates 1 (published h) = digested h @ contents (market_updates (ex_synthetizer x)) \<and>
     (\<forall>m ms. contents (market_updates (ex_synthetizer x)) = m # ms \<longrightarrow> mdp_seq_num m = last_seq_num (ex_synthetizer x) + 1)"
proof -
  obtain x h where run: "exchange_run (sort_key fst) (new_exchange sample_tcp 4 5) x h" "sequenced h = [sample_request]"
    using sample_run by blast
  show ?thesis
    by (rule exI[of _ x], rule exI[of _ h], rule conjI, rule run(2)) (rule exchange_numbers_agree[OF run(1) stable.time_sort_axioms])
qed

end
