(* ===== verification/Connections.thy ===== *)
theory Connections
  imports RequestPath
begin

text \<open>
  The exchange with several connections, each of which carries the stream of one client and delivers it in pieces that
  are cut anywhere (\<^verbatim>\<open>recvCallback\<close> of \<^verbatim>\<open>include/exchange/order_server.hpp\<close> under the
  reading loops of \<^verbatim>\<open>tcp_server.cpp\<close>): what it sequences for a client is what the client has sent.
\<close>

section \<open>The requests of one connection\<close>

definition own_request :: "ClientId \<Rightarrow> MEClientRequest \<Rightarrow> bool" where
  "own_request c r \<longleftrightarrow> request_wf r \<and> rq_client_id r = c"

text \<open>How many whole requests lie in a piece of a stream.\<close>

definition whole :: "u8 list \<Rightarrow> nat" where
  "whole bs = length bs div request_size"

lemma whole_mono: "whole bs \<le> whole (bs @ new)"
  by (simp add: whole_def div_le_mono)

definition carries :: "ClientId \<Rightarrow> MEClientRequest list \<Rightarrow> u8 list \<Rightarrow> bool" where
  "carries c qs bs \<longleftrightarrow> list_all (own_request c) qs \<and> (\<exists>rest. bs @ rest = requests.stream (numbered_requests 1 qs))"

lemma carries_prefix: "carries c qs (bs @ new) \<Longrightarrow> carries c qs bs"
  by (auto simp: carries_def)

lemma carries_whole: "carries c qs bs \<Longrightarrow> whole bs \<le> length qs"
  using requests.stream_cut(1)[of bs _ "numbered_requests 1 qs" "whole bs"] by (auto simp: carries_def whole_def)

text \<open>The requests that a read completes, and what is left over for the next one.\<close>

definition completed :: "MEClientRequest list \<Rightarrow> u8 list \<Rightarrow> u8 list \<Rightarrow> MEClientRequest list" where
  "completed qs bs new = drop (whole bs) (take (whole (bs @ new)) qs)"

definition left_over :: "u8 list \<Rightarrow> u8 list" where
  "left_over bs = drop (whole bs * request_size) bs"

lemma take_completed: "take (whole bs) qs @ completed qs bs new = take (whole (bs @ new)) qs"
proof -
  have "take (whole bs) qs = take (whole bs) (take (whole (bs @ new)) qs)" using whole_mono[of bs new] by (simp add: min_absorb1)
  then show ?thesis by (metis append_take_drop_id completed_def)
qed

lemma in_completed: "q \<in> set (completed qs bs new) \<Longrightarrow> q \<in> set qs"
  by (metis completed_def in_set_dropD in_set_takeD)

lemma completed_nothing [simp]: "completed qs bs [] = []"
  by (simp add: completed_def)

lemma left_over_split:
  assumes "carries c qs (bs @ new)"
  shows "left_over bs @ new = requests.stream (numbered_requests (1 + of_nat (whole bs)) (completed qs bs new)) @ left_over (bs @ new)"
    and "length (left_over (bs @ new)) < request_size"
proof -
  obtain rest where rest: "(bs @ new) @ rest = requests.stream (numbered_requests 1 qs)" using assms by (auto simp: carries_def)
  show "left_over bs @ new = requests.stream (numbered_requests (1 + of_nat (whole bs)) (completed qs bs new)) @ left_over (bs @ new)"
    using requests.stream_next[OF rest] by (simp add: left_over_def whole_def completed_def nrq.num_take nrq.num_drop)
  show "length (left_over (bs @ new)) < request_size"
    using requests.stream_cut(3)[OF rest refl] by (simp add: left_over_def whole_def)
qed

section \<open>Reading from the sockets\<close>

text \<open>From \<open>s\<close> to \<open>s'\<close> the server has recorded the requests \<open>qs\<close> of client \<open>c\<close>, received at
  time \<open>t\<close> from socket \<open>d\<close>.\<close>

definition records :: "int \<Rightarrow> nat \<Rightarrow> Nanos \<Rightarrow> MEClientRequest list \<Rightarrow> OrderServer \<Rightarrow> OrderServer \<Rightarrow> bool" where
  "records d c t qs s s' \<longleftrightarrow> pending_client_requests (fifo_sequencer s') = pending_client_requests (fifo_sequencer s) @ map (Pair t) qs \<and>
     incoming_request (fifo_sequencer s') = incoming_request (fifo_sequencer s) \<and> outgoing_messages s' = outgoing_messages s \<and>
     cid_next_exp_seq_num s' = (cid_next_exp_seq_num s)(c := cid_next_exp_seq_num s c + of_nat (length qs)) \<and>
     bound_to d c s' \<and> (\<forall>c'. c' \<noteq> c \<longrightarrow> cid_to_socket s' c' = cid_to_socket s c')"

lemma records_refl: "bound_to d c s \<Longrightarrow> records d c t [] s s"
  by (simp add: records_def)

lemma accept_records:
  assumes "res_fold (accept_request d t) (numbered_requests (cid_next_exp_seq_num s (unat c)) qs) s = Inr s'"
    and "list_all (own_request c) qs" and "bound_to d (unat c) s"
  shows "records d (unat c) t qs s s'"
  using assms
proof (induction qs arbitrary: s)
  case (Cons q qs)
  let ?c = "unat c"
  obtain s1 where s1: "accept_request d t \<lparr>ogrq_seq_num = cid_next_exp_seq_num s ?c, ogrq_request = q\<rparr> s = Inr s1"
    "res_fold (accept_request d t) (numbered_requests (cid_next_exp_seq_num s ?c + 1) qs) s1 = Inr s'"
    using Cons.prems(1) by (auto simp: res_bind_eq_Inr)
  have q: "rq_client_id q = c" using Cons.prems(2) by (simp add: own_request_def)
  have one: "cid_next_exp_seq_num s1 = (cid_next_exp_seq_num s)(?c := cid_next_exp_seq_num s ?c + 1)"
    "cid_to_socket s1 = (cid_to_socket s)(?c := Some d)" "outgoing_messages s1 = outgoing_messages s"
    "fifo_sequencer s1 = (fifo_sequencer s)\<lparr>pending_client_requests := pending_client_requests (fifo_sequencer s) @ [(t, q)]\<rparr>"
    using s1(1) Cons.prems(3) q by (auto simp: accept_request_def addClientRequest_def bound_to_def Let_def res_bind_eq_Inr split: if_splits)
  then have "bound_to d ?c s1" by (simp add: bound_to_def)
  with Cons.IH[of s1] s1(2) Cons.prems(2) one(1) have "records d ?c t qs s1 s'" by simp
  then show ?case unfolding records_def one by (auto simp: fun_eq_iff algebra_simps)
qed (simp add: records_refl)

text \<open>A socket \<open>d\<close> from which the bytes \<open>bs\<close> of the client \<open>c\<close> have been read so far.\<close>

definition at_socket :: "TCPServer \<Rightarrow> int \<Rightarrow> u8 list \<Rightarrow> bool" where
  "at_socket srv d bs \<longleftrightarrow> (\<exists>k. all_sockets srv d = Some k \<and> fd k = d \<and> recv_buffer k = left_over bs)"

definition expects :: "OrderServer \<Rightarrow> int \<Rightarrow> ClientId \<Rightarrow> u8 list \<Rightarrow> bool" where
  "expects s d c bs \<longleftrightarrow> bound_to d (unat c) s \<and> cid_next_exp_seq_num s (unat c) = 1 + of_nat (whole bs)"

lemma expects_cong:
  "cid_to_socket s' = cid_to_socket s \<Longrightarrow> cid_next_exp_seq_num s' = cid_next_exp_seq_num s \<Longrightarrow> expects s' d c bs = expects s d c bs"
  by (simp add: expects_def bound_to_def)

definition bytes_taken :: "(int \<Rightarrow> u8 list \<times> Nanos) \<Rightarrow> TCPServer \<Rightarrow> int \<Rightarrow> u8 list" where
  "bytes_taken rx srv d =
    (case all_sockets srv d of
       None \<Rightarrow> []
     | Some k \<Rightarrow> take (TCPBufferSize - length (recv_buffer k)) (fst (rx d)))"

lemma records_expects:
  assumes "records d (unat c) t (completed qs bs new) s s'" and "expects s d c bs" and "carries c qs (bs @ new)"
  shows "expects s' d c (bs @ new)"
proof -
  have "whole bs + length (completed qs bs new) = whole (bs @ new)"
    using carries_whole[OF assms(3)] whole_mono[of bs new] by (simp add: completed_def min_absorb1)
  then have "(of_nat (whole bs) :: u64) + of_nat (length (completed qs bs new)) = of_nat (whole (bs @ new))"
    by (metis of_nat_add)
  then show ?thesis using assms(1,2) by (simp add: records_def expects_def algebra_simps)
qed

lemma records_other:
  "records d c t qs s s' \<Longrightarrow> unat c' \<noteq> c \<Longrightarrow> expects s' d' c' bs = expects s d' c' bs"
  by (simp add: records_def expects_def bound_to_def)

lemma socket_read:
  assumes "serve_socket recvCallbacks rx d (got, out, srv, s) = Inr (got', out', srv', s')"
    and "at_socket srv d bs" and "expects s d c bs" and "carries c qs (bs @ bytes_taken rx srv d)"
  shows "records d (unat c) (snd (rx d)) (completed qs bs (bytes_taken rx srv d)) s s' \<and> at_socket srv' d (bs @ bytes_taken rx srv d) \<and>
    got' = (got \<or> bytes_taken rx srv d \<noteq> []) \<and> (\<forall>d'. d' \<noteq> d \<longrightarrow> all_sockets srv' d' = all_sockets srv d') \<and>
    recv_sockets srv' = recv_sockets srv \<and> send_sockets srv' = send_sockets srv"
proof -
  obtain k where k: "all_sockets srv d = Some k" "fd k = d" "recv_buffer k = left_over bs" using assms(2) by (auto simp: at_socket_def)
  define new where "new = bytes_taken rx srv d"
  have new: "take (TCPBufferSize - length (recv_buffer k)) (fst (rx d)) = new" by (simp add: new_def bytes_taken_def k(1))
  obtain k' where io: "(if new \<noteq> [] then recvCallbacks (snd (rx d)) (k\<lparr>recv_buffer := recv_buffer k @ new\<rparr>) s else Inr (k, s)) = Inr (k', s')"
    and srv': "srv' = srv\<lparr>all_sockets := (all_sockets srv)(d := Some (k'\<lparr>send_buffer := []\<rparr>))\<rparr>" "got' = (got \<or> new \<noteq> [])"
    using assms(1) by (auto simp: serve_socket_def k(1) tcp_sendAndRecv_def Let_def new res_bind_eq_Inr)
  have e: "bound_to d (unat c) s" "cid_next_exp_seq_num s (unat c) = 1 + of_nat (whole bs)" using assms(3) by (simp_all add: expects_def)
  have car: "carries c qs (bs @ new)" using assms(4) by (simp add: new_def)
  have own: "list_all (own_request c) (completed qs bs new)" using car in_completed by (auto simp: carries_def list_all_iff)
  have "records d (unat c) (snd (rx d)) (completed qs bs new) s s' \<and> recv_buffer k' = left_over (bs @ new) \<and> fd k' = d"
  proof (cases "new = []")
    case True
    then show ?thesis using io k(2,3) records_refl[OF e(1)] by simp
  next
    case False
    let ?k = "k\<lparr>recv_buffer := recv_buffer k @ new\<rparr>"
    have wf: "list_all request_wf (completed qs bs new)" using own by (auto simp: list_all_iff own_request_def)
    have "recv_buffer ?k = requests.stream (numbered_requests (cid_next_exp_seq_num s (unat c)) (completed qs bs new)) @ left_over (bs @ new)"
      using left_over_split(1)[OF car] by (simp add: k(3) e(2))
    from recv_numbered[OF wf left_over_split(2)[OF car] this] io False
    have "res_fold (accept_request d (snd (rx d))) (numbered_requests (cid_next_exp_seq_num s (unat c)) (completed qs bs new)) s = Inr s'"
      "k' = ?k\<lparr>recv_buffer := left_over (bs @ new)\<rparr>" by (auto simp: k(2) res_bind_eq_Inr)
    then show ?thesis using accept_records[OF _ own e(1)] k(2) by simp
  qed
  then show ?thesis using srv' by (simp add: at_socket_def flip: new_def)
qed

text \<open>All sockets in turn: \<open>who d\<close> is the client at the other end of \<open>d\<close>, \<open>qs d\<close> what it has sent.\<close>

definition ready :: "(int \<Rightarrow> ClientId) \<Rightarrow> (int \<Rightarrow> u8 list) \<Rightarrow> OrderServer \<Rightarrow> TCPServer \<Rightarrow> int \<Rightarrow> bool" where
  "ready who bs s srv d \<longleftrightarrow> at_socket srv d (bs d) \<and> expects s d (who d) (bs d)"

definition arrivals ::
  "(int \<Rightarrow> u8 list \<times> Nanos) \<Rightarrow> (int \<Rightarrow> MEClientRequest list) \<Rightarrow> (int \<Rightarrow> u8 list) \<Rightarrow> TCPServer \<Rightarrow> int \<Rightarrow> timed_request list" where
  "arrivals rx qs bs srv d = map (Pair (snd (rx d))) (completed (qs d) (bs d) (bytes_taken rx srv d))"

definition readings :: "(int \<Rightarrow> u8 list \<times> Nanos) \<Rightarrow> TCPServer \<Rightarrow> (int \<Rightarrow> u8 list) \<Rightarrow> int \<Rightarrow> u8 list" where
  "readings rx srv bs d = bs d @ bytes_taken rx srv d"

lemma taken_local: "all_sockets srv' d = all_sockets srv d \<Longrightarrow> bytes_taken rx srv' d = bytes_taken rx srv d"
  by (simp add: bytes_taken_def)

lemma sockets_read:
  assumes "res_fold (serve_socket recvCallbacks rx) es (got, out, srv, s) = Inr (got', out', srv', s')"
    and "distinct es" and "inj_on who (set es)"
    and "\<forall>d\<in>set es. ready who bs s srv d \<and> carries (who d) (qs d) (readings rx srv bs d)"
  shows "(\<forall>d\<in>set es. ready who (readings rx srv bs) s' srv' d) \<and>
    pending_client_requests (fifo_sequencer s') = pending_client_requests (fifo_sequencer s) @ concat (map (arrivals rx qs bs srv) es) \<and>
    incoming_request (fifo_sequencer s') = incoming_request (fifo_sequencer s) \<and> outgoing_messages s' = outgoing_messages s \<and>
    got' = (got \<or> (\<exists>d\<in>set es. bytes_taken rx srv d \<noteq> [])) \<and> (\<forall>d. d \<notin> set es \<longrightarrow> all_sockets srv' d = all_sockets srv d) \<and>
    recv_sockets srv' = recv_sockets srv \<and> send_sockets srv' = send_sockets srv \<and>
    (\<forall>d c bs. c \<notin> who ` set es \<longrightarrow> expects s' d c bs = expects s d c bs) \<and>
    (\<forall>c. (\<forall>d\<in>set es. c \<noteq> unat (who d)) \<longrightarrow> cid_to_socket s' c = cid_to_socket s c)"
  using assms
proof (induction es arbitrary: got out srv s)
  case (Cons d es)
  obtain g1 o1 srv1 s1 where one: "serve_socket recvCallbacks rx d (got, out, srv, s) = Inr (g1, o1, srv1, s1)"
    and rest: "res_fold (serve_socket recvCallbacks rx) es (g1, o1, srv1, s1) = Inr (got', out', srv', s')"
    using Cons.prems(1) by (auto simp: res_bind_eq_Inr)
  have d: "at_socket srv d (bs d)" "expects s d (who d) (bs d)" "carries (who d) (qs d) (bs d @ bytes_taken rx srv d)"
    using Cons.prems(4) by (simp_all add: ready_def readings_def)
  from socket_read[OF one d] have
    r: "records d (unat (who d)) (snd (rx d)) (completed (qs d) (bs d) (bytes_taken rx srv d)) s s1" and
    at: "at_socket srv1 d (readings rx srv bs d)" and g1: "g1 = (got \<or> bytes_taken rx srv d \<noteq> [])" and
    keep: "\<And>d'. d' \<noteq> d \<Longrightarrow> all_sockets srv1 d' = all_sockets srv d'" "recv_sockets srv1 = recv_sockets srv" "send_sockets srv1 = send_sockets srv"
    by (auto simp: readings_def)
  have ex: "expects s1 d (who d) (readings rx srv bs d)"
    using records_expects[OF r d(2,3)] by (simp add: readings_def)
  have dist: "distinct es" "inj_on who (set es)" "d \<notin> set es" "who d \<notin> who ` set es" using Cons.prems(2,3) by auto
  have new: "d' \<noteq> d" "who d' \<noteq> who d" if "d' \<in> set es" for d' using that dist(3,4) by (metis, metis imageI)
  have same: "bytes_taken rx srv1 d' = bytes_taken rx srv d'" "arrivals rx qs bs srv1 d' = arrivals rx qs bs srv d'"
    "readings rx srv1 bs d' = readings rx srv bs d'" if "d' \<in> set es" for d'
    using taken_local[OF keep(1)[OF new(1)[OF that]], of rx] by (simp_all add: arrivals_def readings_def)
  have "ready who bs s1 srv1 d' \<and> carries (who d') (qs d') (readings rx srv1 bs d')" if "d' \<in> set es" for d'
  proof -
    have "unat (who d') \<noteq> unat (who d)" using new(2)[OF that] by (simp add: word_unat_eq_iff)
    then show ?thesis using Cons.prems(4) keep(1)[OF new(1)[OF that]] same(3)[OF that] that records_other[OF r]
      by (simp add: ready_def at_socket_def)
  qed
  then have hyp: "\<forall>d'\<in>set es. ready who bs s1 srv1 d' \<and> carries (who d') (qs d') (readings rx srv1 bs d')" by blast
  note IH = Cons.IH[OF rest dist(1,2) hyp]
  have all: "map (arrivals rx qs bs srv1) es = map (arrivals rx qs bs srv) es" using same(2) by simp
  then have p: "pending_client_requests (fifo_sequencer s') = pending_client_requests (fifo_sequencer s) @ concat (map (arrivals rx qs bs srv) (d # es))"
    using IH[unfolded all] r[unfolded records_def, folded arrivals_def] by simp
  have "ready who (readings rx srv bs) s' srv' d" using IH at ex dist by (auto simp: ready_def at_socket_def)
  moreover have "ready who (readings rx srv bs) s' srv' d'" if "d' \<in> set es" for d'
    using IH same(3)[OF that] that by (auto simp: ready_def)
  moreover have "expects s' e c xs = expects s e c xs" if "c \<notin> who ` set (d # es)" for e c xs
    using IH records_other[OF r, of c e xs] that by (auto simp: word_unat_eq_iff)
  moreover have "(\<exists>d'\<in>set es. bytes_taken rx srv1 d' \<noteq> []) = (\<exists>d'\<in>set es. bytes_taken rx srv d' \<noteq> [])" using same(1) by auto
  ultimately show ?case using IH p r keep g1 by (auto simp: records_def)
qed simp

section \<open>A round of the server\<close>

definition of_client :: "ClientId \<Rightarrow> MEClientRequest list \<Rightarrow> MEClientRequest list" where
  "of_client c qs = filter (\<lambda>q. rq_client_id q = c) qs"

lemma of_client_append [simp]: "of_client c (qs @ rs) = of_client c qs @ of_client c rs"
  by (simp add: of_client_def)

text \<open>A sort that leaves requests of the same time in the order in which they were recorded.\<close>

definition stable_sort :: "(timed_request list \<Rightarrow> timed_request list) \<Rightarrow> bool" where
  "stable_sort srt \<longleftrightarrow> (\<forall>t xs. filter (\<lambda>x. fst x = t) (srt xs) = filter (\<lambda>x. fst x = t) xs)"

lemma sort_key_stable: "stable_sort (sort_key fst)"
  by (simp add: stable_sort_def List.sort_key_stable)

lemma arrivals_share:
  assumes "distinct ds" and "inj_on who (set ds)" and "\<forall>d\<in>set ds. carries (who d) (qs d) (readings rx srv bs d)" and "d \<in> set ds"
  shows "filter (\<lambda>x. rq_client_id (snd x) = who d) (concat (map (arrivals rx qs bs srv) ds)) = arrivals rx qs bs srv d"
  using assms
proof (induction ds)
  case (Cons e ds)
  have own: "rq_client_id (snd x) = who a" if "x \<in> set (arrivals rx qs bs srv a)" "a \<in> set (e # ds)" for x a
  proof -
    have "carries (who a) (qs a) (readings rx srv bs a)" using Cons.prems(3) that(2) by blast
    moreover have "snd x \<in> set (qs a)" using that(1) in_completed by (auto simp: arrivals_def)
    ultimately show ?thesis by (simp add: carries_def own_request_def list_all_iff)
  qed
  have other: "who a \<noteq> who e" if "a \<in> set ds" for a
    using inj_onD[OF Cons.prems(2), of a e] Cons.prems(1) that by auto
  show ?case
  proof (cases "d = e")
    case True
    have "rq_client_id (snd x) \<noteq> who d" if x: "x \<in> set (concat (map (arrivals rx qs bs srv) ds))" for x
    proof -
      obtain a where a: "a \<in> set ds" "x \<in> set (arrivals rx qs bs srv a)" using x by auto
      then show ?thesis using own[OF a(2)] other[OF a(1)] True by simp
    qed
    then have "filter (\<lambda>x. rq_client_id (snd x) = who d) (concat (map (arrivals rx qs bs srv) ds)) = []"
      unfolding filter_empty_conv by blast
    moreover have "filter (\<lambda>x. rq_client_id (snd x) = who d) (arrivals rx qs bs srv e) = arrivals rx qs bs srv e"
      unfolding filter_id_conv using own True by simp
    ultimately show ?thesis using True by simp
  next
    case False
    then have d: "d \<in> set ds" "who e \<noteq> who d" using Cons.prems(4) other[of d] by simp_all
    have "filter (\<lambda>x. rq_client_id (snd x) = who d) (arrivals rx qs bs srv e) = []"
      unfolding filter_empty_conv using own[of _ e] d(2) by auto
    moreover have "inj_on who (set ds)" using Cons.prems(2) by simp
    ultimately show ?thesis using Cons.IH Cons.prems(1,3) d(1) by simp
  qed
qed simp

text \<open>What is published for one client at the end of a round.\<close>

lemma published_share:
  assumes "time_sort srt" and "distinct ds" and "inj_on who (set ds)"
    and "\<forall>d\<in>set ds. carries (who d) (qs d) (readings rx srv bs d)" and "d \<in> set ds"
    and "new = map snd (srt (concat (map (arrivals rx qs bs srv) ds)))"
  shows "mset (of_client (who d) new) = mset (completed (qs d) (bs d) (bytes_taken rx srv d))"
    and "stable_sort srt \<Longrightarrow> of_client (who d) new = completed (qs d) (bs d) (bytes_taken rx srv d)"
proof -
  let ?p = "concat (map (arrivals rx qs bs srv) ds)" and ?c = "\<lambda>x. rq_client_id (snd x) = who d" and ?t = "snd (rx d)"
  note share = arrivals_share[OF assms(2-5)]
  have snd: "map snd (arrivals rx qs bs srv d) = completed (qs d) (bs d) (bytes_taken rx srv d)"
    by (simp add: arrivals_def comp_def)
  have new: "of_client (who d) new = map snd (filter ?c (srt ?p))"
    by (simp add: of_client_def assms(6) filter_map comp_def)
  have "mset (filter ?c (srt ?p)) = mset (filter ?c ?p)" using time_sort.sort_perm[OF assms(1)] by simp
  then show "mset (of_client (who d) new) = mset (completed (qs d) (bs d) (bytes_taken rx srv d))"
    unfolding new share by (metis mset_map snd)
  show "of_client (who d) new = completed (qs d) (bs d) (bytes_taken rx srv d)" if "stable_sort srt"
  proof -
    have at: "fst x = ?t" if "x \<in> set ?p" "?c x" for x
    proof -
      have "x \<in> set (filter ?c ?p)" using that by simp
      then show ?thesis unfolding share by (auto simp: arrivals_def)
    qed
    have "filter ?c (srt ?p) = filter ?c (filter (\<lambda>x. fst x = ?t) (srt ?p))"
      unfolding filter_filter by (rule filter_cong) (use at in \<open>auto simp: time_sort.sort_members[OF assms(1)]\<close>)
    also have "\<dots> = filter ?c (filter (\<lambda>x. fst x = ?t) ?p)" using that by (simp add: stable_sort_def)
    also have "\<dots> = filter ?c ?p" unfolding filter_filter by (rule filter_cong) (use at in auto)
    finally show ?thesis by (simp add: new share snd)
  qed
qed

text \<open>Only the socket that carries a client is bound to it.\<close>

definition bindings :: "(int \<Rightarrow> ClientId) \<Rightarrow> int list \<Rightarrow> OrderServer \<Rightarrow> bool" where
  "bindings who ds s \<longleftrightarrow> (\<forall>c d. cid_to_socket s c = Some d \<longrightarrow> d \<in> set ds \<and> c = unat (who d))"

lemma send_responses_reading:
  "send_responses n (s, srv) = Inr (s', srv') \<Longrightarrow> fifo_sequencer s' = fifo_sequencer s \<and> cid_to_socket s' = cid_to_socket s \<and>
     cid_next_exp_seq_num s' = cid_next_exp_seq_num s \<and> (\<forall>d bs. at_socket srv d bs \<longrightarrow> at_socket srv' d bs)"
proof (induction n arbitrary: s srv)
  case (Suc n)
  show ?case
  proof (cases "getNextRead (outgoing_messages s)")
    case None
    then show ?thesis using Suc.prems by simp
  next
    case (Some r)
    then have "queue_size (outgoing_messages s) \<noteq> 0" by (auto simp: getNextRead_def queue_size_def split: if_splits)
    then obtain s1 srv1 q where step: "send_response r (s, srv) = Inr (s1, srv1)"
      "send_responses n (s1\<lparr>outgoing_messages := q\<rparr>, srv1) = Inr (s', srv')"
      using Suc.prems Some by (auto simp: res_bind_eq_Inr)
    have "fifo_sequencer s1 = fifo_sequencer s \<and> cid_to_socket s1 = cid_to_socket s \<and> cid_next_exp_seq_num s1 = cid_next_exp_seq_num s \<and>
        (\<forall>d bs. at_socket srv d bs \<longrightarrow> at_socket srv1 d bs)"
      using step(1) by (auto simp: send_response_def Let_def res_bind_eq_Inr tcp_send_def at_socket_def
          split: option.splits)
    then show ?thesis using Suc.IH[OF step(2)] by simp
  qed
qed simp

lemma finish_publishes:
  assumes "time_sort srt" and "(if got then recvFinishedCallbacks srt s else Inr s) = Inr s'"
    and "\<not> got \<Longrightarrow> pending_client_requests (fifo_sequencer s) = []"
  shows "pending_client_requests (fifo_sequencer s') = [] \<and>
    incoming_request (fifo_sequencer s') = fold push (map snd (srt (pending_client_requests (fifo_sequencer s)))) (incoming_request (fifo_sequencer s)) \<and>
    (\<forall>d c bs. expects s' d c bs = expects s d c bs) \<and> cid_to_socket s' = cid_to_socket s"
proof (cases "pending_client_requests (fifo_sequencer s) = []")
  case True
  have "srt [] = []" using time_sort.sort_length[OF assms(1), of "[]"] by simp
  moreover have "s' = s" using assms(2) True by (simp add: recvFinishedCallbacks_def sequenceAndPublish_def split: if_splits)
  ultimately show ?thesis using True by simp
next
  case False
  then show ?thesis using assms(2,3)
    by (auto simp: fold_push_snd recvFinishedCallbacks_def sequenceAndPublish_def expects_def bound_to_def split: if_splits)
qed

lemma round_reads:
  assumes "time_sort srt" and "server_round srt ev fds rx rx' (s, srv) = Inr (out, s', srv')" and "poll ev fds srv = Inr srv"
    and "recv_sockets srv = ds" and "send_sockets srv = []" and "distinct ds" and "inj_on who (set ds)"
    and "\<forall>d\<in>set ds. ready who bs s srv d \<and> carries (who d) (qs d) (readings rx srv bs d)"
    and "pending_client_requests (fifo_sequencer s) = []" and "bindings who ds s"
  shows "bindings who ds s' \<and> (\<forall>d\<in>set ds. ready who (readings rx srv bs) s' srv' d) \<and> recv_sockets srv' = ds \<and> send_sockets srv' = [] \<and>
    pending_client_requests (fifo_sequencer s') = [] \<and> incoming_request (fifo_sequencer s') =
      fold push (map snd (srt (concat (map (arrivals rx qs bs srv) ds)))) (incoming_request (fifo_sequencer s))"
proof -
  let ?p = "concat (map (arrivals rx qs bs srv) ds)"
  obtain got out1 srv1 s1 s2 where read: "res_fold (serve_socket recvCallbacks rx) ds (False, [], srv, s) = Inr (got, out1, srv1, s1)"
    and fin: "(if got then recvFinishedCallbacks srt s1 else Inr s1) = Inr s2" and srv1: "send_sockets srv1 = []"
    and send: "send_responses (queue_size (outgoing_messages s2) + 1) (s2, srv1) = Inr (s', srv')"
  proof -
    obtain got out1 srv1 s1 s2 srv2 s3 out3 g3 where "res_fold (serve_socket recvCallbacks rx) ds (False, [], srv, s) = Inr (got, out1, srv1, s1)"
      "(if got then recvFinishedCallbacks srt s1 else Inr s1) = Inr s2"
      "res_fold (serve_socket recvCallbacks rx') (send_sockets srv1) (False, out1, srv1, s2) = Inr (g3, out3, srv2, s3)"
      "send_responses (queue_size (outgoing_messages s3) + 1) (s3, srv2) = Inr (s', srv')"
      using assms(2,3,4) by (auto simp: server_round_def server_sendAndRecv_def res_bind_eq_Inr simp del: send_responses.simps)
    moreover from this(1) have "send_sockets srv1 = []" using sockets_read[OF _ assms(6-8)] assms(5) by simp
    ultimately show thesis using that by simp
  qed
  note r = sockets_read[OF read assms(6-8)]
  have p: "pending_client_requests (fifo_sequencer s1) = ?p" using r assms(9) by simp
  have none: "?p = []" if "\<not> got"
  proof -
    have "\<forall>d\<in>set ds. bytes_taken rx srv d = []" using r that by auto
    then show ?thesis by (simp add: arrivals_def)
  qed
  have s2: "pending_client_requests (fifo_sequencer s2) = [] \<and>
      incoming_request (fifo_sequencer s2) = fold push (map snd (srt ?p)) (incoming_request (fifo_sequencer s)) \<and>
      (\<forall>d c bs. expects s2 d c bs = expects s1 d c bs) \<and> cid_to_socket s2 = cid_to_socket s1"
    using finish_publishes[OF assms(1) fin] p none r by simp
  have sockets: "recv_sockets srv' = ds" "send_sockets srv' = []"
    using send_responses_sockets[OF send] srv1 r assms(4) by simp_all
  have all: "\<forall>d\<in>set ds. ready who (readings rx srv bs) s' srv' d"
  proof -
    have "expects s' d c xs = expects s1 d c xs" for d c xs
      using send_responses_reading[OF send] s2 expects_cong[of s' s2] by simp
    then show ?thesis using send_responses_reading[OF send] r by (auto simp: ready_def)
  qed
  have "d \<in> set ds \<and> c = unat (who d)" if c: "cid_to_socket s' c = Some d" for c d
  proof (cases "\<exists>e\<in>set ds. c = unat (who e)")
    case True
    then obtain e where e: "e \<in> set ds" "c = unat (who e)" by blast
    then have "bound_to e c s'" using all by (auto simp: ready_def expects_def)
    then show ?thesis using c e by (simp add: bound_to_def)
  next
    case False
    then have "cid_to_socket s c = Some d" using send_responses_reading[OF send] s2 r c by simp
    then show ?thesis using assms(10) by (simp add: bindings_def)
  qed
  then show ?thesis using all send_responses_reading[OF send] s2 sockets by (simp add: bindings_def)
qed

section \<open>Runs of the exchange with open connections\<close>

text \<open>The bytes that have passed: those read from each socket, those handed to the kernel for each
  socket, and those multicast by the publisher.\<close>

record traffic =
  tr_in :: "int \<Rightarrow> u8 list"
  tr_out :: "int \<Rightarrow> u8 list"
  tr_cast :: "u8 list"

definition no_traffic :: traffic where
  "no_traffic = \<lparr>tr_in = (\<lambda>_. []), tr_out = (\<lambda>_. []), tr_cast = []\<rparr>"

definition handed :: "(int \<times> u8 list) list \<Rightarrow> int \<Rightarrow> u8 list" where
  "handed out d = concat (map snd (filter (\<lambda>p. fst p = d) out))"

text \<open>The runs of \<open>exchange_run\<close> in which no connection comes or goes, together with their traffic.\<close>

inductive fed_run ::
  "(timed_request list \<Rightarrow> timed_request list) \<Rightarrow> exchange \<Rightarrow> exchange \<Rightarrow> history \<Rightarrow> traffic \<Rightarrow> bool" for srt y0 where
  fed_start: "fed_run srt y0 y0 no_history no_traffic"
| fed_engine: "fed_run srt y0 y g tr \<Longrightarrow> engine_turn y = Inr y' \<Longrightarrow> unfilled y' \<Longrightarrow> fed_run srt y0 y' g tr"
| fed_server: "fed_run srt y0 y g tr \<Longrightarrow> poll ev fds (snd (ex_server y)) = Inr (snd (ex_server y)) \<Longrightarrow>
    server_turn srt ev fds rx rx' y = Inr (out, y') \<Longrightarrow> unfilled y' \<Longrightarrow> fed_run srt y0 y' (g\<lparr>
      sequenced := sequenced g @ added (incoming_request_queue (ex_engine y)) (incoming_request_queue (ex_engine y')),
      answered := answered g @ removed (outcoming_response_queue (ex_engine y)) (outcoming_response_queue (ex_engine y'))\<rparr>)
      (tr\<lparr>tr_in := readings rx (snd (ex_server y)) (tr_in tr), tr_out := (\<lambda>d. tr_out tr d @ handed out d)\<rparr>)"
| fed_publisher: "fed_run srt y0 y g tr \<Longrightarrow> publisher_turn rx y = Inr (out, y') \<Longrightarrow> unfilled y' \<Longrightarrow> fed_run srt y0 y' (g\<lparr>
      published := published g @ removed (market_updates_queue (ex_engine y)) (market_updates_queue (ex_engine y'))\<rparr>)
      (tr\<lparr>tr_cast := tr_cast tr @ out\<rparr>)"
| fed_synthetizer: "fed_run srt y0 y g tr \<Longrightarrow> synthetizer_turn now now' y = Inr (out, y') \<Longrightarrow> unfilled y' \<Longrightarrow> fed_run srt y0 y' (g\<lparr>
      digested := digested g @ removed (market_updates (ex_synthetizer y)) (market_updates (ex_synthetizer y'))\<rparr>) tr"

lemma fed_exchange_run: "fed_run srt y0 y g tr \<Longrightarrow> exchange_run srt y0 y g"
  by (induction rule: fed_run.induct) (auto intro: exchange_run.intros)

text \<open>Sockets that have just been accepted.\<close>

definition fresh_sockets :: "int list \<Rightarrow> TCPServer \<Rightarrow> bool" where
  "fresh_sockets ds srv \<longleftrightarrow> recv_sockets srv = ds \<and> send_sockets srv = [] \<and>
     (\<forall>d\<in>set ds. \<exists>k. all_sockets srv d = Some k \<and> fd k = d \<and> recv_buffer k = [] \<and> send_buffer k = [])"

text \<open>For every connection: the server is ready for the rest of its stream, and what has been sequenced for its client
  are the whole requests that have arrived.\<close>

definition share ::
  "(timed_request list \<Rightarrow> timed_request list) \<Rightarrow> ClientId \<Rightarrow> MEClientRequest list \<Rightarrow> u8 list \<Rightarrow> MEClientRequest list \<Rightarrow> bool" where
  "share srt c qs bs rs \<longleftrightarrow> mset (of_client c rs) = mset (take (whole bs) qs) \<and> (stable_sort srt \<longrightarrow> of_client c rs = take (whole bs) qs)"

definition fed_inv ::
  "(timed_request list \<Rightarrow> timed_request list) \<Rightarrow> (int \<Rightarrow> ClientId) \<Rightarrow> (int \<Rightarrow> MEClientRequest list) \<Rightarrow> int list \<Rightarrow>
     exchange \<Rightarrow> history \<Rightarrow> (int \<Rightarrow> u8 list) \<Rightarrow> bool" where
  "fed_inv srt who qs ds y g bs \<longleftrightarrow> (case ex_server y of (s, srv) \<Rightarrow>
     recv_sockets srv = ds \<and> send_sockets srv = [] \<and> pending_client_requests (fifo_sequencer s) = [] \<and> bindings who ds s \<and>
     (\<forall>d\<in>set ds. ready who bs s srv d \<and> share srt (who d) (qs d) (bs d) (sequenced g))) \<and>
     rq_client_id ` set (sequenced g) \<subseteq> who ` set ds"

lemma new_exchange_fed:
  assumes "fresh_sockets ds tcp"
  shows "fed_inv srt who qs ds (new_exchange tcp d1 d2) no_history (\<lambda>_. [])"
proof -
  have "ready who (\<lambda>_. []) (new_OrderServer q r) tcp d" if "d \<in> set ds" for d q r
    using assms that by (auto simp: fresh_sockets_def ready_def at_socket_def expects_def bound_to_def new_OrderServer_def
        left_over_def whole_def)
  then show ?thesis using assms
    by (simp add: fed_inv_def new_exchange_def Let_def fresh_sockets_def share_def no_history_def of_client_def whole_def)
      (simp add: new_OrderServer_def bindings_def)
qed

lemma arrivals_own:
  assumes "\<forall>d\<in>set ds. carries (who d) (qs d) (readings rx srv bs d)" and "x \<in> set (concat (map (arrivals rx qs bs srv) ds))"
  shows "rq_client_id (snd x) \<in> who ` set ds"
  using assms by (auto simp: arrivals_def carries_def own_request_def list_all_iff dest: in_completed)

lemma server_turn_fed:
  assumes "time_sort srt" and "exchange_inv y g" and "fed_inv srt who qs ds y g bs" and "distinct ds" and "inj_on who (set ds)"
    and "poll ev fds (snd (ex_server y)) = Inr (snd (ex_server y))" and "server_turn srt ev fds rx rx' y = Inr (out, y')" and "unfilled y'"
    and "\<forall>d\<in>set ds. carries (who d) (qs d) (readings rx (snd (ex_server y)) bs d)"
  shows "fed_inv srt who qs ds y' (g\<lparr>
      sequenced := sequenced g @ added (incoming_request_queue (ex_engine y)) (incoming_request_queue (ex_engine y')),
      answered := answered g @ removed (outcoming_response_queue (ex_engine y)) (outcoming_response_queue (ex_engine y'))\<rparr>)
      (readings rx (snd (ex_server y)) bs)" (is "fed_inv srt who qs ds y' ?g ?bs")
proof -
  obtain s srv where sv: "ex_server y = (s, srv)" by fastforce
  obtain s' srv' where run: "server_round srt ev fds rx rx' (s, srv) = Inr (out, s', srv')" and y': "ex_server y' = (s', srv')"
    "incoming_request_queue (ex_engine y') = incoming_request (fifo_sequencer s')"
    using assms(7) sv by (auto simp: server_turn_def res_bind_eq_Inr)
  have inv: "recv_sockets srv = ds" "send_sockets srv = []" "pending_client_requests (fifo_sequencer s) = []" "bindings who ds s"
    "\<forall>d\<in>set ds. ready who bs s srv d" "\<And>d. d \<in> set ds \<Longrightarrow> share srt (who d) (qs d) (bs d) (sequenced g)"
    using assms(3) by (simp_all add: fed_inv_def sv)
  have car: "\<forall>d\<in>set ds. carries (who d) (qs d) (readings rx srv bs d)" using assms(9) sv by simp
  define new where "new = map snd (srt (concat (map (arrivals rx qs bs srv) ds)))"
  have r: "bindings who ds s'" "\<forall>d\<in>set ds. ready who (readings rx srv bs) s' srv' d" "recv_sockets srv' = ds" "send_sockets srv' = []"
    "pending_client_requests (fifo_sequencer s') = []" "incoming_request (fifo_sequencer s') = fold push new (incoming_request (fifo_sequencer s))"
    using round_reads[where bs=bs and qs=qs, OF assms(1) run _ inv(1,2) assms(4,5) _ inv(3,4)] assms(6) sv inv(5) car by (simp_all add: new_def)
  have same: "incoming_request (fifo_sequencer s) = incoming_request_queue (ex_engine y)" and room: "roomy (incoming_request_queue (ex_engine y))"
    using assms(2) sv by (auto simp: wired_def queues_ok_def elim: exchange_invE)
  have "contents (incoming_request_queue (ex_engine y')) = contents (incoming_request_queue (ex_engine y)) @ new"
    using roomy_push(2)[OF room, of new] assms(8) by (simp add: unfilled_def y'(2) r(6) same)
  then have seq: "sequenced ?g = sequenced g @ new" using added_push by (simp add: y'(2) r(6) same)
  have "share srt (who d) (qs d) (readings rx srv bs d) (sequenced ?g)" if "d \<in> set ds" for d
    using published_share[OF assms(1,4,5) car that new_def] inv(6)[OF that] take_completed[of "bs d" "qs d" "bytes_taken rx srv d"]
    unfolding share_def readings_def seq by (metis mset_append of_client_append)
  moreover have "rq_client_id ` set new \<subseteq> who ` set ds"
    using arrivals_own[OF car] time_sort.sort_members[OF assms(1)] by (auto simp: new_def)
  ultimately show ?thesis using assms(3) r unfolding fed_inv_def seq by (simp add: y'(1) sv image_Un)
qed

lemma fed_inv_cong:
  assumes "fed_inv srt who qs ds y g bs" and "snd (ex_server y') = snd (ex_server y)" and "sequenced g' = sequenced g"
    and "pending_client_requests (fifo_sequencer (fst (ex_server y'))) = pending_client_requests (fifo_sequencer (fst (ex_server y)))"
    and "cid_to_socket (fst (ex_server y')) = cid_to_socket (fst (ex_server y))"
    and "cid_next_exp_seq_num (fst (ex_server y')) = cid_next_exp_seq_num (fst (ex_server y))"
  shows "fed_inv srt who qs ds y' g' bs"
  using assms by (simp add: fed_inv_def bindings_def split_def ready_def expects_def bound_to_def)

lemma fed_run_inv:
  assumes "fed_run srt (new_exchange tcp d1 d2) y g tr" and "fresh_sockets ds tcp" and "time_sort srt" and "distinct ds" and "inj_on who (set ds)"
  shows "(\<forall>d\<in>set ds. carries (who d) (qs d) (tr_in tr d)) \<longrightarrow> fed_inv srt who qs ds y g (tr_in tr)"
  using assms(1)
proof (induction rule: fed_run.induct)
  case fed_start
  show ?case using new_exchange_fed[OF assms(2)] by (simp add: no_traffic_def)
next
  case (fed_engine y g tr y')
  have "snd (ex_server y') = snd (ex_server y)" "cid_to_socket (fst (ex_server y')) = cid_to_socket (fst (ex_server y))"
    "cid_next_exp_seq_num (fst (ex_server y')) = cid_next_exp_seq_num (fst (ex_server y))"
    "pending_client_requests (fifo_sequencer (fst (ex_server y'))) = pending_client_requests (fifo_sequencer (fst (ex_server y)))"
    using fed_engine.hyps(2) by (auto simp: engine_turn_def res_bind_eq_Inr split_def Let_def)
  then show ?case using fed_engine.IH fed_inv_cong by blast
next
  case (fed_server y g tr ev fds rx rx' out y')
  have inv: "exchange_inv y g" by (rule exchange_run_inv[OF fed_exchange_run[OF fed_server.hyps(1)] assms(3) new_exchange_inv])
  let ?srv = "snd (ex_server y)"
  have "fed_inv srt who qs ds y' (g\<lparr>
      sequenced := sequenced g @ added (incoming_request_queue (ex_engine y)) (incoming_request_queue (ex_engine y')),
      answered := answered g @ removed (outcoming_response_queue (ex_engine y)) (outcoming_response_queue (ex_engine y'))\<rparr>)
      (readings rx ?srv (tr_in tr))" if car: "\<forall>d\<in>set ds. carries (who d) (qs d) (readings rx ?srv (tr_in tr) d)"
  proof -
    have "\<forall>d\<in>set ds. carries (who d) (qs d) (tr_in tr d)" using car by (auto simp: readings_def intro: carries_prefix)
    with fed_server.IH have "fed_inv srt who qs ds y g (tr_in tr)" by blast
    from server_turn_fed[OF assms(3) inv this assms(4,5) fed_server.hyps(2,3,4) car] show ?thesis .
  qed
  then show ?case by simp
next
  case (fed_publisher y g tr rx out y')
  then have "ex_server y' = ex_server y" by (auto simp: publisher_turn_def res_bind_eq_Inr)
  then show ?case using fed_publisher.IH fed_inv_cong[of srt who qs ds y g "tr_in tr" y'] by simp
next
  case (fed_synthetizer y g tr now now' out y')
  then have "ex_server y' = ex_server y" by (auto simp: synthetizer_turn_def res_bind_eq_Inr)
  then show ?case using fed_synthetizer.IH fed_inv_cong[of srt who qs ds y g "tr_in tr" y'] by simp
qed

end
