(* ===== verification/Delivery.thy ===== *)
theory Delivery
  imports Client Connections
begin

text \<open>
  The client and the exchange joined by a TCP connection that cuts the stream of bytes wherever it likes.
\<close>

section \<open>Every request of a client is its own\<close>

definition side_known :: "Side \<Rightarrow> bool" where
  "side_known s \<longleftrightarrow> s = SIDE_INVALID \<or> s = BUY \<or> s = SELL"

definition sides_known :: "OrderManager \<Rightarrow> bool" where
  "sides_known m \<longleftrightarrow> (\<forall>t s. side_known (om_side (slot t s m)))"

definition own_engine :: "ClientId \<Rightarrow> 'd TradeEngine \<Rightarrow> bool" where
  "own_engine cid e \<longleftrightarrow> te_client_id e = cid \<and> rt_client_id (te_random e) = cid \<and>
     list_all (own_request cid) (rt_requests (te_random e)) \<and> sides_known (te_orders e)"

lemma side_known_wf: "side_known s \<Longrightarrow> byte_side (side_byte s) = s"
  by (auto simp: side_known_def byte_side_def)

lemma sides_known_set: "sides_known m \<Longrightarrow> side_known (om_side x) \<Longrightarrow> sides_known (set_slot t s x m)"
  by (auto simp: sides_known_def slot_set_slot)

lemma moveOrder_own:
  assumes "moveOrder check cid t price side qty m = Inr (rqs, m')" and "sides_known m" and "side_known side"
  shows "sides_known m' \<and> list_all (own_request cid) rqs \<and> length rqs \<le> 1"
  using assms(1)
proof (cases rule: moveOrder_cases)
  case cancel
  have "side_known (om_side (slot t side m))" using assms(2) by (simp add: sides_known_def)
  then show ?thesis using cancel assms(2)
    by (simp add: cancelOrder_def own_request_def request_wf_def side_known_wf sides_known_set byte_rq_def)
next
  case new
  then show ?thesis using sides_known_set[OF assms(2), of _ t side] assms(3)
    by (simp add: newOrder_def own_request_def request_wf_def side_known_wf byte_rq_def sides_known_def)
qed (use assms in simp)

lemma moveOrders_own:
  assumes "moveOrders check cid t bid ask qty m = Inr (rqs, m')" and "sides_known m"
  shows "sides_known m' \<and> list_all (own_request cid) rqs \<and> length rqs \<le> 2"
proof -
  obtain r1 m1 r2 where r: "moveOrder check cid t bid BUY qty m = Inr (r1, m1)"
    "moveOrder check cid t ask SELL qty m1 = Inr (r2, m')" "rqs = r1 @ r2"
    using assms(1) by (rule moveOrders_parts)
  then show ?thesis using moveOrder_own[OF r(1) assms(2)] moveOrder_own[OF r(2)] by (auto simp: side_known_def)
qed

text \<open>What the handling of one event adds to the queue of requests.\<close>

definition adds_own :: "ClientId \<Rightarrow> 'd TradeEngine \<Rightarrow> 'd TradeEngine \<Rightarrow> bool" where
  "adds_own cid e e' \<longleftrightarrow> own_engine cid e' \<and> (\<exists>rqs. TradeEngine.outgoing_requests e' = fold push rqs (TradeEngine.outgoing_requests e) \<and>
     list_all (own_request cid) rqs \<and> length rqs \<le> 2)"

lemma adds_own_nothing:
  "own_engine cid e' \<Longrightarrow> TradeEngine.outgoing_requests e' = TradeEngine.outgoing_requests e \<Longrightarrow> adds_own cid e e'"
  unfolding adds_own_def by (intro conjI exI[of _ "[]"]) simp_all

lemma with_orders_own:
  assumes "with_orders r e = Inr e'" and "own_engine cid e"
    and "\<And>rqs m. r = Inr (rqs, m) \<Longrightarrow> sides_known m \<and> list_all (own_request cid) rqs \<and> length rqs \<le> 2"
  shows "adds_own cid e e'"
proof -
  obtain rqs m where "r = Inr (rqs, m)" "e' = e\<lparr>te_orders := m, TradeEngine.outgoing_requests := fold push rqs (TradeEngine.outgoing_requests e)\<rparr>"
    using assms(1) by (auto simp: with_orders_def res_bind_eq_Inr fold_send)
  then show ?thesis using assms(2,3) by (auto simp: adds_own_def own_engine_def)
qed

lemma algo_own:
  assumes "own_engine cid e"
  shows "algoOnTradeUpdate F u x e = Inr e' \<Longrightarrow> adds_own cid e e'"
    and "algoOnOrderBookUpdate F t x e = Inr e' \<Longrightarrow> adds_own cid e e'"
proof -
  have own: "te_client_id e = cid" "sides_known (te_orders e)" using assms by (simp_all add: own_engine_def)
  show "adds_own cid e e'" if "algoOnTradeUpdate F u x e = Inr e'"
  proof (cases "te_algo_type e = TAKER")
    case True
    show ?thesis
      by (rule with_orders_own[OF that[unfolded algoOnTradeUpdate_def if_P[OF True]] assms])
        (use own in \<open>auto simp: taker_onTradeUpdate_def Let_def res_bind_eq_Inr dest: moveOrders_own split: if_splits\<close>)
  qed (use that assms in \<open>simp add: algoOnTradeUpdate_def adds_own_nothing\<close>)
  show "adds_own cid e e'" if "algoOnOrderBookUpdate F t x e = Inr e'"
  proof (cases "te_algo_type e = MAKER")
    case True
    show ?thesis
      by (rule with_orders_own[OF that[unfolded algoOnOrderBookUpdate_def if_P[OF True]] assms])
        (use own in \<open>auto simp: maker_onOrderBookUpdate_def Let_def res_bind_eq_Inr dest: moveOrders_own split: if_splits\<close>)
  qed (use that assms in \<open>simp add: algoOnOrderBookUpdate_def adds_own_nothing\<close>)
qed

lemma adds_own_from:
  "adds_own cid e1 e' \<Longrightarrow> TradeEngine.outgoing_requests e1 = TradeEngine.outgoing_requests e \<Longrightarrow> adds_own cid e e'"
  by (simp add: adds_own_def)

lemma te_callback_own:
  assumes "te_callback F call x e = Inr e'" and "own_engine cid e"
  shows "adds_own cid e e'"
proof (cases call)
  case (OnTradeUpdate u)
  let ?e = "e\<lparr>te_features := feature_onTradeUpdate F u x (te_features e)\<rparr>"
  have "own_engine cid ?e" using assms(2) by (simp add: own_engine_def)
  from algo_own(1)[OF this, of F u x e'] assms(1) OnTradeUpdate show ?thesis
    by (auto simp: te_callback_def te_onTradeUpdate_def intro: adds_own_from)
next
  case (OnOrderBookUpdate t p s)
  then obtain k where k: "algoOnOrderBookUpdate F t x
      (e\<lparr>te_positions := k, te_features := feature_onOrderBookUpdate F x (te_features e)\<rparr>) = Inr e'"
    using assms(1) by (auto simp: te_callback_def te_onOrderBookUpdate_def res_bind_eq_Inr Let_def)
  have "own_engine cid (e\<lparr>te_positions := k, te_features := feature_onOrderBookUpdate F x (te_features e)\<rparr>)"
    using assms(2) by (simp add: own_engine_def)
  from algo_own(2)[OF this k] show ?thesis by (rule adds_own_from) simp
qed

lemma onTimer_own:
  assumes "onTimer now now' rands rt = Inr (rqs, rt')" and "rt_client_id rt = cid" and "list_all (own_request cid) (rt_requests rt)"
  shows "rt_client_id rt' = cid \<and> list_all (own_request cid) (rt_requests rt') \<and> list_all (own_request cid) rqs \<and> length rqs \<le> 2"
proof -
  obtain a b c d where r: "rands = (a, b, c, d)" by (cases rands)
  have new: "own_request cid (random_request a b c d rt)"
    using assms(2) by (auto simp: own_request_def random_request_def Let_def request_wf_def byte_rq_def byte_side_def)
  have "own_request cid (rt_requests rt ! (a mod length (rt_requests rt)))" if "rt_requests rt \<noteq> []"
    using assms(3) that by (simp add: list_all_length)
  then show ?thesis using assms new
    by (auto simp: onTimer_def r Let_def res_bind_eq_Inr own_request_def request_wf_def byte_rq_def split: if_splits)
qed

lemma response_step_side [simp]: "om_side (response_step r x) = om_side x"
  by (simp add: response_step_def Let_def split: ClientResponseType.split)

lemma handle_own:
  assumes "handle_event F ev e = Inr e'" and "own_engine cid e"
  shows "adds_own cid e e'"
proof (cases ev)
  case (Timer now now' rands)
  show ?thesis
  proof (cases "te_algo_type e = RANDOM")
    case True
    then obtain rqs rt where t: "onTimer now now' rands (te_random e) = Inr (rqs, rt)" "e' = fold te_sendClientRequest rqs (e\<lparr>te_random := rt\<rparr>)"
      using assms(1) Timer by (auto simp: onRandomTimer_def res_bind_eq_Inr)
    then show ?thesis using onTimer_own[OF t(1), of cid] assms(2) by (auto simp: adds_own_def own_engine_def fold_send)
  qed (use assms Timer in \<open>auto simp: onRandomTimer_def intro: adds_own_nothing\<close>)
next
  case (Response r)
  then obtain k where k: "algoOnOrderUpdate r (e\<lparr>te_positions := k\<rparr>) = Inr e'"
    using assms(1) by (auto simp: te_onOrderUpdate_def res_bind_eq_Inr)
  have "sides_known (set_slot t s (response_step r (slot t s (te_orders e))) (te_orders e))" for t s
    using assms(2) by (intro sides_known_set) (simp_all add: own_engine_def sides_known_def)
  then show ?thesis using k assms(2)
    by (intro adds_own_nothing) (auto simp: algoOnOrderUpdate_def om_onOrderUpdate_def res_bind_eq_Inr own_engine_def split: if_splits)
next
  case (Update u)
  then obtain call b where b: "te_callback F call (bbo b) (e\<lparr>te_books := (te_books e)(unat (mu_ticker_id u) := b)\<rparr>) = Inr e'"
    using assms(1) by (auto simp: te_onMarketUpdate_def res_bind_eq_Inr)
  have "own_engine cid (e\<lparr>te_books := (te_books e)(unat (mu_ticker_id u) := b)\<rparr>)" using assms(2) by (simp add: own_engine_def)
  from te_callback_own[OF b this] show ?thesis by (rule adds_own_from) simp
qed

lemma new_engine_own: "own_engine cid (new_TradeEngine F orders0 levels0 now rands cid algo cfg q a b)"
  by (simp add: own_engine_def new_TradeEngine_def new_RandomTrader_def sides_known_def slot_def new_OrderManager_def
      new_OMOrder_def side_known_def)

lemma desk_issues_own:
  assumes "res_fold (desk_step F) evs (desk e, issued) = Inr (desk e', issued')" and "own_engine cid e" and "list_all (own_request cid) issued"
  shows "list_all (own_request cid) issued'"
  using assms
proof (induction evs arbitrary: e issued)
  case (Cons ev evs)
  from Cons.prems(1) obtain e1 where e1: "handle_event F ev (desk e) = Inr e1"
    "res_fold (desk_step F) evs (desk e1, issued @ contents (TradeEngine.outgoing_requests e1)) = Inr (desk e', issued')"
  proof -
    obtain st where "desk_step F ev (desk e, issued) = Inr st" "res_fold (desk_step F) evs st = Inr (desk e', issued')"
      using Cons.prems(1) by (auto simp: res_bind_eq_Inr)
    then show thesis using that by (auto simp: desk_step_def res_bind_eq_Inr)
  qed
  have "own_engine cid (desk e)" using Cons.prems(2) by (simp add: own_engine_def desk_def)
  from handle_own[OF e1(1) this] obtain rqs where rqs: "own_engine cid e1" "TradeEngine.outgoing_requests e1 = fold push rqs (newQueue default_request ME_MAX_CLIENTS_UPDATES)"
    "list_all (own_request cid) rqs" "length rqs \<le> 2" by (auto simp: adds_own_def desk_def)
  let ?q = "newQueue default_request ME_MAX_CLIENTS_UPDATES"
  have big: "2 < ME_MAX_CLIENTS_UPDATES" by (simp add: size_defs)
  then have "roomy ?q" by (simp add: roomy_def newQueue_ok) (simp add: newQueue_def)
  moreover have "num_elements (fold push rqs ?q) < store_size (fold push rqs ?q)" using rqs(4) big by (simp add: newQueue_def)
  ultimately have "contents (fold push rqs ?q) = contents ?q @ rqs" by (rule roomy_push)
  then have "contents (TradeEngine.outgoing_requests e1) = rqs" using rqs(2) big by (simp add: newQueue_ok)
  then show ?case using Cons.IH[OF e1(2) rqs(1)] Cons.prems(3) rqs(3) by simp
qed simp

section \<open>From the desks to the books\<close>

definition started :: "'d fp \<Rightarrow> ClientId \<Rightarrow> 'd client \<Rightarrow> bool" where
  "started F c x \<longleftrightarrow> (\<exists>orders0 levels0 now rands algo cfg d d'. x = new_client F orders0 levels0 now rands c algo cfg d d')"

text \<open>What is on the wire of a client is a beginning of the stream of its own requests.\<close>

lemma client_carries:
  assumes "started F c x0" and "client_run F x0 x h" and "bs @ rest = ch_wire h"
  obtains evs issued where "res_fold (desk_step F) evs (desk (cl_engine x0), []) = Inr (desk (cl_engine x), issued)"
    and "issued = ch_sent h @ contents (TradeEngine.outgoing_requests (cl_engine x))" and "carries c (ch_sent h) bs"
proof -
  obtain orders0 levels0 now rands algo cfg d d' where x0: "x0 = new_client F orders0 levels0 now rands c algo cfg d d'"
    using assms(1) by (auto simp: started_def)
  have inv: "client_inv F (cl_engine x0) c x h" by (rule client_run_inv[OF assms(2) new_client_inv[OF x0]])
  then obtain evs where evs: "res_fold (desk_step F) evs (desk (cl_engine x0), []) = Inr (desk (cl_engine x), ch_issued h)"
    by (auto simp: client_inv_def desk_log_def)
  have "own_engine c (cl_engine x0)" by (simp add: x0 new_client_def Let_def new_engine_own)
  from desk_issues_own[OF evs this] have own: "list_all (own_request c) (ch_issued h)" by simp
  have issued: "ch_issued h = ch_sent h @ contents (TradeEngine.outgoing_requests (cl_engine x))"
    and wire: "ch_wire h @ send_buffer (fst (cl_gateway x)) = requests.stream (numbered_requests 1 (ch_sent h))"
    using inv by (simp_all add: client_inv_def passed_on_def on_wire_def)
  have "bs @ (rest @ send_buffer (fst (cl_gateway x))) = requests.stream (numbered_requests 1 (ch_sent h))"
    using wire unfolding assms(3)[symmetric] by simp
  then have "carries c (ch_sent h) bs" using own issued unfolding carries_def by (metis list_all_append)
  with evs issued show thesis by (rule that)
qed

text \<open>C3: any number of trading programs on one exchange, each over its own connection, whose bytes the
  order server reads in pieces cut anywhere. Whatever the interleaving of the three threads of every client and
  the four threads of the exchange, as long as no queue is filled: the exchange serves, one after the other, a first part of
  what it has sequenced, with the books, responses and updates that this gives; it has sequenced requests of these
  clients only; and of each client exactly the first requests its trading desk issued, as many as whole ones have
  arrived, each once, and in the order in which the desk issued them if the sort of the sequencer is stable.\<close>

theorem desks_reach_books:
  assumes "fed_run srt (new_exchange tcp d1 d2) y g tr" and "time_sort srt"
    and "fresh_sockets ds tcp" and "distinct ds" and "inj_on who (set ds)"
    and "\<forall>d\<in>set ds. started F (who d) (x0 d) \<and> client_run F (x0 d) (x d) (h d) \<and> (\<exists>rest. tr_in tr d @ rest = ch_wire (h d))"
  shows "(\<exists>served. sequenced g = served @ contents (incoming_request_queue (ex_engine y)) \<and>
       res_fold log_request served new_log = Inr \<lparr>lg_books = ticker_order_book (ex_engine y),
         lg_responses = answered g @ contents (outcoming_response_queue (ex_engine y)),
         lg_updates = published g @ contents (market_updates_queue (ex_engine y))\<rparr>) \<and>
     rq_client_id ` set (sequenced g) \<subseteq> who ` set ds \<and>
     (\<forall>d\<in>set ds. \<exists>evs issued. res_fold (desk_step F) evs (desk (cl_engine (x0 d)), []) = Inr (desk (cl_engine (x d)), issued) \<and>
       whole (tr_in tr d) \<le> length issued \<and> mset (of_client (who d) (sequenced g)) = mset (take (whole (tr_in tr d)) issued) \<and>
       (stable_sort srt \<longrightarrow> of_client (who d) (sequenced g) = take (whole (tr_in tr d)) issued))"
proof -
  have sent: "carries (who d) (ch_sent (h d)) (tr_in tr d)" "\<exists>evs. res_fold (desk_step F) evs (desk (cl_engine (x0 d)), []) =
      Inr (desk (cl_engine (x d)), ch_sent (h d) @ contents (TradeEngine.outgoing_requests (cl_engine (x d))))" if "d \<in> set ds" for d
  proof -
    from that assms(6) obtain rest where "started F (who d) (x0 d)" "client_run F (x0 d) (x d) (h d)" "tr_in tr d @ rest = ch_wire (h d)" by blast
    then show "carries (who d) (ch_sent (h d)) (tr_in tr d)" "\<exists>evs. res_fold (desk_step F) evs (desk (cl_engine (x0 d)), []) =
      Inr (desk (cl_engine (x d)), ch_sent (h d) @ contents (TradeEngine.outgoing_requests (cl_engine (x d))))"
      by (metis client_carries)+
  qed
  have inv: "exchange_inv y g" by (rule exchange_run_inv[OF fed_exchange_run[OF assms(1)] assms(2) new_exchange_inv])
  have fed: "fed_inv srt who (\<lambda>d. ch_sent (h d)) ds y g (tr_in tr)"
    using fed_run_inv[OF assms(1,3,2,4,5), of "\<lambda>d. ch_sent (h d)"] sent(1) by blast
  then have own: "rq_client_id ` set (sequenced g) \<subseteq> who ` set ds" by (simp add: fed_inv_def)
  have "\<exists>evs issued. res_fold (desk_step F) evs (desk (cl_engine (x0 d)), []) = Inr (desk (cl_engine (x d)), issued) \<and>
       whole (tr_in tr d) \<le> length issued \<and> mset (of_client (who d) (sequenced g)) = mset (take (whole (tr_in tr d)) issued) \<and>
       (stable_sort srt \<longrightarrow> of_client (who d) (sequenced g) = take (whole (tr_in tr d)) issued)" if d: "d \<in> set ds" for d
  proof -
    obtain evs where evs: "res_fold (desk_step F) evs (desk (cl_engine (x0 d)), []) =
      Inr (desk (cl_engine (x d)), ch_sent (h d) @ contents (TradeEngine.outgoing_requests (cl_engine (x d))))" using sent(2)[OF d] by blast
    have "share srt (who d) (ch_sent (h d)) (tr_in tr d) (sequenced g)" using fed d by (auto simp: fed_inv_def split: prod.splits)
    then show ?thesis using evs carries_whole[OF sent(1)[OF d]] unfolding share_def
      by (intro exI[of _ evs] exI[of _ "ch_sent (h d) @ contents (TradeEngine.outgoing_requests (cl_engine (x d)))"]) simp
  qed
  then show ?thesis using inv own by (auto simp: exchange_inv_def serves_def)
qed

section \<open>A run of the client\<close>

definition random_client :: "int client" where
  "random_client = new_client int_fp (\<lambda>_ _. None) (\<lambda>_ _. None) 0 (\<lambda>_. 0) 4 RANDOM
     (\<lambda>_. \<lparr>clip = 10, threshold = 0, risk_cfg = \<lparr>max_order_size = 10, max_position = 10, max_loss = 0\<rparr>\<rparr>) 9 10"

definition random_order :: MEClientRequest where
  "random_order = random_request 0 0 0 0 (new_RandomTrader 4 0 (\<lambda>_. 0))"

text \<open>Ten seconds after the start the random trader sends its first order, which the gateway takes in its next
  round and hands to the kernel in the one after that.\<close>

lemma random_client_trades:
  "\<exists>x. trade_turn int_fp 10000000000 0 (0, 0, 0, 0) random_client = Inr x \<and> cl_gateway x = (new_TCPSocket 9,
       new_OrderGateway 4 (push random_order (newQueue default_request ME_MAX_CLIENTS_UPDATES)) (newQueue default_response ME_MAX_CLIENTS_UPDATES)) \<and>
     TradeEngine.outgoing_requests (cl_engine x) = push random_order (newQueue default_request ME_MAX_CLIENTS_UPDATES) \<and>
     TradeEngine.incoming_responses (cl_engine x) = newQueue default_response ME_MAX_CLIENTS_UPDATES \<and>
     incoming_market_updates (cl_engine x) = newQueue default_update ME_MAX_CLIENTS_UPDATES"
proof -
  have none: "getNextRead (newQueue v n) = None" "num_elements (newQueue v n) = 0" for v :: 'b and n
    by (simp_all add: getNextRead_def newQueue_def)
  obtain rt where t: "onTimer 10000000000 0 (0, 0, 0, 0) (new_RandomTrader 4 0 (\<lambda>_. 0)) = Inr ([random_order], rt)"
    by (simp add: onTimer_def random_order_def new_RandomTrader_def Let_def)
  show ?thesis
    by (simp add: trade_turn_def te_round_def onRandomTimer_def random_client_def new_client_def new_TradeEngine_def Let_def t
        te_sendClientRequest_def serve_responses_def serve_updates_def none new_OrderGateway_def)
qed

lemma random_client_run:
  "\<exists>x h k g. client_run int_fp random_client x h \<and> ch_wire h = encode_request \<lparr>ogrq_seq_num = 1, ogrq_request = random_order\<rparr> \<and>
     client_unfilled x \<and> cl_gateway x = (k, g) \<and> recv_buffer k = [] \<and> num_elements (OrderGateway.outgoing_requests g) = 0 \<and>
     OrderGateway.incoming_responses g = newQueue default_response ME_MAX_CLIENTS_UPDATES \<and> ch_reads h = [[], []] \<and> ch_datagrams h = []"
proof -
  let ?q = "newQueue default_request ME_MAX_CLIENTS_UPDATES" and ?g = "new_OrderGateway 4 (push random_order (newQueue default_request
      ME_MAX_CLIENTS_UPDATES)) (newQueue default_response ME_MAX_CLIENTS_UPDATES)"
  have big: "1 < ME_MAX_CLIENTS_UPDATES" by (simp add: size_defs)
  have nums: "num_elements (newQueue v n) = 0" "store_size (newQueue v n) = n" for v :: 'b and n by (simp_all add: newQueue_def)
  note q = newQueue_push[OF big, of random_order default_request]
  obtain x1 where x1: "trade_turn int_fp 10000000000 0 (0, 0, 0, 0) random_client = Inr x1" "cl_gateway x1 = (new_TCPSocket 9, ?g)"
    "TradeEngine.outgoing_requests (cl_engine x1) = push random_order ?q"
    "TradeEngine.incoming_responses (cl_engine x1) = newQueue default_response ME_MAX_CLIENTS_UPDATES"
    "incoming_market_updates (cl_engine x1) = newQueue default_update ME_MAX_CLIENTS_UPDATES"
    using random_client_trades by blast
  have "client_unfilled x1" using big by (simp add: client_unfilled_def x1 nums)
  from client_trades[OF client_start x1(1) this] obtain h1 where run1: "client_run int_fp random_client x1 h1" "ch_wire h1 = []"
      "ch_reads h1 = []" "ch_datagrams h1 = []"
    by (auto simp: no_client_history_def)
  have "roomy (OrderGateway.outgoing_requests ?g)" "contents (OrderGateway.outgoing_requests ?g) = [random_order]"
    using q big by (simp_all add: new_OrderGateway_def roomy_def nums)
  then obtain k2 g2 where g2: "gateway_round ([], 0) (new_TCPSocket 9, ?g) = Inr ([], k2, g2)"
    "send_buffer k2 = encode_request \<lparr>ogrq_seq_num = 1, ogrq_request = random_order\<rparr>"
    "num_elements (OrderGateway.outgoing_requests g2) = 0" "OrderGateway.incoming_responses g2 = OrderGateway.incoming_responses ?g"
    "recv_buffer k2 = []"
    by (rule round_queues_request[where k="new_TCPSocket 9" and t=0]) (simp_all add: new_TCPSocket_def new_OrderGateway_def)
  obtain x2 where x2: "gateway_turn ([], 0) x1 = Inr ([], x2)" "cl_gateway x2 = (k2, g2)" "TradeEngine.outgoing_requests (cl_engine x2) =
      OrderGateway.outgoing_requests g2" "TradeEngine.incoming_responses (cl_engine x2) = newQueue default_response ME_MAX_CLIENTS_UPDATES"
    "incoming_market_updates (cl_engine x2) = newQueue default_update ME_MAX_CLIENTS_UPDATES"
    using g2 by (simp add: gateway_turn_def x1 new_OrderGateway_def)
  obtain qs where "takes (push random_order ?q) qs (OrderGateway.outgoing_requests g2)"
    using gateway_round_takes[OF g2(1)] q big by (auto simp: new_OrderGateway_def roomy_def nums)
  then have "client_unfilled x2" using big g2(3) by (simp add: client_unfilled_def x2 nums takes_def)
  from client_gateway[OF run1(1) x2(1) this] obtain h2 where run2: "client_run int_fp random_client x2 h2" "ch_wire h2 = []"
      "ch_reads h2 = [[]]" "ch_datagrams h2 = []"
    using run1(2-4) by (auto simp: gateway_takes_def)
  have same: "boxes (OrderGateway.outgoing_requests g2) (OrderGateway.incoming_responses g2) (incoming_market_updates (cl_engine x2)) (cl_engine x2) =
      cl_engine x2" using x2 g2(4) boxes_same[of "cl_engine x2"] by (simp add: new_OrderGateway_def)
  have "gateway_round ([], 1) (k2, g2) = Inr (send_buffer k2, k2\<lparr>send_buffer := []\<rparr>, g2)"
    by (rule round_without_request[OF g2(3) tcp_idle refl])
  then obtain x3 where x3: "gateway_turn ([], 1) x2 = Inr (send_buffer k2, x3)" "cl_engine x3 = cl_engine x2"
    "cl_gateway x3 = (k2\<lparr>send_buffer := []\<rparr>, g2)"
    by (simp add: gateway_turn_def x2(2) same)
  have "client_unfilled x3" using \<open>client_unfilled x2\<close> by (simp add: client_unfilled_def x3(2))
  from client_gateway[OF run2(1) x3(1) this] obtain h3 where run3: "client_run int_fp random_client x3 h3" "ch_wire h3 = send_buffer k2"
      "ch_reads h3 = [[], []]" "ch_datagrams h3 = []"
    using run2(2-4) by (auto simp: gateway_takes_def)
  show ?thesis using run3 g2 x3(3) \<open>client_unfilled x3\<close>
    by (intro exI[of _ x3] exI[of _ h3] exI[of _ "k2\<lparr>send_buffer := []\<rparr>"] exI[of _ g2]) (simp add: new_OrderGateway_def)
qed

theorem client_serializes_witness:
  "\<exists>(x :: int client) (h :: client_history). ch_wire h = encode_request \<lparr>ogrq_seq_num = 1, ogrq_request = random_order\<rparr> \<and>
     (\<exists>evs issued. res_fold (desk_step int_fp) evs (desk (cl_engine random_client), []) = Inr (desk (cl_engine x), issued) \<and>
     ch_accepted h = responses_in evs @ contents (TradeEngine.incoming_responses (cl_engine x)) \<and>
     ch_handed h = updates_in evs @ contents (incoming_market_updates (cl_engine x)) \<and>
     issued = ch_sent h @ contents (TradeEngine.outgoing_requests (cl_engine x)) \<and>
     ch_wire h @ send_buffer (fst (cl_gateway x)) = requests.stream (numbered_requests 1 (ch_sent h)))"
proof -
  obtain x h where run: "client_run int_fp random_client x h" "ch_wire h = encode_request \<lparr>ogrq_seq_num = 1, ogrq_request = random_order\<rparr>"
    using random_client_run by blast
  show ?thesis
    by (rule exI[of _ x], rule exI[of _ h]) (intro conjI client_serializes[OF run(1) random_client_def] run(2))
qed

text \<open>The order server reads that order, on the socket 7.\<close>

definition order_read :: "int \<Rightarrow> u8 list \<times> Nanos" where
  "order_read d = (encode_request \<lparr>ogrq_seq_num = 1, ogrq_request = random_order\<rparr>, 9)"

lemma random_order_facts: "request_wf random_order" "4 = unat (rq_client_id random_order)" "4 < ME_MAX_NUM_CLIENTS"
  "rq_type random_order = CRQ_NEW" "rq_ticker_id random_order = 0" "rq_client_id random_order = 4"
  by (simp_all add: random_order_def random_request_def Let_def request_wf_def byte_rq_def byte_side_def new_RandomTrader_def size_defs)

lemma with_random_order:
  "incoming_request_queue (ex_engine (with_request 7 random_order sample_exchange)) = push random_order (newQueue default_request ME_MAX_CLIENTS_UPDATES)"
  "outcoming_response_queue (ex_engine (with_request 7 random_order sample_exchange)) = newQueue default_response ME_MAX_CLIENTS_UPDATES"
  "market_updates_queue (ex_engine (with_request 7 random_order sample_exchange)) = newQueue default_update ME_MAX_MARKET_UPDATES"
  "market_updates (ex_synthetizer (with_request 7 random_order sample_exchange)) = newQueue default_mdp_update ME_MAX_MARKET_UPDATES"
  "ticker_order_book (ex_engine (with_request 7 random_order sample_exchange)) = ticker_order_book exchange_engine"
  by (simp_all add: with_request_def sample_parts engine_queues)
    (simp add: sample_exchange_def new_exchange_def new_SnapshotSynthetizer_def new_MarketDataPublisher_def Let_def)

lemma order_bytes: "readings order_read sample_tcp (\<lambda>_. []) 7 = encode_request \<lparr>ogrq_seq_num = 1, ogrq_request = random_order\<rparr>"
  by (simp add: readings_def bytes_taken_def sample_tcp_def order_read_def new_TCPSocket_def request_size_def TCPBufferSize_def)

lemma sample_fresh: "fresh_sockets [7] sample_tcp"
  by (simp add: fresh_sockets_def sample_tcp_def new_TCPSocket_def)

lemma random_started: "started int_fp 4 random_client"
  unfolding started_def random_client_def by blast

lemma random_order_read:
  "\<exists>g tr. fed_run (sort_key fst) sample_exchange (with_request 7 random_order sample_exchange) g tr \<and>
     unfilled (with_request 7 random_order sample_exchange) \<and> tr_in tr = readings order_read sample_tcp (\<lambda>_. []) \<and> tr_cast tr = [] \<and>
     sequenced g = [random_order] \<and> answered g = [] \<and> published g = []"
proof -
  let ?y = "with_request 7 random_order sample_exchange"
  have big: "1 < ME_MAX_CLIENTS_UPDATES" "1 < ME_MAX_MARKET_UPDATES" by (simp_all add: size_defs)
  have rx: "order_read 7 = (encode_request \<lparr>ogrq_seq_num = cid_next_exp_seq_num (fst (ex_server sample_exchange)) 4, ogrq_request = random_order\<rparr>, 9)"
    by (simp add: order_read_def sample_parts new_OrderServer_def)
  note turn = request_turn[where rx=order_read and rx'=nothing_read, OF stable.time_sort_axioms sample_idle random_order_facts(1-3) rx]
  have nums: "num_elements (newQueue v n) = 0" "store_size (newQueue v n) = n" for v :: 'b and n by (simp_all add: newQueue_def)
  have un: "unfilled ?y" using big unfolding unfilled_def with_random_order by (simp add: nums)
  have "poll (Some []) [] (snd (ex_server sample_exchange)) = Inr (snd (ex_server sample_exchange))" by simp
  then show ?thesis
    using fed_server[OF fed_start[of "sort_key fst" sample_exchange] _ turn un] un newQueue_push[OF big(1), of random_order default_request]
    by (intro exI conjI) (auto simp: sample_parts added_def removed_def with_random_order engine_queues no_history_def no_traffic_def nums newQueue_ok)
qed

theorem desks_reach_books_witness:
  "\<exists>(x :: int client) (y :: exchange) (g :: history) bs. sequenced g = [random_order] \<and> whole bs = 1 \<and>
     (\<exists>served. sequenced g = served @ contents (incoming_request_queue (ex_engine y)) \<and>
       res_fold log_request served new_log = Inr \<lparr>lg_books = ticker_order_book (ex_engine y),
         lg_responses = answered g @ contents (outcoming_response_queue (ex_engine y)),
         lg_updates = published g @ contents (market_updates_queue (ex_engine y))\<rparr>) \<and>
     rq_client_id ` set (sequenced g) \<subseteq> (\<lambda>_. 4) ` set [7 :: int] \<and>
     (\<forall>d\<in>set [7 :: int]. \<exists>evs issued. res_fold (desk_step int_fp) evs (desk (cl_engine random_client), []) = Inr (desk (cl_engine x), issued) \<and>
       whole bs \<le> length issued \<and> mset (of_client 4 (sequenced g)) = mset (take (whole bs) issued) \<and>
       (stable_sort (sort_key fst) \<longrightarrow> of_client 4 (sequenced g) = take (whole bs) issued))"
proof -
  let ?bs = "encode_request \<lparr>ogrq_seq_num = 1, ogrq_request = random_order\<rparr>"
  obtain x h where run: "client_run int_fp random_client x h" "ch_wire h = ?bs" using random_client_run by blast
  obtain y g tr where fed: "fed_run (sort_key fst) (new_exchange sample_tcp 4 5) (y :: exchange) g tr" "tr_in tr = readings order_read sample_tcp (\<lambda>_. [])"
    "sequenced g = [random_order]" using random_order_read unfolding sample_exchange_def by blast
  have bs: "tr_in tr 7 = ?bs" by (simp add: fed(2) order_bytes)
  have all: "\<forall>d\<in>set [7]. started int_fp ((\<lambda>_. 4) d) ((\<lambda>_. random_client) d) \<and>
      client_run int_fp ((\<lambda>_. random_client) d) ((\<lambda>_. x) d) ((\<lambda>_. h) d) \<and>
      (\<exists>rest. tr_in tr d @ rest = ch_wire ((\<lambda>_. h) d))" using random_started run bs by simp
  have "whole ?bs = 1" by (simp add: whole_def request_size_def)
  moreover have "distinct [7 :: int]" "inj_on (\<lambda>_. 4 :: ClientId) (set [7 :: int])" by simp_all
  ultimately show ?thesis
    using desks_reach_books[OF fed(1) stable.time_sort_axioms sample_fresh _ _ all] fed(3) bs
    by (intro exI[of _ x] exI[of _ y] exI[of _ g] exI[of _ ?bs]) simp
qed

end
