(* ===== verification/Replies.thy ===== *)
theory Replies
  imports Connections
begin

text \<open>
  What the exchange sends in the runs with open connections: on each socket the responses to its client, on the
  incremental stream the updates, each numbered from 1 without a gap.
\<close>

section \<open>Responses\<close>

definition to_client :: "ClientId \<Rightarrow> MEClientResponse list \<Rightarrow> MEClientResponse list" where
  "to_client c rs = filter (\<lambda>r. owner r = unat c) rs"

lemma to_client_append [simp]: "to_client c (rs @ rs') = to_client c rs @ to_client c rs'"
  by (simp add: to_client_def)

text \<open>What a socket has still to hand to the kernel.\<close>

definition unsent :: "TCPServer \<Rightarrow> int \<Rightarrow> u8 list" where
  "unsent srv d = (case all_sockets srv d of None \<Rightarrow> [] | Some k \<Rightarrow> send_buffer k)"

lemma handed_simps [simp]:
  "handed [] d = []" "handed (out @ [(e, bs)]) d = handed out d @ (if e = d then bs else [])"
  by (simp_all add: handed_def)

text \<open>Reading sends nothing of its own.\<close>

definition mute :: "OrderServer \<Rightarrow> OrderServer \<Rightarrow> bool" where
  "mute s s' \<longleftrightarrow> cid_next_outgoing_seq_num s' = cid_next_outgoing_seq_num s \<and> outgoing_messages s' = outgoing_messages s"

lemma recvCallbacks_mute:
  assumes "recvCallbacks t k s = Inr (k', s')"
  shows "mute s s' \<and> send_buffer k' = send_buffer k"
proof (cases "length (recv_buffer k) < request_size")
  case True
  then show ?thesis using assms by (simp add: recvCallbacks_def mute_def)
next
  case False
  then obtain rest where r: "read_frames request_size (\<lambda>f. accept_request (fd k) t (decode_request f)) (recv_buffer k) s = Inr (rest, s')"
    and k': "k' = k\<lparr>recv_buffer := rest\<rparr>"
    using assms by (auto simp: recvCallbacks_def res_bind_eq_Inr)
  have "mute s s'"
    by (rule read_frames_keeps[where P="mute s", OF _ r])
      (auto simp: accept_request_def addClientRequest_def mute_def Let_def res_bind_eq_Inr split: if_splits)
  then show ?thesis by (simp add: k')
qed

lemma serve_sockets_mute:
  assumes "res_fold (serve_socket recvCallbacks rx) es (got, out, srv, s) = Inr (got', out', srv', s')"
  shows "mute s s' \<and> handed out' d @ unsent srv' d = handed out d @ unsent srv d"
  using assms
proof (induction es arbitrary: got out srv s)
  case (Cons e es)
  obtain g1 o1 srv1 s1 where one: "serve_socket recvCallbacks rx e (got, out, srv, s) = Inr (g1, o1, srv1, s1)"
    and rest: "res_fold (serve_socket recvCallbacks rx) es (g1, o1, srv1, s1) = Inr (got', out', srv', s')"
    using Cons.prems by (auto simp: res_bind_eq_Inr)
  have "mute s s1 \<and> handed o1 d @ unsent srv1 d = handed out d @ unsent srv d"
    using one by (auto simp: serve_socket_def tcp_sendAndRecv_def Let_def res_bind_eq_Inr unsent_def mute_def
        split: option.splits if_splits dest!: recvCallbacks_mute)
  then show ?case using Cons.IH[OF rest] by (simp add: mute_def)
qed (simp add: mute_def)

lemma sends_to_response [simp]:
  "sends_to s d \<lparr>ogrs_seq_num = n, ogrs_response = r\<rparr> \<longleftrightarrow> cid_to_socket s (owner r) = Some d"
  by (simp add: sends_to_def)

lemma send_responses_out:
  assumes "send_responses n (s, srv) = Inr (s', srv')" and "roomy (outgoing_messages s)"
  shows "\<exists>rs. takes (outgoing_messages s) rs (outgoing_messages s') \<and> list_all (\<lambda>r. cid_to_socket s (owner r) \<noteq> None) rs \<and>
     (\<forall>d. unsent srv' d = unsent srv d @ responses.stream (filter (sends_to s d) (label (cid_next_outgoing_seq_num s) rs))) \<and>
     (\<forall>c. cid_next_outgoing_seq_num s' c = cid_next_outgoing_seq_num s c + of_nat (length (filter (\<lambda>r. owner r = c) rs)))"
  using assms
proof (induction n arbitrary: s srv)
  case (Suc n)
  show ?case
  proof (cases "getNextRead (outgoing_messages s)")
    case None
    then show ?thesis using Suc.prems by (intro exI[of _ "[]"]) (auto simp: takes_refl)
  next
    case (Some r)
    then have "queue_size (outgoing_messages s) \<noteq> 0" by (auto simp: getNextRead_def queue_size_def split: if_splits)
    then obtain s1 srv1 q where step: "send_response r (s, srv) = Inr (s1, srv1)" "updateNextRead (outgoing_messages s1) = Inr q"
      "send_responses n (s1\<lparr>outgoing_messages := q\<rparr>, srv1) = Inr (s', srv')"
      using Suc.prems(1) Some by (auto simp: res_bind_eq_Inr)
    let ?n = "cid_next_outgoing_seq_num s"
    have one: "cid_next_outgoing_seq_num s1 = ?n(owner r := ?n (owner r) + 1)" "cid_to_socket s1 = cid_to_socket s"
      "outgoing_messages s1 = outgoing_messages s" "cid_to_socket s (owner r) \<noteq> None"
      "unsent srv1 d = unsent srv d @ (if cid_to_socket s (owner r) = Some d
         then encode_response \<lparr>ogrs_seq_num = ?n (owner r), ogrs_response = r\<rparr> else [])" for d
      using step(1) by (auto simp: send_response_def tcp_send_def Let_def res_bind_eq_Inr unsent_def encode_response_def ensure_def
          split: option.splits if_splits)
    have t: "takes (outgoing_messages s) [r] q" using takes_next[OF Suc.prems(2) Some] step(2) one(3) by simp
    have "sends_to (s1\<lparr>outgoing_messages := q\<rparr>) = sends_to s" by (simp add: fun_eq_iff sends_to_def one(2))
    with Suc.IH[OF step(3)] takes_roomy[OF Suc.prems(2) t] obtain rs where rs: "takes q rs (outgoing_messages s')"
      "list_all (\<lambda>r. cid_to_socket s (owner r) \<noteq> None) rs"
      "\<And>d. unsent srv' d = unsent srv1 d @ responses.stream (filter (sends_to s d) (label (cid_next_outgoing_seq_num s1) rs))"
      "\<And>c. cid_next_outgoing_seq_num s' c = cid_next_outgoing_seq_num s1 c + of_nat (length (filter (\<lambda>r. owner r = c) rs))"
      by (auto simp: one(2))
    show ?thesis using takes_trans[OF t rs(1)] rs(2-4) one
      by (intro exI[of _ "r # rs"]) (auto simp: algebra_simps)
  qed
qed simp

lemma round_replies:
  assumes "server_round srt ev fds rx rx' (s, srv) = Inr (out, s', srv')" and "poll ev fds srv = Inr srv" and "roomy (outgoing_messages s)"
  shows "\<exists>rs. takes (outgoing_messages s) rs (outgoing_messages s') \<and> list_all (\<lambda>r. cid_to_socket s' (owner r) \<noteq> None) rs \<and>
     (\<forall>d. handed out d @ unsent srv' d = unsent srv d @ responses.stream (filter (sends_to s' d) (label (cid_next_outgoing_seq_num s) rs))) \<and>
     (\<forall>c. cid_next_outgoing_seq_num s' c = cid_next_outgoing_seq_num s c + of_nat (length (filter (\<lambda>r. owner r = c) rs)))"
proof -
  obtain got out1 srv1 s1 s2 srv2 s3 g3 where
    read: "res_fold (serve_socket recvCallbacks rx) (recv_sockets srv) (False, [], srv, s) = Inr (got, out1, srv1, s1)" and
    fin: "(if got then recvFinishedCallbacks srt s1 else Inr s1) = Inr s2" and
    again: "res_fold (serve_socket recvCallbacks rx') (send_sockets srv1) (False, out1, srv1, s2) = Inr (g3, out, srv2, s3)" and
    send: "send_responses (queue_size (outgoing_messages s3) + 1) (s3, srv2) = Inr (s', srv')"
    using assms(1,2) by (auto simp: server_round_def server_sendAndRecv_def res_bind_eq_Inr simp del: send_responses.simps)
  have "mute s1 s2" using fin by (auto simp: recvFinishedCallbacks_def mute_def split: if_splits)
  then have m: "mute s s3" "handed out d @ unsent srv2 d = unsent srv d" for d
    using serve_sockets_mute[OF read, of d] serve_sockets_mute[OF again, of d] by (simp_all add: mute_def)
  have "cid_to_socket s' = cid_to_socket s3" using send_responses_reading[OF send] by simp
  moreover from this have "sends_to s3 = sends_to s'" by (simp add: fun_eq_iff sends_to_def)
  ultimately show ?thesis using send_responses_out[OF send] assms(3) m(1) m(2)[symmetric] by (auto simp: mute_def)
qed

text \<open>With every client bound to its own socket, what goes to a socket are the responses to its client.\<close>

lemma label_share:
  assumes "bindings who ds s" and "inj_on who (set ds)" and "d \<in> set ds" and "list_all (\<lambda>r. cid_to_socket s (owner r) \<noteq> None) rs"
  shows "filter (sends_to s d) (label n rs) = numbered_responses (n (unat (who d))) (to_client (who d) rs)"
proof -
  have in_label: "ogrs_response w \<in> set rs" if "w \<in> set (label n rs)" for w n
    using that by (induction rs arbitrary: n) auto
  have "sends_to s d w \<longleftrightarrow> owner (ogrs_response w) = unat (who d)" if w: "w \<in> set (label n rs)" for w
  proof
    show "owner (ogrs_response w) = unat (who d)" if "sends_to s d w"
      using that assms(1) by (simp add: sends_to_def bindings_def)
    assume own: "owner (ogrs_response w) = unat (who d)"
    obtain e where e: "cid_to_socket s (owner (ogrs_response w)) = Some e"
      using in_label[OF w] assms(4) by (auto simp: list_all_iff)
    then have "e \<in> set ds" "unat (who d) = unat (who e)" using assms(1) own by (auto simp: bindings_def)
    then have "e = d" using inj_onD[OF assms(2), of d e] assms(3) by (simp add: word_unat_eq_iff)
    then show "sends_to s d w" using e by (simp add: sends_to_def)
  qed
  then have "filter (sends_to s d) (label n rs) = filter (\<lambda>w. owner (ogrs_response w) = unat (who d)) (label n rs)"
    by (rule filter_cong[OF refl])
  then show ?thesis by (simp add: label_client to_client_def)
qed

definition replied :: "(int \<Rightarrow> ClientId) \<Rightarrow> int list \<Rightarrow> exchange \<Rightarrow> history \<Rightarrow> traffic \<Rightarrow> bool" where
  "replied who ds y g tr \<longleftrightarrow> (case ex_server y of (s, srv) \<Rightarrow> \<forall>d\<in>set ds.
     tr_out tr d @ unsent srv d = responses.stream (numbered_responses 1 (to_client (who d) (answered g))) \<and>
     cid_next_outgoing_seq_num s (unat (who d)) = 1 + of_nat (length (to_client (who d) (answered g))))"

lemma server_turn_replied:
  assumes "exchange_inv y g" and "replied who ds y g tr" and "fed_inv srt who qs ds y' g' bs" and "inj_on who (set ds)"
    and "poll ev fds (snd (ex_server y)) = Inr (snd (ex_server y))" and "server_turn srt ev fds rx rx' y = Inr (out, y')"
    and "answered g' = answered g @ removed (outcoming_response_queue (ex_engine y)) (outcoming_response_queue (ex_engine y'))"
    and "tr_out tr' = (\<lambda>d. tr_out tr d @ handed out d)"
  shows "replied who ds y' g' tr'"
proof -
  obtain s srv where sv: "ex_server y = (s, srv)" by fastforce
  obtain s' srv' where run: "server_round srt ev fds rx rx' (s, srv) = Inr (out, s', srv')" and y': "ex_server y' = (s', srv')"
    "outcoming_response_queue (ex_engine y') = outgoing_messages s'"
    using assms(6) sv by (auto simp: server_turn_def res_bind_eq_Inr)
  have same: "outgoing_messages s = outcoming_response_queue (ex_engine y)" and room: "roomy (outcoming_response_queue (ex_engine y))"
    using assms(1) sv by (auto simp: wired_def queues_ok_def elim: exchange_invE)
  from round_replies[OF run] assms(5) sv room same obtain rs where
    t: "takes (outcoming_response_queue (ex_engine y)) rs (outgoing_messages s')" and bound: "list_all (\<lambda>r. cid_to_socket s' (owner r) \<noteq> None) rs" and
    out: "\<And>d. handed out d @ unsent srv' d = unsent srv d @ responses.stream (filter (sends_to s' d) (label (cid_next_outgoing_seq_num s) rs))" and
    n: "\<And>c. cid_next_outgoing_seq_num s' c = cid_next_outgoing_seq_num s c + of_nat (length (filter (\<lambda>r. owner r = c) rs))" by auto
  have g': "answered g' = answered g @ rs" using removed_takes[OF t] assms(7) by (simp add: y'(2))
  have b: "bindings who ds s'" using assms(3) by (simp add: fed_inv_def y'(1))
  have "tr_out tr' d @ unsent srv' d = responses.stream (numbered_responses 1 (to_client (who d) (answered g'))) \<and>
     cid_next_outgoing_seq_num s' (unat (who d)) = 1 + of_nat (length (to_client (who d) (answered g')))" if d: "d \<in> set ds" for d
  proof -
    have old: "tr_out tr d @ unsent srv d = responses.stream (numbered_responses 1 (to_client (who d) (answered g)))"
      "cid_next_outgoing_seq_num s (unat (who d)) = 1 + of_nat (length (to_client (who d) (answered g)))"
      using assms(2) d by (simp_all add: replied_def sv)
    have "tr_out tr' d @ unsent srv' d = (tr_out tr d @ unsent srv d) @
        responses.stream (numbered_responses (cid_next_outgoing_seq_num s (unat (who d))) (to_client (who d) rs))"
      using out[of d] by (simp add: assms(8) label_share[OF b assms(4) d bound])
    then show ?thesis using n[of "unat (who d)"]
      by (simp add: old g' nrs.num_append responses.stream_append) (simp add: to_client_def)
  qed
  then show ?thesis by (simp add: replied_def y'(1))
qed

lemma new_exchange_replied:
  assumes "fresh_sockets ds tcp"
  shows "replied who ds (new_exchange tcp d1 d2) no_history no_traffic"
  using assms by (auto simp: replied_def new_exchange_def Let_def fresh_sockets_def unsent_def no_history_def no_traffic_def to_client_def
      new_OrderServer_def)

lemma replied_cong:
  assumes "replied who ds y g tr" and "snd (ex_server y') = snd (ex_server y)" and "answered g' = answered g" and "tr_out tr' = tr_out tr"
    and "cid_next_outgoing_seq_num (fst (ex_server y')) = cid_next_outgoing_seq_num (fst (ex_server y))"
  shows "replied who ds y' g' tr'"
  using assms by (simp add: replied_def split_def)

lemma fed_run_replied:
  assumes "fed_run srt (new_exchange tcp d1 d2) y g tr" and "fresh_sockets ds tcp" and "time_sort srt" and "distinct ds" and "inj_on who (set ds)"
  shows "(\<forall>d\<in>set ds. carries (who d) (qs d) (tr_in tr d)) \<longrightarrow> replied who ds y g tr"
  using assms(1)
proof (induction rule: fed_run.induct)
  case fed_start
  show ?case using new_exchange_replied[OF assms(2)] by blast
next
  case (fed_engine y g tr y')
  have "snd (ex_server y') = snd (ex_server y)" "cid_next_outgoing_seq_num (fst (ex_server y')) = cid_next_outgoing_seq_num (fst (ex_server y))"
    using fed_engine.hyps(2) by (auto simp: engine_turn_def res_bind_eq_Inr split_def Let_def)
  then show ?case using fed_engine.IH replied_cong by blast
next
  case (fed_server y g tr ev fds rx rx' out y')
  note run = fed_run.fed_server[OF fed_server.hyps(1-4)]
  have inv: "exchange_inv y g" by (rule exchange_run_inv[OF fed_exchange_run[OF fed_server.hyps(1)] assms(3) new_exchange_inv])
  show ?case (is "(\<forall>d\<in>set ds. carries _ _ (tr_in ?tr d)) \<longrightarrow> replied who ds y' ?g ?tr")
  proof
    assume car: "\<forall>d\<in>set ds. carries (who d) (qs d) (tr_in ?tr d)"
    then have "\<forall>d\<in>set ds. carries (who d) (qs d) (tr_in tr d)" by (auto simp: readings_def intro: carries_prefix)
    with fed_server.IH have old: "replied who ds y g tr" by blast
    have "fed_inv srt who qs ds y' ?g (tr_in ?tr)" using fed_run_inv[OF run assms(2-5)] car by blast
    from server_turn_replied[OF inv old this assms(5) fed_server.hyps(2,3)] show "replied who ds y' ?g ?tr" by simp
  qed
next
  case (fed_publisher y g tr rx out y')
  then have "ex_server y' = ex_server y" by (auto simp: publisher_turn_def res_bind_eq_Inr)
  then show ?case using fed_publisher.IH replied_cong[of who ds y g tr y'] by simp
next
  case (fed_synthetizer y g tr now now' out y')
  then have "ex_server y' = ex_server y" by (auto simp: synthetizer_turn_def res_bind_eq_Inr)
  then show ?case using fed_synthetizer.IH replied_cong[of who ds y g tr y'] by simp
qed

section \<open>Updates\<close>

definition casting :: "exchange \<Rightarrow> history \<Rightarrow> traffic \<Rightarrow> bool" where
  "casting y g tr \<longleftrightarrow> tr_cast tr = updates.stream (numbered_updates 1 (published g)) \<and> outbound (incremental_socket (ex_publisher y)) = []"

lemma casting_cong:
  assumes "casting y g tr" and "incremental_socket (ex_publisher y') = incremental_socket (ex_publisher y)" and "published g' = published g"
    and "tr_cast tr' = tr_cast tr"
  shows "casting y' g' tr'"
  using assms by (simp add: casting_def)

lemma fed_run_casting:
  assumes "fed_run srt (new_exchange tcp d1 d2) y g tr" and "time_sort srt"
  shows "casting y g tr"
  using assms(1)
proof (induction rule: fed_run.induct)
  case fed_start
  show ?case by (simp add: casting_def no_traffic_def no_history_def new_exchange_def new_MarketDataPublisher_def mcast_init_def
        new_McastSocket_def Let_def)
next
  case (fed_engine y g tr y')
  then have "incremental_socket (ex_publisher y') = incremental_socket (ex_publisher y)"
    by (auto simp: engine_turn_def res_bind_eq_Inr split_def Let_def)
  then show ?case using casting_cong[OF fed_engine.IH] by simp
next
  case (fed_server y g tr ev fds rx rx' out y')
  then have "incremental_socket (ex_publisher y') = incremental_socket (ex_publisher y)"
    by (auto simp: server_turn_def res_bind_eq_Inr)
  then show ?case using casting_cong[OF fed_server.IH] by simp
next
  case (fed_publisher y g tr rx out y')
  have inv: "exchange_inv y g" by (rule exchange_run_inv[OF fed_exchange_run[OF fed_publisher.hyps(1)] assms(2) new_exchange_inv])
  obtain p' where run: "publisher_round rx (ex_publisher y) = Inr (out, p')" and y': "ex_publisher y' = p'"
    "market_updates_queue (ex_engine y') = outgoing_market_data p'"
    using fed_publisher.hyps(2) by (auto simp: publisher_turn_def res_bind_eq_Inr)
  have same: "outgoing_market_data (ex_publisher y) = market_updates_queue (ex_engine y)" and room: "roomy (market_updates_queue (ex_engine y))"
    and n: "next_seq_num (ex_publisher y) = 1 + of_nat (length (published g))"
    using inv by (auto simp: wired_def queues_ok_def numbers_agree_def elim: exchange_invE)
  from publisher_round_takes[OF run] same room obtain us where t: "takes (market_updates_queue (ex_engine y)) us (outgoing_market_data p')"
    and out: "out = outbound (incremental_socket (ex_publisher y)) @ updates.stream (numbered_updates (next_seq_num (ex_publisher y)) us)"
      "outbound (incremental_socket p') = []" by auto
  have "removed (market_updates_queue (ex_engine y)) (market_updates_queue (ex_engine y')) = us"
    using removed_takes[OF t] by (simp add: y'(2))
  then show ?case using fed_publisher.IH out n
    by (simp add: casting_def y'(1) nup.num_append updates.stream_append)
next
  case (fed_synthetizer y g tr now now' out y')
  then have "incremental_socket (ex_publisher y') = incremental_socket (ex_publisher y)" by (auto simp: synthetizer_turn_def res_bind_eq_Inr)
  then show ?case using casting_cong[OF fed_synthetizer.IH] by simp
qed

end
