(* ===== verification/Answers.thy ===== *)
theory Answers
  imports Delivery Replies
begin

text \<open>
  The way back: what the exchange sends to its clients and multicasts, as the gateway and the market data
  consumer of each of them read it; and with it the whole system.
\<close>

section \<open>Responses\<close>

text \<open>The gateway loses what is left over by a read (\<open>cut_response_lost\<close>); no read is to leave anything.\<close>

definition aligned :: "u8 list list \<Rightarrow> bool" where
  "aligned reads \<longleftrightarrow> list_all (\<lambda>r. length r mod response_size = 0) reads"

lemma aligned_length: "aligned reads \<Longrightarrow> length (concat reads) mod response_size = 0"
  by (induction reads) (simp_all add: aligned_def mod_add_eq[symmetric])

lemma drop_multiple:
  assumes "length bs mod k = 0"
  shows "drop (length bs div k * k) bs = []"
  using div_mult_mod_eq[of "length bs" k] assms by simp

lemma send_requests_buffer: "send_requests n (k, g) = Inr (k', g') \<Longrightarrow> recv_buffer k' = recv_buffer k"
proof (induction n arbitrary: k g)
  case (Suc n)
  show ?case
  proof (cases "getNextRead (OrderGateway.outgoing_requests g)")
    case None
    then show ?thesis using Suc.prems by simp
  next
    case (Some q)
    then obtain k1 k2 g2 where step: "tcp_send (put64 (next_outgoing_seq_num g)) k = Inr k1" "tcp_send (encode_me_request q) k1 = Inr k2"
      "send_requests n (k2, g2) = Inr (k', g')" using Suc.prems by (auto simp: res_bind_eq_Inr)
    then show ?thesis using Suc.IH[OF step(3)] by (auto simp: tcp_send_def ensure_def split: if_splits)
  qed
qed simp

lemma gateway_hears:
  assumes "gateway_round rx (k, g) = Inr (out, k', g')" and "roomy (OrderGateway.outgoing_requests g)" and "recv_buffer k = []"
    and "take (TCPBufferSize - length (recv_buffer k)) (fst rx) = responses.stream (numbered_responses (next_incoming_seq_num g) rs)"
    and "list_all (\<lambda>r. response_wf r \<and> rs_client_id r = gw_client_id g) rs"
  shows "recv_buffer k' = [] \<and> OrderGateway.incoming_responses g' = fold push rs (OrderGateway.incoming_responses g)"
proof -
  let ?r = "responses.stream (numbered_responses (next_incoming_seq_num g) rs)"
  let ?g = "g\<lparr>next_incoming_seq_num := next_incoming_seq_num g + of_nat (length rs),
      OrderGateway.incoming_responses := fold push rs (OrderGateway.incoming_responses g)\<rparr>"
  have wf: "list_all response_wf rs" "list_all (\<lambda>r. rs_client_id r = gw_client_id g) rs" using assms(5) by (simp_all add: list_all_iff)
  obtain k1 g1 where io: "(if ?r \<noteq> [] then gateway_recvCallback (snd rx) (k\<lparr>recv_buffer := ?r\<rparr>) g else Inr (k, g)) = Inr (k1, g1)"
    and s: "send_requests (queue_size (OrderGateway.outgoing_requests g1) + 1) (k1\<lparr>send_buffer := []\<rparr>, g1) = Inr (k', g')"
  proof -
    have "tcp_sendAndRecv gateway_recvCallback rx k g =
        res_bind (if ?r \<noteq> [] then gateway_recvCallback (snd rx) (k\<lparr>recv_buffer := ?r\<rparr>) g else Inr (k, g))
          (\<lambda>(k, g). Inr (?r \<noteq> [], send_buffer k, k\<lparr>send_buffer := []\<rparr>, g))"
      unfolding tcp_sendAndRecv_def assms(4) Let_def unfolding assms(3) append_Nil ..
    then show thesis using assms(1) that
      by (auto simp: gateway_round_def res_bind_eq_Inr simp del: send_requests.simps)
  qed
  have "recv_buffer k1 = [] \<and> OrderGateway.incoming_responses g1 = OrderGateway.incoming_responses ?g \<and>
      OrderGateway.outgoing_requests g1 = OrderGateway.outgoing_requests g"
  proof (cases "rs = []")
    case True
    then show ?thesis using io assms(3) by simp
  next
    case False
    have "length ?r = length rs * response_size" by (simp add: responses.stream_length)
    then have "?r \<noteq> []" using False by (auto simp: response_size_def)
    then show ?thesis using io gateway_recv_numbered[OF wf(1), of "k\<lparr>recv_buffer := ?r\<rparr>"] gateway_accept_numbered[OF wf(2)] by auto
  qed
  then show ?thesis using send_requests_takes[OF s] send_requests_buffer[OF s] assms(2) by auto
qed

text \<open>What the client has accepted of the responses \<open>rs\<close>, once the given reads have been taken.\<close>

definition hearing :: "MEClientResponse list \<Rightarrow> 'd client \<Rightarrow> client_history \<Rightarrow> bool" where
  "hearing rs x h \<longleftrightarrow> recv_buffer (fst (cl_gateway x)) = [] \<and> ch_accepted h = take (length (concat (ch_reads h)) div response_size) rs"

lemma hearing_cong:
  assumes "hearing rs x h" and "recv_buffer (fst (cl_gateway x')) = recv_buffer (fst (cl_gateway x))"
    and "ch_accepted h' = ch_accepted h" and "ch_reads h' = ch_reads h"
  shows "hearing rs x' h'"
  using assms by (simp add: hearing_def)

lemma gateway_turn_hearing:
  assumes "client_inv F e0 c x h" and "gateway_turn rx x = Inr (out, x')" and "client_unfilled x'" and "hearing rs x h"
    and "aligned (ch_reads h @ [gateway_takes rx x])" and "list_all (\<lambda>r. response_wf r \<and> rs_client_id r = c) rs"
    and "concat (ch_reads h @ [gateway_takes rx x]) @ rest = responses.stream (numbered_responses 1 rs)"
    and "ch_accepted h' = ch_accepted h @ added (TradeEngine.incoming_responses (cl_engine x)) (TradeEngine.incoming_responses (cl_engine x'))"
    and "ch_reads h' = ch_reads h @ [gateway_takes rx x]"
  shows "hearing rs x' h'"
proof -
  obtain k g where kg: "cl_gateway x = (k, g)" by fastforce
  obtain k' g' where run: "gateway_round rx (k, g) = Inr (out, k', g')" and x': "cl_gateway x' = (k', g')"
    "TradeEngine.incoming_responses (cl_engine x') = OrderGateway.incoming_responses g'"
    using assms(2) kg by (auto simp: gateway_turn_def res_bind_eq_Inr)
  let ?bs = "concat (ch_reads h)" and ?new = "gateway_takes rx x"
  define n where "n = length ?bs div response_size"
  define m where "m = length (?bs @ ?new) div response_size"
  have rest: "(?bs @ ?new) @ rest = responses.stream (numbered_responses 1 rs)" using assms(7) by simp
  have zero: "length ?bs mod response_size = 0" "length (?bs @ ?new) mod response_size = 0"
    using aligned_length[of "ch_reads h"] aligned_length[OF assms(5)] assms(5) by (simp_all add: aligned_def)
  have le: "n \<le> m" "m \<le> length rs"
    using responses.stream_cut(1)[OF rest m_def] by (simp_all add: n_def m_def div_le_mono)
  let ?new_rs = "drop n (take m rs)"
  have none: "drop (n * response_size) ?bs = []" "drop (m * response_size) (?bs @ ?new) = []"
    unfolding n_def m_def by (rule drop_multiple[OF zero(1)], rule drop_multiple[OF zero(2)])
  have new: "?new = responses.stream (numbered_responses (1 + of_nat n) ?new_rs)"
    using responses.stream_next[OF rest] none unfolding n_def[symmetric] m_def[symmetric] by (simp add: nrs.num_take nrs.num_drop)
  have inv: "linked x" "client_queues_ok x" "on_wire c x h" using assms(1) by (simp_all add: client_inv_def)
  have old: "recv_buffer k = []" "ch_accepted h = take n rs" using assms(4) by (simp_all add: hearing_def kg n_def)
  have g: "next_incoming_seq_num g = 1 + of_nat n" "gw_client_id g = c" "roomy (OrderGateway.outgoing_requests g)"
    "OrderGateway.incoming_responses g = TradeEngine.incoming_responses (cl_engine x)" "roomy (TradeEngine.incoming_responses (cl_engine x))"
    using inv old(2) le by (simp_all add: on_wire_def kg linked_def client_queues_ok_def min_absorb1)
  have own: "list_all (\<lambda>r. response_wf r \<and> rs_client_id r = gw_client_id g) ?new_rs"
    using assms(6) by (auto simp: g(2) list_all_iff dest: in_set_dropD in_set_takeD)
  have taken: "take (TCPBufferSize - length (recv_buffer k)) (fst rx) = responses.stream (numbered_responses (next_incoming_seq_num g) ?new_rs)"
    using new by (simp add: gateway_takes_def kg g(1))
  have heard: "recv_buffer k' = []" "OrderGateway.incoming_responses g' = fold push ?new_rs (TradeEngine.incoming_responses (cl_engine x))"
    using gateway_hears[OF run g(3) old(1) taken own] by (simp_all add: g(4))
  have "contents (OrderGateway.incoming_responses g') = contents (TradeEngine.incoming_responses (cl_engine x)) @ ?new_rs"
    using roomy_push(2)[OF g(5)] assms(3) unfolding heard(2) by (simp add: client_unfilled_def x'(2) heard(2))
  then have "ch_accepted h' = take n rs @ ?new_rs" using added_push assms(8) old(2) by (simp add: x'(2))
  also have "\<dots> = take m rs" using le(1) by (metis append_take_drop_id min.absorb1 take_take)
  finally show ?thesis using heard(1) by (simp add: hearing_def x'(1) assms(9) m_def)
qed

lemma client_run_hearing:
  assumes "client_run F x0 x h" and "x0 = new_client F orders0 levels0 now rands c algo cfg d d'"
    and "list_all (\<lambda>r. response_wf r \<and> rs_client_id r = c) rs"
  shows "aligned (ch_reads h) \<longrightarrow> (\<exists>rest. concat (ch_reads h) @ rest = responses.stream (numbered_responses 1 rs)) \<longrightarrow> hearing rs x h"
  using assms(1)
proof (induction rule: client_run.induct)
  case client_start
  show ?case by (simp add: hearing_def assms(2) new_client_def new_TCPSocket_def no_client_history_def Let_def)
next
  case (client_trades x h now now' rands x')
  then have "fst (cl_gateway x') = fst (cl_gateway x)" by (auto simp: trade_turn_def res_bind_eq_Inr)
  then show ?case using client_trades.IH hearing_cong[of rs x h x'] by simp
next
  case (client_gateway x h rx out x')
  have inv: "client_inv F (cl_engine x0) c x h" by (rule client_run_inv[OF client_gateway.hyps(1) new_client_inv[OF assms(2)]])
  show ?case (is "aligned (ch_reads ?h) \<longrightarrow> _ \<longrightarrow> _")
  proof (intro impI)
    assume al: "aligned (ch_reads ?h)" and "\<exists>rest. concat (ch_reads ?h) @ rest = responses.stream (numbered_responses 1 rs)"
    then obtain rest where rest: "concat (ch_reads h @ [gateway_takes rx x]) @ rest = responses.stream (numbered_responses 1 rs)" by auto
    have "hearing rs x h" using client_gateway.IH al rest by (auto simp: aligned_def)
    from gateway_turn_hearing[OF inv client_gateway.hyps(2,3) this _ assms(3) rest] al show "hearing rs x' ?h" by simp
  qed
next
  case (client_consumer x h net rx rx' x')
  then have "cl_gateway x' = cl_gateway x" by (auto simp: consumer_turn_def res_bind_eq_Inr)
  then show ?case using client_consumer.IH hearing_cong[of rs x h x'] by simp
qed

section \<open>Updates\<close>

text \<open>While nothing is lost a round of the consumer hands on what the datagram completes; the snapshot stream is thrown away.\<close>

definition level_with :: "u8 list \<Rightarrow> u64 \<Rightarrow> MarketDataConsumer \<Rightarrow> bool" where
  "level_with bs n c \<longleftrightarrow> \<not> packet_lost c \<and> socket_fd (in_incremental c) \<noteq> socket_fd (in_snapshot c) \<and>
     inbound (in_incremental c) = bs \<and> exp_seq_num c = n"

lemma poll_incremental:
  assumes "consumer_poll net False rx c = Inr c'" and "level_with bs n c"
    and "bs @ take (McastBufferSize - length bs) rx = updates.stream (numbered_updates n us) @ tail"
    and "length tail < update_size" and "length bs < update_size" and "list_all update_wf us"
  shows "level_with tail (n + of_nat (length us)) c' \<and> incoming_market_update_queue c' = fold push us (incoming_market_update_queue c)"
proof -
  let ?r = "take (McastBufferSize - length bs) rx"
  have c: "\<not> packet_lost c" "socket_fd (in_incremental c) \<noteq> socket_fd (in_snapshot c)" "inbound (in_incremental c) = bs" "exp_seq_num c = n"
    using assms(2) by (simp_all add: level_with_def)
  show ?thesis
  proof (cases "?r = []")
    case True
    have "length (updates.stream (numbered_updates n us)) < update_size" using arg_cong[OF assms(3), of length] True assms(5) by simp
    then have "us = []" by (simp add: updates.stream_length update_size_def)
    moreover have "c' = set_sock False ((in_incremental c)\<lparr>outbound := []\<rparr>) c"
      using assms(1) True c(3) by (simp add: consumer_poll_def mcast_sendAndRecv_def sock_of_def Let_def)
    ultimately show ?thesis using c assms(3) True by (simp add: level_with_def set_sock_def)
  next
    case False
    define c0 where "c0 = c\<lparr>in_incremental := (in_incremental c)\<lparr>inbound := bs @ ?r\<rparr>\<rparr>"
    define c1 where "c1 = c0\<lparr>packet_lost := False, exp_seq_num := n + of_nat (length us),
      incoming_market_update_queue := fold push us (incoming_market_update_queue c)\<rparr>"
    have "res_fold (consume net False) (numbered_updates n us) c0 = Inr c1"
      using consume_all_in_order[of c0 net us] c by (simp add: c0_def c1_def)
    then have "read_frames update_size (\<lambda>f. consume net False (decode_update f)) (bs @ ?r) c0 = Inr (tail, c1)"
      using read_update_stream[OF assms(6,4), of "consume net False" n c0] unfolding assms(3) by simp
    then have "consumer_recvCallbacks net False c0 = Inr (c1\<lparr>in_incremental := (in_incremental c1)\<lparr>inbound := tail\<rparr>\<rparr>)"
      using c by (simp add: consumer_recvCallbacks_def sock_of_def set_sock_def c0_def c1_def Let_def)
    then have "c' = c1\<lparr>in_incremental := (in_incremental c1)\<lparr>inbound := tail, outbound := []\<rparr>\<rparr>"
      using assms(1) False c(3) by (simp add: consumer_poll_def mcast_sendAndRecv_def sock_of_def set_sock_def c0_def Let_def)
    then show ?thesis using c by (simp add: level_with_def c1_def c0_def)
  qed
qed

lemma poll_discards_snapshot:
  assumes "consumer_poll net True rx c = Inr c'" and "level_with bs n c"
  shows "level_with bs n c' \<and> incoming_market_update_queue c' = incoming_market_update_queue c"
  using assms by (auto simp: consumer_poll_def mcast_sendAndRecv_def sock_of_def set_sock_def consumer_recvCallbacks_def level_with_def
      Let_def res_bind_eq_Inr split: if_splits)

definition following :: "MEMarketUpdate list \<Rightarrow> 'd client \<Rightarrow> client_history \<Rightarrow> bool" where
  "following us x h \<longleftrightarrow> (let bs = concat (ch_datagrams h); n = length bs div update_size in
     level_with (drop (n * update_size) bs) (1 + of_nat n) (cl_consumer x) \<and> ch_handed h = take n us)"

lemma following_cong:
  assumes "following us x h" and "\<And>bs n. level_with bs n (cl_consumer x') = level_with bs n (cl_consumer x)"
    and "ch_handed h' = ch_handed h" and "ch_datagrams h' = ch_datagrams h"
  shows "following us x' h'"
  using assms by (simp add: following_def Let_def)

lemma consumer_turn_following:
  assumes "client_inv F e0 c x h" and "consumer_turn net rx rx' x = Inr x'" and "client_unfilled x'" and "following us x h"
    and "list_all update_wf us" and "concat (ch_datagrams h @ [consumer_takes rx x]) @ rest = updates.stream (numbered_updates 1 us)"
    and "ch_handed h' = ch_handed h @ added (incoming_market_updates (cl_engine x)) (incoming_market_updates (cl_engine x'))"
    and "ch_datagrams h' = ch_datagrams h @ [consumer_takes rx x]"
  shows "following us x' h'"
proof -
  let ?bs = "concat (ch_datagrams h)" and ?new = "consumer_takes rx x"
  define n where "n = length ?bs div update_size"
  define m where "m = length (?bs @ ?new) div update_size"
  have rest: "(?bs @ ?new) @ rest = updates.stream (numbered_updates 1 us)" using assms(6) by simp
  have old_rest: "?bs @ (?new @ rest) = updates.stream (numbered_updates 1 us)" using assms(6) by simp
  have le: "n \<le> m" "m \<le> length us"
    using updates.stream_cut(1)[OF rest m_def] by (simp_all add: n_def m_def div_le_mono)
  let ?tail = "drop (n * update_size) ?bs" and ?tail' = "drop (m * update_size) (?bs @ ?new)" and ?us = "drop n (take m us)"
  have tails: "length ?tail < update_size" "length ?tail' < update_size"
    using updates.stream_cut(3)[OF old_rest n_def] updates.stream_cut(3)[OF rest m_def] by simp_all
  obtain c1 c2 where poll: "consumer_poll net False rx (cl_consumer x) = Inr c1" "consumer_poll net True rx' c1 = Inr c2" and
    x': "cl_consumer x' = c2" "incoming_market_updates (cl_engine x') = incoming_market_update_queue c2"
    using assms(2) by (auto simp: consumer_turn_def consumer_round_def res_bind_eq_Inr)
  have old: "level_with ?tail (1 + of_nat n) (cl_consumer x)" "ch_handed h = take n us"
    using assms(4) by (simp_all add: following_def Let_def n_def)
  have "?new = take (McastBufferSize - length ?tail) rx" using old(1) by (simp add: consumer_takes_def level_with_def)
  then have joined: "?tail @ take (McastBufferSize - length ?tail) rx = updates.stream (numbered_updates (1 + of_nat n) ?us) @ ?tail'"
    using updates.stream_next[OF rest] unfolding n_def[symmetric] m_def[symmetric] by (simp add: nup.num_take nup.num_drop)
  have wf: "list_all update_wf ?us" using assms(5) by (auto simp: list_all_iff dest: in_set_dropD in_set_takeD)
  from poll_incremental[OF poll(1) old(1) joined tails(2,1) wf] have
    c1: "level_with ?tail' (1 + of_nat n + of_nat (length ?us)) c1" "incoming_market_update_queue c1 = fold push ?us (incoming_market_update_queue (cl_consumer x))"
    by simp_all
  have num: "(1 :: u64) + of_nat n + of_nat (length ?us) = 1 + of_nat m"
  proof -
    have "n + length ?us = m" using le by (simp add: min_absorb2)
    then show ?thesis by (metis add.assoc of_nat_add)
  qed
  have q: "roomy (incoming_market_updates (cl_engine x))" "incoming_market_update_queue (cl_consumer x) = incoming_market_updates (cl_engine x)"
    using assms(1) by (simp_all add: client_inv_def client_queues_ok_def linked_def)
  have c2: "level_with ?tail' (1 + of_nat m) c2" "incoming_market_update_queue c2 = fold push ?us (incoming_market_updates (cl_engine x))"
    using poll_discards_snapshot[OF poll(2) c1(1)] c1(2) unfolding num by (simp_all add: q(2))
  have "contents (incoming_market_update_queue c2) = contents (incoming_market_updates (cl_engine x)) @ ?us"
    using roomy_push(2)[OF q(1)] assms(3) unfolding c2(2) by (simp add: client_unfilled_def x'(2) c2(2))
  then have "ch_handed h' = take n us @ ?us" using added_push assms(7) old(2) by (simp add: x'(2))
  also have "\<dots> = take m us" using le(1) by (metis append_take_drop_id min.absorb1 take_take)
  finally show ?thesis using c2(1) by (simp add: following_def Let_def x'(1) assms(8) m_def)
qed

lemma client_run_following:
  assumes "client_run F x0 x h" and "x0 = new_client F orders0 levels0 now rands c algo cfg d d'" and "d' \<noteq> -1" and "list_all update_wf us"
  shows "(\<exists>rest. concat (ch_datagrams h) @ rest = updates.stream (numbered_updates 1 us)) \<longrightarrow> following us x h"
  using assms(1)
proof (induction rule: client_run.induct)
  case client_start
  show ?case using assms(3) by (simp add: following_def level_with_def assms(2) new_client_def new_MarketDataConsumer_def mcast_init_def
        new_McastSocket_def no_client_history_def Let_def)
next
  case (client_trades x h now now' rands x')
  then have "level_with bs n (cl_consumer x') = level_with bs n (cl_consumer x)" for bs n
    by (auto simp: trade_turn_def res_bind_eq_Inr level_with_def)
  then show ?case using client_trades.IH following_cong[of us x h x'] by simp
next
  case (client_gateway x h rx out x')
  then have "cl_consumer x' = cl_consumer x" by (auto simp: gateway_turn_def res_bind_eq_Inr)
  then show ?case using client_gateway.IH following_cong[of us x h x'] by simp
next
  case (client_consumer x h net rx rx' x')
  have inv: "client_inv F (cl_engine x0) c x h" by (rule client_run_inv[OF client_consumer.hyps(1) new_client_inv[OF assms(2)]])
  show ?case (is "(\<exists>rest. concat (ch_datagrams ?h) @ rest = _) \<longrightarrow> _")
  proof
    assume "\<exists>rest. concat (ch_datagrams ?h) @ rest = updates.stream (numbered_updates 1 us)"
    then obtain rest where rest: "concat (ch_datagrams h @ [consumer_takes rx x]) @ rest = updates.stream (numbered_updates 1 us)" by auto
    have "following us x h" using client_consumer.IH rest by auto
    from consumer_turn_following[OF inv client_consumer.hyps(2,3) this assms(4) rest] show "following us x' ?h" by simp
  qed
qed

section \<open>The whole system\<close>

lemma client_reads_all:
  assumes "started F c x0" and run: "client_run F x0 x h" and "aligned (ch_reads h)"
    and own: "list_all (\<lambda>r. response_wf r \<and> rs_client_id r = c) rs"
    and "\<exists>rest. concat (ch_reads h) @ rest = responses.stream (numbered_responses 1 rs)"
    and "socket_fd (in_incremental (cl_consumer x0)) \<noteq> -1" and "list_all update_wf us"
    and "\<exists>rest. concat (ch_datagrams h) @ rest = updates.stream (numbered_updates 1 us)"
  shows "\<exists>evs issued. res_fold (desk_step F) evs (desk (cl_engine x0), []) = Inr (desk (cl_engine x), issued) \<and>
       issued = ch_sent h @ contents (TradeEngine.outgoing_requests (cl_engine x)) \<and>
       responses_in evs @ contents (TradeEngine.incoming_responses (cl_engine x)) =
         take (length (concat (ch_reads h)) div response_size) rs \<and>
       updates_in evs @ contents (incoming_market_updates (cl_engine x)) =
         take (length (concat (ch_datagrams h)) div update_size) us"
proof -
  obtain orders0 levels0 now rands algo cfg k k' where x0: "x0 = new_client F orders0 levels0 now rands c algo cfg k k'"
    using assms(1) by (auto simp: started_def)
  have cinv: "client_inv F (cl_engine x0) c x h" by (rule client_run_inv[OF run new_client_inv[OF x0]])
  then obtain evs where evs: "res_fold (desk_step F) evs (desk (cl_engine x0), []) = Inr (desk (cl_engine x), ch_issued h)"
    "responses_in evs = ch_heard h" "updates_in evs = ch_seen h" by (auto simp: client_inv_def desk_log_def)
  have passed: "ch_issued h = ch_sent h @ contents (TradeEngine.outgoing_requests (cl_engine x))"
    "ch_accepted h = ch_heard h @ contents (TradeEngine.incoming_responses (cl_engine x))"
    "ch_handed h = ch_seen h @ contents (incoming_market_updates (cl_engine x))"
    using cinv by (simp_all add: client_inv_def passed_on_def)
  have "socket_fd (in_incremental (cl_consumer x0)) = k'"
    by (simp add: x0 new_client_def new_MarketDataConsumer_def mcast_init_def new_McastSocket_def Let_def)
  with assms(6) have fd: "k' \<noteq> -1" by simp
  have "hearing rs x h" using client_run_hearing[OF run x0 own] assms(3,5) by blast
  moreover have "following us x h" using client_run_following[OF run x0 fd assms(7)] assms(8) by blast
  ultimately show ?thesis using evs passed
    by (intro exI[of _ evs] exI[of _ "ch_issued h"]) (simp add: hearing_def following_def Let_def)
qed

text \<open>C4: the same system in both directions. When no read of a client's gateway cuts a response and no datagram is lost,
  the responses that the trading desk of each client has handled or has waiting are the first ones that the
  matching engine gave for this client, as many as have arrived, and the updates are the first ones it
  published: in order, none missing, none repeated; the desk's requests are those of \<open>desks_reach_books\<close>.\<close>

theorem desks_hear_engine:
  assumes "fed_run srt (new_exchange tcp d1 d2) y g tr" and "time_sort srt"
    and "fresh_sockets ds tcp" and "distinct ds" and "inj_on who (set ds)"
    and "\<forall>d\<in>set ds. started F (who d) (x0 d) \<and> client_run F (x0 d) (x d) (h d) \<and> (\<exists>rest. tr_in tr d @ rest = ch_wire (h d))"
    and "\<forall>d\<in>set ds. aligned (ch_reads (h d)) \<and> (\<exists>rest. concat (ch_reads (h d)) @ rest = tr_out tr d)"
    and "\<forall>d\<in>set ds. socket_fd (in_incremental (cl_consumer (x0 d))) \<noteq> -1 \<and> (\<exists>rest. concat (ch_datagrams (h d)) @ rest = tr_cast tr)"
    and "list_all response_wf (answered g)" and "list_all update_wf (published g)"
  shows "(\<exists>served. sequenced g = served @ contents (incoming_request_queue (ex_engine y)) \<and>
       res_fold log_request served new_log = Inr \<lparr>lg_books = ticker_order_book (ex_engine y),
         lg_responses = answered g @ contents (outcoming_response_queue (ex_engine y)),
         lg_updates = published g @ contents (market_updates_queue (ex_engine y))\<rparr>) \<and>
     (\<forall>d\<in>set ds. \<exists>evs issued. res_fold (desk_step F) evs (desk (cl_engine (x0 d)), []) = Inr (desk (cl_engine (x d)), issued) \<and>
       mset (of_client (who d) (sequenced g)) = mset (take (whole (tr_in tr d)) issued) \<and>
       responses_in evs @ contents (TradeEngine.incoming_responses (cl_engine (x d))) =
         take (length (concat (ch_reads (h d))) div response_size) (to_client (who d) (answered g)) \<and>
       updates_in evs @ contents (incoming_market_updates (cl_engine (x d))) =
         take (length (concat (ch_datagrams (h d))) div update_size) (published g))"
proof -
  have sent: "carries (who d) (ch_sent (h d)) (tr_in tr d)" if "d \<in> set ds" for d
    using that assms(6) client_carries by metis
  have inv: "exchange_inv y g" by (rule exchange_run_inv[OF fed_exchange_run[OF assms(1)] assms(2) new_exchange_inv])
  have fed: "fed_inv srt who (\<lambda>d. ch_sent (h d)) ds y g (tr_in tr)" and rep: "replied who ds y g tr"
    using fed_run_inv[OF assms(1,3,2,4,5), of "\<lambda>d. ch_sent (h d)"] fed_run_replied[OF assms(1,3,2,4,5), of "\<lambda>d. ch_sent (h d)"] sent by blast+
  have cast: "tr_cast tr = updates.stream (numbered_updates 1 (published g))"
    using fed_run_casting[OF assms(1,2)] by (simp add: casting_def)
  have "\<exists>evs issued. res_fold (desk_step F) evs (desk (cl_engine (x0 d)), []) = Inr (desk (cl_engine (x d)), issued) \<and>
       mset (of_client (who d) (sequenced g)) = mset (take (whole (tr_in tr d)) issued) \<and>
       responses_in evs @ contents (TradeEngine.incoming_responses (cl_engine (x d))) =
         take (length (concat (ch_reads (h d))) div response_size) (to_client (who d) (answered g)) \<and>
       updates_in evs @ contents (incoming_market_updates (cl_engine (x d))) =
         take (length (concat (ch_datagrams (h d))) div update_size) (published g)" if d: "d \<in> set ds" for d
  proof -
    obtain rest where rest: "concat (ch_reads (h d)) @ rest = tr_out tr d" using assms(7) d by blast
    have "tr_out tr d @ unsent (snd (ex_server y)) d = responses.stream (numbered_responses 1 (to_client (who d) (answered g)))"
      using rep d by (auto simp: replied_def split: prod.splits)
    then have out: "\<exists>rest. concat (ch_reads (h d)) @ rest = responses.stream (numbered_responses 1 (to_client (who d) (answered g)))"
      unfolding rest[symmetric] by (metis append_assoc)
    have own: "list_all (\<lambda>r. response_wf r \<and> rs_client_id r = who d) (to_client (who d) (answered g))"
      using assms(9) by (auto simp: to_client_def list_all_iff word_unat_eq_iff)
    have "share srt (who d) (ch_sent (h d)) (tr_in tr d) (sequenced g)" using fed d by (auto simp: fed_inv_def split: prod.splits)
    then have share: "mset (of_client (who d) (sequenced g)) = mset (take (whole (tr_in tr d)) (ch_sent (h d)))" by (simp add: share_def)
    have "\<exists>evs issued. res_fold (desk_step F) evs (desk (cl_engine (x0 d)), []) = Inr (desk (cl_engine (x d)), issued) \<and>
       issued = ch_sent (h d) @ contents (TradeEngine.outgoing_requests (cl_engine (x d))) \<and>
       responses_in evs @ contents (TradeEngine.incoming_responses (cl_engine (x d))) =
         take (length (concat (ch_reads (h d))) div response_size) (to_client (who d) (answered g)) \<and>
       updates_in evs @ contents (incoming_market_updates (cl_engine (x d))) =
         take (length (concat (ch_datagrams (h d))) div update_size) (published g)"
      by (rule client_reads_all[OF _ _ _ own out _ assms(10)]) (use assms(6-8) d cast in metis)+
    then obtain evs issued where read: "res_fold (desk_step F) evs (desk (cl_engine (x0 d)), []) = Inr (desk (cl_engine (x d)), issued)"
        "issued = ch_sent (h d) @ contents (TradeEngine.outgoing_requests (cl_engine (x d)))" and
      heard: "responses_in evs @ contents (TradeEngine.incoming_responses (cl_engine (x d))) =
        take (length (concat (ch_reads (h d))) div response_size) (to_client (who d) (answered g))"
        "updates_in evs @ contents (incoming_market_updates (cl_engine (x d))) =
        take (length (concat (ch_datagrams (h d))) div update_size) (published g)" by metis
    then show ?thesis using share carries_whole[OF sent[OF d]]
      by (intro exI[where x=evs] exI[where x=issued]) simp
  qed
  then show ?thesis using inv by (auto simp: exchange_inv_def serves_def)
qed

section \<open>An order and its answer\<close>

lemma quiet_turn:
  assumes "exchange_inv y g" and "unfilled y" and "ex_server y = (s, srv)" and "recv_sockets srv = [d]" and "send_sockets srv = []"
    and "all_sockets srv d = Some k" and "send_responses (queue_size (outgoing_messages s) + 1)
        (s, srv\<lparr>all_sockets := (all_sockets srv)(d := Some (k\<lparr>send_buffer := []\<rparr>))\<rparr>) = Inr (s', srv')"
  shows "\<exists>y'. server_turn srt (Some []) [] nothing_read nothing_read y = Inr ([(d, send_buffer k)], y') \<and> unfilled y' \<and>
    ex_server y' = (s', srv') \<and> outcoming_response_queue (ex_engine y') = outgoing_messages s'"
proof -
  have same: "incoming_request (fifo_sequencer s) = incoming_request_queue (ex_engine y)" "outgoing_messages s = outcoming_response_queue (ex_engine y)"
    and room: "roomy (outcoming_response_queue (ex_engine y))"
    using assms(1,3) by (auto simp: wired_def queues_ok_def elim: exchange_invE)
  have fifo: "fifo_sequencer s' = fifo_sequencer s" using send_responses_reading[OF assms(7)] by simp
  obtain rs where "takes (outgoing_messages s) rs (outgoing_messages s')" using send_responses_out[OF assms(7)] room same(2) by auto
  then have "roomy (outgoing_messages s')" using takes_roomy room same(2) by metis
  moreover have "server_round srt (Some []) [] nothing_read nothing_read (s, srv) = Inr ([(d, send_buffer k)], s', srv')"
    using turn_without_request[where rx=nothing_read and rx'=nothing_read, OF assms(4,5,6), of 0 srt s] assms(7)
    by (simp add: nothing_read_def)
  ultimately show ?thesis using assms(2,3) same(1) by (simp add: server_turn_def unfilled_def fifo roomy_def)
qed

lemma random_order_servable: "servable random_order (ex_engine (with_request 7 random_order sample_exchange))"
proof -
  have "servable random_order exchange_engine"
    by (simp add: servable_def exchange_engine_def new_engine_def admissible_new in_index_def Let_def size_defs
        random_order_def random_request_def new_RandomTrader_def) (simp add: new_MEOrderBook_def)
  then show ?thesis unfolding servable_def with_random_order(5) .
qed

lemma engine_turn_poll:
  assumes "engine_poll (ex_engine y) = Inr e"
  shows "\<exists>y'. engine_turn y = Inr y' \<and> ex_engine y' = e \<and> ex_synthetizer y' = ex_synthetizer y \<and>
    (\<exists>f rs. ex_server y' = ((fst (ex_server y))\<lparr>fifo_sequencer := f, outgoing_messages := rs\<rparr>, snd (ex_server y)))"
proof (cases "ex_server y")
  case (Pair s srv)
  define y' where "y' = y\<lparr>ex_engine := e,
      ex_server := (s\<lparr>fifo_sequencer := (fifo_sequencer s)\<lparr>incoming_request := incoming_request_queue e\<rparr>,
        outgoing_messages := outcoming_response_queue e\<rparr>, srv),
      ex_publisher := (ex_publisher y)\<lparr>outgoing_market_data := market_updates_queue e\<rparr>\<rparr>"
  have "engine_turn y = Inr y'" unfolding engine_turn_def assms Pair y'_def by simp
  moreover have "ex_engine y' = e" "ex_synthetizer y' = ex_synthetizer y" by (simp_all add: y'_def)
  moreover have "ex_server y' = ((fst (ex_server y))\<lparr>fifo_sequencer := (fifo_sequencer s)\<lparr>incoming_request := incoming_request_queue e\<rparr>,
      outgoing_messages := outcoming_response_queue e\<rparr>, snd (ex_server y))" by (simp add: y'_def Pair)
  ultimately show ?thesis by blast
qed

lemma random_order_served:
  "\<exists>y g tr r. fed_run (sort_key fst) sample_exchange y g tr \<and> unfilled y \<and> tr_in tr = readings order_read sample_tcp (\<lambda>_. []) \<and>
     tr_cast tr = [] \<and> answered g = [] \<and> published g = [] \<and> contents (outcoming_response_queue (ex_engine y)) = [r] \<and>
     answer_to random_order r \<and> response_wf r \<and> (\<exists>s. ex_server y = (s, sample_tcp) \<and> cid_to_socket s 4 = Some 7)"
proof -
  let ?y = "with_request 7 random_order sample_exchange"
  obtain g tr where run: "fed_run (sort_key fst) sample_exchange ?y g tr" "unfilled ?y" "tr_in tr = readings order_read sample_tcp (\<lambda>_. [])"
    "tr_cast tr = []" "answered g = []" "published g = []" using random_order_read by blast
  have big: "1 < ME_MAX_CLIENTS_UPDATES" "1 < ME_MAX_MARKET_UPDATES" by (simp_all add: size_defs)
  have nums: "num_elements (newQueue v n) = 0" "store_size (newQueue v n) = n" for v :: 'b and n by (simp_all add: newQueue_def)
  note q = newQueue_push[OF big(1), of random_order default_request]
  have ok: "engine_ok (ex_engine ?y)" using exchange_engine_ok with_random_order(5) by (simp add: engine_ok_def slot_ok_def)
  have rq: "roomy (incoming_request_queue (ex_engine ?y))" "contents (incoming_request_queue (ex_engine ?y)) = [random_order]"
    using q big unfolding with_random_order roomy_def by (simp_all add: nums)
  have empty: "orders_of (ticker_order_book exchange_engine 0) = []" by (simp add: exchange_engine_def new_engine_def resting_abs[symmetric] abs_new)
  from engine_serves_queued[OF ok random_order_servable refl rq] obtain q' b where
    poll: "engine_poll (ex_engine ?y) = Inr ((deliver 0 b (ex_engine ?y))\<lparr>incoming_request_queue := q'\<rparr>)" "roomy q'"
      "length (sent_responses b) \<le> 1" "length (sent_updates b) \<le> 1" "list_all response_wf (sent_responses b)" and
    ans: "\<exists>r rs. sent_responses b = r # rs \<and> answer_to random_order r"
    by (auto simp: random_order_facts with_random_order(5) empty)
  from ans poll(3) obtain r where r: "sent_responses b = [r]" "answer_to random_order r" by auto
  define e2 where "e2 = (deliver 0 b (ex_engine ?y))\<lparr>incoming_request_queue := q'\<rparr>"
  have e2: "incoming_request_queue e2 = q'" "outcoming_response_queue e2 = push r (newQueue default_response ME_MAX_CLIENTS_UPDATES)"
    "market_updates_queue e2 = fold push (sent_updates b) (newQueue default_update ME_MAX_MARKET_UPDATES)"
    using r(1) with_random_order(2,3) by (simp_all add: e2_def)
  from engine_turn_poll[OF poll(1)[folded e2_def]] obtain y2 where y2: "engine_turn ?y = Inr y2" "ex_engine y2 = e2"
    "ex_synthetizer y2 = ex_synthetizer ?y"
    "\<exists>f rs. ex_server y2 = ((fst (ex_server ?y))\<lparr>fifo_sequencer := f, outgoing_messages := rs\<rparr>, snd (ex_server ?y))" by blast
  have "\<exists>s. ex_server ?y = (s, sample_tcp) \<and> cid_to_socket s 4 = Some 7"
    by (simp add: with_request_def recorded_request_def random_order_facts(6) sample_parts(3) Let_def)
  then have sv: "\<exists>s. ex_server y2 = (s, sample_tcp) \<and> cid_to_socket s 4 = Some 7" using y2(4) by auto
  have un: "unfilled y2" using poll(2,4) big unfolding unfilled_def y2(2,3) e2 with_random_order(4) by (simp add: nums roomy_def)
  have wf: "response_wf r" using poll(5) r(1) by simp
  note fin = fed_engine[OF run(1) y2(1) un]
  note waits = newQueue_push[OF big(1), of r default_response]
  have "contents (outcoming_response_queue (ex_engine y2)) = [r]" using waits by (simp add: y2(2) e2(2))
  with fin un run(3-6) r(2) wf sv show ?thesis by metis
qed

text \<open>A turn of the order server in which nothing arrives, in a run.\<close>

lemma quiet_step:
  assumes run: "fed_run srt (new_exchange tcp d1 d2) y g tr" and srt: "time_sort srt" and "unfilled y" and sv: "ex_server y = (s, srv)"
    and "recv_sockets srv = [d]" and "send_sockets srv = []" and "all_sockets srv d = Some k"
    and "send_responses (queue_size (outgoing_messages s) + 1)
        (s, srv\<lparr>all_sockets := (all_sockets srv)(d := Some (k\<lparr>send_buffer := []\<rparr>))\<rparr>) = Inr (s', srv')"
  shows "\<exists>y' g' tr'. fed_run srt (new_exchange tcp d1 d2) y' g' tr' \<and> unfilled y' \<and> ex_server y' = (s', srv') \<and>
     tr_in tr' = tr_in tr \<and> tr_cast tr' = tr_cast tr \<and> published g' = published g \<and>
     answered g' = answered g @ removed (outgoing_messages s) (outgoing_messages s')"
proof -
  have inv: "exchange_inv y g" by (rule exchange_run_inv[OF fed_exchange_run[OF run] srt new_exchange_inv])
  then have same: "outgoing_messages s = outcoming_response_queue (ex_engine y)"
    using sv by (auto simp: wired_def elim: exchange_invE)
  from quiet_turn[where srt=srt, OF inv assms(3-8)] obtain y' where
    y': "server_turn srt (Some []) [] nothing_read nothing_read y = Inr ([(d, send_buffer k)], y')" "unfilled y'" "ex_server y' = (s', srv')"
      "outcoming_response_queue (ex_engine y') = outgoing_messages s'" by blast
  have "poll (Some []) [] (snd (ex_server y)) = Inr (snd (ex_server y))" by simp
  from fed_server[OF run this y'(1,2)] obtain g' tr' where "fed_run srt (new_exchange tcp d1 d2) y' g' tr'"
    "tr_in tr' = readings nothing_read srv (tr_in tr)" "tr_cast tr' = tr_cast tr" "published g' = published g"
    "answered g' = answered g @ removed (outgoing_messages s) (outgoing_messages s')"
    by (auto simp: sv same y'(4))
  moreover have "readings nothing_read srv (tr_in tr) = tr_in tr"
    by (auto simp: readings_def bytes_taken_def nothing_read_def fun_eq_iff split: option.splits)
  ultimately show ?thesis using y'(2,3) by metis
qed

lemma order_carried: "carries 4 [random_order] (readings order_read sample_tcp (\<lambda>_. []) 7)"
  by (simp add: carries_def own_request_def random_order_facts(1,6) order_bytes)

lemma random_order_answered:
  "\<exists>y g tr r. fed_run (sort_key fst) (new_exchange sample_tcp 4 5) y g tr \<and> tr_in tr = readings order_read sample_tcp (\<lambda>_. []) \<and>
     tr_cast tr = [] \<and> published g = [] \<and> answered g = [r] \<and> answer_to random_order r \<and> response_wf r \<and>
     tr_out tr 7 = encode_response \<lparr>ogrs_seq_num = 1, ogrs_response = r\<rparr>"
proof -
  note srt = stable.time_sort_axioms
  obtain y g tr r s where run: "fed_run (sort_key fst) (new_exchange sample_tcp 4 5) y g tr" "unfilled y"
    "tr_in tr = readings order_read sample_tcp (\<lambda>_. [])" "tr_cast tr = []" "answered g = []" "published g = []" and
    r: "contents (outcoming_response_queue (ex_engine y)) = [r]" "answer_to random_order r" "response_wf r" and
    sv: "ex_server y = (s, sample_tcp)" and bound: "cid_to_socket s 4 = Some 7"
    using random_order_served unfolding sample_exchange_def by blast
  have cid: "rs_client_id r = 4" "owner r = 4" using r(2) by (simp_all add: answer_to_def random_order_facts(6))
  have inv: "exchange_inv y g" by (rule exchange_run_inv[OF fed_exchange_run[OF run(1)] srt new_exchange_inv])
  then have room: "roomy (outgoing_messages s)" and c: "contents (outgoing_messages s) = [r]"
    using sv r(1) by (auto simp: wired_def queues_ok_def elim: exchange_invE)
  have con: "connected (s, sample_tcp) (contents (outgoing_messages s))"
    by (simp add: connected_def c cid(2) bound sample_tcp_def new_TCPSocket_def size_defs response_size_def TCPBufferSize_def)
  have n: "num_elements (outgoing_messages s) = 1" using length_contents[of "outgoing_messages s"] by (simp only: c) simp
  from send_all_responses[OF _ _ con, of "queue_size (outgoing_messages s) + 1"] room n obtain s1 srv1 where
    send: "send_responses (queue_size (outgoing_messages s) + 1) (s, sample_tcp) = Inr (s1, srv1)" and c1: "contents (outgoing_messages s1) = []"
    and socks: "\<forall>d k. all_sockets sample_tcp d = Some k \<longrightarrow> (\<exists>k'. all_sockets srv1 d = Some k')"
    unfolding roomy_def queue_size_def by (fastforce simp del: send_responses.simps)
  have idle: "sample_tcp\<lparr>all_sockets := (all_sockets sample_tcp)(7 := Some ((new_TCPSocket 7)\<lparr>send_buffer := []\<rparr>))\<rparr> = sample_tcp"
    by (simp add: sample_tcp_def new_TCPSocket_def)
  have send': "send_responses (queue_size (outgoing_messages s) + 1)
      (s, sample_tcp\<lparr>all_sockets := (all_sockets sample_tcp)(7 := Some ((new_TCPSocket 7)\<lparr>send_buffer := []\<rparr>))\<rparr>) = Inr (s1, srv1)"
    unfolding idle by (rule send)
  have alone: "recv_sockets sample_tcp = [7]" "send_sockets sample_tcp = []" "all_sockets sample_tcp 7 = Some (new_TCPSocket 7)"
    by (simp_all add: sample_tcp_def)
  obtain y1 g1 tr1 where run1: "fed_run (sort_key fst) (new_exchange sample_tcp 4 5) y1 g1 tr1" "unfilled y1" "ex_server y1 = (s1, srv1)"
    "tr_in tr1 = tr_in tr" "tr_cast tr1 = tr_cast tr" "published g1 = published g"
    "answered g1 = answered g @ removed (outgoing_messages s) (outgoing_messages s1)"
    using quiet_step[OF run(1) srt run(2) sv alone send'] by blast
  have rem: "removed (outgoing_messages s) (outgoing_messages s1) = [r]" by (simp add: removed_def c c1 del: length_contents)
  have n1: "num_elements (outgoing_messages s1) = 0" using length_contents[of "outgoing_messages s1"] by (simp only: c1) simp
  obtain k1 where k1: "all_sockets srv1 7 = Some k1" using socks alone(3) by blast
  have same: "recv_sockets srv1 = [7]" "send_sockets srv1 = []" using send_responses_sockets[OF send] by (simp_all add: sample_tcp_def)
  define srv2 where "srv2 = srv1\<lparr>all_sockets := (all_sockets srv1)(7 := Some (k1\<lparr>send_buffer := []\<rparr>))\<rparr>"
  obtain y2 g2 tr2 where run2: "fed_run (sort_key fst) (new_exchange sample_tcp 4 5) y2 g2 tr2" "ex_server y2 = (s1, srv2)"
    "tr_in tr2 = tr_in tr1" "tr_cast tr2 = tr_cast tr1" "published g2 = published g1" "answered g2 = answered g1 @ removed (outgoing_messages s1) (outgoing_messages s1)"
    using quiet_step[OF run1(1) srt run1(2,3) same k1 send_nothing[OF n1]] unfolding srv2_def by blast
  have none: "removed (outgoing_messages s1) (outgoing_messages s1) = []" by (simp add: removed_def)
  have sent: "carries 4 [random_order] (tr_in tr2 7)"
    by (simp add: run2(3) run1(4) run(3) order_carried)
  have "replied (\<lambda>_. 4) [7] y2 g2 tr2"
    using fed_run_replied[OF run2(1) sample_fresh srt, of "\<lambda>_. 4" "\<lambda>_. [random_order]"] sent by simp
  then have "tr_out tr2 7 = encode_response \<lparr>ogrs_seq_num = 1, ogrs_response = r\<rparr>"
    by (simp add: replied_def run2(2) unsent_def srv2_def run2(6) none run1(7) run(5) rem to_client_def cid(2))
  moreover have "answered g2 = [r]" by (simp add: run2(6) none run1(7) run(5) rem)
  moreover have "tr_in tr2 = readings order_read sample_tcp (\<lambda>_. [])" "tr_cast tr2 = []" "published g2 = []"
    by (simp_all add: run2(3-5) run1(4-6) run(3,4,6))
  ultimately show ?thesis using run2(1) r(2,3) by blast
qed

lemma random_client_hears:
  assumes "response_wf r" and "rs_client_id r = 4"
  shows "\<exists>x h. client_run int_fp random_client x h \<and> (\<exists>rest. encode_request \<lparr>ogrq_seq_num = 1, ogrq_request = random_order\<rparr> @ rest = ch_wire h) \<and>
     ch_reads h = [[], [], encode_response \<lparr>ogrs_seq_num = 1, ogrs_response = r\<rparr>] \<and> ch_datagrams h = []"
proof -
  let ?bs = "encode_response \<lparr>ogrs_seq_num = 1, ogrs_response = r\<rparr>"
  have big: "1 < ME_MAX_CLIENTS_UPDATES" by (simp add: size_defs)
  obtain x h k g where run: "client_run int_fp random_client x h" "ch_wire h = encode_request \<lparr>ogrq_seq_num = 1, ogrq_request = random_order\<rparr>"
    and un: "client_unfilled x" and kg: "cl_gateway x = (k, g)" "recv_buffer k = []" "num_elements (OrderGateway.outgoing_requests g) = 0"
    "OrderGateway.incoming_responses g = newQueue default_response ME_MAX_CLIENTS_UPDATES" and
    ch: "ch_reads h = [[], []]" "ch_datagrams h = []"
    using random_client_run by blast
  have inv: "client_inv int_fp (cl_engine random_client) 4 x h" by (rule client_run_inv[OF run(1) new_client_inv[OF random_client_def]])
  then have q: "TradeEngine.incoming_responses (cl_engine x) = newQueue default_response ME_MAX_CLIENTS_UPDATES"
    "OrderGateway.outgoing_requests g = TradeEngine.outgoing_requests (cl_engine x)" "roomy (TradeEngine.outgoing_requests (cl_engine x))"
    using kg by (simp_all add: client_inv_def linked_def client_queues_ok_def)
  have fresh: "queue_ok (newQueue default_response ME_MAX_CLIENTS_UPDATES)" "contents (newQueue default_response ME_MAX_CLIENTS_UPDATES) = []"
    "num_elements (newQueue default_response ME_MAX_CLIENTS_UPDATES) = 0"
    "store_size (newQueue default_response ME_MAX_CLIENTS_UPDATES) = ME_MAX_CLIENTS_UPDATES"
    by (rule newQueue_ok(1)[OF order_less_trans[OF zero_less_one big]], rule newQueue_ok(2)) (simp_all add: newQueue_def)
  have "hearing [] x h" using client_run_hearing[OF run(1) random_client_def, of "[]"] by (simp add: ch aligned_def)
  then have acc: "gw_client_id g = 4" "next_incoming_seq_num g = 1"
    using inv by (simp_all add: hearing_def client_inv_def on_wire_def kg(1))
  obtain k' g' where turn: "gateway_round (responses.stream (numbered_responses (next_incoming_seq_num g) [r]), 6) (k, g) = Inr (send_buffer k, k', g')"
    "contents (OrderGateway.incoming_responses g') = [r]"
    using round_reads_responses[of g "[r]" k 6] kg(2-4) assms acc(1) big fresh
    by (auto simp: response_size_def TCPBufferSize_def)
  have read: "gateway_round (?bs, 6) (k, g) = Inr (send_buffer k, k', g')" using turn(1) by (simp add: acc(2))
  obtain x' where x': "gateway_turn (?bs, 6) x = Inr (send_buffer k, x')" "cl_engine x' = boxes (OrderGateway.outgoing_requests g')
      (OrderGateway.incoming_responses g') (incoming_market_updates (cl_engine x)) (cl_engine x)"
    by (simp add: gateway_turn_def kg(1) read)
  obtain qs rs where t: "takes (OrderGateway.outgoing_requests g) qs (OrderGateway.outgoing_requests g')"
    "OrderGateway.incoming_responses g' = fold push rs (newQueue default_response ME_MAX_CLIENTS_UPDATES)"
    using gateway_round_takes[OF read] q(2,3) kg(4) by auto
  have n: "num_elements (OrderGateway.incoming_responses g') = 1" using length_contents[of "OrderGateway.incoming_responses g'"] by (simp only: turn(2)) simp
  have "roomy (OrderGateway.outgoing_requests g')" using takes_roomy[OF _ t(1)] q(2,3) by simp
  then have "client_unfilled x'" using un n big by (auto simp: client_unfilled_def x'(2) boxes_def t(2) fresh roomy_def)
  from client_gateway[OF run(1) x'(1) this] show ?thesis
    using run(2) ch kg(2)
    by (intro exI conjI) (assumption | simp add: gateway_takes_def kg(1) response_size_def TCPBufferSize_def)+
qed

theorem desks_hear_engine_witness:
  "\<exists>(x :: int client) (y :: exchange) (g :: history) r issued evs. answered g = [r] \<and> answer_to random_order r \<and>
     (\<exists>served. sequenced g = served @ contents (incoming_request_queue (ex_engine y)) \<and>
       res_fold log_request served new_log = Inr \<lparr>lg_books = ticker_order_book (ex_engine y),
         lg_responses = [r] @ contents (outcoming_response_queue (ex_engine y)),
         lg_updates = contents (market_updates_queue (ex_engine y))\<rparr>) \<and>
     res_fold (desk_step int_fp) evs (desk (cl_engine random_client), []) = Inr (desk (cl_engine x), issued) \<and>
     mset (of_client 4 (sequenced g)) = mset (take 1 issued) \<and>
     responses_in evs @ contents (TradeEngine.incoming_responses (cl_engine x)) = [r] \<and>
     updates_in evs @ contents (incoming_market_updates (cl_engine x)) = []"
proof -
  let ?bs = "encode_request \<lparr>ogrq_seq_num = 1, ogrq_request = random_order\<rparr>"
  obtain y g tr r where fed: "fed_run (sort_key fst) (new_exchange sample_tcp 4 5) (y :: exchange) g tr" "tr_in tr = readings order_read sample_tcp (\<lambda>_. [])"
    "tr_cast tr = []" "published g = []" "answered g = [r]" "answer_to random_order r" "response_wf r"
    "tr_out tr 7 = encode_response \<lparr>ogrs_seq_num = 1, ogrs_response = r\<rparr>" using random_order_answered by blast
  have cid: "rs_client_id r = 4" using fed(6) by (simp add: answer_to_def random_order_facts(6))
  obtain x h rest where run: "client_run int_fp random_client x h" "?bs @ rest = ch_wire h"
    "ch_reads h = [[], [], encode_response \<lparr>ogrs_seq_num = 1, ogrs_response = r\<rparr>]" "ch_datagrams h = []"
    using random_client_hears[OF fed(7) cid] by blast
  have bs: "tr_in tr 7 = ?bs" by (simp add: fed(2) order_bytes)
  have all: "\<forall>d\<in>set [7]. started int_fp ((\<lambda>_. 4) d) ((\<lambda>_. random_client) d) \<and>
      client_run int_fp ((\<lambda>_. random_client) d) ((\<lambda>_. x) d) ((\<lambda>_. h) d) \<and>
      (\<exists>rest. tr_in tr d @ rest = ch_wire ((\<lambda>_. h) d))" using random_started run(1,2) bs by auto
  have reads: "\<forall>d\<in>set [7]. aligned (ch_reads ((\<lambda>_. h) d)) \<and> (\<exists>rest. concat (ch_reads ((\<lambda>_. h) d)) @ rest = tr_out tr d)"
    by (simp add: run(3) fed(8) aligned_def)
  have "socket_fd (in_incremental (cl_consumer random_client)) = 10"
    by (simp add: random_client_def new_client_def new_MarketDataConsumer_def mcast_init_def new_McastSocket_def Let_def)
  then have datagrams: "\<forall>d\<in>set [7 :: int]. socket_fd (in_incremental (cl_consumer ((\<lambda>_. random_client) d))) \<noteq> -1 \<and>
      (\<exists>rest. concat (ch_datagrams ((\<lambda>_. h) d)) @ rest = tr_cast tr)" by (simp add: run(4))
  have wf: "list_all response_wf (answered g)" "list_all update_wf (published g)" by (simp_all add: fed(4,5,7))
  have "distinct [7 :: int]" "inj_on (\<lambda>_. 4 :: ClientId) (set [7 :: int])" by simp_all
  from desks_hear_engine[OF fed(1) stable.time_sort_axioms sample_fresh this all reads datagrams wf]
  have "(\<exists>served. sequenced g = served @ contents (incoming_request_queue (ex_engine y)) \<and>
       res_fold log_request served new_log = Inr \<lparr>lg_books = ticker_order_book (ex_engine y),
         lg_responses = answered g @ contents (outcoming_response_queue (ex_engine y)),
         lg_updates = published g @ contents (market_updates_queue (ex_engine y))\<rparr>)" and
    "\<exists>evs issued. res_fold (desk_step int_fp) evs (desk (cl_engine random_client), []) = Inr (desk (cl_engine x), issued) \<and>
       mset (of_client 4 (sequenced g)) = mset (take (whole (tr_in tr 7)) issued) \<and>
       responses_in evs @ contents (TradeEngine.incoming_responses (cl_engine x)) =
         take (length (concat (ch_reads h)) div response_size) (to_client 4 (answered g)) \<and>
       updates_in evs @ contents (incoming_market_updates (cl_engine x)) =
         take (length (concat (ch_datagrams h)) div update_size) (published g)" by simp_all
  moreover have "whole ?bs = 1" by (simp add: whole_def request_size_def)
  moreover have "length (concat (ch_reads h)) div response_size = 1" by (simp add: run(3) response_size_def)
  moreover have "to_client 4 [r] = [r]" by (simp add: to_client_def cid)
  ultimately show ?thesis using fed(4-6) bs run(4) by (intro exI[where x=x] exI[where x=y] exI[where x=g] exI[where x=r]) auto
qed

end
