(* ===== verification/QueueThreads.thy ===== *)
theory QueueThreads
  imports SpscQueue
begin

text \<open>
  \<^verbatim>\<open>include/utils/spsc_queue.hpp\<close> used by two threads: the operations of \<open>SpscQueue\<close>
  cut into their accesses to shared memory, each atomic (\<^verbatim>\<open>std::atomic\<close> with its default
  order; the slots are published by the counters), and the interleavings of one producer, which
  writes a list of values, with one consumer, which loops as every consumer of the program does.
\<close>

section \<open>The accesses\<close>

definition advance_write :: "'a spscQueue \<Rightarrow> 'a spscQueue" where
  "advance_write q = q\<lparr>next_write_idx := (next_write_idx q + 1) mod store_size q\<rparr>"

definition count_up :: "'a spscQueue \<Rightarrow> 'a spscQueue" where
  "count_up q = q\<lparr>num_elements := num_elements q + 1\<rparr>"

definition advance_read :: "'a spscQueue \<Rightarrow> 'a spscQueue" where
  "advance_read q = q\<lparr>next_read_idx := (next_read_idx q + 1) mod store_size q\<rparr>"

definition count_down :: "'a spscQueue \<Rightarrow> 'a spscQueue res" where
  "count_down q =
    res_bind (ensure (num_elements q \<noteq> 0) AssertFailed) (\<lambda>_. Inr (q\<lparr>num_elements := num_elements q - 1\<rparr>))"

lemmas access_defs = setNextWrite_def advance_write_def count_up_def advance_read_def count_down_def

text \<open>In sequence they are the operations.\<close>

lemma updateNextWrite_accesses: "updateNextWrite q = count_up (advance_write q)"
  by (simp add: updateNextWrite_def access_defs)

lemma updateNextRead_accesses: "updateNextRead q = count_down (advance_read q)"
  by (simp add: updateNextRead_def access_defs Let_def cong del: res_bind_cong)

section \<open>The threads\<close>

datatype producer_pc = P_idle | P_stored | P_advanced

datatype consumer_pc = C_idle | C_nonempty | C_holding | C_used | C_advanced

text \<open>\<open>todo\<close> are the values the producer has still to write, \<open>got\<close> those the consumer has
  used.\<close>

record 'a threads =
  shared :: "'a spscQueue"
  todo :: "'a list"
  got :: "'a list"
  ppc :: producer_pc
  cpc :: consumer_pc

definition start_threads :: "'a \<Rightarrow> nat \<Rightarrow> 'a list \<Rightarrow> 'a threads" where
  "start_threads d n vs = \<lparr>shared = newQueue d n, todo = vs, got = [], ppc = P_idle, cpc = C_idle\<rparr>"

definition producer_step :: "'a threads \<Rightarrow> 'a threads option" where
  "producer_step s =
    (case ppc s of
       P_idle \<Rightarrow>
         (case todo s of [] \<Rightarrow> None
          | v # vs \<Rightarrow> Some (s\<lparr>shared := setNextWrite v (shared s), todo := vs, ppc := P_stored\<rparr>))
     | P_stored \<Rightarrow> Some (s\<lparr>shared := advance_write (shared s), ppc := P_advanced\<rparr>)
     | P_advanced \<Rightarrow> Some (s\<lparr>shared := count_up (shared s), ppc := P_idle\<rparr>))"

definition consumer_step :: "'a threads \<Rightarrow> 'a threads res" where
  "consumer_step s =
    (let q = shared s in
     case cpc s of
       C_idle \<Rightarrow> Inr (s\<lparr>cpc := if num_elements q = 0 then C_idle else C_nonempty\<rparr>)
     | C_nonempty \<Rightarrow> Inr (s\<lparr>cpc := if next_read_idx q = next_write_idx q then C_idle else C_holding\<rparr>)
     | C_holding \<Rightarrow> Inr (s\<lparr>got := got s @ [store q (next_read_idx q)], cpc := C_used\<rparr>)
     | C_used \<Rightarrow> Inr (s\<lparr>shared := advance_read q, cpc := C_advanced\<rparr>)
     | C_advanced \<Rightarrow> res_bind (count_down q) (\<lambda>q. Inr (s\<lparr>shared := q, cpc := C_idle\<rparr>)))"

text \<open>The runs in which the consumer keeps up, that is, the queue is never filled. Nothing in the
  program ensures it: the queues are made large instead.\<close>

inductive timely :: "'a threads \<Rightarrow> 'a threads \<Rightarrow> bool" for s0 where
  begins: "timely s0 s0"
| produces: "timely s0 s \<Longrightarrow> producer_step s = Some s' \<Longrightarrow>
    num_elements (shared s') < store_size (shared s') \<Longrightarrow> timely s0 s'"
| consumes: "timely s0 s \<Longrightarrow> consumer_step s = Inr s' \<Longrightarrow> timely s0 s'"

section \<open>Invariant\<close>

text \<open>\<open>w\<close> values have passed the write index and \<open>r\<close> the read index, counted without
  remainder; the count of the elements lags behind a producer that has advanced and behind a
  consumer that has.\<close>

definition one_if :: "bool \<Rightarrow> nat" where
  "one_if b = (if b then 1 else 0)"

lemma one_if_simps [simp]: "one_if True = 1" "one_if False = 0"
  by (simp_all add: one_if_def)

definition transfer :: "nat \<Rightarrow> 'a list \<Rightarrow> nat \<Rightarrow> nat \<Rightarrow> 'a threads \<Rightarrow> bool" where
  "transfer n vs w r s \<longleftrightarrow>
     (let q = shared s; w' = w + one_if (ppc s = P_stored) in
      store_size q = n \<and> num_elements q < n \<and> w' \<le> r + n \<and> w' \<le> length vs \<and>
      todo s = drop w' vs \<and> got s = take (r + one_if (cpc s = C_used)) vs \<and>
      next_write_idx q = w mod n \<and> next_read_idx q = r mod n \<and>
      num_elements q + r + one_if (ppc s = P_advanced) = w + one_if (cpc s = C_advanced) \<and>
      (cpc s \<noteq> C_idle \<longrightarrow> num_elements q \<noteq> 0) \<and>
      (\<forall>k. r \<le> k \<longrightarrow> k < w' \<longrightarrow> store q (k mod n) = vs ! k))"

lemma start_transfer: "0 < n \<Longrightarrow> transfer n vs 0 0 (start_threads d n vs)"
  by (simp add: transfer_def start_threads_def newQueue_def Let_def)

lemma mod_differs:
  fixes k w n :: nat
  assumes "k < w" and "w < k + n"
  shows "k mod n \<noteq> w mod n"
proof
  assume "k mod n = w mod n"
  then have "n dvd w - k" using assms by (metis mod_eq_dvd_iff_nat less_imp_le)
  then show False using assms by (auto dest: dvd_imp_le)
qed

lemma producer_transfer:
  assumes "transfer n vs w r s" and "producer_step s = Some s'" and "num_elements (shared s') < n"
  shows "\<exists>w'. transfer n vs w' r s'"
proof (cases "ppc s")
  case P_idle
  then obtain v tl where v: "todo s = v # tl"
    and s': "s' = s\<lparr>shared := setNextWrite v (shared s), todo := tl, ppc := P_stored\<rparr>"
    using assms(2) by (auto simp: producer_step_def split: list.splits)
  have facts: "todo s = drop w vs" "w \<le> length vs" "num_elements (shared s) + r = w + one_if (cpc s = C_advanced)"
    "num_elements (shared s) < n" using assms(1) P_idle by (simp_all add: transfer_def Let_def)
  have d: "drop w vs = v # tl" using facts(1) v by simp
  have "w < length vs" using d by (metis drop_all linorder_not_le list.distinct(1))
  moreover have "vs ! w = v" using d by (rule nth_via_drop)
  moreover have "tl = drop (Suc w) vs" using d by (metis drop_Suc tl_drop list.sel(3))
  moreover have "w < r + n" using facts(3,4) by (auto simp: one_if_def split: if_splits)
  ultimately have w: "w < length vs" "vs ! w = v" "tl = drop (Suc w) vs" "w < r + n" by blast+
  have "k mod n \<noteq> w mod n" if "r \<le> k" "k < w" for k by (rule mod_differs) (use that w in auto)
  then have "transfer n vs w r s'" using assms(1) P_idle s' w
    by (auto simp: transfer_def Let_def setNextWrite_def less_Suc_eq)
  then show ?thesis ..
next
  case P_stored
  then have "transfer n vs (Suc w) r s'" using assms
    by (auto simp: transfer_def Let_def producer_step_def advance_write_def mod_Suc_eq)
  then show ?thesis ..
next
  case P_advanced
  then have "transfer n vs w r s'" using assms
    by (auto simp: transfer_def Let_def producer_step_def count_up_def)
  then show ?thesis ..
qed

lemma consumer_transfer:
  assumes "transfer n vs w r s"
  obtains s' r' where "consumer_step s = Inr s'" and "transfer n vs w r' s'"
    and "todo s' = todo s" and "ppc s' = ppc s"
proof (cases "cpc s")
  case C_idle
  then show thesis using that[of "s\<lparr>cpc := if num_elements (shared s) = 0 then C_idle else C_nonempty\<rparr>" r] assms
    by (auto simp: transfer_def Let_def consumer_step_def)
next
  case C_nonempty
  then show thesis
    using that[of "s\<lparr>cpc := if next_read_idx (shared s) = next_write_idx (shared s) then C_idle else C_holding\<rparr>" r] assms
    by (auto simp: transfer_def Let_def consumer_step_def)
next
  case C_holding
  have "r < w" "w \<le> length vs" using assms C_holding by (auto simp: transfer_def Let_def split: if_splits)
  moreover have "store (shared s) (next_read_idx (shared s)) = vs ! r"
    using assms \<open>r < w\<close> by (auto simp: transfer_def Let_def)
  ultimately have "transfer n vs w r (s\<lparr>got := got s @ [store (shared s) (next_read_idx (shared s))], cpc := C_used\<rparr>)"
    using assms C_holding by (auto simp: transfer_def Let_def take_Suc_conv_app_nth)
  then show thesis by (rule that[rotated]) (simp_all add: consumer_step_def C_holding Let_def)
next
  case C_used
  then have "transfer n vs w (Suc r) (s\<lparr>shared := advance_read (shared s), cpc := C_advanced\<rparr>)"
    using assms by (auto simp: transfer_def Let_def advance_read_def mod_Suc_eq)
  then show thesis by (rule that[rotated]) (simp_all add: consumer_step_def C_used Let_def)
next
  case C_advanced
  let ?q = "shared s"
  have "num_elements ?q \<noteq> 0" using assms C_advanced by (simp add: transfer_def Let_def)
  moreover from this have "transfer n vs w r (s\<lparr>shared := ?q\<lparr>num_elements := num_elements ?q - 1\<rparr>, cpc := C_idle\<rparr>)"
    using assms C_advanced by (auto simp: transfer_def Let_def)
  ultimately show thesis
    by (intro that[of "s\<lparr>shared := ?q\<lparr>num_elements := num_elements ?q - 1\<rparr>, cpc := C_idle\<rparr>" r])
      (simp_all add: consumer_step_def C_advanced Let_def count_down_def)
qed

lemma timely_transfer:
  assumes "timely (start_threads d n vs) s" and "0 < n"
  shows "\<exists>w r. transfer n vs w r s"
  using assms(1)
proof induction
  case begins
  show ?case by (intro exI) (rule start_transfer[OF assms(2)])
next
  case (produces s s')
  then obtain w r where inv: "transfer n vs w r s" by blast
  then have "store_size (shared s') = n" using produces.hyps(2)
    by (auto simp: transfer_def Let_def producer_step_def access_defs split: producer_pc.splits list.splits)
  then show ?case using producer_transfer[OF inv produces.hyps(2)] produces.hyps(3) by blast
next
  case (consumes s s')
  then obtain w r where inv: "transfer n vs w r s" by blast
  show ?case by (rule consumer_transfer[OF inv]) (use consumes.hyps(2) in auto)
qed

text \<open>Undisturbed, the three accesses of the producer are the \<open>push\<close> of \<open>SpscQueue\<close>.\<close>

lemma timely_push:
  assumes "timely s0 s" and "ppc s = P_idle" and "todo s = v # vs"
    and "num_elements (shared s) + 1 < store_size (shared s)"
  shows "timely s0 (s\<lparr>shared := push v (shared s), todo := vs\<rparr>)"
proof -
  let ?s1 = "s\<lparr>shared := setNextWrite v (shared s), todo := vs, ppc := P_stored\<rparr>"
  let ?s2 = "?s1\<lparr>shared := advance_write (shared ?s1), ppc := P_advanced\<rparr>"
  let ?s3 = "?s2\<lparr>shared := count_up (shared ?s2), ppc := P_idle\<rparr>"
  have "timely s0 ?s1" by (rule produces[OF assms(1)]) (use assms in \<open>simp_all add: producer_step_def setNextWrite_def\<close>)
  then have "timely s0 ?s2" by (rule produces) (use assms in \<open>simp_all add: producer_step_def access_defs\<close>)
  then have "timely s0 ?s3" by (rule produces) (use assms in \<open>simp_all add: producer_step_def access_defs\<close>)
  moreover have "?s3 = s\<lparr>shared := push v (shared s), todo := vs\<rparr>"
    using assms(2) by (simp add: push_def updateNextWrite_accesses)
  ultimately show ?thesis by simp
qed

section \<open>What arrives\<close>

text \<open>C16: however the two threads interleave, as long as the consumer keeps up it has received a
  prefix of the values written, each once and in order, and its next access does not fail the
  assertion of \<^verbatim>\<open>updateNextRead\<close>.\<close>

theorem queue_transfers_in_order:
  assumes "0 < n" and "timely (start_threads d n vs) s"
  shows "got s = take (length (got s)) vs \<and> (\<exists>s'. consumer_step s = Inr s')"
proof -
  obtain w r where inv: "transfer n vs w r s" using timely_transfer[OF assms(2,1)] by blast
  then have "got s = take (length (got s)) vs" by (simp add: transfer_def Let_def min_def)
  moreover have "\<exists>s'. consumer_step s = Inr s'" by (rule consumer_transfer[OF inv]) blast
  ultimately show ?thesis ..
qed

text \<open>Two values are written through a queue of three slots.\<close>

definition written :: "nat threads" where
  "written = \<lparr>shared = push 8 (push 7 (newQueue 0 3)), todo = [], got = [], ppc = P_idle, cpc = C_idle\<rparr>"

lemma written_timely: "timely (start_threads 0 3 [7, 8]) written"
proof -
  let ?s0 = "start_threads 0 3 [7, 8 :: nat]" and ?q = "push 7 (newQueue 0 3) :: nat spscQueue"
  have "timely ?s0 (?s0\<lparr>shared := push 7 (shared ?s0), todo := [8]\<rparr>)"
    by (rule timely_push[OF begins]) (simp_all add: start_threads_def newQueue_def)
  then have "timely ?s0 (?s0\<lparr>shared := ?q, todo := [8]\<rparr>)" by (simp add: start_threads_def)
  from timely_push[OF this] have "timely ?s0 (?s0\<lparr>shared := push 8 ?q, todo := []\<rparr>)"
    by (simp add: start_threads_def newQueue_def push_def updateNextWrite_def setNextWrite_def)
  then show ?thesis by (simp add: written_def start_threads_def)
qed

theorem queue_transfers_in_order_witness:
  "\<exists>s. timely (start_threads 0 3 [7, 8]) s \<and> got s = [7 :: nat] \<and> got s = take (length (got s)) [7, 8] \<and>
     (\<exists>s'. consumer_step s = Inr s')"
proof -
  let ?s = "written\<lparr>got := [7], cpc := C_used\<rparr>"
  note q_defs = written_def newQueue_def push_def updateNextWrite_def setNextWrite_def
  have "timely (start_threads 0 3 [7, 8]) (written\<lparr>cpc := C_nonempty\<rparr>)"
    by (rule consumes[OF written_timely]) (simp add: consumer_step_def q_defs)
  then have "timely (start_threads 0 3 [7, 8]) (written\<lparr>cpc := C_holding\<rparr>)"
    by (rule consumes) (simp add: consumer_step_def q_defs)
  then have s: "timely (start_threads 0 3 [7, 8]) ?s"
    by (rule consumes) (simp add: consumer_step_def q_defs)
  show ?thesis using queue_transfers_in_order[OF _ s] s by (intro exI[of _ ?s]) simp
qed

text \<open>The consumer alone.\<close>

primrec consumer_run :: "nat \<Rightarrow> 'a threads \<Rightarrow> 'a threads res" where
  "consumer_run 0 s = Inr s"
| "consumer_run (Suc k) s = res_bind (consumer_step s) (consumer_run k)"

fun distance :: "consumer_pc \<Rightarrow> nat" where
  "distance C_used = 5"
| "distance C_advanced = 4"
| "distance C_idle = 3"
| "distance C_nonempty = 2"
| "distance C_holding = 1"

lemma consumer_closer:
  assumes "transfer n vs w r s" and "todo s = []" and "ppc s = P_idle" and "consumer_step s = Inr s'"
    and "5 * (length vs - length (got s)) + distance (cpc s) \<le> Suc k + 3"
  shows "5 * (length vs - length (got s')) + distance (cpc s') \<le> k + 3"
proof -
  have w: "w = length vs" using assms(1,2,3) by (simp add: transfer_def Let_def)
  have differ: "r mod n \<noteq> w mod n" if "r < w" "cpc s \<noteq> C_advanced"
    by (rule mod_differs) (use assms(1,3) that in \<open>auto simp: transfer_def Let_def\<close>)
  show ?thesis
    using assms(1,3,4,5) w differ
    by (cases "cpc s") (auto simp: transfer_def Let_def consumer_step_def count_down_def min_def)
qed

lemma consumer_finishes:
  assumes "transfer n vs w r s" and "todo s = []" and "ppc s = P_idle"
    and "5 * (length vs - length (got s)) + distance (cpc s) \<le> k + 3"
  shows "\<exists>s'. consumer_run k s = Inr s' \<and> got s' = vs"
  using assms
proof (induction k arbitrary: s r)
  case 0
  then have "length vs \<le> length (got s)" by (cases "cpc s") auto
  then show ?case using "0.prems"(1) by (auto simp: transfer_def Let_def min_def split: if_splits)
next
  case (Suc k)
  obtain s1 r1 where s1: "consumer_step s = Inr s1" "transfer n vs w r1 s1" "todo s1 = todo s" "ppc s1 = ppc s"
    by (rule consumer_transfer[OF Suc.prems(1)])
  have "5 * (length vs - length (got s1)) + distance (cpc s1) \<le> k + 3"
    by (rule consumer_closer[OF Suc.prems(1-3) s1(1) Suc.prems(4)])
  then have "\<exists>s'. consumer_run k s1 = Inr s' \<and> got s' = vs" using Suc.IH[OF s1(2)] s1(3,4) Suc.prems(2,3) by simp
  then show ?case using s1(1) by simp
qed

text \<open>Nothing is left behind: once the producer has written all its values, five accesses of the
  consumer for every value still missing, and two more, bring it all of them.\<close>

theorem queue_delivers_all:
  assumes "0 < n" and "timely (start_threads d n vs) s" and "todo s = []" and "ppc s = P_idle"
  shows "\<exists>s'. consumer_run (5 * (length vs - length (got s)) + 2) s = Inr s' \<and> got s' = vs"
proof -
  obtain w r where inv: "transfer n vs w r s" using timely_transfer[OF assms(2,1)] by blast
  have "distance (cpc s) \<le> 5" by (cases "cpc s") auto
  then show ?thesis by (intro consumer_finishes[OF inv assms(3,4)]) simp
qed

theorem queue_delivers_all_witness:
  "\<exists>s'. consumer_run 12 written = Inr s' \<and> got s' = [7, 8]"
proof -
  have "\<exists>s'. consumer_run (5 * (length [7, 8 :: nat] - length (got written)) + 2) written = Inr s' \<and> got s' = [7, 8]"
    by (rule queue_delivers_all[OF _ written_timely]) (simp_all add: written_def)
  moreover have "5 * (length [7, 8 :: nat] - length (got written)) + 2 = 12" by (simp add: written_def)
  ultimately show ?thesis by (simp only:)
qed

end
