(* ===== verification/Logging.thy ===== *)
theory Logging
  imports SpscQueue
begin

text \<open>
  \<^verbatim>\<open>include/utils/logger.hpp\<close>: the \<^verbatim>\<open>%\<close> formatting of \<^verbatim>\<open>log\<close>, which
  pushes one string for every character and every value, the bounded wait of \<^verbatim>\<open>pushVal\<close>, and
  the thread that flushes the queue to the file. A value is the string that its \<^verbatim>\<open>operator<<\<close>
  writes. The file is what has been written to it.
\<close>

section \<open>Formatting\<close>

text \<open>The strings that \<^verbatim>\<open>log(text, values...)\<close> hands to \<^verbatim>\<open>pushVal\<close>, in order. The
  second equation is the overload without values, which knows no directives.\<close>

fun log_pushes :: "string \<Rightarrow> string list \<Rightarrow> string list" where
  "log_pushes [] vals = []"
| "log_pushes (c # text) [] = [c] # log_pushes text []"
| "log_pushes (c # text) (v # vals) =
    (if c = CHR ''%'' then
       if text \<noteq> [] \<and> hd text = CHR ''%'' then [hd text] # log_pushes (tl text) (v # vals)
       else v # log_pushes text vals
     else [c] # log_pushes text (v # vals))"

lemma log_plain: "log_pushes cs [] = map (\<lambda>c. [c]) cs"
  by (induction cs) auto

lemma concat_singletons [simp]: "concat (map (\<lambda>c. [c]) xs) = xs"
  by (induction xs) auto

lemma log_literal:
  "CHR ''%'' \<notin> set p \<Longrightarrow> concat (log_pushes (p @ text) vals) = p @ concat (log_pushes text vals)"
  by (cases vals) (induction p, auto simp: log_plain)+

text \<open>A format string as its literal pieces, with a directive before each but the first.\<close>

definition format_of :: "string \<Rightarrow> string list \<Rightarrow> string" where
  "format_of p ps = p @ concat (map (\<lambda>p. CHR ''%'' # p) ps)"

definition fill :: "string \<Rightarrow> string list \<Rightarrow> string list \<Rightarrow> string" where
  "fill p ps vals = p @ concat (map2 (@) vals ps)"

lemma log_directives:
  "length vals = length ps \<Longrightarrow> list_all (\<lambda>p. CHR ''%'' \<notin> set p) ps \<Longrightarrow> list_all (\<lambda>p. p \<noteq> []) (butlast ps) \<Longrightarrow>
    concat (log_pushes (concat (map (\<lambda>p. CHR ''%'' # p) ps)) vals) = concat (map2 (@) vals ps)"
proof (induction ps arbitrary: vals)
  case (Cons p ps)
  then obtain v vs where vals: "vals = v # vs" "length vs = length ps" by (cases vals) auto
  let ?rest = "concat (map (\<lambda>p. CHR ''%'' # p) ps)"
  have "\<not> (p @ ?rest \<noteq> [] \<and> hd (p @ ?rest) = CHR ''%'')"
    using Cons.prems(2,3) by (cases p; cases ps) auto
  then have "log_pushes (CHR ''%'' # p @ ?rest) vals = v # log_pushes (p @ ?rest) vs" using vals by auto
  moreover have "concat (log_pushes ?rest vs) = concat (map2 (@) vs ps)"
    by (rule Cons.IH) (use Cons.prems vals in \<open>auto split: if_splits\<close>)
  ultimately show ?case using vals Cons.prems(2) by (simp add: log_literal)
qed simp

text \<open>\<^verbatim>\<open>log\<close> with as many values as directives prints the literal pieces of its text with
  the vals between them, provided no two directives follow each other at once.\<close>

theorem log_fills_format:
  assumes "length vals = length ps" and "list_all (\<lambda>p. CHR ''%'' \<notin> set p) (p # ps)"
    and "list_all (\<lambda>p. p \<noteq> []) (butlast ps)"
  shows "concat (log_pushes (format_of p ps) vals) = fill p ps vals"
  using assms by (simp add: format_of_def fill_def log_literal log_directives)

text \<open>The text most calls begin with.\<close>

theorem log_fills_format_witness:
  "concat (log_pushes ''%:% %() % Sent'' [''a.cpp'', ''12'', ''run'', ''now'']) = ''a.cpp:12 run() now Sent''"
  using log_fills_format[of "[''a.cpp'', ''12'', ''run'', ''now'']" "['':'', '' '', ''() '', '' Sent'']" "''''"]
  by (simp add: format_of_def fill_def)

section \<open>The queue and the file\<close>

record Logger =
  log_file :: string
  queueCapacity :: nat
  loggerQueue :: "string spscQueue"

definition new_Logger :: "nat \<Rightarrow> Logger" where
  "new_Logger n = \<lparr>log_file = '''', queueCapacity = n, loggerQueue = newQueue '''' n\<rparr>"

text \<open>\<open>None\<close>: the caller keeps waiting.\<close>

definition pushVal :: "string \<Rightarrow> Logger \<Rightarrow> Logger option" where
  "pushVal newVal L =
    (if newVal = [] then Some L
     else if queue_size (loggerQueue L) \<ge> queueCapacity L then None
     else Some (L\<lparr>loggerQueue := push newVal (loggerQueue L)\<rparr>))"

text \<open>One turn of the inner loop of \<^verbatim>\<open>flushQueue\<close>; \<open>None\<close>: the loop ends and is entered
  again after a pause.\<close>

definition flush_one :: "Logger \<Rightarrow> Logger option res" where
  "flush_one L =
    (case getNextRead (loggerQueue L) of None \<Rightarrow> Inr None
     | Some toPrint \<Rightarrow>
         res_bind (updateNextRead (loggerQueue L)) (\<lambda>q.
         Inr (Some (L\<lparr>log_file := log_file L @ toPrint, loggerQueue := q\<rparr>))))"

text \<open>A logging thread with the strings it has still to push, beside the flushing thread.\<close>

inductive log_step :: "Logger \<times> string list \<Rightarrow> Logger \<times> string list \<Rightarrow> bool" where
  pushes: "pushVal v L = Some L' \<Longrightarrow> log_step (L, v # vs) (L', vs)"
| flushes: "flush_one L = Inr (Some L') \<Longrightarrow> log_step (L, vs) (L', vs)"

code_pred log_step .

inductive_simps log_step_from: "log_step (L, vs) s"

definition logger_ok :: "Logger \<Rightarrow> bool" where
  "logger_ok L \<longleftrightarrow> queue_ok (loggerQueue L) \<and> queueCapacity L = store_size (loggerQueue L)"

definition logged :: "Logger \<times> string list \<Rightarrow> string" where
  "logged s = log_file (fst s) @ concat (contents (loggerQueue (fst s))) @ concat (snd s)"

lemma new_logger_ok: "0 < n \<Longrightarrow> logger_ok (new_Logger n)"
  by (simp add: logger_ok_def new_Logger_def newQueue_ok)

lemma pushVal_ok:
  assumes "logger_ok L" and "pushVal v L = Some L'"
  shows "logger_ok L' \<and> logged (L', vs) = logged (L, v # vs)"
  using assms queue_ok_push[of "loggerQueue L" v]
  by (auto simp: logger_ok_def pushVal_def queue_size_def logged_def split: if_splits)

lemma flush_one_ok:
  assumes "logger_ok L" and "flush_one L = Inr (Some L')"
  shows "logger_ok L' \<and> logged (L', vs) = logged (L, vs)"
proof -
  let ?q = "loggerQueue L"
  obtain v q where v: "getNextRead ?q = Some v" "updateNextRead ?q = Inr q"
    and L': "L' = L\<lparr>log_file := log_file L @ v, loggerQueue := q\<rparr>"
    using assms(2) by (auto simp: flush_one_def res_bind_eq_Inr split: option.splits)
  have n: "num_elements ?q \<noteq> 0" "v = store ?q (next_read_idx ?q)"
    using v(1) by (auto simp: getNextRead_def split: if_splits)
  have ok: "queue_ok ?q" using assms(1) by (simp add: logger_ok_def)
  note front = contents_Cons[OF ok n(1)]
  then have "contents ?q \<noteq> []" by simp
  then show ?thesis using updateNextRead_contents[OF ok] v(2) L' n(2) front assms(1)
    by (auto simp: logger_ok_def logged_def)
qed

lemma log_step_ok:
  assumes "log_step s s'" and "logger_ok (fst s)"
  shows "logger_ok (fst s') \<and> logged s' = logged s"
  using assms
proof (cases rule: log_step.cases)
  case (pushes v L L' vs)
  then show ?thesis using pushVal_ok[of L v L' vs] assms(2) by simp
next
  case (flushes L L' vs)
  then show ?thesis using flush_one_ok[of L L' vs] assms(2) by simp
qed

lemma log_steps_ok:
  "log_step\<^sup>*\<^sup>* s s' \<Longrightarrow> logger_ok (fst s) \<Longrightarrow> logger_ok (fst s') \<and> logged s' = logged s"
proof (induction rule: rtranclp_induct)
  case (step s' s'')
  then show ?case using log_step_ok[OF step.hyps(2)] by simp
qed simp

text \<open>C28: nothing that is logged is lost, repeated or reordered: at every moment the file, then the
  queue, then what the thread has still to push are what it set out to log.\<close>

theorem logger_keeps_order:
  assumes "0 < n" and "log_step\<^sup>*\<^sup>* (new_Logger n, vs) (L, rest)"
  shows "log_file L @ concat (contents (loggerQueue L)) @ concat rest = concat vs"
  using log_steps_ok[OF assms(2)] new_logger_ok[OF assms(1)]
  by (simp add: logged_def new_Logger_def newQueue_ok)

theorem logger_keeps_order_witness:
  "\<exists>L rest. log_step\<^sup>*\<^sup>* (new_Logger 3, log_pushes ''x=%'' [''42'']) (L, rest) \<and> log_file L = ''x'' \<and>
     log_file L @ concat (contents (loggerQueue L)) @ concat rest = ''x=42''"
proof -
  let ?q = "push ''x'' (newQueue '''' 3)"
  let ?L = "new_Logger 3\<lparr>loggerQueue := ?q\<rparr>"
  let ?L' = "?L\<lparr>log_file := ''x'', loggerQueue := ?q\<lparr>next_read_idx := 1, num_elements := 0\<rparr>\<rparr>"
  note q_defs = new_Logger_def queue_size_def newQueue_def push_def updateNextWrite_def setNextWrite_def
    getNextRead_def updateNextRead_def
  have "log_step (new_Logger 3, log_pushes ''x=%'' [''42'']) (?L, [''='', ''42''])"
    by (simp add: log_step_from pushVal_def q_defs)
  moreover have "log_step (?L, [''='', ''42'']) (?L', [''='', ''42''])"
    by (simp add: log_step_from flush_one_def q_defs Let_def)
  ultimately have run: "log_step\<^sup>*\<^sup>* (new_Logger 3, log_pushes ''x=%'' [''42'']) (?L', [''='', ''42''])"
    by (meson converse_rtranclp_into_rtranclp r_into_rtranclp)
  show ?thesis using run logger_keeps_order[OF _ run] by (intro exI[of _ ?L'] exI[of _ "[''='', ''42'']"]) simp
qed

section \<open>The queue full\<close>

lemma push_burst:
  assumes "logger_ok L" and "num_elements (loggerQueue L) + length us \<le> queueCapacity L" and "list_all (\<lambda>v. v \<noteq> []) us"
  shows "\<exists>L'. log_step\<^sup>*\<^sup>* (L, us @ vs) (L', vs) \<and> logger_ok L' \<and> log_file L' = log_file L \<and>
     queueCapacity L' = queueCapacity L \<and> num_elements (loggerQueue L') = num_elements (loggerQueue L) + length us"
  using assms
proof (induction us arbitrary: L)
  case (Cons u us)
  let ?L = "L\<lparr>loggerQueue := push u (loggerQueue L)\<rparr>"
  have room: "num_elements (loggerQueue L) < store_size (loggerQueue L)" using Cons.prems(1,2) by (simp add: logger_ok_def)
  have p: "pushVal u L = Some ?L" using Cons.prems by (simp add: pushVal_def queue_size_def)
  then have ok: "logger_ok ?L" using pushVal_ok[OF Cons.prems(1)] by blast
  have n: "num_elements (loggerQueue ?L) = Suc (num_elements (loggerQueue L))"
    using queue_ok_push(4)[OF _ room] Cons.prems(1) by (simp add: logger_ok_def)
  obtain L' where L': "log_step\<^sup>*\<^sup>* (?L, us @ vs) (L', vs)" "logger_ok L'" "log_file L' = log_file L"
    "queueCapacity L' = queueCapacity L" "num_elements (loggerQueue L') = num_elements (loggerQueue L) + length (u # us)"
    using Cons.IH[OF ok] Cons.prems(2,3) n by auto
  have "log_step (L, (u # us) @ vs) (?L, us @ vs)" using p by (simp add: log_step_from)
  then have "log_step\<^sup>*\<^sup>* (L, (u # us) @ vs) (L', vs)" using L'(1) by (rule converse_rtranclp_into_rtranclp)
  then show ?case using L' by auto
qed auto

text \<open>C38: a burst longer than the queue can stop both threads for good: \<^verbatim>\<open>pushVal\<close> waits for
  room in the full queue, which reads as empty, so that the flushing thread never makes any. The
  destructor, which waits for the queue to be empty, then waits for ever as well.\<close>

theorem full_logger_stuck:
  assumes "0 < n" and "n < length vs" and "list_all (\<lambda>v. v \<noteq> []) vs"
  shows "\<exists>L. log_step\<^sup>*\<^sup>* (new_Logger n, vs) (L, drop n vs) \<and> log_file L = '''' \<and>
     queue_size (loggerQueue L) = n \<and> \<not> (\<exists>s. log_step (L, drop n vs) s)"
proof -
  have "list_all (\<lambda>v. v \<noteq> []) (take n vs)" using assms(3) by (metis append_take_drop_id list_all_append)
  then obtain L where L: "log_step\<^sup>*\<^sup>* (new_Logger n, take n vs @ drop n vs) (L, drop n vs)" "logger_ok L"
    "log_file L = ''''" "queueCapacity L = n" "num_elements (loggerQueue L) = n"
    using push_burst[OF new_logger_ok[OF assms(1)], of "take n vs" "drop n vs"] assms(2)
    by (auto simp: new_Logger_def newQueue_def)
  have "getNextRead (loggerQueue L) = None" using full_queue_reads_empty L(2,4,5) by (auto simp: logger_ok_def)
  moreover have "hd (drop n vs) \<noteq> []" using assms(2,3) by (simp add: hd_drop_conv_nth list_all_length)
  ultimately have "\<not> (\<exists>s. log_step (L, drop n vs) s)"
    using L(4,5) by (auto simp: log_step_from flush_one_def pushVal_def queue_size_def)
  then show ?thesis using L by (auto simp: queue_size_def)
qed

theorem full_logger_stuck_witness:
  "\<exists>L. log_step\<^sup>*\<^sup>* (new_Logger 2, log_pushes ''log'' []) (L, [''g'']) \<and> log_file L = '''' \<and>
     queue_size (loggerQueue L) = 2 \<and> \<not> (\<exists>s. log_step (L, [''g'']) s)"
  using full_logger_stuck[of 2 "log_pushes ''log'' []"] by simp

end
