(* ===== verification/SocketSetup.thy ===== *)
theory SocketSetup
  imports Sockets
begin

text \<open>
  How the sockets are set up: \<^verbatim>\<open>include/networking/socket_utils.hpp\<close>,
  \<^verbatim>\<open>TCPSocket::connect\<close>, \<^verbatim>\<open>TCPServer::listen\<close>, \<^verbatim>\<open>McastSocket::init\<close> and
  \<^verbatim>\<open>join\<close>. The operating system is an argument, the record \<open>kernel\<close>: it answers system calls from a
  state of its own, of which nothing is assumed. The calls made are recorded in order, as they are what
  this code is for.
\<close>

section \<open>System calls\<close>

datatype sockopt = TCP_NODELAY | SO_TIMESTAMP | IP_TTL | IP_MULTICAST_TTL | SO_REUSEADDR | IP_ADD_MEMBERSHIP string

text \<open>An address that \<^verbatim>\<open>getaddrinfo\<close> found is a value of type \<open>'a\<close>; \<open>Bind\<close> is given it, or
  a port of any local address.\<close>

datatype 'a bind_address = Any_Port int | Found 'a

datatype 'a syscall =
    Socket 'a
  | Fcntl_Get int
  | Fcntl_Set int int
  | Setsockopt int sockopt int
  | Connect int 'a
  | Bind int "'a bind_address"
  | Listen int int
  | Epoll_Create int
  | Epoll_Add int int
  | Close int

record network_interface =
  ifa_name :: string
  ifa_inet :: bool
  ifa_host :: string

text \<open>\<open>getifaddrs\<close> fails or lists the interfaces with their numeric addresses; \<open>getaddrinfo\<close> is given the
  address, the port, and whether the socket listens and is UDP.\<close>

record ('a, 'k) kernel =
  sys :: "'a syscall \<Rightarrow> 'k \<Rightarrow> int \<times> 'k"
  getifaddrs :: "network_interface list option"
  getaddrinfo :: "string \<Rightarrow> int \<Rightarrow> bool \<Rightarrow> bool \<Rightarrow> int \<times> 'a list"

type_synonym ('a, 'k) process = "'k \<times> 'a syscall list"

definition call :: "('a, 'k) kernel \<Rightarrow> 'a syscall \<Rightarrow> ('a, 'k) process \<Rightarrow> int \<times> ('a, 'k) process" where
  "call K c p = (case p of (k, calls) \<Rightarrow> case sys K c k of (r, k) \<Rightarrow> (r, k, calls @ [c]))"

text \<open>A call whose result an \<^verbatim>\<open>ASSERT\<close> checks.\<close>

definition must :: "('a, 'k) kernel \<Rightarrow> 'a syscall \<Rightarrow> (int \<Rightarrow> bool) \<Rightarrow> ('a, 'k) process \<Rightarrow> (int \<times> ('a, 'k) process) res" where
  "must K c good p = (case call K c p of (r, p) \<Rightarrow> res_bind (ensure (good r) FatalExit) (\<lambda>_. Inr (r, p)))"

section \<open>Options\<close>

definition MaxTCPServerBacklog :: int where "MaxTCPServerBacklog = 1024"

definition O_NONBLOCK :: int where "O_NONBLOCK = 2048"

definition getIfaceIP :: "('a, 'k) kernel \<Rightarrow> string \<Rightarrow> string" where
  "getIfaceIP K iface =
    (case getifaddrs K of None \<Rightarrow> ''''
     | Some ifs \<Rightarrow> (case find (\<lambda>i. ifa_inet i \<and> ifa_name i = iface) ifs of None \<Rightarrow> '''' | Some i \<Rightarrow> ifa_host i))"

definition setNonBlocking :: "('a, 'k) kernel \<Rightarrow> int \<Rightarrow> ('a, 'k) process \<Rightarrow> bool \<times> ('a, 'k) process" where
  "setNonBlocking K d p =
    (case call K (Fcntl_Get d) p of (flags, p) \<Rightarrow>
     if flags = - 1 then (False, p)
     else if and flags O_NONBLOCK \<noteq> 0 then (True, p)
     else (case call K (Fcntl_Set d (or flags O_NONBLOCK)) p of (r, p) \<Rightarrow> (r \<noteq> - 1, p)))"

definition socket_option :: "('a, 'k) kernel \<Rightarrow> int \<Rightarrow> sockopt \<Rightarrow> int \<Rightarrow> ('a, 'k) process \<Rightarrow> bool \<times> ('a, 'k) process" where
  "socket_option K d opt v p = (case call K (Setsockopt d opt v) p of (r, p) \<Rightarrow> (r = 0, p))"

definition disableNagle :: "('a, 'k) kernel \<Rightarrow> int \<Rightarrow> ('a, 'k) process \<Rightarrow> bool \<times> ('a, 'k) process" where
  "disableNagle K d = socket_option K d TCP_NODELAY 1"

definition setSOTimestamp :: "('a, 'k) kernel \<Rightarrow> int \<Rightarrow> ('a, 'k) process \<Rightarrow> bool \<times> ('a, 'k) process" where
  "setSOTimestamp K d = socket_option K d SO_TIMESTAMP 1"

definition setTTL :: "('a, 'k) kernel \<Rightarrow> int \<Rightarrow> int \<Rightarrow> ('a, 'k) process \<Rightarrow> bool \<times> ('a, 'k) process" where
  "setTTL K d ttl = socket_option K d IP_TTL ttl"

definition setMcastTTL :: "('a, 'k) kernel \<Rightarrow> int \<Rightarrow> int \<Rightarrow> ('a, 'k) process \<Rightarrow> bool \<times> ('a, 'k) process" where
  "setMcastTTL K d ttl = socket_option K d IP_MULTICAST_TTL ttl"

definition join_group :: "('a, 'k) kernel \<Rightarrow> int \<Rightarrow> string \<Rightarrow> ('a, 'k) process \<Rightarrow> bool \<times> ('a, 'k) process" where
  "join_group K d ip p = (case call K (Setsockopt d (IP_ADD_MEMBERSHIP ip) 0) p of (r, p) \<Rightarrow> (r \<noteq> - 1, p))"

section \<open>Creating a socket\<close>

record SocketConfigs =
  cfg_ip :: string
  cfg_iface :: string
  cfg_port :: int
  is_udp :: bool
  is_listening :: bool
  needs_so_timestamp :: bool

definition asserted :: "bool \<times> 'p \<Rightarrow> 'p res" where
  "asserted r = (case r of (ok, p) \<Rightarrow> res_bind (ensure ok FatalExit) (\<lambda>_. Inr p))"

text \<open>A step that is taken only under a condition.\<close>

definition step_if :: "bool \<Rightarrow> ('p \<Rightarrow> 'p res) \<Rightarrow> 'p \<Rightarrow> 'p res" where
  "step_if c f p = (if c then f p else Inr p)"

text \<open>The body of the loop over the addresses, for one address.\<close>

definition setup_socket :: "('a, 'k) kernel \<Rightarrow> SocketConfigs \<Rightarrow> 'a \<Rightarrow> ('a, 'k) process \<Rightarrow> (int \<times> ('a, 'k) process) res" where
  "setup_socket K cfg rp p =
    res_bind (must K (Socket rp) (\<lambda>d. d \<noteq> - 1) p) (\<lambda>(d, p).
    res_bind (asserted (setNonBlocking K d p)) (\<lambda>p.
    res_bind (step_if (\<not> is_udp cfg) (\<lambda>p. asserted (disableNagle K d p)) p) (\<lambda>p.
    res_bind (step_if (\<not> is_listening cfg) (\<lambda>p. res_bind (must K (Connect d rp) (\<lambda>r. r \<noteq> 1) p) (\<lambda>(_, p). Inr p)) p) (\<lambda>p.
    res_bind (step_if (is_listening cfg) (\<lambda>p. asserted (socket_option K d SO_REUSEADDR 1 p)) p) (\<lambda>p.
    res_bind (step_if (is_listening cfg) (\<lambda>p.
        res_bind (must K (Bind d (if is_udp cfg then Any_Port (cfg_port cfg) else Found rp)) (\<lambda>r. r = 0) p) (\<lambda>(_, p). Inr p)) p) (\<lambda>p.
    res_bind (step_if (\<not> is_udp cfg \<and> is_listening cfg) (\<lambda>p.
        res_bind (must K (Listen d MaxTCPServerBacklog) (\<lambda>r. r = 0) p) (\<lambda>(_, p). Inr p)) p) (\<lambda>p.
    res_bind (step_if (needs_so_timestamp cfg) (\<lambda>p. asserted (setSOTimestamp K d p)) p) (\<lambda>p.
    Inr (d, p)))))))))"

definition createSocket :: "('a, 'k) kernel \<Rightarrow> SocketConfigs \<Rightarrow> ('a, 'k) process \<Rightarrow> (int \<times> ('a, 'k) process) res" where
  "createSocket K cfg p =
    (let ip = (if cfg_ip cfg = '''' then getIfaceIP K (cfg_iface cfg) else cfg_ip cfg);
         (rc, results) = getaddrinfo K ip (cfg_port cfg) (is_listening cfg) (is_udp cfg) in
     res_bind (ensure (rc = 0) FatalExit) (\<lambda>_.
     res_fold (\<lambda>rp (_, p). setup_socket K cfg rp p) results (- 1, p)))"

section \<open>The three kinds of sockets\<close>

definition tcp_connect ::
  "('a, 'k) kernel \<Rightarrow> string \<Rightarrow> string \<Rightarrow> int \<Rightarrow> bool \<Rightarrow> TCPSocket \<Rightarrow> ('a, 'k) process \<Rightarrow> (TCPSocket \<times> ('a, 'k) process) res" where
  "tcp_connect K ip iface port listening s p =
    res_bind (createSocket K \<lparr>cfg_ip = ip, cfg_iface = iface, cfg_port = port, is_udp = False,
        is_listening = listening, needs_so_timestamp = True\<rparr> p) (\<lambda>(d, p).
    Inr (s\<lparr>fd := d\<rparr>, p))"

definition mcast_open ::
  "('a, 'k) kernel \<Rightarrow> string \<Rightarrow> string \<Rightarrow> int \<Rightarrow> bool \<Rightarrow> McastSocket \<Rightarrow> ('a, 'k) process \<Rightarrow> (McastSocket \<times> ('a, 'k) process) res" where
  "mcast_open K ip iface port listening s p =
    res_bind (createSocket K \<lparr>cfg_ip = ip, cfg_iface = iface, cfg_port = port, is_udp = True,
        is_listening = listening, needs_so_timestamp = False\<rparr> p) (\<lambda>(d, p).
    Inr (mcast_init d s, p))"

definition mcast_join :: "('a, 'k) kernel \<Rightarrow> string \<Rightarrow> McastSocket \<Rightarrow> ('a, 'k) process \<Rightarrow> bool \<times> ('a, 'k) process" where
  "mcast_join K ip s = join_group K (socket_fd s) ip"

text \<open>\<open>Epoll_Add\<close> requests input events, edge-triggered; the server's descriptor of epoll is not kept in the model.\<close>

definition AddToEpollList :: "('a, 'k) kernel \<Rightarrow> int \<Rightarrow> int \<Rightarrow> ('a, 'k) process \<Rightarrow> bool \<times> ('a, 'k) process" where
  "AddToEpollList K epoll d p = (case call K (Epoll_Add epoll d) p of (r, p) \<Rightarrow> (r = 0, p))"

definition server_listen ::
  "('a, 'k) kernel \<Rightarrow> string \<Rightarrow> int \<Rightarrow> TCPSocket \<Rightarrow> ('a, 'k) process \<Rightarrow> (TCPServer \<times> ('a, 'k) process) res" where
  "server_listen K iface port listener p =
    res_bind (must K (Epoll_Create 1) (\<lambda>d. d \<ge> 0) p) (\<lambda>(epoll, p).
    res_bind (tcp_connect K '''' iface port True listener p) (\<lambda>(listener, p).
    res_bind (ensure (fd listener \<ge> 0) FatalExit) (\<lambda>_.
    res_bind (asserted (AddToEpollList K epoll (fd listener) p)) (\<lambda>p.
    Inr (\<lparr>listener_fd = fd listener, all_sockets = (\<lambda>_. None), recv_sockets = [], send_sockets = []\<rparr>, p)))))"

section \<open>Properties\<close>

text \<open>A kernel that grants what it is asked, with the possible exception of a connection.\<close>

fun granted :: "'a syscall \<Rightarrow> int \<Rightarrow> bool" where
  "granted (Socket a) r = (0 \<le> r)"
| "granted (Epoll_Create n) r = (0 \<le> r)"
| "granted (Fcntl_Get d) r = (r \<noteq> - 1)"
| "granted (Connect d a) r = (r = 0 \<or> r = - 1)"
| "granted c r = (r = 0)"

definition obliging :: "('a, 'k) kernel \<Rightarrow> bool" where
  "obliging K \<longleftrightarrow> (\<forall>c k. granted c (fst (sys K c k)))"

text \<open>What it takes to set up one socket, given its descriptor and its initial flags.\<close>

definition socket_calls :: "SocketConfigs \<Rightarrow> 'a \<Rightarrow> int \<times> int \<Rightarrow> 'a syscall list" where
  "socket_calls cfg rp df = (case df of (d, flags) \<Rightarrow>
    [Socket rp, Fcntl_Get d]
    @ (if and flags O_NONBLOCK = 0 then [Fcntl_Set d (or flags O_NONBLOCK)] else [])
    @ (if is_udp cfg then [] else [Setsockopt d TCP_NODELAY 1])
    @ (if is_listening cfg
       then [Setsockopt d SO_REUSEADDR 1, Bind d (if is_udp cfg then Any_Port (cfg_port cfg) else Found rp)]
         @ (if is_udp cfg then [] else [Listen d MaxTCPServerBacklog])
       else [Connect d rp])
    @ (if needs_so_timestamp cfg then [Setsockopt d SO_TIMESTAMP 1] else []))"

lemma call_granted:
  assumes "obliging K"
  obtains r k' where "call K c (k, cs) = (r, k', cs @ [c])" and "granted c r"
proof -
  obtain r k' where s: "sys K c k = (r, k')" by fastforce
  have "granted c r" using assms s by (metis fst_conv obliging_def)
  then show thesis using that s by (simp add: call_def)
qed

lemma must_granted:
  assumes "obliging K" and "\<And>r. granted c r \<Longrightarrow> good r"
  obtains r k' where "must K c good (k, cs) = Inr (r, k', cs @ [c])" and "granted c r"
proof -
  obtain r k' where "call K c (k, cs) = (r, k', cs @ [c])" "granted c r" using call_granted[OF assms(1)] .
  then show thesis using that assms(2) by (simp add: must_def)
qed

lemma socket_option_granted:
  assumes "obliging K"
  obtains k' where "asserted (socket_option K d opt v (k, cs)) = Inr (k', cs @ [Setsockopt d opt v])"
proof -
  obtain r k' where "call K (Setsockopt d opt v) (k, cs) = (r, k', cs @ [Setsockopt d opt v])"
    "granted (Setsockopt d opt v :: 'a syscall) r" using call_granted[OF assms] .
  then show thesis using that by (simp add: socket_option_def asserted_def)
qed

lemma setNonBlocking_granted:
  assumes "obliging K"
  obtains flags k' where "asserted (setNonBlocking K d (k, cs)) = Inr (k', cs @ Fcntl_Get d #
    (if and flags O_NONBLOCK = 0 then [Fcntl_Set d (or flags O_NONBLOCK)] else []))"
proof -
  obtain flags k1 where get: "call K (Fcntl_Get d) (k, cs) = (flags, k1, cs @ [Fcntl_Get d])"
    "granted (Fcntl_Get d :: 'a syscall) flags" using call_granted[OF assms] .
  obtain r k2 where put: "call K (Fcntl_Set d (or flags O_NONBLOCK)) (k1, cs @ [Fcntl_Get d])
      = (r, k2, (cs @ [Fcntl_Get d]) @ [Fcntl_Set d (or flags O_NONBLOCK)])"
    "granted (Fcntl_Set d (or flags O_NONBLOCK) :: 'a syscall) r" using call_granted[OF assms] .
  show thesis
    by (rule that[of "if and flags O_NONBLOCK = 0 then k2 else k1" flags])
      (use get put in \<open>simp add: setNonBlocking_def asserted_def\<close>)
qed

lemma option_step:
  assumes "obliging K"
  shows "\<exists>k'. step_if b (\<lambda>p. asserted (socket_option K d opt v p)) (k, cs)
    = Inr (k', cs @ (if b then [Setsockopt d opt v] else []))"
  by (rule socket_option_granted[OF assms, of d opt v k cs]) (simp add: step_if_def)

lemma must_step:
  assumes "obliging K" and "\<And>r. granted c r \<Longrightarrow> good r"
  shows "\<exists>k'. step_if b (\<lambda>p. res_bind (must K c good p) (\<lambda>(_, p). Inr p)) (k, cs)
    = Inr (k', cs @ (if b then [c] else []))"
  by (rule must_granted[OF assms, where k=k and cs=cs]) (auto simp: step_if_def)

lemma setup_socket_granted:
  assumes ob: "obliging K"
  obtains d flags k' where "setup_socket K cfg rp (k, cs) = Inr (d, k', cs @ socket_calls cfg rp (d, flags))" and "0 \<le> d"
proof -
  obtain d k1 where s1: "must K (Socket rp) (\<lambda>d. d \<noteq> - 1) (k, cs) = Inr (d, k1, cs @ [Socket rp])"
    and d: "granted (Socket rp) d"
    by (rule must_granted[OF ob, of "Socket rp" "\<lambda>d. d \<noteq> - 1" k cs]) auto
  define c1 where "c1 = cs @ [Socket rp]"
  obtain flags k2 where s2: "asserted (setNonBlocking K d (k1, c1)) = Inr (k2, c1 @ Fcntl_Get d #
      (if and flags O_NONBLOCK = 0 then [Fcntl_Set d (or flags O_NONBLOCK)] else []))"
    by (rule setNonBlocking_granted[OF ob])
  define c2 where "c2 = c1 @ Fcntl_Get d # (if and flags O_NONBLOCK = 0 then [Fcntl_Set d (or flags O_NONBLOCK)] else [])"
  note option = option_step[OF ob, of _ d, THEN exE]
  define b where "b = Bind d (if is_udp cfg then Any_Port (cfg_port cfg) else Found rp)"
  have connected: "granted (Connect d rp) r \<Longrightarrow> r \<noteq> 1" for r by auto
  have bound: "granted b r \<Longrightarrow> r = 0" for r by (simp add: b_def)
  have listening: "granted (Listen d n :: 'a syscall) r \<Longrightarrow> r = 0" for n r by simp
  obtain k3 where s3: "step_if (\<not> is_udp cfg) (\<lambda>p. asserted (socket_option K d TCP_NODELAY 1 p)) (k2, c2)
      = Inr (k3, c2 @ (if \<not> is_udp cfg then [Setsockopt d TCP_NODELAY 1] else []))" by (rule option)
  define c3 where "c3 = c2 @ (if \<not> is_udp cfg then [Setsockopt d TCP_NODELAY 1] else [])"
  obtain k4 where s4: "step_if (\<not> is_listening cfg)
      (\<lambda>p. res_bind (must K (Connect d rp) (\<lambda>r. r \<noteq> 1) p) (\<lambda>(_, p). Inr p)) (k3, c3)
      = Inr (k4, c3 @ (if \<not> is_listening cfg then [Connect d rp] else []))"
    by (rule must_step[OF ob connected, THEN exE])
  define c4 where "c4 = c3 @ (if \<not> is_listening cfg then [Connect d rp] else [])"
  obtain k5 where s5: "step_if (is_listening cfg) (\<lambda>p. asserted (socket_option K d SO_REUSEADDR 1 p)) (k4, c4)
      = Inr (k5, c4 @ (if is_listening cfg then [Setsockopt d SO_REUSEADDR 1] else []))" by (rule option)
  define c5 where "c5 = c4 @ (if is_listening cfg then [Setsockopt d SO_REUSEADDR 1] else [])"
  obtain k6 where s6: "step_if (is_listening cfg)
      (\<lambda>p. res_bind (must K b (\<lambda>r. r = 0) p) (\<lambda>(_, p). Inr p)) (k5, c5)
      = Inr (k6, c5 @ (if is_listening cfg then [b] else []))"
    by (rule must_step[OF ob bound, THEN exE])
  define c6 where "c6 = c5 @ (if is_listening cfg then [b] else [])"
  obtain k7 where s7: "step_if (\<not> is_udp cfg \<and> is_listening cfg)
      (\<lambda>p. res_bind (must K (Listen d MaxTCPServerBacklog) (\<lambda>r. r = 0) p) (\<lambda>(_, p). Inr p)) (k6, c6)
      = Inr (k7, c6 @ (if \<not> is_udp cfg \<and> is_listening cfg then [Listen d MaxTCPServerBacklog] else []))"
    by (rule must_step[OF ob listening, THEN exE])
  define c7 where "c7 = c6 @ (if \<not> is_udp cfg \<and> is_listening cfg then [Listen d MaxTCPServerBacklog] else [])"
  obtain k8 where s8: "step_if (needs_so_timestamp cfg) (\<lambda>p. asserted (socket_option K d SO_TIMESTAMP 1 p)) (k7, c7)
      = Inr (k8, c7 @ (if needs_so_timestamp cfg then [Setsockopt d SO_TIMESTAMP 1] else []))" by (rule option)
  note steps = s1[folded c1_def] s2[folded c2_def] s3[folded c3_def] s4[folded c4_def] s5[folded c5_def]
    s6[folded c6_def, unfolded b_def] s7[folded c7_def] s8
  have "setup_socket K cfg rp (k, cs) = Inr (d, k8, c7 @ (if needs_so_timestamp cfg then [Setsockopt d SO_TIMESTAMP 1] else []))"
    unfolding setup_socket_def disableNagle_def setSOTimestamp_def
    by (simp only: steps res_bind_simps prod.case)
  also have "c7 @ (if needs_so_timestamp cfg then [Setsockopt d SO_TIMESTAMP 1] else []) = cs @ socket_calls cfg rp (d, flags)"
    by (simp add: c7_def c6_def c5_def c4_def c3_def c2_def c1_def b_def socket_calls_def)
  finally show thesis using that d by simp
qed

lemma setup_sockets_granted:
  assumes ob: "obliging K"
  shows "\<exists>dfs k'. length dfs = length rps \<and> list_all (\<lambda>(d, _). 0 \<le> d) dfs \<and>
    res_fold (\<lambda>rp (_, p). setup_socket K cfg rp p) rps (d0, k, cs)
      = Inr (last (d0 # map fst dfs), k', cs @ concat (map2 (socket_calls cfg) rps dfs))"
proof (induction rps arbitrary: d0 k cs)
  case (Cons rp rps)
  obtain d flags k1 where one: "setup_socket K cfg rp (k, cs) = Inr (d, k1, cs @ socket_calls cfg rp (d, flags))" "0 \<le> d"
    by (rule setup_socket_granted[OF ob])
  obtain dfs k' where "length dfs = length rps" "list_all (\<lambda>(d, _). 0 \<le> d) dfs"
    "res_fold (\<lambda>rp (_, p). setup_socket K cfg rp p) rps (d, k1, cs @ socket_calls cfg rp (d, flags))
      = Inr (last (d # map fst dfs), k', (cs @ socket_calls cfg rp (d, flags)) @ concat (map2 (socket_calls cfg) rps dfs))"
    using Cons.IH by blast
  with one show ?case by (intro exI[of _ "(d, flags) # dfs"] exI[of _ k']) simp
qed simp

text \<open>C40: A socket is made non-blocking and set up for what it is asked to do, in this
  order; but connecting is taken for granted: the check of its result compares with \<open>1\<close>, which
  \<^verbatim>\<open>connect\<close> never returns. A socket is opened for every address found, of which the last is
  returned and the others are never closed.\<close>

theorem socket_configured:
  assumes "obliging K"
    and "getaddrinfo K (if cfg_ip cfg = '''' then getIfaceIP K (cfg_iface cfg) else cfg_ip cfg) (cfg_port cfg)
      (is_listening cfg) (is_udp cfg) = (0, rps)"
  shows "\<exists>dfs k'. length dfs = length rps \<and> list_all (\<lambda>(d, _). 0 \<le> d) dfs \<and>
    createSocket K cfg (k, cs) = Inr (last (- 1 # map fst dfs), k', cs @ concat (map2 (socket_calls cfg) rps dfs))"
  using setup_sockets_granted[OF assms(1), of rps cfg "- 1" k cs] assms(2) by (simp add: createSocket_def)

text \<open>A kernel whose state is the next descriptor and which refuses connections.\<close>

definition refusing :: "(string, nat) kernel" where
  "refusing = \<lparr>sys = (\<lambda>c k. case c of Socket _ \<Rightarrow> (int k, k + 1) | Fcntl_Get _ \<Rightarrow> (2, k) | Connect _ _ \<Rightarrow> (- 1, k) | _ \<Rightarrow> (0, k)),
    getifaddrs = Some [\<lparr>ifa_name = ''lo'', ifa_inet = True, ifa_host = ''127.0.0.1''\<rparr>],
    getaddrinfo = (\<lambda>ip port l u. (0, [ip, ip]))\<rparr>"

lemma refusing_obliging: "obliging refusing"
proof -
  have "granted c (fst (sys refusing c k))" for c k
    by (cases c) (simp_all add: refusing_def)
  then show ?thesis by (simp add: obliging_def)
qed

definition gateway_config :: SocketConfigs where
  "gateway_config = \<lparr>cfg_ip = '''', cfg_iface = ''lo'', cfg_port = 12345, is_udp = False, is_listening = False,
    needs_so_timestamp = True\<rparr>"

lemma gateway_addresses:
  "getaddrinfo refusing (if cfg_ip gateway_config = '''' then getIfaceIP refusing (cfg_iface gateway_config)
      else cfg_ip gateway_config) (cfg_port gateway_config) (is_listening gateway_config) (is_udp gateway_config)
    = (0, [''127.0.0.1'', ''127.0.0.1''])"
  by (simp add: gateway_config_def refusing_def getIfaceIP_def)

text \<open>Two addresses, two descriptors, both refused.\<close>

theorem socket_configured_witness:
  "\<exists>dfs k'. length dfs = 2 \<and> list_all (\<lambda>(d, _). 0 \<le> d) dfs \<and>
    createSocket refusing gateway_config (3, []) = Inr (last (- 1 # map fst dfs), k',
      concat (map2 (socket_calls gateway_config) [''127.0.0.1'', ''127.0.0.1''] dfs))"
  using socket_configured[OF refusing_obliging gateway_addresses, of 3 "[]"]
  by (simp only: append_Nil list.size numeral_2_eq_2 add_0_right add_Suc_right)

text \<open>So a client whose connection is refused goes on with a socket that leads nowhere, and joins no
  exchange.\<close>

lemma refused_connection_unnoticed:
  "case tcp_connect refusing ''127.0.0.1'' ''lo'' 12345 False (new_TCPSocket (- 1)) (3, []) of
     Inr (s, _, calls) \<Rightarrow> fd s = 4 \<and> Connect 4 ''127.0.0.1'' \<in> set calls \<and> Close 3 \<notin> set calls
   | Inl _ \<Rightarrow> False"
  by code_simp

end
