(* ===== verification/Threads.thy ===== *)
theory Threads
  imports Prelude
begin

text \<open>
  The threads of the programs: \<^verbatim>\<open>createAndStartThread\<close> (\<^verbatim>\<open>utils/thread_utils.hpp\<close>) and
  the pattern all components share: a flag \<^verbatim>\<open>run_\<close>, a thread that works while the flag is set, and
  \<^verbatim>\<open>start\<close> and \<^verbatim>\<open>stop\<close>, which the main thread calls. The main thread is a list of the
  commands it has still to execute; a schedule interleaves it with the others. What can go wrong is a
  \<^verbatim>\<open>std::terminate\<close>, or a thread that uses what is gone. The life cycle of a worker as the state machine
  \<open>advance\<close> is the discipline under which nothing goes wrong and everything ends.
\<close>

section \<open>Workers\<close>

datatype component = MAIN | MATCHING_ENGINE | ORDER_SERVER | MARKET_DATA_PUBLISHER | SNAPSHOT_SYNTHETIZER
  | TRADE_ENGINE | ORDER_GATEWAY | MARKET_DATA_CONSUMER

text \<open>A component has the thread of its loop and the thread of its \<^verbatim>\<open>Logger\<close>.\<close>

datatype worker = Loop component | Flush component

definition all_components :: "component list" where
  "all_components = [MAIN, MATCHING_ENGINE, ORDER_SERVER, MARKET_DATA_PUBLISHER, SNAPSHOT_SYNTHETIZER,
     TRADE_ENGINE, ORDER_GATEWAY, MARKET_DATA_CONSUMER]"

definition all_workers :: "worker list" where
  "all_workers = map Loop all_components @ map Flush all_components"

lemma set_all_workers [simp]: "set all_workers = UNIV"
proof (rule UNIV_eq_I[symmetric])
  have "c \<in> set all_components" for c by (cases c) (simp_all add: all_components_def)
  then show "w \<in> set all_workers" for w by (cases w) (simp_all add: all_workers_def)
qed

text \<open>\<open>Born\<close>: the thread exists and has not looked at its arguments. \<open>Entering\<close>: its core is
  settled, and it has still to call the function it was given. \<open>Working\<close>: it is in the loop.\<close>

datatype thread = No_Thread | Born | Entering | Working | Finished

text \<open>\<open>alive\<close>: the object is constructed and not destroyed; \<open>owned\<close>: its \<^verbatim>\<open>std::thread\<close> is
  joinable; \<open>frame\<close>: the core identifier in the call of \<^verbatim>\<open>createAndStartThread\<close> that has not returned;
  \<open>rounds\<close>: the turns of the loop so far.\<close>

record worker_state =
  alive :: bool
  run_flag :: bool
  owned :: bool
  frame :: "int option"
  thread :: thread
  rounds :: nat

datatype crash = Std_Terminate | Dead_Frame | Dead_Object | Fatal_Exit

text \<open>\<^verbatim>\<open>threadBody\<close> captures everything by reference: the core identifier and the function
  are read from the frame of \<^verbatim>\<open>createAndStartThread\<close>. \<open>pinned\<close> is the result of
  \<^verbatim>\<open>setThreadAffinity\<close>.\<close>

definition body_step :: "bool \<Rightarrow> worker_state \<Rightarrow> crash + worker_state" where
  "body_step pinned s =
    (case thread s of
       Born \<Rightarrow> (case frame s of
           None \<Rightarrow> Inl Dead_Frame
         | Some core_id \<Rightarrow> Inr (s\<lparr>thread := if 0 \<le> core_id \<and> \<not> pinned then Finished else Entering\<rparr>))
     | Entering \<Rightarrow> (case frame s of None \<Rightarrow> Inl Dead_Frame | Some _ \<Rightarrow> Inr (s\<lparr>thread := Working\<rparr>))
     | Working \<Rightarrow>
         if \<not> alive s then Inl Dead_Object
         else if run_flag s then Inr (s\<lparr>rounds := rounds s + 1\<rparr>)
         else Inr (s\<lparr>thread := Finished\<rparr>)
     | _ \<Rightarrow> Inr s)"

text \<open>What the main thread does to a worker; the answer \<open>None\<close> is to wait.\<close>

datatype action = Begin bool | End | Set_Run bool | Create int | Return | Join | Join_If_Joinable

definition join_thread :: "worker_state \<Rightarrow> worker_state option" where
  "join_thread s = (if thread s = Finished then Some (s\<lparr>owned := False\<rparr>) else None)"

definition act :: "action \<Rightarrow> worker_state \<Rightarrow> crash + worker_state option" where
  "act a s =
    (case a of
       Begin b \<Rightarrow> Inr (Some \<lparr>alive = True, run_flag = b, owned = False, frame = None, thread = No_Thread, rounds = 0\<rparr>)
     | _ \<Rightarrow>
       if \<not> alive s then Inl Dead_Object
       else case a of
         End \<Rightarrow> if owned s then Inl Std_Terminate else Inr (Some (s\<lparr>alive := False\<rparr>))
       | Set_Run b \<Rightarrow> Inr (Some (s\<lparr>run_flag := b\<rparr>))
       | Create core_id \<Rightarrow> Inr (Some (s\<lparr>frame := Some core_id, thread := Born\<rparr>))
       | Return \<Rightarrow> if owned s then Inl Std_Terminate else Inr (Some (s\<lparr>frame := None, owned := True\<rparr>))
       | Join \<Rightarrow> if owned s then Inr (join_thread s) else Inl Std_Terminate
       | Join_If_Joinable \<Rightarrow> if owned s then Inr (join_thread s) else Inr (Some s))"

section \<open>The process\<close>

text \<open>The commands of the main thread. \<open>Require\<close>: a system call under an \<^verbatim>\<open>ASSERT\<close>.
  \<open>Await\<close>: a loop that sleeps until a condition holds. \<open>Pause\<close>: the loop that sleeps for ever. \<open>Point_To\<close>:
  the assignment of a global pointer.\<close>

datatype command = On worker action | Sleep int | Require | Await | Point_To component | Pause | Exit int

record process =
  workers :: "worker \<Rightarrow> worker_state"
  exited :: "int option"

type_synonym config = "command list \<times> process"

definition main_step :: "bool \<Rightarrow> command \<Rightarrow> command list \<Rightarrow> process \<Rightarrow> crash + config" where
  "main_step granted c cs p =
    (case c of
       On w a \<Rightarrow> (case act a (workers p w) of
           Inl e \<Rightarrow> Inl e
         | Inr None \<Rightarrow> Inr (c # cs, p)
         | Inr (Some s) \<Rightarrow> Inr (cs, p\<lparr>workers := (workers p)(w := s)\<rparr>))
     | Require \<Rightarrow> if granted then Inr (cs, p) else Inl Fatal_Exit
     | Await \<Rightarrow> if granted then Inr (cs, p) else Inr (c # cs, p)
     | Pause \<Rightarrow> Inr (c # cs, p)
     | Exit code \<Rightarrow> Inr ([], p\<lparr>exited := Some code\<rparr>)
     | _ \<Rightarrow> Inr (cs, p))"

text \<open>A schedule says who takes the next step, and what the system answers.\<close>

datatype actor = Main bool | Thread worker bool

fun step :: "actor \<Rightarrow> config \<Rightarrow> crash + config" where
  "step (Main granted) ([], p) = Inr ([], p)"
| "step (Main granted) (c # cs, p) = main_step granted c cs p"
| "step (Thread w pinned) (cs, p) =
    (if exited p \<noteq> None then Inr (cs, p)
     else case body_step pinned (workers p w) of
       Inl e \<Rightarrow> Inl e
     | Inr s \<Rightarrow> Inr (cs, p\<lparr>workers := (workers p)(w := s)\<rparr>))"

primrec run :: "actor list \<Rightarrow> config \<Rightarrow> crash + config" where
  "run [] x = Inr x"
| "run (a # as) x = (case step a x of Inl e \<Rightarrow> Inl e | Inr y \<Rightarrow> run as y)"

lemma run_append: "run (as @ bs) x = (case run as x of Inl e \<Rightarrow> Inl e | Inr y \<Rightarrow> run bs y)"
  by (induction as arbitrary: x) (auto split: sum.splits)

text \<open>\<^verbatim>\<open>createAndStartThread\<close> sleeps for a second before it returns. A schedule is punctual
  if every thread has called its function by then.\<close>

definition in_time :: "actor \<Rightarrow> config \<Rightarrow> bool" where
  "in_time a x = (case (a, fst x) of
     (Main _, On w Return # _) \<Rightarrow> thread (workers (snd x) w) \<notin> {Born, Entering}
   | _ \<Rightarrow> True)"

primrec punctual :: "actor list \<Rightarrow> config \<Rightarrow> bool" where
  "punctual [] x = True"
| "punctual (a # as) x = (in_time a x \<and> (case step a x of Inl e \<Rightarrow> True | Inr y \<Rightarrow> punctual as y))"

section \<open>The life cycle of a worker\<close>

text \<open>The discipline: constructed, started, stopped by clearing the flag before the join, destroyed after.\<close>

datatype phase = Absent | Idle bool | Starting bool | Running bool

fun advance :: "action \<Rightarrow> phase \<Rightarrow> phase option" where
  "advance (Begin b) Absent = Some (Idle b)"
| "advance End (Idle b) = Some Absent"
| "advance (Set_Run b) (Idle _) = Some (Idle b)"
| "advance (Set_Run b) (Starting _) = Some (Starting b)"
| "advance (Set_Run b) (Running _) = Some (Running b)"
| "advance (Create _) (Idle b) = Some (Starting b)"
| "advance Return (Starting b) = Some (Running b)"
| "advance Join (Running False) = Some (Idle False)"
| "advance Join_If_Joinable (Running False) = Some (Idle False)"
| "advance Join_If_Joinable (Idle b) = Some (Idle b)"
| "advance Join_If_Joinable (Starting b) = Some (Starting b)"
| "advance _ _ = None"

fun follow :: "worker \<Rightarrow> command list \<Rightarrow> phase \<Rightarrow> phase option" where
  "follow w [] ph = Some ph"
| "follow w (On w' a # cs) ph =
    (if w' = w then (case advance a ph of None \<Rightarrow> None | Some ph' \<Rightarrow> follow w cs ph') else follow w cs ph)"
| "follow w (Exit code # cs) ph = Some ph"
| "follow w (_ # cs) ph = follow w cs ph"

primrec all_follow :: "worker list \<Rightarrow> command list \<Rightarrow> bool" where
  "all_follow [] cs = True"
| "all_follow (w # ws) cs = (follow w cs Absent \<noteq> None \<and> all_follow ws cs)"

definition disciplined :: "command list \<Rightarrow> bool" where
  "disciplined cs = all_follow all_workers cs"

lemma disciplined_iff: "disciplined cs \<longleftrightarrow> (\<forall>w. follow w cs Absent \<noteq> None)"
proof -
  have "all_follow ws cs \<longleftrightarrow> (\<forall>w\<in>set ws. follow w cs Absent \<noteq> None)" for ws
    by (induction ws) simp_all
  then show ?thesis by (simp add: disciplined_def)
qed

primrec in_phase :: "phase \<Rightarrow> worker_state \<Rightarrow> bool" where
  "in_phase Absent s \<longleftrightarrow> \<not> owned s \<and> frame s = None \<and> thread s \<in> {No_Thread, Finished}"
| "in_phase (Idle b) s \<longleftrightarrow> alive s \<and> run_flag s = b \<and> \<not> owned s \<and> frame s = None \<and> thread s \<in> {No_Thread, Finished}"
| "in_phase (Starting b) s \<longleftrightarrow> alive s \<and> run_flag s = b \<and> \<not> owned s \<and> frame s \<noteq> None \<and> thread s \<noteq> No_Thread"
| "in_phase (Running b) s \<longleftrightarrow> alive s \<and> run_flag s = b \<and> owned s \<and> frame s = None \<and> thread s \<in> {Working, Finished}"

lemma body_step_phase:
  assumes "in_phase ph s"
  shows "\<exists>s'. body_step pinned s = Inr s' \<and> in_phase ph s'"
  using assms by (cases ph; cases "thread s") (auto simp: body_step_def)

lemma act_phase:
  assumes "advance a ph = Some ph'" and "in_phase ph s" and "a = Return \<longrightarrow> thread s \<notin> {Born, Entering}"
  shows "(\<exists>s'. act a s = Inr (Some s') \<and> in_phase ph' s') \<or>
    (act a s = Inr None \<and> a \<in> {Join, Join_If_Joinable} \<and> thread s = Working \<and> \<not> run_flag s)"
  using assms by (cases "(a, ph)" rule: advance.cases; cases "thread s") (auto simp: act_def join_thread_def)

text \<open>A configuration in order: every worker is in a phase from which the commands left take it to its last one.\<close>

definition in_order :: "(worker \<Rightarrow> phase) \<Rightarrow> config \<Rightarrow> bool" where
  "in_order fin x \<longleftrightarrow> (exited (snd x) \<noteq> None \<longrightarrow> fst x = []) \<and>
     (\<forall>w. \<exists>ph. in_phase ph (workers (snd x) w) \<and> follow w (fst x) ph = Some (fin w))"

lemma main_step_order:
  assumes "in_order fin (c # cs, p)" and "in_time (Main g) (c # cs, p)"
  shows "main_step g c cs p = Inl Fatal_Exit \<and> \<not> g \<or> (\<exists>x. main_step g c cs p = Inr x \<and> in_order fin x)"
proof (cases c)
  case (On w a)
  have p: "exited p = None" using assms(1) by (auto simp: in_order_def)
  obtain ph ph' where ph: "in_phase ph (workers p w)" "advance a ph = Some ph'" "follow w cs ph' = Some (fin w)"
    using assms(1) On by (auto simp: in_order_def split: option.splits dest!: spec[of _ w])
  have "a = Return \<longrightarrow> thread (workers p w) \<notin> {Born, Entering}"
    using assms(2) On by (auto simp: in_time_def)
  then consider (go) s where "act a (workers p w) = Inr (Some s)" "in_phase ph' s" | (wait) "act a (workers p w) = Inr None"
    using act_phase[OF ph(2,1)] by blast
  then show ?thesis
  proof cases
    case go
    then have "\<exists>ph. in_phase ph (((workers p)(w := s)) v) \<and> follow v cs ph = Some (fin v)" for v
      using assms(1) ph(3) On by (cases "v = w") (auto simp: in_order_def dest!: spec[of _ v])
    then show ?thesis using go On p by (simp add: main_step_def in_order_def)
  next
    case wait
    then show ?thesis using assms(1) On by (simp add: main_step_def)
  qed
qed (use assms(1) in \<open>auto simp: main_step_def in_order_def\<close>)

lemma step_order:
  assumes "in_order fin x" and "in_time a x"
  shows "step a x = Inl Fatal_Exit \<and> a = Main False \<or> (\<exists>y. step a x = Inr y \<and> in_order fin y)"
proof (cases "(a, x)" rule: step.cases)
  case (3 w b cs p)
  show ?thesis
  proof (cases "exited p")
    case None
    obtain ph where ph: "in_phase ph (workers p w)" "follow w cs ph = Some (fin w)"
      using assms(1) 3 by (auto simp: in_order_def)
    obtain s where s: "body_step b (workers p w) = Inr s" "in_phase ph s" using body_step_phase[OF ph(1)] by blast
    have "\<exists>ph. in_phase ph (((workers p)(w := s)) v) \<and> follow v cs ph = Some (fin v)" for v
      using assms(1) 3 s(2) ph(2) by (cases "v = w") (auto simp: in_order_def)
    then show ?thesis using 3 None s(1) by (simp add: in_order_def)
  qed (use assms(1) 3 in auto)
qed (use assms main_step_order in auto)

lemma run_order:
  assumes "in_order fin x" and "punctual as x"
  shows "run as x = Inl Fatal_Exit \<and> Main False \<in> set as \<or> (\<exists>y. run as x = Inr y \<and> in_order fin y)"
  using assms
proof (induction as arbitrary: x)
  case (Cons a as)
  then show ?case using step_order[OF Cons.prems(1), of a] by (fastforce split: sum.splits)
qed simp

lemma follow_commands:
  "\<forall>code. Exit code \<notin> set cs \<Longrightarrow>
     follow w (cs @ ds) ph = (case follow w cs ph of None \<Rightarrow> None | Some ph' \<Rightarrow> follow w ds ph')"
  by (induction w cs ph rule: follow.induct) (auto split: option.splits)

text \<open>What a component promises of the worker of its loop, whoever uses it: it is made idle, started,
  stopped from wherever it is, and destroyed whether it was stopped or not.\<close>

locale service =
  fixes w :: worker and construct :: "command list" and start :: "command list" and stop :: "command list"
    and destroy :: "command list"
  assumes constructs: "follow w construct Absent = Some (Idle False)"
    and starts: "follow w start (Idle b) = Some (Running True)"
    and stops: "follow w stop (Running True) = Some (Idle False)"
    and stops_idle: "follow w stop (Idle b) = Some (Idle False)"
    and destroys: "follow w destroy (Running True) = Some Absent"
    and destroys_idle: "follow w destroy (Idle b) = Some Absent"
    and no_exit: "Exit code \<notin> set construct" "Exit code \<notin> set start" "Exit code \<notin> set stop"
begin

lemma cycle_idle: "follow w (concat (replicate n (start @ stop)) @ cs) (Idle False) = follow w cs (Idle False)"
  by (induction n) (simp_all add: follow_commands no_exit starts stops)

lemma cycles: "follow w (construct @ concat (replicate n (start @ stop)) @ destroy) Absent = Some Absent"
  by (subst follow_commands) (simp_all add: no_exit constructs cycle_idle destroys_idle)

lemma destroyed_running: "follow w (construct @ concat (replicate n (start @ stop)) @ start @ destroy) Absent = Some Absent"
  by (subst follow_commands) (simp_all add: no_exit constructs cycle_idle follow_commands starts destroys)

lemma stop_twice: "follow w (stop @ stop @ cs) (Running True) = follow w cs (Idle False)"
  by (simp add: follow_commands no_exit stops stops_idle)

end

text \<open>A program from its start, when no object exists.\<close>

definition fresh_worker :: worker_state where
  "fresh_worker = \<lparr>alive = False, run_flag = False, owned = False, frame = None, thread = No_Thread, rounds = 0\<rparr>"

definition new_process :: process where
  "new_process = \<lparr>workers = (\<lambda>_. fresh_worker), exited = None\<rparr>"

definition last_phase :: "command list \<Rightarrow> worker \<Rightarrow> phase" where
  "last_phase cs w = the (follow w cs Absent)"

lemma disciplined_start:
  assumes "disciplined cs"
  shows "in_order (last_phase cs) (cs, new_process)"
proof -
  have "\<exists>ph. in_phase ph fresh_worker \<and> follow w cs ph = Some (last_phase cs w)" for w
    using assms by (intro exI[of _ Absent]) (auto simp: disciplined_iff last_phase_def fresh_worker_def)
  then show ?thesis by (simp add: in_order_def new_process_def)
qed

section \<open>Progress\<close>

text \<open>Every thread takes a step, and then the main thread, whose calls are granted.\<close>

definition turns :: "(worker \<times> bool) list \<Rightarrow> actor list" where
  "turns ws = map (\<lambda>(w, pinned). Thread w pinned) ws"

definition block :: "(worker \<times> bool) list \<Rightarrow> actor list" where
  "block ws = turns ws @ [Main True]"

definition everyone :: "(worker \<times> bool) list \<Rightarrow> bool" where
  "everyone ws \<longleftrightarrow> (\<forall>w\<in>set all_workers. w \<in> fst ` set ws)"

lemma turns_simps [simp]:
  "turns [] = []" "turns (x # ws) = Thread (fst x) (snd x) # turns ws" "turns (ws @ ws') = turns ws @ turns ws'"
  by (simp_all add: turns_def case_prod_beta)

lemma everyoneD: "everyone ws \<Longrightarrow> w \<in> fst ` set ws"
  by (simp add: everyone_def)

lemma act_waits: "act a s = Inr None \<longleftrightarrow> alive s \<and> owned s \<and> a \<in> {Join, Join_If_Joinable} \<and> thread s \<noteq> Finished"
  by (cases a) (auto simp: act_def join_thread_def)

lemma body_step_keeps:
  assumes "body_step b s = Inr s'"
  shows "alive s' = alive s \<and> owned s' = owned s \<and> run_flag s' = run_flag s \<and> (thread s = Finished \<longrightarrow> thread s' = Finished)"
  using assms by (auto simp: body_step_def split: thread.splits option.splits if_splits)

text \<open>The command at the head does not have to wait.\<close>

definition ready :: "config \<Rightarrow> bool" where
  "ready x \<longleftrightarrow> (case fst x of On w a # _ \<Rightarrow> act a (workers (snd x) w) \<noteq> Inr None | _ \<Rightarrow> True)"

lemma thread_step_cases:
  assumes "step (Thread v b) (cs, p) = Inr y"
  obtains "y = (cs, p)" | s where "body_step b (workers p v) = Inr s" "y = (cs, p\<lparr>workers := (workers p)(v := s)\<rparr>)"
  using assms by (auto split: if_splits sum.splits)

lemma thread_step_ready:
  assumes "step (Thread v b) x = Inr y" and "ready x"
  shows "ready y"
proof -
  obtain cs p where x: "x = (cs, p)" by (cases x)
  from assms(1) show ?thesis unfolding x
  proof (cases rule: thread_step_cases)
    case (2 s)
    have "act a s \<noteq> Inr None" if "act a (workers p v) \<noteq> Inr None" for a
      using that body_step_keeps[OF 2(1)] by (auto simp: act_waits)
    then show ?thesis using assms(2) 2(2) x by (auto simp: ready_def split: list.splits command.splits)
  qed (use assms(2) x in simp)
qed

lemma joining_finishes:
  assumes "in_order fin x" and "fst x = On w a # cs" and "step (Thread w b) x = Inr y"
  shows "ready y"
proof -
  obtain p where x: "x = (On w a # cs, p)" using assms(2) by (cases x) auto
  have run: "exited p = None" using assms(1) x by (auto simp: in_order_def)
  obtain ph ph' where ph: "in_phase ph (workers p w)" "advance a ph = Some ph'"
    using assms(1) x by (auto simp: in_order_def split: option.splits dest!: spec[of _ w])
  obtain s where s: "body_step b (workers p w) = Inr s" and y: "y = (On w a # cs, p\<lparr>workers := (workers p)(w := s)\<rparr>)"
    using assms(3) x run by (auto split: sum.splits)
  have "act a s \<noteq> Inr None"
    using s ph by (cases "(a, ph)" rule: advance.cases; cases "thread (workers p w)")
      (auto simp: body_step_def act_waits split: if_splits)
  then show ?thesis using y by (simp add: ready_def)
qed

lemma thread_step_commands: "step (Thread v b) x = Inr y \<Longrightarrow> fst y = fst x"
  by (cases x) (auto split: if_splits sum.splits)

lemma turns_keep: "run (turns ws) x = Inr y \<Longrightarrow> fst y = fst x \<and> (ready x \<longrightarrow> ready y)"
proof (induction ws arbitrary: x)
  case (Cons v ws)
  then show ?case using thread_step_commands[of "fst v" "snd v" x] thread_step_ready[of "fst v" "snd v" x]
    by (fastforce split: sum.splits)
qed simp

lemma turns_in_time: "punctual (turns ws @ as) x \<longleftrightarrow> (case run (turns ws) x of Inl e \<Rightarrow> True | Inr y \<Rightarrow> punctual as y)"
  by (induction ws arbitrary: x) (auto simp: in_time_def split: sum.splits)

lemma turns_order:
  assumes "in_order fin x"
  shows "\<exists>y. run (turns ws) x = Inr y \<and> in_order fin y"
proof -
  have "Main False \<notin> set (turns ws)" by (auto simp: turns_def)
  then show ?thesis using run_order[OF assms, of "turns ws"] turns_in_time[of ws "[]" x]
    by (auto split: sum.splits)
qed

lemma turns_ready:
  assumes "in_order fin x" and "everyone ws" and "run (turns ws) x = Inr y"
  shows "ready y"
proof (cases "\<exists>w a cs. fst x = On w a # cs")
  case True
  then obtain w a cs where x: "fst x = On w a # cs" by blast
  from everyoneD[OF assms(2), of w] assms(1,3) x show ?thesis
  proof (induction ws arbitrary: x)
    case (Cons v ws)
    obtain x' where x': "step (Thread (fst v) (snd v)) x = Inr x'" "run (turns ws) x' = Inr y"
      using Cons.prems(3) by (auto split: sum.splits)
    show ?case
    proof (cases "fst v = w")
      case True
      then show ?thesis using joining_finishes[OF Cons.prems(2,4)] x' turns_keep by metis
    next
      case False
      have "in_order fin x'" using step_order[OF Cons.prems(2), of "Thread (fst v) (snd v)"] x' by (simp add: in_time_def)
      then show ?thesis using Cons.IH[of x'] Cons.prems(1,4) False x' thread_step_commands[OF x'(1)] by auto
    qed
  qed simp
next
  case False
  then show ?thesis using turns_keep[OF assms(3)] by (auto simp: ready_def split: list.splits command.splits)
qed

text \<open>A main thread that ends the process with a code.\<close>

definition exits_with :: "int \<Rightarrow> config \<Rightarrow> bool" where
  "exits_with code x \<longleftrightarrow> (if fst x = [] then exited (snd x) = Some code
     else last (fst x) = Exit code \<and> (\<forall>k. Exit k \<in> set (fst x) \<longrightarrow> k = code))"

lemma exits_with_main_step:
  assumes "exits_with code (c # cs, p)" and "main_step g c cs p = Inr y"
  shows "exits_with code y"
proof (cases "\<exists>k. c = Exit k")
  case True
  then obtain k where k: "c = Exit k" by blast
  have "y = ([], p\<lparr>exited := Some k\<rparr>)" using assms(2) k by (simp add: main_step_def)
  moreover have "k = code" using assms(1) k by (simp add: exits_with_def)
  ultimately show ?thesis by (simp add: exits_with_def)
next
  case False
  then have cs: "cs \<noteq> []" using assms(1) by (auto simp: exits_with_def)
  have "fst y = cs \<or> fst y = c # cs"
    using assms(2) False by (cases c) (auto simp: main_step_def split: sum.splits option.splits if_splits)
  then show ?thesis using assms(1) cs by (auto simp: exits_with_def)
qed

lemma exits_with_step:
  assumes "exits_with code x" and "step a x = Inr y"
  shows "exits_with code y"
proof (cases a)
  case (Main g)
  then show ?thesis using assms exits_with_main_step by (cases x; cases "fst x") auto
next
  case (Thread w b)
  have "exited (snd y) = exited (snd x)" using assms(2) Thread by (cases x) (auto split: if_splits sum.splits)
  then show ?thesis using assms thread_step_commands[of w b x y] Thread by (simp add: exits_with_def)
qed

lemma exits_with_run: "exits_with code x \<Longrightarrow> run as x = Inr y \<Longrightarrow> exits_with code y"
  by (induction as arbitrary: x) (auto dest: exits_with_step split: sum.splits)

lemma main_step_shortens:
  assumes "in_order fin (c # cs, p)" and "ready (c # cs, p)" and "in_time (Main True) (c # cs, p)" and "c \<noteq> Pause"
  shows "\<exists>y. main_step True c cs p = Inr y \<and> in_order fin y \<and> (fst y = cs \<or> fst y = [])"
proof -
  obtain y where y: "main_step True c cs p = Inr y" "in_order fin y"
    using main_step_order[OF assms(1,3)] by auto
  have "fst y = cs \<or> fst y = []"
    using y(1) assms(2,4) by (cases c) (auto simp: main_step_def ready_def split: sum.splits option.splits)
  then show ?thesis using y by blast
qed

lemma block_shortens:
  assumes "in_order fin x" and "everyone ws" and "punctual (block ws @ as) x" and "Pause \<notin> set (fst x)"
  shows "\<exists>y. run (block ws) x = Inr y \<and> in_order fin y \<and> punctual as y \<and> length (fst y) \<le> length (fst x) - 1 \<and>
    set (fst y) \<subseteq> set (fst x)"
proof -
  obtain y where y: "run (turns ws) x = Inr y" "in_order fin y" using turns_order[OF assms(1)] by blast
  have f: "fst y = fst x" using turns_keep[OF y(1)] by simp
  have p: "punctual (Main True # as) y" using assms(3) y(1) turns_in_time[of ws "Main True # as" x] by (simp add: block_def)
  obtain cs p' where e: "y = (cs, p')" by (cases y)
  show ?thesis
  proof (cases cs)
    case Nil
    then show ?thesis using y f p e by (simp add: block_def run_append)
  next
    case (Cons c cs')
    have x: "fst x = c # cs'" using f e Cons by simp
    then have "c \<noteq> Pause" using assms(4) by auto
    then obtain z where "main_step True c cs' p' = Inr z" "in_order fin z" "fst z = cs' \<or> fst z = []"
      using main_step_shortens[of fin c cs' p'] turns_ready[OF assms(1,2) y(1)] y(2) p e Cons by auto
    then show ?thesis using y(1) p e Cons x by (auto simp: block_def run_append)
  qed
qed

lemma blocks_end:
  assumes "in_order fin x" and "\<forall>ws\<in>set bs. everyone ws" and "punctual (concat (map block bs)) x"
    and "Pause \<notin> set (fst x)" and "length (fst x) \<le> length bs"
  shows "\<exists>y. run (concat (map block bs)) x = Inr y \<and> in_order fin y \<and> fst y = []"
  using assms
proof (induction bs arbitrary: x)
  case (Cons ws bs)
  obtain y where y: "run (block ws) x = Inr y" "in_order fin y" "punctual (concat (map block bs)) y"
      "length (fst y) \<le> length (fst x) - 1" "set (fst y) \<subseteq> set (fst x)"
    using block_shortens[of fin x ws "concat (map block bs)"] Cons.prems by auto
  have "length (fst y) \<le> length bs" using y(4) Cons.prems(5) by simp
  moreover have "Pause \<notin> set (fst y)" using y(5) Cons.prems(4) by blast
  ultimately obtain z where "run (concat (map block bs)) y = Inr z" "in_order fin z" "fst z = []"
    using Cons.IH[OF y(2) _ y(3)] Cons.prems(2) by (metis list.set_intros(2))
  then show ?case using y(1) by (intro exI[of _ z]) (simp add: run_append)
qed simp

text \<open>A thread reaches its function in two steps: where every thread takes two steps between two of the
  main thread, all are in time.\<close>

primrec lag :: "thread \<Rightarrow> nat" where
  "lag No_Thread = 0" | "lag Born = 2" | "lag Entering = 1" | "lag Working = 0" | "lag Finished = 0"

lemma body_step_lag: "body_step b s = Inr s' \<Longrightarrow> lag (thread s') \<le> lag (thread s) - 1"
  by (auto simp: body_step_def split: thread.splits option.splits if_splits)

lemma turns_lag:
  assumes "run (turns ws) (cs, p) = Inr y" and "exited p = None"
  shows "exited (snd y) = None \<and> lag (thread (workers (snd y) w)) \<le> lag (thread (workers p w)) - (if w \<in> fst ` set ws then 1 else 0)"
  using assms
proof (induction ws arbitrary: p)
  case (Cons v ws)
  obtain s where s: "body_step (snd v) (workers p (fst v)) = Inr s"
      "run (turns ws) (cs, p\<lparr>workers := (workers p)(fst v := s)\<rparr>) = Inr y"
    using Cons.prems by (auto split: sum.splits)
  show ?case using Cons.IH[OF s(2)] Cons.prems(2) body_step_lag[OF s(1)] by (cases "fst v = w") (auto split: if_splits)
qed auto

lemma double_turns_called:
  assumes "run (turns (ws @ ws')) (cs, p) = Inr y" and "exited p = None" and "everyone ws" and "everyone ws'"
  shows "thread (workers (snd y) w) \<notin> {Born, Entering}"
proof -
  obtain z where z: "run (turns ws) (cs, p) = Inr z" "run (turns ws') z = Inr y"
    using assms(1) by (auto simp: run_append split: sum.splits)
  obtain p' where p': "z = (cs, p')" using turns_keep[OF z(1)] by (cases z) simp
  have "lag (thread (workers p w)) \<le> 2" by (cases "thread (workers p w)") simp_all
  then have "lag (thread (workers (snd y) w)) = 0"
    using turns_lag[OF z(1) assms(2), of w] turns_lag[of ws' cs p' y w] z p'
      everyoneD[OF assms(3), of w] everyoneD[OF assms(4), of w] by auto
  then show ?thesis by auto
qed

lemma double_blocks_punctual:
  assumes "in_order fin x" and "Pause \<notin> set (fst x)" and "\<forall>(ws, ws')\<in>set bs. everyone ws \<and> everyone ws'"
  shows "punctual (concat (map (\<lambda>(ws, ws'). block (ws @ ws')) bs)) x"
  using assms
proof (induction bs arbitrary: x)
  case (Cons b bs)
  obtain ws ws' where b: "b = (ws, ws')" by (cases b)
  have e: "everyone ws" "everyone ws'" "everyone (ws @ ws')" using Cons.prems(3) b by (auto simp: everyone_def)
  obtain y where y: "run (turns (ws @ ws')) x = Inr y" "in_order fin y"
    using turns_order[OF Cons.prems(1), of "ws @ ws'"] by blast
  have call: "in_time (Main True) y"
  proof (cases "fst x")
    case Nil
    then show ?thesis using turns_keep[OF y(1)] by (simp add: in_time_def)
  next
    case (Cons c cs)
    obtain cs' p where x: "x = (cs', p)" by (cases x)
    then have "exited p = None" using Cons.prems(1) Cons by (auto simp: in_order_def)
    then show ?thesis using double_turns_called[of ws ws' cs' p y] y(1) e x
      by (auto simp: in_time_def split: list.splits command.splits action.splits)
  qed
  then have now: "punctual (block (ws @ ws') @ []) x"
    using y(1) turns_in_time[of "ws @ ws'" "[Main True]" x]
    by (auto simp: block_def split: sum.splits)
  obtain z where z: "run (block (ws @ ws')) x = Inr z" "in_order fin z" "set (fst z) \<subseteq> set (fst x)"
    using block_shortens[OF Cons.prems(1) e(3) now Cons.prems(2)] by blast
  have "punctual (concat (map (\<lambda>(ws, ws'). block (ws @ ws')) bs)) z"
    using Cons.IH[OF z(2)] Cons.prems(2,3) z(3) by auto
  then show ?case using now z(1) y(1) call b
      turns_in_time[of "ws @ ws'" "Main True # concat (map (\<lambda>(ws, ws'). block (ws @ ws')) bs)" x]
    by (auto simp: block_def run_append split: sum.splits)
qed simp

end
