(* ===== verification/Programs.thy ===== *)
theory Programs
  imports Threads
begin

text \<open>
  The two programs as seen by their threads: what each component's constructor, \<^verbatim>\<open>start\<close>,
  \<^verbatim>\<open>stop\<close> and destructor do to its threads, the main function of the exchange
  (\<^verbatim>\<open>src/exchange/exchange_main.cpp\<close>) with its signal handler, and that of the trading program
  (\<^verbatim>\<open>src/client/trading_main.cpp\<close>) from the creation of its parts on. Writing to a log is left out.
\<close>

section \<open>Starting a thread, and the loggers\<close>

text \<open>The thread is assigned to the member of the component when \<^verbatim>\<open>createAndStartThread\<close>
  returns, after its second of sleep.\<close>

definition createAndStartThread :: "int \<Rightarrow> worker \<Rightarrow> command list" where
  "createAndStartThread core_id w = [On w (Create core_id), Sleep 1000, On w Return]"

definition Logger_open :: "component \<Rightarrow> command list" where
  "Logger_open c = [On (Flush c) (Begin True), Require] @ createAndStartThread (-1) (Flush c)"

definition Logger_close :: "component \<Rightarrow> command list" where
  "Logger_close c = [Await, On (Flush c) (Set_Run False), On (Flush c) Join, On (Flush c) End]"

section \<open>The components\<close>

text \<open>A constructor makes the object, whose thread does not run, and its logger.\<close>

definition opened :: "component \<Rightarrow> command list" where
  "opened c = On (Loop c) (Begin False) # Logger_open c"

text \<open>After the body of a destructor, the object is gone and its members are destroyed.\<close>

definition closed :: "component \<Rightarrow> command list" where
  "closed c = On (Loop c) End # Logger_close c"

definition MatchingEngine_start :: "command list" where
  "MatchingEngine_start = On (Loop MATCHING_ENGINE) (Set_Run True) # createAndStartThread (-1) (Loop MATCHING_ENGINE)"

definition MatchingEngine_stop :: "command list" where
  "MatchingEngine_stop = [On (Loop MATCHING_ENGINE) (Set_Run False), On (Loop MATCHING_ENGINE) Join_If_Joinable]"

definition MatchingEngine_destroy :: "command list" where
  "MatchingEngine_destroy = MatchingEngine_stop @ [Sleep 1000] @ closed MATCHING_ENGINE"

text \<open>\<^verbatim>\<open>listen\<close> makes three calls under an \<^verbatim>\<open>ASSERT\<close>.\<close>

definition OrderServer_start :: "command list" where
  "OrderServer_start = [On (Loop ORDER_SERVER) (Set_Run True), Require, Require, Require] @
     createAndStartThread (-1) (Loop ORDER_SERVER)"

definition OrderServer_stop :: "command list" where
  "OrderServer_stop = [On (Loop ORDER_SERVER) (Set_Run False), On (Loop ORDER_SERVER) Join_If_Joinable]"

definition OrderServer_destroy :: "command list" where
  "OrderServer_destroy = OrderServer_stop @ [Sleep 1000] @ closed ORDER_SERVER"

definition SnapshotSynthetizer_start :: "command list" where
  "SnapshotSynthetizer_start =
     On (Loop SNAPSHOT_SYNTHETIZER) (Set_Run True) # createAndStartThread (-1) (Loop SNAPSHOT_SYNTHETIZER)"

definition SnapshotSynthetizer_stop :: "command list" where
  "SnapshotSynthetizer_stop =
     [On (Loop SNAPSHOT_SYNTHETIZER) (Set_Run False), On (Loop SNAPSHOT_SYNTHETIZER) Join_If_Joinable]"

definition SnapshotSynthetizer_destroy :: "command list" where
  "SnapshotSynthetizer_destroy = SnapshotSynthetizer_stop @ closed SNAPSHOT_SYNTHETIZER"

text \<open>The publisher has the synthetizer as its last member: it is opened after the logger, under
  its own \<^verbatim>\<open>ASSERT\<close>, and closed before it.\<close>

definition MarketDataPublisher_open :: "command list" where
  "MarketDataPublisher_open = opened MARKET_DATA_PUBLISHER @ opened SNAPSHOT_SYNTHETIZER @ [Require, Require]"

definition MarketDataPublisher_start :: "command list" where
  "MarketDataPublisher_start =
     On (Loop MARKET_DATA_PUBLISHER) (Set_Run True) # createAndStartThread (-1) (Loop MARKET_DATA_PUBLISHER) @
     SnapshotSynthetizer_start"

definition MarketDataPublisher_stop :: "command list" where
  "MarketDataPublisher_stop =
     [On (Loop MARKET_DATA_PUBLISHER) (Set_Run False), On (Loop MARKET_DATA_PUBLISHER) Join_If_Joinable] @
     SnapshotSynthetizer_stop"

definition MarketDataPublisher_destroy :: "command list" where
  "MarketDataPublisher_destroy = MarketDataPublisher_stop @ [Sleep 5000, On (Loop MARKET_DATA_PUBLISHER) End] @
     SnapshotSynthetizer_destroy @ Logger_close MARKET_DATA_PUBLISHER"

definition OrderGateway_start :: "command list" where
  "OrderGateway_start = [On (Loop ORDER_GATEWAY) (Set_Run True), Require] @ createAndStartThread (-1) (Loop ORDER_GATEWAY)"

definition OrderGateway_stop :: "command list" where
  "OrderGateway_stop = [On (Loop ORDER_GATEWAY) (Set_Run False), On (Loop ORDER_GATEWAY) Join_If_Joinable]"

definition OrderGateway_destroy :: "command list" where
  "OrderGateway_destroy = OrderGateway_stop @ [Sleep 5000] @ closed ORDER_GATEWAY"

text \<open>The consumer opens the incremental stream and joins its group.\<close>

definition MarketDataConsumer_open :: "command list" where
  "MarketDataConsumer_open = opened MARKET_DATA_CONSUMER @ [Require, Require]"

definition MarketDataConsumer_start :: "command list" where
  "MarketDataConsumer_start =
     On (Loop MARKET_DATA_CONSUMER) (Set_Run True) # createAndStartThread (-1) (Loop MARKET_DATA_CONSUMER)"

definition MarketDataConsumer_stop :: "command list" where
  "MarketDataConsumer_stop =
     [On (Loop MARKET_DATA_CONSUMER) (Set_Run False), On (Loop MARKET_DATA_CONSUMER) Join_If_Joinable]"

definition MarketDataConsumer_destroy :: "command list" where
  "MarketDataConsumer_destroy = MarketDataConsumer_stop @ [Sleep 5000] @ closed MARKET_DATA_CONSUMER"

definition TradeEngine_start :: "command list" where
  "TradeEngine_start = On (Loop TRADE_ENGINE) (Set_Run True) # createAndStartThread (-1) (Loop TRADE_ENGINE)"

text \<open>\<^verbatim>\<open>stop\<close> waits until both incoming queues are empty.\<close>

definition TradeEngine_stop :: "command list" where
  "TradeEngine_stop = [Await, On (Loop TRADE_ENGINE) (Set_Run False), On (Loop TRADE_ENGINE) Join_If_Joinable]"

text \<open>The destructor does not wait.\<close>

definition TradeEngine_destroy :: "command list" where
  "TradeEngine_destroy =
     [On (Loop TRADE_ENGINE) (Set_Run False), On (Loop TRADE_ENGINE) Join_If_Joinable, Sleep 1000] @ closed TRADE_ENGINE"

lemmas thread_parts = createAndStartThread_def Logger_open_def Logger_close_def opened_def closed_def
  MatchingEngine_start_def MatchingEngine_stop_def MatchingEngine_destroy_def
  OrderServer_start_def OrderServer_stop_def OrderServer_destroy_def
  SnapshotSynthetizer_start_def SnapshotSynthetizer_stop_def SnapshotSynthetizer_destroy_def
  MarketDataPublisher_open_def MarketDataPublisher_start_def MarketDataPublisher_stop_def MarketDataPublisher_destroy_def
  OrderGateway_start_def OrderGateway_stop_def OrderGateway_destroy_def
  MarketDataConsumer_open_def MarketDataConsumer_start_def MarketDataConsumer_stop_def MarketDataConsumer_destroy_def
  TradeEngine_start_def TradeEngine_stop_def TradeEngine_destroy_def

text \<open>Every component keeps the contract.\<close>

interpretation matching: service "Loop MATCHING_ENGINE" "opened MATCHING_ENGINE" MatchingEngine_start MatchingEngine_stop
    MatchingEngine_destroy
  by unfold_locales (simp_all add: thread_parts)

interpretation serving: service "Loop ORDER_SERVER" "opened ORDER_SERVER" OrderServer_start OrderServer_stop OrderServer_destroy
  by unfold_locales (simp_all add: thread_parts)

interpretation synthetizing: service "Loop SNAPSHOT_SYNTHETIZER" "opened SNAPSHOT_SYNTHETIZER" SnapshotSynthetizer_start
    SnapshotSynthetizer_stop SnapshotSynthetizer_destroy
  by unfold_locales (simp_all add: thread_parts)

interpretation publishing: service "Loop MARKET_DATA_PUBLISHER" MarketDataPublisher_open MarketDataPublisher_start
    MarketDataPublisher_stop MarketDataPublisher_destroy
  by unfold_locales (simp_all add: thread_parts)

interpretation gateway: service "Loop ORDER_GATEWAY" "opened ORDER_GATEWAY" OrderGateway_start OrderGateway_stop OrderGateway_destroy
  by unfold_locales (simp_all add: thread_parts)

interpretation consuming: service "Loop MARKET_DATA_CONSUMER" MarketDataConsumer_open MarketDataConsumer_start
    MarketDataConsumer_stop MarketDataConsumer_destroy
  by unfold_locales (simp_all add: thread_parts)

interpretation trading: service "Loop TRADE_ENGINE" "opened TRADE_ENGINE" TradeEngine_start TradeEngine_stop TradeEngine_destroy
  by unfold_locales (simp_all add: thread_parts)

text \<open>The publisher answers for its synthetizer too: with the publisher it is made, started, stopped and destroyed,
  and its own destructor may stop it once more.\<close>

interpretation publishing_snapshots: service "Loop SNAPSHOT_SYNTHETIZER" MarketDataPublisher_open MarketDataPublisher_start
    MarketDataPublisher_stop MarketDataPublisher_destroy
  by unfold_locales (simp_all add: thread_parts)

lemma publisher_restarts:
  "follow (Loop SNAPSHOT_SYNTHETIZER) (MarketDataPublisher_open @ concat (replicate n (MarketDataPublisher_start @ MarketDataPublisher_stop)) @
     MarketDataPublisher_destroy) Absent = Some Absent \<and>
   follow (Loop MARKET_DATA_PUBLISHER) (MarketDataPublisher_open @ concat (replicate n (MarketDataPublisher_start @ MarketDataPublisher_stop)) @
     MarketDataPublisher_destroy) Absent = Some Absent"
  using publishing.cycles publishing_snapshots.cycles by simp

section \<open>The exchange and its signal handler\<close>

definition exchange_main :: "command list" where
  "exchange_main =
     Logger_open MAIN @ [Point_To MAIN] @
     opened MATCHING_ENGINE @ [Point_To MATCHING_ENGINE] @ MatchingEngine_start @
     MarketDataPublisher_open @ [Point_To MARKET_DATA_PUBLISHER] @ MarketDataPublisher_start @
     opened ORDER_SERVER @ [Point_To ORDER_SERVER] @ OrderServer_start @
     [Pause]"

text \<open>The handler deletes what the global pointers point to; to delete a null pointer is to do nothing.\<close>

definition delete :: "(component \<Rightarrow> bool) \<Rightarrow> component \<Rightarrow> command list \<Rightarrow> command list" where
  "delete pointer c destructor = (if pointer c then destructor else [])"

definition signal_handler :: "(component \<Rightarrow> bool) \<Rightarrow> command list" where
  "signal_handler pointer =
     [Sleep 2000] @
     delete pointer MAIN (Logger_close MAIN) @
     delete pointer MATCHING_ENGINE MatchingEngine_destroy @
     delete pointer ORDER_SERVER OrderServer_destroy @
     delete pointer MARKET_DATA_PUBLISHER MarketDataPublisher_destroy @
     [Sleep 5000, Exit 0]"

text \<open>The main thread is interrupted when it has executed \<open>k\<close> commands; the handler does not return.\<close>

definition interrupted :: "nat \<Rightarrow> command list" where
  "interrupted k = take k exchange_main @ signal_handler (\<lambda>c. Point_To c \<in> set (take k exchange_main))"

section \<open>The trading program\<close>

text \<open>From the creation of the logger on; the first \<open>Await\<close> is the loop that waits until the
  trade engine has been silent for a minute.\<close>

definition trading_threads :: "command list" where
  "trading_threads =
     Logger_open MAIN @
     opened TRADE_ENGINE @ TradeEngine_start @
     opened ORDER_GATEWAY @ OrderGateway_start @
     MarketDataConsumer_open @ MarketDataConsumer_start @
     [Sleep 10000, Await] @
     TradeEngine_stop @ MarketDataConsumer_stop @ OrderGateway_stop @
     [Sleep 3000, Exit 0]"

section \<open>Correctness\<close>

text \<open>The handler is installed once the logger is made. A component is being started when its thread
  has been created and not yet been handed to it.\<close>

definition handler_installed :: "nat \<Rightarrow> bool" where
  "handler_installed k \<longleftrightarrow> Point_To MAIN \<in> set (take k exchange_main) \<and> k < length exchange_main"

primrec some_starting :: "component list \<Rightarrow> command list \<Rightarrow> bool" where
  "some_starting [] cs = False"
| "some_starting (c # others) cs =
    (On (Loop c) (Create (-1)) \<in> set cs \<and> On (Loop c) Return \<notin> set cs \<or> some_starting others cs)"

definition being_started :: "nat \<Rightarrow> bool" where
  "being_started k = some_starting all_components (take k exchange_main)"

definition ended :: "worker_state \<Rightarrow> bool" where
  "ended s \<longleftrightarrow> thread s = No_Thread \<or> thread s = Finished"

definition at_rest :: "phase option \<Rightarrow> bool" where
  "at_rest ph \<longleftrightarrow> (case ph of Some Absent \<Rightarrow> True | Some (Idle b) \<Rightarrow> True | _ \<Rightarrow> False)"

primrec loops_at_rest :: "component list \<Rightarrow> command list \<Rightarrow> bool" where
  "loops_at_rest [] cs = True"
| "loops_at_rest (c # others) cs = (at_rest (follow (Loop c) cs Absent) \<and> loops_at_rest others cs)"

text \<open>What the discipline demands of a program that ends, as one computation.\<close>

definition orderly :: "command list \<Rightarrow> bool" where
  "orderly cs \<longleftrightarrow> disciplined cs \<and> loops_at_rest all_components cs \<and>
     Pause \<notin> set cs \<and> list_all (\<lambda>c. case c of Exit k \<Rightarrow> k = 0 | _ \<Rightarrow> True) cs \<and> cs \<noteq> [] \<and> last cs = Exit 0"

lemma trading_orderly: "orderly trading_threads"
  by code_simp

lemma exchange_disciplined: "disciplined exchange_main"
  by code_simp

text \<open>Between and outside the starts, every interruption is orderly; inside one, the discipline is broken.\<close>

primrec interruptions_ok :: "nat list \<Rightarrow> bool" where
  "interruptions_ok [] = True"
| "interruptions_ok (k # ks) =
    ((if being_started k then \<not> disciplined (interrupted k) else orderly (interrupted k)) \<and> interruptions_ok ks)"

lemma interruptions_iff: "interruptions_ok ks \<longleftrightarrow>
    (\<forall>k\<in>set ks. if being_started k then \<not> disciplined (interrupted k) else orderly (interrupted k))"
  by (induction ks) simp_all

lemma interruptions_checked: "interruptions_ok [0..<55]"
  by code_simp

lemma length_exchange_main: "length exchange_main = 55"
  by code_simp

text \<open>A schedule for the crash: every thread is in time, and all but that of \<open>v\<close> react at once.\<close>

definition reaction :: "component \<Rightarrow> command \<Rightarrow> actor list" where
  "reaction v c =
    (case c of
       On w (Create _) \<Rightarrow> [Main True, Thread w True, Thread w True]
     | On w Join \<Rightarrow> [Thread w True, Main True]
     | On w Join_If_Joinable \<Rightarrow> if w = Loop v then [Main True] else [Thread w True, Main True]
     | On w End \<Rightarrow> [Main True, Thread w True]
     | _ \<Rightarrow> [Main True])"

primrec reactions :: "component \<Rightarrow> command list \<Rightarrow> actor list" where
  "reactions v [] = []"
| "reactions v (c # cs) = reaction v c @ reactions v cs"

definition late_for :: "component \<Rightarrow> nat \<Rightarrow> bool" where
  "late_for v k \<longleftrightarrow> punctual (reactions v (interrupted k)) (interrupted k, new_process) \<and>
     (case run (reactions v (interrupted k)) (interrupted k, new_process) of Inl e \<Rightarrow> e = Dead_Object | Inr x \<Rightarrow> False)"

lemma late_for_crashes:
  assumes "late_for v k"
  shows "\<exists>as. punctual as (interrupted k, new_process) \<and> run as (interrupted k, new_process) = Inl Dead_Object"
  using assms by (intro exI[of _ "reactions v (interrupted k)"]) (auto simp: late_for_def split: sum.splits)

lemma late_threads:
  "late_for MATCHING_ENGINE 15" "late_for MATCHING_ENGINE 16"
  "late_for MARKET_DATA_PUBLISHER 34" "late_for MARKET_DATA_PUBLISHER 35"
  "late_for SNAPSHOT_SYNTHETIZER 38" "late_for SNAPSHOT_SYNTHETIZER 39"
  "late_for ORDER_SERVER 52" "late_for ORDER_SERVER 53"
  by code_simp+

lemma starts_checked: "filter being_started [0..<55] = [15, 16, 34, 35, 38, 39, 52, 53]"
  by code_simp

lemma loops_at_rest_iff: "loops_at_rest all_components cs \<longleftrightarrow> (\<forall>c. at_rest (follow (Loop c) cs Absent))"
proof -
  have "loops_at_rest xs cs \<longleftrightarrow> (\<forall>c\<in>set xs. at_rest (follow (Loop c) cs Absent))" for xs
    by (induction xs) simp_all
  moreover have "c \<in> set all_components" for c by (cases c) (simp_all add: all_components_def)
  ultimately show ?thesis by blast
qed

lemma at_rest_ended: "at_rest (Some ph) \<Longrightarrow> in_phase ph s \<Longrightarrow> ended s"
  by (cases ph) (auto simp: at_rest_def ended_def)

lemma interrupted_orderly: "handler_installed k \<Longrightarrow> \<not> being_started k \<Longrightarrow> orderly (interrupted k)"
  using interruptions_checked by (auto simp: interruptions_iff handler_installed_def length_exchange_main)

lemma disciplined_safe:
  assumes "disciplined cs" and "punctual as (cs, new_process)" and "run as (cs, new_process) = Inl e"
  shows "e = Fatal_Exit \<and> Main False \<in> set as"
  using run_order[OF disciplined_start[OF assms(1)] assms(2)] assms(3) by auto

lemma orderly_exits: "orderly cs \<Longrightarrow> exits_with 0 (cs, p)"
  by (auto simp: orderly_def exits_with_def list_all_iff split: command.splits)

lemma orderly_ends:
  assumes "orderly cs" and "\<forall>ws\<in>set bs. everyone ws" and "punctual (concat (map block bs)) (cs, new_process)"
    and "length cs \<le> length bs"
  shows "\<exists>p. run (concat (map block bs)) (cs, new_process) = Inr ([], p) \<and> exited p = Some 0 \<and>
    (\<forall>c. ended (workers p (Loop c)))"
proof -
  have o: "disciplined cs" "at_rest (follow (Loop c) cs Absent)" "Pause \<notin> set cs" for c
    using assms(1) by (auto simp: orderly_def loops_at_rest_iff)
  let ?x = "(cs, new_process)"
  obtain y where y: "run (concat (map block bs)) ?x = Inr y" "in_order (last_phase cs) y" "fst y = []"
    using blocks_end[OF disciplined_start[OF o(1)] assms(2,3)] o(3) assms(4) by auto
  have "ended (workers (snd y) (Loop c))" for c
  proof -
    have "in_phase (last_phase cs (Loop c)) (workers (snd y) (Loop c))"
      using y(2,3) by (auto simp: in_order_def dest: spec[of _ "Loop c"])
    moreover have "at_rest (Some (last_phase cs (Loop c)))"
      using o(1) o(2)[of c] by (auto simp: disciplined_iff last_phase_def)
    ultimately show ?thesis using at_rest_ended by blast
  qed
  moreover have "exited (snd y) = Some 0"
    using exits_with_run[OF orderly_exits[OF assms(1)] y(1)] y(3) by (simp add: exits_with_def)
  ultimately show ?thesis using y by (cases y) simp
qed

section \<open>Properties\<close>

text \<open>C26: the trading program, and the exchange interrupted at any moment after its handler is installed
  except inside the start of a component, shut down: when the system grants what is asked, and
  threads are in time and get their turns, the main thread finishes within as many rounds of turns as
  it has commands, with exit code 0, and by then the thread of every component's loop has ended.\<close>

theorem programs_shut_down:
  assumes "cs = trading_threads \<or> (\<exists>k. cs = interrupted k \<and> handler_installed k \<and> \<not> being_started k)"
    and "\<forall>ws\<in>set bs. everyone ws" and "punctual (concat (map block bs)) (cs, new_process)" and "length cs \<le> length bs"
  shows "\<exists>p. run (concat (map block bs)) (cs, new_process) = Inr ([], p) \<and> exited p = Some 0 \<and>
    (\<forall>c. thread (workers p (Loop c)) \<in> {No_Thread, Finished})"
proof -
  have "orderly cs" using assms(1) trading_orderly interrupted_orderly by auto
  from orderly_ends[OF this assms(2-4)] show ?thesis by (auto simp: ended_def)
qed

text \<open>C27: a signal is safe exactly outside the starts: when the main thread is interrupted inside the start of a
  component, between the creation of its thread and the return of \<^verbatim>\<open>createAndStartThread\<close>, there is a
  schedule in which all threads are called in time and one still uses a component that the handler has
  deleted; at every other moment no schedule with threads in time crashes, unless the
  system refuses a call.\<close>

theorem signal_safe_between_starts:
  assumes "handler_installed k"
  shows "(\<exists>as e. punctual as (interrupted k, new_process) \<and> run as (interrupted k, new_process) = Inl e \<and> e \<noteq> Fatal_Exit)
    \<longleftrightarrow> being_started k"
proof
  assume "being_started k"
  then have "k \<in> set (filter being_started [0..<55])"
    using assms by (simp add: handler_installed_def length_exchange_main)
  then have "\<exists>v. late_for v k" unfolding starts_checked using late_threads by auto
  then show "\<exists>as e. punctual as (interrupted k, new_process) \<and> run as (interrupted k, new_process) = Inl e \<and> e \<noteq> Fatal_Exit"
    using late_for_crashes by fastforce
next
  assume "\<exists>as e. punctual as (interrupted k, new_process) \<and> run as (interrupted k, new_process) = Inl e \<and> e \<noteq> Fatal_Exit"
  then have "\<not> disciplined (interrupted k)" using disciplined_safe by blast
  then show "being_started k" using interrupted_orderly[OF assms] by (auto simp: orderly_def)
qed

text \<open>Without a signal the exchange never crashes, and the trading program neither.\<close>

lemma programs_never_crash:
  assumes "cs = exchange_main \<or> cs = trading_threads" and "punctual as (cs, new_process)"
    and "run as (cs, new_process) = Inl e"
  shows "e = Fatal_Exit \<and> Main False \<in> set as"
  using disciplined_safe[OF _ assms(2,3)] assms(1) exchange_disciplined trading_orderly by (auto simp: orderly_def)

text \<open>\<^verbatim>\<open>createAndStartThread\<close> passes references to its own frame: a thread that is not called
  within the second of sleep reads what is gone.\<close>

lemma late_thread_reads_dead_frame:
  "run [Main True, Main True, Main True, Main True, Main True, Thread (Flush MAIN) True] (exchange_main, new_process)
     = Inl Dead_Frame"
  by (simp add: exchange_main_def Logger_open_def createAndStartThread_def main_step_def act_def new_process_def
      fresh_worker_def body_step_def)

section \<open>Witnesses\<close>

definition all_turns :: "(worker \<times> bool) list" where
  "all_turns = map (\<lambda>w. (w, True)) (all_workers @ all_workers)"

definition many_turns :: "(worker \<times> bool) list list" where
  "many_turns = replicate 100 all_turns"

lemma many_turns_everyone: "\<forall>ws\<in>set many_turns. everyone ws"
  by (auto simp: many_turns_def all_turns_def everyone_def image_iff)

lemma many_turns_punctual:
  assumes "orderly cs"
  shows "punctual (concat (map block many_turns)) (cs, new_process)"
proof -
  let ?half = "map (\<lambda>w. (w, True)) all_workers"
  have "map block many_turns = map (\<lambda>(ws, ws'). block (ws @ ws')) (replicate 100 (?half, ?half))"
    by (simp add: many_turns_def all_turns_def)
  moreover have "everyone ?half" by (auto simp: everyone_def image_iff)
  moreover have "disciplined cs" "Pause \<notin> set cs" using assms by (auto simp: orderly_def)
  ultimately show ?thesis
    using double_blocks_punctual[OF disciplined_start, of cs "replicate 100 (?half, ?half)"] by simp
qed

theorem programs_shut_down_witness:
  "\<exists>p. run (concat (map block many_turns)) (trading_threads, new_process) = Inr ([], p) \<and> exited p = Some 0 \<and>
    (\<forall>c. thread (workers p (Loop c)) \<in> {No_Thread, Finished})"
proof -
  have "length trading_threads \<le> length many_turns" unfolding many_turns_def length_replicate by code_simp
  then show ?thesis
    using programs_shut_down[of trading_threads many_turns] many_turns_everyone many_turns_punctual[OF trading_orderly] by simp
qed

theorem signal_safe_between_starts_witness:
  "(\<exists>as e. punctual as (interrupted 15, new_process) \<and> run as (interrupted 15, new_process) = Inl e \<and> e \<noteq> Fatal_Exit)"
proof -
  have "handler_installed 15" "being_started 15" by code_simp+
  then show ?thesis using signal_safe_between_starts[of 15] by simp
qed

end
