(* ===== verification/Clock.thy ===== *)
theory Clock
  imports Sockets TradingTypes "HOL-Library.List_Lexorder" "HOL-Library.Char_ord" "HOL-Library.Signed_Division"
begin

unbundle bit_operations_syntax

text \<open>
  Time: the conversions and the time stamp of \<^verbatim>\<open>utils/time_utils.hpp\<close>, the cycle counter of
  \<^verbatim>\<open>utils/perf_utils.hpp\<close>, and the loop in which \<^verbatim>\<open>src/client/trading_main.cpp\<close> waits for
  the trade engine to fall silent. The clock is an argument: nanoseconds since the epoch.
\<close>

section \<open>Units\<close>

definition NANOS_TO_MICROS :: Nanos where "NANOS_TO_MICROS = 1000"
definition MICROS_TO_MILLIS :: Nanos where "MICROS_TO_MILLIS = 1000"
definition MILLIS_TO_SECS :: Nanos where "MILLIS_TO_SECS = 1000"
definition NANOS_TO_SECS :: Nanos where "NANOS_TO_SECS = 1000000000"

lemma units_agree: "NANOS_TO_SECS = NANOS_TO_MICROS * MICROS_TO_MILLIS * MILLIS_TO_SECS"
  by (simp add: NANOS_TO_SECS_def NANOS_TO_MICROS_def MICROS_TO_MILLIS_def MILLIS_TO_SECS_def)

section \<open>Time stamps\<close>

text \<open>A number in a field of digits, as \<^verbatim>\<open>%09ld\<close> and \<^verbatim>\<open>ctime\<close> print it.\<close>

primrec padded :: "nat \<Rightarrow> nat \<Rightarrow> string" where
  "padded 0 n = []"
| "padded (Suc k) n = padded k (n div 10) @ [char_of (48 + n mod 10)]"

text \<open>The eight characters of \<^verbatim>\<open>ctime\<close> from the eleventh on, in a zone some seconds east of Greenwich. The
  offset of the zone is an argument; that the local clock is changed, as for summer time, is a different offset.\<close>

definition second_of_day :: "int \<Rightarrow> int \<Rightarrow> nat" where
  "second_of_day zone t = nat ((t + zone) mod 86400)"

definition ctime_clock :: "int \<Rightarrow> int \<Rightarrow> string" where
  "ctime_clock zone t =
    (let s = second_of_day zone t in
     padded 2 (s div 3600) @ '':'' @ padded 2 (s div 60 mod 60) @ '':'' @ padded 2 (s mod 60))"

definition getCurrentTimeStr :: "int \<Rightarrow> Nanos \<Rightarrow> string" where
  "getCurrentTimeStr zone now =
     ctime_clock zone (now sdiv NANOS_TO_SECS) @ ''.'' @ padded 9 (nat (now smod NANOS_TO_SECS))"

definition time_buffer :: nat where
  "time_buffer = 24"

lemma length_padded [simp]: "length (padded k n) = k"
  by (induction k arbitrary: n) simp_all

lemma append_less:
  fixes xs ys :: "'a::linorder list"
  assumes "length xs = length ys"
  shows "xs @ us < ys @ vs \<longleftrightarrow> xs < ys \<or> xs = ys \<and> us < vs"
  using assms by (induction xs ys rule: list_induct2) auto

lemma digit_less: "m < 10 \<Longrightarrow> n < 10 \<Longrightarrow> char_of (48 + m) < (char_of (48 + n) :: char) \<longleftrightarrow> m < n" for m n :: nat
  by (simp add: less_char_def)

lemma digit_eq: "m < 10 \<Longrightarrow> n < 10 \<Longrightarrow> char_of (48 + m) = (char_of (48 + n) :: char) \<longleftrightarrow> m = n" for m n :: nat
  by (metis add_left_cancel of_char_digit)

lemma radix_less: "m < n \<longleftrightarrow> m div d < n div d \<or> m div d = n div d \<and> m mod d < n mod d" if "0 < d" for m n d :: nat
  by (metis div_le_mono div_mult_mod_eq linorder_not_less nat_add_left_cancel_less order_le_less)

lemma int_radix_less: "m < n \<longleftrightarrow> m div d < n div d \<or> m div d = n div d \<and> m mod d < n mod d" if "0 < d" for m n d :: int
proof -
  have "n div d \<le> m div d" if "n \<le> m" using that \<open>0 < d\<close> by (rule zdiv_mono1)
  moreover have "m div d \<le> n div d" if "m < n" using that \<open>0 < d\<close> by (simp add: zdiv_mono1)
  ultimately show ?thesis
    by (metis add_less_cancel_left div_mult_mod_eq linorder_not_less order_le_less)
qed

lemma padded_order:
  assumes "m < 10 ^ k" and "n < 10 ^ k"
  shows "(padded k m < padded k n \<longleftrightarrow> m < n) \<and> (padded k m = padded k n \<longleftrightarrow> m = n)"
  using assms
proof (induction k arbitrary: m n)
  case (Suc k)
  have IH: "(padded k (m div 10) < padded k (n div 10) \<longleftrightarrow> m div 10 < n div 10) \<and>
      (padded k (m div 10) = padded k (n div 10) \<longleftrightarrow> m div 10 = n div 10)"
    by (rule Suc.IH) (use Suc.prems in \<open>simp_all add: less_mult_imp_div_less\<close>)
  have eq: "m = n \<longleftrightarrow> m div 10 = n div 10 \<and> m mod 10 = n mod 10" by (metis div_mult_mod_eq)
  show ?case
    using IH radix_less[of 10 m n] eq by (simp add: append_less digit_less digit_eq)
qed simp

lemma clock_fields:
  assumes "s < 86400" and "s' < (86400 :: nat)"
  shows "s < s' \<longleftrightarrow> s div 3600 < s' div 3600 \<or> s div 3600 = s' div 3600 \<and>
      (s div 60 mod 60 < s' div 60 mod 60 \<or> s div 60 mod 60 = s' div 60 mod 60 \<and> s mod 60 < s' mod 60)"
    and "s = s' \<longleftrightarrow> s div 3600 = s' div 3600 \<and> s div 60 mod 60 = s' div 60 mod 60 \<and> s mod 60 = s' mod 60"
proof -
  have hour: "x div 60 div 60 = x div 3600" for x :: nat by (simp add: div_mult2_eq[symmetric])
  show "s < s' \<longleftrightarrow> s div 3600 < s' div 3600 \<or> s div 3600 = s' div 3600 \<and>
      (s div 60 mod 60 < s' div 60 mod 60 \<or> s div 60 mod 60 = s' div 60 mod 60 \<and> s mod 60 < s' mod 60)"
    using radix_less[of 60 s s'] radix_less[of 60 "s div 60" "s' div 60"] hour
    by (metis (no_types) div_mult_mod_eq zero_less_numeral)
  show "s = s' \<longleftrightarrow> s div 3600 = s' div 3600 \<and> s div 60 mod 60 = s' div 60 mod 60 \<and> s mod 60 = s' mod 60"
    by (metis div_mult_mod_eq hour)
qed

lemma second_of_day_bound: "second_of_day zone t < 86400"
  by (simp add: second_of_day_def nat_less_iff)

lemma ctime_clock_order:
  "(ctime_clock zone t < ctime_clock zone t' \<longleftrightarrow> second_of_day zone t < second_of_day zone t') \<and>
   (ctime_clock zone t = ctime_clock zone t' \<longleftrightarrow> second_of_day zone t = second_of_day zone t')"
proof -
  let ?s = "second_of_day zone t" and ?s' = "second_of_day zone t'"
  have b: "?s < 86400" "?s' < 86400" by (rule second_of_day_bound)+
  have h: "?s div 3600 < 10 ^ 2" "?s' div 3600 < 10 ^ 2" using b by simp_all
  note p = padded_order[OF h] padded_order[of "?s div 60 mod 60" 2 "?s' div 60 mod 60"] padded_order[of "?s mod 60" 2 "?s' mod 60"]
  show ?thesis
    using p clock_fields[OF b] mod_less_divisor[of 60] by (simp add: ctime_clock_def Let_def append_less)
qed

text \<open>The local day of an instant.\<close>

definition day_of :: "int \<Rightarrow> Nanos \<Rightarrow> int" where
  "day_of zone now = (now div NANOS_TO_SECS + zone) div 86400"

lemma nonneg_units:
  "0 \<le> now \<Longrightarrow> now sdiv NANOS_TO_SECS = now div NANOS_TO_SECS \<and> now smod NANOS_TO_SECS = now mod NANOS_TO_SECS"
  by (cases "now = 0") (simp_all add: NANOS_TO_SECS_def signed_divide_int_def signed_modulo_int_def)

lemma seconds_order:
  assumes "(t + zone) div 86400 = (t' + zone) div 86400"
  shows "(t < t' \<longleftrightarrow> second_of_day zone t < second_of_day zone t') \<and> (t = t' \<longleftrightarrow> second_of_day zone t = second_of_day zone t')"
proof -
  have eq: "t + zone = (t' + zone) div 86400 * 86400 + (t + zone) mod 86400"
    "t' + zone = (t' + zone) div 86400 * 86400 + (t' + zone) mod 86400"
    using assms div_mult_mod_eq[of "t + zone" 86400] by simp_all
  have "(t < t' \<longleftrightarrow> (t + zone) mod 86400 < (t' + zone) mod 86400) \<and> (t = t' \<longleftrightarrow> (t + zone) mod 86400 = (t' + zone) mod 86400)"
    using eq by linarith
  moreover have "0 \<le> (t + zone) mod 86400" "0 \<le> (t' + zone) mod 86400" by simp_all
  ultimately show ?thesis unfolding second_of_day_def by (metis eq_nat_nat_iff nat_less_eq_zless)
qed

lemma nanos_order:
  assumes "day_of zone now = day_of zone now'"
  shows "now < now' \<longleftrightarrow> second_of_day zone (now div NANOS_TO_SECS) < second_of_day zone (now' div NANOS_TO_SECS) \<or>
    second_of_day zone (now div NANOS_TO_SECS) = second_of_day zone (now' div NANOS_TO_SECS) \<and>
    nat (now mod NANOS_TO_SECS) < nat (now' mod NANOS_TO_SECS)"
proof -
  let ?t = "now div NANOS_TO_SECS" and ?t' = "now' div NANOS_TO_SECS"
  have s: "(?t < ?t' \<longleftrightarrow> second_of_day zone ?t < second_of_day zone ?t') \<and> (?t = ?t' \<longleftrightarrow> second_of_day zone ?t = second_of_day zone ?t')"
    by (rule seconds_order) (use assms in \<open>simp add: day_of_def\<close>)
  have "now < now' \<longleftrightarrow> ?t < ?t' \<or> ?t = ?t' \<and> now mod NANOS_TO_SECS < now' mod NANOS_TO_SECS"
    by (rule int_radix_less) (simp add: NANOS_TO_SECS_def)
  moreover have "0 \<le> now mod NANOS_TO_SECS" "0 \<le> now' mod NANOS_TO_SECS" by (simp_all add: NANOS_TO_SECS_def)
  ultimately show ?thesis using s by (metis nat_less_eq_zless)
qed

text \<open>C29: a time stamp has eighteen characters, which with the final null fit the buffer of
  \<^verbatim>\<open>getCurrentTimeStr\<close>; and the stamps of one local day are in the order of the alphabet exactly when
  their instants are in the order of time, so that a log sorted by its stamps is a log sorted by time.\<close>

theorem timestamps_ordered:
  assumes "0 \<le> now" and "0 \<le> now'" and "day_of zone now = day_of zone now'"
  shows "length (getCurrentTimeStr zone now) = 18 \<and> length (getCurrentTimeStr zone now) < time_buffer \<and>
    (getCurrentTimeStr zone now < getCurrentTimeStr zone now' \<longleftrightarrow> now < now') \<and>
    (getCurrentTimeStr zone now = getCurrentTimeStr zone now' \<longleftrightarrow> now = now')"
proof -
  let ?n = "nat (now mod NANOS_TO_SECS)" and ?n' = "nat (now' mod NANOS_TO_SECS)"
  have len: "length (ctime_clock zone t) = 8" for t by (simp add: ctime_clock_def Let_def)
  have b: "?n < 10 ^ 9" "?n' < 10 ^ 9" by (simp_all add: NANOS_TO_SECS_def nat_less_iff)
  have stamp: "getCurrentTimeStr zone x = ctime_clock zone (x div NANOS_TO_SECS) @ ''.'' @ padded 9 (nat (x mod NANOS_TO_SECS))"
    if "0 \<le> x" for x using nonneg_units[OF that] by (simp add: getCurrentTimeStr_def)
  have less: "getCurrentTimeStr zone now < getCurrentTimeStr zone now' \<longleftrightarrow> now < now'"
    unfolding stamp[OF assms(1)] stamp[OF assms(2)] nanos_order[OF assms(3)]
    using padded_order[OF b] ctime_clock_order by (simp add: append_less len)
  have more: "getCurrentTimeStr zone now' < getCurrentTimeStr zone now \<longleftrightarrow> now' < now"
    unfolding stamp[OF assms(1)] stamp[OF assms(2)] nanos_order[OF assms(3)[symmetric]]
    using padded_order[OF b(2,1)] ctime_clock_order by (simp add: append_less len)
  have "getCurrentTimeStr zone now = getCurrentTimeStr zone now' \<longleftrightarrow> now = now'"
    using less more by (metis less_irrefl neqE)
  then show ?thesis using less len by (simp add: stamp[OF assms(1)] time_buffer_def)
qed

theorem timestamps_ordered_witness:
  "length (getCurrentTimeStr 3600 1700000000123456789) = 18 \<and>
   getCurrentTimeStr 3600 1700000000123456789 < getCurrentTimeStr 3600 1700000001000000000"
  using timestamps_ordered[of 1700000000123456789 1700000001000000000 3600] by (simp add: day_of_def NANOS_TO_SECS_def)

section \<open>Cycles\<close>

definition rdtsc :: "u32 \<Rightarrow> u32 \<Rightarrow> u64" where
  "rdtsc lo hi = push_bit 32 (ucast hi) OR ucast lo"

text \<open>A measurement is the difference of two readings.\<close>

definition measured :: "u64 \<Rightarrow> u64 \<Rightarrow> u64" where
  "measured start finish = finish - start"

lemma measured_cycles: "unat (measured start (start + of_nat n)) = n" if "n < 2 ^ 64"
  using that by (simp add: measured_def unat_of_nat)

section \<open>Waiting for silence\<close>

text \<open>\<^verbatim>\<open>silentSeconds\<close>, with the time of the last event; and the loop that sleeps for thirty
  seconds until a minute has been silent. \<open>now i\<close> is the clock at the \<open>i\<close>-th test, \<open>last i\<close> the time of the
  last event by then; the result is the number of the test that ends the loop.\<close>

definition silentSeconds :: "Nanos \<Rightarrow> Nanos \<Rightarrow> int" where
  "silentSeconds now last_event = (now - last_event) sdiv NANOS_TO_SECS"

primrec await_silence :: "nat \<Rightarrow> (nat \<Rightarrow> Nanos) \<Rightarrow> (nat \<Rightarrow> Nanos) \<Rightarrow> nat \<Rightarrow> nat option" where
  "await_silence 0 now last_event i = None"
| "await_silence (Suc n) now last_event i =
    (if silentSeconds (now i) (last_event i) < 60 then await_silence n now last_event (i + 1) else Some i)"

lemma await_silence_finds:
  assumes "60 \<le> silentSeconds (now k) (last_event k)" and "i \<le> k" and "k < i + n"
  shows "\<exists>m. await_silence n now last_event i = Some m \<and> m \<le> k \<and> 60 \<le> silentSeconds (now m) (last_event m)"
  using assms(2,3)
proof (induction n arbitrary: i)
  case (Suc n)
  show ?case
  proof (cases "silentSeconds (now i) (last_event i) < 60")
    case True
    then have "i \<noteq> k" using assms(1) by auto
    then show ?thesis using Suc.IH[of "i + 1"] Suc.prems True by simp
  qed (use Suc.prems in auto)
qed simp

theorem main_waits_for_silence:
  assumes "\<And>i. now i + 30 * NANOS_TO_SECS \<le> now (i + 1)" and "\<And>i. j \<le> i \<Longrightarrow> last_event i = last_event j"
    and "last_event j \<le> now j"
  shows "\<exists>m. await_silence (j + 3) now last_event 0 = Some m \<and> m \<le> j + 2 \<and> 60 \<le> silentSeconds (now m) (last_event m)"
proof -
  have "now j + 60 * NANOS_TO_SECS \<le> now (j + 2)" using assms(1)[of j] assms(1)[of "j + 1"] by simp
  then have "60 * NANOS_TO_SECS \<le> now (j + 2) - last_event (j + 2)" using assms(2)[of "j + 2"] assms(3) by simp
  then have "60 \<le> silentSeconds (now (j + 2)) (last_event (j + 2))"
    by (simp add: silentSeconds_def NANOS_TO_SECS_def signed_divide_int_def)
  then show ?thesis using await_silence_finds[of now "j + 2" last_event 0 "j + 3"] by simp
qed

end
