(* ===== verification/Printing.thy ===== *)
theory Printing
  imports TradeEngine MEOrderBook BookPrinting Logging SocketSetup Clock
begin

text \<open>
  The printed forms that are only logged: the exchange's orders and levels
  (\<^verbatim>\<open>exchange/me_order.hpp\<close>), positions, limits and configurations
  (\<^verbatim>\<open>client/position_keeper.hpp\<close>, \<^verbatim>\<open>risk_manager.hpp\<close>, \<^verbatim>\<open>utils/types.hpp\<close>,
  \<^verbatim>\<open>networking/socket_utils.hpp\<close>), the handlers of a trade engine without an algorithm, and the
  lines of the measuring macros. How \<^verbatim>\<open>operator<<\<close> prints a double is the argument \<open>shw\<close>.
\<close>

section \<open>Orders and levels of the exchange\<close>

definition MEOrder_toString :: "MEOrder \<Rightarrow> string" where
  "MEOrder_toString x =
     ''MEOrder'' @ '' ['' @ ''ticker:'' @ tickerIdToString (ord_ticker x) @ '' client:'' @ clientIdToString (ord_client x) @
     '' client_oid:'' @ orderIdToString (ord_client_oid x) @ '' market_oid:'' @ orderIdToString (ord_id x) @
     '' side:'' @ sideToString (ord_side x) @ '' price:'' @ priceToString (ord_price x) @
     '' qty:'' @ qtyToString (ord_qty x) @ '' priority:'' @ priorityToString (ord_priority x) @ '']''"

text \<open>A level prints its first order, whose pointer it does not check.\<close>

definition MEOrdersAtPrice_toString :: "MEOrder MemPool \<Rightarrow> OrdersAtPrice \<Rightarrow> string res" where
  "MEOrdersAtPrice_toString Q l =
    res_bind (load Q (lvl_head l)) (\<lambda>x.
    Inr (''MEOrdersAtPrice'' @ '' ['' @ ''side:'' @ sideToString (lvl_side l) @ '' price:'' @ priceToString (lvl_price l) @
      '' orders:'' @ MEOrder_toString x @ '']''))"

text \<open>The client's level: \<^verbatim>\<open>?:\<close> binds weaker than \<^verbatim>\<open><<\<close>, so that the pointer is printed, the
  stream is the condition, and the text of the first order is made and dropped.
  \<open>addr\<close> is how a pointer prints.\<close>

definition MarketOrdersAtPrice_toString :: "(ptr \<Rightarrow> string) \<Rightarrow> MarketOrder MemPool \<Rightarrow> OrdersAtPrice \<Rightarrow> string res" where
  "MarketOrdersAtPrice_toString addr Q l =
    res_bind (load Q (lvl_head l)) (\<lambda>x.
    Inr (''MEOrder'' @ '' ['' @ '' side: '' @ sideToString (lvl_side l) @ '' price: '' @ priceToString (lvl_price l) @
      '' First MarketOrder: '' @ addr (lvl_head l) @ '']''))"

section \<open>Positions, limits and configurations\<close>

definition signedToString :: "int \<Rightarrow> string" where
  "signedToString i = (if i < 0 then CHR ''-'' # to_string (nat (- i)) else to_string (nat i))"

definition vwap_text :: "'d fp \<Rightarrow> ('d \<Rightarrow> string) \<Rightarrow> Side \<Rightarrow> 'd PositionInfo \<Rightarrow> string" where
  "vwap_text F shw s P = shw (if pos_of P \<noteq> 0 then fdiv F (open_vwap P (side_index s)) (of_integer F \<bar>pos_of P\<bar>)
     else of_integer F 0)"

definition PositionInfo_toString :: "'d fp \<Rightarrow> ('d \<Rightarrow> string) \<Rightarrow> 'd PositionInfo \<Rightarrow> string" where
  "PositionInfo_toString F shw P =
     ''Position{'' @ ''pos:'' @ signedToString (pos_of P) @ '' u-pnl:'' @ shw (unreal_pnl P) @ '' r-pnl:'' @ shw (real_pnl P) @
     '' t-pnl:'' @ shw (total_pnl P) @ '' vol:'' @ qtyToString (volume P) @ '' vwaps:['' @ vwap_text F shw BUY P @
     ''X'' @ vwap_text F shw SELL P @ ''] '' @ BBO_toString (pos_bbo P) @ ''}''"

definition PositionKeeper_toString :: "'d fp \<Rightarrow> ('d \<Rightarrow> string) \<Rightarrow> (nat \<Rightarrow> 'd PositionInfo) \<Rightarrow> string" where
  "PositionKeeper_toString F shw K =
    (let tickers = [0..<ME_MAX_TICKERS];
         text = concat (map (\<lambda>i. ''TickerId:'' @ tickerIdToString (word_of_nat i) @ '' '' @ PositionInfo_toString F shw (K i) @ newline) tickers);
         total_pnl = foldl (\<lambda>a i. fadd F a (total_pnl (K i))) (of_integer F 0) tickers;
         total_vol = foldl (\<lambda>a i. a + volume (K i)) 0 tickers in
     text @ ''Total PnL:'' @ shw total_pnl @ '' Vol:'' @ to_string (unat total_vol) @ newline)"

definition RiskCfg_toString :: "('d \<Rightarrow> string) \<Rightarrow> 'd RiskCfg \<Rightarrow> string" where
  "RiskCfg_toString shw c =
     ''RiskCfg{'' @ ''max-order-size:'' @ qtyToString (max_order_size c) @ '' '' @ ''max-position:'' @ qtyToString (max_position c) @
     '' '' @ ''max-loss:'' @ shw (max_loss c) @ ''}''"

definition TradeEngineCfg_toString :: "('d \<Rightarrow> string) \<Rightarrow> 'd TradeEngineCfg \<Rightarrow> string" where
  "TradeEngineCfg_toString shw c =
     ''TradeEngineCfg{'' @ ''clip:'' @ qtyToString (clip c) @ '' '' @ ''thresh:'' @ shw (threshold c) @ '' '' @
     ''risk:'' @ RiskCfg_toString shw (risk_cfg c) @ ''}''"

definition RiskInfo_toString :: "'d fp \<Rightarrow> ('d \<Rightarrow> string) \<Rightarrow> 'd PositionInfo \<Rightarrow> 'd RiskCfg \<Rightarrow> string" where
  "RiskInfo_toString F shw P c =
     ''RiskInfo'' @ ''['' @ ''pos:'' @ PositionInfo_toString F shw P @ '' '' @ RiskCfg_toString shw c @ '']''"

definition boolToString :: "bool \<Rightarrow> string" where
  "boolToString b = (if b then ''1'' else ''0'')"

definition SocketConfigs_toString :: "SocketConfigs \<Rightarrow> string" where
  "SocketConfigs_toString c =
     ''SocketCfg[ip:'' @ cfg_ip c @ '' iface:'' @ cfg_iface c @ '' port:'' @ signedToString (cfg_port c) @
     '' is_udp:'' @ boolToString (is_udp c) @ '' is_listening:'' @ boolToString (is_listening c) @
     '' needs_SO_timestamp:'' @ boolToString (needs_so_timestamp c) @ '']''"

section \<open>Lines of the log\<close>

text \<open>A line of the log begins with where and when: file, line, function and time stamp. The three handlers
  of a trade engine that runs no algorithm write one each.\<close>

definition logged_at :: "string \<Rightarrow> string list \<Rightarrow> string list \<Rightarrow> string" where
  "logged_at text place vals = concat (log_pushes (''%:% %() % '' @ text @ newline) (place @ vals))"

definition defaultAlgoOnOrderBookUpdate :: "string list \<Rightarrow> TickerId \<Rightarrow> Price \<Rightarrow> Side \<Rightarrow> string" where
  "defaultAlgoOnOrderBookUpdate place t price side =
     logged_at ''ticker:% price:% side:%'' place [to_string (unat t), priceToString price, sideToString side]"

definition defaultAlgoOnTradeUpdate :: "string list \<Rightarrow> MEMarketUpdate \<Rightarrow> string" where
  "defaultAlgoOnTradeUpdate place u = logged_at ''%'' place [MEMarketUpdate_toString u]"

definition defaultAlgoOnOrderUpdate :: "string list \<Rightarrow> MEClientResponse \<Rightarrow> string" where
  "defaultAlgoOnOrderUpdate place r = logged_at ''%'' place [MEClientResponse_toString r]"

definition END_MEASURE :: "string \<Rightarrow> string \<Rightarrow> u64 \<Rightarrow> u64 \<Rightarrow> string" where
  "END_MEASURE tag time_str start finish =
     concat (log_pushes (''% RDTSC '' @ tag @ '' %'' @ newline) [time_str, to_string (unat (measured start finish))])"

definition TTT_MEASURE :: "string \<Rightarrow> string \<Rightarrow> Nanos \<Rightarrow> string" where
  "TTT_MEASURE tag time_str now = concat (log_pushes (''% TTT '' @ tag @ '' %'' @ newline) [time_str, signedToString now])"

section \<open>A printed order determines the order\<close>

lemma word_split:
  assumes "a @ c # s = b @ c # t" and "c \<notin> set a" and "c \<notin> set b"
  shows "a = b \<and> s = t"
  using assms by (induction a arbitrary: b) (case_tac b, auto)+

text \<open>A word of a printed form: digits, or the word for the reserved value.\<close>

lemma number_no_blank: "CHR '' '' \<notin> set (to_string n)"
  using to_string_digits[of "CHR '' ''" n] by auto

lemma printed_no_blank:
  "CHR '' '' \<notin> set (orderIdToString i)" "CHR '' '' \<notin> set (tickerIdToString t)" "CHR '' '' \<notin> set (clientIdToString c)"
  "CHR '' '' \<notin> set (priceToString p)" "CHR '' '' \<notin> set (qtyToString q)" "CHR '' '' \<notin> set (sideToString s)"
  using number_no_blank
  by (simp_all add: orderIdToString_def tickerIdToString_def clientIdToString_def priceToString_def qtyToString_def)
    (cases s; simp)

lemma printed_inject:
  "tickerIdToString t = tickerIdToString t' \<longleftrightarrow> t = t'" "clientIdToString c = clientIdToString c' \<longleftrightarrow> c = c'"
  "priceToString p = priceToString p' \<longleftrightarrow> p = p'" "qtyToString q = qtyToString q' \<longleftrightarrow> q = q'"
  "priorityToString r = priorityToString r' \<longleftrightarrow> r = r'"
  using to_string_not_INVALID to_string_not_INVALID[symmetric]
  by (auto simp: tickerIdToString_def clientIdToString_def priceToString_def qtyToString_def priorityToString_def
      to_string_inject word_unat_eq_iff)

lemma sideToString_inject:
  "s \<in> set enumerators \<Longrightarrow> s' \<in> set enumerators \<Longrightarrow> sideToString s = sideToString s' \<longleftrightarrow> s = s'"
  by (auto simp: enumerators_def)

text \<open>The printed form of an order determines the order, but for its links in the book: no two orders
  with different fields print alike.\<close>

theorem printed_order_determines:
  assumes "ord_side x \<in> set enumerators" and "ord_side y \<in> set enumerators"
  shows "MEOrder_toString x = MEOrder_toString y \<longleftrightarrow>
    ord_ticker x = ord_ticker y \<and> ord_client x = ord_client y \<and> ord_client_oid x = ord_client_oid y \<and> ord_id x = ord_id y \<and>
    ord_side x = ord_side y \<and> ord_price x = ord_price y \<and> ord_qty x = ord_qty y \<and> ord_priority x = ord_priority y"
    (is "_ \<longleftrightarrow> ?same")
proof
  assume eq: "MEOrder_toString x = MEOrder_toString y"
  have "tickerIdToString (ord_ticker x) = tickerIdToString (ord_ticker y) \<and>
      clientIdToString (ord_client x) = clientIdToString (ord_client y) \<and>
      orderIdToString (ord_client_oid x) = orderIdToString (ord_client_oid y) \<and>
      orderIdToString (ord_id x) = orderIdToString (ord_id y) \<and> sideToString (ord_side x) = sideToString (ord_side y) \<and>
      priceToString (ord_price x) = priceToString (ord_price y) \<and> qtyToString (ord_qty x) = qtyToString (ord_qty y) \<and>
      priorityToString (ord_priority x) = priorityToString (ord_priority y)"
    using eq unfolding MEOrder_toString_def by (auto dest!: word_split simp: printed_no_blank)
  then show ?same
    using sideToString_inject[OF assms] by (simp add: printed_inject orderIdToString_inject)
qed (simp add: MEOrder_toString_def)

text \<open>The line of a handler without algorithm, as \<open>log\<close> composes it.\<close>

lemma logged_at_place:
  "logged_at ''%'' [file, line, func, time_str] [v] = file @ '':'' @ line @ '' '' @ func @ ''() '' @ time_str @ '' '' @ v @ newline"
  by (simp add: logged_at_def log_plain newline_def char_of_eq_iff)

end
