(* ===== verification/Discipline.thy ===== *)
theory Discipline
  imports MatchingEngine
begin

text \<open>
  Which requests keep the exchange's order book correct. The book tells prices apart by their index
  only, keeps the orders of a client by the client's identifiers, and takes its orders and levels
  from two pools; \<open>add\<close> refuses nothing on any of these grounds. A list of requests is disciplined when it
  respects them, a condition on the requests alone; every book that disciplined requests lead to from
  construction is in price-time priority. Where the discipline ends, the correctness does:
  theory PriceAlias is about orders with two prices of one index, \<open>reused_identifier_orphans_order\<close> in theory
  ExchangeBook about an identifier used twice.
\<close>

section \<open>Disciplined requests\<close>

definition news :: "MEClientRequest list \<Rightarrow> MEClientRequest list" where
  "news qs = filter (\<lambda>q. rq_type q = CRQ_NEW) qs"

definition request_key :: "MEClientRequest \<Rightarrow> ClientId \<times> OrderId" where
  "request_key q = (rq_client_id q, rq_order_id q)"

definition proper :: "MEClientRequest \<Rightarrow> bool" where
  "proper q \<longleftrightarrow> rq_type q \<noteq> CRQ_INVALID \<and> (rq_type q = CRQ_NEW \<longrightarrow>
     (rq_side q = BUY \<or> rq_side q = SELL) \<and> in_index (rq_client_id q) (rq_order_id q))"

definition disciplined :: "MEClientRequest list \<Rightarrow> bool" where
  "disciplined qs \<longleftrightarrow> list_all proper qs \<and> distinct (map request_key (news qs)) \<and>
     inj_on priceToIndex (rq_price ` set (news qs)) \<and>
     card (rq_price ` set (news qs)) + 2 \<le> ME_MAX_PRICE_LEVELS \<and> length (news qs) + 2 \<le> ME_MAX_ORDER_IDS"

lemma news_simps [simp]: "news [] = []" "news (q # qs) = (if rq_type q = CRQ_NEW then q # news qs else news qs)"
  "news (qs @ qs') = news qs @ news qs'"
  by (simp_all add: news_def)

lemma disciplined_Nil: "disciplined []"
  by (simp add: disciplined_def size_defs)

lemma disciplined_front:
  assumes "disciplined (qs @ qs')"
  shows "disciplined qs"
proof -
  have sub: "rq_price ` set (news qs) \<subseteq> rq_price ` set (news (qs @ qs'))" by auto
  then have "card (rq_price ` set (news qs)) \<le> card (rq_price ` set (news (qs @ qs')))" by (intro card_mono) simp_all
  moreover have "inj_on priceToIndex (rq_price ` set (news qs))"
    using assms inj_on_subset[OF _ sub] unfolding disciplined_def by blast
  ultimately show ?thesis using assms by (simp add: disciplined_def)
qed

section \<open>What the book holds of them\<close>

text \<open>The request a resting order comes from.\<close>

definition asked_by :: "MEClientRequest \<Rightarrow> MEOrder \<Rightarrow> bool" where
  "asked_by q x \<longleftrightarrow> request_key q = (ord_client x, ord_client_oid x) \<and> rq_price q = ord_price x \<and> rq_side q = ord_side x"

definition backed :: "MEClientRequest list \<Rightarrow> abook \<Rightarrow> bool" where
  "backed ns a \<longleftrightarrow> (\<forall>s \<in> sides. \<forall>x \<in> set (ab_orders a s). \<exists>q \<in> set ns. asked_by q x) \<and>
     length (ab_orders a BUY) + length (ab_orders a SELL) \<le> length ns \<and> ab_next_id a = of_nat (1 + length ns)"

lemma backed_new: "backed [] (abs_book (new_MEOrderBook t))"
  by (simp add: backed_def abs_new)

lemma length_insert_order [simp]: "length (insert_order s r rs) = Suc (length rs)"
proof -
  have "length rs = length (takeWhile (\<lambda>x. goes_before s x r) rs @ dropWhile (\<lambda>x. goes_before s x r) rs)" by simp
  then show ?thesis by (simp add: insert_order_def del: takeWhile_dropWhile_id)
qed

text \<open>An order taken in is backed by its request.\<close>

lemma backed_add:
  assumes "backed ns a" and s: "rq_side q \<in> sides"
  shows "backed (ns @ [q]) (spec_add (rq_client_id q) (rq_order_id q) (rq_side q) (rq_price q) (rq_qty q) a)"
    (is "backed _ ?a")
proof -
  let ?s = "rq_side q"
  obtain fs left rest where sw: "sweep ?s (rq_price q) (rq_qty q) (ab_orders a (opp ?s)) = (fs, left, rest)"
    by (metis prod_cases3)
  let ?r = "spec_order a (rq_client_id q) (rq_order_id q) ?s (rq_price q) left"
  note orders = spec_add_fields(3)[OF sw, of "rq_client_id q" "rq_order_id q"]
  have r: "asked_by q ?r" by (simp add: asked_by_def spec_order_def request_key_def)
  have old: "\<exists>n \<in> set ns. asked_by n x" if "x \<in> set (ab_orders a t)" "t \<in> sides" for x t
    using assms(1) that by (auto simp: backed_def)
  have swept: "\<exists>n \<in> set ns. asked_by n x" if "x \<in> set rest" for x
  proof -
    from sw that obtain y k where "y \<in> set (ab_orders a (opp ?s))" "x = y\<lparr>ord_qty := k\<rparr>" by (rule sweep_rest_member)
    then show ?thesis using old[of y "opp ?s"] by (auto simp: asked_by_def)
  qed
  have "\<exists>n \<in> set (ns @ [q]). asked_by n x" if x: "x \<in> set (ab_orders ?a t)" and t: "t \<in> sides" for x t
  proof (cases "t = ?s")
    case True
    then have "x = ?r \<or> x \<in> set (ab_orders a ?s)" using x unfolding orders by (auto split: if_splits)
    then show ?thesis using r old[OF _ s] by auto
  next
    case False
    then have "x \<in> set rest" using x t s unfolding orders by (auto simp: sides_def)
    then show ?thesis using swept by auto
  qed
  moreover have "length (ab_orders ?a BUY) + length (ab_orders ?a SELL) \<le> length (ns @ [q])"
    using assms sweep_level_count(2)[OF sw] unfolding orders by (auto simp: backed_def sides_def)
  moreover have "ab_next_id ?a = of_nat (1 + length (ns @ [q]))"
    using assms(1) spec_add_fields(2)[OF sw] by (simp add: backed_def)
  ultimately show ?thesis by (simp add: backed_def)
qed

lemma backed_cancel:
  assumes "backed ns a"
  shows "backed ns (spec_cancel c oid a)"
proof -
  have "length (filter P xs) + length (filter P ys) \<le> length xs + length ys" for P and xs ys :: "MEOrder list"
    by (intro add_mono) simp_all
  then show ?thesis using assms
    by (auto simp: backed_def spec_cancel_def split: option.split intro: order_trans)
qed

section \<open>Admissible throughout\<close>

lemma backed_levels:
  assumes "backed ns a" and "uncrossed (ab_orders a BUY) (ab_orders a SELL)"
  shows "level_count (ab_orders a BUY) + level_count (ab_orders a SELL) \<le> card (rq_price ` set ns)"
proof -
  let ?P = "\<lambda>s. ord_price ` set (ab_orders a s)"
  have sub: "?P s \<subseteq> rq_price ` set ns" if "s \<in> sides" for s
    using assms(1) that unfolding backed_def asked_by_def by (metis image_subsetI imageI)
  have "?P BUY \<inter> ?P SELL = {}" using assms(2) by (fastforce simp: uncrossed_iff)
  then have "card (?P BUY) + card (?P SELL) = card (?P BUY \<union> ?P SELL)" by (intro card_Un_disjoint[symmetric]) simp_all
  also have "\<dots> \<le> card (rq_price ` set ns)" using sub[of BUY] sub[of SELL] by (intro card_mono) (simp_all add: sides_def)
  finally show ?thesis by (simp add: level_count_card)
qed

lemma disciplined_admissible:
  assumes "disciplined (qs @ [q])" and "rq_type q = CRQ_NEW" and "backed (news qs) a"
    and "uncrossed (ab_orders a BUY) (ab_orders a SELL)"
  shows "admissible (rq_client_id q) (rq_order_id q) (rq_side q) (rq_price q) a"
proof -
  have d: "proper q" "request_key q \<notin> request_key ` set (news qs)" "disciplined qs"
      "inj_on priceToIndex (insert (rq_price q) (rq_price ` set (news qs)))"
    using assms(1,2) disciplined_front[OF assms(1)] by (auto simp: disciplined_def)
  have source: "\<exists>n \<in> set (news qs). asked_by n x" if "x \<in> set (ab_orders a BUY @ ab_orders a SELL)" for x
    using assms(3) that by (auto simp: backed_def sides_def)
  have "\<not> owned_by (rq_client_id q) (rq_order_id q) x" if x: "x \<in> set (ab_orders a BUY @ ab_orders a SELL)" for x
  proof
    assume "owned_by (rq_client_id q) (rq_order_id q) x"
    moreover obtain n where "n \<in> set (news qs)" "asked_by n x" using source[OF x] by blast
    ultimately have "n \<in> set (news qs)" "request_key q = request_key n" by (auto simp: owned_by_def asked_by_def request_key_def)
    then show False using d(2) by (metis image_eqI)
  qed
  then have "find_owned (rq_client_id q) (rq_order_id q) a = None" by (auto simp: find_owned_def find_None_iff)
  moreover have "ord_price x = rq_price q"
    if x: "x \<in> set (ab_orders a BUY @ ab_orders a SELL)" "priceToIndex (ord_price x) = priceToIndex (rq_price q)" for x
  proof -
    obtain n where "n \<in> set (news qs)" "rq_price n = ord_price x" using source[OF x(1)] by (auto simp: asked_by_def)
    then show ?thesis using d(4) x(2) unfolding inj_on_def by (metis image_eqI insertCI)
  qed
  moreover have "room a"
    using assms(3) d(3) backed_levels[OF assms(3,4)] by (simp add: room_def backed_def disciplined_def)
  ultimately show ?thesis using d(1) assms(2) by (auto simp: admissible_def proper_def list_all_iff)
qed

lemma disciplined_served:
  assumes "disciplined qs"
  shows "\<exists>b. res_fold dispatch qs (new_MEOrderBook t) = Inr b \<and> me_ok b \<and> backed (news qs) (abs_book b)"
  using assms
proof (induction qs rule: rev_induct)
  case Nil
  show ?case using new_ok backed_new by simp
next
  case (snoc q qs)
  then obtain b where b: "res_fold dispatch qs (new_MEOrderBook t) = Inr b" "me_ok b" "backed (news qs) (abs_book b)"
    using disciplined_front by blast
  have q: "proper q" using snoc.prems by (simp add: disciplined_def)
  have "\<exists>b'. dispatch q b = Inr b' \<and> me_ok b' \<and> backed (news (qs @ [q])) (abs_book b')"
  proof (cases "rq_type q")
    case CRQ_NEW
    have "uncrossed (ab_orders (abs_book b) BUY) (ab_orders (abs_book b) SELL)"
      using b(2) by (simp add: me_ok_def book_wf_def)
    note adm = disciplined_admissible[OF snoc.prems CRQ_NEW b(3) this]
    have "next_order_id b + 1 = of_nat (2 + length (news qs))" using b(3) by (simp add: backed_def)
    moreover have "unat (of_nat (2 + length (news qs)) :: u64) = 2 + length (news qs)"
      using snoc.prems by (intro of_nat_inverse[OF refl]) (simp add: disciplined_def CRQ_NEW size_defs)
    ultimately have "next_order_id b + 1 \<noteq> 0" by (metis add_is_0 unat_0 zero_neq_numeral)
    from add_ok[OF b(2) adm this] obtain b' where "add (rq_client_id q) (rq_order_id q) (rq_side q) (rq_price q) (rq_qty q) b = Inr b'"
      "me_ok b'" "abs_book b' = spec_add (rq_client_id q) (rq_order_id q) (rq_side q) (rq_price q) (rq_qty q) (abs_book b)"
      by blast
    moreover have "rq_side q \<in> sides" using q CRQ_NEW by (auto simp: proper_def sides_def)
    ultimately show ?thesis using backed_add[OF b(3), of q] CRQ_NEW by (simp add: dispatch_def)
  next
    case CRQ_CANCEL
    from b(2) obtain b' where "cancel (rq_client_id q) (rq_order_id q) b = Inr b'" "me_ok b'"
      "abs_book b' = spec_cancel (rq_client_id q) (rq_order_id q) (abs_book b)" by (rule cancel_ok)
    then show ?thesis using backed_cancel[OF b(3)] CRQ_CANCEL by (simp add: dispatch_def)
  qed (use b q in \<open>auto simp: dispatch_def proper_def\<close>)
  then show ?case using b(1) by (auto simp: res_fold_append)
qed

text \<open>C2: a new book that has served any disciplined list of requests, new orders and cancels
  mixed and matched, is in price-time priority: on both sides the best price comes first and at one price
  the order that arrived first, with strictly growing priorities; the best bid is below the
  best ask; and every order it holds is one of those asked for, by that client, on that side, at
  that price. Serving never fails. The discipline is on the requests alone: no client reuses
  an identifier, identifiers are within the index, no two prices share an index, which includes
  that they are at most 254, and there are fewer new orders than the pool has cells.\<close>

theorem disciplined_price_time_priority:
  assumes "disciplined qs"
  shows "\<exists>b. res_fold dispatch qs (new_MEOrderBook t) = Inr b \<and>
     sorted_wrt (ahead BUY) (resting BUY (core b)) \<and> sorted_wrt (ahead SELL) (resting SELL (core b)) \<and>
     uncrossed (resting BUY (core b)) (resting SELL (core b)) \<and>
     (\<forall>s \<in> sides. \<forall>x \<in> set (resting s (core b)). \<exists>q \<in> set (news qs). asked_by q x)"
  using disciplined_served[OF assms, of t]
  by (auto simp: me_ok_def book_wf_def side_wf_def resting_abs backed_def)

section \<open>Example\<close>

text \<open>Three buyers, two of them at one price, a seller who takes the older of these and part
  of the younger, a seller who rests, and a cancel.\<close>

definition asking :: "ClientRequestType \<Rightarrow> ClientId \<Rightarrow> OrderId \<Rightarrow> Side \<Rightarrow> Price \<Rightarrow> Qty \<Rightarrow> MEClientRequest" where
  "asking ty c i s p k = \<lparr>rq_type = ty, rq_client_id = c, rq_ticker_id = 3, rq_order_id = i, rq_side = s, rq_price = p, rq_qty = k\<rparr>"

definition mixed_requests :: "MEClientRequest list" where
  "mixed_requests = [asking CRQ_NEW 1 5 BUY 100 10, asking CRQ_NEW 2 5 BUY 101 4, asking CRQ_NEW 3 7 BUY 101 6,
     asking CRQ_NEW 4 9 SELL 101 7, asking CRQ_NEW 1 6 SELL 103 2, asking CRQ_CANCEL 1 5 BUY 100 0]"

lemma mixed_disciplined: "disciplined mixed_requests"
  by (simp add: disciplined_def mixed_requests_def asking_def proper_def request_key_def in_index_def size_defs
      priceToIndex_def)

theorem disciplined_price_time_priority_witness:
  "\<exists>b. res_fold dispatch mixed_requests (new_MEOrderBook 3) = Inr b \<and>
     sorted_wrt (ahead BUY) (resting BUY (core b)) \<and> sorted_wrt (ahead SELL) (resting SELL (core b)) \<and>
     uncrossed (resting BUY (core b)) (resting SELL (core b)) \<and>
     map (\<lambda>x. (ord_client x, ord_price x, ord_qty x)) (resting BUY (core b)) = [(3, 101, 3)] \<and>
     map (\<lambda>x. (ord_client x, ord_price x, ord_qty x)) (resting SELL (core b)) = [(1, 103, 2)]"
proof -
  have "\<exists>b. res_fold dispatch mixed_requests (new_MEOrderBook 3) = Inr b \<and>
     map (\<lambda>x. (ord_client x, ord_price x, ord_qty x)) (resting BUY (core b)) = [(3, 101, 3)] \<and>
     map (\<lambda>x. (ord_client x, ord_price x, ord_qty x)) (resting SELL (core b)) = [(1, 103, 2)]"
    by (simp add: mixed_requests_def asking_def dispatch_def me_exec Let_def resting_def side_cells_def level_cells_def walk_numeral)
  with disciplined_price_time_priority[OF mixed_disciplined, of 3] show ?thesis by auto
qed

end
