(* ===== verification/PriceAlias.thy ===== *)
theory PriceAlias
  imports ExchangeBook
begin

text \<open>
  What the exchange's order book does with two prices of one index. The price array has
  \<^verbatim>\<open>ME_MAX_PRICE_LEVELS\<close> entries and a price is looked up by its remainder, so
  \<^verbatim>\<open>getOrderAtPrice\<close> answers for a price with the level of any price that
  leaves the same remainder; \<^verbatim>\<open>AddOrderToPriceLevel\<close> does not compare the two.
\<close>

section \<open>Joining a level of another price\<close>

text \<open>What is read from a book after an order was appended to a level's ring, whatever its price.\<close>

lemma joined_cells:
  fixes c :: "'x book"
  assumes rep: "links_rep c sh" and t: "t \<in> sides" and shs: "sh t = A @ (l, os) # B"
    and n: "n \<notin> set (all_orders sh)" "n < num_cells (orders_pool c)" and Q: "relinked Q (orders_pool c)"
    and r: "ring (\<lambda>i. ord_next (object Q i)) (\<lambda>i. ord_prev (object Q i)) (os @ [n])"
    and keep: "\<And>i. i \<notin> set os \<Longrightarrow> i \<noteq> n \<Longrightarrow> object Q i = ob c i" and u: "u \<in> sides"
  shows "side_cells u (c\<lparr>orders_pool := Q\<rparr>) = cells_of ((sh(t := A @ (l, os @ [n]) # B)) u)"
proof (rule side_cells_rings)
  let ?c = "c\<lparr>orders_pool := Q\<rparr>" and ?sh = "sh(t := A @ (l, os @ [n]) # B)"
  have names: "map fst (?sh u) = map fst (sh u)" using shs by simp
  have sr: "side_rep c u (sh u)" using links_side[OF rep u] .
  have "?sh u = [] \<longleftrightarrow> sh u = []" "fst (hd (?sh u)) = fst (hd (sh u))" if "sh u \<noteq> []"
    using shs that by (auto simp: hd_append)
  then show "head_of u ?c = (if ?sh u = [] then None else Some (fst (hd (?sh u))))"
    using sr shs by (cases "sh u = []") (auto simp: side_rep_def head_of_def)
  show "ring (nxL ?c) (pvL ?c) (map fst (?sh u))" if "?sh u \<noteq> []"
    using sr that unfolding names by (cases "sh u = []") (use shs in \<open>auto simp: side_rep_def split: if_splits\<close>)
  show "fst ` set (?sh u) \<subseteq> {..<num_cells (levels_pool ?c)}"
    using links_level_bound[OF rep] arg_cong[OF names, of set] by (auto simp: set_all_levels[OF u])
  have cells: "num_cells Q = num_cells (orders_pool c)" using Q by (simp add: relinked_def)
  have bd: "i < num_cells (orders_pool c)" if "i \<in> set (cells_of (sh v))" "v \<in> sides" for i v
    using links_order_bound[OF rep, of i] that by (simp add: set_all_orders)
  have dis: "distinct (all_orders sh)" using rep by (simp add: links_rep_def)
  fix y
  assume y: "y \<in> set (?sh u)"
  show "level_cells ?c (fst y) = snd y"
  proof (cases "u = t \<and> y = (l, os @ [n])")
    case True
    have lvl: "level_rep c t (l, os)" using links_level[OF rep t] shs by simp
    then have "os \<noteq> []" using ring_nonempty by (auto simp: level_rep_def)
    then have "lvl_head (lv c l) = Some (hd (os @ [n]))" using lvl by (simp add: level_rep_def)
    moreover have "set (os @ [n]) \<subseteq> {..<num_cells (orders_pool ?c)}" using bd[OF _ t] shs n(2) cells by auto
    ultimately show ?thesis using True r by (auto intro!: level_cells_ring)
  next
    case False
    then have yu: "y \<in> set (sh u)" and away: "u = t \<longrightarrow> y \<in> set (A @ B)" using y shs by (auto split: if_splits)
    have "i \<notin> set os \<and> i \<noteq> n" if i: "i \<in> set (snd y)" for i
    proof -
      have iu: "i \<in> set (cells_of (sh u))" using cells_of_mem[OF yu i] .
      have "i \<notin> set os"
      proof (cases "u = t")
        case True
        then have "i \<in> set (cells_of (A @ B))" using away cells_of_mem i by blast
        then show ?thesis using dis shs by (auto simp: distinct_all_orders[OF t])
      next
        case False
        then have "u = opp t" using t u by (auto simp: sides_def)
        then show ?thesis using dis shs iu by (auto simp: distinct_all_orders[OF t])
      qed
      then show ?thesis using n(1) iu by (auto simp: set_all_orders[OF u])
    qed
    then have same: "object Q i = ob c i" if "i \<in> set (snd y)" for i using keep that by blast
    have lvl: "level_rep c u y" using links_level[OF rep u yu] .
    have "ring (nxO ?c) (pvO ?c) (snd y) \<longleftrightarrow> ring (nxO c) (pvO c) (snd y)"
      by (rule ring_cong) (simp_all add: same)
    moreover have "set (snd y) \<subseteq> {..<num_cells (orders_pool ?c)}"
      using bd[OF cells_of_mem[OF yu] u] cells by auto
    ultimately show ?thesis using lvl by (intro level_cells_ring) (simp_all add: level_rep_def)
  qed
qed

text \<open>On the lists of resting orders: the new order goes behind the level's orders.\<close>

lemma joins_at:
  fixes c :: "'x book"
  assumes rep: "links_rep c sh" and t: "t \<in> sides" and shs: "sh t = A @ (l, os) # B"
    and n: "n \<notin> set (all_orders sh)" "n < num_cells (orders_pool c)"
    and at: "getOrderAtPrice c (ord_price (ob c n)) = Some l"
  obtains Q where "link_order n c = Inr (c\<lparr>orders_pool := Q\<rparr>)" and "relinked Q (orders_pool c)"
    and "resting t (c\<lparr>orders_pool := Q\<rparr>) = map (\<lambda>i. strip (ob c i)) (cells_of A @ os) @ strip (ob c n) #
       map (\<lambda>i. strip (ob c i)) (cells_of B)"
    and "resting (opp t) (c\<lparr>orders_pool := Q\<rparr>) = resting (opp t) c"
proof -
  obtain Q where Q: "link_order n c = Inr (c\<lparr>orders_pool := Q\<rparr>)" "relinked Q (orders_pool c)"
      "ring (\<lambda>i. ord_next (object Q i)) (\<lambda>i. ord_prev (object Q i)) (os @ [n])"
      "\<forall>i. i \<notin> set os \<longrightarrow> i \<noteq> n \<longrightarrow> object Q i = ob c i"
    using link_order_at[OF rep t shs n at] by blast
  have st: "strip (object Q i) = strip (ob c i)" for i using Q(2) by (simp add: relinked_def)
  have cells: "side_cells u (c\<lparr>orders_pool := Q\<rparr>) = cells_of ((sh(t := A @ (l, os @ [n]) # B)) u)" if "u \<in> sides" for u
    using joined_cells[OF rep t shs n Q(2,3) _ that] Q(4) by blast
  have view: "resting u (c\<lparr>orders_pool := Q\<rparr>) = map (\<lambda>i. strip (ob c i)) (cells_of ((sh(t := A @ (l, os @ [n]) # B)) u))"
    if "u \<in> sides" for u
    using that cells[OF that] st by (auto simp: resting_def sides_def)
  show thesis
    using that[OF Q(1,2)] view[OF t] view[OF opp_sides] opp_neq[OF t] resting_rep[OF rep opp_sides] by simp
qed

section \<open>A new order of an aliased price\<close>

lemma nothing_matched:
  assumes rep: "me_rep b sh" and s: "s \<in> sides"
    and none: "\<forall>y \<in> set (resting (opp s) (core b)). limit_excludes s p (ord_price y)"
  obtains b1 sh1 where "checkForMatch c oid s p q moid b = Inr (q, b1)" and "me_rep b1 sh1"
    and "abs_book b1 = abs_book b"
proof -
  have "sweep s p q (ab_orders (abs_book b) (opp s)) = ([], q, ab_orders (abs_book b) (opp s))"
    using none by (cases "resting (opp s) (core b)") (simp_all add: resting_abs)
  then have "swept c oid moid s p q (abs_book b) = (q, abs_book b)" by (simp add: swept_def)
  then show thesis using that checkForMatch_sweeps[OF rep s, of c oid p q moid] by auto
qed

text \<open>The level that the price array gives for a price that shares its index with that of a resting order.\<close>

lemma alias_level:
  assumes rep: "links_rep c sh" and t: "t \<in> sides" and x: "x \<in> set (resting t c)"
    and ix: "priceToIndex p = priceToIndex (ord_price x)"
  obtains A l os B where "sh t = A @ (l, os) # B" and "getOrderAtPrice c p = Some l"
    and "lvl_price (lv c l) = ord_price x"
proof -
  obtain i where i: "i \<in> set (cells_of (sh t))" "x = strip (ob c i)" using x by (auto simp: resting_rep[OF rep t])
  from i(1) obtain y where y: "y \<in> set (sh t)" "i \<in> set (snd y)" by (rule cells_ofE)
  obtain A B where "sh t = A @ (fst y, snd y) # B" using y(1) by (metis in_set_conv_decomp prod.collapse)
  moreover have "getOrderAtPrice c (ord_price x) = Some (fst y)" using links_find[OF rep t y] i(2) by simp
  then have "getOrderAtPrice c p = Some (fst y)" using ix by (simp add: getOrderAtPrice_def)
  moreover have "lvl_price (lv c (fst y)) = ord_price x" using links_sides_price(1)[OF rep t y] i(2) by simp
  ultimately show thesis using that by blast
qed

text \<open>Allocating and linking such an order.\<close>

lemma alias_linked:
  assumes rep: "pre_rep b sh" and t: "t \<in> sides" and shs: "sh t = A @ (l, os) # B"
    and at: "getOrderAtPrice (core b) (ord_price r) = Some l" and bd: "in_index (ord_client r) (ord_client_oid r)"
    and r0: "strip r = r" and room: "2 \<le> spare (orders_pool (core b))"
  shows "\<exists>i Q b'. allocate r (orders_pool (core b)) = Inr (i, Q) \<and>
     AddOrderToPriceLevel i (b\<lparr>core := (core b)\<lparr>orders_pool := Q\<rparr>\<rparr>) = Inr b' \<and>
     resting t (core b') = map (\<lambda>i. strip (ob (core b) i)) (cells_of A @ os) @ r #
       map (\<lambda>i. strip (ob (core b) i)) (cells_of B) \<and>
     resting (opp t) (core b') = resting (opp t) (core b)"
proof -
  note lr = pre_rep_links[OF rep] and p = pre_rep_pools[OF rep]
  have "card (live (orders_pool (core b))) + 2 \<le> num_cells (orders_pool (core b))"
    using room by (simp add: spare_live)
  with p(1) obtain i Q where al: "allocate r (orders_pool (core b)) = Inr (i, Q)"
    "i \<notin> live (orders_pool (core b))" "i < num_cells (orders_pool (core b))"
    "live Q = insert i (live (orders_pool (core b)))" "object Q = (ob (core b))(i := r)"
    "num_cells Q = num_cells (orders_pool (core b))" "pool_ok Q"
    by (rule mp.alloc_elim)
  have i: "i \<notin> set (all_orders sh)" using al(2) p(2) by simp
  let ?c = "(core b)\<lparr>orders_pool := Q\<rparr>"
  have same: "ob ?c j = ob (core b) j" if "j \<in> set (all_orders sh)" for j using al(5) i that by auto
  have lr': "links_rep ?c sh" using same al by (intro links_rep_cong[OF lr]) auto
  have view: "resting u ?c = resting u (core b)" if "u \<in> sides" for u
  proof -
    have "set (cells_of (sh u)) \<subseteq> set (all_orders sh)" by (auto simp: set_all_orders[OF that])
    then show ?thesis using same by (auto simp: resting_rep[OF lr' that] resting_rep[OF lr that])
  qed
  have "getOrderAtPrice ?c (ord_price (ob ?c i)) = Some l" using at al(5) by (simp add: getOrderAtPrice_def)
  then obtain Q' where Q': "link_order i ?c = Inr (?c\<lparr>orders_pool := Q'\<rparr>)" "relinked Q' (orders_pool ?c)"
    "resting t (?c\<lparr>orders_pool := Q'\<rparr>) = map (\<lambda>i. strip (ob ?c i)) (cells_of A @ os) @ strip (ob ?c i) #
       map (\<lambda>i. strip (ob ?c i)) (cells_of B)"
    "resting (opp t) (?c\<lparr>orders_pool := Q'\<rparr>) = resting (opp t) ?c"
    using joins_at[OF lr' t shs i] al(3,6) by auto
  have "j \<in> set (all_orders sh)" if "j \<in> set (cells_of A @ os) \<union> set (cells_of B)" for j
    using that shs by (auto simp: set_all_orders[OF t])
  then have old: "map (\<lambda>i. strip (ob ?c i)) (cells_of A @ os) = map (\<lambda>i. strip (ob (core b) i)) (cells_of A @ os)"
      "map (\<lambda>i. strip (ob ?c i)) (cells_of B) = map (\<lambda>i. strip (ob (core b) i)) (cells_of B)"
    using same by (auto simp del: fun_upd_apply)
  have "strip (object Q' i) = r" using Q'(2) al(5) r0 by (simp add: relinked_def)
  then have "strip (object Q' i) = strip r" using r0 by simp
  from strip_client[OF this] have "ord_client (object Q' i) = ord_client r" "ord_client_oid (object Q' i) = ord_client_oid r" by simp_all
  moreover have "i < num_cells Q'" using Q'(2) al(3,6) by (simp add: relinked_def)
  moreover define m where "m = (cid_oid_to_order b)(ord_client r := (cid_oid_to_order b (ord_client r))(ord_client_oid r := Some i))"
  ultimately have m: "AddOrderToPriceLevel i (b\<lparr>core := ?c\<rparr>) = Inr (b\<lparr>core := ?c\<lparr>orders_pool := Q'\<rparr>, cid_oid_to_order := m\<rparr>)"
    using Q'(1) bd by (simp add: AddOrderToPriceLevel_def)
  have "strip (ob ?c i) = r" using al(5) r0 by simp
  then show ?thesis
    using al(1) m Q'(3,4) view[OF opp_sides] unfolding old
    by (intro exI[of _ i] exI[of _ Q] exI[of _ "b\<lparr>core := ?c\<lparr>orders_pool := Q'\<rparr>, cid_oid_to_order := m\<rparr>"]) simp
qed

text \<open>C36: prices that share an index share a level. When an order rests at some price and nothing on
  the other side is to be matched, a new order whose price leaves the same remainder is linked
  into the ring of the resting order's level, behind the orders of that price and before those
  behind them, on the resting order's side, whatever its own side and price; the other side does not change.
  A seller 256 above the best bid thus rests among the bids.\<close>

theorem price_alias_joins_level:
  assumes "me_ok b" and "t \<in> sides" and "x \<in> set (resting t (core b))"
    and ix: "unat p mod ME_MAX_PRICE_LEVELS = unat (ord_price x) mod ME_MAX_PRICE_LEVELS" and "s \<in> sides" and "\<forall>y \<in> set (resting (opp s) (core b)). limit_excludes s p (ord_price y)"
    and "in_index c oid" and "q \<noteq> 0" and "room (abs_book b)"
  shows "\<exists>b' front behind r. add c oid s p q b = Inr b' \<and>
     resting t (core b) = front @ behind \<and> resting t (core b') = front @ r # behind \<and>
     x \<in> set front \<and> ord_price (last front) = ord_price x \<and> (\<forall>y \<in> set behind. ord_price y \<noteq> ord_price x) \<and>
     resting (opp t) (core b') = resting (opp t) (core b) \<and>
     ord_side r = s \<and> ord_price r = p \<and> ord_qty r = q \<and> ord_client r = c \<and> ord_client_oid r = oid"
proof -
  obtain sh where rep: "me_rep b sh" using assms(1) by (auto simp: me_ok_def)
  define b0 where "b0 = sendClientResponse \<lparr>rs_type = ACCEPTED, rs_client_id = c, rs_ticker_id = ticker b,
     rs_client_order_id = oid, rs_market_order_id = next_order_id b, rs_side = s, rs_price = p, rs_exec_qty = 0,
     rs_left_qty = q\<rparr> (b\<lparr>next_order_id := next_order_id b + 1\<rparr>)"
  have core0: "core b0 = core b" by (simp add: b0_def sendClientResponse_def)
  have rep0: "me_rep b0 sh" using rep by (simp add: me_rep_def pre_rep_def b0_def sendClientResponse_def)
  obtain b1 sh1 where b1: "checkForMatch c oid s p q (next_order_id b) b0 = Inr (q, b1)" "me_rep b1 sh1"
      "abs_book b1 = abs_book b0"
    using nothing_matched[OF rep0 assms(5)] assms(6) unfolding core0 by blast
  have view: "resting u (core b1) = resting u (core b)" for u using b1(3) core0 by (simp add: resting_abs[symmetric]) (simp add: resting_abs)
  have pre: "pre_rep b1 sh1" using b1(2) by (simp add: me_rep_def)
  note lr = pre_rep_links[OF pre]
  have "room (abs_book b1)" using assms(9) unfolding room_def resting_abs view .
  from room_spare[OF pre this] have room: "2 \<le> spare (orders_pool (core b1))" by simp
  have x: "x \<in> set (resting t (core b1))" using assms(3) by (simp add: view)
  obtain A l os B where lev: "sh1 t = A @ (l, os) # B" "getOrderAtPrice (core b1) p = Some l" "lvl_price (lv (core b1) l) = ord_price x"
    using alias_level[OF lr assms(2) x] ix by (metis priceToIndex_def)
  let ?f = "\<lambda>i. strip (ob (core b1) i)"
  define r where "r = \<lparr>ord_id = next_order_id b, ord_side = s, ord_price = p, ord_qty = q,
     ord_priority = ord_priority (ob (core b1) (last os)) + 1, ord_next = None, ord_prev = None,
     ord_ticker = ticker b1, ord_client = c, ord_client_oid = oid\<rparr>"
  have "getOrderAtPrice (core b1) (ord_price r) = Some l" "in_index (ord_client r) (ord_client_oid r)" "strip r = r"
    using lev(2) assms(7) by (simp_all add: r_def strip_def)
  from alias_linked[OF pre assms(2) lev(1) this room] obtain i Q b2 where
    al: "allocate r (orders_pool (core b1)) = Inr (i, Q)"
      "AddOrderToPriceLevel i (b1\<lparr>core := (core b1)\<lparr>orders_pool := Q\<rparr>\<rparr>) = Inr b2" and
    res: "resting t (core b2) = map ?f (cells_of A @ os) @ r # map ?f (cells_of B)"
      "resting (opp t) (core b2) = resting (opp t) (core b1)"
    by blast
  have "0 < q" using assms(8) by (simp add: word_gt_0)
  define b3 where "b3 = sendMarketUpdate \<lparr>mu_type = MU_ADD, mu_order_id = next_order_id b, mu_ticker_id = ticker b2,
     mu_side = s, mu_price = p, mu_qty = q, mu_priority = ord_priority r\<rparr> b2"
  have add: "add c oid s p q b = Inr b3"
    using b1(1) getPriority_level[OF lr assms(2) lev(1,2)] al \<open>0 < q\<close>
    by (simp add: add_def generateNextOrderId_def b0_def b3_def sendClientResponse_def Let_def r_def)
  define front behind where "front = map ?f (cells_of A @ os)" and "behind = map ?f (cells_of B)"
  have old: "resting t (core b) = front @ behind"
    using resting_rep[OF lr assms(2)] lev(1) by (simp add: view front_def behind_def)
  have new: "resting t (core b3) = front @ r # behind" "resting (opp t) (core b3) = resting (opp t) (core b)"
    using res view by (simp_all add: b3_def sendMarketUpdate_def front_def behind_def)
  note op = other_level_price[OF lr assms(2) lev(1), unfolded lev(3)]
  have far: "\<forall>y \<in> set behind. ord_price y \<noteq> ord_price x" using op(2) by (fastforce simp: behind_def)
  then have "x \<in> set front" using assms(3) unfolding old by auto
  moreover have "level_rep (core b1) t (l, os)" using links_level[OF lr assms(2)] lev(1) by simp
  then have "os \<noteq> []" using ring_nonempty by (auto simp: level_rep_def)
  then have "ord_price (last front) = ord_price x" using op(3)[of "last os"] by (simp add: front_def last_map)
  moreover have "ord_side r = s" "ord_price r = p" "ord_qty r = q" "ord_client r = c" "ord_client_oid r = oid"
    by (simp_all add: r_def)
  ultimately show ?thesis using add old new far by blast
qed

section \<open>Two sellers matched\<close>

theorem price_alias_joins_level_witness:
  "\<exists>b b'. me_ok b \<and> map (\<lambda>x. (ord_side x, ord_price x)) (resting BUY (core b)) = [(BUY, 100)] \<and>
     add 2 6 SELL 356 7 b = Inr b' \<and>
     map (\<lambda>x. (ord_side x, ord_price x)) (resting BUY (core b')) = [(BUY, 100), (SELL, 356)] \<and> resting SELL (core b') = []"
proof -
  have "in_index 1 5" "next_order_id (new_MEOrderBook 3) + 1 \<noteq> 0"
    by (simp_all add: in_index_def size_defs new_MEOrderBook_def)
  with add_ok[OF new_ok admissible_new, of 1 5 BUY 3 100 10]
  obtain b where b: "me_ok b" "abs_book b = spec_add 1 5 BUY 100 10 (abs_book (new_MEOrderBook 3))" by auto
  have ord: "resting t (core b) = ab_orders (spec_add 1 5 BUY 100 10 (abs_book (new_MEOrderBook 3))) t" for t
    by (simp only: b(2)[symmetric] resting_abs)
  define x where "x = spec_order (abs_book (new_MEOrderBook 3)) 1 5 BUY 100 10"
  have bids: "resting BUY (core b) = [x]"
    unfolding ord x_def by (simp add: spec_add_def abs_new insert_order_def Let_def)
  have asks: "resting SELL (core b) = []" unfolding ord by (simp add: spec_add_def abs_new Let_def)
  have px: "ord_price x = 100" "ord_side x = BUY" by (simp_all add: x_def spec_order_def)
  have hyps: "x \<in> set (resting BUY (core b))" "unat (356 :: Price) mod ME_MAX_PRICE_LEVELS = unat (ord_price x) mod ME_MAX_PRICE_LEVELS"
      "\<forall>y \<in> set (resting (opp SELL) (core b)). limit_excludes SELL 356 (ord_price y)" "in_index 2 6" "room (abs_book b)"
    using bids asks px by (simp_all add: limit_excludes_def in_index_def room_def resting_abs level_count_def size_defs)
  obtain b' front behind r where r: "add 2 6 SELL 356 7 b = Inr b'" "[x] = front @ behind" "x \<in> set front"
      "resting BUY (core b') = front @ r # behind" "resting (opp BUY) (core b') = []" "ord_side r = SELL" "ord_price r = 356"
    using price_alias_joins_level[OF b(1) _ hyps(1,2) _ hyps(3,4) _ hyps(5), of 7] unfolding bids by (auto simp: asks)
  have "front = [x]" "behind = []" using r(2,3) by (auto simp: Cons_eq_append_conv)
  then have fin: "map (\<lambda>x. (ord_side x, ord_price x)) (resting BUY (core b)) = [(BUY, 100)]"
      "map (\<lambda>x. (ord_side x, ord_price x)) (resting BUY (core b')) = [(BUY, 100), (SELL, 356)]" "resting SELL (core b') = []"
    using bids px r(4-7) by simp_all
  show ?thesis by (rule exI[of _ b], rule exI[of _ b'], intro conjI) (rule b(1) fin r(1))+
qed

text \<open>From there a later seller is matched against the seller in the bids, at that seller's price:
  both parties of the trade sell.\<close>

theorem price_alias_matches_two_sellers:
  "\<exists>b1 b2 b3. add 1 5 BUY 100 10 (new_MEOrderBook 3) = Inr b1 \<and> add 2 6 SELL 356 7 b1 = Inr b2 \<and>
     add 3 7 SELL 100 15 b2 = Inr b3 \<and>
     drop 5 (sent_responses b3) =
       [\<lparr>rs_type = FILLED, rs_client_id = 3, rs_ticker_id = 3, rs_client_order_id = 7, rs_market_order_id = 3,
          rs_side = SELL, rs_price = 356, rs_exec_qty = 5, rs_left_qty = 0\<rparr>,
        \<lparr>rs_type = FILLED, rs_client_id = 2, rs_ticker_id = 3, rs_client_order_id = 6, rs_market_order_id = 2,
          rs_side = SELL, rs_price = 356, rs_exec_qty = 5, rs_left_qty = 2\<rparr>]"
  by (simp add: me_exec Let_def)

end
