(* ===== verification/Spec2Isabelle.thy ===== *)
theory Spec2Isabelle
  imports MatchingEngine OrderGateway Recovery Mirror PriceTime BookPrinting TradingProps TradingMain Answers
    QueueThreads Logging SocketSetup RequestPath Programs Printing Discipline PriceAlias
begin

text \<open>
  A model of the trading system and its correctness.

  \<^bold>\<open>The program.\<close> An exchange and its clients. A client's trade engine
  (\<^verbatim>\<open>src/client/trade_engine.cpp\<close>) turns market updates into requests; its order gateway sends
  them over TCP to the exchange's order server, whose sequencer orders them by time of receipt; the
  matching engine serves them on one order book per ticker and answers with responses, which go back the
  same way, and with market updates, which the publisher numbers and multicasts. A second multicast stream carries
  snapshots of the live orders, made by the synthetizer; the client's market data consumer follows the first and
  recovers from gaps with the second, and hands the updates to the trade engine, which keeps its own
  book of each ticker. Every arrow between two threads is a single-producer single-consumer queue; the order
  books live in memory pools; all threads log through a queue of strings.

  \<^bold>\<open>How it is modelled.\<close> Every function that can fail returns \<open>fault + 'a\<close> (\<open>res\<close>,
  \<open>Prelude\<close>): a failed \<^verbatim>\<open>assert\<close> is \<open>AssertFailed\<close>, \<^verbatim>\<open>ASSERT\<close> and
  \<^verbatim>\<open>FATAL\<close> are \<open>FatalExit\<close>, a checked index is \<open>OutOfRange\<close>, a null or dangling
  pointer and an unchecked index are \<open>NullDeref\<close> and \<open>WildAccess\<close>, a loop that exceeds its bound is
  \<open>Diverged\<close>. Identifiers, prices and quantities are words of their width; clocks and counters that
  cannot wrap in practice are integers and naturals. Pointers are indices of pool cells. What the program asks of the world
  (the bytes the kernel takes and delivers, the events of epoll, the clock, \<^verbatim>\<open>rand\<close>, initial memory, the order in which
  \<^verbatim>\<open>std::sort\<close> leaves equal elements, the arithmetic of \<^verbatim>\<open>double\<close>) is an
  argument. A thread's state is a record; a turn of its loop is a function; what it sends is part of the new state.

  \<^bold>\<open>Foundations.\<close>
  \<^item> \<open>Prelude\<close>, \<open>TradingTypes\<close>, \<open>Messages\<close>: results, sizes, identifiers and their text
    (\<^verbatim>\<open>utils/types.hpp\<close>), requests, responses and updates (\<^verbatim>\<open>exchange/client_request.hpp\<close>,
    \<^verbatim>\<open>client_response.hpp\<close>, \<^verbatim>\<open>market_data.hpp\<close>).
  \<^item> \<open>MemPool\<close> (\<^verbatim>\<open>utils/mem_pool.hpp\<close>): allocation hands out a free cell and touches no other; the
    interface \<open>cell_pool\<close>, interpreted on the model. Allocating the last cell aborts.
  \<^item> \<open>SpscQueue\<close>, \<open>QueueThreads\<close> (\<^verbatim>\<open>utils/spsc_queue.hpp\<close>): the queue in sequence, as the
    interface \<open>bounded_fifo\<close>, and between two threads: every interleaving of their memory accesses delivers what was
    written, in order, as long as the queue is never filled, and within a bounded number of accesses. A full queue reads as empty.
  \<^item> \<open>Threads\<close>, \<open>Programs\<close> (\<^verbatim>\<open>utils/thread_utils.hpp\<close>, the constructors, destructors,
    \<^verbatim>\<open>start\<close> and \<^verbatim>\<open>stop\<close> of every component, \<^verbatim>\<open>exchange_main.cpp\<close> with its signal handler,
    \<^verbatim>\<open>trading_main.cpp\<close>): the main thread is the list of commands it has still to execute, interleaved with the
    threads it starts. The life cycle of a worker is a state machine, \<open>advance\<close>; the interface \<open>service\<close> is what
    a component promises of its worker, interpreted for each. A program that keeps the discipline never crashes
    and, when everyone gets turns, ends; both programs keep it, and an interrupted exchange exactly outside the starts.
  \<^item> \<open>Clock\<close> (\<^verbatim>\<open>utils/time_utils.hpp\<close>, \<^verbatim>\<open>perf_utils.hpp\<close>): time stamps and their order, cycle
    counts, and the waiting loop of \<^verbatim>\<open>trading_main.cpp\<close>, which ends two tests after the last event.
    \<open>Printing\<close>: the printed forms and log lines of the rest.
  \<^item> \<open>Logging\<close> (\<^verbatim>\<open>utils/logger.hpp\<close>): the format language, that nothing logged is lost or reordered, and
    that a burst can stop both threads.
  \<^item> \<open>Wire\<close>, \<open>Framing\<close>, \<open>Sockets\<close>: the packed structures as bytes with their round trips; the loop that
    reads whole structures off a stream, as the interface \<open>framed\<close>, interpreted for each message; the numbering of
    messages, as the interface \<open>numbering\<close>, interpreted where each kind is numbered; the buffered sockets and the TCP server of \<^verbatim>\<open>src/network\<close>.
  \<^item> \<open>SocketSetup\<close> (\<^verbatim>\<open>networking/socket_utils.hpp\<close>, \<^verbatim>\<open>connect\<close>, \<^verbatim>\<open>listen\<close>, \<^verbatim>\<open>init\<close>,
    \<^verbatim>\<open>join\<close>): the system calls that open and configure a socket, over an arbitrary kernel; a refused
    connection goes unnoticed.

  \<^bold>\<open>Order books.\<close> Exchange and client keep the same pointer structure: rings of levels, rings of orders, an
  array from prices modulo 256 to levels.
  \<^item> \<open>CellRing\<close>: circular doubly linked lists over cells. \<open>BookCore\<close>: the shared pointer operations
    (\<^verbatim>\<open>AddOrderAtPrice\<close>, \<^verbatim>\<open>removeOrderAtPrice\<close>, linking and unlinking an order), statement by
    statement. \<open>BookRep\<close>: the representation invariant \<open>links_rep\<close>, \<open>book_rep\<close>. \<open>BookAdd\<close>,
    \<open>BookRemove\<close>: each operation succeeds and keeps it. \<open>BookView\<close>: the book as the lists \<open>resting\<close> of its orders;
    adding inserts, removing drops. \<open>BookOps\<close>: the same with allocation.
  \<^item> \<open>MEOrderBook\<close> (\<^verbatim>\<open>exchange/order_book.cpp\<close>, \<^verbatim>\<open>order_book.hpp\<close>, \<^verbatim>\<open>me_order.hpp\<close>):
    \<open>add\<close>, \<open>cancel\<close>, \<open>match\<close>, \<open>checkForMatch\<close>. \<open>MatchSpec\<close>: what they promise, on lists
    (\<open>sweep\<close>, \<open>spec_add\<close>, \<open>spec_cancel\<close>). \<open>MEOrderBookRep\<close>, \<open>MEMatch\<close>, \<open>MEBookProps\<close>:
    the refinement. \<open>MatchSafety\<close>, \<open>ExchangeBook\<close>: the invariant of a good book, conservation of
    quantity, limits, cancellation undoing addition, and cases the code gets wrong. \<open>Discipline\<close>: which lists of
    requests a book can serve from its construction on, and that it is in price-time priority after them
    (\<open>disciplined_price_time_priority\<close>); a list that is not disciplined can lead to a book that is not, because prices of one index share a
    level: \<open>PriceAlias\<close> (\<open>price_alias_joins_level\<close>). \<open>PriceTime\<close>: the rank of an order as an instance
    of \<open>linorder\<close>, and the book as a sorted list.
  \<^item> \<open>MarketOrderBook\<close> (\<^verbatim>\<open>client/market_order_book.cpp\<close>, \<^verbatim>\<open>market_order.hpp\<close>): the handler of
    market updates, its quote, and CLEAR. \<open>MarketBookRep\<close>, \<open>ClientBook\<close>: the refinement to two lists and a
    quote. \<open>BookPrinting\<close>: the printed form and its validity check. \<open>Mirror\<close>: the two books together.

  \<^bold>\<open>Exchange.\<close> \<open>MatchingEngine\<close> (\<^verbatim>\<open>exchange/matching_engine.cpp\<close>); \<open>OrderServer\<close>
  (\<^verbatim>\<open>order_server.cpp\<close>, \<^verbatim>\<open>fifo_sequencer.hpp\<close>), with the interface \<open>time_sort\<close> for what
  \<^verbatim>\<open>std::sort\<close> promises; \<open>MarketDataPublisher\<close>; \<open>SnapshotSynthetizer\<close> and \<open>Snapshots\<close>: the
  synthetizer follows the stream, and what it publishes.

  \<open>Exchange\<close> composes them: the state \<open>exchange\<close> holds the four threads' states and their queues, a turn is one iteration of a
  thread's loop, and \<open>exchange_run\<close> are the runs in any order of turns. Whatever the order, the exchange is one matching engine
  that serves the sequenced requests one after the other (\<open>exchange_serializes\<close>), and all sequence numbers agree. What is added to and
  removed from a queue in a turn is in \<open>QueueSteps\<close>.

  \<^bold>\<open>Client.\<close> \<open>OrderGateway\<close>, with the end-to-end theorem of the path of requests; \<open>MarketDataConsumer\<close>
  and \<open>Recovery\<close>: following the stream, gaps, and recovery by a snapshot, which ends with the right orders for a reader that
  obeys CLEAR (\<open>snapshot_recovers_client\<close>), as the client's book does not when it holds orders (\<open>clear_aborts_on_two_levels\<close>,
  \<open>clear_leaves_stale_levels\<close>); \<open>PositionKeeper\<close>
  (\<^verbatim>\<open>position_keeper.hpp\<close>, \<^verbatim>\<open>risk_manager.hpp\<close>); \<open>OrderManager\<close> (\<^verbatim>\<open>order_manager.cpp\<close>,
  \<^verbatim>\<open>om_order.hpp\<close>): the life cycle \<open>om_step\<close> of an order, which fixes every request sent, and the quotes that
  come to rest when the exchange confirms them (\<open>quotes_come_to_rest\<close>); \<open>RandomTrader\<close>; \<open>TradeEngine\<close>
  (\<^verbatim>\<open>trade_engine.cpp\<close>, \<^verbatim>\<open>feature_engine.hpp\<close>, the market maker and the liquidity taker) and
  \<open>TradingProps\<close>: the order in which a turn serves its queues (the interface \<open>queue_loop\<close>), what the algorithms send, and that the
  orders of the market maker and the liquidity taker, unlike those of the random trader, are within their limits;
  \<open>TradingMain\<close>: the command line.

  \<open>Client\<close> composes them: the state \<open>client\<close> holds engine, gateway and consumer with the queues between them, and
  \<open>client_run\<close> are the runs in any order of turns of the three threads, with what has passed through the queues and over the
  wire. The specification is the trading desk (\<open>desk_step\<close>), an engine without queues that handles one event after the
  other; every run is one of the desk (\<open>client_serializes\<close>).

  \<^bold>\<open>End to end.\<close> \<open>MarketPath\<close>: what the engine queues is what its readers know, and the updates of a request, published,
  received and handled, bring the client's book to that of the exchange. \<open>RequestPath\<close>: on an exchange with one connection and nothing
  under way, one request goes from the client's gateway through sequencer and engine and its responses come back, in one fixed schedule.
  \<open>Connections\<close>: runs \<open>fed_run\<close> of the exchange with any number of open connections, each of which delivers the stream of
  one client in pieces cut anywhere; every whole request is sequenced once. \<open>Delivery\<close>: every request of a trading program
  carries its own client identifier, and all trading programs together with the exchange are their desks and one matching
  engine (\<open>desks_reach_books\<close>). \<open>Replies\<close> and \<open>Answers\<close>, the way back: on each socket go the responses to its client, on the
  incremental stream the updates, each numbered from 1 without a gap, and what the desks handle are the first of them
  (\<open>desks_hear_engine\<close>). It asks that no read of a gateway ends inside a response, for one that does after
  at least one whole response loses it (\<open>cut_response_lost\<close>), and that no datagram is lost (\<open>gap_starts_recovery\<close> and
  \<open>snapshot_recovers_client\<close> are about those that are).

  \<^bold>\<open>Bounds.\<close> A loop over a ring is bounded by a little more than the number of cells of its pool; \<open>ring_loop_ring\<close>,
  \<open>add_quantities_ring\<close> and the lemmas of \<open>BookRep\<close> show that a represented book never reaches it. Matching is bounded by the
  size of the order pool, and each iteration removes an order or ends. The reading loops are bounded by one more than the number of elements in
  the queue at the start of the turn, which suffices as nothing arrives during a turn of the model (\<open>serve_all\<close>); other threads act between turns.
  The loop of CLEAR over the levels behind the head has a bound too, but it is never met: the pool aborts in its second iteration.

  \<^bold>\<open>Not modelled.\<close> The interleaving inside a turn, but for the queue (\<open>QueueThreads\<close>) and the start and stop of threads
  (\<open>Threads\<close>, where a turn of a loop is one step): the flags \<^verbatim>\<open>run_\<close> are volatile and not atomic, which C++ leaves
  undefined and the model takes as a plain memory. The exit of the order server when the kernel refuses to configure a socket it has just accepted.
  A change of the local clock between two time stamps. A signal that another thread than the main thread receives, or that arrives before the
  handler is installed. The binding of a thread to a core, which no caller asks for. The calls of \<^verbatim>\<open>log\<close>
  inside the handlers, which change nothing but the log. \<^verbatim>\<open>MEOrderBook::toString\<close>, which is declared and nowhere defined, and
  \<^verbatim>\<open>wouldBlock\<close>, which nothing calls. Relaxed memory orders do not occur in the code:
  its atomics have the default order. A signed overflow and the conversion of doubles beyond their range are undefined in C++; the model computes
  with the exact value (\<open>pos_of\<close>) or leaves it to the argument.
\<close>

end
